(* ===== verification/CPrelude.thy ===== *)
theory CPrelude
  imports Main "HOL-Library.Word"
begin

unbundle bit_operations_syntax

text \<open>
  Shared vocabulary of the development: bytes and C strings, the character classes of
  \<^verbatim>\<open>ctype.h\<close> in the C locale, the decimal representation of numbers as \<^verbatim>\<open>printf\<close> and the
  hand-written conversion loops of the code produce it, the 32-bit wrap-around of a C
  \<^verbatim>\<open>unsigned int\<close> field, and generic lemmas on lists that several components use.
\<close>

section \<open>Fact collections\<close>

named_theorems c_char_simps \<open>evaluation of the character classes\<close>
named_theorems c_list_simps \<open>generic list equations shared by the components\<close>

section \<open>Bytes and C strings\<close>

type_synonym byte = char

abbreviation NUL :: byte where "NUL \<equiv> CHR 0x00"
abbreviation CR :: byte where "CR \<equiv> CHR 0x0D"
abbreviation LF :: byte where "LF \<equiv> CHR 0x0A"

text \<open>A C string is the part of a buffer before its first NUL byte.\<close>

definition cstr :: "byte list \<Rightarrow> byte list" where
  "cstr s = takeWhile (\<lambda>c. c \<noteq> NUL) s"

definition strlen :: "byte list \<Rightarrow> nat" where
  "strlen s = length (cstr s)"

text \<open>Reading at an offset of a terminated string: its end shows the terminator.\<close>

definition peek :: "byte list \<Rightarrow> nat \<Rightarrow> byte" where
  "peek p k = (if k < length p then p ! k else NUL)"

text \<open>The value of a byte read as \<^verbatim>\<open>unsigned char\<close> and as (signed) \<^verbatim>\<open>char\<close>.\<close>

definition uchar :: "byte \<Rightarrow> nat" where
  "uchar c = of_char c"

definition schar :: "byte \<Rightarrow> int" where
  "schar c = (if uchar c < 128 then int (uchar c) else int (uchar c) - 256)"

definition isprint :: "byte \<Rightarrow> bool" where
  "isprint c \<longleftrightarrow> 32 \<le> uchar c \<and> uchar c \<le> 126"

definition isspace :: "byte \<Rightarrow> bool" where
  "isspace c \<longleftrightarrow> uchar c = 32 \<or> (9 \<le> uchar c \<and> uchar c \<le> 13)"

definition isdigit :: "byte \<Rightarrow> bool" where
  "isdigit c \<longleftrightarrow> 48 \<le> uchar c \<and> uchar c \<le> 57"

definition tolower :: "byte \<Rightarrow> byte" where
  "tolower c = (if 65 \<le> uchar c \<and> uchar c \<le> 90 then char_of (uchar c + 32) else c)"

definition toupper :: "byte \<Rightarrow> byte" where
  "toupper c = (if 97 \<le> uchar c \<and> uchar c \<le> 122 then char_of (uchar c - 32) else c)"

lemma cstr_append_NUL [simp]: "cstr (s @ NUL # t) = cstr s"
  by (induction s) (simp_all add: cstr_def)

lemma cstr_id [simp]: "NUL \<notin> set s \<Longrightarrow> cstr s = s"
  by (induction s) (auto simp: cstr_def)

lemma NUL_notin_cstr [simp]: "NUL \<notin> set (cstr s)"
  by (auto simp: cstr_def dest: set_takeWhileD)

lemma strlen_le: "strlen s \<le> length s"
  by (simp add: strlen_def cstr_def length_takeWhile_le)

lemma take_strlen: "take (strlen s) s = cstr s"
  unfolding strlen_def cstr_def by (metis takeWhile_eq_take)

lemma uchar_less: "uchar c < 256"
  by (cases c) (simp add: uchar_def of_char_of)

lemma uchar_char_of [simp]: "n < 256 \<Longrightarrow> uchar (char_of n) = n"
  by (simp add: uchar_def)

lemma char_of_uchar [simp]: "char_of (uchar c) = c"
  by (simp add: uchar_def)

lemma uchar_eq_iff: "uchar c = uchar d \<longleftrightarrow> c = d"
  by (metis char_of_uchar)

lemma char_of_eq_iff_uchar: "n < 256 \<Longrightarrow> char_of n = c \<longleftrightarrow> n = uchar c"
  by (metis char_of_uchar uchar_char_of)

lemmas [c_char_simps] = uchar_def schar_def isprint_def isspace_def isdigit_def
  tolower_def toupper_def

section \<open>Decimal numbers\<close>

definition digit_char :: "nat \<Rightarrow> byte" where
  "digit_char d = char_of (48 + d)"

text \<open>A digit of \<^verbatim>\<open>%x\<close>.\<close>

definition hexdig :: "nat \<Rightarrow> byte" where
  "hexdig n = (if n < 10 then char_of (48 + n) else char_of (87 + n))"

text \<open>The digits of a number, most significant first, as \<^verbatim>\<open>printf\<close> prints them.\<close>

fun dec_of_nat :: "nat \<Rightarrow> byte list" where
  "dec_of_nat n = (if n < 10 then [digit_char n]
                   else dec_of_nat (n div 10) @ [digit_char (n mod 10)])"

declare dec_of_nat.simps [simp del]

definition dec_of_int :: "int \<Rightarrow> byte list" where
  "dec_of_int i = (if i < 0 then CHR ''-'' # dec_of_nat (nat (- i)) else dec_of_nat (nat i))"

definition digit_val :: "byte \<Rightarrow> nat" where
  "digit_val c = uchar c - 48"

definition nat_of_dec :: "byte list \<Rightarrow> nat" where
  "nat_of_dec ds = foldl (\<lambda>v c. v * 10 + digit_val c) 0 ds"

lemma uchar_digit_char [simp]: "d < 10 \<Longrightarrow> uchar (digit_char d) = 48 + d"
  by (simp add: digit_char_def)

lemma isdigit_digit_char [simp]: "d < 10 \<Longrightarrow> isdigit (digit_char d)"
  by (simp add: isdigit_def)

lemma digit_val_digit_char [simp]: "d < 10 \<Longrightarrow> digit_val (digit_char d) = d"
  by (simp add: digit_val_def)

lemma dec_of_nat_digits: "c \<in> set (dec_of_nat n) \<Longrightarrow> isdigit c"
proof (induction n rule: dec_of_nat.induct)
  case (1 n)
  then show ?case
    by (subst (asm) (2) dec_of_nat.simps) (auto split: if_splits)
qed

lemma dec_of_nat_nonempty [simp]: "dec_of_nat n \<noteq> []"
  by (subst dec_of_nat.simps) simp

lemma nat_of_dec_append [simp]:
  "nat_of_dec (ds @ [c]) = nat_of_dec ds * 10 + digit_val c"
  by (simp add: nat_of_dec_def)

lemma nat_of_dec_of_nat [simp]: "nat_of_dec (dec_of_nat n) = n"
proof (induction n rule: dec_of_nat.induct)
  case (1 n)
  show ?case
  proof (cases "n < 10")
    case True
    then show ?thesis by (subst dec_of_nat.simps) (simp add: nat_of_dec_def)
  next
    case False
    with 1 show ?thesis by (subst dec_of_nat.simps) simp
  qed
qed

lemma digit_not_special:
  "isdigit c \<Longrightarrow> c \<noteq> CR \<and> c \<noteq> LF \<and> c \<noteq> CHR ''-'' \<and> c \<noteq> CHR ''+'' \<and> c \<noteq> NUL
     \<and> c \<noteq> CHR ''$'' \<and> c \<noteq> CHR '' ''"
  by (auto simp: isdigit_def uchar_def)

section \<open>Unsigned 32-bit fields\<close>

text \<open>A C \<^verbatim>\<open>unsigned int\<close> field keeps a stored value modulo \<open>2 ^ 32\<close>.\<close>

definition u32 :: "nat \<Rightarrow> nat" where
  "u32 n = n mod 2 ^ 32"

lemma u32_id [simp]: "n < 2 ^ 32 \<Longrightarrow> u32 n = n"
  by (simp add: u32_def)

lemma u32_less [simp]: "u32 n < 2 ^ 32"
  by (simp add: u32_def)

section \<open>Lists\<close>

text \<open>Writing a block of bytes at an offset of a buffer, as \<^verbatim>\<open>memcpy\<close> does.\<close>

definition blit :: "'a list \<Rightarrow> nat \<Rightarrow> 'a list \<Rightarrow> 'a list" where
  "blit buf off src = take off buf @ src @ drop (off + length src) buf"

lemma length_blit [simp]:
  "off + length src \<le> length buf \<Longrightarrow> length (blit buf off src) = length buf"
  by (simp add: blit_def)

lemma take_blit [c_list_simps]:
  "off \<le> length buf \<Longrightarrow> take (off + length src) (blit buf off src) = take off buf @ src"
  by (simp add: blit_def)

lemma nth_blit_beyond:
  "off \<le> length buf \<Longrightarrow> off + length src \<le> i \<Longrightarrow> i < length buf \<Longrightarrow> blit buf off src ! i = buf ! i"
  by (auto simp: blit_def nth_append)

lemma set_blit: "set (blit buf off src) \<subseteq> set buf \<union> set src"
  by (auto simp: blit_def dest: in_set_takeD in_set_dropD)

section \<open>Signed 32-bit values\<close>

text \<open>Conversion to a C \<^verbatim>\<open>int\<close>: two's complement wrap-around.\<close>

definition c_int :: "int \<Rightarrow> int" where
  "c_int x = (x + 2 ^ 31) mod 2 ^ 32 - 2 ^ 31"

lemma c_int_id [simp]: "- (2 ^ 31) \<le> x \<Longrightarrow> x < 2 ^ 31 \<Longrightarrow> c_int x = x"
  by (simp add: c_int_def)

text \<open>The same for \<^verbatim>\<open>long long\<close>.\<close>

definition c_llong :: "int \<Rightarrow> int" where
  "c_llong x = (x + 2 ^ 63) mod 2 ^ 64 - 2 ^ 63"

lemma c_llong_id [simp]: "- (2 ^ 63) \<le> x \<Longrightarrow> x < 2 ^ 63 \<Longrightarrow> c_llong x = x"
  by (simp add: c_llong_def)

text \<open>
  \<^verbatim>\<open>strtol(s, NULL, 10)\<close> with a 64-bit \<^verbatim>\<open>long\<close>: blanks, a sign, digits, limited to the range.
\<close>

definition strtol64 :: "byte list \<Rightarrow> int" where
  "strtol64 s =
     (let t = dropWhile isspace s;
          neg = (peek t 0 = CHR ''-'');
          u = (if neg \<or> peek t 0 = CHR ''+'' then drop 1 t else t);
          v = int (nat_of_dec (takeWhile isdigit u))
      in if neg then max (- (2 ^ 63)) (- v) else min (2 ^ 63 - 1) v)"

lemma strtol64_prefix:
  assumes "n < 2 ^ 63" and tw: "takeWhile isdigit (dec_of_nat n @ more) = dec_of_nat n"
  shows "strtol64 (dec_of_nat n @ more) = int n"
proof -
  obtain c ds where d: "dec_of_nat n = c # ds" by (cases "dec_of_nat n") auto
  have "isdigit c" using d dec_of_nat_digits [of c n] by simp
  then have s: "\<not> isspace c" "c \<noteq> CHR ''-''" "c \<noteq> CHR ''+''"
    by (auto simp: isdigit_def isspace_def uchar_def)
  have "dropWhile isspace (dec_of_nat n @ more) = dec_of_nat n @ more" using d s(1) by simp
  moreover have "peek (dec_of_nat n @ more) 0 = c" using d by (simp add: peek_def)
  ultimately show ?thesis using s(2,3) tw assms(1) by (simp add: strtol64_def Let_def)
qed

lemma takeWhile_dec: "takeWhile isdigit (dec_of_nat n @ more) = dec_of_nat n @ takeWhile isdigit more"
  using dec_of_nat_digits by (subst takeWhile_append2) auto

lemma strtol64_digits: "n < 2 ^ 63 \<Longrightarrow> \<not> isdigit x \<Longrightarrow> strtol64 (dec_of_nat n @ x # more) = int n"
  by (rule strtol64_prefix) (simp_all add: takeWhile_dec)

lemma strtol64_dec: "n < 2 ^ 63 \<Longrightarrow> strtol64 (dec_of_nat n) = int n"
  using strtol64_prefix [of n "[]"] takeWhile_dec [of n "[]"] by simp

lemma strtol64_blanks: "list_all isspace bs \<Longrightarrow> strtol64 (bs @ s) = strtol64 s"
proof -
  assume "list_all isspace bs"
  then have "dropWhile isspace (bs @ s) = dropWhile isspace s"
    by (induction bs) auto
  then show ?thesis by (simp only: strtol64_def)
qed

text \<open>The sign of \<^verbatim>\<open>memcmp\<close>: bytes are compared as \<^verbatim>\<open>unsigned char\<close>.\<close>

fun memcmp_sign :: "byte list \<Rightarrow> byte list \<Rightarrow> int" where
  "memcmp_sign (x # xs) (y # ys) =
     (if uchar x < uchar y then - 1 else if uchar y < uchar x then 1 else memcmp_sign xs ys)"
| "memcmp_sign _ _ = 0"

lemma memcmp_sign_eq: "length xs = length ys \<Longrightarrow> memcmp_sign xs ys = 0 \<longleftrightarrow> xs = ys"
  by (induction xs ys rule: memcmp_sign.induct) (auto simp: uchar_eq_iff not_less dest: le_antisym)

section \<open>Allocation\<close>

text \<open>
  The allocator is not modelled: \<open>a n\<close> is the fresh block of \<open>n\<close> bytes with whatever bytes
  it holds, or \<open>None\<close> when the allocation fails. All that is relied on is the block's size.
\<close>

type_synonym allocator = "nat \<Rightarrow> byte list option"

definition allocator_ok :: "allocator \<Rightarrow> bool" where
  "allocator_ok a \<longleftrightarrow> (\<forall>n b. a n = Some b \<longrightarrow> length b = n)"

text \<open>\<^verbatim>\<open>realloc\<close> keeps the old bytes up to the smaller of the two sizes.\<close>

definition realloc :: "allocator \<Rightarrow> byte list \<Rightarrow> nat \<Rightarrow> byte list option" where
  "realloc a old n = map_option (\<lambda>b. take n old @ drop (length old) b) (a n)"

lemma realloc_length:
  "allocator_ok a \<Longrightarrow> realloc a old n = Some b \<Longrightarrow> length b = n"
  by (auto simp: realloc_def allocator_ok_def min_def)

lemma realloc_take:
  "realloc a old n = Some b \<Longrightarrow> k \<le> n \<Longrightarrow> k \<le> length old \<Longrightarrow> take k b = take k old"
  by (auto simp: realloc_def min_def)

end
