(* ===== verification/StdMap.thy ===== *)
theory StdMap
  imports CPrelude
begin

text \<open>
  The interface of a finite map as the program's components rely on it, and the model of
  \<^verbatim>\<open>std::map\<close>: an association list with strictly ascending keys, which is what an iteration
  over the container visits. The hash table of \<^verbatim>\<open>dict.c\<close> (theory Dict) meets the bounded
  interface.
\<close>

section \<open>The interface\<close>

text \<open>
  What a client of a map may assume: \<open>look\<close> after \<open>upd\<close> and \<open>del\<close>, and an
  invariant kept by both. \<open>room n m\<close> says that \<open>n\<close> more insertions stay within the
  container's capacity: the laws of an insertion hold where there is room for it.
\<close>

locale bounded_map_adt =
  fixes look :: "'m \<Rightarrow> 'k \<Rightarrow> 'v option"
    and upd :: "'k \<Rightarrow> 'v \<Rightarrow> 'm \<Rightarrow> 'm"
    and del :: "'k \<Rightarrow> 'm \<Rightarrow> 'm"
    and inv :: "'m \<Rightarrow> bool"
    and room :: "nat \<Rightarrow> 'm \<Rightarrow> bool"
  assumes look_upd:
      "inv m \<Longrightarrow> room (Suc n) m \<Longrightarrow> look (upd k v m) k' = (if k' = k then Some v else look m k')"
    and look_del: "inv m \<Longrightarrow> look (del k m) k' = (if k' = k then None else look m k')"
    and inv_upd: "inv m \<Longrightarrow> room (Suc n) m \<Longrightarrow> inv (upd k v m)"
    and inv_del: "inv m \<Longrightarrow> inv (del k m)"
    and room_upd: "inv m \<Longrightarrow> room (Suc n) m \<Longrightarrow> room n (upd k v m)"
    and room_del: "inv m \<Longrightarrow> room n m \<Longrightarrow> room n (del k m)"
begin

lemma inv_upds: "inv m \<Longrightarrow> room (length kvs) m \<Longrightarrow> inv (fold (\<lambda>(k, v). upd k v) kvs m)"
  by (induction kvs arbitrary: m) (auto simp: inv_upd room_upd)

lemma inv_dels: "inv m \<Longrightarrow> inv (fold del ks m)"
  by (induction ks arbitrary: m) (auto simp: inv_del)

text \<open>A run of insertions: the last one of a key wins.\<close>

lemma look_upds:
  "inv m \<Longrightarrow> room (length kvs) m \<Longrightarrow> look (fold (\<lambda>(k, v). upd k v) kvs m) k
     = (case map_of (rev kvs) k of Some v \<Rightarrow> Some v | None \<Rightarrow> look m k)"
proof (induction kvs arbitrary: m)
  case Nil
  then show ?case by simp
next
  case (Cons a kvs)
  obtain k0 v0 where a: "a = (k0, v0)" by (cases a)
  have room: "room (Suc (length kvs)) m" using Cons.prems by simp
  have "inv (upd k0 v0 m)" "room (length kvs) (upd k0 v0 m)"
    using inv_upd [OF Cons.prems(1) room] room_upd [OF Cons.prems(1) room] by auto
  then show ?case
    using Cons.IH [of "upd k0 v0 m"] look_upd [OF Cons.prems(1) room]
    by (auto simp: a map_add_def split: option.splits)
qed

text \<open>A run of deletions removes exactly its keys.\<close>

lemma look_dels: "inv m \<Longrightarrow> look (fold del ks m) k = (if k \<in> set ks then None else look m k)"
proof (induction ks arbitrary: m)
  case Nil
  then show ?case by simp
next
  case (Cons a ks)
  then show ?case using Cons.IH [of "del a m"] by (simp add: inv_del look_del)
qed

end

text \<open>A map without a capacity is the special case in which there is always room.\<close>

locale finite_map_adt =
  fixes look :: "'m \<Rightarrow> 'k \<Rightarrow> 'v option"
    and upd :: "'k \<Rightarrow> 'v \<Rightarrow> 'm \<Rightarrow> 'm"
    and del :: "'k \<Rightarrow> 'm \<Rightarrow> 'm"
    and inv :: "'m \<Rightarrow> bool"
  assumes look_upd: "inv m \<Longrightarrow> look (upd k v m) k' = (if k' = k then Some v else look m k')"
    and look_del: "inv m \<Longrightarrow> look (del k m) k' = (if k' = k then None else look m k')"
    and inv_upd: "inv m \<Longrightarrow> inv (upd k v m)"
    and inv_del: "inv m \<Longrightarrow> inv (del k m)"

sublocale finite_map_adt \<subseteq> bounded: bounded_map_adt look upd del inv "\<lambda>n m. True"
  by unfold_locales (simp_all add: look_upd look_del inv_upd inv_del)

context finite_map_adt begin

lemmas inv_upds = bounded.inv_upds [simplified]

lemmas look_upds = bounded.look_upds [simplified]

lemmas inv_dels = bounded.inv_dels

lemmas look_dels = bounded.look_dels

lemma look_del_upd:
  "inv m \<Longrightarrow> look (del k (upd k v m)) k' = (if k' = k then None else look m k')"
  by (simp add: look_del look_upd inv_upd)

end

section \<open>Ordered maps (\<^verbatim>\<open>std::map\<close>)\<close>

type_synonym ('k, 'v) smap = "('k \<times> 'v) list"

definition smap_inv :: "('k::linorder, 'v) smap \<Rightarrow> bool" where
  "smap_inv m \<longleftrightarrow> sorted_wrt (<) (map fst m)"

definition smap_find :: "('k::linorder, 'v) smap \<Rightarrow> 'k \<Rightarrow> 'v option" where
  "smap_find m k = map_of m k"

text \<open>\<^verbatim>\<open>m[k] = v\<close>\<close>

fun smap_set :: "'k::linorder \<Rightarrow> 'v \<Rightarrow> ('k, 'v) smap \<Rightarrow> ('k, 'v) smap" where
  "smap_set k v [] = [(k, v)]"
| "smap_set k v ((k', v') # m) =
     (if k < k' then (k, v) # (k', v') # m
      else if k = k' then (k, v) # m
      else (k', v') # smap_set k v m)"

text \<open>\<^verbatim>\<open>m.erase(k)\<close>\<close>

fun smap_erase :: "'k::linorder \<Rightarrow> ('k, 'v) smap \<Rightarrow> ('k, 'v) smap" where
  "smap_erase k [] = []"
| "smap_erase k ((k', v') # m) = (if k = k' then m else (k', v') # smap_erase k m)"

text \<open>\<^verbatim>\<open>m.insert(make_pair(k, v))\<close>: nothing is stored when the key is there; the flag is \<^verbatim>\<open>second\<close>.\<close>

definition smap_insert :: "'k::linorder \<Rightarrow> 'v \<Rightarrow> ('k, 'v) smap \<Rightarrow> ('k, 'v) smap \<times> bool" where
  "smap_insert k v m =
     (case smap_find m k of Some _ \<Rightarrow> (m, False) | None \<Rightarrow> (smap_set k v m, True))"

lemma set_smap_set: "fst ` set (smap_set k v m) = insert k (fst ` set m)"
  by (induction k v m rule: smap_set.induct) (simp_all add: insert_commute)

lemma smap_inv_Cons [simp]:
  "smap_inv ((k, v) # m) \<longleftrightarrow> (\<forall>k' \<in> fst ` set m. k < k') \<and> smap_inv m"
  by (auto simp: smap_inv_def)

lemma smap_inv_Nil [simp]: "smap_inv []"
  by (simp add: smap_inv_def)

lemma smap_inv_set [intro]: "smap_inv m \<Longrightarrow> smap_inv (smap_set k v m)"
proof (induction m)
  case Nil
  then show ?case by simp
next
  case (Cons a m)
  obtain k' v' where a: "a = (k', v')" by (cases a)
  from Cons show ?case
    by (cases "k < k'"; cases "k = k'") (auto simp: a set_smap_set)
qed

lemma smap_erase_subset: "set (smap_erase k m) \<subseteq> set m"
  by (induction m) (auto split: if_splits)

lemma smap_inv_erase [intro]: "smap_inv m \<Longrightarrow> smap_inv (smap_erase k m)"
proof (induction m)
  case Nil
  then show ?case by simp
next
  case (Cons a m)
  obtain k' v' where a: "a = (k', v')" by (cases a)
  from Cons show ?case
    using smap_erase_subset [of k m] by (auto simp: a image_iff)
qed

lemma smap_find_set: "smap_inv m \<Longrightarrow> smap_find (smap_set k v m) k' = (if k' = k then Some v else smap_find m k')"
  by (induction m) (auto simp: smap_find_def)

lemma smap_find_absent: "smap_inv m \<Longrightarrow> \<forall>k' \<in> fst ` set m. k < k' \<Longrightarrow> smap_find m k = None"
  by (auto simp: smap_find_def map_of_eq_None_iff)

lemma smap_find_erase: "smap_inv m \<Longrightarrow> smap_find (smap_erase k m) k' = (if k' = k then None else smap_find m k')"
proof (induction m)
  case Nil
  then show ?case by (simp add: smap_find_def)
next
  case (Cons a m)
  obtain k0 v0 where a: "a = (k0, v0)" by (cases a)
  from Cons show ?case
    using smap_find_absent [of m k0] by (auto simp: a smap_find_def)
qed

interpretation smap: finite_map_adt smap_find smap_set smap_erase smap_inv
  by unfold_locales (auto simp: smap_find_set smap_find_erase)

lemma smap_find_set_eq:
  "smap_inv m \<Longrightarrow> (k, v) \<in> set m \<longleftrightarrow> smap_find m k = Some v"
  by (induction m) (force simp: smap_find_def)+

lemma smap_inv_insert [intro]: "smap_inv m \<Longrightarrow> smap_inv (fst (smap_insert k v m))"
  by (auto simp: smap_insert_def split: option.splits)

text \<open>Two ordered maps with the same lookups are the same container.\<close>

lemma smap_ext:
  "smap_inv m \<Longrightarrow> smap_inv m' \<Longrightarrow> (\<And>k. smap_find m k = smap_find m' k) \<Longrightarrow> m = m'"
proof -
  assume inv: "smap_inv m" "smap_inv m'" and look: "\<And>k. smap_find m k = smap_find m' k"
  have eq: "set m = set m'"
    using look smap_find_set_eq [OF inv(1)] smap_find_set_eq [OF inv(2)] by auto
  have dist: "distinct (map fst m)" "distinct (map fst m')"
    using inv by (auto simp: smap_inv_def strict_sorted_iff)
  have "inj_on fst (set m \<union> set m')"
    using dist(1) eq by (simp add: distinct_map)
  moreover have "sorted (map fst m)" "sorted (map fst m')"
    using inv by (auto simp: smap_inv_def strict_sorted_iff)
  ultimately show ?thesis
    using dist eq by (intro map_sorted_distinct_set_unique [where f = fst]) auto
qed

text \<open>Sums over the entries, in the order of the container.\<close>

lemma smap_sum_set:
  fixes f :: "'k::linorder \<times> 'v \<Rightarrow> 'a::comm_monoid_add"
  shows "smap_find m k = None \<Longrightarrow> sum_list (map f (smap_set k v m)) = f (k, v) + sum_list (map f m)"
  by (induction k v m rule: smap_set.induct) (auto simp: smap_find_def ac_simps split: if_splits)

lemma smap_sum_erase:
  fixes f :: "'k::linorder \<times> 'v \<Rightarrow> 'a::comm_monoid_add"
  shows "smap_find m k = Some v \<Longrightarrow> sum_list (map f m) = f (k, v) + sum_list (map f (smap_erase k m))"
  by (induction k m rule: smap_erase.induct) (auto simp: smap_find_def ac_simps split: if_splits)

end
