(* ===== verification/RedeemCode.thy ===== *)
theory RedeemCode
  imports StdMap
begin

unbundle bit_operations_syntax

text \<open>
  \<^verbatim>\<open>RedeemCode/src/serialcode_parser.{h,cc}\<close>: class \<^verbatim>\<open>RedeemCodeMgr\<close>, which turns a function id
  and a serial number into an eight-character code with a signature and checks such codes.
  \<^verbatim>\<open>uint32_t\<close> is \<open>32 word\<close>, \<^verbatim>\<open>uint64_t\<close> is \<open>64 word\<close>; a C++ string is a \<open>string\<close>.
  \<^verbatim>\<open>code[i]\<close> of a \<^verbatim>\<open>std::string\<close> is defined up to \<open>i = size()\<close>, where it is the NUL byte; beyond
  that the read is undefined and the model returns \<open>None\<close>. Logging is left out.
\<close>

section \<open>struct RedeemCodeCfg\<close>

definition SIGN_XOR_KEY :: "32 word" where "SIGN_XOR_KEY = 0x7f8a1231"
definition REDEEM_CODE_LEN :: nat where "REDEEM_CODE_LEN = 8"
definition REDEEM_CODE_BIT_LEN :: nat where "REDEEM_CODE_BIT_LEN = REDEEM_CODE_LEN * 5"
definition SIGN_BIT_LEN :: nat where "SIGN_BIT_LEN = 10"
definition FUN_ID_BIT_LEN :: nat where "FUN_ID_BIT_LEN = 8"
definition UNIQUE_CODE_BIT_LEN :: nat where
  "UNIQUE_CODE_BIT_LEN = REDEEM_CODE_BIT_LEN - SIGN_BIT_LEN - FUN_ID_BIT_LEN"
definition FUN_ID_BIT_START_IDX :: nat where
  "FUN_ID_BIT_START_IDX = REDEEM_CODE_BIT_LEN - FUN_ID_BIT_LEN"
definition UNIQUE_CODE_BIT_START_IDX :: nat where
  "UNIQUE_CODE_BIT_START_IDX = FUN_ID_BIT_START_IDX - UNIQUE_CODE_BIT_LEN"
definition SIGN_BIT_START_IDX :: nat where
  "SIGN_BIT_START_IDX = UNIQUE_CODE_BIT_START_IDX - SIGN_BIT_LEN"
definition FUN_ID_MAX :: "32 word" where "FUN_ID_MAX = push_bit FUN_ID_BIT_LEN 1 - 1"
definition UNIQUE_CODE_MAX :: "32 word" where
  "UNIQUE_CODE_MAX = push_bit UNIQUE_CODE_BIT_LEN 1 - 1"
definition SIGN_MAX :: "32 word" where "SIGN_MAX = push_bit SIGN_BIT_LEN 1 - 1"

lemmas cfg_lens = REDEEM_CODE_LEN_def REDEEM_CODE_BIT_LEN_def SIGN_BIT_LEN_def FUN_ID_BIT_LEN_def
  UNIQUE_CODE_BIT_LEN_def FUN_ID_BIT_START_IDX_def UNIQUE_CODE_BIT_START_IDX_def
  SIGN_BIT_START_IDX_def

section \<open>RedeemCodeMgr\<close>

definition ConvertBase32CharToNum :: "char \<Rightarrow> 64 word" where
  "ConvertBase32CharToNum c =
     (if c = CHR ''A'' then 0 else if c = CHR ''B'' then 1 else if c = CHR ''C'' then 2
      else if c = CHR ''D'' then 3 else if c = CHR ''E'' then 4 else if c = CHR ''F'' then 5
      else if c = CHR ''G'' then 6 else if c = CHR ''H'' then 7 else if c = CHR ''J'' then 8
      else if c = CHR ''K'' then 9 else if c = CHR ''L'' then 10 else if c = CHR ''M'' then 11
      else if c = CHR ''N'' then 12 else if c = CHR ''P'' then 13 else if c = CHR ''Q'' then 14
      else if c = CHR ''R'' then 15 else if c = CHR ''S'' then 16 else if c = CHR ''T'' then 17
      else if c = CHR ''U'' then 18 else if c = CHR ''V'' then 19 else if c = CHR ''W'' then 20
      else if c = CHR ''X'' then 21 else if c = CHR ''Y'' then 22 else if c = CHR ''Z'' then 23
      else if c = CHR ''2'' then 24 else if c = CHR ''3'' then 25 else if c = CHR ''4'' then 26
      else if c = CHR ''5'' then 27 else if c = CHR ''6'' then 28 else if c = CHR ''7'' then 29
      else if c = CHR ''8'' then 30 else if c = CHR ''9'' then 31 else 999)"

definition char_at :: "string \<Rightarrow> nat \<Rightarrow> char option" where
  "char_at s i = (if i < length s then Some (s ! i) else if i = length s then Some NUL else None)"

fun CodeToUint64_loop :: "string \<Rightarrow> nat list \<Rightarrow> 64 word \<Rightarrow> 64 word option" where
  "CodeToUint64_loop code [] src = Some src"
| "CodeToUint64_loop code (i # is) src =
     (case char_at code i of
        None \<Rightarrow> None
      | Some c \<Rightarrow>
          (let originNum = ConvertBase32CharToNum c in
           if 32 \<le> originNum then Some 0
           else CodeToUint64_loop code is
                  (src + push_bit ((REDEEM_CODE_BIT_LEN - 5) - i * 5) originNum)))"

definition CodeToUint64 :: "string \<Rightarrow> 64 word option" where
  "CodeToUint64 code = CodeToUint64_loop code [0..<REDEEM_CODE_LEN] 0"

definition GetSign :: "32 word \<Rightarrow> 32 word" where
  "GetSign src = (src XOR SIGN_XOR_KEY) AND SIGN_MAX"

definition CheckCodeValid :: "string \<Rightarrow> bool option" where
  "CheckCodeValid code =
     (if length code \<noteq> REDEEM_CODE_LEN then Some False
      else case CodeToUint64 code of
        None \<Rightarrow> None
      | Some src \<Rightarrow>
          (let sign_src = drop_bit SIGN_BIT_LEN src;
               sign = (ucast (src AND ucast SIGN_MAX) :: 32 word);
               check_sign = GetSign (ucast sign_src)
           in Some (sign = check_sign)))"

definition Base32Alphabet :: string where
  "Base32Alphabet = ''ABCDEFGHJKLMNPQRSTUVWXYZ23456789''"

definition Uint64ToCode :: "64 word \<Rightarrow> string" where
  "Uint64ToCode longRandValue =
     map (\<lambda>i. Base32Alphabet !
            unat (ucast (drop_bit ((REDEEM_CODE_BIT_LEN - 5) - i * 5) longRandValue AND 0x1F)
                   :: 32 word))
       [0..<REDEEM_CODE_LEN]"

definition UNIQUE_CODE_XOR_KEY :: "(32 word) list" where
  "UNIQUE_CODE_XOR_KEY = [0x7f8a4233, 0xba563e73, 0xaffa32ce, 0x5f8a3dd2]"

definition CreateRedeemCode :: "32 word \<Rightarrow> 32 word \<Rightarrow> string" where
  "CreateRedeemCode fun_id0 unique_code0 =
     (if FUN_ID_MAX < fun_id0 then ''''
      else if UNIQUE_CODE_MAX < unique_code0 then ''''
      else
        let unique_code1 = unique_code0 XOR (UNIQUE_CODE_XOR_KEY ! unat (unique_code0 mod 4));
            unique_code = unique_code1 AND UNIQUE_CODE_MAX;
            fun_id1 = unique_code XOR fun_id0;
            fun_id = fun_id1 AND FUN_ID_MAX;
            fun_id_seg = push_bit FUN_ID_BIT_START_IDX (ucast fun_id :: 64 word);
            unique_code_seg = push_bit UNIQUE_CODE_BIT_START_IDX (ucast unique_code :: 64 word);
            sign_src_seg = fun_id_seg OR unique_code_seg;
            sign_src = drop_bit SIGN_BIT_LEN sign_src_seg;
            sign = GetSign (ucast sign_src);
            code = sign_src_seg OR ucast sign
        in Uint64ToCode code)"

definition GetFunId :: "string \<Rightarrow> 32 word option" where
  "GetFunId code =
     (case CodeToUint64 code of
        None \<Rightarrow> None
      | Some src \<Rightarrow>
          (let unique_code = (ucast (drop_bit UNIQUE_CODE_BIT_START_IDX src
                                       AND ucast UNIQUE_CODE_MAX) :: 32 word);
               fun_id = (ucast (drop_bit FUN_ID_BIT_START_IDX src AND ucast FUN_ID_MAX) :: 32 word);
               fun_id' = unique_code XOR fun_id
           in Some (fun_id' AND FUN_ID_MAX)))"

definition CheckCfg :: bool where
  "CheckCfg =
     (if REDEEM_CODE_BIT_LEN < SIGN_BIT_LEN * 2 then False
      else if 64 < REDEEM_CODE_BIT_LEN then False
      else if SIGN_BIT_START_IDX \<noteq> 0 then False
      else True)"

section \<open>Base 32\<close>

lemma FUN_ID_MAX_mask: "FUN_ID_MAX = mask 8"
  by (simp add: FUN_ID_MAX_def cfg_lens mask_eq_exp_minus_1)

lemma UNIQUE_CODE_MAX_mask: "UNIQUE_CODE_MAX = mask 22"
  by (simp add: UNIQUE_CODE_MAX_def cfg_lens mask_eq_exp_minus_1)

lemma SIGN_MAX_mask: "SIGN_MAX = mask 10"
  by (simp add: SIGN_MAX_def cfg_lens mask_eq_exp_minus_1)

lemmas max_masks = FUN_ID_MAX_mask UNIQUE_CODE_MAX_mask SIGN_MAX_mask

lemma Convert_alphabet: "d < 32 \<Longrightarrow> ConvertBase32CharToNum (Base32Alphabet ! d) = of_nat d"
proof -
  have "\<forall>d \<in> set [0..<32]. ConvertBase32CharToNum (Base32Alphabet ! d) = of_nat d"
    unfolding Base32Alphabet_def ConvertBase32CharToNum_def by (simp add: upt_rec)
  then show "d < 32 \<Longrightarrow> ?thesis" by simp
qed

lemma take_bit_split5:
  "take_bit (k + 5) (v :: 64 word) = push_bit k (take_bit 5 (drop_bit k v)) + take_bit k v"
  using bits_ident [of k "take_bit (k + 5) v"] by (simp add: drop_bit_take_bit)

lemma idx_eq: "unat (ucast (w AND (0x1F :: 64 word)) :: 32 word) = unat (take_bit 5 w)"
proof -
  have "w AND 0x1F = take_bit 5 w"
    by (simp add: take_bit_eq_mask mask_eq_exp_minus_1)
  moreover have "unat (take_bit 5 w) < 2 ^ 5"
    using take_bit_nat_less_exp [of 5 "unat w"] by (simp add: unsigned_take_bit_eq)
  ultimately show ?thesis
    by (simp add: unsigned_ucast_eq take_bit_nat_eq_self)
qed

lemma take_bit5_less: "take_bit 5 (w :: 64 word) < 32"
  using take_bit_nat_less_exp [of 5 "unat w"]
  by (simp add: word_less_nat_alt unsigned_take_bit_eq)


lemma not_32_le: "\<not> 32 \<le> take_bit 5 (w :: 64 word)"
  using take_bit5_less [of w] by (simp add: not_le)

lemma upt8: "[0..<8] = [0, 1, 2, 3, 4, 5, 6, 7 :: nat]"
  by (simp add: upt_rec)

lemma Uint64ToCode_eq:
  "Uint64ToCode v = map (\<lambda>k. Base32Alphabet ! unat (take_bit 5 (drop_bit k v)))
                      [35, 30, 25, 20, 15, 10, 5, 0]"
  unfolding Uint64ToCode_def idx_eq by (simp add: cfg_lens upt8)

lemma length_Uint64ToCode [simp]: "length (Uint64ToCode v) = 8"
  by (simp add: Uint64ToCode_eq)

lemma Convert_digit:
  "ConvertBase32CharToNum (Base32Alphabet ! unat (take_bit 5 w)) = take_bit 5 w"
  using take_bit5_less [of w] by (simp add: Convert_alphabet word_less_nat_alt)

theorem CodeToUint64_Uint64ToCode: "CodeToUint64 (Uint64ToCode v) = Some (take_bit 40 v)"
proof -
  let ?d = "\<lambda>k. take_bit 5 (drop_bit k v)"
  have "CodeToUint64 (Uint64ToCode v) =
      Some (push_bit 35 (?d 35) + push_bit 30 (?d 30) + push_bit 25 (?d 25) + push_bit 20 (?d 20)
          + push_bit 15 (?d 15) + push_bit 10 (?d 10) + push_bit 5 (?d 5) + push_bit 0 (?d 0))"
    unfolding CodeToUint64_def Uint64ToCode_eq
    by (simp add: not_32_le cfg_lens upt8 char_at_def Convert_digit Let_def)
  also have "\<dots> = Some (take_bit 40 v)"
    using take_bit_split5 [of 35 v] take_bit_split5 [of 30 v] take_bit_split5 [of 25 v]
      take_bit_split5 [of 20 v] take_bit_split5 [of 15 v] take_bit_split5 [of 10 v]
      take_bit_split5 [of 5 v] take_bit_split5 [of 0 v]
    by (simp add: add.assoc)
  finally show ?thesis .
qed

section \<open>The fields of a generated code\<close>

text \<open>The serial number as it is stored in the code, and the 40-bit word of a code.\<close>

definition scramble :: "32 word \<Rightarrow> 32 word" where
  "scramble u = (u XOR (UNIQUE_CODE_XOR_KEY ! unat (u mod 4))) AND UNIQUE_CODE_MAX"

definition code_seg :: "32 word \<Rightarrow> 32 word \<Rightarrow> 64 word" where
  "code_seg f s = push_bit 32 (ucast ((s XOR f) AND FUN_ID_MAX)) OR push_bit 10 (ucast s)"

definition code_word :: "32 word \<Rightarrow> 32 word \<Rightarrow> 64 word" where
  "code_word f s = code_seg f s OR ucast (GetSign (ucast (drop_bit 10 (code_seg f s))))"

lemma CreateRedeemCode_eq:
  "f \<le> FUN_ID_MAX \<Longrightarrow> u \<le> UNIQUE_CODE_MAX \<Longrightarrow>
     CreateRedeemCode f u = Uint64ToCode (code_word f (scramble u))"
  unfolding CreateRedeemCode_def code_word_def code_seg_def scramble_def Let_def
  by (simp only: not_less [symmetric] if_False) (simp add: cfg_lens)

lemma le_nat_take_bit: "unat (w :: 32 word) < 2 ^ n \<longleftrightarrow> take_bit n w = w"
proof -
  have "unat w < 2 ^ n \<longleftrightarrow> take_bit n (unat w) = unat w"
    by (simp add: take_bit_nat_eq_self_iff)
  also have "\<dots> \<longleftrightarrow> take_bit n w = w"
    by (metis unsigned_take_bit_eq unsigned_word_eqI)
  finally show ?thesis .
qed

lemma le_maxima_take_bit:
  "(w :: 32 word) \<le> FUN_ID_MAX \<longleftrightarrow> take_bit 8 w = w"
  "(w :: 32 word) \<le> UNIQUE_CODE_MAX \<longleftrightarrow> take_bit 22 w = w"
  using le_nat_take_bit [of w 8] le_nat_take_bit [of w 22]
  by (auto simp: max_masks mask_eq_exp_minus_1 word_le_nat_alt)

lemma scramble_bound: "take_bit 22 (scramble u) = scramble u"
  by (simp add: scramble_def max_masks flip: take_bit_eq_mask)

lemma GetSign_bound: "take_bit 10 (GetSign w) = GetSign w"
  by (simp add: GetSign_def max_masks flip: take_bit_eq_mask)

lemma bit_bounded: "take_bit n w = w \<Longrightarrow> bit w k \<Longrightarrow> k < n"
  by (metis bit_take_bit_iff)

lemma code_word_fields:
  assumes s: "take_bit 22 s = s"
  shows "take_bit 40 (code_word f s) = code_word f s"
    and "drop_bit 32 (code_word f s) = ucast ((s XOR f) AND FUN_ID_MAX)"
    and "take_bit 22 (drop_bit 10 (code_word f s)) = ucast s"
    and "drop_bit 10 (code_word f s) = drop_bit 10 (code_seg f s)"
    and "take_bit 10 (code_word f s) = ucast (GetSign (ucast (drop_bit 10 (code_seg f s))))"
proof -
  note b = bit_bounded [OF s] bit_bounded [OF GetSign_bound]
  show "take_bit 40 (code_word f s) = code_word f s"
    by (rule bit_word_eqI) (auto simp: code_word_def code_seg_def max_masks bit_simps dest: b)
  show "drop_bit 32 (code_word f s) = ucast ((s XOR f) AND FUN_ID_MAX)"
    by (rule bit_word_eqI) (auto simp: code_word_def code_seg_def max_masks bit_simps dest: b)
  show "take_bit 22 (drop_bit 10 (code_word f s)) = ucast s"
    by (rule bit_word_eqI) (auto simp: code_word_def code_seg_def max_masks bit_simps dest: b)
  show "drop_bit 10 (code_word f s) = drop_bit 10 (code_seg f s)"
    by (rule bit_word_eqI) (auto simp: code_word_def max_masks bit_simps dest: b)
  show "take_bit 10 (code_word f s) = ucast (GetSign (ucast (drop_bit 10 (code_seg f s))))"
    by (rule bit_word_eqI) (auto simp: code_word_def code_seg_def max_masks bit_simps dest: b)
qed

lemma CodeToUint64_Create:
  "f \<le> FUN_ID_MAX \<Longrightarrow> u \<le> UNIQUE_CODE_MAX \<Longrightarrow>
     CodeToUint64 (CreateRedeemCode f u) = Some (code_word f (scramble u))"
  by (simp add: CreateRedeemCode_eq CodeToUint64_Uint64ToCode
      code_word_fields [OF scramble_bound])

text \<open>The scrambling of the serial number is a bijection on the 22-bit numbers.\<close>

definition unscramble :: "32 word \<Rightarrow> 32 word" where
  "unscramble s =
     (s XOR (UNIQUE_CODE_XOR_KEY ! ([2, 3, 1, 0] ! unat (s mod 4)))) AND UNIQUE_CODE_MAX"

lemma mod4_cases: "(w :: 32 word) mod 4 \<in> {0, 1, 2, 3}"
proof -
  define x where "x = w mod 4"
  have "unat x < 4" by (simp add: x_def unat_mod)
  then have "unat x = 0 \<or> unat x = 1 \<or> unat x = 2 \<or> unat x = 3" by arith
  then have "x \<in> {0, 1, 2, 3}" by (simp add: word_unat_eq_iff)
  then show ?thesis by (simp only: x_def)
qed

lemma mod4_take_bit: "(w :: 32 word) mod 4 = take_bit 2 w"
  by (simp add: take_bit_eq_mod)

lemma unscramble_scramble: "take_bit 22 u = u \<Longrightarrow> unscramble (scramble u) = u"
proof -
  assume u: "take_bit 22 u = u"
  have low: "scramble u mod 4 = take_bit 2 (UNIQUE_CODE_XOR_KEY ! unat (u mod 4)) XOR (u mod 4)"
    unfolding mod4_take_bit scramble_def max_masks
    by (rule bit_word_eqI) (auto simp: bit_simps)
  have "[2, 3, 1, 0] ! unat (scramble u mod 4) = unat (u mod 4)"
    using mod4_cases [of u] unfolding low UNIQUE_CODE_XOR_KEY_def
    by (elim insertE emptyE) simp_all
  then have "unscramble (scramble u) = (scramble u XOR (UNIQUE_CODE_XOR_KEY ! unat (u mod 4)))
      AND UNIQUE_CODE_MAX"
    by (simp add: unscramble_def)
  also have "\<dots> = u"
    unfolding scramble_def max_masks
    by (rule bit_word_eqI) (auto simp: bit_simps dest: bit_bounded [OF u])
  finally show ?thesis .
qed

lemma scramble_unscramble: "take_bit 22 s = s \<Longrightarrow> scramble (unscramble s) = s"
proof -
  assume s: "take_bit 22 s = s"
  let ?i = "[2, 3, 1, 0 :: nat] ! unat (s mod 4)"
  have low: "unscramble s mod 4 = take_bit 2 (UNIQUE_CODE_XOR_KEY ! ?i) XOR (s mod 4)"
    unfolding mod4_take_bit unscramble_def max_masks
    by (rule bit_word_eqI) (auto simp: bit_simps)
  have i: "unat (unscramble s mod 4) = ?i"
    using mod4_cases [of s] unfolding low UNIQUE_CODE_XOR_KEY_def
    by (elim insertE emptyE) simp_all
  show ?thesis
    unfolding scramble_def i unfolding unscramble_def max_masks
    by (rule bit_word_eqI) (auto simp: bit_simps dest: bit_bounded [OF s])
qed

section \<open>What the code guarantees\<close>

lemma sign_of_code_word:
  "take_bit 22 s = s \<Longrightarrow>
     ucast (code_word f s AND ucast SIGN_MAX) = GetSign (ucast (drop_bit 10 (code_word f s)))"
proof -
  assume s: "take_bit 22 s = s"
  let ?g = "GetSign (ucast (drop_bit 10 (code_seg f s)))"
  have "code_word f s AND ucast SIGN_MAX = take_bit 10 (code_word f s)"
    by (rule bit_word_eqI) (auto simp: max_masks bit_simps)
  then have "ucast (code_word f s AND ucast SIGN_MAX) = (ucast (ucast ?g :: 64 word) :: 32 word)"
    by (simp only: code_word_fields(5) [OF s])
  also have "\<dots> = ?g"
    by (rule bit_word_eqI) (auto simp: bit_simps)
  finally show ?thesis by (simp only: code_word_fields(4) [OF s])
qed

lemma Create_valid:
  assumes "f \<le> FUN_ID_MAX" and "u \<le> UNIQUE_CODE_MAX"
  shows "CheckCodeValid (CreateRedeemCode f u) = Some True"
proof -
  have "length (CreateRedeemCode f u) = REDEEM_CODE_LEN"
    by (simp add: CreateRedeemCode_eq [OF assms] cfg_lens)
  then show ?thesis
    using sign_of_code_word [OF scramble_bound, of f u]
    by (simp add: CheckCodeValid_def CodeToUint64_Create [OF assms] Let_def cfg_lens)
qed

lemma ucast_ucast_32 [simp]: "(ucast (ucast (w :: 32 word) :: 64 word) :: 32 word) = w"
  by (rule bit_word_eqI) (auto simp: bit_simps)

lemma field_masks:
  "(w :: 64 word) AND ucast UNIQUE_CODE_MAX = take_bit 22 w"
  "(w :: 64 word) AND ucast FUN_ID_MAX = take_bit 8 w"
  by (rule bit_word_eqI, auto simp: max_masks bit_simps)+

lemma GetFunId_code_word:
  assumes s: "take_bit 22 s = s" and f: "take_bit 8 f = f"
  shows "(ucast (take_bit 22 (drop_bit 10 (code_word f s)))
            XOR ucast (take_bit 8 (drop_bit 32 (code_word f s)))) AND FUN_ID_MAX = f"
proof -
  have "take_bit 8 (drop_bit 32 (code_word f s)) = ucast ((s XOR f) AND FUN_ID_MAX)"
    unfolding code_word_fields(2) [OF s]
    by (rule bit_word_eqI) (auto simp: max_masks bit_simps)
  then have "(ucast (take_bit 22 (drop_bit 10 (code_word f s)))
            XOR ucast (take_bit 8 (drop_bit 32 (code_word f s)))) AND FUN_ID_MAX
      = (s XOR ((s XOR f) AND FUN_ID_MAX)) AND FUN_ID_MAX"
    by (simp only: code_word_fields(3) [OF s] ucast_ucast_32)
  also have "\<dots> = f"
    by (rule bit_word_eqI) (auto simp: max_masks bit_simps dest: bit_bounded [OF f])
  finally show ?thesis .
qed

lemma Create_GetFunId:
  assumes "f \<le> FUN_ID_MAX" and "u \<le> UNIQUE_CODE_MAX"
  shows "GetFunId (CreateRedeemCode f u) = Some f"
  using GetFunId_code_word [OF scramble_bound [of u]] assms(1)
  by (simp add: GetFunId_def CodeToUint64_Create [OF assms] Let_def cfg_lens field_masks
      le_maxima_take_bit)

lemma Create_inj:
  assumes "f \<le> FUN_ID_MAX" "u \<le> UNIQUE_CODE_MAX" "f' \<le> FUN_ID_MAX" "u' \<le> UNIQUE_CODE_MAX"
    and eq: "CreateRedeemCode f u = CreateRedeemCode f' u'"
  shows "f = f' \<and> u = u'"
proof -
  have "Some f = Some f'"
    using eq Create_GetFunId [OF assms(1,2)] Create_GetFunId [OF assms(3,4)] by simp
  moreover have "code_word f (scramble u) = code_word f' (scramble u')"
    using eq CodeToUint64_Create [OF assms(1,2)] CodeToUint64_Create [OF assms(3,4)] by simp
  then have "(ucast (scramble u) :: 64 word) = ucast (scramble u')"
    using code_word_fields(3) [OF scramble_bound, of f u]
      code_word_fields(3) [OF scramble_bound, of f' u'] by simp
  then have "scramble u = scramble u'" by (metis ucast_ucast_32)
  then have "u = u'"
    using unscramble_scramble assms(2,4) by (metis le_maxima_take_bit(2))
  ultimately show ?thesis by simp
qed

section \<open>Only generated codes are accepted\<close>

lemma Convert_inverse:
  assumes "ConvertBase32CharToNum c < 32"
  shows "Base32Alphabet ! unat (ConvertBase32CharToNum c) = c"
proof -
  have "c \<in> set Base32Alphabet"
  proof (rule ccontr)
    assume "c \<notin> set Base32Alphabet"
    then have "ConvertBase32CharToNum c = 999"
      by (simp add: Base32Alphabet_def ConvertBase32CharToNum_def)
    with assms show False by simp
  qed
  then obtain d where "d < length Base32Alphabet" and d: "c = Base32Alphabet ! d"
    by (auto simp: in_set_conv_nth)
  then have "d < 32" by (simp add: Base32Alphabet_def)
  then show ?thesis
    using d by (simp add: Convert_alphabet unat_of_nat)
qed

lemma add_digit:
  assumes r: "take_bit k (r :: 64 word) = r" and d: "take_bit 5 d = d" and k: "k + 5 \<le> 64"
  shows "take_bit (k + 5) (push_bit k d + r) = push_bit k d + r"
    and "drop_bit k (push_bit k d + r) = d"
    and "take_bit k (push_bit k d + r) = r"
proof -
  have plus: "push_bit k d + r = push_bit k d OR r"
    by (rule disjunctive_add) (auto simp: bit_simps dest: bit_bounded [OF r])
  note b = bit_bounded [OF r] bit_bounded [OF d]
  show "take_bit (k + 5) (push_bit k d + r) = push_bit k d + r"
    unfolding plus by (rule bit_word_eqI) (use k in \<open>auto simp: bit_simps dest: b\<close>)
  show "drop_bit k (push_bit k d + r) = d"
    unfolding plus using k by (intro bit_word_eqI) (auto simp: bit_simps dest: b)
  show "take_bit k (push_bit k d + r) = r"
    unfolding plus by (rule bit_word_eqI) (auto simp: bit_simps dest: b)
qed

fun digits_word :: "(64 word) list \<Rightarrow> 64 word" where
  "digits_word [] = 0"
| "digits_word (d # ds) = push_bit (5 * length ds) d + digits_word ds"

lemma digits_word_fits:
  "\<forall>d \<in> set ds. take_bit 5 d = d \<Longrightarrow> 5 * length ds \<le> 64 \<Longrightarrow>
     take_bit (5 * length ds) (digits_word ds) = digits_word ds"
proof (induction ds)
  case Nil
  then show ?case by simp
next
  case (Cons d ds)
  then show ?case
    using add_digit(1) [of "5 * length ds" "digits_word ds" d] by (simp add: add.commute)
qed

lemma digits_word_nth:
  "\<forall>d \<in> set ds. take_bit 5 d = d \<Longrightarrow> 5 * length ds \<le> 64 \<Longrightarrow> i < length ds \<Longrightarrow>
     take_bit 5 (drop_bit (5 * (length ds - Suc i)) (digits_word ds)) = ds ! i"
proof (induction ds arbitrary: i)
  case Nil
  then show ?case by simp
next
  case (Cons d ds)
  have fits: "take_bit (5 * length ds) (digits_word ds) = digits_word ds"
    using Cons.prems by (intro digits_word_fits) auto
  note add = add_digit [OF fits, of d]
  show ?case
  proof (cases i)
    case 0
    then show ?thesis using add(2) Cons.prems by simp
  next
    case (Suc j)
    let ?k = "5 * (length ds - Suc j)" and ?w = "digits_word (d # ds)"
    have j: "j < length ds" using Suc Cons.prems by simp
    then have k: "?k + 5 \<le> 5 * length ds" by simp
    have "take_bit 5 (drop_bit ?k ?w) = take_bit 5 (drop_bit ?k (take_bit (5 * length ds) ?w))"
      using k by (intro bit_word_eqI) (auto simp: bit_simps)
    also have "take_bit (5 * length ds) ?w = digits_word ds"
      using add(3) Cons.prems by simp
    finally show ?thesis using Cons.IH [of j] Cons.prems j Suc by simp
  qed
qed

lemma list8:
  "length xs = 8 \<Longrightarrow> xs = [xs ! 0, xs ! 1, xs ! 2, xs ! 3, xs ! 4, xs ! 5, xs ! 6, xs ! 7]"
  by (rule nth_equalityI) (auto simp: less_Suc_eq numeral_eq_Suc)

lemma CodeToUint64_loop_cases:
  "\<forall>i \<in> set is. i < length code \<Longrightarrow>
     CodeToUint64_loop code is src = Some 0
     \<or> (\<forall>i \<in> set is. ConvertBase32CharToNum (code ! i) < 32)"
  by (induction "is" arbitrary: src) (auto simp: char_at_def Let_def not_le)

lemma valid_code_word:
  assumes "CheckCodeValid code = Some True"
  obtains src where "CodeToUint64 code = Some src" and "length code = 8"
    and "take_bit 40 src = src" and "code = Uint64ToCode src"
    and "ucast (take_bit 10 src) = GetSign (ucast (drop_bit 10 src))"
proof -
  have len: "length code = 8"
    using assms by (auto simp: CheckCodeValid_def cfg_lens split: if_splits)
  obtain src where src: "CodeToUint64 code = Some src"
    and sign: "ucast (src AND ucast SIGN_MAX) = GetSign (ucast (drop_bit 10 src))"
    using assms by (auto simp: CheckCodeValid_def Let_def cfg_lens split: if_splits option.splits)
  have "src \<noteq> 0"
    using sign by (auto simp: GetSign_def SIGN_XOR_KEY_def SIGN_MAX_def cfg_lens)
  then have ok: "\<forall>i < 8. ConvertBase32CharToNum (code ! i) < 32"
    using CodeToUint64_loop_cases [of "[0..<8]" code 0] src len
    by (auto simp: CodeToUint64_def cfg_lens)
  define ds where "ds = map ConvertBase32CharToNum code"
  have len_ds: "length ds = 8" by (simp add: ds_def len)
  have ds5: "\<forall>d \<in> set ds. take_bit 5 d = d"
    using ok len by (auto simp: ds_def in_set_conv_nth word_less_nat_alt take_bit_nat_eq_self
        word_unat_eq_iff unsigned_take_bit_eq)
  have ok': "\<not> 32 \<le> ConvertBase32CharToNum (code ! i)" if "i < 8" for i
    using ok that by (simp add: not_le)
  have "CodeToUint64 code = Some (digits_word [ds ! 0, ds ! 1, ds ! 2, ds ! 3, ds ! 4, ds ! 5,
      ds ! 6, ds ! 7])"
    unfolding CodeToUint64_def
    by (simp add: cfg_lens upt8 char_at_def Let_def ok' len ds_def add.assoc)
  then have src_ds: "src = digits_word ds"
    unfolding list8 [OF len_ds, symmetric] by (simp add: src)
  have "take_bit 40 src = src"
    using digits_word_fits [OF ds5] by (simp add: src_ds len_ds)
  moreover have "code = Uint64ToCode src"
  proof (rule nth_equalityI)
    show "length code = length (Uint64ToCode src)" by (simp add: len)
    fix i assume i: "i < length code"
    have "Uint64ToCode src ! i = Base32Alphabet ! unat (ds ! i)"
      using digits_word_nth [OF ds5, of i] i len
      by (simp add: src_ds len_ds Uint64ToCode_def idx_eq cfg_lens del: upt_Suc)
         (simp add: right_diff_distrib' mult.commute)
    also have "\<dots> = code ! i"
      using i ok len by (simp add: ds_def Convert_inverse)
    finally show "code ! i = Uint64ToCode src ! i" by simp
  qed
  moreover have "src AND ucast SIGN_MAX = take_bit 10 src"
    by (rule bit_word_eqI) (auto simp: max_masks bit_simps)
  ultimately show ?thesis using that src len sign by simp
qed

lemma code_word_surj:
  assumes src: "take_bit 40 src = src"
    and sign: "ucast (take_bit 10 src) = GetSign (ucast (drop_bit 10 src))"
  obtains f s where "take_bit 8 f = f" and "take_bit 22 s = s" and "code_word f s = src"
proof -
  define s :: "32 word" where "s = ucast (take_bit 22 (drop_bit 10 src))"
  define f :: "32 word" where "f = (s XOR ucast (drop_bit 32 src)) AND FUN_ID_MAX"
  have s: "take_bit 22 s = s"
    by (rule bit_word_eqI) (auto simp: s_def bit_simps)
  have f: "take_bit 8 f = f"
    by (rule bit_word_eqI) (auto simp: f_def max_masks bit_simps)
  have seg: "drop_bit 10 (code_seg f s) = drop_bit 10 src"
    by (rule bit_word_eqI)
       (auto simp: code_seg_def f_def s_def max_masks bit_simps dest: bit_bounded [OF src])
  have "take_bit 10 (code_word f s) = take_bit 10 src"
  proof -
    have "take_bit 10 (code_word f s) = ucast (GetSign (ucast (drop_bit 10 src)))"
      by (simp only: code_word_fields(5) [OF s] seg)
    also have "\<dots> = (ucast (ucast (take_bit 10 src) :: 32 word) :: 64 word)"
      by (simp only: sign)
    also have "\<dots> = take_bit 10 src"
      by (rule bit_word_eqI) (auto simp: bit_simps)
    finally show ?thesis .
  qed
  moreover have "drop_bit 10 (code_word f s) = drop_bit 10 src"
    by (simp only: code_word_fields(4) [OF s] seg)
  ultimately have "code_word f s = src"
    using bits_ident [of 10 "code_word f s"] bits_ident [of 10 src] by metis
  then show ?thesis using that s f by blast
qed

lemma valid_only_created:
  assumes "CheckCodeValid code = Some True"
  shows "\<exists>f u. f \<le> FUN_ID_MAX \<and> u \<le> UNIQUE_CODE_MAX \<and> code = CreateRedeemCode f u"
proof -
  obtain src where src: "take_bit 40 src = src" "code = Uint64ToCode src"
    "ucast (take_bit 10 src) = GetSign (ucast (drop_bit 10 src))"
    using valid_code_word [OF assms] by metis
  obtain f s where f: "take_bit 8 f = f" and s: "take_bit 22 s = s" and w: "code_word f s = src"
    using code_word_surj [OF src(1,3)] by blast
  let ?u = "unscramble s"
  have u: "take_bit 22 ?u = ?u"
    by (rule bit_word_eqI) (auto simp: unscramble_def max_masks bit_simps)
  have "code = CreateRedeemCode f ?u"
    using f u w by (simp add: CreateRedeemCode_eq le_maxima_take_bit scramble_unscramble [OF s] src(2))
  then show ?thesis using f u by (auto simp: le_maxima_take_bit)
qed

lemma CheckCfg_ok: "CheckCfg"
  by (simp add: CheckCfg_def cfg_lens)

lemma Create_out_of_range:
  "FUN_ID_MAX < f \<or> UNIQUE_CODE_MAX < u \<Longrightarrow> CreateRedeemCode f u = ''''"
  by (auto simp: CreateRedeemCode_def)

lemma Create_nonempty:
  "f \<le> FUN_ID_MAX \<Longrightarrow> u \<le> UNIQUE_CODE_MAX \<Longrightarrow> CreateRedeemCode f u \<noteq> ''''"
  using length_Uint64ToCode by (metis CreateRedeemCode_eq list.size(3) zero_neq_numeral)

text \<open>
  C13. Every code made from an in-range function id and serial number passes the validity
  check and yields its function id back.
\<close>

theorem created_code_is_valid:
  "f \<le> FUN_ID_MAX \<Longrightarrow> u \<le> UNIQUE_CODE_MAX \<Longrightarrow>
     CheckCodeValid (CreateRedeemCode f u) = Some True
     \<and> GetFunId (CreateRedeemCode f u) = Some f"
  by (simp add: Create_valid Create_GetFunId)

theorem created_code_is_valid_witness:
  "CheckCodeValid (CreateRedeemCode 134 3004) = Some True
   \<and> GetFunId (CreateRedeemCode 134 3004) = Some 134"
  by (rule created_code_is_valid) (simp_all add: max_masks mask_eq_exp_minus_1)

text \<open>
  C14. The check accepts exactly the generated codes: a string passes if and only if it was
  made from an in-range function id and serial number. In particular a string of the wrong
  length or with a character outside the alphabet is refused.
\<close>

theorem valid_codes_are_created_codes:
  "CheckCodeValid code = Some True \<longleftrightarrow>
     (\<exists>f u. f \<le> FUN_ID_MAX \<and> u \<le> UNIQUE_CODE_MAX \<and> code = CreateRedeemCode f u)"
  using valid_only_created Create_valid by blast

end
