(* ===== verification/RedeemTool.thy ===== *)
theory RedeemTool
  imports RedeemCode
begin

text \<open>
  Class \<^verbatim>\<open>RedeemCodeTool\<close> of \<^verbatim>\<open>RedeemCode/src/serialcode_parser.cc\<close>: the command that generates
  a batch of codes, writes them to a file and keeps the last serial number of every function
  id in \<^verbatim>\<open>history.txt\<close>. The file system is a map from file names to lists of lines; whether a
  file can be opened for reading and writing (\<open>open_rw\<close>), or truncated for writing
  (\<open>open_out\<close>), is a parameter, and so is the time string that names the code file.
\<close>

section \<open>\<^verbatim>\<open>sscanf\<close> with \<^verbatim>\<open>%u\<close>\<close>

text \<open>
  One \<^verbatim>\<open>%u\<close> conversion into a \<^verbatim>\<open>uint32_t\<close>: white space, an optional sign, digits; the value is
  converted as \<^verbatim>\<open>strtoul\<close> does (64-bit, saturating, negated for a minus sign) and truncated.
\<close>

definition strtoul_value :: "bool \<Rightarrow> nat \<Rightarrow> nat" where
  "strtoul_value neg v =
     (if 2 ^ 64 \<le> v then 2 ^ 64 - 1 else if neg then (2 ^ 64 - v) mod 2 ^ 64 else v)"

definition scan_sign :: "string \<Rightarrow> bool \<times> string" where
  "scan_sign s = (case s of [] \<Rightarrow> (False, [])
     | c # r \<Rightarrow> if c = CHR ''-'' then (True, r) else if c = CHR ''+'' then (False, r) else (False, s))"

definition scan_u :: "string \<Rightarrow> (32 word \<times> string) option" where
  "scan_u s =
     (let (neg, t) = scan_sign (dropWhile isspace s);
          ds = takeWhile isdigit t
      in if ds = [] then None
         else Some (of_nat (strtoul_value neg (nat_of_dec ds)), dropWhile isdigit t))"

text \<open>\<^verbatim>\<open>uint32_t id = 0, idx = 0; sscanf(line, "%u %u", &id, &idx)\<close>\<close>

definition scan_history_line :: "string \<Rightarrow> 32 word \<times> 32 word" where
  "scan_history_line line =
     (case scan_u line of
        None \<Rightarrow> (0, 0)
      | Some (fid, r) \<Rightarrow>
          (case scan_u r of None \<Rightarrow> (fid, 0) | Some (idx, _) \<Rightarrow> (fid, idx)))"

section \<open>The history file\<close>

type_synonym fun_id2idx = "(32 word, 32 word) smap"
type_synonym file_system = "string \<rightharpoonup> string list"

definition HISTORY_FILE :: string where "HISTORY_FILE = ''history.txt''"

text \<open>The reading loop; \<open>None\<close> is the return on a repeated function id.\<close>

fun read_history :: "32 word \<Rightarrow> string list \<Rightarrow> fun_id2idx \<Rightarrow> 32 word
    \<Rightarrow> (fun_id2idx \<times> 32 word) option" where
  "read_history fun_id [] id2idx last_idx = Some (id2idx, last_idx)"
| "read_history fun_id (line # lines) id2idx last_idx =
     (let (fid, idx) = scan_history_line (cstr line) in
      if fid = 0 then read_history fun_id lines id2idx last_idx
      else let (id2idx', r) = smap_insert fid idx id2idx in
           if \<not> r then None
           else read_history fun_id lines id2idx' (if fid = fun_id then idx else last_idx))"

definition history_header :: string where "history_header = ''fun_id uni_code_idx''"

definition history_line :: "32 word \<times> 32 word \<Rightarrow> string" where
  "history_line kv = dec_of_nat (unat (fst kv)) @ '' '' @ dec_of_nat (unat (snd kv))"

definition save_history :: "fun_id2idx \<Rightarrow> string list" where
  "save_history m = history_header # map history_line m"

section \<open>Generating a batch\<close>

text \<open>The generation loop; \<open>None\<close> is the return on an empty code.\<close>

fun create_codes :: "32 word \<Rightarrow> 32 word \<Rightarrow> nat \<Rightarrow> string list option" where
  "create_codes fun_id idx 0 = Some []"
| "create_codes fun_id idx (Suc n) =
     (let ret = CreateRedeemCode fun_id idx in
      if ret = '''' then None
      else case create_codes fun_id (idx + 1) n of
        None \<Rightarrow> None
      | Some codes \<Rightarrow> Some (ret # codes))"

definition code_file_name :: "string \<Rightarrow> string" where
  "code_file_name time_str = ''code_'' @ time_str @ ''.txt''"

text \<open>\<^verbatim>\<open>run(fun_id, create_num, uin_code_idx)\<close>\<close>

definition run_batch :: "(string \<Rightarrow> bool) \<Rightarrow> string \<Rightarrow> 32 word \<Rightarrow> 32 word \<Rightarrow> 32 word
    \<Rightarrow> file_system \<Rightarrow> bool \<times> file_system" where
  "run_batch open_out time_str fun_id create_num uin_code_idx fs =
     (case create_codes fun_id uin_code_idx (unat create_num) of
        None \<Rightarrow> (False, fs)
      | Some VecStr \<Rightarrow>
          (let file_name = code_file_name time_str in
           if \<not> open_out file_name then (False, fs)
           else (True, fs(file_name \<mapsto> VecStr))))"

text \<open>\<^verbatim>\<open>run(fun_id, create_num)\<close>\<close>

definition tool_run :: "(string \<Rightarrow> bool) \<Rightarrow> (string \<Rightarrow> bool) \<Rightarrow> string \<Rightarrow> 32 word \<Rightarrow> 32 word
    \<Rightarrow> file_system \<Rightarrow> bool \<times> file_system" where
  "tool_run open_rw open_out time_str fun_id create_num fs =
     (case fs HISTORY_FILE of
        None \<Rightarrow> (False, fs)
      | Some lines \<Rightarrow>
          if \<not> open_rw HISTORY_FILE then (False, fs)
          else case read_history fun_id lines [] (- 1) of
            None \<Rightarrow> (False, fs)
          | Some (id2idx, last_idx) \<Rightarrow>
              (let (r, fs') = run_batch open_out time_str fun_id create_num (last_idx + 1) fs in
               if \<not> r then (False, fs')
               else if \<not> open_out HISTORY_FILE then (False, fs')
               else (True, fs'(HISTORY_FILE \<mapsto>
                       save_history (smap_set fun_id (last_idx + create_num) id2idx)))))"

text \<open>\<^verbatim>\<open>Run(argc, argv)\<close>, with \<^verbatim>\<open>argv\<close> after the program name\<close>

definition tool_main :: "(string \<Rightarrow> bool) \<Rightarrow> (string \<Rightarrow> bool) \<Rightarrow> string \<Rightarrow> string list
    \<Rightarrow> file_system \<Rightarrow> file_system" where
  "tool_main open_rw open_out time_str argv fs =
     (case argv of
        a1 # a2 # _ \<Rightarrow>
          (let arg = (\<lambda>a. case scan_u a of None \<Rightarrow> 0 | Some (v, _) \<Rightarrow> v) in
           snd (tool_run open_rw open_out time_str (arg a1) (arg a2) fs))
      | _ \<Rightarrow> fs)"

section \<open>The history file is read back as it was saved\<close>

lemma scan_u_dec:
  assumes "n < 2 ^ 32" and rest: "rest = [] \<or> \<not> isdigit (hd rest)"
  shows "scan_u (dec_of_nat n @ rest) = Some (of_nat n, rest)"
proof -
  obtain d ds where dd: "dec_of_nat n = d # ds" by (cases "dec_of_nat n") auto
  have digits: "\<forall>c \<in> set (d # ds). isdigit c"
    using dec_of_nat_digits [of _ n] dd by auto
  then have d: "\<not> isspace d" "d \<noteq> CHR ''-''" "d \<noteq> CHR ''+''"
    using digit_not_special [of d] by (auto simp: isspace_def isdigit_def)
  have "takeWhile isdigit ((d # ds) @ rest) = d # ds"
    and "dropWhile isdigit ((d # ds) @ rest) = rest"
    using digits rest by (auto simp: takeWhile_append dropWhile_append) (cases rest; auto)+
  moreover have "nat_of_dec (d # ds) = n"
    using nat_of_dec_of_nat [of n] dd by simp
  ultimately show ?thesis
    using d assms(1) by (simp add: scan_u_def scan_sign_def strtoul_value_def dd)
qed

lemma scan_u_space: "scan_u (CHR '' '' # s) = scan_u s"
  by (simp add: scan_u_def isspace_def uchar_def)

lemma dec_no_NUL: "NUL \<notin> set (dec_of_nat n)"
  using dec_of_nat_digits digit_not_special by blast

lemma scan_history_line_save:
  "scan_history_line (cstr (history_line (k, v))) = (k, v)"
proof -
  have "cstr (history_line (k, v)) = history_line (k, v)"
    using dec_no_NUL by (intro cstr_id) (auto simp: history_line_def)
  moreover have "scan_u (history_line (k, v)) = Some (k, '' '' @ dec_of_nat (unat v))"
    using scan_u_dec [of "unat k" "'' '' @ dec_of_nat (unat v)"] unsigned_less [of k]
    by (simp add: history_line_def isdigit_def uchar_def)
  moreover have "scan_u ('' '' @ dec_of_nat (unat v)) = Some (v, '''')"
    using scan_u_dec [of "unat v" "''''"] unsigned_less [of v] by (simp add: scan_u_space)
  ultimately show ?thesis by (simp add: scan_history_line_def)
qed

lemma scan_header: "scan_history_line (cstr history_header) = (0, 0)"
  by (simp add: scan_history_line_def history_header_def cstr_def scan_u_def scan_sign_def
      isspace_def isdigit_def uchar_def)

lemma smap_set_last:
  "\<forall>k' \<in> fst ` set m. k' < k \<Longrightarrow> smap_set k v m = m @ [(k, v)]"
  by (induction m) (auto dest: less_asym)

lemma read_history_saved:
  "\<lbrakk> sorted_wrt (<) (map fst (acc @ m)); \<forall>k \<in> fst ` set m. k \<noteq> 0 \<rbrakk> \<Longrightarrow>
     read_history f (map history_line m) acc prev
       = Some (acc @ m, case map_of m f of None \<Rightarrow> prev | Some v \<Rightarrow> v)"
proof (induction m arbitrary: acc prev)
  case Nil
  then show ?case by simp
next
  case (Cons kv m)
  obtain k v where kv: "kv = (k, v)" by (cases kv)
  have less: "\<forall>k' \<in> fst ` set acc. k' < k" and k0: "k \<noteq> 0"
    using Cons.prems by (auto simp: kv sorted_wrt_append)
  then have "map_of acc k = None" by (auto simp: map_of_eq_None_iff)
  then have ins: "smap_insert k v acc = (acc @ [(k, v)], True)"
    using less by (simp add: smap_insert_def smap_find_def smap_set_last)
  have f: "k \<noteq> f" if "f \<in> fst ` set m"
    using Cons.prems(1) that by (auto simp: kv sorted_wrt_append)
  have "read_history f (map history_line m) (acc @ [(k, v)]) (if k = f then v else prev)
      = Some ((acc @ [(k, v)]) @ m,
          case map_of m f of None \<Rightarrow> if k = f then v else prev | Some w \<Rightarrow> w)"
    using Cons.prems by (intro Cons.IH) (auto simp: kv)
  moreover have "k = f \<Longrightarrow> map_of m f = None"
    using f by (auto simp: map_of_eq_None_iff)
  ultimately show ?case
    using k0 ins by (auto simp: kv scan_history_line_save split: option.splits)
qed

lemma history_roundtrip:
  assumes "smap_inv m" and "smap_find m 0 = None"
  shows "read_history f (save_history m) [] prev
    = Some (m, case smap_find m f of None \<Rightarrow> prev | Some v \<Rightarrow> v)"
proof -
  have "\<forall>k \<in> fst ` set m. k \<noteq> 0"
    using assms(2) by (auto simp: smap_find_def map_of_eq_None_iff)
  then show ?thesis
    using assms(1) read_history_saved [of "[]" m f prev]
    by (simp add: save_history_def scan_header smap_inv_def smap_find_def)
qed

section \<open>Serial numbers are issued once\<close>

text \<open>The table a history file stands for, and the next serial number of a function id.\<close>

definition history_table :: "file_system \<Rightarrow> fun_id2idx option" where
  "history_table fs = (case fs HISTORY_FILE of None \<Rightarrow> None
     | Some lines \<Rightarrow> map_option fst (read_history 0 lines [] (- 1)))"

definition next_serial :: "fun_id2idx \<Rightarrow> 32 word \<Rightarrow> 32 word" where
  "next_serial m f = (case smap_find m f of None \<Rightarrow> 0 | Some v \<Rightarrow> v + 1)"

lemma read_history_table:
  "read_history f lines m prev = Some (m', prev') \<Longrightarrow> smap_inv m \<Longrightarrow> smap_find m 0 = None \<Longrightarrow>
     smap_inv m' \<and> smap_find m' 0 = None
     \<and> (\<forall>g l. \<exists>l'. read_history g lines m l = Some (m', l'))
     \<and> (f \<noteq> 0 \<longrightarrow> prev = (case smap_find m f of None \<Rightarrow> - 1 | Some v \<Rightarrow> v) \<longrightarrow>
          prev' = (case smap_find m' f of None \<Rightarrow> - 1 | Some v \<Rightarrow> v))"
proof (induction f lines m prev rule: read_history.induct)
  case (1 f m prev)
  then show ?case by simp
next
  case (2 f line lines m prev)
  obtain k v where kv: "scan_history_line (cstr line) = (k, v)" by fastforce
  show ?case
  proof (cases "k = 0")
    case True
    then show ?thesis using 2 kv by simp
  next
    case False
    have "smap_find m k = None"
      using "2.prems"(1) False kv by (auto simp: smap_insert_def split: option.splits if_splits)
    then have ins: "smap_insert k v m = (smap_set k v m, True)"
      by (simp add: smap_insert_def)
    have rd: "read_history f lines (smap_set k v m) (if k = f then v else prev) = Some (m', prev')"
      using "2.prems"(1) False kv ins by simp
    have inv: "smap_inv (smap_set k v m)" "smap_find (smap_set k v m) 0 = None"
      using "2.prems"(2,3) False by (auto simp: smap_find_set)
    show ?thesis
      using "2.IH"(2) [OF kv [symmetric] refl False ins [symmetric] refl _ rd inv] False kv ins "2.prems"(2)
      by (auto simp: smap_find_set)
  qed
qed

lemma read_history_zero: "read_history 0 lines m prev = Some (m', prev') \<Longrightarrow> prev' = prev"
  by (induction "0 :: 32 word" lines m prev rule: read_history.induct)
     (auto simp: Let_def split: prod.splits if_splits)

lemma create_codes_Some:
  "create_codes f idx n = Some cs \<Longrightarrow>
     cs = map (\<lambda>i. CreateRedeemCode f (idx + of_nat i)) [0..<n]
     \<and> (0 < n \<longrightarrow> f \<le> FUN_ID_MAX \<and> unat idx + n \<le> 2 ^ 22)"
proof (induction n arbitrary: idx cs)
  case 0
  then show ?case by simp
next
  case (Suc n)
  from Suc.prems obtain cs' where cs': "create_codes f (idx + 1) n = Some cs'"
    and cs: "cs = CreateRedeemCode f idx # cs'" and ne: "CreateRedeemCode f idx \<noteq> ''''"
    by (auto simp: Let_def split: if_splits option.splits)
  have f: "f \<le> FUN_ID_MAX" and u: "unat idx < 2 ^ 22"
    using ne Create_out_of_range [of f idx] le_nat_take_bit [of idx 22] le_maxima_take_bit(2) [of idx]
    by (auto simp: not_less [symmetric])
  have idx1: "unat (idx + 1) = unat idx + 1"
    using u by (simp add: unat_word_ariths)
  have "map (\<lambda>i. CreateRedeemCode f (idx + 1 + of_nat i)) [0..<n]
      = map (\<lambda>i. CreateRedeemCode f (idx + of_nat i)) [Suc 0..<Suc n]"
    by (rule nth_equalityI) (auto simp: add.assoc simp del: upt_Suc)
  then show ?case
    using Suc.IH [OF cs'] cs f u idx1 by (cases n) (auto simp: upt_conv_Cons simp del: upt_Suc)
qed

text \<open>
  The codes a run hands out: the lines it puts into its code file, whatever it returns, which are those that are
  there afterwards had there been no such file before.
\<close>

definition codes_out :: "(string \<Rightarrow> bool) \<Rightarrow> (string \<Rightarrow> bool) \<Rightarrow> string \<Rightarrow> 32 word \<Rightarrow> 32 word
    \<Rightarrow> file_system \<Rightarrow> string list" where
  "codes_out open_rw open_out t f n fs =
     (case snd (tool_run open_rw open_out t f n (fs(code_file_name t := None))) (code_file_name t) of
        None \<Rightarrow> [] | Some cs \<Rightarrow> cs)"

text \<open>One run after the other. Which files can be opened may differ from run to run.\<close>

type_synonym tool_job = "(string \<Rightarrow> bool) \<times> (string \<Rightarrow> bool) \<times> string \<times> 32 word \<times> 32 word"

fun tool_runs :: "tool_job list \<Rightarrow> file_system \<Rightarrow> string list \<times> file_system" where
  "tool_runs [] fs = ([], fs)"
| "tool_runs ((rw, out, t, f, n) # rs) fs =
     (let (r, fs1) = tool_run rw out t f n fs;
          (cs, fs2) = tool_runs rs fs1
      in (codes_out rw out t f n fs @ cs, fs2))"

text \<open>
  A run for a function id other than 0 that can write its code file can rewrite the history too.
\<close>

definition job_ok :: "tool_job \<Rightarrow> bool" where
  "job_ok = (\<lambda>(rw, out, t, f, n). f \<noteq> 0 \<and> (out (code_file_name t) \<longrightarrow> out HISTORY_FILE))"

lemma code_file_not_history [simp]: "code_file_name t \<noteq> HISTORY_FILE"
  "HISTORY_FILE \<noteq> code_file_name t"
  by (simp_all add: code_file_name_def HISTORY_FILE_def)

lemma codes_out_run:
  assumes "out (code_file_name t) \<longrightarrow> out HISTORY_FILE" and "tool_run rw out t f n fs = (r, fs')"
  shows "codes_out rw out t f n fs = (if r then the (fs' (code_file_name t)) else [])"
  using assms
  by (auto simp: codes_out_def tool_run_def run_batch_def Let_def split: option.splits if_splits prod.splits)

lemma tool_run_no_table: "history_table fs = None \<Longrightarrow> f \<noteq> 0 \<Longrightarrow> tool_run rw out t f n fs = (False, fs)"
proof -
  assume none: "history_table fs = None"
  have "read_history f lines [] (- 1) = None" if lines: "fs HISTORY_FILE = Some lines" for lines
  proof (rule ccontr)
    assume "read_history f lines [] (- 1) \<noteq> None"
    then obtain m' l' where "read_history f lines [] (- 1) = Some (m', l')" by auto
    from read_history_table [OF this]
    obtain l0 where "read_history 0 lines [] (- 1) = Some (m', l0)"
      by (auto simp: smap_find_def)
    then show False using none lines by (simp add: history_table_def)
  qed
  then show ?thesis by (auto simp: tool_run_def split: option.splits)
qed

lemma next_serial_eq:
  "last_idx = (case smap_find m f of None \<Rightarrow> - 1 | Some v \<Rightarrow> v) \<Longrightarrow> last_idx + 1 = next_serial m f"
  by (simp add: next_serial_def split: option.splits)

text \<open>What one run does to the table of a history file it can read.\<close>

lemma tool_run_table:
  assumes tab: "history_table fs = Some m" and f: "f \<noteq> 0"
    and run: "tool_run rw out t f n fs = (r, fs')"
  shows "smap_inv m \<and> smap_find m 0 = None \<and>
    (if r then
       the (fs' (code_file_name t))
         = map (\<lambda>i. CreateRedeemCode f (next_serial m f + of_nat i)) [0..<unat n]
       \<and> (0 < unat n \<longrightarrow> f \<le> FUN_ID_MAX \<and> unat (next_serial m f) + unat n \<le> 2 ^ 22)
       \<and> history_table fs' = Some (smap_set f (next_serial m f - 1 + n) m)
     else history_table fs' = Some m)"
proof -
  obtain lines l0 where lines: "fs HISTORY_FILE = Some lines"
    and rd0: "read_history 0 lines [] (- 1) = Some (m, l0)"
    using tab by (auto simp: history_table_def split: option.splits)
  then have m: "smap_inv m" "smap_find m 0 = None"
    and rd: "\<exists>l'. read_history f lines [] (- 1) = Some (m, l')"
    using read_history_table [OF rd0] by (auto simp: smap_find_def smap_inv_def)
  then obtain last_idx where rdf: "read_history f lines [] (- 1) = Some (m, last_idx)" by blast
  then have nxt: "last_idx + 1 = next_serial m f"
    using f read_history_table [OF rdf] next_serial_eq
    by (simp add: smap_find_def)
  then have last: "last_idx = next_serial m f - 1" by (simp flip: nxt)
  have frame: "history_table (fs(code_file_name t \<mapsto> cs)) = Some m" for cs
    using tab by (simp add: history_table_def)
  show ?thesis
  proof (cases "create_codes f (next_serial m f) (unat n)")
    case None
    then show ?thesis
      using run lines rdf m tab
      by (auto simp: tool_run_def run_batch_def nxt split: if_splits)
  next
    case (Some cs)
    note cs = create_codes_Some [OF Some]
    let ?m' = "smap_set f (next_serial m f - 1 + n) m"
    have "smap_inv ?m'" "smap_find ?m' 0 = None"
      using m f by (auto simp: smap_find_set)
    then have "history_table (fs(code_file_name t \<mapsto> cs, HISTORY_FILE \<mapsto> save_history ?m')) = Some ?m'"
      using history_roundtrip [of ?m' 0 "- 1"] by (simp add: history_table_def)
    then show ?thesis
      using run lines rdf m tab cs frame last Some
      by (auto simp: tool_run_def run_batch_def nxt Let_def split: if_splits)
  qed
qed

lemma serial_in_range:
  "unat s + n \<le> 2 ^ 22 \<Longrightarrow> i < n \<Longrightarrow>
     unat (s + of_nat i :: 32 word) = unat s + i \<and> s + of_nat i \<le> UNIQUE_CODE_MAX"
proof -
  assume n: "unat s + n \<le> 2 ^ 22" "i < n"
  then have "unat (s + of_nat i) = unat s + i"
    by (simp add: unat_word_ariths unat_of_nat)
  then show ?thesis
    using n le_nat_take_bit [of "s + of_nat i" 22] by (simp add: le_maxima_take_bit)
qed

lemma serial_after:
  "unat s + unat n \<le> 2 ^ 22 \<Longrightarrow> unat (s + n :: 32 word) = unat s + unat n"
  by (simp add: unat_word_ariths)

lemma tool_runs_fresh:
  assumes "\<forall>j \<in> set rs. job_ok j"
  shows "distinct (fst (tool_runs rs fs))
    \<and> (\<forall>c \<in> set (fst (tool_runs rs fs)). \<exists>m f u.
          history_table fs = Some m \<and> f \<le> FUN_ID_MAX \<and> u \<le> UNIQUE_CODE_MAX
          \<and> unat (next_serial m f) \<le> unat u \<and> c = CreateRedeemCode f u)"
  using assms
proof (induction rs arbitrary: fs)
  case Nil
  then show ?case by simp
next
  case (Cons job rs)
  obtain rw out t f n where job: "job = (rw, out, t, f, n)" by (cases job)
  have f: "f \<noteq> 0" and ok: "out (code_file_name t) \<longrightarrow> out HISTORY_FILE"
    using Cons.prems by (simp_all add: job job_ok_def)
  obtain r fs1 where run: "tool_run rw out t f n fs = (r, fs1)" by fastforce
  note IH = Cons.IH [of fs1]
  let ?B = "fst (tool_runs rs fs1)"
  have unfold: "fst (tool_runs (job # rs) fs)
      = (if r then the (fs1 (code_file_name t)) else []) @ ?B"
    using codes_out_run [OF ok run] by (simp add: job run Let_def split: prod.split)
  show ?case
  proof (cases "history_table fs")
    case None
    then show ?thesis
      using tool_run_no_table [OF None f, of rw out t n] run IH Cons.prems unfold by auto
  next
    case (Some m)
    note tab = tool_run_table [OF Some f run]
    show ?thesis
    proof (cases r)
      case False
      then show ?thesis using tab IH Cons.prems unfold Some by auto
    next
      case True
      let ?s = "next_serial m f" and ?N = "unat n"
      let ?A = "map (\<lambda>i. CreateRedeemCode f (?s + of_nat i)) [0..<?N]"
      let ?m' = "smap_set f (?s - 1 + n) m"
      have A: "the (fs1 (code_file_name t)) = ?A" and m: "smap_inv m"
        and bound: "0 < ?N \<Longrightarrow> f \<le> FUN_ID_MAX \<and> unat ?s + ?N \<le> 2 ^ 22"
        and tab1: "history_table fs1 = Some ?m'"
        using tab True by auto
      have serial: "unat (?s + of_nat i) = unat ?s + i \<and> ?s + of_nat i \<le> UNIQUE_CODE_MAX"
        if "i < ?N" for i
        using serial_in_range [of ?s ?N i] bound that by auto
      have nxt_f: "unat (next_serial ?m' f) = unat ?s + ?N"
        using bound m serial_after [of ?s n] by (cases "?N = 0") (auto simp: next_serial_def smap_find_set unat_eq_0)
      have nxt: "unat (next_serial m g) \<le> unat (next_serial ?m' g)" for g
        using nxt_f m by (cases "g = f") (auto simp: next_serial_def smap_find_set)
      have B: "\<exists>g u. g \<le> FUN_ID_MAX \<and> u \<le> UNIQUE_CODE_MAX \<and> unat (next_serial ?m' g) \<le> unat u
          \<and> c = CreateRedeemCode g u" if "c \<in> set ?B" for c
        using IH Cons.prems that tab1 by fastforce
      have "distinct ?A"
      proof (cases "?N = 0")
        case False
        then show ?thesis
          using bound serial by (auto simp: distinct_map inj_on_def)
            (metis Create_inj add_left_cancel)
      qed simp
      moreover have "set ?A \<inter> set ?B = {}"
      proof (rule ccontr)
        assume "set ?A \<inter> set ?B \<noteq> {}"
        then obtain c where c: "c \<in> set ?A" "c \<in> set ?B" by blast
        then obtain i where i: "i < ?N" "c \<in> set ?B" "c = CreateRedeemCode f (?s + of_nat i)"
          by auto
        from B [OF i(2)] obtain g u where g: "g \<le> FUN_ID_MAX" "u \<le> UNIQUE_CODE_MAX"
          "unat (next_serial ?m' g) \<le> unat u" "c = CreateRedeemCode g u" by blast
        then have "f = g \<and> ?s + of_nat i = u"
          using i serial bound by (intro Create_inj) auto
        then show False using nxt_f serial [OF i(1)] g(3) i(1) by auto
      qed
      moreover have "\<exists>m f u. history_table fs = Some m \<and> f \<le> FUN_ID_MAX \<and> u \<le> UNIQUE_CODE_MAX
          \<and> unat (next_serial m f) \<le> unat u \<and> c = CreateRedeemCode f u"
        if "c \<in> set ?A \<union> set ?B" for c
        using that
      proof
        assume "c \<in> set ?A"
        then obtain i where i: "i < ?N" "c = CreateRedeemCode f (?s + of_nat i)" by auto
        then show ?thesis using serial [OF i(1)] bound Some by force
      next
        assume "c \<in> set ?B"
        then show ?thesis using B nxt Some by (meson order_trans)
      qed
      ultimately show ?thesis
        using IH Cons.prems unfolding unfold by (simp add: True A)
    qed
  qed
qed

section \<open>What the tool guarantees\<close>

text \<open>
  C16. Over any sequence of runs of the generator, whatever runs fail and whatever the history file held at the
  start, no code is put into a code file twice, under two conditions (\<open>job_ok\<close>): the function ids are not 0, and a run
  that can open its code file can open the history file for writing as well. Which files can be opened may change from
  run to run; what is written to an open file gets there. Both conditions are needed: see \<open>fun_id_zero_repeats\<close>
  and \<open>failed_run_leaves_codes\<close> below.
\<close>

theorem issued_codes_distinct:
  "\<forall>j \<in> set rs. job_ok j \<Longrightarrow> distinct (fst (tool_runs rs fs))"
  using tool_runs_fresh by blast

text \<open>Three runs: the second can open neither of its output files.\<close>

theorem issued_codes_distinct_witness:
  "distinct (fst (tool_runs [(\<lambda>_. True, \<lambda>_. True, ''a'', 2, 3), (\<lambda>_. True, \<lambda>_. False, ''b'', 2, 7),
      (\<lambda>_. True, \<lambda>_. True, ''c'', 2, 1)] [HISTORY_FILE \<mapsto> [history_header]]))"
  by (rule issued_codes_distinct) (simp add: job_ok_def)

text \<open>
  Function id 0 is accepted by the generator but its history line is skipped when the
  file is read, so every successful run for it hands out the same codes again, from serial
  number 0.
\<close>

theorem fun_id_zero_repeats:
  "tool_run rw out t 0 n fs = (True, fs') \<Longrightarrow>
     the (fs' (code_file_name t)) = map (\<lambda>i. CreateRedeemCode 0 (of_nat i)) [0..<unat n]"
  by (auto simp: tool_run_def run_batch_def Let_def dest!: read_history_zero create_codes_Some
      split: option.splits if_splits prod.splits)

theorem fun_id_zero_repeats_witness:
  "\<exists>fs'. tool_run (\<lambda>_. True) (\<lambda>_. True) ''t'' 0 1 [HISTORY_FILE \<mapsto> [''0 7'']] = (True, fs')
     \<and> the (fs' (code_file_name ''t'')) = [CreateRedeemCode 0 0]"
proof -
  have rd: "read_history 0 [''0 7''] [] (- 1) = Some ([], - 1)"
    by (simp add: scan_history_line_def cstr_def scan_u_def scan_sign_def isspace_def isdigit_def
        uchar_def nat_of_dec_def digit_val_def strtoul_value_def)
  have "CreateRedeemCode 0 0 \<noteq> ''''"
    by (rule Create_nonempty) (simp_all add: max_masks)
  then obtain fs' where run: "tool_run (\<lambda>_. True) (\<lambda>_. True) ''t'' 0 1
      [HISTORY_FILE \<mapsto> [''0 7'']] = (True, fs')"
    by (simp add: tool_run_def run_batch_def rd Let_def del: read_history.simps)
  from fun_id_zero_repeats [OF run] run show ?thesis by auto
qed

text \<open>
  A run that returns false may have changed the file system all the same: when the
  history file cannot be rewritten after the batch was saved, the code file is there and the
  history still holds the old serial number, so the next run repeats the codes.
\<close>

lemma failed_run_repeats_codes:
  assumes "fs HISTORY_FILE = Some lines" "rw HISTORY_FILE" "read_history f lines [] (- 1) = Some (m, l)"
    "create_codes f (l + 1) (unat n) = Some cs" "out (code_file_name t)" "\<not> out HISTORY_FILE"
    "rw' HISTORY_FILE" "out' (code_file_name t')"
  shows "\<exists>fs'. tool_runs [(rw, out, t, f, n), (rw', out', t', f, n)] fs = (cs @ cs, fs')"
  using assms by (auto simp: codes_out_def tool_run_def run_batch_def Let_def split: prod.split)

theorem failed_run_leaves_codes:
  "\<lbrakk> fs HISTORY_FILE = Some lines; rw HISTORY_FILE; read_history f lines [] (- 1) = Some (m, l);
     create_codes f (l + 1) (unat n) = Some cs; out (code_file_name t); \<not> out HISTORY_FILE \<rbrakk> \<Longrightarrow>
     tool_run rw out t f n fs = (False, fs(code_file_name t \<mapsto> cs))"
  by (simp add: tool_run_def run_batch_def Let_def)

theorem failed_run_leaves_codes_witness:
  "tool_run (\<lambda>_. True) (\<lambda>x. x \<noteq> HISTORY_FILE) ''t'' 5 1 [HISTORY_FILE \<mapsto> []]
    = (False, [HISTORY_FILE \<mapsto> [], code_file_name ''t'' \<mapsto> [CreateRedeemCode 5 0]])"
proof (rule failed_run_leaves_codes [where m = "[]" and lines = "[]" and l = "- 1"])
  have "CreateRedeemCode 5 0 \<noteq> ''''"
    by (rule Create_nonempty) (simp_all add: max_masks mask_eq_exp_minus_1)
  then show "create_codes 5 (- 1 + 1) (unat 1) = Some [CreateRedeemCode 5 0]"
    by (simp add: Let_def)
qed simp_all

end
