(* ===== verification/Connector.thy ===== *)
theory Connector
  imports CPrelude
begin

text \<open>
  \<^verbatim>\<open>ClientSimulate/lib_prj/connector.{h,cc}\<close>: class \<^verbatim>\<open>BaseConnect\<close>, a TCP connection on a
  libevent bufferevent that sends and receives length-prefixed messages.

  A bufferevent is its two byte queues. \<^verbatim>\<open>bufferevent_read\<close> and \<^verbatim>\<open>bufferevent_write\<close> belong to
  libevent, which is not part of the repository: they are the parameters \<open>rd\<close> and \<open>wr\<close>
  of the definitions that call them, with their documented behaviour as the predicates
  \<open>reads_prefix\<close> and \<open>appends\<close>. The virtual callbacks of a derived class are recorded, in
  order, in a trace; a callback is taken not to call back into the object. The host is little
  endian, so \<^verbatim>\<open>htonl\<close> reverses the bytes of a stored \<^verbatim>\<open>int\<close>. Logging is left out.
\<close>

section \<open>Data\<close>

definition MAX_MSG_DATA_LEN :: nat where "MAX_MSG_DATA_LEN = 1024 * 4"

definition HEAD_LEN :: nat where "HEAD_LEN = 4"

text \<open>
  \<^verbatim>\<open>struct MsgPack\<close> as the bytes of its memory: the four bytes of \<^verbatim>\<open>len\<close>, then \<^verbatim>\<open>data\<close>.
\<close>

type_synonym MsgPack = "byte list"

definition s32 :: "nat \<Rightarrow> int" where
  "s32 n = (if n < 2 ^ 31 then int n else int n - 2 ^ 32)"

definition le4 :: "byte list \<Rightarrow> nat" where
  "le4 bs = uchar (bs ! 0) + 2 ^ 8 * uchar (bs ! 1) + 2 ^ 16 * uchar (bs ! 2) + 2 ^ 24 * uchar (bs ! 3)"

definition msg_len :: "MsgPack \<Rightarrow> int" where
  "msg_len m = s32 (le4 m)"

definition msg_data :: "MsgPack \<Rightarrow> byte list" where
  "msg_data m = drop HEAD_LEN m"

text \<open>\<^verbatim>\<open>m_msg.len = htonl(m_msg.len)\<close> and \<^verbatim>\<open>m_msg.len = 0\<close>\<close>

definition swap_len :: "MsgPack \<Rightarrow> MsgPack" where
  "swap_len m = rev (take 4 m) @ drop 4 m"

definition clear_len :: "MsgPack \<Rightarrow> MsgPack" where
  "clear_len m = replicate 4 NUL @ drop 4 m"

text \<open>The four bytes of \<^verbatim>\<open>htonl(len)\<close> in memory: \<^verbatim>\<open>len\<close> most significant byte first.\<close>

definition be4 :: "int \<Rightarrow> byte list" where
  "be4 len = (let n = nat (len mod 2 ^ 32) in
     [char_of (n div 2 ^ 24), char_of (n div 2 ^ 16), char_of (n div 2 ^ 8), char_of n])"

record sockaddr_in =
  sin_family :: nat
  sin_addr :: "32 word"
  sin_port :: "16 word"

definition zero_addr :: sockaddr_in where
  "zero_addr = \<lparr>sin_family = 0, sin_addr = 0, sin_port = 0\<rparr>"

definition AF_INET :: nat where "AF_INET = 2"

definition htons :: "16 word \<Rightarrow> 16 word" where
  "htons w = push_bit 8 w OR drop_bit 8 w"

record bufferevent =
  bev_input :: "byte list"
  bev_output :: "byte list"

definition new_bev :: bufferevent where
  "new_bev = \<lparr>bev_input = [], bev_output = []\<rparr>"

text \<open>The calls of the virtual functions.\<close>

datatype conn_call = OnRecv MsgPack | OnConnected | OnError nat | on_disconnected

record BaseConnect =
  m_buf_e :: "bufferevent option"
  m_addr :: sockaddr_in
  m_fd :: int
  m_msbs :: nat
  m_is_connect :: bool
  m_msg :: MsgPack
  m_msg_write_len :: nat
  m_no_ev_cb_log :: bool
  calls :: "conn_call list"

text \<open>The constructor; the bytes of \<^verbatim>\<open>m_msg\<close> are not initialised, so they are a parameter.\<close>

definition BaseConnect_new :: "MsgPack \<Rightarrow> BaseConnect" where
  "BaseConnect_new garbage =
     \<lparr>m_buf_e = None, m_addr = zero_addr, m_fd = 0, m_msbs = 1024 * 64, m_is_connect = False,
      m_msg = garbage, m_msg_write_len = 0, m_no_ev_cb_log = False, calls = []\<rparr>"

definition call :: "conn_call \<Rightarrow> BaseConnect \<Rightarrow> BaseConnect" where
  "call e c = c\<lparr>calls := calls c @ [e]\<rparr>"

section \<open>Connecting and disconnecting\<close>

definition free :: "BaseConnect \<Rightarrow> BaseConnect" where
  "free c = c\<lparr>m_buf_e := None, m_fd := 0, m_is_connect := False\<rparr>"

definition DisConnect :: "BaseConnect \<Rightarrow> BaseConnect" where
  "DisConnect c = call on_disconnected (free c)"

definition IsConnect :: "BaseConnect \<Rightarrow> bool" where
  "IsConnect c = m_is_connect c"

definition IsWaitCompleteMsg :: "BaseConnect \<Rightarrow> bool" where
  "IsWaitCompleteMsg c = (m_msg_write_len c \<noteq> 0)"

definition SetMaxSendBufSize :: "nat \<Rightarrow> BaseConnect \<Rightarrow> BaseConnect" where
  "SetMaxSendBufSize num c = c\<lparr>m_msbs := num\<rparr>"

definition SetEventCbLog :: "bool \<Rightarrow> BaseConnect \<Rightarrow> BaseConnect" where
  "SetEventCbLog no_ev_cb_log c = c\<lparr>m_no_ev_cb_log := no_ev_cb_log\<rparr>"

text \<open>\<^verbatim>\<open>setwatermark\<close>: \<open>wm\<close> is what \<^verbatim>\<open>bufferevent_setwatermark\<close> does to the bufferevent.\<close>

definition setwatermark :: "(bufferevent \<Rightarrow> bufferevent) \<Rightarrow> BaseConnect \<Rightarrow> BaseConnect" where
  "setwatermark wm c =
     (if 0 = m_fd c then c
      else case m_buf_e c of None \<Rightarrow> c | Some bev \<Rightarrow> c\<lparr>m_buf_e := Some (wm bev)\<rparr>)"

text \<open>
  What the operating system and libevent answer: the descriptor from \<^verbatim>\<open>socket\<close>, whether
  \<^verbatim>\<open>bufferevent_socket_new\<close> gave a bufferevent, whether \<^verbatim>\<open>bufferevent_socket_connect\<close> returned 0.
\<close>

record net_answers =
  na_socket :: int
  na_bev_new :: bool
  na_connect :: bool

definition BaseAcceptInit :: "net_answers \<Rightarrow> int \<Rightarrow> sockaddr_in \<Rightarrow> BaseConnect \<Rightarrow> bool \<times> BaseConnect" where
  "BaseAcceptInit na fd sa c =
     (if 0 \<noteq> m_fd c then (False, c)
      else let c1 = c\<lparr>m_fd := fd\<rparr> in
        if \<not> na_bev_new na then (False, c1\<lparr>m_buf_e := None\<rparr>)
        else (True, call OnConnected
                (c1\<lparr>m_buf_e := Some new_bev, m_addr := sa, m_is_connect := True\<rparr>)))"

definition ConnectByAddr :: "net_answers \<Rightarrow> BaseConnect \<Rightarrow> bool \<times> BaseConnect" where
  "ConnectByAddr na c =
     (if 0 = sin_port (m_addr c) then (False, c)
      else let c1 = c\<lparr>m_fd := na_socket na\<rparr> in
        if m_fd c1 < 0 then (False, c1)
        else if \<not> na_bev_new na then (False, c1\<lparr>m_buf_e := None, m_fd := 0\<rparr>)
        else let c2 = c1\<lparr>m_buf_e := Some new_bev\<rparr> in
          if na_connect na then (True, c2) else (False, c2\<lparr>m_fd := 0\<rparr>))"

text \<open>The two overloads of \<^verbatim>\<open>ConnectInit\<close>; \<^verbatim>\<open>inet_addr\<close> is a parameter.\<close>

definition ConnectInit_ip :: "(string \<Rightarrow> 32 word) \<Rightarrow> net_answers \<Rightarrow> string option \<Rightarrow> 16 word
    \<Rightarrow> BaseConnect \<Rightarrow> bool \<times> BaseConnect" where
  "ConnectInit_ip inet_addr na connect_ip connect_port c =
     (if 0 \<noteq> m_fd c then (False, c)
      else case connect_ip of
        None \<Rightarrow> (False, c)
      | Some ip \<Rightarrow> ConnectByAddr na
          (c\<lparr>m_addr := \<lparr>sin_family = AF_INET, sin_addr = inet_addr ip, sin_port = htons connect_port\<rparr>\<rparr>))"

definition ConnectInit_addr :: "net_answers \<Rightarrow> sockaddr_in \<Rightarrow> BaseConnect \<Rightarrow> bool \<times> BaseConnect" where
  "ConnectInit_addr na svr_addr c =
     (if 0 \<noteq> m_fd c then (False, c) else ConnectByAddr na (c\<lparr>m_addr := svr_addr\<rparr>))"

definition TryReconnect :: "net_answers \<Rightarrow> BaseConnect \<Rightarrow> bool \<times> BaseConnect" where
  "TryReconnect na c = (if \<not> IsConnect c then ConnectByAddr na c else (True, c))"

section \<open>The read callback\<close>

text \<open>
  The loop of \<^verbatim>\<open>conn_read_callback\<close>. \<open>input_len\<close> is the local variable; the bytes are taken
  from the input queue of the bufferevent. Storing \<open>n\<close> bytes at \<open>m_msg + m_msg_write_len\<close> is
  \<open>blit\<close>; a store that goes beyond the buffer makes \<open>m_msg\<close> longer than the struct is.
  \<^verbatim>\<open>need_to_read\<close> is an \<^verbatim>\<open>int\<close>, and its subtraction wraps around.
\<close>

definition store_bytes :: "byte list \<Rightarrow> BaseConnect \<Rightarrow> BaseConnect" where
  "store_bytes bs c = c\<lparr>m_msg := blit (m_msg c) (m_msg_write_len c) bs\<rparr>"

definition advance :: "nat \<Rightarrow> BaseConnect \<Rightarrow> BaseConnect" where
  "advance n c = c\<lparr>m_msg_write_len := m_msg_write_len c + n\<rparr>"

definition set_input :: "byte list \<Rightarrow> BaseConnect \<Rightarrow> BaseConnect" where
  "set_input q c = c\<lparr>m_buf_e := map_option (\<lambda>b. b\<lparr>bev_input := q\<rparr>) (m_buf_e c)\<rparr>"

definition input_of :: "BaseConnect \<Rightarrow> byte list" where
  "input_of c = (case m_buf_e c of None \<Rightarrow> [] | Some b \<Rightarrow> bev_input b)"

text \<open>One pass of the loop: the new \<open>input_len\<close>, or \<open>None\<close> for the early returns.\<close>

definition read_step :: "(byte list \<Rightarrow> nat \<Rightarrow> byte list \<times> byte list) \<Rightarrow> nat \<Rightarrow> BaseConnect
    \<Rightarrow> nat option \<times> BaseConnect" where
  "read_step rd input_len c =
     (if m_msg_write_len c < HEAD_LEN then
        let need_to_read = HEAD_LEN - m_msg_write_len c;
            write_len = min input_len need_to_read;
            (got, rest) = rd (input_of c) write_len;
            c1 = set_input rest (store_bytes got c)
        in if length got \<noteq> write_len then (None, DisConnect c1)
           else (Some (input_len - length got), advance (length got) c1)
      else
        let c1 = c\<lparr>m_msg := swap_len (m_msg c)\<rparr> in
        if int MAX_MSG_DATA_LEN < msg_len (m_msg c1) then (None, DisConnect c1)
        else let need_to_read = c_int (msg_len (m_msg c1) + int HEAD_LEN - int (m_msg_write_len c1)) in
          if need_to_read < 0 then (None, DisConnect c1)
          else let write_len = min input_len (nat need_to_read);
                   (got, rest) = rd (input_of c1) write_len;
                   c2 = set_input rest (store_bytes got c1)
               in if length got \<noteq> write_len then (None, DisConnect c2)
                  else let c3 = advance (length got) c2 in
                    if need_to_read = int (length got) then
                      (Some (input_len - length got),
                       (call (OnRecv (m_msg c3)) c3)\<lparr>m_msg := clear_len (m_msg c3), m_msg_write_len := 0\<rparr>)
                    else (Some (input_len - length got), c3))"

lemma read_step_measure:
  assumes "read_step rd n c = (Some n', c')" and "0 < n"
  shows "n' < n \<or> (n' = n \<and> HEAD_LEN \<le> m_msg_write_len c \<and> m_msg_write_len c' < HEAD_LEN)"
  using assms
  by (auto simp: read_step_def Let_def HEAD_LEN_def advance_def
      split: if_splits prod.splits)

function read_loop :: "(byte list \<Rightarrow> nat \<Rightarrow> byte list \<times> byte list) \<Rightarrow> nat \<Rightarrow> BaseConnect
    \<Rightarrow> BaseConnect" where
  "read_loop rd input_len c =
     (if input_len = 0 then c
      else case read_step rd input_len c of
        (None, c') \<Rightarrow> c'
      | (Some n, c') \<Rightarrow> read_loop rd n c')"
  by pat_completeness auto
termination
  by (relation "measures [\<lambda>(rd, n, c). n, \<lambda>(rd, n, c). if m_msg_write_len c < HEAD_LEN then 0 else 1]")
     (auto dest!: sym [of "(_, _)"] read_step_measure)

declare read_loop.simps [simp del]

definition conn_read_callback :: "(byte list \<Rightarrow> nat \<Rightarrow> byte list \<times> byte list) \<Rightarrow> BaseConnect
    \<Rightarrow> BaseConnect" where
  "conn_read_callback rd c = read_loop rd (length (input_of c)) c"

section \<open>The event callback\<close>

definition BEV_EVENT_READING :: nat where "BEV_EVENT_READING = 0x01"
definition BEV_EVENT_WRITING :: nat where "BEV_EVENT_WRITING = 0x02"
definition BEV_EVENT_EOF :: nat where "BEV_EVENT_EOF = 0x10"
definition BEV_EVENT_ERROR :: nat where "BEV_EVENT_ERROR = 0x20"
definition BEV_EVENT_TIMEOUT :: nat where "BEV_EVENT_TIMEOUT = 0x40"
definition BEV_EVENT_CONNECTED :: nat where "BEV_EVENT_CONNECTED = 0x80"

text \<open>The branches that only log are left out.\<close>

definition conn_event_callback :: "nat \<Rightarrow> BaseConnect \<Rightarrow> BaseConnect" where
  "conn_event_callback events c =
     (if events AND BEV_EVENT_CONNECTED \<noteq> 0
      then call OnConnected (c\<lparr>m_is_connect := True\<rparr>)
      else DisConnect (call (OnError events) c))"

section \<open>Sending\<close>

text \<open>
  The two writes of \<^verbatim>\<open>send_data\<close>. \<open>beyond\<close> is the memory after the \<^verbatim>\<open>MsgPack\<close>, which the second
  write reads when its length exceeds that of \<^verbatim>\<open>data\<close>. \<open>wr\<close> is \<^verbatim>\<open>bufferevent_write\<close> on the
  output queue, with the flag for its return value 0.
\<close>

type_synonym writer = "byte list \<Rightarrow> byte list \<Rightarrow> bool \<times> byte list"

definition set_output :: "byte list \<Rightarrow> BaseConnect \<Rightarrow> BaseConnect" where
  "set_output q c = c\<lparr>m_buf_e := map_option (\<lambda>b. b\<lparr>bev_output := q\<rparr>) (m_buf_e c)\<rparr>"

definition send_data :: "writer \<Rightarrow> byte list \<Rightarrow> MsgPack \<Rightarrow> BaseConnect \<Rightarrow> bool \<times> BaseConnect" where
  "send_data wr beyond msg c =
     (if \<not> m_is_connect c then (False, c)
      else let len = msg_len msg + 4; net_len = be4 (msg_len msg) in
        if 0 = m_fd c then (False, c)
        else case m_buf_e c of
          None \<Rightarrow> (False, c)
        | Some bev \<Rightarrow>
            if m_msbs c \<noteq> 0 \<and> m_msbs c < length (bev_output bev) then (False, DisConnect c)
            else let (ok1, out1) = wr (bev_output bev) net_len;
                     c1 = set_output out1 c
                 in if \<not> ok1 then (False, c1)
                    else let (ok2, out2) = wr out1 (take (nat len) (msg_data msg @ beyond));
                             c2 = set_output out2 c1
                         in if \<not> ok2 then (False, c2) else (True, c2))"

definition send_data_no_head :: "writer \<Rightarrow> byte list option \<Rightarrow> nat \<Rightarrow> BaseConnect
    \<Rightarrow> bool \<times> BaseConnect" where
  "send_data_no_head wr data len c =
     (if \<not> m_is_connect c then (False, c)
      else if 0 = m_fd c then (False, c)
      else case m_buf_e c of
        None \<Rightarrow> (False, c)
      | Some bev \<Rightarrow>
          (case data of
             None \<Rightarrow> (False, c)
           | Some d \<Rightarrow>
               if m_msbs c \<noteq> 0 \<and> m_msbs c < length (bev_output bev) then (False, DisConnect c)
               else let (ok, out) = wr (bev_output bev) (take len d);
                        c1 = set_output out c
                    in (ok, c1)))"

definition GetRemoteAddr :: "(32 word \<Rightarrow> string) \<Rightarrow> BaseConnect \<Rightarrow> string \<times> 16 word" where
  "GetRemoteAddr inet_ntoa c = (inet_ntoa (sin_addr (m_addr c)), htons (sin_port (m_addr c)))"

section \<open>The documented behaviour of libevent\<close>

definition reads_prefix :: "(byte list \<Rightarrow> nat \<Rightarrow> byte list \<times> byte list) \<Rightarrow> bool" where
  "reads_prefix rd \<longleftrightarrow> (\<forall>q n. rd q n = (take n q, drop n q))"

definition appends :: "writer \<Rightarrow> bool" where
  "appends wr \<longleftrightarrow> (\<forall>q bs. wr q bs = (True, q @ bs))"

text \<open>What any reader keeps to: never more bytes than asked for.\<close>

definition reads_at_most :: "(byte list \<Rightarrow> nat \<Rightarrow> byte list \<times> byte list) \<Rightarrow> bool" where
  "reads_at_most rd \<longleftrightarrow> (\<forall>q n. length (fst (rd q n)) \<le> n)"

section \<open>Memory safety of the receive buffer\<close>

definition msg_buf_ok :: "BaseConnect \<Rightarrow> bool" where
  "msg_buf_ok c \<longleftrightarrow> length (m_msg c) = HEAD_LEN + MAX_MSG_DATA_LEN
     \<and> m_msg_write_len c \<le> HEAD_LEN + MAX_MSG_DATA_LEN"

lemmas conn_defs = call_def free_def DisConnect_def store_bytes_def advance_def set_input_def
  swap_len_def clear_len_def

lemma swap_len_length [simp]: "length (swap_len m) = length m"
  by (simp add: swap_len_def)

lemma clear_len_length: "4 \<le> length m \<Longrightarrow> length (clear_len m) = length m"
  by (simp add: clear_len_def)

lemma msg_buf_ok_DisConnect [simp]: "msg_buf_ok (DisConnect c) = msg_buf_ok c"
  by (simp add: msg_buf_ok_def conn_defs)

lemma msg_buf_ok_set_input [simp]: "msg_buf_ok (set_input q c) = msg_buf_ok c"
  by (simp add: msg_buf_ok_def set_input_def)

text \<open>The state in which the subtraction wraps around.\<close>

definition need_wraps :: "BaseConnect \<Rightarrow> bool" where
  "need_wraps c \<longleftrightarrow> HEAD_LEN \<le> m_msg_write_len c
     \<and> msg_len (swap_len (m_msg c)) + int HEAD_LEN - int (m_msg_write_len c) < - (2 ^ 31)"

lemma le4_less: "le4 m < 2 ^ 32"
proof -
  have "uchar x < 256" for x by (rule uchar_less)
  from this [of "m ! 0"] this [of "m ! 1"] this [of "m ! 2"] this [of "m ! 3"] show ?thesis
    unfolding le4_def by (simp; linarith)
qed

lemma msg_len_range: "- (2 ^ 31) \<le> msg_len m \<and> msg_len m < 2 ^ 31"
  using le4_less [of m] by (auto simp: msg_len_def s32_def)

lemma need_exact:
  assumes "\<not> need_wraps c" and "HEAD_LEN \<le> m_msg_write_len c"
    and "msg_len (swap_len (m_msg c)) \<le> int MAX_MSG_DATA_LEN"
  shows "c_int (msg_len (swap_len (m_msg c)) + int HEAD_LEN - int (m_msg_write_len c))
    = msg_len (swap_len (m_msg c)) + int HEAD_LEN - int (m_msg_write_len c)"
  using assms by (intro c_int_id) (simp_all add: need_wraps_def MAX_MSG_DATA_LEN_def HEAD_LEN_def)

lemma read_step_buf_ok:
  assumes rd: "reads_at_most rd" and ok: "msg_buf_ok c" and exact: "\<not> need_wraps c"
    and step: "read_step rd n c = (r, c')"
  shows "msg_buf_ok c'"
proof -
  have fit: "length got \<le> k" if "rd q k = (got, rest)" for q k got rest
    using rd that by (auto simp: reads_at_most_def) (metis fst_conv)
  have blit: "length (blit (m_msg c) (m_msg_write_len c) got) = length (m_msg c)"
    if "m_msg_write_len c + length got \<le> length (m_msg c)" for got
    using that by simp
  show ?thesis
  proof (cases "m_msg_write_len c < HEAD_LEN")
    case True
    obtain got rest where g: "rd (input_of c) (min n (HEAD_LEN - m_msg_write_len c)) = (got, rest)"
      by fastforce
    have "length got \<le> HEAD_LEN - m_msg_write_len c" using fit [OF g] by simp
    then show ?thesis
      using step True g ok
      by (auto simp: read_step_def Let_def msg_buf_ok_def conn_defs MAX_MSG_DATA_LEN_def
          split: if_splits)
  next
    case False
    let ?c1 = "c\<lparr>m_msg := swap_len (m_msg c)\<rparr>"
    let ?need = "msg_len (swap_len (m_msg c)) + int HEAD_LEN - int (m_msg_write_len c)"
    obtain got rest where g: "rd (input_of ?c1) (min n (nat (c_int ?need))) = (got, rest)" by fastforce
    have eq: "c_int ?need = ?need" if "msg_len (swap_len (m_msg c)) \<le> int MAX_MSG_DATA_LEN"
      using need_exact [OF exact _ that] False by simp
    have "length got \<le> nat (c_int ?need)" using fit [OF g] by simp
    then have "m_msg_write_len c + length got \<le> HEAD_LEN + MAX_MSG_DATA_LEN"
      if "msg_len (swap_len (m_msg c)) \<le> int MAX_MSG_DATA_LEN" "0 \<le> ?need"
      using that eq by simp
    then show ?thesis
      using step False g ok eq
      by (auto simp: read_step_def Let_def msg_buf_ok_def call_def free_def DisConnect_def
          store_bytes_def advance_def set_input_def clear_len_length HEAD_LEN_def
          split: if_splits)
  qed
qed

lemma read_loop_0 [simp]: "read_loop rd 0 c = c"
  by (simp add: read_loop.simps)

lemma read_loop_step:
  "0 < n \<Longrightarrow> read_loop rd n c =
     (case read_step rd n c of (None, c') \<Rightarrow> c' | (Some n', c') \<Rightarrow> read_loop rd n' c')"
  by (simp add: read_loop.simps [of rd n c])

text \<open>
  The length field between two calls. Once a part of a body is there, the field holds an acceptable
  length as the host reads it, or after one more swap.
\<close>

definition len_seen :: "MsgPack \<Rightarrow> bool" where
  "len_seen m \<longleftrightarrow> (0 \<le> msg_len m \<and> msg_len m \<le> int MAX_MSG_DATA_LEN)
     \<or> (0 \<le> msg_len (swap_len m) \<and> msg_len (swap_len m) \<le> int MAX_MSG_DATA_LEN)"

definition recv_inv :: "BaseConnect \<Rightarrow> bool" where
  "recv_inv c \<longleftrightarrow> msg_buf_ok c \<and> (HEAD_LEN < m_msg_write_len c \<longrightarrow> len_seen (m_msg c))"

text \<open>The connection has a part of the body of a message of 128 bytes.\<close>

definition half_of_128 :: "BaseConnect \<Rightarrow> bool" where
  "half_of_128 c \<longleftrightarrow> HEAD_LEN < m_msg_write_len c \<and> msg_len (m_msg c) = 128"

lemma swap_swap: "4 \<le> length m \<Longrightarrow> swap_len (swap_len m) = m"
  by (simp add: swap_len_def)

lemma four_bytes: "4 \<le> length m \<Longrightarrow> \<exists>a b c d r. m = a # b # c # d # r"
  by (cases m; cases "tl m"; cases "tl (tl m)"; cases "tl (tl (tl m))") auto

lemma swap_near_minimum:
  assumes len: "4 \<le> length m" and small: "0 \<le> msg_len m" "msg_len m \<le> 4096"
    and low: "msg_len (swap_len m) < - (2 ^ 31) + 4097"
  shows "msg_len m = 128"
proof -
  obtain a b c d r where m: "m = a # b # c # d # r" using four_bytes [OF len] by blast
  have u: "uchar a < 256" "uchar b < 256" "uchar c < 256" "uchar d < 256" by (simp_all add: uchar_less)
  have v: "msg_len m = s32 (uchar a + 256 * uchar b + 65536 * uchar c + 16777216 * uchar d)"
    by (simp add: m msg_len_def le4_def)
  have w: "msg_len (swap_len m) = s32 (uchar d + 256 * uchar c + 65536 * uchar b + 16777216 * uchar a)"
    by (simp add: m msg_len_def le4_def swap_len_def)
  have le: "uchar a + 256 * uchar b + 65536 * uchar c + 16777216 * uchar d \<le> 4096"
    using small u unfolding v s32_def by (simp split: if_splits; linarith)
  then have cd: "uchar c = 0" "uchar d = 0" by linarith+
  have range: "2147483648 \<le> 65536 * uchar b + 16777216 * uchar a"
      "65536 * uchar b + 16777216 * uchar a < 2147483648 + 4097"
    using low u unfolding w s32_def cd by (simp_all split: if_splits)
  have b: "uchar b \<le> 16" using le by linarith
  have "\<not> uchar a \<le> 127" "\<not> 129 \<le> uchar a" using range b by linarith+
  then have "uchar a = 128" by simp
  moreover from this have "uchar b = 0" using range by linarith
  ultimately show ?thesis unfolding v cd by (simp add: s32_def)
qed

lemma recv_inv_exact:
  assumes inv: "recv_inv c" and half: "\<not> half_of_128 c"
  shows "\<not> need_wraps c"
proof
  assume "need_wraps c"
  then have low: "msg_len (swap_len (m_msg c)) + 4 - int (m_msg_write_len c) < - (2 ^ 31)"
    and wl: "4 \<le> m_msg_write_len c" by (simp_all add: need_wraps_def HEAD_LEN_def)
  have bound: "m_msg_write_len c \<le> 4100" and len: "4 \<le> length (m_msg c)"
    using inv by (simp_all add: recv_inv_def msg_buf_ok_def HEAD_LEN_def MAX_MSG_DATA_LEN_def)
  have "4 < m_msg_write_len c" using low wl msg_len_range [of "swap_len (m_msg c)"] by linarith
  then have seen: "len_seen (m_msg c)" using inv by (simp add: recv_inv_def HEAD_LEN_def)
  have neg: "msg_len (swap_len (m_msg c)) < - (2 ^ 31) + 4097" using low bound by linarith
  then have "0 \<le> msg_len (m_msg c)" "msg_len (m_msg c) \<le> 4096"
    using seen by (auto simp: len_seen_def MAX_MSG_DATA_LEN_def)
  then have "msg_len (m_msg c) = 128" using swap_near_minimum [OF len _ _ neg] by blast
  then show False using half \<open>4 < m_msg_write_len c\<close> by (simp add: half_of_128_def HEAD_LEN_def)
qed

lemma take4_blit: "4 \<le> off \<Longrightarrow> 4 \<le> length m \<Longrightarrow> off \<le> length m \<Longrightarrow> take 4 (blit m off bs) = take 4 m"
  by (simp add: blit_def min_def)

lemma le4_take: "le4 (take 4 m) = le4 m"
  by (simp add: le4_def)

lemma take4_swap: "4 \<le> length m \<Longrightarrow> take 4 (swap_len m) = rev (take 4 m)"
  by (simp add: swap_len_def)

lemma len_seen_cong:
  assumes "take 4 m = take 4 m'" and "4 \<le> length m" and "4 \<le> length m'"
  shows "len_seen m = len_seen m'" "msg_len m = msg_len m'"
proof -
  have "le4 m = le4 m'" using le4_take [of m] le4_take [of m'] assms(1) by simp
  moreover have "le4 (swap_len m) = le4 (swap_len m')"
    using le4_take [of "swap_len m"] le4_take [of "swap_len m'"] assms by (simp add: take4_swap)
  ultimately show "len_seen m = len_seen m'" "msg_len m = msg_len m'"
    by (simp_all add: len_seen_def msg_len_def)
qed

lemma len_seen_swap: "4 \<le> length m \<Longrightarrow> len_seen (swap_len m) = len_seen m"
  by (auto simp: len_seen_def swap_swap)

lemma read_step_inv:
  assumes rd: "reads_at_most rd" and inv: "recv_inv c" and exact: "\<not> need_wraps c"
    and step: "read_step rd n c = (r, c')"
  shows "recv_inv c'" and "r = Some n' \<Longrightarrow> 0 < n' \<Longrightarrow> \<not> need_wraps c'"
proof -
  have ok: "msg_buf_ok c'" using read_step_buf_ok [OF rd _ exact step] inv by (simp add: recv_inv_def)
  have m: "length (m_msg c) = 4100" "m_msg_write_len c \<le> 4100"
    using inv by (simp_all add: recv_inv_def msg_buf_ok_def HEAD_LEN_def MAX_MSG_DATA_LEN_def)
  have early: "\<not> need_wraps b" if "m_msg_write_len b \<le> 4" for b
    using msg_len_range [of "swap_len (m_msg b)"] that unfolding need_wraps_def HEAD_LEN_def by linarith
  have both: "recv_inv c' \<and> (r = Some n' \<longrightarrow> 0 < n' \<longrightarrow> \<not> need_wraps c')"
  proof (cases "m_msg_write_len c < HEAD_LEN")
    case True
    then have "m_msg_write_len c' \<le> 4"
      using step by (auto simp: read_step_def Let_def conn_defs HEAD_LEN_def split: if_splits prod.splits)
    then show ?thesis using ok early by (simp add: recv_inv_def HEAD_LEN_def)
  next
    case False
    let ?c1 = "c\<lparr>m_msg := swap_len (m_msg c)\<rparr>"
    let ?L = "msg_len (swap_len (m_msg c))"
    let ?need = "c_int (?L + int HEAD_LEN - int (m_msg_write_len c))"
    obtain got rest where g: "rd (input_of ?c1) (min n (nat ?need)) = (got, rest)" by fastforce
    show ?thesis
    proof (cases "int MAX_MSG_DATA_LEN < ?L \<or> ?need < 0")
      case True
      then have c': "c' = DisConnect ?c1" "r = None" using step False by (auto simp: read_step_def Let_def split: if_splits)
      then show ?thesis
        using ok inv m by (auto simp: recv_inv_def conn_defs len_seen_swap [unfolded swap_len_def])
    next
      case okL: False
      then have eq: "?need = ?L + 4 - int (m_msg_write_len c)"
        using need_exact [OF exact] False by (simp add: HEAD_LEN_def)
      have L: "0 \<le> ?L" "?L \<le> 4096" using okL eq False by (simp_all add: HEAD_LEN_def MAX_MSG_DATA_LEN_def)
      have seen: "len_seen (blit (swap_len (m_msg c)) (m_msg_write_len c) got)"
      proof -
        have "take 4 (blit (swap_len (m_msg c)) (m_msg_write_len c) got) = take 4 (swap_len (m_msg c))"
          using False m by (intro take4_blit) (simp_all add: HEAD_LEN_def)
        moreover have "4 \<le> length (blit (swap_len (m_msg c)) (m_msg_write_len c) got)"
          using False m by (simp add: blit_def HEAD_LEN_def)
        ultimately show ?thesis
          using len_seen_cong(1) [of _ "swap_len (m_msg c)"] m L by (simp add: len_seen_def MAX_MSG_DATA_LEN_def)
      qed
      let ?c2 = "set_input rest (store_bytes got ?c1)"
      have "c' = DisConnect ?c2 \<and> r = None
        \<or> m_msg_write_len c' = 0
        \<or> c' = advance (length got) ?c2 \<and> r = Some (n - length got) \<and> length got = min n (nat ?need)
           \<and> ?need \<noteq> int (length got)"
        using step False okL g by (auto simp: read_step_def Let_def split: if_splits)
      then show ?thesis
      proof (elim disjE)
        assume "c' = DisConnect ?c2 \<and> r = None"
        then show ?thesis using ok seen by (simp add: recv_inv_def conn_defs)
      next
        assume "m_msg_write_len c' = 0"
        then show ?thesis using ok early by (simp add: recv_inv_def)
      next
        assume part: "c' = advance (length got) ?c2 \<and> r = Some (n - length got) \<and> length got = min n (nat ?need)
           \<and> ?need \<noteq> int (length got)"
        then have "n - length got = 0" using okL by (auto simp: min_def split: if_splits)
        then show ?thesis using part ok seen by (simp add: recv_inv_def conn_defs)
      qed
    qed
  qed
  then show "recv_inv c'" "r = Some n' \<Longrightarrow> 0 < n' \<Longrightarrow> \<not> need_wraps c'" by blast+
qed

lemma read_loop_inv:
  "reads_at_most rd \<Longrightarrow> recv_inv c \<Longrightarrow> 0 < n \<longrightarrow> \<not> need_wraps c \<Longrightarrow> recv_inv (read_loop rd n c)"
proof (induction rd n c rule: read_loop.induct)
  case (1 rd n c)
  show ?case
  proof (cases "n = 0")
    case True
    then show ?thesis using 1 by simp
  next
    case False
    obtain r c' where step: "read_step rd n c = (r, c')" by fastforce
    have exact: "\<not> need_wraps c" using "1.prems"(3) False by simp
    note keep = read_step_inv [OF "1.prems"(1,2) exact step]
    show ?thesis
    proof (cases r)
      case None
      then show ?thesis using keep(1) False step by (simp add: read_loop_step)
    next
      case (Some n')
      then show ?thesis
        using 1(1) [OF False step [symmetric] Some "1.prems"(1) keep(1)] keep(2) [of n'] False step
        by (simp add: read_loop_step)
    qed
  qed
qed

lemma recv_inv_new: "length garbage = HEAD_LEN + MAX_MSG_DATA_LEN \<Longrightarrow> recv_inv (BaseConnect_new garbage)"
  by (simp add: recv_inv_def msg_buf_ok_def BaseConnect_new_def)

section \<open>Whole messages\<close>

definition frame :: "byte list \<Rightarrow> byte list" where
  "frame body = be4 (int (length body)) @ body"

definition payload :: "MsgPack \<Rightarrow> byte list" where
  "payload m = take (nat (msg_len m)) (msg_data m)"

text \<open>The payloads handed to \<^verbatim>\<open>OnRecv\<close>, in order.\<close>

fun recv_payloads :: "conn_call list \<Rightarrow> byte list list" where
  "recv_payloads [] = []"
| "recv_payloads (OnRecv m # es) = payload m # recv_payloads es"
| "recv_payloads (_ # es) = recv_payloads es"

definition received :: "BaseConnect \<Rightarrow> byte list list" where
  "received c = recv_payloads (calls c)"

lemma recv_payloads_append [simp]:
  "recv_payloads (es @ es') = recv_payloads es @ recv_payloads es'"
  by (induction es rule: recv_payloads.induct) auto

lemma length_be4 [simp]: "length (be4 len) = 4"
  by (simp add: be4_def Let_def)

lemma be4_small:
  "len \<le> 4096 \<Longrightarrow> be4 (int len) = [NUL, NUL, char_of (len div 256), char_of len]"
  by (simp add: be4_def Let_def nat_mod_distrib char_of_eq_iff)

lemma uchar_char_of_mod: "uchar (char_of n) = n mod 256"
  by (simp add: uchar_def)

lemma msg_len_rev_be4:
  "len \<le> 4096 \<Longrightarrow> msg_len (rev (be4 (int len)) @ bs) = int len"
proof -
  assume len: "len \<le> 4096"
  then have "len mod 256 + 256 * (len div 256 mod 256) = len"
    by (simp add: mod_less)
  then show ?thesis
    using len by (simp add: msg_len_def le4_def s32_def be4_small uchar_char_of_mod)
       (simp add: uchar_def)
qed

lemma s32_high_bytes:
  "0 < a \<or> 0 < b \<Longrightarrow> a < 256 \<Longrightarrow> b < 256 \<Longrightarrow>
     4096 < s32 (2 ^ 16 * a + 2 ^ 24 * b) \<or> s32 (2 ^ 16 * a + 2 ^ 24 * b) < 0"
  by (auto simp: s32_def)

text \<open>The same four bytes read without the swap are no acceptable length.\<close>

lemma msg_len_be4_bad:
  assumes "0 < len" "len \<le> 4096"
  shows "4096 < msg_len (be4 (int len) @ bs) \<or> msg_len (be4 (int len) @ bs) < 0"
proof -
  let ?a = "len div 256 mod 256" and ?b = "len mod 256"
  have "msg_len (be4 (int len) @ bs) = s32 (2 ^ 16 * ?a + 2 ^ 24 * ?b)"
    using assms by (simp add: msg_len_def le4_def be4_small uchar_char_of_mod) (simp add: uchar_def)
  moreover have "0 < ?a \<or> 0 < ?b"
  proof -
    have split: "len = 256 * (len div 256) + ?b" by simp
    have "len div 256 \<le> 16" using assms(2) by (simp add: less_mult_imp_div_less)
    then have "?a = len div 256" by (intro mod_less) linarith
    then show ?thesis using split assms(1) by linarith
  qed
  moreover have "?a < 256" "?b < 256" by simp_all
  ultimately show ?thesis using s32_high_bytes by metis
qed

text \<open>
  A connection that holds the first \<open>k\<close> bytes of a header and has more input waiting.
\<close>

definition at_header :: "byte list \<Rightarrow> nat \<Rightarrow> byte list \<Rightarrow> BaseConnect \<Rightarrow> bool" where
  "at_header h k inp c \<longleftrightarrow> (\<exists>b. m_buf_e c = Some b \<and> bev_input b = inp)
     \<and> length (m_msg c) = HEAD_LEN + MAX_MSG_DATA_LEN \<and> k \<le> 4 \<and> m_msg_write_len c = k
     \<and> take k (m_msg c) = take k h"

lemma read_header_step:
  assumes rd: "reads_prefix rd" and c: "at_header h k inp c" and k: "k < 4" and h: "length h = 4"
    and inp: "inp = drop k (take j h) @ rest" "k < j" "j \<le> 4" "j < 4 \<longrightarrow> rest = []"
  shows "\<exists>c'. read_loop rd (length inp) c = read_loop rd (length rest) c' \<and> at_header h j rest c'
    \<and> calls c' = calls c \<and> m_is_connect c' = m_is_connect c"
proof -
  let ?n = "length inp"
  have n: "0 < ?n" "min ?n (4 - k) = j - k" using inp h k by auto
  have got: "rd inp (j - k) = (drop k (take j h), rest)"
    using rd inp h by (simp add: reads_prefix_def)
  let ?c' = "advance (j - k) (set_input rest (store_bytes (drop k (take j h)) c))"
  have "read_step rd ?n c = (Some (?n - (j - k)), ?c')"
    using c k got n h inp(3)
    by (auto simp: read_step_def at_header_def HEAD_LEN_def input_of_def Let_def min_def)
  moreover have "?n - (j - k) = length rest" using inp h by simp
  moreover have "at_header h j rest ?c'"
  proof -
    have "take j (blit (m_msg c) k (drop k (take j h))) = take k (m_msg c) @ drop k (take j h)"
      using take_blit [of k "m_msg c" "drop k (take j h)"] c inp h
      by (simp add: at_header_def HEAD_LEN_def MAX_MSG_DATA_LEN_def)
    also have "take k (m_msg c) = take k (take j h)"
      using c inp(2) by (simp add: at_header_def min_def)
    also have "take k (take j h) @ drop k (take j h) = take j h"
      by (rule append_take_drop_id)
    finally show ?thesis
      using c inp h by (auto simp: at_header_def conn_defs HEAD_LEN_def MAX_MSG_DATA_LEN_def)
  qed
  ultimately show ?thesis
    using n by (intro exI [of _ ?c']) (simp add: read_loop_step conn_defs)
qed

lemma read_body_step:
  assumes rd: "reads_prefix rd" and c: "at_header (be4 (int len)) 4 (body @ rest) c"
    and len: "length body = len" "0 < len" "len \<le> 4096"
  shows "\<exists>c' h. read_loop rd (length (body @ rest)) c = read_loop rd (length rest) c'
    \<and> at_header h 0 rest c' \<and> received c' = received c @ [body] \<and> m_is_connect c' = m_is_connect c"
proof -
  let ?h = "be4 (int len)" and ?n = "length (body @ rest)"
  let ?c1 = "c\<lparr>m_msg := swap_len (m_msg c)\<rparr>"
  have m: "swap_len (m_msg c) = rev ?h @ drop 4 (m_msg c)" and wl: "m_msg_write_len c = 4"
    and lenm: "length (m_msg c) = 4100"
    using c by (simp_all add: at_header_def swap_len_def HEAD_LEN_def MAX_MSG_DATA_LEN_def)
  have ml: "msg_len (swap_len (m_msg c)) = int len"
    using m len by (simp add: msg_len_rev_be4)
  have got: "rd (body @ rest) len = (body, rest)"
    using rd len by (simp add: reads_prefix_def)
  let ?c3 = "advance len (set_input rest (store_bytes body ?c1))"
  let ?c' = "(call (OnRecv (m_msg ?c3)) ?c3)\<lparr>m_msg := clear_len (m_msg ?c3), m_msg_write_len := 0\<rparr>"
  have inp: "input_of ?c1 = body @ rest" "input_of c = body @ rest"
    using c by (auto simp: at_header_def input_of_def)
  have mn: "min ?n len = len" using len by simp
  have "read_step rd ?n c = (Some (?n - len), ?c')"
    using wl ml got len inp mn
    by (simp add: read_step_def HEAD_LEN_def MAX_MSG_DATA_LEN_def Let_def)
  moreover have "m_msg ?c3 = rev ?h @ body @ drop (4 + len) (m_msg c)"
    using lenm wl m by (simp add: store_bytes_def advance_def set_input_def blit_def len add.commute)
  then have "payload (m_msg ?c3) = body"
    using len by (simp add: payload_def msg_len_rev_be4 msg_data_def HEAD_LEN_def)
  moreover have "length (m_msg ?c3) = 4100"
    using lenm wl len by (simp add: store_bytes_def advance_def set_input_def)
  then have "at_header ?h 0 rest ?c'"
    using c by (auto simp: at_header_def conn_defs HEAD_LEN_def MAX_MSG_DATA_LEN_def)
  ultimately show ?thesis
    using len by (intro exI [of _ ?c'] exI [of _ ?h])
      (simp add: read_loop_step received_def call_def advance_def set_input_def store_bytes_def)
qed

lemma at_header_0: "at_header h 0 inp c \<Longrightarrow> at_header h' 0 inp c"
  by (simp add: at_header_def)

lemma received_cong: "calls c' = calls c \<Longrightarrow> received c' = received c"
  by (simp add: received_def)

lemma read_frame:
  assumes rd: "reads_prefix rd" and len: "0 < length body" "length body \<le> 4096"
    and c: "at_header (be4 (int (length body))) k (drop k (be4 (int (length body))) @ body @ rest) c"
  shows "\<exists>c' h. read_loop rd (length (drop k (be4 (int (length body))) @ body @ rest)) c
      = read_loop rd (length rest) c'
    \<and> at_header h 0 rest c' \<and> received c' = received c @ [body] \<and> m_is_connect c' = m_is_connect c"
proof -
  let ?h = "be4 (int (length body))"
  have k: "k \<le> 4" using c by (simp add: at_header_def)
  obtain c1 where c1: "at_header ?h 4 (body @ rest) c1" "calls c1 = calls c"
      "m_is_connect c1 = m_is_connect c"
    and l1: "read_loop rd (length (drop k ?h @ body @ rest)) c = read_loop rd (length (body @ rest)) c1"
  proof (cases "k = 4")
    case True
    then show ?thesis using c that [of c] by simp
  next
    case False
    then show ?thesis
      using that read_header_step [OF rd c, of 4 "body @ rest"] k by auto
  qed
  obtain c2 h where "read_loop rd (length (body @ rest)) c1 = read_loop rd (length rest) c2"
    "at_header h 0 rest c2" "received c2 = received c1 @ [body]" "m_is_connect c2 = m_is_connect c1"
    using read_body_step [OF rd c1(1) refl len] by blast
  then show ?thesis using l1 c1(2,3) by (metis received_cong)
qed

lemma read_frames:
  assumes rd: "reads_prefix rd"
  shows "\<lbrakk> at_header h 0 (concat (map frame bodies) @ rest) c;
           \<forall>b \<in> set bodies. 0 < length b \<and> length b \<le> 4096 \<rbrakk> \<Longrightarrow>
    \<exists>c' h'. read_loop rd (length (concat (map frame bodies) @ rest)) c = read_loop rd (length rest) c'
      \<and> at_header h' 0 rest c' \<and> received c' = received c @ bodies \<and> m_is_connect c' = m_is_connect c"
proof (induction bodies arbitrary: c h)
  case Nil
  then show ?case by (auto intro!: exI [of _ c])
next
  case (Cons b bs)
  let ?rest = "concat (map frame bs) @ rest"
  have "at_header (be4 (int (length b))) 0 (drop 0 (be4 (int (length b))) @ b @ ?rest) c"
    using at_header_0 [OF Cons.prems(1)] by (simp add: frame_def [of b])
  from read_frame [OF rd _ _ this] Cons.prems(2)
  obtain c1 h1 where c1: "read_loop rd (length (frame b @ ?rest)) c = read_loop rd (length ?rest) c1"
    "at_header h1 0 ?rest c1" "received c1 = received c @ [b]" "m_is_connect c1 = m_is_connect c"
    by (auto simp: frame_def)
  from Cons.IH [OF c1(2)] Cons.prems(2)
  obtain c2 h2 where "read_loop rd (length ?rest) c1 = read_loop rd (length rest) c2"
    "at_header h2 0 rest c2" "received c2 = received c1 @ bs" "m_is_connect c2 = m_is_connect c1"
    by auto
  then show ?case using c1 by (intro exI [of _ c2] exI [of _ h2]) simp
qed

text \<open>An open connection between two messages, and the arrival of more bytes.\<close>

definition idle_conn :: "BaseConnect \<Rightarrow> bool" where
  "idle_conn c \<longleftrightarrow> at_header [] 0 [] c \<and> m_is_connect c"

definition deliver :: "(byte list \<Rightarrow> nat \<Rightarrow> byte list \<times> byte list) \<Rightarrow> byte list \<Rightarrow> BaseConnect
    \<Rightarrow> BaseConnect" where
  "deliver rd bs c = conn_read_callback rd (set_input (input_of c @ bs) c)"

lemma at_header_deliver:
  assumes "at_header h k [] c"
  shows "at_header h k bs (set_input (input_of c @ bs) c)"
    and "deliver rd bs c = read_loop rd (length bs) (set_input (input_of c @ bs) c)"
    and "received (set_input q c) = received c" "m_is_connect (set_input q c) = m_is_connect c"
  using assms
  by (auto simp: at_header_def set_input_def input_of_def received_def deliver_def
      conn_read_callback_def)

lemma deliver_frames:
  assumes "reads_prefix rd" "idle_conn c"
    and "\<forall>b \<in> set bodies. 0 < length b \<and> length b \<le> MAX_MSG_DATA_LEN"
  shows "received (deliver rd (concat (map frame bodies)) c) = received c @ bodies
    \<and> idle_conn (deliver rd (concat (map frame bodies)) c)"
proof -
  have c: "at_header [] 0 [] c" and conn: "m_is_connect c"
    using assms(2) by (simp_all add: idle_conn_def)
  note d = at_header_deliver [OF c]
  obtain c' h where "deliver rd (concat (map frame bodies)) c = read_loop rd 0 c'"
    "at_header h 0 [] c'" "received c' = received c @ bodies" "m_is_connect c'"
    using read_frames [OF assms(1), of "[]" bodies "[]"] d assms(3) conn
    by (fastforce simp: MAX_MSG_DATA_LEN_def)
  then show ?thesis by (auto simp: idle_conn_def at_header_0)
qed

lemma deliver_split_header:
  assumes rd: "reads_prefix rd" and c: "idle_conn c"
    and bodies: "\<forall>b \<in> set (bs1 @ b # bs2). 0 < length b \<and> length b \<le> MAX_MSG_DATA_LEN"
    and j: "j \<le> 4"
  shows "received (deliver rd (drop j (frame b) @ concat (map frame bs2))
      (deliver rd (concat (map frame bs1) @ take j (frame b)) c)) = received c @ bs1 @ b # bs2"
proof -
  let ?h = "be4 (int (length b))"
  have c0: "at_header [] 0 [] c" using c by (simp add: idle_conn_def)
  have tk: "take j (frame b) = drop 0 (take j ?h) @ []" and dr: "drop j (frame b) = drop j ?h @ b"
    using j by (simp_all add: frame_def)
  note d0 = at_header_deliver [OF c0]
  have "\<forall>b \<in> set bs1. 0 < length b \<and> length b \<le> 4096"
    using bodies by (auto simp: MAX_MSG_DATA_LEN_def)
  from read_frames [OF rd d0(1) this]
  obtain c1 h1 where c1: "deliver rd (concat (map frame bs1) @ take j (frame b)) c
      = read_loop rd (length (take j (frame b))) c1"
    "at_header h1 0 (take j (frame b)) c1" "received c1 = received c @ bs1"
    unfolding d0(2,3) by blast
  have h1: "at_header ?h 0 (take j (frame b)) c1" using c1(2) by (rule at_header_0)
  obtain c2 where c2: "read_loop rd (length (take j (frame b))) c1 = c2" "at_header ?h j [] c2"
    "received c2 = received c1"
  proof (cases "j = 0")
    case True
    then show ?thesis using that [of c1] h1 by simp
  next
    case False
    then have "0 < j" by simp
    from read_header_step [OF rd h1 _ length_be4 tk this j]
    obtain c' where "read_loop rd (length (take j (frame b))) c1 = c'" "at_header ?h j [] c'"
      "calls c' = calls c1" by auto
    then show ?thesis using that received_cong by blast
  qed
  note d2 = at_header_deliver [OF c2(2)]
  have "at_header ?h j (drop j ?h @ b @ concat (map frame bs2))
      (set_input (input_of c2 @ drop j ?h @ b @ concat (map frame bs2)) c2)"
    by (rule d2(1))
  from read_frame [OF rd _ _ this]
  obtain c3 h3 where c3: "deliver rd (drop j ?h @ b @ concat (map frame bs2)) c2
      = read_loop rd (length (concat (map frame bs2))) c3"
    "at_header h3 0 (concat (map frame bs2)) c3" "received c3 = received c2 @ [b]"
    unfolding d2(2,3) using bodies by (auto simp: MAX_MSG_DATA_LEN_def)
  obtain c4 where "read_loop rd (length (concat (map frame bs2))) c3 = c4"
    "received c4 = received c3 @ bs2"
    using read_frames [OF rd, of h3 bs2 "[]" c3] c3(2) bodies by (simp add: MAX_MSG_DATA_LEN_def)
  then show ?thesis using c1 c2 c3 dr by simp
qed

section \<open>Arrival in any number of pieces\<close>

text \<open>
  Whether the first \<open>n\<close> bytes of the frames end outside of the bodies: between two frames, or in or right
  behind a header.
\<close>

fun clean_cut :: "byte list list \<Rightarrow> nat \<Rightarrow> bool" where
  "clean_cut [] n = (n = 0)"
| "clean_cut (b # bs) n = (n \<le> HEAD_LEN \<or> (HEAD_LEN + length b \<le> n \<and> clean_cut bs (n - (HEAD_LEN + length b))))"

text \<open>A connection that has read \<open>k\<close> bytes of the frames of \<open>bodies\<close>, all of them of the first header.\<close>

definition awaits :: "byte list list \<Rightarrow> nat \<Rightarrow> byte list \<Rightarrow> BaseConnect \<Rightarrow> bool" where
  "awaits bodies k inp c \<longleftrightarrow> m_is_connect c \<and>
     (case bodies of [] \<Rightarrow> k = 0 \<and> at_header [] 0 inp c | b # bs \<Rightarrow> at_header (be4 (int (length b))) k inp c)"

abbreviation sendable :: "byte list list \<Rightarrow> bool" where
  "sendable bodies \<equiv> \<forall>b \<in> set bodies. 0 < length b \<and> length b \<le> MAX_MSG_DATA_LEN"

lemma length_frame [simp]: "length (frame b) = HEAD_LEN + length b"
  by (simp add: frame_def HEAD_LEN_def)

lemma clean_cut_shift:
  "sendable done \<Longrightarrow> clean_cut (done @ bodies) (length (concat (map frame done)) + n) = clean_cut bodies n"
proof (induction "done")
  case (Cons b bs)
  then show ?case by (simp add: add.assoc)
qed simp

lemma awaits_idle: "idle_conn c \<Longrightarrow> awaits bodies 0 [] c"
  by (cases bodies) (auto simp: awaits_def idle_conn_def intro: at_header_0)

lemma awaits_none: "awaits [] k [] c \<Longrightarrow> idle_conn c"
  by (simp add: awaits_def idle_conn_def)

lemma awaits_start: "at_header h 0 inp c \<Longrightarrow> m_is_connect c \<Longrightarrow> awaits bodies 0 inp c"
  by (cases bodies) (auto simp: awaits_def intro: at_header_0)

lemma append_longer: "x @ y = p @ f \<Longrightarrow> length p \<le> length x \<Longrightarrow> \<exists>u. x = p @ u \<and> u @ y = f"
  by (induction p arbitrary: x) (auto simp: neq_Nil_conv length_Suc_conv Suc_le_length_iff)

text \<open>What the read loop leaves behind when its input ends at a clean cut.\<close>

lemma read_clean:
  assumes rd: "reads_prefix rd"
  shows "\<lbrakk> awaits bodies k x c; sendable bodies; x @ y = drop k (concat (map frame bodies));
           clean_cut bodies (k + length x) \<rbrakk> \<Longrightarrow>
    \<exists>done bodies' k'. bodies = done @ bodies' \<and> k + length x = length (concat (map frame done)) + k'
      \<and> awaits bodies' k' [] (read_loop rd (length x) c) \<and> y = drop k' (concat (map frame bodies'))
      \<and> received (read_loop rd (length x) c) = received c @ done"
proof (induction bodies arbitrary: k x c)
  case Nil
  then have "x = []" "y = []" by (simp_all add: awaits_def)
  then show ?case using Nil.prems by (auto simp: awaits_def)
next
  case (Cons b bs)
  let ?h = "be4 (int (length b))" and ?F = "concat (map frame bs)"
  have h: "at_header ?h k x c" and conn: "m_is_connect c" using Cons.prems(1) by (simp_all add: awaits_def)
  have k: "k \<le> 4" using h by (simp add: at_header_def)
  have xy: "x @ y = drop k ?h @ b @ ?F" using Cons.prems(3) k by (simp add: frame_def [of b])
  consider (head) "k + length x \<le> 4" | (more) "4 + length b \<le> k + length x" "clean_cut bs (k + length x - (4 + length b))"
    using Cons.prems(4) by (auto simp: HEAD_LEN_def)
  then show ?case
  proof cases
    case head
    let ?j = "k + length x"
    have "x = take (length x) (drop k ?h @ b @ ?F)" using xy by (metis append_eq_conv_conj)
    then have x: "x = drop k (take ?j ?h)" using head k by (simp add: drop_take)
    have y: "y = drop ?j (concat (map frame (b # bs)))"
      using Cons.prems(3) by (metis add.commute append_eq_conv_conj drop_drop)
    have "awaits (b # bs) ?j [] (read_loop rd (length x) c) \<and> received (read_loop rd (length x) c) = received c"
    proof (cases "x = []")
      case True
      then show ?thesis using Cons.prems(1) by simp
    next
      case False
      then have "0 < length x" by simp
      then have "k < 4" "k < ?j" using head by linarith+
      from read_header_step [OF rd h this(1) length_be4, of ?j "[]"] x this(2) head
      obtain c' where "read_loop rd (length x) c = c'" "at_header ?h ?j [] c'" "calls c' = calls c"
        "m_is_connect c' = m_is_connect c" by auto
      then show ?thesis using conn by (simp add: awaits_def received_def)
    qed
    then show ?thesis using y by (intro exI [of _ "[]"] exI [of _ "b # bs"] exI [of _ ?j]) simp
  next
    case more
    obtain x' where x': "x = drop k ?h @ b @ x'" "x' @ y = ?F"
    proof -
      have "length (drop k ?h @ b) \<le> length x" using more(1) k by simp
      moreover have "x @ y = (drop k ?h @ b) @ ?F" using xy by simp
      ultimately obtain u where "x = (drop k ?h @ b) @ u" "u @ y = ?F"
        using append_longer by blast
      then show ?thesis using that by simp
    qed
    have b: "0 < length b" "length b \<le> 4096" using Cons.prems(2) by (simp_all add: MAX_MSG_DATA_LEN_def)
    from read_frame [OF rd b, of k x' c] h x'(1) obtain c1 h1 where
      c1: "read_loop rd (length x) c = read_loop rd (length x') c1" "at_header h1 0 x' c1"
        "received c1 = received c @ [b]" "m_is_connect c1" using conn by auto
    have n: "k + length x = 4 + length b + length x'" using x'(1) k by simp
    have "awaits bs 0 x' c1" using c1(2,4) by (rule awaits_start)
    from Cons.IH [OF this] Cons.prems(2) x'(2) more(2) n obtain "done" bodies' k' where
      r: "bs = done @ bodies'" "length x' = length (concat (map frame done)) + k'"
        "awaits bodies' k' [] (read_loop rd (length x') c1)" "y = drop k' (concat (map frame bodies'))"
        "received (read_loop rd (length x') c1) = received c1 @ done" by auto
    then show ?thesis
      using c1 n by (intro exI [of _ "b # done"] exI [of _ bodies'] exI [of _ k']) (simp add: HEAD_LEN_def)
  qed
qed

lemma awaits_at_header: "awaits bodies k inp c \<Longrightarrow> \<exists>h. at_header h k inp c"
  by (cases bodies) (auto simp: awaits_def)

lemma deliver_clean:
  assumes rd: "reads_prefix rd" and c: "awaits bodies k [] c" and b: "sendable bodies"
    and x: "x @ y = drop k (concat (map frame bodies))" "clean_cut bodies (k + length x)"
  obtains "done" bodies' k' where "bodies = done @ bodies'" "k + length x = length (concat (map frame done)) + k'"
    "awaits bodies' k' [] (deliver rd x c)" "y = drop k' (concat (map frame bodies'))"
    "received (deliver rd x c) = received c @ done"
proof -
  let ?c = "set_input (input_of c @ x) c"
  obtain h where h: "at_header h k [] c" using awaits_at_header [OF c] by blast
  note d = at_header_deliver [OF h]
  have "awaits bodies k x ?c"
    using c at_header_deliver(1) [of _ k c x] at_header_deliver(4) [OF h, of "input_of c @ x"]
    by (auto simp: awaits_def split: list.splits)
  from read_clean [OF rd this b x] show ?thesis using that unfolding d(2) d(3) by blast
qed

section \<open>A body that arrives in two pieces\<close>

lemma deliver_header_and_part:
  assumes rd: "reads_prefix rd" and c: "idle_conn c"
    and j: "0 < j" "j < length body" "length body \<le> MAX_MSG_DATA_LEN"
  defines "h \<equiv> be4 (int (length body))"
  defines "c' \<equiv> deliver rd (h @ take j body) c"
  shows "at_header [] 0 [] (c'\<lparr>m_msg_write_len := 0\<rparr>) \<and> m_msg_write_len c' = 4 + j
    \<and> take 4 (m_msg c') = rev h \<and> received c' = received c
    \<and> m_is_connect c' = m_is_connect c"
proof -
  have c0: "at_header [] 0 [] c" using c by (simp add: idle_conn_def)
  note d = at_header_deliver [OF c0]
  have c1: "at_header h 0 (h @ take j body) (set_input (input_of c @ h @ take j body) c)"
    using d(1) by (rule at_header_0)
  have h4: "length h = 4" by (simp add: h_def)
  obtain c2 where c2: "c' = read_loop rd (length (take j body)) c2" "at_header h 4 (take j body) c2"
    "calls c2 = calls c" "m_is_connect c2 = m_is_connect c"
    using read_header_step [OF rd c1, of 4 "take j body"] h4 unfolding c'_def d(2)
    by (auto simp: set_input_def)
  let ?c3 = "c2\<lparr>m_msg := swap_len (m_msg c2)\<rparr>"
  have m: "swap_len (m_msg c2) = rev h @ drop 4 (m_msg c2)" and wl: "m_msg_write_len c2 = 4"
    and lenm: "length (m_msg c2) = 4100"
    using c2(2) h4 by (simp_all add: at_header_def swap_len_def HEAD_LEN_def MAX_MSG_DATA_LEN_def)
  have ml: "msg_len (swap_len (m_msg c2)) = int (length body)"
    using m j by (simp add: msg_len_rev_be4 h_def MAX_MSG_DATA_LEN_def)
  have inp: "input_of ?c3 = take j body" "length (take j body) = j"
    using c2(2) j by (auto simp: at_header_def input_of_def)
  have got: "rd (take j body) j = (take j body, [])"
    using rd by (simp add: reads_prefix_def)
  have mn: "min j (length body) = j" using j by simp
  have "read_step rd j c2 = (Some 0, advance j (set_input [] (store_bytes (take j body) ?c3)))"
    using wl ml got inp mn j
    by (simp add: read_step_def HEAD_LEN_def MAX_MSG_DATA_LEN_def Let_def)
  then have c': "c' = advance j (set_input [] (store_bytes (take j body) ?c3))"
    using c2(1) inp(2) j by (simp add: read_loop_step)
  show ?thesis
    unfolding c' using c2 m wl lenm h4 j inp(2)
    by (auto simp: at_header_def conn_defs HEAD_LEN_def MAX_MSG_DATA_LEN_def received_def blit_def)
qed

lemma reads_prefix_at_most: "reads_prefix rd \<Longrightarrow> reads_at_most rd"
  by (simp add: reads_prefix_def reads_at_most_def)

lemma recv_inv_cong:
  "m_msg c' = m_msg c \<Longrightarrow> m_msg_write_len c' = m_msg_write_len c \<Longrightarrow> recv_inv c' = recv_inv c"
  by (simp add: recv_inv_def msg_buf_ok_def)

lemma need_wraps_early: "m_msg_write_len c \<le> 4 \<Longrightarrow> \<not> need_wraps c"
  using msg_len_range [of "swap_len (m_msg c)"] unfolding need_wraps_def HEAD_LEN_def by linarith

lemma deliver_inv:
  assumes rd: "reads_prefix rd" and c: "idle_conn c"
  shows "recv_inv (deliver rd bs c)"
proof -
  let ?c = "set_input (input_of c @ bs) c"
  have wl: "m_msg_write_len ?c = 0" using c by (simp add: idle_conn_def at_header_def set_input_def)
  moreover have "length (m_msg ?c) = HEAD_LEN + MAX_MSG_DATA_LEN"
    using c by (simp add: idle_conn_def at_header_def set_input_def)
  ultimately have "recv_inv ?c" by (simp add: recv_inv_def msg_buf_ok_def)
  then show ?thesis
    unfolding deliver_def conn_read_callback_def
    using wl need_wraps_early by (intro read_loop_inv reads_prefix_at_most rd) simp_all
qed

text \<open>The state after a header and a part of the body.\<close>

lemma part_of_body:
  assumes rd: "reads_prefix rd" and c: "idle_conn c"
    and j: "0 < j" "j < length body" "length body \<le> MAX_MSG_DATA_LEN"
  defines "c1 \<equiv> deliver rd (be4 (int (length body)) @ take j body) c"
  shows "recv_inv c1" "m_buf_e c1 \<noteq> None" "input_of c1 = []" "m_msg_write_len c1 = 4 + j"
    "length (m_msg c1) = 4100" "msg_len (m_msg c1) = int (length body)"
    "swap_len (m_msg c1) = be4 (int (length body)) @ drop 4 (m_msg c1)" "received c1 = received c"
    "m_is_connect c1"
proof -
  note one = deliver_header_and_part [OF rd c j, folded c1_def]
  show "recv_inv c1" unfolding c1_def by (rule deliver_inv [OF rd c])
  show "m_buf_e c1 \<noteq> None" "input_of c1 = []" "m_msg_write_len c1 = 4 + j" "received c1 = received c"
    "m_is_connect c1"
    using one c by (auto simp: at_header_def input_of_def idle_conn_def)
  show len: "length (m_msg c1) = 4100"
    using one by (simp add: at_header_def HEAD_LEN_def MAX_MSG_DATA_LEN_def)
  have "m_msg c1 = take 4 (m_msg c1) @ drop 4 (m_msg c1)" by simp
  then have "m_msg c1 = rev (be4 (int (length body))) @ drop 4 (m_msg c1)" using one by simp
  moreover have "msg_len (rev (be4 (int (length body))) @ drop 4 (m_msg c1)) = int (length body)"
    using j by (intro msg_len_rev_be4) (simp add: MAX_MSG_DATA_LEN_def)
  ultimately show "msg_len (m_msg c1) = int (length body)" by simp
  show "swap_len (m_msg c1) = be4 (int (length body)) @ drop 4 (m_msg c1)"
    using one by (simp add: swap_len_def)
qed

lemma deliver_rest_of_body:
  assumes rd: "reads_prefix rd" and c: "idle_conn c"
    and j: "0 < j" "j < length body" "length body \<le> MAX_MSG_DATA_LEN" and later: "later \<noteq> []"
    and not128: "length body \<noteq> 128"
  shows "let c1 = deliver rd (be4 (int (length body)) @ take j body) c;
             c2 = deliver rd later c1
         in m_buf_e c2 = None \<and> \<not> m_is_connect c2 \<and> m_fd c2 = 0
            \<and> calls c2 = calls c1 @ [on_disconnected] \<and> received c2 = received c"
proof -
  let ?h = "be4 (int (length body))"
  define c1 where "c1 = deliver rd (?h @ take j body) c"
  note one = part_of_body [OF rd c j, folded c1_def]
  let ?ci = "set_input later c1" and ?L = "msg_len (swap_len (m_msg c1))"
  have bad: "4096 < ?L \<or> ?L < 0"
    unfolding one(7) using j by (intro msg_len_be4_bad) (auto simp: MAX_MSG_DATA_LEN_def)
  have "\<not> half_of_128 c1" using one(6) not128 by (simp add: half_of_128_def)
  then have "\<not> need_wraps c1" using recv_inv_exact [OF one(1)] by blast
  then have need: "c_int (?L + 4 - int (4 + j)) = ?L - int j" if "?L \<le> 4096"
    using need_exact [of c1] that one(4) by (simp add: HEAD_LEN_def MAX_MSG_DATA_LEN_def)
  have "read_step rd (length later) ?ci = (None, DisConnect (?ci\<lparr>m_msg := swap_len (m_msg c1)\<rparr>))"
    using bad one(4) need
    by (auto simp: read_step_def HEAD_LEN_def MAX_MSG_DATA_LEN_def Let_def set_input_def)
  moreover have "input_of ?ci = later"
    using one(2) by (auto simp: input_of_def set_input_def)
  ultimately have "deliver rd later c1 = DisConnect (?ci\<lparr>m_msg := swap_len (m_msg c1)\<rparr>)"
    using later one(3) by (simp add: deliver_def conn_read_callback_def read_loop_step)
  then show ?thesis
    using one(8) unfolding Let_def c1_def [symmetric]
    by (simp add: DisConnect_def free_def call_def set_input_def received_def)
qed


section \<open>What a peer receives of a sent message\<close>

definition can_send :: "BaseConnect \<Rightarrow> byte list \<Rightarrow> bool" where
  "can_send c out \<longleftrightarrow> m_is_connect c \<and> m_fd c \<noteq> 0
     \<and> (\<exists>b. m_buf_e c = Some b \<and> bev_output b = out)
     \<and> (m_msbs c = 0 \<or> length out \<le> m_msbs c)"

definition output_of :: "BaseConnect \<Rightarrow> byte list" where
  "output_of c = (case m_buf_e c of None \<Rightarrow> [] | Some b \<Rightarrow> bev_output b)"

lemma send_data_output:
  assumes wr: "appends wr" and c: "can_send c out"
    and msg: "0 \<le> msg_len msg" "msg_len msg \<le> int MAX_MSG_DATA_LEN"
      "length msg = HEAD_LEN + MAX_MSG_DATA_LEN" and beyond: "4 \<le> length beyond"
  shows "\<exists>extra c'. send_data wr beyond msg c = (True, c') \<and> length extra = 4
    \<and> output_of c' = out @ frame (payload msg) @ extra"
proof -
  let ?n = "nat (msg_len msg)"
  let ?mem = "msg_data msg @ beyond"
  have len: "length (payload msg) = ?n" and n: "?n \<le> length (msg_data msg)"
    using msg by (simp_all add: payload_def msg_data_def MAX_MSG_DATA_LEN_def HEAD_LEN_def)
  have split: "take (?n + 4) ?mem = payload msg @ take 4 (drop ?n ?mem)"
    using n by (simp add: payload_def take_add add.commute)
  obtain c' where "send_data wr beyond msg c = (True, c')"
    "output_of c' = out @ be4 (msg_len msg) @ take (nat (msg_len msg + 4)) ?mem"
    using wr c by (auto simp: send_data_def can_send_def appends_def Let_def set_output_def output_of_def)
  moreover have "nat (msg_len msg + 4) = ?n + 4" using msg by simp
  moreover have "length (take 4 (drop ?n ?mem)) = 4"
    using n beyond by simp
  ultimately show ?thesis
    using len msg(1) split
    by (intro exI [of _ "take 4 (drop ?n ?mem)"] exI [of _ c']) (simp add: frame_def)
qed

lemma deliver_frame_extra:
  assumes rd: "reads_prefix rd" and c: "idle_conn c" and b: "0 < length b" "length b \<le> MAX_MSG_DATA_LEN"
    and extra: "length extra = 4"
  shows "received (deliver rd (frame b @ extra) c) = received c @ [b]
    \<and> at_header extra 4 [] (deliver rd (frame b @ extra) c)"
proof -
  have c0: "at_header [] 0 [] c" using c by (simp add: idle_conn_def)
  note d = at_header_deliver [OF c0]
  have "at_header [] 0 (concat (map frame [b]) @ extra) (set_input (input_of c @ frame b @ extra) c)"
    using d(1) by simp
  from read_frames [OF rd this] b
  obtain c1 h where c1: "deliver rd (frame b @ extra) c = read_loop rd (length extra) c1"
    "at_header h 0 extra c1" "received c1 = received c @ [b]"
    unfolding d(2,3) by (auto simp: MAX_MSG_DATA_LEN_def)
  have "at_header extra 0 extra c1" using c1(2) by (rule at_header_0)
  from read_header_step [OF rd this, of 4 "[]"] extra
  obtain c2 where "read_loop rd (length extra) c1 = c2" "at_header extra 4 [] c2" "calls c2 = calls c1"
    by auto
  then show ?thesis using c1 received_cong by metis
qed

section \<open>Properties\<close>

text \<open>A concrete connected object, for the witnesses.\<close>

definition sample_conn :: BaseConnect where
  "sample_conn = (BaseConnect_new (replicate 4100 NUL))
     \<lparr>m_buf_e := Some new_bev, m_fd := 3, m_is_connect := True\<rparr>"

definition take_reader :: "byte list \<Rightarrow> nat \<Rightarrow> byte list \<times> byte list" where
  "take_reader q n = (take n q, drop n q)"

definition append_writer :: writer where
  "append_writer q bs = (True, q @ bs)"

lemma take_reader_ok: "reads_prefix take_reader"
  by (simp add: reads_prefix_def take_reader_def)

lemma append_writer_ok: "appends append_writer"
  by (simp add: appends_def append_writer_def)

lemma sample_conn_idle: "idle_conn sample_conn"
  by (simp add: idle_conn_def at_header_def sample_conn_def new_bev_def BaseConnect_new_def
      HEAD_LEN_def MAX_MSG_DATA_LEN_def)

lemma sample_conn_can_send: "can_send sample_conn []"
  by (simp add: can_send_def sample_conn_def BaseConnect_new_def new_bev_def)

text \<open>
  C24. The receive callback stores only inside the message buffer, for any bytes and however libevent
  hands them out, in every state but one: the connection does not hold a part of a body of 128
  bytes. \<open>recv_inv\<close> (the buffer has its size, the write position is within it, and after a part of a
  body the length field is one that was accepted) holds for a new connection and is kept.
\<close>

theorem receive_buffer_safe:
  "reads_at_most rd \<Longrightarrow> recv_inv c \<Longrightarrow> \<not> half_of_128 c
    \<Longrightarrow> recv_inv (conn_read_callback rd c) \<and> length (m_msg (conn_read_callback rd c)) = HEAD_LEN + MAX_MSG_DATA_LEN"
  unfolding conn_read_callback_def
  using read_loop_inv recv_inv_exact by (metis msg_buf_ok_def recv_inv_def)

theorem receive_buffer_safe_witness:
  "recv_inv (conn_read_callback take_reader (set_input ''attack'' sample_conn))"
  using receive_buffer_safe [of take_reader "set_input ''attack'' sample_conn"]
  by (simp add: reads_at_most_def take_reader_def recv_inv_def msg_buf_ok_def half_of_128_def set_input_def
       sample_conn_def BaseConnect_new_def HEAD_LEN_def MAX_MSG_DATA_LEN_def)



text \<open>
  C23. Non-empty messages of at most 4096 bytes, each sent as its length in network order and
  its bytes, are handed to \<^verbatim>\<open>OnRecv\<close> complete and in order, also when the stream is cut into two
  reads anywhere inside one of the length fields.
\<close>

theorem messages_received_in_order:
  "\<lbrakk> reads_prefix rd; idle_conn c; j \<le> 4;
     \<forall>x \<in> set (bs1 @ b # bs2). 0 < length x \<and> length x \<le> MAX_MSG_DATA_LEN \<rbrakk> \<Longrightarrow>
   received (deliver rd (drop j (frame b) @ concat (map frame bs2))
     (deliver rd (concat (map frame bs1) @ take j (frame b)) c)) = received c @ bs1 @ b # bs2"
  by (rule deliver_split_header)

theorem messages_received_in_order_witness:
  "received (deliver take_reader (drop 2 (frame ''hello'') @ concat (map frame [''xyz'']))
     (deliver take_reader (concat (map frame [''a'']) @ take 2 (frame ''hello'')) sample_conn))
   = received sample_conn @ [''a''] @ ''hello'' # [''xyz'']"
  by (rule messages_received_in_order)
     (simp_all add: take_reader_ok sample_conn_idle MAX_MSG_DATA_LEN_def)

text \<open>
  C25. A message whose body does not arrive in one piece drops the connection: the first part
  leaves the length swapped to host order, the next read swaps it back and refuses it. This
  holds for every split point inside the body and for every message but one of 128 bytes, which
  overruns the buffer instead.
\<close>

theorem split_body_disconnects:
  "\<lbrakk> reads_prefix rd; idle_conn c; 0 < j; j < length body; length body \<le> MAX_MSG_DATA_LEN;
     later \<noteq> []; length body \<noteq> 128 \<rbrakk> \<Longrightarrow>
   let c1 = deliver rd (be4 (int (length body)) @ take j body) c;
       c2 = deliver rd later c1
   in m_buf_e c2 = None \<and> \<not> m_is_connect c2 \<and> m_fd c2 = 0
      \<and> calls c2 = calls c1 @ [on_disconnected] \<and> received c2 = received c"
  by (rule deliver_rest_of_body)

theorem split_body_disconnects_witness:
  "let c1 = deliver take_reader (be4 (int (length ''hello'')) @ take 2 ''hello'') sample_conn;
       c2 = deliver take_reader ''llo'' c1
   in m_buf_e c2 = None \<and> \<not> m_is_connect c2 \<and> m_fd c2 = 0
      \<and> calls c2 = calls c1 @ [on_disconnected] \<and> received c2 = received sample_conn"
  by (rule split_body_disconnects)
     (simp_all add: take_reader_ok sample_conn_idle MAX_MSG_DATA_LEN_def)

text \<open>
  C26. \<^verbatim>\<open>send_data\<close> queues four bytes too many: the frame of the message is followed by four
  bytes of memory behind it, and a peer that runs the same receive code takes the message and
  then holds those four bytes as the length of the next one.
\<close>

theorem sent_message_desynchronises_peer:
  "\<lbrakk> appends wr; can_send s []; reads_prefix rd; idle_conn c; 4 \<le> length beyond;
     0 < msg_len msg; msg_len msg \<le> int MAX_MSG_DATA_LEN;
     length msg = HEAD_LEN + MAX_MSG_DATA_LEN \<rbrakk> \<Longrightarrow>
   \<exists>extra s'. send_data wr beyond msg s = (True, s') \<and> length extra = 4
     \<and> output_of s' = frame (payload msg) @ extra
     \<and> received (deliver rd (output_of s') c) = received c @ [payload msg]
     \<and> IsWaitCompleteMsg (deliver rd (output_of s') c)
     \<and> take 4 (m_msg (deliver rd (output_of s') c)) = extra"
proof -
  assume a: "appends wr" "can_send s []" "reads_prefix rd" "idle_conn c" "4 \<le> length beyond"
    "0 < msg_len msg" "msg_len msg \<le> int MAX_MSG_DATA_LEN" "length msg = HEAD_LEN + MAX_MSG_DATA_LEN"
  obtain extra s' where s': "send_data wr beyond msg s = (True, s')" "length extra = 4"
    "output_of s' = frame (payload msg) @ extra"
    using send_data_output [OF a(1,2) _ a(7,8,5)] a(6) by auto
  have "0 < length (payload msg)" "length (payload msg) \<le> MAX_MSG_DATA_LEN"
    using a(6,7,8) by (auto simp: payload_def msg_data_def HEAD_LEN_def MAX_MSG_DATA_LEN_def)
  from deliver_frame_extra [OF a(3,4) this s'(2)]
  show ?thesis
    using s' by (intro exI [of _ extra] exI [of _ s'])
      (simp add: at_header_def IsWaitCompleteMsg_def)
qed

theorem sent_message_desynchronises_peer_witness:
  "let msg = rev (be4 5) @ ''hello'' @ replicate 4091 NUL in
   \<exists>extra s'. send_data append_writer ''JUNK'' msg sample_conn = (True, s') \<and> length extra = 4
     \<and> output_of s' = frame (payload msg) @ extra
     \<and> received (deliver take_reader (output_of s') sample_conn) = received sample_conn @ [payload msg]
     \<and> IsWaitCompleteMsg (deliver take_reader (output_of s') sample_conn)
     \<and> take 4 (m_msg (deliver take_reader (output_of s') sample_conn)) = extra"
  unfolding Let_def
  by (rule sent_message_desynchronises_peer)
     (use msg_len_rev_be4 [of 5 "''hello'' @ replicate 4091 NUL"] in
      \<open>simp_all add: append_writer_ok take_reader_ok sample_conn_idle sample_conn_can_send
        HEAD_LEN_def MAX_MSG_DATA_LEN_def\<close>)

text \<open>
  Disconnecting does not discard a message that was read in part: after a successful
  reconnect the object still waits for the rest of the old message, and the first bytes of the
  new connection are stored behind the old ones.
\<close>

theorem reconnect_keeps_partial_message:
  "\<lbrakk> sin_port (m_addr c) \<noteq> 0; 0 \<le> na_socket na; na_bev_new na; na_connect na \<rbrakk> \<Longrightarrow>
   \<exists>c'. TryReconnect na (DisConnect c) = (True, c')
     \<and> m_msg_write_len c' = m_msg_write_len c \<and> m_msg c' = m_msg c
     \<and> IsWaitCompleteMsg c' = IsWaitCompleteMsg c"
  by (simp add: TryReconnect_def ConnectByAddr_def IsConnect_def DisConnect_def free_def call_def
      IsWaitCompleteMsg_def Let_def)

theorem reconnect_keeps_partial_message_witness:
  "\<exists>c'. TryReconnect \<lparr>na_socket = 7, na_bev_new = True, na_connect = True\<rparr>
        (DisConnect (sample_conn\<lparr>m_addr := zero_addr\<lparr>sin_port := 80\<rparr>, m_msg_write_len := 3\<rparr>)) = (True, c')
     \<and> m_msg_write_len c' = m_msg_write_len (sample_conn\<lparr>m_addr := zero_addr\<lparr>sin_port := 80\<rparr>, m_msg_write_len := 3\<rparr>)
     \<and> m_msg c' = m_msg (sample_conn\<lparr>m_addr := zero_addr\<lparr>sin_port := 80\<rparr>, m_msg_write_len := 3\<rparr>)
     \<and> IsWaitCompleteMsg c' = IsWaitCompleteMsg (sample_conn\<lparr>m_addr := zero_addr\<lparr>sin_port := 80\<rparr>, m_msg_write_len := 3\<rparr>)"
  by (rule reconnect_keeps_partial_message) simp_all

end
