(* ===== verification/StepRun.thy ===== *)
theory StepRun
  imports Main
begin

text \<open>
  Runs of a component whose operations may be undefined: a step gives the next state or \<open>None\<close>, and
  a run is a list of operations. What components with such operations share is the contract
  \<open>safe_steps\<close>: an operation that is allowed in a state that satisfies the invariant is defined
  and keeps the invariant.
\<close>

fun run_steps :: "('e \<Rightarrow> 's \<Rightarrow> 's option) \<Rightarrow> 'e list \<Rightarrow> 's \<Rightarrow> 's option" where
  "run_steps step [] s = Some s"
| "run_steps step (e # es) s = (case step e s of None \<Rightarrow> None | Some s' \<Rightarrow> run_steps step es s')"

text \<open>Every operation of the run is allowed in the state it is reached in.\<close>

fun steps_ok :: "('e \<Rightarrow> 's \<Rightarrow> bool) \<Rightarrow> ('e \<Rightarrow> 's \<Rightarrow> 's option) \<Rightarrow> 'e list \<Rightarrow> 's \<Rightarrow> bool" where
  "steps_ok ok step [] s = True"
| "steps_ok ok step (e # es) s =
     (ok e s \<and> (case step e s of None \<Rightarrow> False | Some s' \<Rightarrow> steps_ok ok step es s'))"

lemma run_steps_append:
  "run_steps step (es @ es') s = (case run_steps step es s of None \<Rightarrow> None | Some s' \<Rightarrow> run_steps step es' s')"
  by (induction es arbitrary: s) (auto split: option.splits)

locale safe_steps =
  fixes step :: "'e \<Rightarrow> 's \<Rightarrow> 's option"
    and ok :: "'e \<Rightarrow> 's \<Rightarrow> bool"
    and inv :: "'s \<Rightarrow> bool"
  assumes step_safe: "inv s \<Longrightarrow> ok e s \<Longrightarrow> \<exists>s'. step e s = Some s' \<and> inv s'"
begin

lemma run_safe: "inv s \<Longrightarrow> steps_ok ok step es s \<Longrightarrow> \<exists>s'. run_steps step es s = Some s' \<and> inv s'"
proof (induction es arbitrary: s)
  case Nil
  then show ?case by simp
next
  case (Cons e es)
  then obtain s' where "step e s = Some s'" "inv s'" using step_safe [of s e] by auto
  then show ?case using Cons by simp
qed

text \<open>
  When the operations are allowed as long as a resource is left, a bound on the whole run is
  enough: \<open>used\<close> is what a state has used up, \<open>cost\<close> what an operation may add.
\<close>

lemma run_within:
  assumes allowed: "\<And>e s. inv s \<Longrightarrow> good e \<Longrightarrow> used s + cost e \<le> limit \<Longrightarrow> ok e s"
    and spent: "\<And>e s s'. inv s \<Longrightarrow> good e \<Longrightarrow> ok e s \<Longrightarrow> step e s = Some s' \<Longrightarrow> used s' \<le> used s + cost e"
  shows "inv s \<Longrightarrow> list_all good es \<Longrightarrow> used s + sum_list (map cost es) \<le> (limit :: nat)
    \<Longrightarrow> \<exists>s'. run_steps step es s = Some s' \<and> inv s'"
proof (induction es arbitrary: s)
  case Nil
  then show ?case by simp
next
  case (Cons e es)
  have good: "good e" "list_all good es" using Cons.prems(2) by simp_all
  have ok: "ok e s" using allowed [OF Cons.prems(1) good(1)] Cons.prems(3) by simp
  obtain s' where s': "step e s = Some s'" "inv s'" using step_safe [OF Cons.prems(1) ok] by blast
  have "used s' + sum_list (map cost es) \<le> limit"
    using spent [OF Cons.prems(1) good(1) ok s'(1)] Cons.prems(3) by simp
  from Cons.IH [OF s'(2) good(2) this] show ?case using s'(1) by simp
qed

end

end
