(* ===== verification/LevTimer.thy ===== *)
theory LevTimer
  imports StepRun CPrelude "HOL-Library.Monad_Syntax"
begin

text \<open>
  \<^verbatim>\<open>ClientSimulate/lib_prj/lev_mgr.{h,cc}\<close> and \<^verbatim>\<open>timer_mgr.{h,cc}\<close>: the owner of libevent's event base
  and the timers on it.

  libevent is a parameter: what its functions answer is an argument, and an event is what the code
  can rely on: whether it is persistent, whether it is pending, its timeout, and, of its past, whether
  \<^verbatim>\<open>event_add\<close> took it and whether it has fired for the last time. A one-shot event
  stops being pending when it fires, a persistent one stays pending. \<open>None\<close> as the result of an
  operation is the use of a null pointer.
\<close>

section \<open>The event base\<close>

text \<open>\<open>eb_exit\<close> is the request to leave the loop, \<open>eb_signals\<close> the signal events that were added.\<close>

record event_base =
  eb_exit :: bool
  eb_signals :: "int list"

record LibEventMgr =
  m_eb :: "event_base option"

definition new_LibEventMgr :: LibEventMgr where
  "new_LibEventMgr = \<lparr>m_eb = None\<rparr>"

definition LibEventMgr_Init :: "event_base option \<Rightarrow> LibEventMgr \<Rightarrow> bool \<times> LibEventMgr" where
  "LibEventMgr_Init event_base_new mgr =
     (if m_eb mgr \<noteq> None then (False, mgr)
      else let mgr1 = mgr\<lparr>m_eb := event_base_new\<rparr> in
        if m_eb mgr1 = None then (False, mgr1) else (True, mgr1))"

definition GetEventBase :: "LibEventMgr \<Rightarrow> event_base option" where
  "GetEventBase mgr = m_eb mgr"

text \<open>\<open>loopexit\<close> is whether \<^verbatim>\<open>event_base_loopexit\<close> returns 0.\<close>

definition StopDispatch :: "bool \<Rightarrow> LibEventMgr \<Rightarrow> bool \<times> LibEventMgr" where
  "StopDispatch loopexit mgr =
     (case m_eb mgr of
        None \<Rightarrow> (False, mgr)
      | Some eb \<Rightarrow> if loopexit then (True, mgr\<lparr>m_eb := Some (eb\<lparr>eb_exit := True\<rparr>)\<rparr>) else (False, mgr))"

text \<open>
  \<^verbatim>\<open>RegSignal\<close>: \<open>made\<close> and \<open>added\<close> are the success of \<^verbatim>\<open>evsignal_new\<close> and \<^verbatim>\<open>event_add\<close>; the base is
  used without a check.
\<close>

definition RegSignal :: "bool \<Rightarrow> bool \<Rightarrow> int \<Rightarrow> LibEventMgr \<Rightarrow> LibEventMgr option" where
  "RegSignal made added sig_type mgr =
     do { eb \<leftarrow> m_eb mgr;
          if \<not> made \<or> \<not> added then Some mgr
          else Some (mgr\<lparr>m_eb := Some (eb\<lparr>eb_signals := eb_signals eb @ [sig_type]\<rparr>)\<rparr>) }"

definition delete_LibEventMgr :: "LibEventMgr \<Rightarrow> LibEventMgr" where
  "delete_LibEventMgr mgr = mgr\<lparr>m_eb := None\<rparr>"

section \<open>Timers\<close>

record timeval =
  tv_sec :: nat
  tv_usec :: nat

record le_event =
  le_persist :: bool
  le_pending :: bool
  le_time :: timeval
  le_added :: bool
  le_fired :: bool

datatype timer_state = S_WAIT_START_TIMER | S_WAIT_TIME_OUT

record BaseLeTimer =
  m_event :: "le_event option"
  m_state :: timer_state
  m_para :: nat

definition new_BaseLeTimer :: BaseLeTimer where
  "new_BaseLeTimer = \<lparr>m_event = None, m_state = S_WAIT_START_TIMER, m_para = 0\<rparr>"

text \<open>The argument is an \<^verbatim>\<open>unsigned long long\<close>.\<close>

definition timeval_of :: "64 word \<Rightarrow> timeval" where
  "timeval_of millisecond = \<lparr>tv_sec = unat (millisecond div 1000), tv_usec = unat ((millisecond mod 1000) * 1000)\<rparr>"

text \<open>
  \<^verbatim>\<open>StartTimer\<close>: \<open>made\<close> is whether \<^verbatim>\<open>event_new\<close> gives an event, \<open>added\<close> whether \<^verbatim>\<open>event_add\<close>
  returns 0; a failed \<^verbatim>\<open>event_add\<close> is only logged. The result is \<open>None\<close> when \<^verbatim>\<open>event_add\<close> is called
  with the null pointer.
\<close>

definition StartTimer :: "bool \<Rightarrow> bool \<Rightarrow> 64 word \<Rightarrow> nat \<Rightarrow> bool \<Rightarrow> BaseLeTimer
    \<Rightarrow> (bool \<times> BaseLeTimer) option" where
  "StartTimer made added millisecond para is_loop t =
     (let tv = timeval_of millisecond in
      if m_state t \<noteq> S_WAIT_START_TIMER then Some (False, t)
      else if \<not> made then None
      else let ev = \<lparr>le_persist = is_loop, le_pending = added, le_time = tv, le_added = added, le_fired = False\<rparr>
           in Some (True, t\<lparr>m_para := para, m_event := Some ev, m_state := S_WAIT_TIME_OUT\<rparr>))"

definition StopTimer :: "BaseLeTimer \<Rightarrow> bool \<times> BaseLeTimer" where
  "StopTimer t =
     (case m_event t of
        None \<Rightarrow> (False, t)
      | Some ev \<Rightarrow>
          if m_state t \<noteq> S_WAIT_TIME_OUT then (False, t)
          else (True, t\<lparr>m_event := Some (ev\<lparr>le_pending := False\<rparr>), m_state := S_WAIT_START_TIMER\<rparr>))"

text \<open>
  \<^verbatim>\<open>TimerCB\<close>, called by libevent when the pending event is due: the virtual \<^verbatim>\<open>OnTimer\<close> is given the
  stored pointer. \<open>on_timer\<close> is that function of the derived class.
\<close>

definition le_fire :: "BaseLeTimer \<Rightarrow> BaseLeTimer" where
  "le_fire t = t\<lparr>m_event := map_option (\<lambda>ev. if le_persist ev then ev else ev\<lparr>le_pending := False, le_fired := True\<rparr>) (m_event t)\<rparr>"

definition TimerCB :: "(nat \<Rightarrow> BaseLeTimer \<Rightarrow> 'a) \<Rightarrow> BaseLeTimer \<Rightarrow> 'a" where
  "TimerCB on_timer t = on_timer (m_para t) t"

definition is_armed :: "BaseLeTimer \<Rightarrow> bool" where
  "is_armed t = (case m_event t of None \<Rightarrow> False | Some ev \<Rightarrow> le_pending ev)"

text \<open>libevent runs a due timer; an event that is not pending does not fire.\<close>

definition timer_due :: "(nat \<Rightarrow> BaseLeTimer \<Rightarrow> BaseLeTimer option) \<Rightarrow> BaseLeTimer \<Rightarrow> BaseLeTimer option" where
  "timer_due on_timer t = (if is_armed t then TimerCB on_timer (le_fire t) else Some t)"

section \<open>What holds of timers\<close>

text \<open>The interval is split into seconds and microseconds without loss.\<close>

lemma timeval_of_exact:
  "tv_usec (timeval_of ms) < 1000000
   \<and> tv_sec (timeval_of ms) * 1000 + tv_usec (timeval_of ms) div 1000 = unat ms"
proof -
  have m: "unat (ms mod 1000) = unat ms mod 1000" by (simp add: unat_mod)
  have d: "unat (ms div 1000) = unat ms div 1000" by (simp add: unat_div)
  have "unat ((ms mod 1000) * 1000) = (unat (ms mod 1000) * 1000) mod 2 ^ 64"
    by (simp add: unat_word_ariths)
  moreover have "unat ms mod 1000 < 1000" by simp
  ultimately have "unat ((ms mod 1000) * 1000) = (unat ms mod 1000) * 1000" unfolding m by simp
  then show ?thesis using d by (simp add: timeval_of_def)
qed

text \<open>
  The steps of a timer's life: calls of the two operations, in which libevent may fail to make an event or to add it,
  and firing with an \<^verbatim>\<open>OnTimer\<close> that makes such calls.
\<close>

datatype timer_call = T_Start bool bool "64 word" nat bool | T_Stop

fun timer_call_step :: "timer_call \<Rightarrow> BaseLeTimer \<Rightarrow> BaseLeTimer option" where
  "timer_call_step (T_Start made added ms para loop) t = map_option snd (StartTimer made added ms para loop t)"
| "timer_call_step T_Stop t = Some (snd (StopTimer t))"

inductive timer_reach :: "BaseLeTimer \<Rightarrow> bool" where
  tr_new: "timer_reach new_BaseLeTimer"
| tr_call: "timer_reach t \<Longrightarrow> timer_call_step k t = Some t' \<Longrightarrow> timer_reach t'"
| tr_fire: "timer_reach t \<Longrightarrow> timer_due (\<lambda>para. run_steps timer_call_step ks) t = Some t' \<Longrightarrow> timer_reach t'"

text \<open>
  An armed timer is in the state \<^verbatim>\<open>S_WAIT_TIME_OUT\<close>, and a timer in that state is armed unless its event was not
  added, or it is a one-shot timer that has fired.
\<close>

definition timer_inv :: "BaseLeTimer \<Rightarrow> bool" where
  "timer_inv t \<longleftrightarrow> (is_armed t \<longrightarrow> m_state t = S_WAIT_TIME_OUT)
     \<and> (m_state t = S_WAIT_TIME_OUT \<longrightarrow>
          (case m_event t of None \<Rightarrow> False
           | Some ev \<Rightarrow> le_pending ev \<longleftrightarrow> le_added ev \<and> \<not> (le_fired ev \<and> \<not> le_persist ev)))"

lemma timer_inv_call: "timer_inv t \<Longrightarrow> timer_call_step k t = Some t' \<Longrightarrow> timer_inv t'"
  by (cases k) (auto simp: timer_inv_def StartTimer_def StopTimer_def is_armed_def Let_def split: option.splits if_splits)

lemma timer_inv_fire: "timer_inv t \<Longrightarrow> timer_inv (le_fire t)"
  by (auto simp: timer_inv_def le_fire_def is_armed_def split: option.splits)

lemma timer_inv_calls: "timer_inv t \<Longrightarrow> run_steps timer_call_step ks t = Some t' \<Longrightarrow> timer_inv t'"
  by (induction ks arbitrary: t) (auto dest: timer_inv_call split: option.splits)

lemma timer_reach_inv: "timer_reach t \<Longrightarrow> timer_inv t"
proof (induction rule: timer_reach.induct)
  case tr_new
  then show ?case by (simp add: timer_inv_def is_armed_def new_BaseLeTimer_def)
next
  case (tr_call t k t')
  then show ?case by (blast intro: timer_inv_call)
next
  case (tr_fire t ks t')
  then show ?case
    by (auto simp: timer_due_def TimerCB_def split: if_splits intro: timer_inv_fire timer_inv_calls)
qed

text \<open>
  C31. The state of a timer follows libevent's event, whatever \<^verbatim>\<open>OnTimer\<close> starts and stops: a timer that is not
  started or was stopped has no pending event and never fires, and one that was started has, with two
  exceptions. \<^verbatim>\<open>event_add\<close> failed, which \<^verbatim>\<open>StartTimer\<close> only logs; or it is a one-shot timer that has fired, whose
  state is not reset. (A step in which \<^verbatim>\<open>event_new\<close> gives no event is undefined: the null pointer goes to
  \<^verbatim>\<open>event_add\<close>.)
\<close>

theorem timer_state_follows_event:
  assumes "timer_reach t"
  shows "(is_armed t \<longrightarrow> m_state t = S_WAIT_TIME_OUT)
    \<and> (m_state t = S_WAIT_TIME_OUT \<longrightarrow> (\<exists>ev. m_event t = Some ev
         \<and> (is_armed t \<longleftrightarrow> le_added ev \<and> \<not> (le_fired ev \<and> \<not> le_persist ev))))"
  using timer_reach_inv [OF assms] by (auto simp: timer_inv_def is_armed_def split: option.splits)

text \<open>A loop timer, armed; and one whose event could not be added.\<close>

lemma timer_state_follows_event_witness:
  "\<exists>t1 t2. timer_reach t1 \<and> m_state t1 = S_WAIT_TIME_OUT \<and> is_armed t1
     \<and> timer_reach t2 \<and> m_state t2 = S_WAIT_TIME_OUT \<and> \<not> is_armed t2"
proof -
  define t where "t = (\<lambda>ok. \<lparr>m_event = Some \<lparr>le_persist = True, le_pending = ok, le_time = timeval_of 1000, le_added = ok,
    le_fired = False\<rparr>, m_state = S_WAIT_TIME_OUT, m_para = 0\<rparr>)"
  have "timer_call_step (T_Start True ok 1000 0 True) new_BaseLeTimer = Some (t ok)" for ok
    by (simp add: StartTimer_def new_BaseLeTimer_def Let_def t_def)
  then have r: "timer_reach (t ok)" for ok by (rule tr_call [OF tr_new])
  have s: "m_state (t ok) = S_WAIT_TIME_OUT" "\<exists>ev. m_event (t ok) = Some ev \<and> le_persist ev \<and> le_added ev = ok" for ok
    by (simp_all add: t_def)
  have "is_armed (t ok) = ok" for ok using timer_state_follows_event [OF r [of ok]] s [of ok] by auto
  then show ?thesis using r s(1) by blast
qed

text \<open>
  A one-shot timer that has fired cannot be started again: its state still says that it is
  waiting, so \<^verbatim>\<open>StartTimer\<close> refuses, in \<^verbatim>\<open>OnTimer\<close> and after it, until \<^verbatim>\<open>StopTimer\<close> is called on the
  timer that no longer runs.
\<close>

theorem fired_one_shot_refuses_start:
  assumes "StartTimer True True ms para False t = Some (True, t1)"
  shows "is_armed t1 \<and> \<not> is_armed (le_fire t1)
    \<and> StartTimer made added ms' para' is_loop (le_fire t1) = Some (False, le_fire t1)
    \<and> fst (StopTimer (le_fire t1))
    \<and> map_option fst (StartTimer True True ms' para' is_loop (snd (StopTimer (le_fire t1)))) = Some True"
  using assms
  by (auto simp: StartTimer_def StopTimer_def le_fire_def is_armed_def Let_def split: if_splits)

lemma fired_one_shot_refuses_start_witness:
  "\<exists>t1. StartTimer True True 5 0 False new_BaseLeTimer = Some (True, t1)
    \<and> StartTimer True True 5 0 False (le_fire t1) = Some (False, le_fire t1)"
proof -
  obtain t1 where t1: "StartTimer True True 5 0 False new_BaseLeTimer = Some (True, t1)"
    by (simp add: StartTimer_def new_BaseLeTimer_def Let_def)
  then show ?thesis using fired_one_shot_refuses_start [OF t1, of True True 5 0 False] by blast
qed

text \<open>A failed \<^verbatim>\<open>event_add\<close> is reported as success, and the timer never fires.\<close>

lemma failed_add_reports_success:
  "m_state t = S_WAIT_START_TIMER \<Longrightarrow>
   \<exists>t'. StartTimer True False ms para is_loop t = Some (True, t') \<and> \<not> is_armed t'"
  by (simp add: StartTimer_def is_armed_def Let_def)

end
