(* ===== verification/ClientMain.thy ===== *)
theory ClientMain
  imports Connector LevTimer
begin

text \<open>
  \<^verbatim>\<open>ClientSimulate/main_prj\<close>: the client program, a timer (\<^verbatim>\<open>Timer.cpp\<close>) that stops the event loop,
  a connection (\<^verbatim>\<open>ClientConnect.cpp\<close>) that sends one message, and \<^verbatim>\<open>main.cc\<close>, which starts both.
\<close>

section \<open>The timer\<close>

record client_app =
  app_mgr :: LibEventMgr
  app_timer :: BaseLeTimer
  m_cnt :: "32 word"

text \<open>\<^verbatim>\<open>ClientTimer::OnTimer\<close>; \<open>ok\<close> is whether \<^verbatim>\<open>event_base_loopexit\<close> succeeds.\<close>

definition ClientTimer_OnTimer :: "bool \<Rightarrow> nat \<Rightarrow> client_app \<Rightarrow> client_app" where
  "ClientTimer_OnTimer ok user_data a =
     (let a1 = a\<lparr>m_cnt := m_cnt a + 1\<rparr> in
      if m_cnt a1 > 2 then a1\<lparr>app_mgr := snd (StopDispatch ok (app_mgr a1))\<rparr> else a1)"

text \<open>
  \<^verbatim>\<open>dispatch\<close>: libevent's loop with the timer as its only event. A pass leaves the loop when that was
  asked for or no event is pending, and runs the timer otherwise. \<open>fuel\<close> bounds the passes; the
  second component counts the timer's runs.
\<close>

definition exit_asked :: "client_app \<Rightarrow> bool" where
  "exit_asked a = (case m_eb (app_mgr a) of None \<Rightarrow> True | Some eb \<Rightarrow> eb_exit eb)"

fun dispatch :: "bool \<Rightarrow> nat \<Rightarrow> client_app \<times> nat \<Rightarrow> (client_app \<times> nat) option" where
  "dispatch ok 0 (a, n) = None"
| "dispatch ok (Suc fuel) (a, n) =
     (if exit_asked a \<or> \<not> is_armed (app_timer a) then Some (a, n)
      else let a1 = a\<lparr>app_timer := le_fire (app_timer a)\<rparr>;
               a2 = TimerCB (\<lambda>para t. ClientTimer_OnTimer ok para (a1\<lparr>app_timer := t\<rparr>)) (app_timer a1)
           in dispatch ok fuel (a2, n + 1))"

text \<open>\<^verbatim>\<open>main\<close> up to \<^verbatim>\<open>dispatch\<close>, without the connection, which does not touch timer or loop.\<close>

definition client_main :: "event_base \<Rightarrow> client_app" where
  "client_main eb =
     (let mgr = snd (LibEventMgr_Init (Some eb) new_LibEventMgr);
          t = (case StartTimer True True (1 * 1000) 0 True new_BaseLeTimer of None \<Rightarrow> new_BaseLeTimer | Some (r, t) \<Rightarrow> t)
      in \<lparr>app_mgr = mgr, app_timer = t, m_cnt = 0\<rparr>)"

section \<open>The connection\<close>

text \<open>
  \<^verbatim>\<open>Str2MsgPack\<close> into a message whose bytes are \<open>garbage\<close>; a string that does not fit the array is
  written beyond it (\<open>None\<close>).
\<close>

definition Str2MsgPack :: "string \<Rightarrow> MsgPack \<Rightarrow> MsgPack option" where
  "Str2MsgPack str garbage =
     (if MAX_MSG_DATA_LEN < length str + 1 then None
      else Some (blit (rev (be4 (int (length str + 1))) @ drop 4 garbage) HEAD_LEN (str @ [NUL])))"

text \<open>\<^verbatim>\<open>ClientConnect::OnConnected\<close>\<close>

definition ClientConnect_OnConnected :: "writer \<Rightarrow> byte list \<Rightarrow> MsgPack \<Rightarrow> BaseConnect \<Rightarrow> BaseConnect option" where
  "ClientConnect_OnConnected wr beyond garbage c =
     map_option (\<lambda>msg. snd (send_data wr beyond msg c)) (Str2MsgPack ''1 msg'' garbage)"

section \<open>The program ends\<close>

lemma client_main_fields:
  "m_eb (app_mgr (client_main eb)) = Some eb \<and> m_cnt (client_main eb) = 0
   \<and> m_event (app_timer (client_main eb)) = Some \<lparr>le_persist = True, le_pending = True, le_time = timeval_of 1000,
       le_added = True, le_fired = False\<rparr>"
  by (simp add: client_main_def LibEventMgr_Init_def new_LibEventMgr_def StartTimer_def new_BaseLeTimer_def Let_def)

definition loop_armed :: "client_app \<Rightarrow> bool" where
  "loop_armed a = (case m_event (app_timer a) of None \<Rightarrow> False | Some ev \<Rightarrow> le_persist ev \<and> le_pending ev)"

text \<open>One pass of the loop while the count is small.\<close>

lemma dispatch_pass:
  assumes "loop_armed a" and "m_eb (app_mgr a) = Some eb" and "\<not> eb_exit eb"
  shows "dispatch ok (Suc fuel) (a, n) = dispatch ok fuel (ClientTimer_OnTimer ok (m_para (app_timer a)) a, n + 1)"
proof -
  obtain ev where ev: "m_event (app_timer a) = Some ev" "le_persist ev" "le_pending ev"
    using assms(1) by (auto simp: loop_armed_def split: option.splits)
  have "le_fire (app_timer a) = app_timer a" using ev by (simp add: le_fire_def)
  then show ?thesis
    using ev assms(2,3) by (simp add: exit_asked_def is_armed_def TimerCB_def Let_def)
qed

text \<open>
  The client program ends: its loop timer fires exactly three times and then \<^verbatim>\<open>main\<close> leaves the
  event loop, whatever bound on the passes, from four on, is given to the model.
\<close>

theorem client_program_ends:
  assumes "\<not> eb_exit eb"
  shows "\<exists>a. dispatch True (fuel + 4) (client_main eb, 0) = Some (a, 3) \<and> m_cnt a = 3 \<and> exit_asked a"
proof -
  let ?a0 = "client_main eb"
  let ?T = "\<lambda>a. ClientTimer_OnTimer True (m_para (app_timer a)) a"
  let ?a1 = "?T ?a0" let ?a2 = "?T ?a1" let ?a3 = "?T ?a2"
  note f = client_main_fields [of eb]
  have a1: "m_cnt ?a1 = 1" "app_mgr ?a1 = app_mgr ?a0" "app_timer ?a1 = app_timer ?a0"
    using f by (simp_all add: ClientTimer_OnTimer_def Let_def)
  have a2: "m_cnt ?a2 = 2" "app_mgr ?a2 = app_mgr ?a0" "app_timer ?a2 = app_timer ?a0"
    using a1 by (simp_all add: ClientTimer_OnTimer_def Let_def)
  have a3: "m_cnt ?a3 = 3" "m_eb (app_mgr ?a3) = Some (eb\<lparr>eb_exit := True\<rparr>)"
    using a2 f by (simp_all add: ClientTimer_OnTimer_def StopDispatch_def Let_def)
  have armed: "loop_armed ?a0" "loop_armed ?a1" "loop_armed ?a2"
    using f a1 a2 by (simp_all add: loop_armed_def)
  have eb: "m_eb (app_mgr ?a0) = Some eb" "m_eb (app_mgr ?a1) = Some eb" "m_eb (app_mgr ?a2) = Some eb"
    using f a1 a2 by simp_all
  have four: "fuel + 4 = Suc (Suc (Suc (Suc fuel)))" by simp
  have "dispatch True (fuel + 4) (?a0, 0) = dispatch True (Suc fuel) (?a3, 3)"
    unfolding four
    by (simp only: dispatch_pass [OF armed(1) eb(1) assms] dispatch_pass [OF armed(2) eb(2) assms]
        dispatch_pass [OF armed(3) eb(3) assms]) (simp add: numeral_3_eq_3 del: dispatch.simps)
  moreover have "exit_asked ?a3" using a3 by (simp add: exit_asked_def)
  ultimately show ?thesis using a3(1) by simp
qed

lemma client_program_ends_witness:
  "\<exists>a. dispatch True 10 (client_main \<lparr>eb_exit = False, eb_signals = []\<rparr>, 0) = Some (a, 3)"
  using client_program_ends [of "\<lparr>eb_exit = False, eb_signals = []\<rparr>" 6] by auto

end
