(* ===== verification/Sds.thy ===== *)
theory Sds
  imports CPrelude "HOL-Library.Monad_Syntax"
begin

text \<open>
  \<^verbatim>\<open>redisClient/dep/hiredis/sds.{h,c}\<close>: the dynamic strings of hiredis. A string is its header:
  the \<^verbatim>\<open>unsigned int\<close> fields \<open>len\<close> and \<open>free\<close>, kept modulo \<open>2 ^ 32\<close> where the code stores them, and
  the bytes of the whole allocated buffer. Operations that move the buffer return the new
  header, \<open>None\<close> for a NULL result; where the code goes on to use a NULL, or a failed
  \<^verbatim>\<open>assert\<close> stops the program, the result is \<open>None\<close> as well. Releasing memory has no model.
\<close>

section \<open>The interface: a growing byte string\<close>

text \<open>
  What the clients of the strings use: a string has contents, and appending to it, when it
  succeeds, appends to the contents.
\<close>

locale byte_buffer =
  fixes buf_ok :: "'b \<Rightarrow> bool"
    and buf_str :: "'b \<Rightarrow> byte list"
    and buf_fits :: "'b \<Rightarrow> nat \<Rightarrow> bool"
    and buf_append :: "'b \<Rightarrow> byte list \<Rightarrow> 'b option"
  assumes append_ok: "\<lbrakk> buf_ok b; buf_fits b (length t); buf_append b t = Some b' \<rbrakk> \<Longrightarrow> buf_ok b'"
    and append_str: "\<lbrakk> buf_ok b; buf_fits b (length t); buf_append b t = Some b' \<rbrakk> \<Longrightarrow>
          buf_str b' = buf_str b @ t"
    and append_fits: "\<lbrakk> buf_ok b; buf_fits b (length t + n); buf_append b t = Some b' \<rbrakk> \<Longrightarrow>
          buf_fits b' n"
    and fits_mono: "buf_fits b m \<Longrightarrow> n \<le> m \<Longrightarrow> buf_fits b n"
begin

fun append_all :: "'b \<Rightarrow> byte list list \<Rightarrow> 'b option" where
  "append_all b [] = Some b"
| "append_all b (t # ts) = (case buf_append b t of None \<Rightarrow> None | Some b' \<Rightarrow> append_all b' ts)"

lemma append_all_str:
  "\<lbrakk> buf_ok b; buf_fits b (length (concat ts)); append_all b ts = Some b' \<rbrakk> \<Longrightarrow>
     buf_ok b' \<and> buf_str b' = buf_str b @ concat ts"
proof (induction ts arbitrary: b)
  case Nil
  then show ?case by simp
next
  case (Cons t ts)
  from Cons.prems obtain b1 where b1: "buf_append b t = Some b1" "append_all b1 ts = Some b'"
    by (auto split: option.splits)
  have fits: "buf_fits b (length t)"
    using Cons.prems(2) by (rule fits_mono) simp
  have "buf_fits b1 (length (concat ts))"
    using append_fits [OF Cons.prems(1) _ b1(1)] Cons.prems(2) by simp
  then show ?case
    using Cons.IH [OF append_ok [OF Cons.prems(1) fits b1(1)] _ b1(2)]
      append_str [OF Cons.prems(1) fits b1(1)] by simp
qed

end

text \<open>A buffer whose appends do not fail for lack of memory.\<close>

locale growing_buffer = byte_buffer +
  assumes append_total: "buf_ok b \<Longrightarrow> buf_append b t \<noteq> None"
begin

lemma append_all_total:
  "\<lbrakk> buf_ok b; buf_fits b (length (concat ts)) \<rbrakk> \<Longrightarrow> append_all b ts \<noteq> None"
proof (induction ts arbitrary: b)
  case Nil
  then show ?case by simp
next
  case (Cons t ts)
  obtain b1 where b1: "buf_append b t = Some b1" using append_total [OF Cons.prems(1), of t] by auto
  have "buf_fits b (length t)" using Cons.prems(2) by (rule fits_mono) simp
  then have "buf_ok b1" using append_ok [OF Cons.prems(1) _ b1] by blast
  moreover have "buf_fits b1 (length (concat ts))"
    using append_fits [OF Cons.prems(1) _ b1] Cons.prems(2) by simp
  ultimately show ?case using Cons.IH b1 by simp
qed

lemma append_all_appends:
  assumes "buf_ok b" and "buf_fits b (length (concat ts))"
  shows "\<exists>b'. append_all b ts = Some b' \<and> buf_ok b' \<and> buf_str b' = buf_str b @ concat ts"
proof -
  obtain b' where "append_all b ts = Some b'" using append_all_total [OF assms] by blast
  then show ?thesis using append_all_str [OF assms] by blast
qed

end

section \<open>struct sdshdr\<close>

record sds =
  sh_len :: nat
  sh_free :: nat
  sh_buf :: "byte list"

definition SDS_MAX_PREALLOC :: nat where "SDS_MAX_PREALLOC = 1024 * 1024"

definition sizeof_sdshdr :: nat where "sizeof_sdshdr = 8"

definition sdslen :: "sds \<Rightarrow> nat" where "sdslen s = sh_len s"

definition sdsavail :: "sds \<Rightarrow> nat" where "sdsavail s = sh_free s"

text \<open>The string, and a well-formed header: the buffer holds it, the spare bytes and a NUL.\<close>

definition sds_str :: "sds \<Rightarrow> byte list" where
  "sds_str s = take (sh_len s) (sh_buf s)"

definition sds_shape :: "sds \<Rightarrow> bool" where
  "sds_shape s \<longleftrightarrow> length (sh_buf s) = sh_len s + sh_free s + 1
     \<and> sh_len s < 2 ^ 32 \<and> sh_free s < 2 ^ 32"

definition sds_ok :: "sds \<Rightarrow> bool" where
  "sds_ok s \<longleftrightarrow> sds_shape s \<and> sh_buf s ! sh_len s = NUL"

section \<open>Creation\<close>

definition alloc_buf :: "allocator \<Rightarrow> nat \<Rightarrow> byte list option" where
  "alloc_buf a n = map_option (drop sizeof_sdshdr) (a (sizeof_sdshdr + n + 1))"

definition sdsnewlen :: "allocator \<Rightarrow> byte list option \<Rightarrow> nat \<Rightarrow> sds option" where
  "sdsnewlen a init initlen =
     (case alloc_buf a initlen of
        None \<Rightarrow> None
      | Some blk \<Rightarrow>
          (let buf = (case init of None \<Rightarrow> replicate (initlen + 1) NUL | Some _ \<Rightarrow> blk);
               buf' = (case init of
                         Some t \<Rightarrow> if initlen \<noteq> 0 then blit buf 0 (take initlen t) else buf
                       | None \<Rightarrow> buf)
           in Some \<lparr>sh_len = u32 initlen, sh_free = 0, sh_buf = buf'[initlen := NUL]\<rparr>))"

definition sdsempty :: "allocator \<Rightarrow> sds option" where
  "sdsempty a = sdsnewlen a (Some '''') 0"

definition sdsnew :: "allocator \<Rightarrow> byte list option \<Rightarrow> sds option" where
  "sdsnew a init =
     sdsnewlen a init (case init of None \<Rightarrow> 0 | Some t \<Rightarrow> strlen t)"

definition sdsdup :: "allocator \<Rightarrow> sds \<Rightarrow> sds option" where
  "sdsdup a s = sdsnewlen a (Some (sh_buf s)) (sdslen s)"

definition sdsupdatelen :: "sds \<Rightarrow> sds" where
  "sdsupdatelen s =
     (let reallen = strlen (sh_buf s)
      in s\<lparr>sh_free := u32 (sh_free s + (sh_len s - reallen)), sh_len := reallen\<rparr>)"

definition sdsclear :: "sds \<Rightarrow> sds" where
  "sdsclear s = s\<lparr>sh_free := u32 (sh_free s + sh_len s), sh_len := 0, sh_buf := (sh_buf s)[0 := NUL]\<rparr>"

section \<open>Room\<close>

definition sdsMakeRoomFor :: "allocator \<Rightarrow> sds \<Rightarrow> nat \<Rightarrow> sds option" where
  "sdsMakeRoomFor a s addlen =
     (if addlen \<le> sdsavail s then Some s
      else let len = sdslen s;
               newlen = len + addlen;
               newlen' = (if newlen < SDS_MAX_PREALLOC then newlen * 2 else newlen + SDS_MAX_PREALLOC)
           in case realloc a (replicate sizeof_sdshdr NUL @ sh_buf s) (sizeof_sdshdr + newlen' + 1) of
                None \<Rightarrow> None
              | Some blk \<Rightarrow>
                  Some (s\<lparr>sh_free := u32 (newlen' - len), sh_buf := drop sizeof_sdshdr blk\<rparr>))"

definition sdsRemoveFreeSpace :: "allocator \<Rightarrow> sds \<Rightarrow> sds option" where
  "sdsRemoveFreeSpace a s =
     map_option (\<lambda>blk. s\<lparr>sh_free := 0, sh_buf := drop sizeof_sdshdr blk\<rparr>)
       (realloc a (replicate sizeof_sdshdr NUL @ sh_buf s) (sizeof_sdshdr + sh_len s + 1))"

definition sdsAllocSize :: "sds \<Rightarrow> nat" where
  "sdsAllocSize s = sizeof_sdshdr + sh_len s + sh_free s + 1"

text \<open>The assertions of \<^verbatim>\<open>sdsIncrLen\<close> stop the program: \<open>None\<close>.\<close>

definition sdsIncrLen :: "sds \<Rightarrow> int \<Rightarrow> sds option" where
  "sdsIncrLen s incr =
     (if 0 \<le> incr \<and> \<not> nat incr \<le> sh_free s then None
      else if incr < 0 \<and> \<not> nat (- incr) \<le> sh_len s then None
      else let len = nat (int (sh_len s) + incr)
           in Some (s\<lparr>sh_len := u32 len, sh_free := u32 (nat (int (sh_free s) - incr)),
                      sh_buf := (sh_buf s)[len := NUL]\<rparr>))"

definition sdsgrowzero :: "allocator \<Rightarrow> sds \<Rightarrow> nat \<Rightarrow> sds option" where
  "sdsgrowzero a s len =
     (let curlen = sh_len s in
      if len \<le> curlen then Some s
      else case sdsMakeRoomFor a s (len - curlen) of
        None \<Rightarrow> None
      | Some s' \<Rightarrow>
          (let totlen = sh_len s' + sh_free s'
           in Some (s'\<lparr>sh_buf := blit (sh_buf s') curlen (replicate (len - curlen + 1) NUL),
                       sh_len := u32 len, sh_free := u32 (totlen - len)\<rparr>)))"

section \<open>Appending and copying\<close>

text \<open>\<open>t\<close> holds at least the \<open>len\<close> bytes that are copied.\<close>

definition sdscatlen :: "allocator \<Rightarrow> sds \<Rightarrow> byte list \<Rightarrow> nat \<Rightarrow> sds option" where
  "sdscatlen a s t len =
     (let curlen = sdslen s in
      case sdsMakeRoomFor a s len of
        None \<Rightarrow> None
      | Some s' \<Rightarrow>
          Some (s'\<lparr>sh_buf := (blit (sh_buf s') curlen (take len t))[curlen + len := NUL],
                   sh_len := u32 (curlen + len), sh_free := u32 (sh_free s' - len)\<rparr>))"

definition sdscat :: "allocator \<Rightarrow> sds \<Rightarrow> byte list \<Rightarrow> sds option" where
  "sdscat a s t = sdscatlen a s t (strlen t)"

definition sdscatsds :: "allocator \<Rightarrow> sds \<Rightarrow> sds \<Rightarrow> sds option" where
  "sdscatsds a s t = sdscatlen a s (sh_buf t) (sdslen t)"

definition sdscpylen :: "allocator \<Rightarrow> sds \<Rightarrow> byte list \<Rightarrow> nat \<Rightarrow> sds option" where
  "sdscpylen a s t len =
     (let totlen = sh_free s + sh_len s in
      case (if totlen < len then sdsMakeRoomFor a s (len - sh_len s) else Some s) of
        None \<Rightarrow> None
      | Some s' \<Rightarrow>
          (let totlen' = sh_free s' + sh_len s'
           in Some (s'\<lparr>sh_buf := (blit (sh_buf s') 0 (take len t))[len := NUL],
                       sh_len := u32 len, sh_free := u32 (totlen' - len)\<rparr>)))"

definition sdscpy :: "allocator \<Rightarrow> sds \<Rightarrow> byte list \<Rightarrow> sds option" where
  "sdscpy a s t = sdscpylen a s t (strlen t)"

section \<open>Well-formedness and contents\<close>

definition sds_fits :: "sds \<Rightarrow> nat \<Rightarrow> bool" where
  "sds_fits s n \<longleftrightarrow> sh_len s + n + SDS_MAX_PREALLOC < 2 ^ 32"

lemma sds_str_length: "sds_ok s \<Longrightarrow> length (sds_str s) = sdslen s"
  by (simp add: sds_str_def sds_ok_def sds_shape_def sdslen_def)

lemma alloc_buf_length: "allocator_ok a \<Longrightarrow> alloc_buf a n = Some b \<Longrightarrow> length b = n + 1"
  by (auto simp: alloc_buf_def allocator_ok_def)

lemma sdsnewlen_Some:
  assumes a: "allocator_ok a" and s: "sdsnewlen a (Some t) n = Some s"
    and n: "n \<le> length t" "n < 2 ^ 32"
  shows "sds_ok s \<and> sds_str s = take n t \<and> sh_len s = n"
proof -
  obtain blk where blk: "alloc_buf a n = Some blk" using s by (auto simp: sdsnewlen_def split: option.splits)
  then have len: "length blk = n + 1" using a by (rule alloc_buf_length [rotated])
  have s': "s = \<lparr>sh_len = n, sh_free = 0,
      sh_buf = (if n \<noteq> 0 then blit blk 0 (take n t) else blk)[n := NUL]\<rparr>"
    using s blk n by (simp add: sdsnewlen_def)
  show ?thesis
  proof (cases "n = 0")
    case True
    then show ?thesis using len by (simp add: s' sds_ok_def sds_shape_def sds_str_def)
  next
    case False
    have "length (blit blk 0 (take n t)) = n + 1" using len n by simp
    moreover have "take n (blit blk 0 (take n t)) = take n t"
      using take_blit [of 0 blk "take n t"] n by (simp add: min.absorb2)
    ultimately show ?thesis using False n by (simp add: s' sds_ok_def sds_shape_def sds_str_def)
  qed
qed

lemma sdsempty_Some: "allocator_ok a \<Longrightarrow> sdsempty a = Some s \<Longrightarrow> sds_ok s \<and> sds_str s = [] \<and> sh_len s = 0"
  unfolding sdsempty_def by (drule (1) sdsnewlen_Some) auto

lemma sdsMakeRoomFor_shape:
  assumes a: "allocator_ok a" and ok: "sds_shape s" and fits: "sds_fits s n"
    and s: "sdsMakeRoomFor a s n = Some s'"
  shows "sds_shape s' \<and> sh_len s' = sh_len s \<and> n \<le> sh_free s'
    \<and> take (sh_len s + 1) (sh_buf s') = take (sh_len s + 1) (sh_buf s)"
proof (cases "n \<le> sh_free s")
  case True
  then show ?thesis using s ok by (simp add: sdsMakeRoomFor_def sdsavail_def)
next
  case False
  define new where "new = (let m = sh_len s + n in
    if m < SDS_MAX_PREALLOC then m * 2 else m + SDS_MAX_PREALLOC)"
  have new: "sh_len s + n \<le> new" "new < 2 ^ 32"
    using fits by (auto simp: new_def Let_def sds_fits_def SDS_MAX_PREALLOC_def)
  obtain blk where blk: "realloc a (replicate sizeof_sdshdr NUL @ sh_buf s) (sizeof_sdshdr + new + 1) = Some blk"
    and s': "s' = s\<lparr>sh_free := new - sh_len s, sh_buf := drop sizeof_sdshdr blk\<rparr>"
    using s False new
    by (auto simp: sdsMakeRoomFor_def sdsavail_def sdslen_def Let_def new_def split: option.splits if_splits)
  have len: "length blk = sizeof_sdshdr + new + 1" by (rule realloc_length [OF a blk])
  have buf: "length (sh_buf s) = sh_len s + sh_free s + 1"
    using ok by (simp add: sds_shape_def)
  have "take (sizeof_sdshdr + sh_len s + 1) blk
      = take (sizeof_sdshdr + sh_len s + 1) (replicate sizeof_sdshdr NUL @ sh_buf s)"
    using new buf by (intro realloc_take [OF blk]) auto
  then have "drop sizeof_sdshdr (take (sizeof_sdshdr + sh_len s + 1) blk) = take (sh_len s + 1) (sh_buf s)"
    by simp
  then have keep: "take (sh_len s + 1) (drop sizeof_sdshdr blk) = take (sh_len s + 1) (sh_buf s)"
    by (simp add: drop_take)
  have "n \<le> new - sh_len s" "new - sh_len s < 2 ^ 32"
    using new by linarith+
  then show ?thesis
    using ok new len keep by (simp add: s' sds_shape_def)
qed

lemma sdsMakeRoomFor_Some:
  assumes a: "allocator_ok a" and ok: "sds_ok s" and fits: "sds_fits s n"
    and s: "sdsMakeRoomFor a s n = Some s'"
  shows "sds_ok s' \<and> sh_len s' = sh_len s \<and> sds_str s' = sds_str s \<and> n \<le> sh_free s'"
proof -
  have shape: "sds_shape s" "sh_buf s ! sh_len s = NUL" using ok by (simp_all add: sds_ok_def)
  note room = sdsMakeRoomFor_shape [OF a shape(1) fits s]
  have "sh_buf s' ! sh_len s = NUL"
    using room shape by (metis lessI nth_take Suc_eq_plus1)
  moreover have "take (sh_len s) (sh_buf s') = take (sh_len s) (sh_buf s)"
    using room arg_cong [of _ _ "take (sh_len s)"] by (metis min.absorb1 le_add1 take_take)
  ultimately show ?thesis using room by (simp add: sds_ok_def sds_str_def)
qed

lemma sds_store:
  assumes ok: "sds_ok s" and t: "length t \<le> sh_free s"
  defines "s' \<equiv> s\<lparr>sh_buf := (blit (sh_buf s) (sh_len s) t)[sh_len s + length t := NUL],
      sh_len := sh_len s + length t, sh_free := sh_free s - length t\<rparr>"
  assumes small: "sh_len s + length t < 2 ^ 32"
  shows "sds_ok s' \<and> sds_str s' = sds_str s @ t"
  using assms take_blit [of "sh_len s" "sh_buf s" t]
  by (auto simp: sds_ok_def sds_shape_def sds_str_def take_update_cancel)

lemma sdscatlen_Some:
  assumes a: "allocator_ok a" and ok: "sds_ok s" and fits: "sds_fits s n" and n: "n \<le> length t"
    and s: "sdscatlen a s t n = Some s'"
  shows "sds_ok s' \<and> sds_str s' = sds_str s @ take n t \<and> sh_len s' = sh_len s + n"
proof -
  obtain r where r: "sdsMakeRoomFor a s n = Some r"
    and s': "s' = r\<lparr>sh_buf := (blit (sh_buf r) (sh_len s) (take n t))[sh_len s + n := NUL],
        sh_len := u32 (sh_len s + n), sh_free := u32 (sh_free r - n)\<rparr>"
    using s by (auto simp: sdscatlen_def sdslen_def Let_def split: option.splits)
  note room = sdsMakeRoomFor_Some [OF a ok fits r]
  have small: "sh_len s + n < 2 ^ 32" using fits by (simp add: sds_fits_def)
  have "sh_free r < 2 ^ 32" using room by (simp add: sds_ok_def sds_shape_def)
  then have "s' = r\<lparr>sh_buf := (blit (sh_buf r) (sh_len r) (take n t))[sh_len r + length (take n t) := NUL],
        sh_len := sh_len r + length (take n t), sh_free := sh_free r - length (take n t)\<rparr>"
    using s' small n room by simp
  then show ?thesis
    using sds_store [of r "take n t"] room small n by simp
qed

text \<open>Appending under a fixed allocator that meets its contract is a growing byte string.\<close>

definition sds_ctx_ok :: "allocator \<times> sds \<Rightarrow> bool" where
  "sds_ctx_ok p \<longleftrightarrow> allocator_ok (fst p) \<and> sds_ok (snd p)"

definition sds_ctx_append :: "allocator \<times> sds \<Rightarrow> byte list \<Rightarrow> (allocator \<times> sds) option" where
  "sds_ctx_append p t = map_option (Pair (fst p)) (sdscatlen (fst p) (snd p) t (length t))"

lemma sds_fits_mono: "sds_fits s m \<Longrightarrow> n \<le> m \<Longrightarrow> sds_fits s n"
  by (simp add: sds_fits_def)

lemma sds_ctx_append_Some:
  assumes "sds_ctx_ok p" "sds_fits (snd p) (length t)" "sds_ctx_append p t = Some p'"
  shows "sds_ctx_ok p' \<and> sds_str (snd p') = sds_str (snd p) @ t
    \<and> sh_len (snd p') = sh_len (snd p) + length t"
proof -
  obtain s' where s': "sdscatlen (fst p) (snd p) t (length t) = Some s'" "p' = (fst p, s')"
    using assms(3) by (auto simp: sds_ctx_append_def)
  have ok: "allocator_ok (fst p)" "sds_ok (snd p)" using assms(1) by (simp_all add: sds_ctx_ok_def)
  show ?thesis
    using sdscatlen_Some [OF ok assms(2) le_refl s'(1)] ok by (simp add: s'(2) sds_ctx_ok_def)
qed

interpretation sds: byte_buffer sds_ctx_ok "\<lambda>p. sds_str (snd p)" "\<lambda>p. sds_fits (snd p)" sds_ctx_append
proof
  fix b b' :: "allocator \<times> sds" and t :: "byte list" and m n :: nat
  assume b: "sds_ctx_append b t = Some b'" "sds_ctx_ok b"
  show "sds_ctx_ok b'" if "sds_fits (snd b) (length t)"
    using sds_ctx_append_Some [OF b(2) that b(1)] by blast
  show "sds_str (snd b') = sds_str (snd b) @ t" if "sds_fits (snd b) (length t)"
    using sds_ctx_append_Some [OF b(2) that b(1)] by blast
  show "sds_fits (snd b') n" if f: "sds_fits (snd b) (length t + n)"
  proof -
    have "sds_fits (snd b) (length t)" using f by (rule sds_fits_mono) simp
    then have "sh_len (snd b') = sh_len (snd b) + length t"
      using sds_ctx_append_Some [OF b(2) _ b(1)] by blast
    then show ?thesis using f by (simp add: sds_fits_def)
  qed
qed (rule sds_fits_mono)

section \<open>The other operations keep the header well-formed\<close>

lemma sdsdup_Some:
  assumes "allocator_ok a" "sds_ok s" "sdsdup a s = Some s'"
  shows "sds_ok s' \<and> sds_str s' = sds_str s"
  using assms sdsnewlen_Some [of a "sh_buf s" "sh_len s" s']
  by (auto simp: sdsdup_def sdslen_def sds_ok_def sds_shape_def sds_str_def)

lemma sdsclear_ok: "sds_ok s \<Longrightarrow> sh_len s + sh_free s < 2 ^ 32 \<Longrightarrow> sds_ok (sdsclear s) \<and> sds_str (sdsclear s) = []"
  by (simp add: sdsclear_def sds_ok_def sds_shape_def sds_str_def)

lemma strlen_cut:
  assumes "n < length buf" "buf ! n = NUL" shows "strlen buf \<le> n \<and> strlen buf = strlen (take n buf)"
proof -
  have "buf = take n buf @ NUL # drop (Suc n) buf" using id_take_nth_drop [OF assms(1)] assms(2) by simp
  then have "cstr buf = cstr (take n buf)" by (metis cstr_append_NUL)
  then show ?thesis
    using strlen_le [of "take n buf"] assms(1) by (simp add: strlen_def)
qed

lemma strlen_nth: "strlen buf < length buf \<Longrightarrow> buf ! strlen buf = NUL"
  unfolding strlen_def cstr_def using nth_length_takeWhile [of "\<lambda>c. c \<noteq> NUL" buf] by simp

lemma sdsupdatelen_ok:
  assumes ok: "sds_ok s" and small: "sh_len s + sh_free s < 2 ^ 32"
  shows "sds_ok (sdsupdatelen s) \<and> sds_str (sdsupdatelen s) = cstr (sds_str s)"
proof -
  have "strlen (sh_buf s) \<le> sh_len s \<and> strlen (sh_buf s) = strlen (sds_str s)"
    using ok strlen_cut [of "sh_len s" "sh_buf s"] by (simp add: sds_ok_def sds_shape_def sds_str_def)
  moreover have "sh_buf s ! strlen (sh_buf s) = NUL"
    using ok calculation by (intro strlen_nth) (simp add: sds_ok_def sds_shape_def)
  moreover have "take (strlen (sh_buf s)) (sh_buf s) = cstr (sds_str s)"
  proof -
    have "take (strlen (sh_buf s)) (sh_buf s) = take (strlen (sds_str s)) (sds_str s)"
      using calculation by (simp add: sds_str_def)
    then show ?thesis by (simp add: take_strlen)
  qed
  ultimately show ?thesis
    using ok small by (simp add: sdsupdatelen_def sds_ok_def sds_shape_def sds_str_def Let_def)
qed

lemma sdsRemoveFreeSpace_Some:
  assumes a: "allocator_ok a" and ok: "sds_ok s" and s: "sdsRemoveFreeSpace a s = Some s'"
  shows "sds_ok s' \<and> sds_str s' = sds_str s \<and> sdsavail s' = 0"
proof -
  obtain blk where blk: "realloc a (replicate sizeof_sdshdr NUL @ sh_buf s) (sizeof_sdshdr + sh_len s + 1) = Some blk"
    and s': "s' = s\<lparr>sh_free := 0, sh_buf := drop sizeof_sdshdr blk\<rparr>"
    using s by (auto simp: sdsRemoveFreeSpace_def)
  have buf: "length (sh_buf s) = sh_len s + sh_free s + 1" "sh_buf s ! sh_len s = NUL" "sh_len s < 2 ^ 32"
    using ok by (simp_all add: sds_ok_def sds_shape_def)
  have "take (sizeof_sdshdr + sh_len s + 1) blk
      = take (sizeof_sdshdr + sh_len s + 1) (replicate sizeof_sdshdr NUL @ sh_buf s)"
    using buf by (intro realloc_take [OF blk]) auto
  moreover have len: "length blk = sizeof_sdshdr + sh_len s + 1" by (rule realloc_length [OF a blk])
  ultimately have "blk = take (sizeof_sdshdr + sh_len s + 1) (replicate sizeof_sdshdr NUL @ sh_buf s)"
    by simp
  then have "drop sizeof_sdshdr blk = take (sh_len s + 1) (sh_buf s)" by simp
  then show ?thesis
    using buf by (simp add: s' sds_ok_def sds_shape_def sds_str_def sdsavail_def min_def)
qed

text \<open>
  \<^verbatim>\<open>sdsIncrLen\<close> commits bytes a reader wrote behind the string: afterwards they are its tail.
\<close>

lemma sdsIncrLen_Some:
  assumes ok: "sds_ok s" and small: "sh_len s + sh_free s < 2 ^ 32" and s: "sdsIncrLen s i = Some s'"
  shows "sds_ok s' \<and> sds_str s' = take (nat (int (sh_len s) + i)) (sh_buf s)"
proof -
  define len where "len = nat (int (sh_len s) + i)"
  have len: "int len = int (sh_len s) + i" "len \<le> sh_len s + sh_free s"
    using s by (auto simp: len_def sdsIncrLen_def split: if_splits)
  have free: "nat (int (sh_free s) - i) = sh_len s + sh_free s - len" using len by linarith
  have "s' = s\<lparr>sh_len := len, sh_free := sh_len s + sh_free s - len, sh_buf := (sh_buf s)[len := NUL]\<rparr>"
    using s len small by (auto simp: sdsIncrLen_def free simp flip: len_def split: if_splits)
  then show ?thesis
    using ok len small by (simp add: sds_ok_def sds_shape_def sds_str_def take_update_cancel flip: len_def)
qed

lemma sdsIncrLen_fails:
  "sdsIncrLen s i = None \<longleftrightarrow> i > int (sh_free s) \<or> - i > int (sh_len s)"
  by (auto simp: sdsIncrLen_def Let_def)

lemma sdsgrowzero_Some:
  assumes a: "allocator_ok a" and ok: "sds_ok s" and fits: "sds_fits s (len - sh_len s)"
    and s: "sdsgrowzero a s len = Some s'"
  shows "sds_ok s' \<and> sds_str s' = sds_str s @ replicate (len - sh_len s) NUL"
proof (cases "len \<le> sh_len s")
  case True
  then show ?thesis using s ok by (simp add: sdsgrowzero_def)
next
  case False
  define n where "n = len - sh_len s"
  obtain r where r: "sdsMakeRoomFor a s n = Some r"
    and s': "s' = r\<lparr>sh_buf := blit (sh_buf r) (sh_len s) (replicate (n + 1) NUL),
        sh_len := u32 len, sh_free := u32 (sh_len r + sh_free r - len)\<rparr>"
    using s False by (auto simp: sdsgrowzero_def n_def Let_def split: option.splits)
  have room: "sds_ok r" "sh_len r = sh_len s" "sds_str r = sds_str s" "n \<le> sh_free r"
    using sdsMakeRoomFor_Some [OF a ok fits r [unfolded n_def]] by (simp_all add: n_def)
  have len: "len = sh_len s + n" "len < 2 ^ 32"
    using False fits by (simp_all add: n_def sds_fits_def)
  have fr: "sh_len r + sh_free r - len < 2 ^ 32"
    using room len by (auto simp: sds_ok_def sds_shape_def)
  have str: "take (sh_len s) (sh_buf r) = sds_str s" "length (sds_str s) = sh_len s"
    using room sds_str_length [OF ok] by (simp_all add: sds_str_def sdslen_def)
  have "sh_len s + n + 1 \<le> length (sh_buf r)" using room len by (simp add: sds_ok_def sds_shape_def)
  then have all: "take (sh_len s + n + 1) (sh_buf s') = sds_str s @ replicate (n + 1) NUL"
    using take_blit [of "sh_len s" "sh_buf r" "replicate (n + 1) NUL"] str s' by simp
  have "take (sh_len s + n) (sh_buf s') = take (sh_len s + n) (sds_str s @ replicate (n + 1) NUL)"
    using arg_cong [OF all, of "take (sh_len s + n)"] by simp
  moreover have "sh_buf s' ! (sh_len s + n) = (sds_str s @ replicate (n + 1) NUL) ! (sh_len s + n)"
    using arg_cong [OF all, of "\<lambda>l. l ! (sh_len s + n)"] by simp
  ultimately have "take (sh_len s + n) (sh_buf s') = sds_str s @ replicate n NUL"
    "sh_buf s' ! (sh_len s + n) = NUL"
    using str by (simp_all add: nth_append take_replicate min_def del: replicate_Suc)
  moreover have "length (sh_buf s') = length (sh_buf r)"
    using room s' by (simp add: sds_ok_def sds_shape_def)
  moreover have "sh_len s' = sh_len s + n" "sh_free s' = sh_free r - n"
    using len fr room by (simp_all add: s')
  ultimately show ?thesis
    using room len by (auto simp: sds_ok_def sds_shape_def sds_str_def simp flip: n_def)
qed

lemma sdscpylen_Some:
  assumes a: "allocator_ok a" and ok: "sds_ok s" and fits: "sds_fits s n"
    and small: "sh_len s + sh_free s < 2 ^ 32" and n: "n \<le> length t"
    and s: "sdscpylen a s t n = Some s'"
  shows "sds_ok s' \<and> sds_str s' = take n t"
proof -
  obtain r where r: "(if sh_free s + sh_len s < n then sdsMakeRoomFor a s (n - sh_len s) else Some s) = Some r"
    and s': "s' = r\<lparr>sh_buf := (blit (sh_buf r) 0 (take n t))[n := NUL],
        sh_len := u32 n, sh_free := u32 (sh_free r + sh_len r - n)\<rparr>"
    using s by (auto simp: sdscpylen_def Let_def split: option.splits)
  have nfit: "n < 2 ^ 32" using fits by (simp add: sds_fits_def)
  have room: "sds_ok r \<and> n \<le> sh_len r + sh_free r \<and> sh_len r + sh_free r - n < 2 ^ 32"
  proof (cases "sh_free s + sh_len s < n")
    case True
    have f: "sds_fits s (n - sh_len s)" using fits by (rule sds_fits_mono) simp
    have "sdsMakeRoomFor a s (n - sh_len s) = Some r" using r True by simp
    note m = sdsMakeRoomFor_Some [OF a ok f this]
    have "sh_len r + sh_free r - n < 2 ^ 32"
      using m True by (auto simp: sds_ok_def sds_shape_def)
    then show ?thesis using m by linarith
  next
    case False
    then show ?thesis using r ok small by simp
  qed
  have "length (blit (sh_buf r) 0 (take n t)) = length (sh_buf r)"
    using room n by (simp add: sds_ok_def sds_shape_def)
  moreover have "take n (blit (sh_buf r) 0 (take n t)) = take n t"
    using take_blit [of 0 "sh_buf r" "take n t"] n by (simp add: min.absorb2)
  ultimately show ?thesis
    using room nfit s' by (simp add: sds_ok_def sds_shape_def sds_str_def take_update_cancel add.commute)
qed

lemma sdsnewlen_succeeds:
  assumes "\<And>n. a n \<noteq> None" shows "sdsnewlen a init n \<noteq> None"
proof -
  obtain b where "a (sizeof_sdshdr + n + 1) = Some b" using assms by blast
  then show ?thesis by (simp add: sdsnewlen_def alloc_buf_def Let_def)
qed

lemma sdsMakeRoomFor_succeeds:
  assumes "\<And>n. a n \<noteq> None" shows "sdsMakeRoomFor a s n \<noteq> None"
proof -
  have "(realloc a b k = None) = False" for b k using assms [of k] by (simp add: realloc_def)
  then show ?thesis by (simp add: sdsMakeRoomFor_def Let_def split: option.splits del: not_None_eq)
qed

lemma sdscatlen_succeeds: "(\<And>n. a n \<noteq> None) \<Longrightarrow> sdscatlen a s t n \<noteq> None"
  using sdsMakeRoomFor_succeeds [of a s n]
  by (auto simp: sdscatlen_def Let_def split: option.splits)

text \<open>With an allocator that always gives memory the strings are growing buffers.\<close>

definition sds_ctx_live :: "allocator \<times> sds \<Rightarrow> bool" where
  "sds_ctx_live p \<longleftrightarrow> sds_ctx_ok p \<and> (\<forall>n. fst p n \<noteq> None)"

lemma sds_ctx_append_fst: "sds_ctx_append p t = Some p' \<Longrightarrow> fst p' = fst p"
  by (auto simp: sds_ctx_append_def)

interpretation live_sds: growing_buffer sds_ctx_live "\<lambda>p. sds_str (snd p)" "\<lambda>p. sds_fits (snd p)" sds_ctx_append
proof
  fix b b' :: "allocator \<times> sds" and t :: "byte list" and m n :: nat
  assume live: "sds_ctx_live b"
  then have ok: "sds_ctx_ok b" by (simp add: sds_ctx_live_def)
  show "sds_ctx_append b t \<noteq> None"
    using live sdscatlen_succeeds [of "fst b"] by (simp add: sds_ctx_live_def sds_ctx_append_def)
  assume b: "sds_ctx_append b t = Some b'"
  show "sds_ctx_live b'" if "sds_fits (snd b) (length t)"
    using sds.append_ok [OF ok that b] live sds_ctx_append_fst [OF b] by (simp add: sds_ctx_live_def)
  show "sds_str (snd b') = sds_str (snd b) @ t" if "sds_fits (snd b) (length t)"
    using sds.append_str [OF ok that b] .
  show "sds_fits (snd b') n" if "sds_fits (snd b) (length t + n)"
    using sds.append_fits [OF ok that b] .
qed (rule sds.fits_mono)

text \<open>C40. Appending to a well-formed string, when memory is available and the result stays below
  the 32-bit limit of the header, keeps the header well-formed, yields the old bytes followed
  by the new ones, and makes exactly that many bytes of the spare room used; \<^verbatim>\<open>sdscpy\<close> replaces the
  contents, \<^verbatim>\<open>sdsgrowzero\<close> appends zeros, and \<^verbatim>\<open>sdsdup\<close> copies.\<close>

theorem sds_operations_correct:
  assumes "allocator_ok a" "sds_ok s" "sds_fits s (length t)" "sh_len s + sh_free s < 2 ^ 32"
  shows "(\<forall>s'. sdscatlen a s t (length t) = Some s' \<longrightarrow>
            sds_ok s' \<and> sds_str s' = sds_str s @ t \<and> sdslen s' = sdslen s + length t)
    \<and> (\<forall>s'. sdscpylen a s t (length t) = Some s' \<longrightarrow> sds_ok s' \<and> sds_str s' = t)
    \<and> (\<forall>s'. sdsgrowzero a s (sdslen s + length t) = Some s' \<longrightarrow>
            sds_ok s' \<and> sds_str s' = sds_str s @ replicate (length t) NUL)
    \<and> (\<forall>s'. sdsdup a s = Some s' \<longrightarrow> sds_ok s' \<and> sds_str s' = sds_str s)"
proof (intro conjI allI impI)
  fix s' assume "sdscatlen a s t (length t) = Some s'"
  note c = sdscatlen_Some [OF assms(1-3) le_refl this]
  show "sds_ok s'" "sds_str s' = sds_str s @ t" "sdslen s' = sdslen s + length t"
    using c by (simp_all add: sdslen_def)
next
  fix s' assume "sdscpylen a s t (length t) = Some s'"
  note c = sdscpylen_Some [OF assms(1-4) le_refl this]
  show "sds_ok s'" "sds_str s' = t" using c by simp_all
next
  fix s' assume g: "sdsgrowzero a s (sdslen s + length t) = Some s'"
  have "sds_fits s (sdslen s + length t - sh_len s)" using assms(3) by (simp add: sdslen_def)
  note c = sdsgrowzero_Some [OF assms(1,2) this g]
  show "sds_ok s'" "sds_str s' = sds_str s @ replicate (length t) NUL"
    using c by (simp_all add: sdslen_def)
next
  fix s' assume "sdsdup a s = Some s'"
  note c = sdsdup_Some [OF assms(1,2) this]
  show "sds_ok s'" "sds_str s' = sds_str s" using c by simp_all
qed

theorem sds_operations_correct_witness:
  "\<exists>a s. sdsnew a (Some ''ab'') = Some s \<and> allocator_ok a \<and> sds_ok s
     \<and> sds_str (the (sdscatlen a s ''cde'' 3)) = ''abcde''"
proof -
  let ?a = "\<lambda>n. Some (replicate n NUL) :: byte list option"
  let ?s = "\<lparr>sh_len = 2, sh_free = 0, sh_buf = ''ab'' @ [NUL]\<rparr>"
  have a: "allocator_ok ?a" by (simp add: allocator_ok_def)
  have new: "sdsnew ?a (Some ''ab'') = Some ?s"
    by (simp add: sdsnew_def sdsnewlen_def alloc_buf_def sizeof_sdshdr_def strlen_def cstr_def blit_def)
  have ok: "sds_ok ?s" "sds_fits ?s (length ''cde'')" "sh_len ?s + sh_free ?s < 2 ^ 32"
    by (simp_all add: sds_ok_def sds_shape_def sds_fits_def SDS_MAX_PREALLOC_def)
  have "sdscatlen ?a ?s ''cde'' (length ''cde'') \<noteq> None" by (rule sdscatlen_succeeds) simp
  then obtain s' where s': "sdscatlen ?a ?s ''cde'' (length ''cde'') = Some s'" by blast
  then have "sds_str s' = sds_str ?s @ ''cde''"
    using sds_operations_correct [OF a ok] by blast
  moreover have "sds_str ?s @ ''cde'' = ''abcde''" by code_simp
  moreover have "length ''cde'' = 3" by code_simp
  ultimately have "sds_str (the (sdscatlen ?a ?s ''cde'' 3)) = ''abcde''"
    using s' by (metis option.sel)
  with a new ok(1) show ?thesis by blast
qed

end
