(* ===== verification/SdsEdit.thy ===== *)
theory SdsEdit
  imports Sds "HOL-Library.Char_ord" "HOL-Library.List_Lexorder"
begin

text \<open>
  The in-place operations of \<^verbatim>\<open>sds.c\<close>: \<^verbatim>\<open>sdstrim\<close>, \<^verbatim>\<open>sdsrange\<close>, the case conversions, \<^verbatim>\<open>sdscmp\<close> and
  \<^verbatim>\<open>sdsmapchars\<close>. Pointers into the buffer are indices; \<^verbatim>\<open>int\<close> variables are integers that the code
  converts with \<^verbatim>\<open>c_int\<close> where it assigns a \<^verbatim>\<open>size_t\<close>.
\<close>

section \<open>sdstrim\<close>

text \<open>\<^verbatim>\<open>strchr\<close> also finds the terminator of the set.\<close>

definition strchr_hit :: "byte list \<Rightarrow> byte \<Rightarrow> bool" where
  "strchr_hit cset c \<longleftrightarrow> c = NUL \<or> c \<in> set (cstr cset)"

function trim_left :: "byte list \<Rightarrow> byte list \<Rightarrow> int \<Rightarrow> int \<Rightarrow> int" where
  "trim_left cset buf sp ep_max =
     (if sp \<le> ep_max \<and> strchr_hit cset (buf ! nat sp) then trim_left cset buf (sp + 1) ep_max else sp)"
  by pat_completeness auto
termination by (relation "measure (\<lambda>(_, _, sp, e). nat (e + 1 - sp))") auto

function trim_right :: "byte list \<Rightarrow> byte list \<Rightarrow> int \<Rightarrow> int" where
  "trim_right cset buf ep =
     (if ep > 0 \<and> strchr_hit cset (buf ! nat ep) then trim_right cset buf (ep - 1) else ep)"
  by pat_completeness auto
termination by (relation "measure (\<lambda>(_, _, ep). nat ep)") auto

declare trim_left.simps [simp del] trim_right.simps [simp del]

text \<open>The common end of the two operations: keep the \<open>newlen\<close> bytes at \<open>start\<close>.\<close>

definition sds_keep :: "sds \<Rightarrow> nat \<Rightarrow> nat \<Rightarrow> sds" where
  "sds_keep s start newlen =
     s\<lparr>sh_buf := (blit (sh_buf s) 0 (take newlen (drop start (sh_buf s))))[newlen := NUL],
       sh_free := u32 (sh_free s + (sh_len s - newlen)), sh_len := newlen\<rparr>"

definition sdstrim :: "sds \<Rightarrow> byte list \<Rightarrow> sds" where
  "sdstrim s cset =
     (let e = int (sdslen s) - 1;
          sp = trim_left cset (sh_buf s) 0 e;
          ep = trim_right cset (sh_buf s) e;
          len = (if sp > ep then 0 else nat (ep - sp + 1))
      in sds_keep s (nat sp) len)"

section \<open>sdsrange\<close>

definition sdsrange :: "sds \<Rightarrow> int \<Rightarrow> int \<Rightarrow> sds" where
  "sdsrange s start stop =
     (let len = int (sdslen s) in
      if len = 0 then s
      else
        let start = (if start < 0 then max 0 (c_int (len + start)) else start);
            stop = (if stop < 0 then max 0 (c_int (len + stop)) else stop);
            newlen = (if start > stop then 0 else stop - start + 1);
            (start, newlen) =
              (if newlen \<noteq> 0
               then (if start \<ge> c_int len then (start, 0)
                     else if stop \<ge> c_int len
                     then (let stop = c_int (len - 1)
                           in (start, if start > stop then 0 else stop - start + 1))
                     else (start, newlen))
               else (0, newlen))
        in if start \<noteq> 0 \<and> newlen \<noteq> 0 then sds_keep s (nat start) (nat newlen)
           else sds_keep s 0 (nat newlen))"

section \<open>Case, comparison, substitution\<close>

fun each_char :: "(byte \<Rightarrow> byte) \<Rightarrow> byte list \<Rightarrow> nat \<Rightarrow> nat \<Rightarrow> byte list" where
  "each_char f buf j 0 = buf"
| "each_char f buf j (Suc n) = each_char f (buf[j := f (buf ! j)]) (j + 1) n"

definition sdstolower :: "sds \<Rightarrow> sds" where
  "sdstolower s = s\<lparr>sh_buf := each_char tolower (sh_buf s) 0 (sdslen s)\<rparr>"

definition sdstoupper :: "sds \<Rightarrow> sds" where
  "sdstoupper s = s\<lparr>sh_buf := each_char toupper (sh_buf s) 0 (sdslen s)\<rparr>"

definition sdscmp :: "sds \<Rightarrow> sds \<Rightarrow> int" where
  "sdscmp s1 s2 =
     (let l1 = sdslen s1; l2 = sdslen s2;
          minlen = (if l1 < l2 then l1 else l2);
          cmp = memcmp_sign (take minlen (sh_buf s1)) (take minlen (sh_buf s2))
      in if cmp = 0 then c_int (int l1 - int l2) else cmp)"

text \<open>The first occurrence in \<open>from\<close> decides.\<close>

fun mapchar :: "byte list \<Rightarrow> byte list \<Rightarrow> byte \<Rightarrow> byte" where
  "mapchar (f # fs) (t # ts) c = (if c = f then t else mapchar fs ts c)"
| "mapchar _ _ c = c"

definition sdsmapchars :: "sds \<Rightarrow> byte list \<Rightarrow> byte list \<Rightarrow> nat \<Rightarrow> sds" where
  "sdsmapchars s frm to setlen =
     s\<lparr>sh_buf := each_char (mapchar (take setlen frm) (take setlen to)) (sh_buf s) 0 (sdslen s)\<rparr>"

section \<open>Lemmas\<close>

lemma sds_keep_ok:
  assumes "sds_ok s" "sh_len s + sh_free s < 2 ^ 32" "start + newlen \<le> sh_len s"
  shows "sds_ok (sds_keep s start newlen) \<and> sds_str (sds_keep s start newlen) = take newlen (drop start (sds_str s))
     \<and> sh_len (sds_keep s start newlen) + sh_free (sds_keep s start newlen) = sh_len s + sh_free s"
proof -
  let ?t = "take newlen (drop start (sh_buf s))"
  have len: "length ?t = newlen" using assms by (simp add: sds_ok_def sds_shape_def)
  have "take newlen (blit (sh_buf s) 0 ?t) = ?t"
    using take_blit [of 0 "sh_buf s" ?t] len by simp
  moreover have "take newlen (drop start (take (sh_len s) (sh_buf s))) = ?t"
    using assms(3) by (simp add: drop_take min_def)
  ultimately show ?thesis
    using assms len by (simp add: sds_keep_def sds_ok_def sds_shape_def sds_str_def take_update_cancel)
qed

lemma trim_left_dropWhile:
  assumes "n \<le> length buf" "k \<le> n"
  shows "trim_left cset buf (int k) (int n - 1)
    = int (n - length (dropWhile (strchr_hit cset) (drop k (take n buf))))"
  using assms(2)
proof (induction "n - k" arbitrary: k)
  case 0
  then show ?case by (subst trim_left.simps) simp
next
  case (Suc m)
  then have k: "k < n" by simp
  then have d: "drop k (take n buf) = buf ! k # drop (Suc k) (take n buf)"
    using assms(1) by (simp flip: Cons_nth_drop_Suc)
  show ?case
  proof (cases "strchr_hit cset (buf ! k)")
    case True
    have "trim_left cset buf (int (Suc k)) (int n - 1)
        = int (n - length (dropWhile (strchr_hit cset) (drop (Suc k) (take n buf))))"
      using Suc k by (intro Suc.hyps(1)) auto
    then show ?thesis using True k d by (subst trim_left.simps) (simp add: add.commute)
  next
    case False
    then show ?thesis using k d assms(1) by (subst trim_left.simps) simp
  qed
qed

lemma trim_right_spec:
  assumes "ep < int (length buf)" "0 \<le> ep"
  shows "0 \<le> trim_right cset buf ep \<and> trim_right cset buf ep \<le> ep
    \<and> (\<forall>i. trim_right cset buf ep < int i \<and> int i \<le> ep \<longrightarrow> strchr_hit cset (buf ! i))
    \<and> (trim_right cset buf ep = 0 \<or> \<not> strchr_hit cset (buf ! nat (trim_right cset buf ep)))"
  using assms
proof (induction cset buf ep rule: trim_right.induct)
  case (1 cset buf ep)
  show ?case
  proof (cases "ep > 0 \<and> strchr_hit cset (buf ! nat ep)")
    case True
    then have step: "trim_right cset buf ep = trim_right cset buf (ep - 1)"
      by (subst trim_right.simps) simp
    have IH: "0 \<le> trim_right cset buf (ep - 1) \<and> trim_right cset buf (ep - 1) \<le> ep - 1
      \<and> (\<forall>i. trim_right cset buf (ep - 1) < int i \<and> int i \<le> ep - 1 \<longrightarrow> strchr_hit cset (buf ! i))
      \<and> (trim_right cset buf (ep - 1) = 0 \<or> \<not> strchr_hit cset (buf ! nat (trim_right cset buf (ep - 1))))"
      using 1(1) [OF True] True 1(2) by simp
    have "strchr_hit cset (buf ! i)" if "trim_right cset buf (ep - 1) < int i" "int i \<le> ep" for i
    proof (cases "int i = ep")
      case True
      then show ?thesis using \<open>ep > 0 \<and> strchr_hit cset (buf ! nat ep)\<close> by (metis nat_int)
    next
      case False
      then show ?thesis using IH that by auto
    qed
    then show ?thesis using IH unfolding step by auto
  next
    case False
    then have "trim_right cset buf ep = ep" by (subst trim_right.simps) (simp only: if_False)
    then show ?thesis using False 1(3) by auto
  qed
qed
section \<open>Trimming\<close>

definition strip :: "(byte \<Rightarrow> bool) \<Rightarrow> byte list \<Rightarrow> byte list" where
  "strip h t = rev (dropWhile h (rev (dropWhile h t)))"

lemma strip_unique:
  assumes "t = a @ m @ b" "\<forall>c\<in>set a. h c" "\<forall>c\<in>set b. h c"
    and "m \<noteq> []" "\<not> h (hd m)" "\<not> h (List.last m)"
  shows "strip h t = m"
proof -
  have "dropWhile h t = m @ b" using assms by (cases m) (simp_all add: dropWhile_append2)
  moreover have "dropWhile h (rev b @ rev m) = rev m"
  proof -
    have "dropWhile h (rev b @ rev m) = dropWhile h (rev m)"
      by (rule dropWhile_append2) (simp add: assms(3))
    also have "\<dots> = rev m"
      using assms(4,6) by (cases m rule: rev_cases) simp_all
    finally show ?thesis .
  qed
  ultimately show ?thesis by (simp add: strip_def)
qed

lemma strip_all: "\<forall>c\<in>set t. h c \<Longrightarrow> strip h t = []"
  by (simp add: strip_def) (metis dropWhile_eq_Nil_conv empty_iff list.set(1))

lemma takeWhile_prefix_holds: "c \<in> set (take (length (takeWhile h t)) t) \<Longrightarrow> h c"
  by (induction t) (auto split: if_splits)

lemma trim_bounds:
  assumes n: "n < length buf" and t: "t = take n buf"
    and sp: "sp = trim_left cset buf 0 (int n - 1)" and ep: "ep = trim_right cset buf (int n - 1)"
  shows "(if sp > ep then strip (strchr_hit cset) t = []
          else 0 \<le> sp \<and> ep < int n \<and> strip (strchr_hit cset) t = take (nat (ep - sp + 1)) (drop (nat sp) t))"
proof -
  let ?h = "strchr_hit cset"
  define p where "p = length (takeWhile ?h t)"
  have len: "length t = n" using n t by simp
  have "length (dropWhile ?h t) = n - p"
    using len by (metis p_def diff_add_inverse length_append takeWhile_dropWhile_id)
  moreover have "p \<le> n" using len length_takeWhile_le [of ?h t] by (simp add: p_def)
  ultimately have sp_p: "sp = int p"
    using trim_left_dropWhile [of n buf 0 cset] n sp t by simp
  have before: "?h (t ! i)" if "i < p" for i
    using that by (metis p_def nth_mem set_takeWhileD takeWhile_nth)
  show ?thesis
  proof (cases "p = n")
    case True
    then have all: "\<forall>c\<in>set t. ?h c" using before len by (metis in_set_conv_nth)
    have "ep < sp"
    proof (cases "n = 0")
      case True
      then have "ep = - 1" using ep by (subst (asm) trim_right.simps) simp
      then show ?thesis using sp_p by simp
    next
      case False
      note r = trim_right_spec [of "int n - 1" buf cset, folded ep]
      have "ep = 0 \<or> \<not> ?h (buf ! nat ep)" "0 \<le> ep" "ep \<le> int n - 1" using r n False by auto
      moreover have "?h (buf ! nat ep)" if "0 \<le> ep" "ep \<le> int n - 1"
        using before [of "nat ep"] that True False t by (simp add: nat_less_iff)
      ultimately show ?thesis using sp_p True False by auto
    qed
    then show ?thesis using strip_all [OF all] by simp
  next
    case False
    then have pn: "p < n" using \<open>p \<le> n\<close> by simp
    then have stop: "\<not> ?h (t ! p)"
      using nth_length_takeWhile [of ?h t] len by (simp add: p_def)
    then have stop_buf: "\<not> ?h (buf ! p)" using pn t by simp
    note r = trim_right_spec [of "int n - 1" buf cset, folded ep]
    have r: "0 \<le> ep" "ep \<le> int n - 1" "ep = 0 \<or> \<not> ?h (buf ! nat ep)"
      "\<And>i. ep < int i \<Longrightarrow> int i \<le> int n - 1 \<Longrightarrow> ?h (buf ! i)"
      using r n pn by auto
    have ge: "int p \<le> ep" using r(4) [of p] stop_buf pn by force
    define q where "q = nat ep"
    have q: "p \<le> q" "q < n" "ep = int q" using ge r(1,2) pn by (auto simp: q_def)
    have stop_q: "\<not> ?h (t ! q)"
      using r(3) q stop_buf t by (cases "q = 0") auto
    define m where "m = take (q - p + 1) (drop p t)"
    have parts: "t = take p t @ m @ drop (q + 1) t"
    proof -
      have "drop p t = m @ drop (q - p + 1) (drop p t)"
        unfolding m_def by (rule append_take_drop_id [symmetric])
      moreover have "drop (q - p + 1) (drop p t) = drop (q + 1) t" using q by simp
      ultimately show ?thesis by (metis append_take_drop_id)
    qed
    have mlen: "length m = q - p + 1" using q len by (simp add: m_def)
    have "hd m = t ! p" using mlen pn len by (simp add: m_def hd_drop_conv_nth)
    moreover have "List.last m = t ! q"
      using mlen q len by (subst last_conv_nth) (auto simp: m_def)
    moreover have "\<forall>c\<in>set (take p t). ?h c" 
      using takeWhile_prefix_holds [of _ ?h t] by (simp add: p_def)
    moreover have "?h c" if c: "c \<in> set (drop (q + 1) t)" for c
    proof -
      obtain i where i: "i < length (drop (q + 1) t)" "drop (q + 1) t ! i = c"
        using c unfolding in_set_conv_nth by blast
      then have "c = buf ! (q + 1 + i)" "q + 1 + i < n" using t len by auto
      then show ?thesis using r(4) [of "q + 1 + i"] q by auto
    qed
    ultimately have "strip ?h t = m"
      using stop stop_q mlen by (intro strip_unique [OF parts]) auto
    moreover have "nat (ep - sp + 1) = q - p + 1" "nat sp = p" using q sp_p by auto
    ultimately show ?thesis using sp_p q by (simp add: m_def)
  qed
qed

text \<open>\<^verbatim>\<open>sdstrim\<close> removes from both ends the longest stretches of bytes found in the set, NUL bytes
  included whatever the set, and keeps the header well-formed.\<close>

theorem sdstrim_strips:
  assumes "sds_ok s" "sh_len s + sh_free s < 2 ^ 32"
  shows "sds_ok (sdstrim s cset) \<and> sds_str (sdstrim s cset) = strip (strchr_hit cset) (sds_str s)"
proof -
  define sp where "sp = trim_left cset (sh_buf s) 0 (int (sdslen s) - 1)"
  define ep where "ep = trim_right cset (sh_buf s) (int (sdslen s) - 1)"
  have "sh_len s < length (sh_buf s)" using assms by (simp add: sds_ok_def sds_shape_def)
  note b = trim_bounds [OF this sds_str_def sp_def [unfolded sdslen_def] ep_def [unfolded sdslen_def]]
  have trim: "sdstrim s cset = sds_keep s (nat sp) (if sp > ep then 0 else nat (ep - sp + 1))"
    by (simp add: sdstrim_def Let_def sp_def ep_def)
  show ?thesis
  proof (cases "sp > ep")
    case True
    have "nat sp \<le> sh_len s"
      using trim_left_dropWhile [of "sh_len s" "sh_buf s" 0 cset] \<open>sh_len s < length (sh_buf s)\<close>
      by (simp add: sp_def sdslen_def)
    then show ?thesis using b True trim sds_keep_ok [OF assms, of "nat sp" 0] by simp
  next
    case False
    then have "nat sp + nat (ep - sp + 1) \<le> sh_len s" using b by (simp add: nat_less_iff) linarith
    then show ?thesis using b False trim sds_keep_ok [OF assms, of "nat sp" "nat (ep - sp + 1)"] by simp
  qed
qed

theorem sdstrim_strips_witness:
  "sds_str (sdstrim \<lparr>sh_len = 9, sh_free = 0, sh_buf = ''xxciaoyyy'' @ [NUL]\<rparr> ''xy'') = ''ciao''"
proof -
  let ?s = "\<lparr>sh_len = 9, sh_free = 0, sh_buf = ''xxciaoyyy'' @ [NUL]\<rparr>"
  have s: "sds_ok ?s" "sh_len ?s + sh_free ?s < 2 ^ 32"
    by (simp_all add: sds_ok_def sds_shape_def)
  have "strip (strchr_hit ''xy'') (sds_str ?s) = ''ciao''"
    by (simp add: strip_def sds_str_def strchr_hit_def cstr_def)
  then show ?thesis using sdstrim_strips [OF s, of "''xy''"] by simp
qed

section \<open>Ranges\<close>

definition range_spec :: "byte list \<Rightarrow> int \<Rightarrow> int \<Rightarrow> byte list" where
  "range_spec t i j =
     (let n = int (length t);
          lo = (if i < 0 then max 0 (n + i) else i);
          hi = (if j < 0 then max 0 (n + j) else j)
      in take (nat (hi - lo + 1)) (drop (nat lo) t))"

lemma sds_keep_full:
  assumes "sds_ok s" "sh_len s + sh_free s < 2 ^ 32" "start + newlen \<le> sh_len s"
    and "take newlen (drop start (sds_str s)) = t"
  shows "sds_ok (sds_keep s start newlen) \<and> sds_str (sds_keep s start newlen) = t
    \<and> sh_len (sds_keep s start newlen) + sh_free (sds_keep s start newlen) = sh_len s + sh_free s"
  using sds_keep_ok [OF assms(1-3)] assms(4) by simp

definition in_int :: "int \<Rightarrow> bool" where
  "in_int i \<longleftrightarrow> - (2 ^ 31) \<le> i \<and> i < 2 ^ 31"

lemma sdsrange_ok:
  assumes ok: "sds_ok s" "sh_len s + sh_free s < 2 ^ 32" and len: "sdslen s < 2 ^ 31"
    and int: "in_int i" "in_int j"
  shows "sds_ok (sdsrange s i j) \<and> sds_str (sdsrange s i j) = range_spec (sds_str s) i j
    \<and> sh_len (sdsrange s i j) + sh_free (sdsrange s i j) = sh_len s + sh_free s"
proof (cases "sdslen s = 0")
  case True
  then have "sds_str s = []" by (simp add: sds_str_def sdslen_def)
  then show ?thesis using ok True by (simp add: sdsrange_def range_spec_def)
next
  case False
  define n where "n = int (sdslen s)"
  define lo where "lo = (if i < 0 then max 0 (n + i) else i)"
  define hi where "hi = (if j < 0 then max 0 (n + j) else j)"
  have n: "0 < n" "n < 2 ^ 31" "length (sds_str s) = nat n" "sh_len s = nat n"
    using False len sds_str_length [OF ok(1)] by (simp_all add: n_def sdslen_def)
  have conv: "(if i < 0 then max 0 (c_int (n + i)) else i) = lo"
    "(if j < 0 then max 0 (c_int (n + j)) else j) = hi" "c_int n = n" "c_int (n - 1) = n - 1"
    using n int by (simp_all add: lo_def hi_def in_int_def)
  have pos: "0 \<le> lo" "0 \<le> hi" using int by (simp_all add: lo_def hi_def)
  have spec: "range_spec (sds_str s) i j = take (nat (hi - lo + 1)) (drop (nat lo) (sds_str s))"
    using n by (simp add: range_spec_def lo_def hi_def Let_def)
  have keep: "sds_ok (sds_keep s a b) \<and> sds_str (sds_keep s a b) = t
      \<and> sh_len (sds_keep s a b) + sh_free (sds_keep s a b) = sh_len s + sh_free s"
    if "a + b \<le> nat n" "take b (drop a (sds_str s)) = t" for a b t
    using sds_keep_full [OF ok] that n(4) by simp
  have code: "sdsrange s i j =
     (let newlen = (if lo > hi then 0 else hi - lo + 1);
          p = (if newlen \<noteq> 0
               then (if lo \<ge> n then (lo, 0)
                     else if hi \<ge> n then (lo, if lo > n - 1 then 0 else n - 1 - lo + 1)
                     else (lo, newlen))
               else (0, newlen))
      in if fst p \<noteq> 0 \<and> snd p \<noteq> 0 then sds_keep s (nat (fst p)) (nat (snd p))
         else sds_keep s 0 (nat (snd p)))"
    using False unfolding sdsrange_def Let_def n_def [symmetric] conv case_prod_unfold
    by (simp only: n_def of_nat_eq_0_iff if_False)
  consider (empty) "lo > hi \<or> lo \<ge> n" | (clamp) "lo \<le> hi" "lo < n" "hi \<ge> n" | (inside) "lo \<le> hi" "hi < n"
    by linarith
  then show ?thesis
  proof cases
    case empty
    then have "sdsrange s i j = sds_keep s 0 0" unfolding code by (auto simp: Let_def)
    moreover have "range_spec (sds_str s) i j = []" using empty n spec pos by auto
    ultimately show ?thesis using keep [of 0 0] by simp
  next
    case clamp
    then have "sdsrange s i j = sds_keep s (nat lo) (nat (n - lo))"
      unfolding code by (cases "lo = 0") (auto simp: Let_def)
    moreover have "take (nat (n - lo)) (drop (nat lo) (sds_str s)) = range_spec (sds_str s) i j"
      unfolding spec using clamp pos n by simp
    ultimately show ?thesis using keep [of "nat lo" "nat (n - lo)"] clamp pos by simp
  next
    case inside
    then have "sdsrange s i j = sds_keep s (nat lo) (nat (hi - lo + 1))"
      unfolding code by (cases "lo = 0") (auto simp: Let_def)
    then show ?thesis using keep [of "nat lo" "nat (hi - lo + 1)"] inside pos spec by simp
  qed
qed

text \<open>\<^verbatim>\<open>sdsrange\<close> keeps exactly the bytes between two inclusive indices, negative ones counted
  from the end and out-of-range ones clamped, and keeps the header well-formed.\<close>

theorem sdsrange_keeps_interval:
  assumes "sds_ok s" "sh_len s + sh_free s < 2 ^ 32" "sdslen s < 2 ^ 31" "in_int i" "in_int j"
  shows "sds_ok (sdsrange s i j) \<and> sds_str (sdsrange s i j) = range_spec (sds_str s) i j"
  using sdsrange_ok [OF assms] by blast

theorem sdsrange_keeps_interval_witness:
  "sds_str (sdsrange \<lparr>sh_len = 11, sh_free = 0, sh_buf = ''Hello World'' @ [NUL]\<rparr> 1 (- 1)) = ''ello World''"
proof -
  let ?s = "\<lparr>sh_len = 11, sh_free = 0, sh_buf = ''Hello World'' @ [NUL]\<rparr>"
  have s: "sds_ok ?s" "sh_len ?s + sh_free ?s < 2 ^ 32" "sdslen ?s < 2 ^ 31" "in_int 1" "in_int (- 1)"
    by (simp_all add: sds_ok_def sds_shape_def sdslen_def in_int_def)
  have "range_spec (sds_str ?s) 1 (- 1) = ''ello World''"
    by (simp add: range_spec_def sds_str_def)
  then show ?thesis using sdsrange_keeps_interval [OF s] by simp
qed

section \<open>Case conversion and substitution\<close>

lemma each_char_map:
  "j + n \<le> length buf \<Longrightarrow> each_char f buf j n = take j buf @ map f (take n (drop j buf)) @ drop (j + n) buf"
proof (induction n arbitrary: buf j)
  case 0
  then show ?case by simp
next
  case (Suc n)
  have "buf = take j buf @ buf ! j # drop (Suc j) buf"
    using Suc.prems by (simp add: id_take_nth_drop)
  have d: "drop j buf = buf ! j # drop (Suc j) buf" using Suc.prems by (simp add: Cons_nth_drop_Suc)
  show ?case
    using Suc.IH [of "j + 1" "buf[j := f (buf ! j)]"] Suc.prems
    by (simp add: d take_Suc_conv_app_nth drop_update_cancel)
qed

lemma each_char_str:
  assumes "sds_ok s"
  shows "sds_ok (s\<lparr>sh_buf := each_char f (sh_buf s) 0 (sdslen s)\<rparr>)
    \<and> sds_str (s\<lparr>sh_buf := each_char f (sh_buf s) 0 (sdslen s)\<rparr>) = map f (sds_str s)"
proof -
  have len: "sh_len s < length (sh_buf s)" using assms by (simp add: sds_ok_def sds_shape_def)
  then have "each_char f (sh_buf s) 0 (sdslen s) = map f (sds_str s) @ drop (sh_len s) (sh_buf s)"
    using each_char_map [of 0 "sdslen s" "sh_buf s" f] by (simp add: sds_str_def sdslen_def)
  then show ?thesis
    using assms len sds_str_length [OF assms]
    by (simp add: sds_ok_def sds_shape_def sds_str_def sdslen_def nth_append)
qed

lemma sdstolower_str: "sds_ok s \<Longrightarrow> sds_str (sdstolower s) = map tolower (sds_str s)"
  unfolding sdstolower_def using each_char_str by blast

lemma sdstoupper_str: "sds_ok s \<Longrightarrow> sds_str (sdstoupper s) = map toupper (sds_str s)"
  unfolding sdstoupper_def using each_char_str by blast

lemma sdsmapchars_str:
  "sds_ok s \<Longrightarrow> sds_str (sdsmapchars s frm to n) = map (mapchar (take n frm) (take n to)) (sds_str s)"
  unfolding sdsmapchars_def using each_char_str by blast

section \<open>Comparison\<close>

lemma memcmp_lex:
  "(let m = min (length xs) (length ys); c = memcmp_sign (take m xs) (take m ys)
    in (if c = 0 then int (length xs) - int (length ys) else c) < 0) \<longleftrightarrow> xs < (ys :: byte list)"
proof (induction xs arbitrary: ys)
  case Nil
  then show ?case by (cases ys) (simp_all add: Let_def)
next
  case (Cons x xs)
  show ?case
  proof (cases ys)
    case Nil
    then show ?thesis by (simp add: Let_def)
  next
    case ys: (Cons y ys')
    have "uchar x = uchar y \<longleftrightarrow> x = y" by (rule uchar_eq_iff)
    then show ?thesis
      using Cons.IH [of ys'] unfolding ys by (auto simp: Let_def uchar_def less_char_def)
  qed
qed

text \<open>\<^verbatim>\<open>sdscmp\<close> is the lexicographic order of the contents, bytes compared as unsigned numbers
  and a proper prefix being smaller; it is 0 exactly on equal strings.\<close>

theorem sdscmp_lexicographic:
  assumes "sds_ok s" "sds_ok t" "sdslen s < 2 ^ 31" "sdslen t < 2 ^ 31"
  shows "(sdscmp s t < 0 \<longleftrightarrow> sds_str s < sds_str t) \<and> (sdscmp s t = 0 \<longleftrightarrow> sds_str s = sds_str t)"
proof -
  let ?m = "min (sdslen s) (sdslen t)"
  have len: "length (sds_str s) = sdslen s" "length (sds_str t) = sdslen t"
    using assms(1,2) by (simp_all add: sds_str_length)
  have tk: "take ?m (sh_buf s) = take ?m (sds_str s)" "take ?m (sh_buf t) = take ?m (sds_str t)"
    by (simp_all add: sds_str_def sdslen_def min_def)
  have "c_int (int (sdslen s) - int (sdslen t)) = int (sdslen s) - int (sdslen t)"
    using assms(3,4) by simp
  then have cmp: "sdscmp s t = (let c = memcmp_sign (take ?m (sds_str s)) (take ?m (sds_str t))
      in if c = 0 then int (sdslen s) - int (sdslen t) else c)"
    unfolding tk [symmetric] by (simp add: sdscmp_def Let_def min_def)
  have "sdscmp s t = 0 \<longleftrightarrow> sds_str s = sds_str t"
  proof
    assume z: "sdscmp s t = 0"
    then have "sdslen s = sdslen t" by (auto simp: cmp Let_def split: if_splits)
    then show "sds_str s = sds_str t"
      using z len memcmp_sign_eq [of "sds_str s" "sds_str t"] by (auto simp: cmp Let_def split: if_splits)
  next
    assume "sds_str s = sds_str t"
    then show "sdscmp s t = 0" using len by (simp add: cmp memcmp_sign_eq)
  qed
  moreover have "sdscmp s t < 0 \<longleftrightarrow> sds_str s < sds_str t"
    using memcmp_lex [of "sds_str s" "sds_str t", unfolded len] unfolding cmp Let_def .
  ultimately show ?thesis by blast
qed

theorem sdscmp_lexicographic_witness:
  "sdscmp \<lparr>sh_len = 3, sh_free = 0, sh_buf = ''aar'' @ [NUL]\<rparr> \<lparr>sh_len = 3, sh_free = 0, sh_buf = ''bar'' @ [NUL]\<rparr> < 0"
proof -
  let ?s = "\<lparr>sh_len = 3, sh_free = 0, sh_buf = ''aar'' @ [NUL]\<rparr>"
  let ?t = "\<lparr>sh_len = 3, sh_free = 0, sh_buf = ''bar'' @ [NUL]\<rparr>"
  have s: "sds_ok ?s" "sds_ok ?t" "sdslen ?s < 2 ^ 31" "sdslen ?t < 2 ^ 31"
    by (simp_all add: sds_ok_def sds_shape_def sdslen_def)
  have "sds_str ?s < sds_str ?t" by (simp add: sds_str_def less_char_def)
  then show ?thesis using sdscmp_lexicographic [OF s] by blast
qed

end
