(* ===== verification/SdsFormat.thy ===== *)
theory SdsFormat
  imports Sds
begin

text \<open>
  The formatting half of \<^verbatim>\<open>sds.c\<close>: the conversion of 64-bit integers with its in-place
  reversal, \<^verbatim>\<open>sdscatvprintf\<close> with its buffer that doubles until the output fits, and \<^verbatim>\<open>sdscatfmt\<close>.
  The text \<^verbatim>\<open>vsnprintf\<close> produces is a parameter; the arguments of \<^verbatim>\<open>sdscatfmt\<close> are values of a
  datatype with one constructor per conversion.
\<close>

section \<open>Integers\<close>

text \<open>The \<^verbatim>\<open>do ... while (v)\<close> loop writes the digits from the last to the first.\<close>

fun ull_digits :: "nat \<Rightarrow> byte list" where
  "ull_digits v = digit_char (v mod 10) # (if v div 10 = 0 then [] else ull_digits (v div 10))"

declare ull_digits.simps [simp del]

text \<open>The loop that swaps the bytes at \<open>i\<close> and \<open>j\<close> and moves both inwards.\<close>

function reverse_swap :: "byte list \<Rightarrow> nat \<Rightarrow> nat \<Rightarrow> byte list" where
  "reverse_swap xs i j =
     (if i < j then reverse_swap (xs[i := xs ! j, j := xs ! i]) (i + 1) (j - 1) else xs)"
  by pat_completeness auto
termination by (relation "measure (\<lambda>(_, i, j). j - i)") auto

declare reverse_swap.simps [simp del]

definition SDS_LLSTR_SIZE :: nat where "SDS_LLSTR_SIZE = 21"

definition sdsll2str :: "64 word \<Rightarrow> byte list" where
  "sdsll2str val =
     (let v = (if sint val < 0 then - val else val);
          ds = ull_digits (unat v);
          p = (if sint val < 0 then ds @ ''-'' else ds)
      in reverse_swap p 0 (length p - 1))"

definition sdsull2str :: "64 word \<Rightarrow> byte list" where
  "sdsull2str v = (let p = ull_digits (unat v) in reverse_swap p 0 (length p - 1))"

definition sdsfromlonglong :: "allocator \<Rightarrow> 64 word \<Rightarrow> sds option" where
  "sdsfromlonglong a val = (let buf = sdsll2str val in sdsnewlen a (Some buf) (length buf))"

lemma rev_ull_digits: "rev (ull_digits v) = dec_of_nat v"
proof (induction v rule: ull_digits.induct)
  case (1 v)
  then show ?case
    by (subst ull_digits.simps, subst dec_of_nat.simps) auto
qed

lemma ull_digits_nonempty [simp]: "ull_digits v \<noteq> []"
  by (subst ull_digits.simps) simp

lemma reverse_swap_segment:
  "reverse_swap (p @ ys @ q) (length p) (length p + length ys - 1) = p @ rev ys @ q"
proof (induction "length ys" arbitrary: p ys q rule: less_induct)
  case less
  show ?case
  proof (cases "length ys \<le> 1")
    case True
    then have "rev ys = ys" by (cases ys) auto
    then show ?thesis using True by (subst reverse_swap.simps) auto
  next
    case False
    then obtain a m b where ys: "ys = a # m @ [b]"
      by (metis One_nat_def append_butlast_last_id list.exhaust list.size(3) list.size(4)
          le_numeral_extra(3) nat_le_linear zero_le add.commute plus_1_eq_Suc)
    have upd: "(p @ ys @ q)[length p := (p @ ys @ q) ! (length p + length ys - 1),
        length p + length ys - 1 := (p @ ys @ q) ! length p] = (p @ [b]) @ m @ (a # q)"
      by (simp add: ys list_update_append nth_append)
    have "reverse_swap (p @ ys @ q) (length p) (length p + length ys - 1)
        = reverse_swap ((p @ [b]) @ m @ (a # q)) (length (p @ [b])) (length (p @ [b]) + length m - 1)"
      using upd by (subst reverse_swap.simps) (simp add: ys)
    also have "\<dots> = (p @ [b]) @ rev m @ (a # q)"
      by (rule less) (simp add: ys)
    finally show ?thesis by (simp add: ys)
  qed
qed

lemma reverse_swap_rev: "reverse_swap xs 0 (length xs - 1) = rev xs"
  using reverse_swap_segment [of "[]" xs "[]"] by simp

lemma uint_of_sint: "uint (w :: 'a::len word) = sint w mod 2 ^ LENGTH('a)"
  using uint_word_of_int [of "sint w", where 'a = 'a] by simp

lemma uint_minus_of_sint: "uint (- (w :: 'a::len word)) = (- sint w) mod 2 ^ LENGTH('a)"
  using uint_word_of_int [of "- sint w", where 'a = 'a] by simp

lemma unat_minus_neg: fixes w :: "64 word"
  assumes "sint w < 0" shows "unat (- w) = nat (- sint w)"
proof -
  have "- sint w \<le> 2 ^ 63" using sint_greater_eq [of w] by simp
  then have "(- sint w) mod 2 ^ 64 = - sint w" using assms by (intro mod_pos_pos_trivial) auto
  then have "uint (- w) = - sint w" using uint_minus_of_sint [of w] by simp
  then show ?thesis by (metis nat_uint_eq)
qed

lemma sint_nonneg_uint: fixes w :: "64 word"
  assumes "\<not> sint w < 0" shows "sint w = int (unat w)"
proof -
  have "sint w < 2 ^ 63" using sint_less [of w] by simp
  then have "sint w mod 2 ^ 64 = sint w" using assms by (intro mod_pos_pos_trivial) auto
  then show ?thesis using uint_of_sint [of w] by simp
qed
lemma sdsll2str_dec: "sdsll2str val = dec_of_int (sint val)"
proof (cases "sint val < 0")
  case True
  have "sdsll2str val = rev (ull_digits (unat (- val)) @ ''-'')"
    using True reverse_swap_rev [of "ull_digits (unat (- val)) @ ''-''"] by (simp add: sdsll2str_def Let_def)
  then show ?thesis using True by (simp add: rev_ull_digits unat_minus_neg dec_of_int_def)
next
  case False
  have "sdsll2str val = rev (ull_digits (unat val))"
    using False reverse_swap_rev [of "ull_digits (unat val)"] by (simp add: sdsll2str_def Let_def)
  then show ?thesis
    using False sint_nonneg_uint [OF False] by (simp add: rev_ull_digits dec_of_int_def)
qed

lemma sdsull2str_dec: "sdsull2str v = dec_of_nat (unat v)"
  using reverse_swap_rev [of "ull_digits (unat v)"] by (simp add: sdsull2str_def Let_def rev_ull_digits)

lemma length_dec_of_nat: "n < 10 ^ Suc k \<Longrightarrow> length (dec_of_nat n) \<le> Suc k"
proof (induction k arbitrary: n)
  case 0
  then show ?case by (subst dec_of_nat.simps) simp
next
  case (Suc k)
  have "length (dec_of_nat (n div 10)) \<le> Suc k"
    using Suc.prems by (intro Suc.IH) auto
  then show ?case by (subst dec_of_nat.simps) simp
qed
lemma sdsll2str_fits: "length (sdsll2str val) < SDS_LLSTR_SIZE"
proof -
  have "- sint val \<le> 2 ^ 63" "sint val < 2 ^ 63"
    using sint_greater_eq [of val] sint_less [of val] by simp_all
  then have "nat \<bar>sint val\<bar> < 10 ^ Suc 18" by simp
  then have "length (dec_of_nat (nat \<bar>sint val\<bar>)) \<le> Suc 18" by (rule length_dec_of_nat)
  then show ?thesis by (auto simp: sdsll2str_dec dec_of_int_def SDS_LLSTR_SIZE_def abs_if)
qed

lemma sdsull2str_fits: "length (sdsull2str v) < SDS_LLSTR_SIZE"
proof -
  have "unat v < 2 ^ 64" by (rule unsigned_less [THEN less_le_trans]) simp
  then have "unat v < 10 ^ Suc 19" by simp
  then have "length (dec_of_nat (unat v)) \<le> Suc 19" by (rule length_dec_of_nat)
  then show ?thesis by (simp add: sdsull2str_dec SDS_LLSTR_SIZE_def)
qed

section \<open>sdscatvprintf\<close>

text \<open>
  The buffer of \<open>n\<close> bytes \<open>blk\<close> after the marker was stored in its last but one byte and
  \<^verbatim>\<open>vsnprintf\<close> wrote the output \<open>out\<close>, cut to \<open>n - 1\<close> bytes and terminated.
\<close>

definition vsnprintf_buf :: "nat \<Rightarrow> byte list \<Rightarrow> byte list \<Rightarrow> byte list" where
  "vsnprintf_buf n blk out = blit (blk[n - 2 := NUL]) 0 (take (n - 1) out @ [NUL])"

definition marker_hit :: "nat \<Rightarrow> byte list \<Rightarrow> bool" where
  "marker_hit n buf \<longleftrightarrow> n - 2 < length buf \<and> buf ! (n - 2) \<noteq> NUL"

lemma marker_hit_long:
  assumes "marker_hit n (vsnprintf_buf n blk out)" shows "n \<le> length out + 1"
proof (rule ccontr)
  assume short: "\<not> n \<le> length out + 1"
  then have buf: "vsnprintf_buf n blk out = out @ NUL # drop (length out + 1) (blk[n - 2 := NUL])"
    by (simp add: vsnprintf_buf_def blit_def)
  show False
  proof (cases "n - 2 = length out")
    case True
    then show ?thesis using assms by (simp add: marker_hit_def buf nth_append)
  next
    case False
    then have far: "length out + 1 \<le> n - 2" using short by linarith
    moreover have "n - 2 < length blk"
      using assms far by (auto simp: marker_hit_def buf)
    moreover have "(out @ NUL # drop (length out + 1) (blk[n - 2 := NUL])) ! (n - 2) = blk[n - 2 := NUL] ! (n - 2)"
    proof -
      have "Suc (n - 3) = n - 2" using far by linarith
      then show ?thesis using far calculation by (simp add: nth_append nth_Cons')
    qed
    ultimately show ?thesis using assms by (simp add: marker_hit_def buf)
  qed
qed

text \<open>\<open>a\<close> serves the heap blocks; the first buffer is the static one when the format is short.\<close>

function vprintf_loop :: "allocator \<Rightarrow> nat \<Rightarrow> byte list \<Rightarrow> byte list \<Rightarrow> byte list option" where
  "vprintf_loop a n blk out =
     (let buf = vsnprintf_buf n blk out in
      if n \<noteq> 0 \<and> marker_hit n buf
      then case a (n * 2) of None \<Rightarrow> None | Some blk' \<Rightarrow> vprintf_loop a (n * 2) blk' out
      else Some buf)"
  by pat_completeness auto
termination
  by (relation "measure (\<lambda>(a, n, blk, out). length out + 2 - n)") (auto dest!: marker_hit_long)

declare vprintf_loop.simps [simp del]

definition sdscatvprintf :: "allocator \<Rightarrow> byte list \<Rightarrow> sds \<Rightarrow> byte list \<Rightarrow> byte list \<Rightarrow> sds option" where
  "sdscatvprintf a staticbuf s fmt out =
     (let buflen = strlen fmt * 2 in
      do { first \<leftarrow> (if buflen > length staticbuf then map_option (Pair buflen) (a buflen)
                     else Some (length staticbuf, staticbuf));
           buf \<leftarrow> vprintf_loop a (fst first) (snd first) out;
           sdscat a s buf })"

definition sdscatprintf :: "allocator \<Rightarrow> byte list \<Rightarrow> sds \<Rightarrow> byte list \<Rightarrow> byte list \<Rightarrow> sds option" where
  "sdscatprintf a staticbuf s fmt out = sdscatvprintf a staticbuf s fmt out"

lemma vsnprintf_buf_cstr:
  assumes "length blk = n" "2 \<le> n" "\<not> marker_hit n (vsnprintf_buf n blk out)"
  shows "cstr (vsnprintf_buf n blk out) = cstr out"
proof -
  have len: "length (vsnprintf_buf n blk out) = n"
    using assms(1,2) by (simp add: vsnprintf_buf_def)
  have cut: "cstr (vsnprintf_buf n blk out) = cstr (take (n - 1) out)"
    using assms(1,2) by (simp add: vsnprintf_buf_def blit_def)
  show ?thesis
  proof (cases "n \<le> length out + 1")
    case False
    then show ?thesis using cut by simp
  next
    case True
    then have "vsnprintf_buf n blk out ! (n - 2) = out ! (n - 2)"
      using assms(1,2) by (auto simp: vsnprintf_buf_def blit_def nth_append min_def)
    then have nul: "out ! (n - 2) = NUL"
      using assms len by (simp add: marker_hit_def)
    have split: "out = take (n - 2) out @ NUL # drop (n - 1) out"
      using id_take_nth_drop [of "n - 2" out] nul True assms(2) by (simp add: Suc_diff_Suc numeral_2_eq_2)
    have "cstr out = cstr (take (n - 2) out)"
      using arg_cong [OF split, of cstr] by (simp only: cstr_append_NUL)
    moreover have "take (n - 1) out = take (n - 2) out @ [NUL]"
      using nul True assms(2) take_Suc_conv_app_nth [of "n - 2" out]
      by (simp add: Suc_diff_Suc numeral_2_eq_2)
    ultimately show ?thesis using cut by simp
  qed
qed

lemma vprintf_loop_cstr:
  assumes "allocator_ok a" "length blk = n" "2 \<le> n" "vprintf_loop a n blk out = Some buf"
  shows "cstr buf = cstr out \<and> NUL \<in> set buf"
  using assms
proof (induction a n blk out arbitrary: buf rule: vprintf_loop.induct)
  case (1 a n blk out)
  show ?case
  proof (cases "marker_hit n (vsnprintf_buf n blk out)")
    case True
    then obtain blk' where "a (n * 2) = Some blk'" "vprintf_loop a (n * 2) blk' out = Some buf"
      using 1(3-) by (subst (asm) vprintf_loop.simps) (auto simp: Let_def split: option.splits)
    then show ?thesis using 1(1) [OF refl _ _ 1(2)] True 1(2,4) by (simp add: allocator_ok_def)
  next
    case False
    then have "buf = vsnprintf_buf n blk out"
      using 1(5) by (subst (asm) vprintf_loop.simps) (simp add: Let_def)
    moreover have "NUL \<in> set (vsnprintf_buf n blk out)"
      by (simp add: vsnprintf_buf_def blit_def)
    ultimately show ?thesis using vsnprintf_buf_cstr [OF 1(3,4) False] by simp
  qed
qed

lemma strlen_in: "NUL \<in> set buf \<Longrightarrow> strlen buf < length buf"
  by (induction buf) (auto simp: strlen_def cstr_def)

lemma vprintf_loop_succeeds:
  assumes "\<And>n. a n \<noteq> None" shows "vprintf_loop a n blk out \<noteq> None"
  using assms
proof (induction a n blk out rule: vprintf_loop.induct)
  case (1 a n blk out)
  obtain b where b: "a (n * 2) = Some b" using 1(2) by blast
  show ?case
  proof (cases "n \<noteq> 0 \<and> marker_hit n (vsnprintf_buf n blk out)")
    case True
    then have "vprintf_loop a (n * 2) b out \<noteq> None" using 1(1) [OF refl True b 1(2)] by simp
    then show ?thesis using True b by (subst vprintf_loop.simps) (simp add: Let_def)
  next
    case False
    then show ?thesis by (subst vprintf_loop.simps) (simp only: Let_def if_False option.simps not_False_eq_True)
  qed
qed

lemma sdscatvprintf_succeeds:
  assumes "\<And>n. a n \<noteq> None" shows "sdscatvprintf a sb s fmt out \<noteq> None"
proof -
  have loop: "\<exists>y. vprintf_loop a n blk out = Some y" for n blk
    using vprintf_loop_succeeds [of a, OF assms] by blast
  have "\<exists>y. sdscat a s b = Some y" for b
    using sdscatlen_succeeds [of a, OF assms] by (auto simp: sdscat_def)
  moreover obtain b where "a (strlen fmt * 2) = Some b" using assms by blast
  ultimately show ?thesis
    using loop by (auto simp: sdscatvprintf_def Let_def bind_eq_None_conv split: option.splits)
qed

lemma sdscatvprintf_Some:
  assumes a: "allocator_ok a" and ok: "sds_ok s" and fits: "sds_fits s (strlen out)"
    and sb: "2 \<le> length staticbuf" and s: "sdscatvprintf a staticbuf s fmt out = Some s'"
  shows "sds_ok s' \<and> sds_str s' = sds_str s @ cstr out"
proof -
  obtain n blk buf where first: "(if strlen fmt * 2 > length staticbuf
        then map_option (Pair (strlen fmt * 2)) (a (strlen fmt * 2))
        else Some (length staticbuf, staticbuf)) = Some (n, blk)"
    and buf: "vprintf_loop a n blk out = Some buf" and cat: "sdscat a s buf = Some s'"
    using s by (auto simp: sdscatvprintf_def Let_def split: option.splits bind_splits if_splits)
  have "length blk = n" "2 \<le> n"
    using first a sb by (auto simp: allocator_ok_def split: if_splits)
  from vprintf_loop_cstr [OF a this buf] have c: "cstr buf = cstr out" "strlen buf \<le> length buf"
    by (auto simp: strlen_le)
  then have "strlen buf = strlen out" by (simp add: strlen_def)
  then show ?thesis
    using sdscatlen_Some [OF a ok _ c(2) cat [unfolded sdscat_def]] fits c(1) take_strlen [of buf] by simp
qed

text \<open>\<^verbatim>\<open>sdscatvprintf\<close> appends the whole formatted output whatever its length: the buffer is
  doubled until nothing is cut off.\<close>

theorem sdscatvprintf_appends:
  assumes "allocator_ok a" "\<forall>n. a n \<noteq> None" "sds_ok s" "sds_fits s (strlen out)" "2 \<le> length staticbuf"
  shows "\<exists>s'. sdscatvprintf a staticbuf s fmt out = Some s' \<and> sds_ok s' \<and> sds_str s' = sds_str s @ cstr out"
proof -
  obtain s' where s': "sdscatvprintf a staticbuf s fmt out = Some s'"
    using sdscatvprintf_succeeds [of a] assms(2) by blast
  with sdscatvprintf_Some [OF assms(1,3-5) s'] show ?thesis by blast
qed

theorem sdscatvprintf_appends_witness:
  "\<exists>a s'. sdscatvprintf a (replicate 1024 NUL) \<lparr>sh_len = 2, sh_free = 0, sh_buf = ''--'' @ [NUL]\<rparr> ''%s'' ''xy''
     = Some s' \<and> sds_str s' = ''--xy''"
proof -
  let ?a = "\<lambda>n. Some (replicate n NUL) :: byte list option"
  let ?s = "\<lparr>sh_len = 2, sh_free = 0, sh_buf = ''--'' @ [NUL]\<rparr>"
  have a: "allocator_ok ?a" "\<forall>n. ?a n \<noteq> None" by (simp_all add: allocator_ok_def)
  have c: "cstr ''xy'' = ''xy''" "strlen ''xy'' = 2" by (simp_all add: cstr_def strlen_def)
  have ok: "sds_ok ?s" "sds_fits ?s (strlen ''xy'')" "2 \<le> length (replicate 1024 NUL)"
    by (simp_all add: sds_ok_def sds_shape_def sds_fits_def SDS_MAX_PREALLOC_def c)
  have "sds_str ?s @ cstr ''xy'' = ''--xy''" by (simp add: sds_str_def c)
  then show ?thesis using sdscatvprintf_appends [OF a ok, of "''%s''"] by auto
qed

section \<open>sdscatfmt\<close>

datatype fmt_arg =
    Arg_s "byte list"
  | Arg_S sds
  | Arg_i "32 word"
  | Arg_I "64 word"
  | Arg_u "32 word"
  | Arg_U "64 word"

text \<open>The text of an argument; an argument of another type than the conversion is undefined.\<close>

definition fmt_text :: "byte \<Rightarrow> fmt_arg \<Rightarrow> byte list option" where
  "fmt_text c x =
     (case x of
        Arg_s t \<Rightarrow> if c = CHR ''s'' then Some (cstr t) else None
      | Arg_S t \<Rightarrow> if c = CHR ''S'' then Some (sds_str t) else None
      | Arg_i n \<Rightarrow> if c = CHR ''i'' then Some (sdsll2str (signed n)) else None
      | Arg_I n \<Rightarrow> if c = CHR ''I'' then Some (sdsll2str n) else None
      | Arg_u n \<Rightarrow> if c = CHR ''u'' then Some (sdsull2str (unsigned n)) else None
      | Arg_U n \<Rightarrow> if c = CHR ''U'' then Some (sdsull2str n) else None)"

definition fmt_conversion :: "byte \<Rightarrow> bool" where
  "fmt_conversion c \<longleftrightarrow> c \<in> set ''sSiIuU''"

text \<open>
  Storing \<open>t\<close> at the index \<open>i\<close>, an \<^verbatim>\<open>int\<close>, which is the end of the string: no terminator yet. A store
  outside of the buffer is undefined.
\<close>

definition fmt_put :: "sds \<Rightarrow> int \<Rightarrow> byte list \<Rightarrow> sds option" where
  "fmt_put s i t =
     (if i < 0 \<or> length (sh_buf s) < nat i + length t then None
      else Some (s\<lparr>sh_buf := blit (sh_buf s) (nat i) t, sh_len := u32 (sh_len s + length t),
                   sh_free := u32 (sh_free s + 2 ^ 32 - length t)\<rparr>))"

definition fmt_room :: "allocator \<Rightarrow> sds \<Rightarrow> nat \<Rightarrow> sds option" where
  "fmt_room a s l = (if sh_free s < l then sdsMakeRoomFor a s l else Some s)"

text \<open>
  The loop over the format. The list is what the pointer \<^verbatim>\<open>f\<close> still has before the terminator; a
  \<^verbatim>\<open>%\<close> just before the terminator makes the loop step over it: \<open>None\<close>. The length \<^verbatim>\<open>l\<close> of an argument is an
  \<^verbatim>\<open>unsigned int\<close>.
\<close>

fun sdscatfmt_loop :: "allocator \<Rightarrow> sds \<Rightarrow> int \<Rightarrow> byte list \<Rightarrow> fmt_arg list \<Rightarrow> (sds \<times> int) option" where
  "sdscatfmt_loop a s i [] args = Some (s, i)"
| "sdscatfmt_loop a s i (c # f) args =
     do { s \<leftarrow> fmt_room a s 1;
          (if c \<noteq> CHR ''%'' then do { s \<leftarrow> fmt_put s i [c]; sdscatfmt_loop a s (c_int (i + 1)) f args }
           else case f of
             [] \<Rightarrow> None
           | d # f' \<Rightarrow>
               (if fmt_conversion d
                then (case args of
                        [] \<Rightarrow> None
                      | x # args' \<Rightarrow>
                          do { t \<leftarrow> fmt_text d x;
                               s \<leftarrow> fmt_room a s (u32 (length t));
                               s \<leftarrow> fmt_put s i (take (u32 (length t)) t);
                               sdscatfmt_loop a s (c_int (i + int (u32 (length t)))) f' args' })
                else do { s \<leftarrow> fmt_put s i [d]; sdscatfmt_loop a s (c_int (i + 1)) f' args })) }"

definition sdscatfmt :: "allocator \<Rightarrow> sds \<Rightarrow> byte list \<Rightarrow> fmt_arg list \<Rightarrow> sds option" where
  "sdscatfmt a s fmt args =
     do { (s, i) \<leftarrow> sdscatfmt_loop a s (c_int (int (sdslen s))) (cstr fmt) args;
          if i < 0 \<or> length (sh_buf s) \<le> nat i then None
          else Some (s\<lparr>sh_buf := (sh_buf s)[nat i := NUL]\<rparr>) }"

text \<open>What the format denotes.\<close>

fun fmt_spec :: "byte list \<Rightarrow> fmt_arg list \<Rightarrow> byte list option" where
  "fmt_spec [] args = Some []"
| "fmt_spec (c # f) args =
     (if c \<noteq> CHR ''%'' then map_option ((@) [c]) (fmt_spec f args)
      else case f of
        [] \<Rightarrow> None
      | d # f' \<Rightarrow>
          (if fmt_conversion d
           then (case args of [] \<Rightarrow> None
                 | x # args' \<Rightarrow> do { t \<leftarrow> fmt_text d x; map_option ((@) t) (fmt_spec f' args') })
           else map_option ((@) [d]) (fmt_spec f' args)))"

definition fmt_inv :: "sds \<Rightarrow> int \<Rightarrow> byte list \<Rightarrow> bool" where
  "fmt_inv s i done \<longleftrightarrow> sds_shape s \<and> i = int (sh_len s) \<and> sds_str s = done"

lemma fmt_room_Some:
  assumes "allocator_ok a" "fmt_inv s i t" "sds_fits s l" "fmt_room a s l = Some s'"
  shows "fmt_inv s' i t \<and> l \<le> sh_free s' \<and> sh_len s' = sh_len s"
proof (cases "sh_free s < l")
  case True
  then have "sdsMakeRoomFor a s l = Some s'" using assms(4) by (simp add: fmt_room_def)
  note m = sdsMakeRoomFor_shape [OF assms(1) _ assms(3) this]
  have sh: "sds_shape s" using assms(2) by (simp add: fmt_inv_def)
  have "take (sh_len s) (sh_buf s') = take (sh_len s) (sh_buf s)"
    using arg_cong [of _ _ "take (sh_len s)", OF m [OF sh, THEN conjunct2, THEN conjunct2, THEN conjunct2]]
    by simp
  then show ?thesis using m [OF sh] assms(2) by (simp add: fmt_inv_def sds_str_def)
next
  case False
  then show ?thesis using assms by (simp add: fmt_room_def)
qed

lemma fmt_put_inv:
  assumes "fmt_inv s i t" "length u \<le> sh_free s" "sds_fits s (length u)"
  shows "\<exists>s'. fmt_put s i u = Some s' \<and> fmt_inv s' (i + int (length u)) (t @ u) \<and> sh_len s' = sh_len s + length u"
proof -
  have s: "sds_shape s" "i = int (sh_len s)" "take (sh_len s) (sh_buf s) = t"
    using assms(1) by (simp_all add: fmt_inv_def sds_str_def)
  have "sh_len s + length u < 2 ^ 32" "sh_free s < 2 ^ 32"
    using assms(3) s(1) by (auto simp: sds_fits_def sds_shape_def)
  moreover from this have "u32 (sh_free s + 2 ^ 32 - length u) = sh_free s - length u"
    using assms(2) mod_add_self2 [of "sh_free s - length u" "2 ^ 32"] by (simp add: u32_def)
  ultimately show ?thesis
    using s assms(2) take_blit [of "sh_len s" "sh_buf s" u]
    by (simp add: fmt_put_def fmt_inv_def sds_shape_def sds_str_def)
qed

lemma fmt_room_succeeds: "(\<And>n. a n \<noteq> None) \<Longrightarrow> fmt_room a s l \<noteq> None"
  using sdsMakeRoomFor_succeeds [of a s l] by (simp add: fmt_room_def)

lemma fmt_step:
  assumes a: "allocator_ok a" "\<And>n. a n \<noteq> None"
    and inv: "fmt_inv s i t" and fits: "sds_fits s (length u + k)" "0 < k" "sh_len s + length u < 2 ^ 31"
  shows "\<exists>s1 s2 s3. fmt_room a s 1 = Some s1 \<and> fmt_room a s1 (u32 (length u)) = Some s2
      \<and> take (u32 (length u)) u = u \<and> fmt_put s2 i u = Some s3 \<and> c_int (i + int (u32 (length u))) = i + int (length u)
      \<and> fmt_inv s3 (i + int (length u)) (t @ u) \<and> sds_fits s3 k \<and> sh_len s3 = sh_len s + length u
      \<and> (length u = 1 \<longrightarrow> s2 = s1)"
proof -
  have l: "u32 (length u) = length u" using fits(3) by (simp add: u32_def)
  have "c_int (i + int (length u)) = i + int (length u)"
    using inv fits(3) by (intro c_int_id) (simp_all add: fmt_inv_def)
  moreover have fits1: "sds_fits s 1" and fitsu: "sds_fits s (length u)"
    using fits by (auto intro: sds_fits_mono)
  moreover obtain s1 where s1: "fmt_room a s 1 = Some s1"
    using fmt_room_succeeds [of a s 1] a(2) by auto
  note r1 = fmt_room_Some [OF a(1) inv fits1 s1]
  obtain s2 where s2: "fmt_room a s1 (length u) = Some s2"
    using fmt_room_succeeds [of a s1 "length u"] a(2) by auto
  have f1: "sds_fits s1 (length u)" using r1 fitsu by (simp add: sds_fits_def)
  note r2 = fmt_room_Some [OF a(1) _ f1 s2]
  have inv2: "fmt_inv s2 i t" "length u \<le> sh_free s2" "sh_len s2 = sh_len s"
    using r1 r2 by auto
  have "sds_fits s2 (length u)" using fitsu inv2(3) by (simp add: sds_fits_def)
  from fmt_put_inv [OF inv2(1,2) this] obtain s3 where s3: "fmt_put s2 i u = Some s3"
    "fmt_inv s3 (i + int (length u)) (t @ u)" "sh_len s3 = sh_len s2 + length u" by blast
  have "sds_fits s3 k" using fits(1) s3(3) inv2(3) by (simp add: sds_fits_def)
  moreover have "length u = 1 \<longrightarrow> s2 = s1" using s2 r1 by (auto simp: fmt_room_def)
  ultimately show ?thesis using s1 s2 s3 inv2(3) l
    by (intro exI [of _ s1] exI [of _ s2] exI [of _ s3]) simp
qed

lemma sdscatfmt_loop_spec:
  assumes a: "allocator_ok a" "\<And>n. a n \<noteq> None"
  shows "\<lbrakk> fmt_inv s i t; fmt_spec f args = Some out; sds_fits s (length out + 1); sh_len s + length out < 2 ^ 31 \<rbrakk> \<Longrightarrow>
     \<exists>s'. sdscatfmt_loop a s i f args = Some (s', i + int (length out))
        \<and> fmt_inv s' (i + int (length out)) (t @ out)"
proof (induction f args arbitrary: s i t out rule: fmt_spec.induct)
  case (1 args)
  then show ?case by simp
next
  case (2 c f args)
  let ?P = "\<lambda>u f' args' out'. \<exists>s1 s2 s3 s'. fmt_room a s 1 = Some s1 \<and> fmt_room a s1 (u32 (length u)) = Some s2
      \<and> take (u32 (length u)) u = u \<and> fmt_put s2 i u = Some s3 \<and> c_int (i + int (u32 (length u))) = i + int (length u)
      \<and> (length u = 1 \<longrightarrow> s2 = s1)
      \<and> sdscatfmt_loop a s3 (i + int (length u)) f' args' = Some (s', i + int (length u + length out'))
      \<and> fmt_inv s' (i + int (length u + length out')) (t @ u @ out')"
  have step: "?P u f' args' out'"
    if out: "out = u @ out'" and spec: "fmt_spec f' args' = Some out'"
      and IH: "\<And>s i t. \<lbrakk> fmt_inv s i t; fmt_spec f' args' = Some out'; sds_fits s (length out' + 1);
          sh_len s + length out' < 2 ^ 31 \<rbrakk> \<Longrightarrow>
        \<exists>s'. sdscatfmt_loop a s i f' args' = Some (s', i + int (length out')) \<and> fmt_inv s' (i + int (length out')) (t @ out')"
    for u f' args' out'
  proof -
    have "sds_fits s (length u + (length out' + 1))" using "2.prems"(3) out by (simp add: add.assoc)
    from fmt_step [OF a "2.prems"(1) this] "2.prems"(4) out obtain s1 s2 s3 where s12: "fmt_room a s 1 = Some s1"
      "fmt_room a s1 (u32 (length u)) = Some s2" "take (u32 (length u)) u = u" "fmt_put s2 i u = Some s3"
      "c_int (i + int (u32 (length u))) = i + int (length u)" "fmt_inv s3 (i + int (length u)) (t @ u)"
      "sds_fits s3 (length out' + 1)" "sh_len s3 = sh_len s + length u" "length u = 1 \<longrightarrow> s2 = s1" by auto
    have "sh_len s3 + length out' < 2 ^ 31" using "2.prems"(4) out s12(8) by simp
    from IH [OF s12(6) spec s12(7) this] s12 show ?thesis by (auto simp: add.assoc)
  qed
  have u1: "u32 1 = 1" by (simp add: u32_def)
  consider (plain) "c \<noteq> CHR ''%''"
    | (conv) d f' x args' where "c = CHR ''%''" "f = d # f'" "fmt_conversion d" "args = x # args'"
    | (lit) d f' where "c = CHR ''%''" "f = d # f'" "\<not> fmt_conversion d"
    using "2.prems"(2) by (auto split: list.splits if_splits)
  then show ?case
  proof cases
    case plain
    then obtain out' where o: "fmt_spec f args = Some out'" "out = [c] @ out'" using "2.prems"(2) by auto
    have "?P [c] f args out'" by (rule step [OF o(2,1)]) (rule "2.IH"(1) [OF plain])
    then show ?thesis using plain o(2) u1 by auto
  next
    case conv
    then obtain u out' where o: "fmt_text d x = Some u" "fmt_spec f' args' = Some out'" "out = u @ out'"
      using "2.prems"(2) by (auto split: bind_splits)
    have "?P u f' args' out'" by (rule step [OF o(3,2)]) (rule "2.IH"(2) [OF _ conv(2-4) o(1)], use conv in auto)
    then show ?thesis using conv o by (auto simp: add.assoc)
  next
    case lit
    then obtain out' where o: "fmt_spec f' args = Some out'" "out = [d] @ out'" using "2.prems"(2) by auto
    have "?P [d] f' args out'" by (rule step [OF o(2,1)]) (rule "2.IH"(3) [OF _ lit(2,3)], use lit in auto)
    then show ?thesis using lit o(2) u1 by auto
  qed
qed

lemma sdscatfmt_loop_undefined:
  "fmt_spec f args = None \<Longrightarrow> sdscatfmt_loop a s i f args = None"
  by (induction f args arbitrary: s i rule: fmt_spec.induct)
    (auto split: if_splits list.splits bind_splits option.splits simp: Option.bind_eq_None_conv)

text \<open>C32. \<^verbatim>\<open>sdscatfmt\<close> appends exactly what its format denotes: on a well-formed string, with memory
  available and arguments that match the conversions, it returns a well-formed string whose
  contents are the old ones followed by the formatted text. The result has less than 2^31 bytes, since the position
  in it is an \<^verbatim>\<open>int\<close> (see \<open>sdscatfmt_index_wraps\<close> for a longer one), and fits the header with the spare space the
  code adds.\<close>

theorem sdscatfmt_correct:
  assumes a: "allocator_ok a" "\<forall>n. a n \<noteq> None" and ok: "sds_ok s"
    and spec: "fmt_spec (cstr fmt) args = Some out" and fits: "sds_fits s (length out + 1)" "sdslen s + length out < 2 ^ 31"
  shows "\<exists>s'. sdscatfmt a s fmt args = Some s' \<and> sds_ok s' \<and> sds_str s' = sds_str s @ out"
proof -
  have i: "c_int (int (sdslen s)) = int (sdslen s)" using fits(2) by (intro c_int_id) simp_all
  have "fmt_inv s (int (sdslen s)) (sds_str s)" using ok by (simp add: fmt_inv_def sdslen_def sds_ok_def)
  from sdscatfmt_loop_spec [OF a(1) _ this spec fits(1)] a(2) fits(2) obtain s' where
    s': "sdscatfmt_loop a s (int (sdslen s)) (cstr fmt) args = Some (s', int (sdslen s) + int (length out))"
    and inv: "fmt_inv s' (int (sdslen s) + int (length out)) (sds_str s @ out)" by (auto simp: sdslen_def)
  have n: "nat (int (sdslen s) + int (length out)) = sdslen s + length out" by simp
  have "int (sh_len s') = int (sdslen s) + int (length out)" using inv by (simp add: fmt_inv_def)
  then have len: "sh_len s' = sdslen s + length out" by linarith
  have "sds_ok (s'\<lparr>sh_buf := (sh_buf s')[sdslen s + length out := NUL]\<rparr>)"
    using inv by (simp add: fmt_inv_def sds_ok_def sds_shape_def len)
  moreover have "sds_str (s'\<lparr>sh_buf := (sh_buf s')[sdslen s + length out := NUL]\<rparr>) = sds_str s @ out"
    using inv by (auto simp: fmt_inv_def sds_str_def)
  moreover have "sdslen s + length out < length (sh_buf s')" using inv by (simp add: fmt_inv_def sds_shape_def)
  ultimately show ?thesis using s' i n by (simp add: sdscatfmt_def)
qed

theorem sdscatfmt_correct_witness:
  "\<exists>a s'. sdscatfmt a \<lparr>sh_len = 2, sh_free = 0, sh_buf = ''--'' @ [NUL]\<rparr> ''%i,%s!'' [Arg_i (- 7), Arg_s ''x'']
     = Some s' \<and> sds_str s' = ''---7,x!''"
proof -
  let ?a = "\<lambda>n. Some (replicate n NUL) :: byte list option"
  let ?s = "\<lparr>sh_len = 2, sh_free = 0, sh_buf = ''--'' @ [NUL]\<rparr>"
  have seven: "dec_of_nat 7 = ''7''"
  proof -
    have "digit_char 7 = CHR ''7''" by code_simp
    then show ?thesis by (subst dec_of_nat.simps) simp
  qed
  have "sint (signed (- 7 :: 32 word) :: 64 word) = - 7" by simp
  then have neg: "sdsll2str (signed (- 7 :: 32 word)) = ''-7''"
    unfolding sdsll2str_dec by (simp add: dec_of_int_def seven)
  have c: "cstr ''%i,%s!'' = ''%i,%s!''" "cstr ''x'' = ''x''" by (simp_all add: cstr_def)
  have neg': "sdsll2str (- 7) = ''-7''" using neg by simp
  have spec: "fmt_spec (cstr ''%i,%s!'') [Arg_i (- 7), Arg_s ''x''] = Some ''-7,x!''"
    unfolding c by (simp add: fmt_conversion_def fmt_text_def neg' c)
  have a: "allocator_ok ?a" "\<forall>n. ?a n \<noteq> None" by (simp_all add: allocator_ok_def)
  have ok: "sds_ok ?s" "sds_fits ?s (length ''-7,x!'' + 1)" "sdslen ?s + length ''-7,x!'' < 2 ^ 31"
    by (simp_all add: sds_ok_def sds_shape_def sds_fits_def SDS_MAX_PREALLOC_def sdslen_def)
  have "sds_str ?s = ''--''" by (simp add: sds_str_def)
  then show ?thesis using sdscatfmt_correct [OF a ok(1) spec ok(2,3)] by fastforce
qed

text \<open>The position is an \<^verbatim>\<open>int\<close>: from a string of 2^31 bytes on, the first store is before the buffer.\<close>

lemma sdscatfmt_index_wraps:
  assumes "2 ^ 31 \<le> sdslen s" "sdslen s < 2 ^ 32" "cstr fmt = c # f" "c \<noteq> CHR ''%''"
  shows "sdscatfmt a s fmt args = None"
proof -
  define y where "y = int (sdslen s) - 2 ^ 31"
  have y: "0 \<le> y" "y < 2 ^ 32" "int (sdslen s) + 2 ^ 31 = y + 2 ^ 32" using assms(1,2) by (simp_all add: y_def)
  have "c_int (int (sdslen s)) = (y + 2 ^ 32) mod 2 ^ 32 - 2 ^ 31" unfolding c_int_def y(3) ..
  also have "\<dots> = y - 2 ^ 31" using mod_pos_pos_trivial [OF y(1,2)] by simp
  finally have "c_int (int (sdslen s)) = int (sdslen s) - 2 ^ 32" by (simp add: y_def)
  then have neg: "c_int (int (sdslen s)) < 0" using assms(2) by simp
  then have "fmt_put s' (c_int (int (sdslen s))) [c] = None" for s' by (simp add: fmt_put_def)
  then show ?thesis using assms(3,4) by (simp add: sdscatfmt_def bind_eq_None_conv)
qed

text \<open>A format that ends in a single \<^verbatim>\<open>%\<close> makes \<^verbatim>\<open>sdscatfmt\<close> read past the end of the
  format: the loop copies the terminator and steps over it. No run of it is defined.\<close>

theorem sdscatfmt_trailing_percent:
  assumes "NUL \<notin> set f" "CHR ''%'' \<notin> set f"
  shows "sdscatfmt a s (f @ ''%'' @ [NUL]) args = None"
proof -
  have "fmt_spec (f @ ''%'') args = None" using assms(2) by (induction f) auto
  moreover have "cstr (f @ ''%'' @ [NUL]) = f @ ''%''"
    using assms(1) cstr_append_NUL [of "f @ ''%''" "[]"] by simp
  ultimately show ?thesis by (simp add: sdscatfmt_def sdscatfmt_loop_undefined)
qed

theorem sdscatfmt_trailing_percent_witness:
  "\<forall>a s. sdscatfmt a s (''100'' @ ''%'' @ [NUL]) [] = None"
  by (intro allI, rule sdscatfmt_trailing_percent) simp_all

text \<open>The conversion of a 64-bit signed integer prints its decimal representation, the most
  negative value included, and always fits the 21 bytes the callers reserve.\<close>

theorem sdsll2str_correct:
  "sdsll2str val = dec_of_int (sint val) \<and> length (sdsll2str val) < SDS_LLSTR_SIZE"
  using sdsll2str_dec sdsll2str_fits by blast


end
