(* ===== verification/SdsSplit.thy ===== *)
theory SdsSplit
  imports SdsFormat
begin

text \<open>
  Splitting, joining and quoting in \<^verbatim>\<open>sds.c\<close>: \<^verbatim>\<open>sdssplitlen\<close> with its growing array of tokens, \<^verbatim>\<open>sdsjoin\<close>,
  \<^verbatim>\<open>sdscatrepr\<close> and its inverse \<^verbatim>\<open>sdssplitargs\<close>. A pointer into a line is the rest of the line up to
  the terminator; reading at its end gives the terminator.
\<close>

section \<open>sdssplitlen\<close>

text \<open>
  \<open>Split_oob\<close> stands for a store outside of the token array. \<open>arr n\<close> tells whether an array of
  \<open>n\<close> pointers can be allocated.
\<close>

datatype split_result = Split_null | Split_oob | Split_ok "sds list"

function split_loop :: "allocator \<Rightarrow> (nat \<Rightarrow> bool) \<Rightarrow> byte list \<Rightarrow> byte list \<Rightarrow> nat \<Rightarrow> sds list \<Rightarrow> nat \<Rightarrow> nat
    \<Rightarrow> split_result + (nat \<times> sds list \<times> nat)" where
  "split_loop a arr s sep slots tokens start j =
     (let seplen = length sep in
      if j + seplen < length s + 1
      then
        let slots' = (if slots < length tokens + 2 then slots * 2 else slots) in
        if slots < length tokens + 2 \<and> \<not> arr slots' then Inl Split_null
        else if (seplen = 1 \<and> s ! j = sep ! 0) \<or> take seplen (drop j s) = sep
        then (if slots' \<le> length tokens then Inl Split_oob
              else case sdsnewlen a (Some (drop start s)) (j - start) of
                     None \<Rightarrow> Inl Split_null
                   | Some t \<Rightarrow> split_loop a arr s sep slots' (tokens @ [t]) (j + seplen) (j + (seplen - 1) + 1))
        else split_loop a arr s sep slots' tokens start (j + 1)
      else Inr (slots, tokens, start))"
  by pat_completeness auto
termination
  by (relation "measure (\<lambda>(a, arr, s, sep, slots, tokens, start, j). length s + 1 - j)") auto

declare split_loop.simps [simp del]

definition sdssplitlen :: "allocator \<Rightarrow> (nat \<Rightarrow> bool) \<Rightarrow> byte list \<Rightarrow> byte list \<Rightarrow> split_result" where
  "sdssplitlen a arr s sep =
     (if length sep < 1 then Split_null
      else if \<not> arr 5 then Split_null
      else if s = [] then Split_ok []
      else case split_loop a arr s sep 5 [] 0 0 of
        Inl r \<Rightarrow> r
      | Inr (slots, tokens, start) \<Rightarrow>
          (if slots \<le> length tokens then Split_oob
           else case sdsnewlen a (Some (drop start s)) (length s - start) of
             None \<Rightarrow> Split_null
           | Some t \<Rightarrow> Split_ok (tokens @ [t])))"

text \<open>The tokens joined again, and the occurrences of a separator.\<close>

fun join_bytes :: "byte list \<Rightarrow> byte list list \<Rightarrow> byte list" where
  "join_bytes sep [] = []"
| "join_bytes sep [t] = t"
| "join_bytes sep (t # u # ts) = t @ sep @ join_bytes sep (u # ts)"

definition occurs_at :: "byte list \<Rightarrow> byte list \<Rightarrow> nat \<Rightarrow> bool" where
  "occurs_at sep s j \<longleftrightarrow> j + length sep \<le> length s \<and> take (length sep) (drop j s) = sep"

definition contains :: "byte list \<Rightarrow> byte list \<Rightarrow> bool" where
  "contains sep t \<longleftrightarrow> (\<exists>j\<le>length t. occurs_at sep t j)"

lemma join_bytes_snoc:
  "join_bytes sep (ts @ [u]) = concat (map (\<lambda>t. t @ sep) ts) @ u"
proof (induction ts)
  case Nil
  then show ?case by simp
next
  case (Cons t ts)
  then show ?case by (cases ts) simp_all
qed

definition split_inv :: "byte list \<Rightarrow> byte list \<Rightarrow> nat \<Rightarrow> sds list \<Rightarrow> nat \<Rightarrow> nat \<Rightarrow> bool" where
  "split_inv s sep slots tokens start j \<longleftrightarrow>
     concat (map (\<lambda>t. sds_str t @ sep) tokens) = take start s \<and> start \<le> j \<and> start \<le> length s
     \<and> (\<forall>i. start \<le> i \<and> i < j \<longrightarrow> \<not> occurs_at sep s i)
     \<and> (\<forall>t\<in>set tokens. \<not> contains sep (sds_str t)) \<and> length tokens < slots"

lemma no_occurrence_inside:
  assumes none: "\<And>i. start \<le> i \<Longrightarrow> i + length sep \<le> stop \<Longrightarrow> \<not> occurs_at sep s i"
    and stop: "stop \<le> length s" and sep: "sep \<noteq> []"
  shows "\<not> contains sep (take (stop - start) (drop start s))"
proof
  assume "contains sep (take (stop - start) (drop start s))"
  then obtain j where j: "j + length sep \<le> stop - start"
    "take (length sep) (drop j (take (stop - start) (drop start s))) = sep"
    using stop by (auto simp: contains_def occurs_at_def)
  have in_range: "start + j + length sep \<le> stop" using j(1) sep by (cases "start \<le> stop") auto
  have "take (length sep) (drop (start + j) s) = sep"
    using j by (simp add: drop_take add.commute min_def split: if_splits)
  then have "occurs_at sep s (start + j)"
    using in_range stop by (simp add: occurs_at_def)
  then show False using none [of "start + j"] in_range by simp
qed

lemma split_loop_inv:
  assumes "allocator_ok a" "sep \<noteq> []" "length s < 2 ^ 32" "split_inv s sep slots tokens start j"
  shows "split_loop a arr s sep slots tokens start j = Inl Split_null \<or>
    (\<exists>slots' tokens' start'. split_loop a arr s sep slots tokens start j = Inr (slots', tokens', start')
       \<and> split_inv s sep slots' tokens' start' (length s + 1))"
  using assms
proof (induction a arr s sep slots tokens start j rule: split_loop.induct)
  case (1 a arr s sep slots tokens start j)
  note inv = 1(6)
  define slots' where "slots' = (if slots < length tokens + 2 then slots * 2 else slots)"
  have room: "length tokens + 1 < slots'" using inv by (auto simp: split_inv_def slots'_def)
  show ?case
  proof (cases "j + length sep < length s + 1")
    case False
    then have "split_inv s sep slots tokens start (length s + 1)"
      using inv by (auto simp: split_inv_def occurs_at_def)
    then show ?thesis using False by (subst split_loop.simps) (auto simp: Let_def)
  next
    case True
    show ?thesis
    proof (cases "slots < length tokens + 2 \<and> \<not> arr slots'")
      case True
      then have "slots < length tokens + 2" "\<not> arr (slots * 2)" by (auto simp: slots'_def)
      then show ?thesis using \<open>j + length sep < length s + 1\<close>
        by (subst split_loop.simps) (simp add: Let_def)
    next
      case arr: False
      define hit where "hit \<longleftrightarrow> (length sep = 1 \<and> s ! j = sep ! 0) \<or> take (length sep) (drop j s) = sep"
      have hit: "hit \<longleftrightarrow> occurs_at sep s j"
      proof -
        have "take (length sep) (drop j s) = sep" if "length sep = 1" "s ! j = sep ! 0"
          using that True by (cases sep) (simp_all add: take_Suc_conv_app_nth)
        then show ?thesis using True by (auto simp: hit_def occurs_at_def)
      qed
      have unfold: "split_loop a arr s sep slots tokens start j =
          (if hit then (case sdsnewlen a (Some (drop start s)) (j - start) of
                 None \<Rightarrow> Inl Split_null
               | Some t \<Rightarrow> split_loop a arr s sep slots' (tokens @ [t]) (j + length sep) (j + (length sep - 1) + 1))
           else split_loop a arr s sep slots' tokens start (j + 1))"
        using True arr room by (subst split_loop.simps) (simp add: Let_def slots'_def hit_def split: option.split)
      show ?thesis
      proof (cases hit)
        case False
        then have "split_inv s sep slots' tokens start (j + 1)"
          using inv hit room by (auto simp: split_inv_def less_Suc_eq)
        then show ?thesis
          using 1(2) [OF refl True slots'_def arr False [unfolded hit_def] 1(3-5)] False unfold by simp
      next
        case True
        show ?thesis
        proof (cases "sdsnewlen a (Some (drop start s)) (j - start)")
          case None
          then show ?thesis using True unfold by simp
        next
          case (Some t)
          have jl: "start \<le> j" "j + length sep \<le> length s" using inv \<open>j + length sep < length s + 1\<close>
            by (auto simp: split_inv_def)
          have nxt: "j + (length sep - 1) + 1 = j + length sep" using 1(4) by (cases sep) auto
          have "sds_str t = take (j - start) (drop start s)"
            using sdsnewlen_Some [OF 1(3) Some] jl 1(5) by simp
          moreover have "take (j + length sep) s = take start s @ take (j - start) (drop start s) @ sep"
          proof -
            have "take (j + length sep) s = take j s @ take (length sep) (drop j s)" by (rule take_add)
            moreover have "take (length sep) (drop j s) = sep" using True hit by (simp add: occurs_at_def)
            moreover have "take j s = take start s @ take (j - start) (drop start s)"
              using take_add [of start "j - start" s] jl by simp
            ultimately show ?thesis by simp
          qed
          moreover have "\<not> contains sep (take (j - start) (drop start s))"
          proof (intro no_occurrence_inside)
            fix i assume i: "start \<le> i" "i + length sep \<le> j"
            have "0 < length sep" using 1(4) by simp
            then have "i < j" using i(2) by linarith
            then show "\<not> occurs_at sep s i" using inv i(1) by (auto simp: split_inv_def)
          qed (use jl 1(4) in auto)
          ultimately have "split_inv s sep slots' (tokens @ [t]) (j + length sep) (j + (length sep - 1) + 1)"
            using inv jl room nxt by (auto simp: split_inv_def)
          then show ?thesis
            using 1(1) [OF refl \<open>j + length sep < length s + 1\<close> slots'_def arr True [unfolded hit_def] _ Some 1(3-5)]
              True Some unfold room by simp
        qed
      qed
    qed
  qed
qed

text \<open>C39. A successful \<^verbatim>\<open>sdssplitlen\<close> of a non-empty string loses nothing: joining the tokens with
  the separator gives the string back and no token contains the separator. The token array
  always has room: no store leaves it. An empty string gives an empty array, not NULL.\<close>

theorem sdssplitlen_correct:
  assumes "allocator_ok a" "length s < 2 ^ 32"
  shows "sdssplitlen a arr s sep \<noteq> Split_oob \<and>
    (\<forall>ts. sdssplitlen a arr s sep = Split_ok ts \<longrightarrow>
       (s = [] \<and> ts = [] \<or> s \<noteq> [] \<and> ts \<noteq> [] \<and> join_bytes sep (map sds_str ts) = s)
       \<and> (\<forall>t\<in>set ts. \<not> contains sep (sds_str t)))"
proof (cases "sep = [] \<or> \<not> arr 5 \<or> s = []")
  case True
  then show ?thesis by (auto simp: sdssplitlen_def)
next
  case False
  have init: "split_inv s sep 5 [] 0 0" by (simp add: split_inv_def)
  have sep: "sep \<noteq> []" using False by simp
  consider (null) "split_loop a arr s sep 5 [] 0 0 = Inl Split_null"
    | (loop) slots tokens start where "split_loop a arr s sep 5 [] 0 0 = Inr (slots, tokens, start)"
        "split_inv s sep slots tokens start (length s + 1)"
    using split_loop_inv [OF assms(1) sep assms(2) init, of arr] by blast
  then show ?thesis
  proof cases
    case null
    then show ?thesis using False by (simp add: sdssplitlen_def)
  next
    case loop
    show ?thesis
    proof (cases "sdsnewlen a (Some (drop start s)) (length s - start)")
      case None
      then show ?thesis using loop False by (auto simp: sdssplitlen_def split_inv_def)
    next
      case (Some t)
      have t: "sds_str t = drop start s"
        using sdsnewlen_Some [OF assms(1) Some] assms(2) by simp
      have "join_bytes sep (map sds_str (tokens @ [t])) = take start s @ drop start s"
        using loop(2) t by (simp add: join_bytes_snoc split_inv_def comp_def)
      moreover have "\<not> contains sep (take (length s - start) (drop start s))"
        using loop(2) sep by (intro no_occurrence_inside) (auto simp: split_inv_def)
      ultimately show ?thesis
        using loop False Some t by (auto simp: sdssplitlen_def split_inv_def)
    qed
  qed
qed

theorem sdssplitlen_correct_witness:
  "\<exists>ts. sdssplitlen (\<lambda>n. Some (replicate n NUL)) (\<lambda>n. True) ''a_-_b'' ''_-_'' = Split_ok ts
     \<and> join_bytes ''_-_'' (map sds_str ts) = ''a_-_b''"
proof -
  let ?a = "\<lambda>n. Some (replicate n NUL) :: byte list option"
  have a: "allocator_ok ?a" by (simp add: allocator_ok_def)
  have "sdssplitlen ?a (\<lambda>n. True) ''a_-_b'' ''_-_'' \<noteq> Split_null"
    by (simp add: sdssplitlen_def split_loop.simps sdsnewlen_def alloc_buf_def)
  moreover have c: "sdssplitlen ?a (\<lambda>n. True) ''a_-_b'' ''_-_'' \<noteq> Split_oob \<and>
    (\<forall>ts. sdssplitlen ?a (\<lambda>n. True) ''a_-_b'' ''_-_'' = Split_ok ts \<longrightarrow>
       (''a_-_b'' = [] \<and> ts = [] \<or> ''a_-_b'' \<noteq> [] \<and> ts \<noteq> [] \<and> join_bytes ''_-_'' (map sds_str ts) = ''a_-_b'')
       \<and> (\<forall>t\<in>set ts. \<not> contains ''_-_'' (sds_str t)))"
    by (rule sdssplitlen_correct [OF a]) simp
  ultimately obtain ts where ts: "sdssplitlen ?a (\<lambda>n. True) ''a_-_b'' ''_-_'' = Split_ok ts"
    by (cases "sdssplitlen ?a (\<lambda>n. True) ''a_-_b'' ''_-_''") auto
  with c show ?thesis by blast
qed

end
