(* ===== verification/SdsQuote.thy ===== *)
theory SdsQuote
  imports SdsSplit
begin

text \<open>
  \<^verbatim>\<open>sdsjoin\<close>, \<^verbatim>\<open>sdscatrepr\<close> and \<^verbatim>\<open>sdssplitargs\<close> of \<^verbatim>\<open>sds.c\<close>. The functions below use the string an append
  returned without a check, so a failed append is \<open>None\<close>, respectively \<open>Args_crash\<close>.
\<close>

section \<open>sdsjoin\<close>

fun sdsjoin_loop :: "allocator \<Rightarrow> byte list \<Rightarrow> byte list list \<Rightarrow> sds \<Rightarrow> sds option" where
  "sdsjoin_loop a sep [] join = Some join"
| "sdsjoin_loop a sep (x # xs) join =
     do { join \<leftarrow> sdscat a join x;
          join \<leftarrow> (if xs \<noteq> [] then sdscat a join sep else Some join);
          sdsjoin_loop a sep xs join }"

definition sdsjoin :: "allocator \<Rightarrow> byte list list \<Rightarrow> byte list \<Rightarrow> sds option" where
  "sdsjoin a argv sep = do { join \<leftarrow> sdsempty a; sdsjoin_loop a sep argv join }"

section \<open>sdscatrepr\<close>

abbreviation BACKSLASH :: byte where "BACKSLASH \<equiv> CHR 0x5C"
abbreviation DQUOTE :: byte where "DQUOTE \<equiv> CHR 0x22"
abbreviation SQUOTE :: byte where "SQUOTE \<equiv> CHR 0x27"

text \<open>The output of \<^verbatim>\<open>printf\<close> for the three formats the function uses.\<close>

definition out_escaped :: "byte \<Rightarrow> byte list" where "out_escaped c = [BACKSLASH, c]"
definition out_hex :: "byte \<Rightarrow> byte list" where
  "out_hex c = [BACKSLASH, CHR ''x'', hexdig (uchar c div 16), hexdig (uchar c mod 16)]"

definition sdscatrepr_char :: "allocator \<Rightarrow> byte list \<Rightarrow> sds \<Rightarrow> byte \<Rightarrow> sds option" where
  "sdscatrepr_char a sb s c =
     (if c = BACKSLASH \<or> c = DQUOTE then sdscatprintf a sb s (BACKSLASH # ''%c'') (out_escaped c)
      else if c = CHR 0x0A then sdscatlen a s [BACKSLASH, CHR ''n''] 2
      else if c = CHR 0x0D then sdscatlen a s [BACKSLASH, CHR ''r''] 2
      else if c = CHR 0x09 then sdscatlen a s [BACKSLASH, CHR ''t''] 2
      else if c = CHR 0x07 then sdscatlen a s [BACKSLASH, CHR ''a''] 2
      else if c = CHR 0x08 then sdscatlen a s [BACKSLASH, CHR ''b''] 2
      else if isprint c then sdscatprintf a sb s ''%c'' [c]
      else sdscatprintf a sb s (BACKSLASH # ''x%02x'') (out_hex c))"

fun sdscatrepr_loop :: "allocator \<Rightarrow> byte list \<Rightarrow> sds \<Rightarrow> byte list \<Rightarrow> sds option" where
  "sdscatrepr_loop a sb s [] = Some s"
| "sdscatrepr_loop a sb s (c # p) =
     do { s \<leftarrow> sdscatrepr_char a sb s c; sdscatrepr_loop a sb s p }"

definition sdscatrepr :: "allocator \<Rightarrow> byte list \<Rightarrow> sds \<Rightarrow> byte list \<Rightarrow> nat \<Rightarrow> sds option" where
  "sdscatrepr a sb s p len =
     do { s \<leftarrow> sdscatlen a s [DQUOTE] 1;
          s \<leftarrow> sdscatrepr_loop a sb s (take len p);
          sdscatlen a s [DQUOTE] 1 }"

section \<open>sdssplitargs\<close>

definition is_hex_digit :: "byte \<Rightarrow> bool" where
  "is_hex_digit c \<longleftrightarrow> (uchar (CHR ''0'') \<le> uchar c \<and> uchar c \<le> uchar (CHR ''9''))
     \<or> (uchar (CHR ''a'') \<le> uchar c \<and> uchar c \<le> uchar (CHR ''f''))
     \<or> (uchar (CHR ''A'') \<le> uchar c \<and> uchar c \<le> uchar (CHR ''F''))"

definition hex_digit_to_int :: "byte \<Rightarrow> nat" where
  "hex_digit_to_int c =
     (case map_of (zip ''0123456789abcdefABCDEF''
             [0, 1, 2, 3, 4, 5, 6, 7, 8, 9, 10, 11, 12, 13, 14, 15, 10, 11, 12, 13, 14, 15]) c of
        Some n \<Rightarrow> n | None \<Rightarrow> 0)"

definition unescape :: "byte \<Rightarrow> byte" where
  "unescape c =
     (if c = CHR ''n'' then CHR 0x0A else if c = CHR ''r'' then CHR 0x0D
      else if c = CHR ''t'' then CHR 0x09 else if c = CHR ''b'' then CHR 0x08
      else if c = CHR ''a'' then CHR 0x07 else c)"

datatype quoting = Plain | InQ | InSQ

datatype 'a args_result = Args_null | Args_crash | Args 'a

text \<open>
  The inner loop: the token so far and what is left of the line. \<open>Args_null\<close> is the jump to \<^verbatim>\<open>err\<close>.
\<close>

function split_token :: "allocator \<Rightarrow> quoting \<Rightarrow> sds \<Rightarrow> byte list \<Rightarrow> (sds \<times> byte list) args_result" where
  "split_token a InQ cur p =
     (if peek p 0 = BACKSLASH \<and> peek p 1 = CHR ''x'' \<and> is_hex_digit (peek p 2) \<and> is_hex_digit (peek p 3)
      then (case sdscatlen a cur [char_of (hex_digit_to_int (peek p 2) * 16 + hex_digit_to_int (peek p 3))] 1 of
              None \<Rightarrow> Args_crash | Some cur' \<Rightarrow> split_token a InQ cur' (drop 4 p))
      else if peek p 0 = BACKSLASH \<and> peek p 1 \<noteq> NUL
      then (case sdscatlen a cur [unescape (peek p 1)] 1 of
              None \<Rightarrow> Args_crash | Some cur' \<Rightarrow> split_token a InQ cur' (drop 2 p))
      else if peek p 0 = DQUOTE
      then (if peek p 1 \<noteq> NUL \<and> \<not> isspace (peek p 1) then Args_null else Args (cur, drop 1 p))
      else if peek p 0 = NUL then Args_null
      else (case sdscatlen a cur [peek p 0] 1 of
              None \<Rightarrow> Args_crash | Some cur' \<Rightarrow> split_token a InQ cur' (drop 1 p)))"
| "split_token a InSQ cur p =
     (if peek p 0 = BACKSLASH \<and> peek p 1 = SQUOTE
      then (case sdscatlen a cur [SQUOTE] 1 of
              None \<Rightarrow> Args_crash | Some cur' \<Rightarrow> split_token a InSQ cur' (drop 2 p))
      else if peek p 0 = SQUOTE
      then (if peek p 1 \<noteq> NUL \<and> \<not> isspace (peek p 1) then Args_null else Args (cur, drop 1 p))
      else if peek p 0 = NUL then Args_null
      else (case sdscatlen a cur [peek p 0] 1 of
              None \<Rightarrow> Args_crash | Some cur' \<Rightarrow> split_token a InSQ cur' (drop 1 p)))"
| "split_token a Plain cur p =
     (if peek p 0 = CHR '' '' \<or> peek p 0 = LF \<or> peek p 0 = CR \<or> peek p 0 = CHR 0x09
      then Args (cur, drop 1 p)
      else if peek p 0 = NUL then Args (cur, p)
      else if peek p 0 = DQUOTE then split_token a InQ cur (drop 1 p)
      else if peek p 0 = SQUOTE then split_token a InSQ cur (drop 1 p)
      else (case sdscatlen a cur [peek p 0] 1 of
              None \<Rightarrow> Args_crash | Some cur' \<Rightarrow> split_token a Plain cur' (drop 1 p)))"
  by pat_completeness auto
termination
  by (relation "measure (\<lambda>(a, q, cur, p). length p)") (auto simp: peek_def split: if_splits)

declare split_token.simps [simp del]

lemma peek_0_NUL: "NUL \<notin> set p \<Longrightarrow> peek p 0 = NUL \<longleftrightarrow> p = []"
  by (cases p) (auto simp: peek_def)

text \<open>The loop takes at least one byte of a non-empty rest.\<close>

lemma split_token_Nil:
  "split_token a q cur [] = (if q = Plain then Args (cur, []) else Args_null)"
  by (cases q) (simp_all add: split_token.simps peek_def)

lemma split_token_shrinks:
  "split_token a q cur p = Args (cur', r) \<Longrightarrow> NUL \<notin> set p \<Longrightarrow> length r \<le> length p - 1 \<and> NUL \<notin> set r"
proof (induction "length p" arbitrary: q cur p cur' r rule: less_induct)
  case less
  show ?case
  proof (cases "p = []")
    case True
    then show ?thesis using less.prems by (simp add: split_token_Nil split: if_splits)
  next
    case False
    have drops: "NUL \<notin> set (drop k p)" for k using less.prems(2) by (auto dest: in_set_dropD)
    have step: "length r \<le> length p - Suc 0 \<and> NUL \<notin> set r"
      if k: "k = 4 \<or> k = 2 \<or> k = Suc 0" and r: "split_token a q' c (drop k p) = Args (cur', r)" for k q' c
    proof -
      have "length (drop k p) < length p" using k False by auto
      from less.hyps [OF this r drops] show ?thesis by auto
    qed
    have head: "peek p 0 \<noteq> NUL" using False less.prems(2) by (simp add: peek_0_NUL)
    show ?thesis
      using less.prems(1) head drops [of "Suc 0"]
      by (cases q; simp; subst (asm) split_token.simps)
        (auto split: if_splits option.splits
          dest: step [of 4, simplified] step [of 2, simplified] step [of "Suc 0", simplified])
  qed
qed

definition skip_blanks :: "byte list \<Rightarrow> byte list" where
  "skip_blanks p = dropWhile isspace p"

text \<open>The outer loop. A token starts at a byte that is not a blank and takes at least that byte.\<close>

function split_args_loop :: "allocator \<Rightarrow> sds list \<Rightarrow> byte list \<Rightarrow> sds list args_result" where
  "split_args_loop a vec p =
     (let p = skip_blanks p in
      if p = [] then Args vec
      else case sdsempty a of
        None \<Rightarrow> Args_crash
      | Some cur \<Rightarrow>
          (case split_token a Plain cur p of
             Args_null \<Rightarrow> Args_null
           | Args_crash \<Rightarrow> Args_crash
           | Args (cur', r) \<Rightarrow> if length r < length p then split_args_loop a (vec @ [cur']) r else Args_crash))"
  by pat_completeness auto
termination
  by (relation "measure (\<lambda>(a, vec, p). length p)")
    (auto simp: skip_blanks_def intro: less_le_trans [OF _ length_dropWhile_le])

declare split_args_loop.simps [simp del]

definition sdssplitargs :: "allocator \<Rightarrow> byte list \<Rightarrow> sds list args_result" where
  "sdssplitargs a line = split_args_loop a [] (cstr line)"
section \<open>Joining\<close>

lemma append_c_string:
  assumes "allocator_ok a" "\<And>n. a n \<noteq> None" "sds_ok s" "sds_fits s (length t + k)"
  shows "\<exists>s'. sdscatlen a s t (length t) = Some s' \<and> sds_ok s' \<and> sds_str s' = sds_str s @ t \<and> sds_fits s' k"
proof -
  obtain s' where s': "sdscatlen a s t (length t) = Some s'"
    using sdscatlen_succeeds [of a s t "length t"] assms(2) by blast
  have "sds_fits s (length t)" using assms(4) by (rule sds_fits_mono) simp
  from sdscatlen_Some [OF assms(1,3) this le_refl s'] assms(4) s' show ?thesis
    by (simp add: sds_fits_def)
qed

text \<open>\<^verbatim>\<open>sdsjoin\<close> appends the strings and the separators between them, one after the other.\<close>

fun join_parts :: "byte list \<Rightarrow> byte list list \<Rightarrow> byte list list" where
  "join_parts sep [] = []"
| "join_parts sep [t] = [t]"
| "join_parts sep (t # u # ts) = t # sep # join_parts sep (u # ts)"

lemma concat_join_parts [simp]: "concat (join_parts sep ts) = join_bytes sep ts"
  by (induction sep ts rule: join_parts.induct) simp_all

lemma sdscatlen_cong: "take n t = take n t' \<Longrightarrow> sdscatlen a s t n = sdscatlen a s t' n"
  by (simp add: sdscatlen_def Let_def cong: option.case_cong)

lemma sdscat_append: "sdscat a s t = map_option snd (sds_ctx_append (a, s) (cstr t))"
proof -
  have "take (strlen t) t = take (strlen t) (cstr t)" by (simp add: take_strlen) (simp add: strlen_def)
  then have "sdscat a s t = sdscatlen a s (cstr t) (length (cstr t))"
    unfolding sdscat_def by (subst sdscatlen_cong [of _ t "cstr t"]) (simp_all add: strlen_def)
  then show ?thesis by (simp add: sds_ctx_append_def option.map_comp comp_def option.map_ident)
qed

lemma sds_ctx_append_pair: "sds_ctx_append (a, s) t = Some p \<Longrightarrow> p = (a, snd p)"
  using sds_ctx_append_fst [of "(a, s)" t p] by (cases p) simp

lemma sdsjoin_loop_appends:
  "sdsjoin_loop a sep argv s
     = map_option snd (live_sds.append_all (a, s) (join_parts (cstr sep) (map cstr argv)))"
proof (induction argv arbitrary: s)
  case Nil
  then show ?case by simp
next
  case (Cons x xs)
  note IH = Cons.IH
  show ?case
  proof (cases xs)
    case Nil
    then show ?thesis by (simp add: sdscat_append split: option.splits)
  next
    case (Cons y ys)
    then have parts: "join_parts (cstr sep) (map cstr (x # xs)) = cstr x # cstr sep # join_parts (cstr sep) (map cstr xs)"
      and xs: "xs \<noteq> []" by simp_all
    show ?thesis
    proof (cases "sds_ctx_append (a, s) (cstr x)")
      case None
      then show ?thesis unfolding parts by (simp add: sdscat_append)
    next
      case (Some p)
      then obtain s1 where p: "p = (a, s1)" using sds_ctx_append_pair by blast
      show ?thesis
        unfolding parts using Some p xs IH
        by (cases "sds_ctx_append (a, s1) (cstr sep)") (auto simp: sdscat_append dest: sds_ctx_append_pair)
    qed
  qed
qed

lemma sdsjoin_loop_str:
  assumes "allocator_ok a" "\<And>n. a n \<noteq> None" "sds_ok s"
    and "sds_fits s (length (join_bytes (cstr sep) (map cstr argv)))"
  shows "\<exists>s'. sdsjoin_loop a sep argv s = Some s' \<and> sds_ok s'
    \<and> sds_str s' = sds_str s @ join_bytes (cstr sep) (map cstr argv)"
  using live_sds.append_all_appends [of "(a, s)" "join_parts (cstr sep) (map cstr argv)"] assms
  by (auto simp: sdsjoin_loop_appends sds_ctx_live_def sds_ctx_ok_def)

text \<open>\<^verbatim>\<open>sdsjoin\<close> of C strings is their concatenation with the separator between neighbours.\<close>

lemma sdsjoin_joins:
  assumes "allocator_ok a" "\<forall>n. a n \<noteq> None"
    and "length (join_bytes (cstr sep) (map cstr argv)) + SDS_MAX_PREALLOC < 2 ^ 32"
  shows "\<exists>s. sdsjoin a argv sep = Some s \<and> sds_ok s \<and> sds_str s = join_bytes (cstr sep) (map cstr argv)"
proof -
  obtain s0 where s0: "sdsempty a = Some s0"
    using sdsnewlen_succeeds [of a "Some []" 0] assms(2) unfolding sdsempty_def by blast
  have "sds_ok s0" "sds_str s0 = []" "sds_fits s0 (length (join_bytes (cstr sep) (map cstr argv)))"
    using sdsempty_Some [OF assms(1) s0] assms(3) by (simp_all add: sds_fits_def)
  from sdsjoin_loop_str [OF assms(1) _ this(1,3)] assms(2) s0 this(2) show ?thesis
    by (auto simp: sdsjoin_def)
qed

section \<open>Quoting and splitting are inverse\<close>

definition repr_char :: "byte \<Rightarrow> byte list" where
  "repr_char c =
     (if c = BACKSLASH \<or> c = DQUOTE then [BACKSLASH, c]
      else if c = CHR 0x0A then [BACKSLASH, CHR ''n'']
      else if c = CHR 0x0D then [BACKSLASH, CHR ''r'']
      else if c = CHR 0x09 then [BACKSLASH, CHR ''t'']
      else if c = CHR 0x07 then [BACKSLASH, CHR ''a'']
      else if c = CHR 0x08 then [BACKSLASH, CHR ''b'']
      else if isprint c then [c] else out_hex c)"

definition repr :: "byte list \<Rightarrow> byte list" where
  "repr x = [DQUOTE] @ concat (map repr_char x) @ [DQUOTE]"

lemma hexdig_facts:
  assumes "n < 16"
  shows "is_hex_digit (hexdig n) \<and> hex_digit_to_int (hexdig n) = n \<and> hexdig n \<noteq> NUL"
proof -
  let ?d = "''0123456789abcdef''"
  have "map hexdig [0..<16] = ?d" by code_simp
  then have "hexdig n = ?d ! n" using assms by (metis add_0 diff_zero length_upt nth_map nth_upt)
  moreover have "\<forall>c\<in>set ?d. is_hex_digit c \<and> c \<noteq> NUL"
    by (simp add: is_hex_digit_def uchar_def)
  moreover have "hex_digit_to_int (?d ! n) = n"
  proof -
    have "map hex_digit_to_int ?d = [0..<16]" by (simp add: hex_digit_to_int_def upt_conv_Cons)
    then have "map hex_digit_to_int ?d ! n = [0..<16] ! n" by simp
    then show ?thesis using assms by (simp add: nth_map del: list.map)
  qed
  moreover have "?d ! n \<in> set ?d" using assms by (intro nth_mem) simp
  ultimately show ?thesis by metis
qed

lemma repr_char_no_NUL: "NUL \<notin> set (repr_char c)"
proof -
  have "hexdig (uchar c div 16) \<noteq> NUL" "hexdig (uchar c mod 16) \<noteq> NUL"
    using hexdig_facts [of "uchar c div 16"] hexdig_facts [of "uchar c mod 16"] uchar_less [of c] by auto
  moreover have "isprint NUL = False" by (simp add: isprint_def uchar_def)
  ultimately show ?thesis by (auto simp: repr_char_def out_hex_def)
qed

lemma repr_no_NUL: "NUL \<notin> set (repr x)"
  using repr_char_no_NUL by (auto simp: repr_def)

lemma repr_char_length: "1 \<le> length (repr_char c) \<and> length (repr_char c) \<le> 4"
  by (simp add: repr_char_def out_hex_def)

lemma append_sdscatprintf:
  assumes "allocator_ok a" "\<And>n. a n \<noteq> None" "sds_ok s" "sds_fits s (length out + k)" "NUL \<notin> set out"
    and "2 \<le> length sb"
  shows "\<exists>s'. sdscatprintf a sb s fmt out = Some s' \<and> sds_ok s' \<and> sds_str s' = sds_str s @ out \<and> sds_fits s' k"
proof -
  obtain s' where s': "sdscatvprintf a sb s fmt out = Some s'"
    using sdscatvprintf_succeeds [of a, OF assms(2)] by blast
  have c: "strlen out = length out" "cstr out = out" using assms(5) by (simp_all add: strlen_def)
  have "sds_fits s (strlen out)" using assms(4) unfolding c by (rule sds_fits_mono) simp
  from sdscatvprintf_Some [OF assms(1,3) this assms(6) s']
  have "sds_ok s' \<and> sds_str s' = sds_str s @ out" using c by simp
  moreover have "sds_fits s' k"
    using calculation sds_str_length [of s] sds_str_length [of s'] assms(3,4)
    by (simp add: sds_fits_def sdslen_def)
  ultimately show ?thesis using s' by (auto simp: sdscatprintf_def)
qed

lemma sdscatrepr_char_eq:
  "(\<exists>y. repr_char c = [BACKSLASH, y] \<and> sdscatrepr_char a sb s c = sdscatlen a s [BACKSLASH, y] 2)
    \<or> (\<exists>f. sdscatrepr_char a sb s c = sdscatprintf a sb s f (repr_char c))"
proof (cases "c \<in> {CHR 0x0A, CHR 0x0D, CHR 0x09, CHR 0x07, CHR 0x08}")
  case True
  then have "\<exists>y. repr_char c = [BACKSLASH, y] \<and> sdscatrepr_char a sb s c = sdscatlen a s [BACKSLASH, y] 2"
    by (elim insertE emptyE) (simp_all add: repr_char_def sdscatrepr_char_def)
  then show ?thesis by (rule disjI1)
next
  case False
  then have "sdscatrepr_char a sb s c = sdscatprintf a sb s
      (if c = BACKSLASH \<or> c = DQUOTE then BACKSLASH # ''%c'' else if isprint c then ''%c'' else BACKSLASH # ''x%02x'')
      (repr_char c)"
    by (simp add: repr_char_def sdscatrepr_char_def out_escaped_def)
  then show ?thesis by blast
qed

lemma sdscatrepr_char_str:
  assumes "allocator_ok a" "\<And>n. a n \<noteq> None" "sds_ok s" "sds_fits s (length (repr_char c) + k)" "2 \<le> length sb"
  shows "\<exists>s'. sdscatrepr_char a sb s c = Some s' \<and> sds_ok s' \<and> sds_str s' = sds_str s @ repr_char c \<and> sds_fits s' k"
proof -
  note lit = append_c_string [OF assms(1,2,3), where k = k]
  note fmt = append_sdscatprintf [OF assms(1,2,3), where k = k and sb = sb]
  have esc: "\<exists>s'. sdscatlen a s [BACKSLASH, x] 2 = Some s' \<and> sds_ok s' \<and> sds_str s' = sds_str s @ [BACKSLASH, x] \<and> sds_fits s' k"
    if "repr_char c = [BACKSLASH, x]" for x
    using lit [of "[BACKSLASH, x]"] assms(4) that by (simp add: numeral_2_eq_2)
  have out: "\<exists>s'. sdscatprintf a sb s f (repr_char c) = Some s' \<and> sds_ok s' \<and> sds_str s' = sds_str s @ repr_char c \<and> sds_fits s' k" for f
    using fmt [of "repr_char c" f] assms(4,5) repr_char_no_NUL by simp
  show ?thesis
    using esc out sdscatrepr_char_eq [of c a sb s] by metis
qed

lemma sdscatrepr_loop_str:
  assumes "allocator_ok a" "\<And>n. a n \<noteq> None" "2 \<le> length sb"
  shows "\<lbrakk> sds_ok s; sds_fits s (length (concat (map repr_char x)) + k) \<rbrakk> \<Longrightarrow>
    \<exists>s'. sdscatrepr_loop a sb s x = Some s' \<and> sds_ok s' \<and> sds_str s' = sds_str s @ concat (map repr_char x)
      \<and> sds_fits s' k"
proof (induction x arbitrary: s)
  case Nil
  then show ?case by simp
next
  case (Cons c x)
  have "sds_fits s (length (repr_char c) + (length (concat (map repr_char x)) + k))"
    using Cons.prems(2) by (simp add: add.assoc)
  from sdscatrepr_char_str [OF assms(1,2) Cons.prems(1) this assms(3)] obtain s1 where
    s1: "sdscatrepr_char a sb s c = Some s1" "sds_ok s1" "sds_str s1 = sds_str s @ repr_char c"
      "sds_fits s1 (length (concat (map repr_char x)) + k)" by blast
  from Cons.IH [OF s1(2,4)] s1 show ?case by auto
qed

text \<open>\<^verbatim>\<open>sdscatrepr\<close> appends the quoted representation of any bytes, which never contains a NUL.\<close>

theorem sdscatrepr_appends:
  assumes "allocator_ok a" "\<forall>n. a n \<noteq> None" "2 \<le> length sb" "sds_ok s" "sds_fits s (length (repr x))"
  shows "\<exists>s'. sdscatrepr a sb s x (length x) = Some s' \<and> sds_ok s' \<and> sds_str s' = sds_str s @ repr x
    \<and> NUL \<notin> set (repr x)"
proof -
  have a: "\<And>n. a n \<noteq> None" using assms(2) by blast
  let ?mid = "concat (map repr_char x)"
  have "sds_fits s (length [DQUOTE] + (length ?mid + length [DQUOTE]))"
    using assms(5) by (simp add: repr_def)
  from append_c_string [OF assms(1) a assms(4) this] obtain s1 where
    s1: "sdscatlen a s [DQUOTE] 1 = Some s1" "sds_ok s1" "sds_str s1 = sds_str s @ [DQUOTE]"
      "sds_fits s1 (length ?mid + length [DQUOTE])" by auto
  from sdscatrepr_loop_str [OF assms(1) a assms(3) s1(2,4)] obtain s2 where
    s2: "sdscatrepr_loop a sb s1 x = Some s2" "sds_ok s2" "sds_str s2 = sds_str s1 @ ?mid"
      "sds_fits s2 (length [DQUOTE])" by blast
  have "sds_fits s2 (length [DQUOTE] + 0)" using s2(4) by simp
  from append_c_string [OF assms(1) a s2(2) this] obtain s3 where
    s3: "sdscatlen a s2 [DQUOTE] 1 = Some s3" "sds_ok s3" "sds_str s3 = sds_str s2 @ [DQUOTE]" by auto
  show ?thesis
    using s1 s2 s3 repr_no_NUL by (simp add: sdscatrepr_def repr_def)
qed

theorem sdscatrepr_appends_witness:
  "\<exists>a s'. sdscatrepr a (replicate 1024 NUL) \<lparr>sh_len = 0, sh_free = 0, sh_buf = [NUL]\<rparr> [CHR ''f'', LF, NUL] 3
     = Some s' \<and> sds_str s' = [DQUOTE, CHR ''f''] @ [BACKSLASH, CHR ''n''] @ [BACKSLASH] @ ''x00'' @ [DQUOTE]"
proof -
  let ?a = "\<lambda>n. Some (replicate n NUL) :: byte list option"
  let ?s = "\<lparr>sh_len = 0, sh_free = 0, sh_buf = [NUL]\<rparr>"
  have r: "repr [CHR ''f'', LF, NUL] = [DQUOTE, CHR ''f''] @ [BACKSLASH, CHR ''n''] @ [BACKSLASH] @ ''x00'' @ [DQUOTE]"
    by code_simp
  have a: "allocator_ok ?a" "\<forall>n. ?a n \<noteq> None" "2 \<le> length (replicate 1024 NUL)"
    by (simp_all add: allocator_ok_def)
  have ok: "sds_ok ?s" "sds_fits ?s (length (repr [CHR ''f'', LF, NUL]))"
    by (simp_all add: sds_ok_def sds_shape_def sds_fits_def SDS_MAX_PREALLOC_def r)
  have "sds_str ?s = []" by (simp add: sds_str_def)
  then show ?thesis using sdscatrepr_appends [OF a ok] unfolding r by (auto simp: numeral_3_eq_3)
qed

lemma repr_char_cases:
  "(\<exists>y. repr_char c = [BACKSLASH, y] \<and> unescape y = c \<and> y \<noteq> CHR ''x'' \<and> y \<noteq> NUL)
    \<or> (repr_char c = [c] \<and> c \<noteq> BACKSLASH \<and> c \<noteq> DQUOTE \<and> c \<noteq> NUL) \<or> repr_char c = out_hex c"
proof -
  have "isprint NUL = False" by (simp add: isprint_def uchar_def)
  then show ?thesis by (auto simp: repr_char_def unescape_def)
qed

lemma split_token_quoted:
  assumes "allocator_ok a" "\<And>n. a n \<noteq> None" and rest: "rest = [] \<or> isspace (hd rest)"
  shows "\<lbrakk> sds_ok cur; sds_fits cur (length x) \<rbrakk> \<Longrightarrow>
    \<exists>cur'. split_token a InQ cur (concat (map repr_char x) @ DQUOTE # rest) = Args (cur', rest)
      \<and> sds_ok cur' \<and> sds_str cur' = sds_str cur @ x"
proof (induction x arbitrary: cur)
  case Nil
  have "peek (DQUOTE # rest) 1 = NUL \<or> isspace (peek (DQUOTE # rest) 1)"
    using rest by (cases rest) (auto simp: peek_def)
  then show ?case using Nil by (subst split_token.simps) (auto simp: peek_def)
next
  case (Cons c x)
  let ?tail = "concat (map repr_char x) @ DQUOTE # rest"
  have "sds_fits cur (length [c] + length x)" using Cons.prems(2) by simp
  from append_c_string [OF assms(1,2) Cons.prems(1) this] obtain s1 where
    s1: "sdscatlen a cur [c] 1 = Some s1" "sds_ok s1" "sds_str s1 = sds_str cur @ [c]" "sds_fits s1 (length x)"
    by auto
  have "split_token a InQ cur (repr_char c @ ?tail) = split_token a InQ s1 ?tail"
  proof -
    consider (esc) y where "repr_char c = [BACKSLASH, y]" "unescape y = c" "y \<noteq> CHR ''x''" "y \<noteq> NUL"
      | (plain) "repr_char c = [c]" "c \<noteq> BACKSLASH" "c \<noteq> DQUOTE" "c \<noteq> NUL"
      | (hex) "repr_char c = out_hex c"
      using repr_char_cases [of c] by blast
    then show ?thesis
    proof cases
      case esc
      then show ?thesis using s1(1) by (subst split_token.simps) (simp add: peek_def)
    next
      case plain
      then show ?thesis using s1(1) by (subst split_token.simps) (simp add: peek_def)
    next
      case hex
      have h: "uchar c div 16 < 16" "uchar c mod 16 < 16" using uchar_less [of c] by auto
      have "char_of (uchar c div 16 * 16 + uchar c mod 16) = c" by simp
      then show ?thesis
        using s1(1) hexdig_facts [OF h(1)] hexdig_facts [OF h(2)]
        by (subst split_token.simps) (simp add: hex out_hex_def peek_def)
    qed
  qed
  with Cons.IH [OF s1(2,4)] s1(3) show ?case by simp
qed

text \<open>A line of quoted strings, separated by single spaces.\<close>

definition quoted_line :: "byte list list \<Rightarrow> byte list" where
  "quoted_line xs = join_bytes '' '' (map repr xs)"

lemma quoted_line_Cons: "quoted_line (x # xs) = repr x @ (if xs = [] then [] else CHR '' '' # quoted_line xs)"
  by (cases xs) (simp_all add: quoted_line_def)

lemma not_space_DQUOTE: "\<not> isspace DQUOTE"
  by (simp add: isspace_def uchar_def)

lemma skip_blanks_quoted:
  "skip_blanks (repr x @ r) = repr x @ r" "skip_blanks (CHR '' '' # repr x @ r) = repr x @ r"
  using not_space_DQUOTE by (simp_all add: skip_blanks_def repr_def isspace_def uchar_def)

lemma split_args_loop_quoted:
  assumes "allocator_ok a" "\<And>n. a n \<noteq> None"
  shows "\<lbrakk> \<forall>x\<in>set xs. length x + SDS_MAX_PREALLOC < 2 ^ 32; p = quoted_line xs \<or> xs \<noteq> [] \<and> p = CHR '' '' # quoted_line xs \<rbrakk> \<Longrightarrow>
    \<exists>ts. split_args_loop a vec p = Args (vec @ ts) \<and> map sds_str ts = xs"
proof (induction xs arbitrary: vec p)
  case Nil
  then show ?case by (subst split_args_loop.simps) (simp add: quoted_line_def skip_blanks_def)
next
  case (Cons x xs)
  let ?rest = "if xs = [] then [] else CHR '' '' # quoted_line xs"
  have p: "skip_blanks p = repr x @ ?rest"
    using Cons.prems(2) skip_blanks_quoted [of x ?rest] skip_blanks_quoted [of x "[]"]
    unfolding quoted_line_Cons by (auto split: if_splits)
  obtain s0 where s0: "sdsempty a = Some s0"
    using sdsnewlen_succeeds [of a "Some []" 0] assms(2) unfolding sdsempty_def by blast
  have ok0: "sds_ok s0" "sds_str s0 = []" "sds_fits s0 (length x)"
    using sdsempty_Some [OF assms(1) s0] Cons.prems(1) by (simp_all add: sds_fits_def)
  have "?rest = [] \<or> isspace (hd ?rest)" by (simp add: isspace_def uchar_def)
  from split_token_quoted [OF assms this ok0(1,3)] obtain t where
    t: "split_token a InQ s0 (concat (map repr_char x) @ DQUOTE # ?rest) = Args (t, ?rest)" "sds_str t = x"
    using ok0(2) by auto
  have tok: "split_token a Plain s0 (repr x @ ?rest) = Args (t, ?rest)"
    using t(1) by (subst split_token.simps) (simp add: repr_def peek_def)
  have "\<exists>ts. split_args_loop a (vec @ [t]) ?rest = Args ((vec @ [t]) @ ts) \<and> map sds_str ts = xs"
    using Cons.prems(1) by (intro Cons.IH) (auto simp: quoted_line_def)
  then obtain ts where ts: "split_args_loop a (vec @ [t]) ?rest = Args (vec @ t # ts)" "map sds_str ts = xs"
    by auto
  have "repr x @ ?rest \<noteq> []" "length ?rest < length (repr x @ ?rest)" by (simp_all add: repr_def)
  then have "split_args_loop a vec p = split_args_loop a (vec @ [t]) ?rest"
    using p s0 tok by (subst split_args_loop.simps) (simp add: Let_def)
  then show ?case using ts t(2) by (intro exI [of _ "t # ts"]) simp
qed

text \<open>
  A line as a caller builds it with the functions of the library: every string quoted by \<^verbatim>\<open>sdscatrepr\<close>, a blank
  between two of them.
\<close>

fun quote_args :: "allocator \<Rightarrow> byte list \<Rightarrow> sds \<Rightarrow> byte list list \<Rightarrow> sds option" where
  "quote_args a sb s [] = Some s"
| "quote_args a sb s (x # xs) =
     do { s \<leftarrow> sdscatrepr a sb s x (length x);
          s \<leftarrow> (if xs = [] then Some s else sdscatlen a s '' '' 1);
          quote_args a sb s xs }"

lemma length_concat_repr: "length (concat (map repr_char x)) \<le> 4 * length x"
proof (induction x)
  case (Cons c x)
  then show ?case using repr_char_length [of c] by simp
qed simp

lemma repr_length: "length (repr x) \<le> 4 * length x + 2"
  using length_concat_repr [of x] by (simp add: repr_def)

lemma quoted_line_length: "length (quoted_line xs) \<le> (\<Sum>x\<leftarrow>xs. 4 * length x + 3)"
proof (induction xs)
  case (Cons x xs)
  then show ?case using repr_length [of x] by (simp add: quoted_line_Cons)
qed (simp add: quoted_line_def)

lemma quoted_line_no_NUL: "NUL \<notin> set (quoted_line xs)"
  by (induction xs) (simp add: quoted_line_def, simp add: quoted_line_Cons repr_no_NUL)

lemma sds_fits_after:
  assumes "sds_ok s" "sds_ok s'" "sds_str s' = sds_str s @ t" "sds_fits s (length t + k)"
  shows "sds_fits s' k"
  using assms sds_str_length [of s] sds_str_length [of s'] by (simp add: sds_fits_def sdslen_def)

lemma quote_args_line:
  assumes "allocator_ok a" "\<forall>n. a n \<noteq> None" "2 \<le> length sb"
  shows "\<lbrakk> sds_ok s; sds_fits s (length (quoted_line xs)) \<rbrakk> \<Longrightarrow>
    \<exists>s'. quote_args a sb s xs = Some s' \<and> sds_ok s' \<and> sds_str s' = sds_str s @ quoted_line xs"
proof (induction xs arbitrary: s)
  case Nil
  then show ?case by (simp add: quoted_line_def)
next
  case (Cons x xs)
  let ?rest = "if xs = [] then [] else CHR '' '' # quoted_line xs"
  have fits: "sds_fits s (length (repr x) + length ?rest)" using Cons.prems(2) by (simp add: quoted_line_Cons)
  then have "sds_fits s (length (repr x))" by (rule sds_fits_mono) simp
  from sdscatrepr_appends [OF assms Cons.prems(1) this] obtain s1 where
    s1: "sdscatrepr a sb s x (length x) = Some s1" "sds_ok s1" "sds_str s1 = sds_str s @ repr x" by blast
  have fits1: "sds_fits s1 (length ?rest)" by (rule sds_fits_after [OF Cons.prems(1) s1(2,3) fits])
  show ?case
  proof (cases "xs = []")
    case True
    then show ?thesis using s1 by (simp add: quoted_line_Cons)
  next
    case False
    then have "sds_fits s1 (length '' '' + length (quoted_line xs))" using fits1 by simp
    from append_c_string [OF assms(1) _ s1(2) this] assms(2) obtain s2 where
      s2: "sdscatlen a s1 '' '' 1 = Some s2" "sds_ok s2" "sds_str s2 = sds_str s1 @ '' ''"
        "sds_fits s2 (length (quoted_line xs))" by auto
    from Cons.IH [OF s2(2,4)] s1 s2 False show ?thesis by (auto simp: quoted_line_Cons)
  qed
qed

lemma cstr_of_sds:
  assumes "sds_ok s" "NUL \<notin> set (sds_str s)"
  shows "cstr (sh_buf s) = sds_str s"
proof -
  have h: "sh_buf s = sds_str s @ NUL # drop (Suc (sh_len s)) (sh_buf s)"
    using assms(1) id_take_nth_drop [of "sh_len s" "sh_buf s"]
    unfolding sds_ok_def sds_shape_def sds_str_def by simp
  have "cstr (sds_str s) = sds_str s" using assms(2) by (rule cstr_id)
  then show ?thesis by (subst h) (simp only: cstr_append_NUL)
qed

text \<open>C5. \<^verbatim>\<open>sdssplitargs\<close> is the inverse of \<^verbatim>\<open>sdscatrepr\<close>: any strings, NUL and control bytes included,
  appended to an empty string by calls of \<^verbatim>\<open>sdscatrepr\<close> with a blank between two of them, come back as they were
  and in order when the buffer of the result is handed to \<^verbatim>\<open>sdssplitargs\<close>. Allocations succeed, and the quoted
  line, at most four bytes for a byte, fits the 32-bit length of the string.\<close>

theorem sdssplitargs_sdscatrepr:
  assumes "allocator_ok a" "\<forall>n. a n \<noteq> None" "2 \<le> length sb"
    and "(\<Sum>x\<leftarrow>xs. 4 * length x + 3) + SDS_MAX_PREALLOC < 2 ^ 32"
  shows "\<exists>s line ts. sdsempty a = Some s \<and> quote_args a sb s xs = Some line
    \<and> sdssplitargs a (sh_buf line) = Args ts \<and> map sds_str ts = xs"
proof -
  obtain s where s: "sdsempty a = Some s"
    using sdsnewlen_succeeds [of a "Some []" 0] assms(2) unfolding sdsempty_def by blast
  have "sds_ok s" "sds_str s = []" "sds_fits s (length (quoted_line xs))"
    using sdsempty_Some [OF assms(1) s] assms(4) quoted_line_length [of xs] by (simp_all add: sds_fits_def)
  from quote_args_line [OF assms(1,2,3) this(1,3)] this(2) obtain line where
    line: "quote_args a sb s xs = Some line" "sds_ok line" "sds_str line = quoted_line xs" by auto
  have "cstr (sh_buf line) = quoted_line xs"
    using cstr_of_sds [OF line(2)] line(3) quoted_line_no_NUL [of xs] by simp
  moreover have "\<forall>x\<in>set xs. length x + SDS_MAX_PREALLOC < 2 ^ 32"
    using assms(4) member_le_sum_list [of _ "map (\<lambda>x. 4 * length x + 3) xs"] by fastforce
  ultimately have "\<exists>ts. sdssplitargs a (sh_buf line) = Args ts \<and> map sds_str ts = xs"
    using split_args_loop_quoted [of a xs "quoted_line xs" "[]"] assms(1,2) by (simp add: sdssplitargs_def)
  with s line(1) show ?thesis by blast
qed

theorem sdssplitargs_sdscatrepr_witness:
  "\<exists>a s line ts. sdsempty a = Some s
     \<and> quote_args a (replicate 1024 NUL) s [''a b'', [NUL, LF, DQUOTE]] = Some line
     \<and> sdssplitargs a (sh_buf line) = Args ts \<and> map sds_str ts = [''a b'', [NUL, LF, DQUOTE]]"
proof -
  let ?a = "\<lambda>n. Some (replicate n NUL) :: byte list option"
  have a: "allocator_ok ?a" "\<forall>n. ?a n \<noteq> None" by (simp_all add: allocator_ok_def)
  have b: "2 \<le> length (replicate 1024 NUL)" by simp
  have "(\<Sum>x\<leftarrow>[''a b'', [NUL, LF, DQUOTE]]. 4 * length x + 3) + SDS_MAX_PREALLOC < 2 ^ 32"
    by (simp add: SDS_MAX_PREALLOC_def)
  from sdssplitargs_sdscatrepr [OF a b this] show ?thesis by (rule exI [of _ ?a])
qed

end
