(* ===== verification/RespReader.thy ===== *)
theory RespReader
  imports SdsEdit
begin

text \<open>
  The protocol reader of \<^verbatim>\<open>redisClient/dep/hiredis/hiredis.c\<close>. The reply objects live in a store: an
  address is an index, creating an object appends it, and the array objects are filled in place
  through the addresses their tasks hold, as in the code. The stack of tasks is the array
  \<^verbatim>\<open>rstack[9]\<close>; a task's \<^verbatim>\<open>parent\<close> is an index of it. The table of object functions is the default one.
  \<open>None\<close> is a run the code does not define: a failed \<^verbatim>\<open>assert\<close>, a store through a NULL array or
  outside of it. \<open>oom n\<close> tells that the \<open>n\<close>-th object cannot be created.
\<close>

section \<open>Data\<close>

definition REDIS_ERR :: int where "REDIS_ERR = - 1"
definition REDIS_OK :: int where "REDIS_OK = 0"

definition REDIS_ERR_IO :: int where "REDIS_ERR_IO = 1"
definition REDIS_ERR_EOF :: int where "REDIS_ERR_EOF = 3"
definition REDIS_ERR_PROTOCOL :: int where "REDIS_ERR_PROTOCOL = 4"
definition REDIS_ERR_OOM :: int where "REDIS_ERR_OOM = 5"
definition REDIS_ERR_OTHER :: int where "REDIS_ERR_OTHER = 2"

definition REDIS_REPLY_STRING :: int where "REDIS_REPLY_STRING = 1"
definition REDIS_REPLY_ARRAY :: int where "REDIS_REPLY_ARRAY = 2"
definition REDIS_REPLY_INTEGER :: int where "REDIS_REPLY_INTEGER = 3"
definition REDIS_REPLY_NIL :: int where "REDIS_REPLY_NIL = 4"
definition REDIS_REPLY_STATUS :: int where "REDIS_REPLY_STATUS = 5"
definition REDIS_REPLY_ERROR :: int where "REDIS_REPLY_ERROR = 6"

definition REDIS_READER_MAX_BUF :: nat where "REDIS_READER_MAX_BUF = 1024 * 16"

lemmas reply_types = REDIS_REPLY_STRING_def REDIS_REPLY_ARRAY_def REDIS_REPLY_INTEGER_def
  REDIS_REPLY_NIL_def REDIS_REPLY_STATUS_def REDIS_REPLY_ERROR_def

lemmas status_codes = REDIS_ERR_def REDIS_OK_def

record redis_reply =
  r_type :: int
  r_integer :: int
  r_len :: int
  r_str :: "byte list option"
  r_elements :: nat
  r_element :: "nat option list option"

type_synonym reply_store = "redis_reply list"

record read_task =
  t_type :: int
  t_elements :: int
  t_idx :: int
  t_obj :: "nat option"
  t_parent :: "nat option"

record reader =
  rd_err :: int
  rd_errstr :: "byte list"
  rd_buf :: "sds option"
  rd_pos :: nat
  rd_len :: nat
  rd_maxbuf :: nat
  rd_stack :: "read_task list"
  rd_ridx :: int
  rd_reply :: "nat option"
  rd_store :: reply_store

section \<open>Reply objects\<close>

definition createReplyObject :: "int \<Rightarrow> redis_reply" where
  "createReplyObject type =
     \<lparr>r_type = type, r_integer = 0, r_len = 0, r_str = None, r_elements = 0, r_element = None\<rparr>"

text \<open>
  \<^verbatim>\<open>parent->element[task->idx] = r\<close>, for the task at \<open>cur\<close> of the stack; the address of the new object.
\<close>

definition link_parent :: "read_task list \<Rightarrow> nat \<Rightarrow> reply_store \<Rightarrow> nat \<Rightarrow> reply_store option" where
  "link_parent stack cur h a =
     (case t_parent (stack ! cur) of
        None \<Rightarrow> Some h
      | Some p \<Rightarrow>
          (case t_obj (stack ! p) of
             None \<Rightarrow> None
           | Some pa \<Rightarrow>
               (if \<not> pa < length h \<or> r_type (h ! pa) \<noteq> REDIS_REPLY_ARRAY then None
                else case r_element (h ! pa) of
                  None \<Rightarrow> None
                | Some es \<Rightarrow>
                    (let i = t_idx (stack ! cur) in
                     if i < 0 \<or> int (length es) \<le> i then None
                     else Some (h[pa := (h ! pa)\<lparr>r_element := Some (es[nat i := Some a])\<rparr>])))))"

definition create_object :: "read_task list \<Rightarrow> nat \<Rightarrow> reply_store \<Rightarrow> redis_reply \<Rightarrow> (nat \<times> reply_store) option" where
  "create_object stack cur h obj =
     map_option (Pair (length h)) (link_parent stack cur (h @ [obj]) (length h))"

definition createStringObject :: "read_task list \<Rightarrow> nat \<Rightarrow> reply_store \<Rightarrow> byte list \<Rightarrow> nat \<Rightarrow> (nat \<times> reply_store) option" where
  "createStringObject stack cur h str len =
     (let type = t_type (stack ! cur) in
      if type \<noteq> REDIS_REPLY_ERROR \<and> type \<noteq> REDIS_REPLY_STATUS \<and> type \<noteq> REDIS_REPLY_STRING then None
      else create_object stack cur h
             ((createReplyObject type)\<lparr>r_str := Some (take len str @ [NUL]), r_len := c_int (int len)\<rparr>))"

definition createArrayObject :: "read_task list \<Rightarrow> nat \<Rightarrow> reply_store \<Rightarrow> int \<Rightarrow> (nat \<times> reply_store) option" where
  "createArrayObject stack cur h elements =
     create_object stack cur h
       ((createReplyObject REDIS_REPLY_ARRAY)
          \<lparr>r_element := (if elements > 0 then Some (replicate (nat elements) None) else None),
           r_elements := nat (elements mod 2 ^ 64)\<rparr>)"

definition createIntegerObject :: "read_task list \<Rightarrow> nat \<Rightarrow> reply_store \<Rightarrow> int \<Rightarrow> (nat \<times> reply_store) option" where
  "createIntegerObject stack cur h val =
     create_object stack cur h ((createReplyObject REDIS_REPLY_INTEGER)\<lparr>r_integer := val\<rparr>)"

definition createNilObject :: "read_task list \<Rightarrow> nat \<Rightarrow> reply_store \<Rightarrow> (nat \<times> reply_store) option" where
  "createNilObject stack cur h = create_object stack cur h (createReplyObject REDIS_REPLY_NIL)"

section \<open>Errors\<close>

text \<open>The field \<^verbatim>\<open>errstr[128]\<close> holds at most 127 bytes.\<close>

definition redisReaderSetError :: "reader \<Rightarrow> int \<Rightarrow> byte list \<Rightarrow> reader" where
  "redisReaderSetError r type str =
     r\<lparr>rd_reply := None, rd_buf := None,
       rd_pos := (if rd_buf r = None then rd_pos r else 0),
       rd_len := (if rd_buf r = None then rd_len r else 0),
       rd_ridx := - 1, rd_err := type, rd_errstr := take 127 str\<rparr>"

definition chrtos :: "nat \<Rightarrow> byte \<Rightarrow> byte list" where
  "chrtos n c =
     take (n - 1)
       ([CHR 0x22] @
        (if c = CHR 0x5C \<or> c = CHR 0x22 then [CHR 0x5C, c]
         else if c = CHR 0x0A then [CHR 0x5C, CHR ''n'']
         else if c = CHR 0x0D then [CHR 0x5C, CHR ''r'']
         else if c = CHR 0x09 then [CHR 0x5C, CHR ''t'']
         else if c = CHR 0x07 then [CHR 0x5C, CHR ''a'']
         else if c = CHR 0x08 then [CHR 0x5C, CHR ''b'']
         else if isprint c then [c]
         else [CHR 0x5C, CHR ''x'', hexdig (uchar c div 16), hexdig (uchar c mod 16)])
        @ [CHR 0x22])"

definition redisReaderSetErrorProtocolByte :: "reader \<Rightarrow> byte \<Rightarrow> reader" where
  "redisReaderSetErrorProtocolByte r c =
     redisReaderSetError r REDIS_ERR_PROTOCOL
       (''Protocol error, got '' @ chrtos 8 c @ '' as reply type byte'')"

definition redisReaderSetErrorOOM :: "reader \<Rightarrow> reader" where
  "redisReaderSetErrorOOM r = redisReaderSetError r REDIS_ERR_OOM ''Out of memory''"

section \<open>Reading lines\<close>

text \<open>The unread bytes: \<^verbatim>\<open>r->len - r->pos\<close> of them, at \<^verbatim>\<open>r->buf + r->pos\<close>.\<close>

definition window :: "reader \<Rightarrow> byte list" where
  "window r = (case rd_buf r of None \<Rightarrow> [] | Some b \<Rightarrow> drop (rd_pos r) (take (rd_len r) (sh_buf b)))"

definition readBytes :: "reader \<Rightarrow> nat \<Rightarrow> (byte list \<times> reader) option" where
  "readBytes r bytes =
     (if bytes \<le> rd_len r - rd_pos r then Some (window r, r\<lparr>rd_pos := rd_pos r + bytes\<rparr>) else None)"

text \<open>The inner loop runs to the next carriage return or to \<open>n\<close>.\<close>

function find_cr :: "byte list \<Rightarrow> int \<Rightarrow> nat \<Rightarrow> nat" where
  "find_cr s n pos = (if int pos < n \<and> peek s pos \<noteq> CR then find_cr s n (pos + 1) else pos)"
  by pat_completeness auto
termination by (relation "measure (\<lambda>(s, n, pos). nat (n - int pos))") auto

declare find_cr.simps [simp del]

lemma find_cr_ge: "pos \<le> find_cr s n pos"
proof (induction s n pos rule: find_cr.induct)
  case (1 s n pos)
  then show ?case by (subst find_cr.simps) (auto intro: Suc_leD)
qed

text \<open>The byte behind the last one is the terminator of the buffer.\<close>

function seek_loop :: "byte list \<Rightarrow> int \<Rightarrow> nat \<Rightarrow> nat option" where
  "seek_loop s n pos =
     (if int pos < n
      then let q = find_cr s n pos in
           (if peek s q \<noteq> CR then None
            else if peek s (q + 1) = LF then Some q
            else seek_loop s n (q + 1))
      else None)"
  by pat_completeness auto
termination
proof (relation "measure (\<lambda>(s, n, pos). nat (n - int pos))")
  fix s n pos q assume "int pos < n" "q = find_cr s n pos"
  then show "((s, n, q + 1), (s, n, pos)) \<in> measure (\<lambda>(s, n, pos). nat (n - int pos))"
    using find_cr_ge [of pos s n] by (simp del: of_nat_Suc)
qed simp

declare seek_loop.simps [simp del]

definition seekNewline :: "byte list \<Rightarrow> nat \<Rightarrow> nat option" where
  "seekNewline s len = seek_loop s (c_int (int len - 1)) 0"
text \<open>The accumulation wraps at 64 bits. A line always ends in a carriage return.\<close>

fun read_digits :: "int \<Rightarrow> byte list \<Rightarrow> int option" where
  "read_digits v [] = None"
| "read_digits v (c # s) =
     (if c = CR then Some v
      else let dec = schar c - 48 in
           if 0 \<le> dec \<and> dec < 10 then read_digits (c_llong (c_llong (v * 10) + dec)) s else None)"

definition readLongLong :: "byte list \<Rightarrow> int" where
  "readLongLong s =
     (let mult = (if peek s 0 = CHR ''-'' then - 1 else 1);
          s' = (if peek s 0 = CHR ''-'' \<or> peek s 0 = CHR ''+'' then drop 1 s else s)
      in case read_digits 0 s' of None \<Rightarrow> - 1 | Some v \<Rightarrow> c_llong (mult * v))"

text \<open>The bytes at the line's start, its length, and the reader behind its \<^verbatim>\<open>\r\n\<close>.\<close>

definition readLine :: "reader \<Rightarrow> (byte list \<times> nat \<times> reader) option" where
  "readLine r =
     (let p = window r in
      case seekNewline p (rd_len r - rd_pos r) of
        None \<Rightarrow> None
      | Some len \<Rightarrow> Some (p, len, r\<lparr>rd_pos := rd_pos r + (len + 2)\<rparr>))"

section \<open>Tasks\<close>

definition task_at :: "reader \<Rightarrow> int \<Rightarrow> read_task" where
  "task_at r i = rd_stack r ! nat i"

definition cur_task :: "reader \<Rightarrow> read_task" where
  "cur_task r = task_at r (rd_ridx r)"

definition upd_task :: "reader \<Rightarrow> nat \<Rightarrow> (read_task \<Rightarrow> read_task) \<Rightarrow> reader" where
  "upd_task r i f = r\<lparr>rd_stack := (rd_stack r)[i := f (rd_stack r ! i)]\<rparr>"

function moveToNextTask :: "reader \<Rightarrow> reader option" where
  "moveToNextTask r =
     (if rd_ridx r < 0 then Some r
      else if rd_ridx r = 0 then Some (r\<lparr>rd_ridx := - 1\<rparr>)
      else
        let cur = task_at r (rd_ridx r); prv = task_at r (rd_ridx r - 1) in
        if t_type prv \<noteq> REDIS_REPLY_ARRAY then None
        else if t_idx cur = t_elements prv - 1 then moveToNextTask (r\<lparr>rd_ridx := rd_ridx r - 1\<rparr>)
        else if \<not> t_idx cur < t_elements prv then None
        else Some (upd_task r (nat (rd_ridx r))
               (\<lambda>t. t\<lparr>t_type := - 1, t_elements := - 1, t_idx := t_idx t + 1\<rparr>)))"
  by pat_completeness auto
termination by (relation "measure (\<lambda>r. nat (rd_ridx r))") auto

declare moveToNextTask.simps [simp del]

text \<open>
  The common end of a created object: \<open>created\<close> is the result of the object function, \<open>None\<close> for NULL;
  the reader gets the new store, the root reply when the task is the root, and the next task.
\<close>

definition finish_item :: "reader \<Rightarrow> nat \<times> reply_store \<Rightarrow> (int \<times> reader) option" where
  "finish_item r created =
     (let r = r\<lparr>rd_store := snd created, rd_reply := (if rd_ridx r = 0 then Some (fst created) else rd_reply r)\<rparr>
      in map_option (Pair REDIS_OK) (moveToNextTask r))"

section \<open>Items\<close>

definition processLineItem :: "(nat \<Rightarrow> bool) \<Rightarrow> reader \<Rightarrow> (int \<times> reader) option" where
  "processLineItem oom r =
     (case readLine r of
        None \<Rightarrow> Some (REDIS_ERR, r)
      | Some (p, len, r') \<Rightarrow>
          (if oom (length (rd_store r)) then Some (REDIS_ERR, redisReaderSetErrorOOM r')
           else
             let cur = nat (rd_ridx r) in
             case (if t_type (cur_task r) = REDIS_REPLY_INTEGER
                   then createIntegerObject (rd_stack r) cur (rd_store r) (readLongLong p)
                   else createStringObject (rd_stack r) cur (rd_store r) p len) of
               None \<Rightarrow> None
             | Some created \<Rightarrow> finish_item r' created))"

definition processBulkItem :: "(nat \<Rightarrow> bool) \<Rightarrow> reader \<Rightarrow> (int \<times> reader) option" where
  "processBulkItem oom r =
     (let p = window r; cur = nat (rd_ridx r) in
      case seekNewline p (rd_len r - rd_pos r) of
        None \<Rightarrow> Some (REDIS_ERR, r)
      | Some s \<Rightarrow>
          (let bytelen = s + 2; len = readLongLong p in
           if len < 0 then
             (if oom (length (rd_store r)) then Some (REDIS_ERR, redisReaderSetErrorOOM r)
              else case createNilObject (rd_stack r) cur (rd_store r) of
                     None \<Rightarrow> None
                   | Some created \<Rightarrow> finish_item (r\<lparr>rd_pos := rd_pos r + bytelen\<rparr>) created)
           else
             let bytelen = bytelen + (nat len + 2) in
             if rd_pos r + bytelen \<le> rd_len r then
               (if oom (length (rd_store r)) then Some (REDIS_ERR, redisReaderSetErrorOOM r)
                else case createStringObject (rd_stack r) cur (rd_store r) (drop (s + 2) p) (nat len) of
                       None \<Rightarrow> None
                     | Some created \<Rightarrow> finish_item (r\<lparr>rd_pos := rd_pos r + bytelen\<rparr>) created)
             else Some (REDIS_ERR, r)))"

text \<open>Entering an array: its task gets the object, and the next level a fresh task.\<close>

definition push_task :: "reader \<Rightarrow> int \<Rightarrow> nat \<Rightarrow> reply_store \<Rightarrow> reader" where
  "push_task r elements a h =
     r\<lparr>rd_store := h, rd_ridx := rd_ridx r + 1,
       rd_stack := (rd_stack r)
         [nat (rd_ridx r) := (rd_stack r ! nat (rd_ridx r))\<lparr>t_elements := elements, t_obj := Some a\<rparr>,
          nat (rd_ridx r) + 1 := \<lparr>t_type = - 1, t_elements = - 1, t_idx = 0, t_obj = None,
                      t_parent = Some (nat (rd_ridx r))\<rparr>]\<rparr>"

definition processMultiBulkItem :: "(nat \<Rightarrow> bool) \<Rightarrow> reader \<Rightarrow> (int \<times> reader) option" where
  "processMultiBulkItem oom r =
     (let cur = nat (rd_ridx r); root = (rd_ridx r = 0) in
      if rd_ridx r = 8 then
        Some (REDIS_ERR, redisReaderSetError r REDIS_ERR_PROTOCOL
                ''No support for nested multi bulk replies with depth > 7'')
      else case readLine r of
        None \<Rightarrow> Some (REDIS_ERR, r)
      | Some (p, _, r') \<Rightarrow>
          (let elements = readLongLong p;
               set_root = (\<lambda>a r. if root then r\<lparr>rd_reply := Some a\<rparr> else r) in
           if oom (length (rd_store r)) then Some (REDIS_ERR, redisReaderSetErrorOOM r')
           else if elements = - 1 then
             (case createNilObject (rd_stack r) cur (rd_store r) of
                None \<Rightarrow> None
              | Some (a, h) \<Rightarrow>
                  map_option (\<lambda>r. (REDIS_OK, set_root a r)) (moveToNextTask (r'\<lparr>rd_store := h\<rparr>)))
           else
             (case createArrayObject (rd_stack r) cur (rd_store r) (c_int elements) of
                None \<Rightarrow> None
              | Some (a, h) \<Rightarrow>
                  (if elements > 0 then
                     Some (REDIS_OK, set_root a (push_task r' (c_int elements) a h))
                   else map_option (\<lambda>r. (REDIS_OK, set_root a r)) (moveToNextTask (r'\<lparr>rd_store := h\<rparr>))))))"

definition reply_type_of :: "byte \<Rightarrow> int option" where
  "reply_type_of c =
     (if c = CHR ''-'' then Some REDIS_REPLY_ERROR
      else if c = CHR ''+'' then Some REDIS_REPLY_STATUS
      else if c = CHR '':'' then Some REDIS_REPLY_INTEGER
      else if c = CHR ''$'' then Some REDIS_REPLY_STRING
      else if c = CHR ''*'' then Some REDIS_REPLY_ARRAY
      else None)"

definition process_typed :: "(nat \<Rightarrow> bool) \<Rightarrow> reader \<Rightarrow> (int \<times> reader) option" where
  "process_typed oom r =
     (let type = t_type (cur_task r) in
      if type = REDIS_REPLY_ERROR \<or> type = REDIS_REPLY_STATUS \<or> type = REDIS_REPLY_INTEGER
      then processLineItem oom r
      else if type = REDIS_REPLY_STRING then processBulkItem oom r
      else if type = REDIS_REPLY_ARRAY then processMultiBulkItem oom r
      else None)"

definition processItem :: "(nat \<Rightarrow> bool) \<Rightarrow> reader \<Rightarrow> (int \<times> reader) option" where
  "processItem oom r =
     (if t_type (cur_task r) < 0 then
        (case readBytes r 1 of
           None \<Rightarrow> Some (REDIS_ERR, r)
         | Some (p, r') \<Rightarrow>
             (case reply_type_of (peek p 0) of
                None \<Rightarrow> Some (REDIS_ERR, redisReaderSetErrorProtocolByte r' (peek p 0))
              | Some type \<Rightarrow> process_typed oom (upd_task r' (nat (rd_ridx r)) (\<lambda>t. t\<lparr>t_type := type\<rparr>))))
      else process_typed oom r)"

section \<open>The interface of the reader\<close>

definition empty_task :: read_task where
  "empty_task = \<lparr>t_type = 0, t_elements = 0, t_idx = 0, t_obj = None, t_parent = None\<rparr>"

definition redisReaderCreate :: "allocator \<Rightarrow> reader option" where
  "redisReaderCreate a =
     (case sdsempty a of
        None \<Rightarrow> None
      | Some b \<Rightarrow> Some \<lparr>rd_err = 0, rd_errstr = '''', rd_buf = Some b, rd_pos = 0, rd_len = 0,
                        rd_maxbuf = REDIS_READER_MAX_BUF, rd_stack = replicate 9 empty_task,
                        rd_ridx = - 1, rd_reply = None, rd_store = []\<rparr>)"

text \<open>The status and the reader; \<open>None\<close> when the assertion on the replaced buffer fails.\<close>

definition redisReaderFeed :: "allocator \<Rightarrow> reader \<Rightarrow> byte list \<Rightarrow> (int \<times> reader) option" where
  "redisReaderFeed a r bytes =
     (if rd_err r \<noteq> 0 then Some (REDIS_ERR, r)
      else if bytes = [] then Some (REDIS_OK, r)
      else case rd_buf r of
        None \<Rightarrow> None
      | Some b \<Rightarrow>
          (case (if rd_len r = 0 \<and> rd_maxbuf r \<noteq> 0 \<and> sdsavail b > rd_maxbuf r
                 then map_option (\<lambda>b'. r\<lparr>rd_buf := Some b', rd_pos := 0\<rparr>) (sdsempty a)
                 else Some r) of
             None \<Rightarrow> None
           | Some r' \<Rightarrow>
               (case sdscatlen a (the (rd_buf r')) bytes (length bytes) of
                  None \<Rightarrow> Some (REDIS_ERR, redisReaderSetErrorOOM r')
                | Some b' \<Rightarrow> Some (REDIS_OK, r'\<lparr>rd_buf := Some b', rd_len := sdslen b'\<rparr>))))"

text \<open>
  The loop over the items. Every item that succeeds takes bytes of the window, which the third
  test states; lemma \<open>processItem_progress\<close> shows that it never fails.
\<close>

function process_items :: "(nat \<Rightarrow> bool) \<Rightarrow> reader \<Rightarrow> reader option" where
  "process_items oom r =
     (if rd_ridx r < 0 then Some r
      else case processItem oom r of
        None \<Rightarrow> None
      | Some (st, r') \<Rightarrow>
          (if st \<noteq> REDIS_OK then Some r'
           else if length (window r') < length (window r) then process_items oom r'
           else None))"
  by pat_completeness auto
termination by (relation "measure (\<lambda>(oom, r). length (window r))") auto

declare process_items.simps [simp del]

definition first_task :: read_task where
  "first_task = \<lparr>t_type = - 1, t_elements = - 1, t_idx = - 1, t_obj = None, t_parent = None\<rparr>"

definition start_stack :: "reader \<Rightarrow> reader" where
  "start_stack r =
     (if rd_ridx r = - 1 then r\<lparr>rd_stack := (rd_stack r)[0 := first_task], rd_ridx := 0\<rparr> else r)"

definition compact_buffer :: "reader \<Rightarrow> reader option" where
  "compact_buffer r =
     (if rd_pos r \<ge> 1024
      then (case rd_buf r of
              None \<Rightarrow> None
            | Some b \<Rightarrow>
                (let b' = sdsrange b (c_int (int (rd_pos r))) (- 1)
                 in Some (r\<lparr>rd_buf := Some b', rd_pos := 0, rd_len := sdslen b'\<rparr>)))
      else Some r)"

definition redisReaderGetReply :: "(nat \<Rightarrow> bool) \<Rightarrow> reader \<Rightarrow> (int \<times> nat option \<times> reader) option" where
  "redisReaderGetReply oom r =
     (if rd_err r \<noteq> 0 then Some (REDIS_ERR, None, r)
      else if rd_len r = 0 then Some (REDIS_OK, None, r)
      else case process_items oom (start_stack r) of
        None \<Rightarrow> None
      | Some r \<Rightarrow>
          (if rd_err r \<noteq> 0 then Some (REDIS_ERR, None, r)
           else case compact_buffer r of
             None \<Rightarrow> None
           | Some r \<Rightarrow>
               (if rd_ridx r = - 1 then Some (REDIS_OK, rd_reply r, r\<lparr>rd_reply := None\<rparr>)
                else Some (REDIS_OK, None, r))))"

section \<open>Finding the end of a line\<close>

definition nl_at :: "byte list \<Rightarrow> nat \<Rightarrow> bool" where
  "nl_at s k \<longleftrightarrow> k + 1 < length s \<and> s ! k = CR \<and> s ! (k + 1) = LF"

lemma find_cr_spec:
  "(\<forall>j. pos \<le> j \<and> j < find_cr s n pos \<longrightarrow> peek s j \<noteq> CR)
    \<and> (int (find_cr s n pos) < n \<longrightarrow> peek s (find_cr s n pos) = CR)"
proof (induction s n pos rule: find_cr.induct)
  case (1 s n pos)
  show ?case
  proof (cases "int pos < n \<and> peek s pos \<noteq> CR")
    case True
    then have "find_cr s n pos = find_cr s n (pos + 1)" by (subst find_cr.simps) simp
    then show ?thesis using 1 [OF True] True by (metis Suc_eq_plus1 le_eq_less_or_eq less_eq_Suc_le)
  next
    case False
    then have "find_cr s n pos = pos" by (subst find_cr.simps) (simp only: if_False)
    then show ?thesis using False by auto
  qed
qed

lemma seek_loop_spec:
  assumes "n = int (length s) - 1"
  shows "(case seek_loop s n pos of
      Some k \<Rightarrow> pos \<le> k \<and> nl_at s k \<and> (\<forall>j. pos \<le> j \<and> j < k \<longrightarrow> \<not> nl_at s j)
    | None \<Rightarrow> \<forall>j\<ge>pos. \<not> nl_at s j)"
  using assms
proof (induction s n pos rule: seek_loop.induct)
  case (1 s n pos)
  define q where "q = find_cr s n pos"
  have q: "pos \<le> q" "\<And>j. pos \<le> j \<Longrightarrow> j < q \<Longrightarrow> \<not> nl_at s j" "int q < n \<Longrightarrow> peek s q = CR"
    using find_cr_ge [of pos s n] find_cr_spec [of pos s n] by (auto simp: q_def nl_at_def peek_def)
  show ?case
  proof (cases "int pos < n")
    case False
    then show ?thesis using 1(2) by (subst seek_loop.simps) (auto simp: nl_at_def)
  next
    case True
    consider (stop) "peek s q \<noteq> CR" | (found) "peek s q = CR" "peek s (q + 1) = LF"
      | (step) "peek s q = CR" "peek s (q + 1) \<noteq> LF" by blast
    then show ?thesis
    proof cases
      case stop
      then have "\<not> int q < n" using q(3) by blast
      then have "\<not> nl_at s j" if "pos \<le> j" for j
        using q(2) [OF that] 1(2) by (cases "j < q") (auto simp: nl_at_def)
      then show ?thesis using True stop by (subst seek_loop.simps) (simp add: Let_def q_def)
    next
      case found
      then have "q + 1 < length s" by (auto simp: peek_def split: if_splits)
      then have "nl_at s q" using found by (simp add: nl_at_def peek_def)
      then show ?thesis using True found q by (subst seek_loop.simps) (simp add: Let_def flip: q_def)
    next
      case step
      have not_q: "\<not> nl_at s q" using step by (auto simp: nl_at_def peek_def)
      have "seek_loop s n pos = seek_loop s n (q + 1)"
        using True step by (subst seek_loop.simps) (simp add: Let_def flip: q_def)
      moreover note 1(1) [OF True q_def _ _ 1(2)]
      moreover have "\<not> nl_at s j" if "pos \<le> j" "j < q + 1" for j
        using q(2) [OF that(1)] not_q that(2) by (cases "j < q") (auto simp: less_Suc_eq)
      ultimately show ?thesis using step q(1)
        by (auto split: option.splits simp: not_less_eq_eq [symmetric]) (metis Suc_le_eq le_less_linear not_less_eq_eq)+
    qed
  qed
qed

lemma seekNewline_Some:
  assumes "length s < 2 ^ 31"
  shows "seekNewline s (length s) = Some k \<longleftrightarrow> nl_at s k \<and> (\<forall>j<k. \<not> nl_at s j)"
proof -
  have n: "c_int (int (length s) - 1) = int (length s) - 1" using assms by simp
  show ?thesis
    using seek_loop_spec [OF refl, where s = s and pos = 0] unfolding seekNewline_def n
    by (auto split: option.splits) (metis linorder_neqE_nat)+
qed

lemma seekNewline_append:
  assumes "length (s @ c) < 2 ^ 31" "seekNewline s (length s) = Some k"
  shows "seekNewline (s @ c) (length (s @ c)) = Some k"
proof -
  have "nl_at s k" "\<forall>j<k. \<not> nl_at s j" using assms seekNewline_Some [of s k] by auto
  then have "nl_at (s @ c) k" "\<forall>j<k. \<not> nl_at (s @ c) j" by (auto simp: nl_at_def nth_append)
  then show ?thesis using seekNewline_Some [OF assms(1)] by blast
qed

end
