(* ===== verification/RedisNet.thy ===== *)
theory RedisNet
  imports RespReader "HOL-Library.Signed_Division"
begin

unbundle bit_operations_syntax

text \<open>
  The socket layer \<^verbatim>\<open>hiredis/net.c\<close> and the context \<^verbatim>\<open>redisContext\<close> it works on. The operating system is
  a parameter \<open>os\<close>: what a system call returns depends on all calls made before it. The state of the
  process that matters here is the trace of its calls (the last one first) with their results,
  and \<^verbatim>\<open>errno\<close>, which every call may set. The texts of \<^verbatim>\<open>strerror\<close> and \<^verbatim>\<open>gai_strerror\<close> are
  parameters. The code for Linux is modelled (neither \<^verbatim>\<open>_OSX\<close> nor \<^verbatim>\<open>__sun\<close> is defined).
\<close>

section \<open>System calls\<close>

record addr_info =
  ai_family :: int
  ai_socktype :: int
  ai_protocol :: int
  ai_addr :: "byte list"

datatype sockopt = ReuseAddr | KeepAlive | KeepIdle | KeepIntvl | KeepCnt | NoDelay | RcvTimeo | SndTimeo

datatype sysreq =
  Socket int int int
| GetFl int
| SetFl int int
| SetSockOpt int sockopt int
| GetSockError int
| Poll int int
| Connect int "byte list"
| Bind int "byte list"
| GetAddrInfo "byte list" "byte list option" int
| Close int
| Read int nat
| Write int "byte list"

record sysres =
  s_ret :: int
  s_errno :: int
  s_value :: int
  s_data :: "byte list"
  s_addrs :: "addr_info list"

type_synonym trace = "(sysreq \<times> int) list"

type_synonym os = "trace \<Rightarrow> sysreq \<Rightarrow> sysres"

record world =
  w_trace :: trace
  w_errno :: int

definition syscall :: "os \<Rightarrow> sysreq \<Rightarrow> world \<Rightarrow> sysres \<times> world" where
  "syscall os q w =
     (let r = os (w_trace w) q in (r, \<lparr>w_trace = (q, s_ret r) # w_trace w, w_errno = s_errno r\<rparr>))"

definition EINTR :: int where "EINTR = 4"
definition EAGAIN :: int where "EAGAIN = 11"
definition ETIMEDOUT :: int where "ETIMEDOUT = 110"
definition EHOSTUNREACH :: int where "EHOSTUNREACH = 113"
definition EINPROGRESS :: int where "EINPROGRESS = 115"

definition AF_LOCAL :: int where "AF_LOCAL = 1"
definition AF_INET :: int where "AF_INET = 2"
definition AF_INET6 :: int where "AF_INET6 = 10"
definition SOCK_STREAM :: int where "SOCK_STREAM = 1"
definition O_NONBLOCK :: int where "O_NONBLOCK = 2048"
definition INT_MAX :: int where "INT_MAX = 2 ^ 31 - 1"

section \<open>The context\<close>

definition REDIS_BLOCK :: int where "REDIS_BLOCK = 0x1"
definition REDIS_CONNECTED :: int where "REDIS_CONNECTED = 0x2"
definition REDIS_DISCONNECTING :: int where "REDIS_DISCONNECTING = 0x4"
definition REDIS_FREEING :: int where "REDIS_FREEING = 0x8"
definition REDIS_IN_CALLBACK :: int where "REDIS_IN_CALLBACK = 0x10"
definition REDIS_SUBSCRIBED :: int where "REDIS_SUBSCRIBED = 0x20"
definition REDIS_MONITORING :: int where "REDIS_MONITORING = 0x40"

record redis_context =
  rc_err :: int
  rc_errstr :: "byte list"
  rc_fd :: int
  rc_flags :: int
  rc_obuf :: "sds option"
  rc_reader :: "reader option"

text \<open>
  \<^verbatim>\<open>__redisSetError\<close> with a description, and without one: then the type is \<^verbatim>\<open>REDIS_ERR_IO\<close> at all of its
  calls and the description is that of \<^verbatim>\<open>errno\<close>. The field holds at most 127 bytes.
\<close>

definition redisSetError :: "redis_context \<Rightarrow> int \<Rightarrow> byte list \<Rightarrow> redis_context" where
  "redisSetError c type str = c\<lparr>rc_err := type, rc_errstr := take 127 (cstr str)\<rparr>"

definition redisSetErrorErrno :: "(int \<Rightarrow> byte list) \<Rightarrow> redis_context \<Rightarrow> world \<Rightarrow> redis_context" where
  "redisSetErrorErrno strerr c w = redisSetError c REDIS_ERR_IO (strerr (w_errno w))"

section \<open>\<^verbatim>\<open>net.c\<close>\<close>

definition redisContextCloseFd :: "os \<Rightarrow> redis_context \<Rightarrow> world \<Rightarrow> redis_context \<times> world" where
  "redisContextCloseFd os c w =
     (if rc_fd c \<ge> 0 then (c\<lparr>rc_fd := - 1\<rparr>, snd (syscall os (Close (rc_fd c)) w)) else (c, w))"

definition redisSetErrorFromErrno ::
  "(int \<Rightarrow> byte list) \<Rightarrow> redis_context \<Rightarrow> int \<Rightarrow> byte list option \<Rightarrow> world \<Rightarrow> redis_context" where
  "redisSetErrorFromErrno strerr c type prefix w =
     (let buf = (case prefix of None \<Rightarrow> '''' | Some p \<Rightarrow> p @ '': '') in
      redisSetError c type (take 127 (buf @ strerr (w_errno w))))"

text \<open>The error exit of most functions below: describe \<^verbatim>\<open>errno\<close>, close the socket.\<close>

definition fail_close ::
  "os \<Rightarrow> (int \<Rightarrow> byte list) \<Rightarrow> byte list option \<Rightarrow> redis_context \<Rightarrow> world \<Rightarrow> int \<times> redis_context \<times> world" where
  "fail_close os strerr prefix c w =
     (REDIS_ERR, redisContextCloseFd os (redisSetErrorFromErrno strerr c REDIS_ERR_IO prefix w) w)"

definition redisSetReuseAddr ::
  "os \<Rightarrow> (int \<Rightarrow> byte list) \<Rightarrow> redis_context \<Rightarrow> world \<Rightarrow> int \<times> redis_context \<times> world" where
  "redisSetReuseAddr os strerr c w =
     (let (r, w) = syscall os (SetSockOpt (rc_fd c) ReuseAddr 1) w in
      if s_ret r = - 1 then fail_close os strerr None c w else (REDIS_OK, c, w))"

definition redisCreateSocket ::
  "os \<Rightarrow> (int \<Rightarrow> byte list) \<Rightarrow> redis_context \<Rightarrow> int \<Rightarrow> world \<Rightarrow> int \<times> redis_context \<times> world" where
  "redisCreateSocket os strerr c type w =
     (let (s, w) = syscall os (Socket type SOCK_STREAM 0) w in
      if s_ret s = - 1 then (REDIS_ERR, redisSetErrorFromErrno strerr c REDIS_ERR_IO None w, w)
      else
        let c = c\<lparr>rc_fd := s_ret s\<rparr> in
        if type = AF_INET then redisSetReuseAddr os strerr c w else (REDIS_OK, c, w))"

definition redisSetBlocking ::
  "os \<Rightarrow> (int \<Rightarrow> byte list) \<Rightarrow> redis_context \<Rightarrow> bool \<Rightarrow> world \<Rightarrow> int \<times> redis_context \<times> world" where
  "redisSetBlocking os strerr c blocking w =
     (let (r, w) = syscall os (GetFl (rc_fd c)) w in
      if s_ret r = - 1 then fail_close os strerr (Some ''fcntl(F_GETFL)'') c w
      else
        let flags = (if blocking then s_ret r AND NOT O_NONBLOCK else s_ret r OR O_NONBLOCK);
            (r, w) = syscall os (SetFl (rc_fd c) flags) w in
        if s_ret r = - 1 then fail_close os strerr (Some ''fcntl(F_SETFL)'') c w
        else (REDIS_OK, c, w))"

text \<open>A list of socket options, set in order; the first failure ends it.\<close>

fun keepalive_opts ::
  "os \<Rightarrow> (int \<Rightarrow> byte list) \<Rightarrow> redis_context \<Rightarrow> (sockopt \<times> int) list \<Rightarrow> world \<Rightarrow> int \<times> redis_context \<times> world" where
  "keepalive_opts os strerr c [] w = (REDIS_OK, c, w)"
| "keepalive_opts os strerr c ((opt, val) # opts) w =
     (let (r, w) = syscall os (SetSockOpt (rc_fd c) opt val) w in
      if s_ret r < 0 then (REDIS_ERR, redisSetError c REDIS_ERR_OTHER (strerr (w_errno w)), w)
      else keepalive_opts os strerr c opts w)"

definition redisKeepAlive ::
  "os \<Rightarrow> (int \<Rightarrow> byte list) \<Rightarrow> redis_context \<Rightarrow> int \<Rightarrow> world \<Rightarrow> int \<times> redis_context \<times> world" where
  "redisKeepAlive os strerr c interval w =
     keepalive_opts os strerr c
       [(KeepAlive, 1), (KeepIdle, interval),
        (KeepIntvl, if interval sdiv 3 = 0 then 1 else interval sdiv 3), (KeepCnt, 3)] w"

definition redisSetTcpNoDelay ::
  "os \<Rightarrow> (int \<Rightarrow> byte list) \<Rightarrow> redis_context \<Rightarrow> world \<Rightarrow> int \<times> redis_context \<times> world" where
  "redisSetTcpNoDelay os strerr c w =
     (let (r, w) = syscall os (SetSockOpt (rc_fd c) NoDelay 1) w in
      if s_ret r = - 1 then fail_close os strerr (Some ''setsockopt(TCP_NODELAY)'') c w
      else (REDIS_OK, c, w))"

definition redisCheckSocketError ::
  "os \<Rightarrow> (int \<Rightarrow> byte list) \<Rightarrow> redis_context \<Rightarrow> world \<Rightarrow> int \<times> redis_context \<times> world" where
  "redisCheckSocketError os strerr c w =
     (let (r, w) = syscall os (GetSockError (rc_fd c)) w in
      if s_ret r = - 1
      then (REDIS_ERR, redisSetErrorFromErrno strerr c REDIS_ERR_IO (Some ''getsockopt(SO_ERROR)'') w, w)
      else if s_value r \<noteq> 0 then
        let w = w\<lparr>w_errno := s_value r\<rparr> in
        (REDIS_ERR, redisSetErrorFromErrno strerr c REDIS_ERR_IO None w, w)
      else (REDIS_OK, c, w))"

definition MAX_MSEC :: int where
  "MAX_MSEC = (2 ^ 63 - 1 - 999) div 1000"

text \<open>The timeout of \<^verbatim>\<open>poll\<close> in milliseconds, for seconds and microseconds; \<open>None\<close> when it is refused.\<close>

definition wait_msec :: "(int \<times> int) option \<Rightarrow> int option" where
  "wait_msec timeout =
     (case timeout of
        None \<Rightarrow> Some (- 1)
      | Some (sec, usec) \<Rightarrow>
          (if usec > 1000000 \<or> sec > MAX_MSEC then None
           else
             let msec = c_llong (sec * 1000 + (usec + 999) sdiv 1000) in
             Some (if msec < 0 \<or> msec > INT_MAX then INT_MAX else msec)))"

definition redisContextWaitReady ::
  "os \<Rightarrow> (int \<Rightarrow> byte list) \<Rightarrow> redis_context \<Rightarrow> (int \<times> int) option \<Rightarrow> world \<Rightarrow> int \<times> redis_context \<times> world" where
  "redisContextWaitReady os strerr c timeout w =
     (case wait_msec timeout of
        None \<Rightarrow> fail_close os strerr None c w
      | Some msec \<Rightarrow>
          (if w_errno w = EINPROGRESS then
             let (r, w) = syscall os (Poll (rc_fd c) msec) w in
             if s_ret r = - 1 then fail_close os strerr (Some ''poll(2)'') c w
             else if s_ret r = 0 then fail_close os strerr None c (w\<lparr>w_errno := ETIMEDOUT\<rparr>)
             else redisCheckSocketError os strerr c w
           else fail_close os strerr None c w))"

text \<open>The value of the timeout options is the whole \<^verbatim>\<open>struct timeval\<close>; here its microseconds.\<close>

definition redisContextSetTimeout ::
  "os \<Rightarrow> (int \<Rightarrow> byte list) \<Rightarrow> redis_context \<Rightarrow> int \<times> int \<Rightarrow> world \<Rightarrow> int \<times> redis_context \<times> world" where
  "redisContextSetTimeout os strerr c tv w =
     (let usec = fst tv * 1000000 + snd tv; (r, w) = syscall os (SetSockOpt (rc_fd c) RcvTimeo usec) w in
      if s_ret r = - 1
      then (REDIS_ERR, redisSetErrorFromErrno strerr c REDIS_ERR_IO (Some ''setsockopt(SO_RCVTIMEO)'') w, w)
      else
        let (r, w) = syscall os (SetSockOpt (rc_fd c) SndTimeo usec) w in
        if s_ret r = - 1
        then (REDIS_ERR, redisSetErrorFromErrno strerr c REDIS_ERR_IO (Some ''setsockopt(SO_SNDTIMEO)'') w, w)
        else (REDIS_OK, c, w))"

section \<open>Connecting\<close>

fun bind_any :: "os \<Rightarrow> int \<Rightarrow> addr_info list \<Rightarrow> world \<Rightarrow> bool \<times> world" where
  "bind_any os s [] w = (False, w)"
| "bind_any os s (b # bs) w =
     (let (r, w) = syscall os (Bind s (ai_addr b)) w in
      if s_ret r \<noteq> - 1 then (True, w) else bind_any os s bs w)"

text \<open>The part for a source address; the family is that of the hints.\<close>

definition bind_source ::
  "os \<Rightarrow> (int \<Rightarrow> byte list) \<Rightarrow> (int \<Rightarrow> byte list) \<Rightarrow> int \<Rightarrow> byte list option \<Rightarrow> redis_context \<Rightarrow> world
     \<Rightarrow> int \<times> redis_context \<times> world" where
  "bind_source os strerr gaierr family source_addr c w =
     (case source_addr of
        None \<Rightarrow> (REDIS_OK, c, w)
      | Some src \<Rightarrow>
          (let (r, w) = syscall os (GetAddrInfo src None family) w in
           if s_ret r \<noteq> 0
           then (REDIS_ERR, redisSetError c REDIS_ERR_OTHER (take 127 (''Can''@[CHR 0x27]@''t get addr: '' @ gaierr (s_ret r))), w)
           else
             let (bound, w) = bind_any os (rc_fd c) (s_addrs r) w in
             if bound then (REDIS_OK, c, w)
             else (REDIS_ERR,
                   redisSetError c REDIS_ERR_OTHER (take 127 (''Can''@[CHR 0x27]@''t bind socket: '' @ strerr (w_errno w))), w)))"

text \<open>What follows a connection that is established or, for a non-blocking context, on its way.\<close>

definition finish_connect ::
  "os \<Rightarrow> (int \<Rightarrow> byte list) \<Rightarrow> bool \<Rightarrow> redis_context \<Rightarrow> world \<Rightarrow> int \<times> redis_context \<times> world" where
  "finish_connect os strerr blocking c w =
     (let (st, c, w) = (if blocking then redisSetBlocking os strerr c True w else (REDIS_OK, c, w)) in
      if st \<noteq> REDIS_OK then (REDIS_ERR, c, w)
      else
        let (st, c, w) = redisSetTcpNoDelay os strerr c w in
        if st \<noteq> REDIS_OK then (REDIS_ERR, c, w)
        else (REDIS_OK, c\<lparr>rc_flags := rc_flags c OR REDIS_CONNECTED\<rparr>, w))"

text \<open>The loop over the addresses found.\<close>

fun connect_addrs ::
  "os \<Rightarrow> (int \<Rightarrow> byte list) \<Rightarrow> (int \<Rightarrow> byte list) \<Rightarrow> bool \<Rightarrow> (int \<times> int) option \<Rightarrow> int \<Rightarrow> byte list option
     \<Rightarrow> addr_info list \<Rightarrow> redis_context \<Rightarrow> world \<Rightarrow> int \<times> redis_context \<times> world" where
  "connect_addrs os strerr gaierr blocking timeout family source_addr [] c w =
     (REDIS_ERR, redisSetError c REDIS_ERR_OTHER
        (take 127 (''Can''@[CHR 0x27]@''t create socket: '' @ strerr (w_errno w))), w)"
| "connect_addrs os strerr gaierr blocking timeout family source_addr (p # ps) c w =
     (let (s, w) = syscall os (Socket (ai_family p) (ai_socktype p) (ai_protocol p)) w in
      if s_ret s = - 1 then connect_addrs os strerr gaierr blocking timeout family source_addr ps c w
      else
        let (st, c, w) = redisSetBlocking os strerr (c\<lparr>rc_fd := s_ret s\<rparr>) False w in
        if st \<noteq> REDIS_OK then (REDIS_ERR, c, w)
        else
          let (st, c, w) = bind_source os strerr gaierr family source_addr c w in
          if st \<noteq> REDIS_OK then (REDIS_ERR, c, w)
          else
            let (r, w) = syscall os (Connect (s_ret s) (ai_addr p)) w in
            if s_ret r = - 1 then
              if w_errno w = EHOSTUNREACH then
                let (c, w) = redisContextCloseFd os c w in
                connect_addrs os strerr gaierr blocking timeout family source_addr ps c w
              else if w_errno w = EINPROGRESS \<and> \<not> blocking then finish_connect os strerr blocking c w
              else
                let (st, c, w) = redisContextWaitReady os strerr c timeout w in
                if st \<noteq> REDIS_OK then (REDIS_ERR, c, w) else finish_connect os strerr blocking c w
            else finish_connect os strerr blocking c w)"

definition redisContextConnectAny ::
  "os \<Rightarrow> (int \<Rightarrow> byte list) \<Rightarrow> (int \<Rightarrow> byte list) \<Rightarrow> redis_context \<Rightarrow> byte list \<Rightarrow> int \<Rightarrow> (int \<times> int) option
     \<Rightarrow> byte list option \<Rightarrow> world \<Rightarrow> int \<times> redis_context \<times> world" where
  "redisContextConnectAny os strerr gaierr c addr port timeout source_addr w =
     (let blocking = (rc_flags c AND REDIS_BLOCK \<noteq> 0);
          port_str = take 5 (dec_of_int port);
          (r, w) = syscall os (GetAddrInfo addr (Some port_str) AF_INET) w in
      if s_ret r = 0 then connect_addrs os strerr gaierr blocking timeout AF_INET source_addr (s_addrs r) c w
      else
        let (r, w) = syscall os (GetAddrInfo addr (Some port_str) AF_INET6) w in
        if s_ret r \<noteq> 0 then (REDIS_ERR, redisSetError c REDIS_ERR_OTHER (gaierr (s_ret r)), w)
        else connect_addrs os strerr gaierr blocking timeout AF_INET6 source_addr (s_addrs r) c w)"

definition redisContextConnectTcp ::
  "os \<Rightarrow> (int \<Rightarrow> byte list) \<Rightarrow> (int \<Rightarrow> byte list) \<Rightarrow> redis_context \<Rightarrow> byte list \<Rightarrow> int \<Rightarrow> (int \<times> int) option
     \<Rightarrow> world \<Rightarrow> int \<times> redis_context \<times> world" where
  "redisContextConnectTcp os strerr gaierr c addr port timeout w =
     redisContextConnectAny os strerr gaierr c addr port timeout None w"

definition redisContextConnectBindTcp ::
  "os \<Rightarrow> (int \<Rightarrow> byte list) \<Rightarrow> (int \<Rightarrow> byte list) \<Rightarrow> redis_context \<Rightarrow> byte list \<Rightarrow> int \<Rightarrow> (int \<times> int) option
     \<Rightarrow> byte list option \<Rightarrow> world \<Rightarrow> int \<times> redis_context \<times> world" where
  "redisContextConnectBindTcp os strerr gaierr c addr port timeout source_addr w =
     redisContextConnectAny os strerr gaierr c addr port timeout source_addr w"

text \<open>The path of the address is cut at 107 bytes.\<close>

definition redisContextConnectUnix ::
  "os \<Rightarrow> (int \<Rightarrow> byte list) \<Rightarrow> redis_context \<Rightarrow> byte list \<Rightarrow> (int \<times> int) option \<Rightarrow> world
     \<Rightarrow> int \<times> redis_context \<times> world" where
  "redisContextConnectUnix os strerr c path timeout w =
     (let blocking = (rc_flags c AND REDIS_BLOCK \<noteq> 0);
          (st, c, w) = redisCreateSocket os strerr c AF_LOCAL w in
      if st < 0 then (REDIS_ERR, c, w)
      else
        let (st, c, w) = redisSetBlocking os strerr c False w in
        if st \<noteq> REDIS_OK then (REDIS_ERR, c, w)
        else
          let (r, w) = syscall os (Connect (rc_fd c) (take 107 (cstr path))) w;
              (st, c, w) =
                (if s_ret r = - 1 \<and> \<not> (w_errno w = EINPROGRESS \<and> \<not> blocking)
                 then redisContextWaitReady os strerr c timeout w else (REDIS_OK, c, w)) in
          if st \<noteq> REDIS_OK then (REDIS_ERR, c, w)
          else
            let (st, c, w) = (if blocking then redisSetBlocking os strerr c True w else (REDIS_OK, c, w)) in
            if st \<noteq> REDIS_OK then (REDIS_ERR, c, w)
            else (REDIS_OK, c\<lparr>rc_flags := rc_flags c OR REDIS_CONNECTED\<rparr>, w))"

section \<open>Descriptors\<close>

text \<open>The sockets a trace has opened and not closed.\<close>

fun open_fds :: "trace \<Rightarrow> int set" where
  "open_fds [] = {}"
| "open_fds ((Socket f ty p, s) # t) = (if s = - 1 then open_fds t else insert s (open_fds t))"
| "open_fds ((Close fd, r) # t) = open_fds t - {fd}"
| "open_fds (_ # t) = open_fds t"

text \<open>The flags last set on a descriptor.\<close>

fun last_setfl :: "trace \<Rightarrow> int \<Rightarrow> int option" where
  "last_setfl [] fd = None"
| "last_setfl ((SetFl fd' fl, r) # t) fd = (if fd' = fd \<and> r \<noteq> - 1 then Some fl else last_setfl t fd)"
| "last_setfl (_ # t) fd = last_setfl t fd"

text \<open>\<^verbatim>\<open>socket\<close> fails or returns a descriptor that is not open.\<close>

definition os_ok :: "os \<Rightarrow> bool" where
  "os_ok os \<longleftrightarrow> (\<forall>t f ty p. s_ret (os t (Socket f ty p)) = - 1 \<or>
     0 \<le> s_ret (os t (Socket f ty p)) \<and> s_ret (os t (Socket f ty p)) \<notin> open_fds t)"

text \<open>The context owns one open socket, respectively none, next to the sockets \<open>S\<close> of others.\<close>

definition holding :: "int set \<Rightarrow> redis_context \<Rightarrow> world \<Rightarrow> bool" where
  "holding S c w \<longleftrightarrow> 0 \<le> rc_fd c \<and> rc_fd c \<notin> S \<and> open_fds (w_trace w) = insert (rc_fd c) S"

definition closed :: "int set \<Rightarrow> redis_context \<Rightarrow> world \<Rightarrow> bool" where
  "closed S c w \<longleftrightarrow> rc_fd c = - 1 \<and> open_fds (w_trace w) = S"

definition failed :: "redis_context \<Rightarrow> redis_context \<Rightarrow> bool" where
  "failed c c' \<longleftrightarrow> rc_err c' \<noteq> 0 \<and> rc_flags c' = rc_flags c \<and> rc_obuf c' = rc_obuf c \<and> rc_reader c' = rc_reader c"

text \<open>
  The outcome of a step on an open socket: it succeeds, changes nothing of the context and
  keeps the flags of the descriptor, or it fails with the error set and the socket still owned
  or closed.
\<close>

definition step_ok :: "int set \<Rightarrow> redis_context \<Rightarrow> world \<Rightarrow> int \<times> redis_context \<times> world \<Rightarrow> bool" where
  "step_ok S c w res \<longleftrightarrow> (case res of (st, c', w') \<Rightarrow>
     st = REDIS_OK \<and> c' = c \<and> holding S c w' \<and> last_setfl (w_trace w') = last_setfl (w_trace w) \<or>
     st = REDIS_ERR \<and> failed c c' \<and> (holding S c' w' \<or> closed S c' w'))"

named_theorems net_simps \<open>evaluation of system calls and of the error exits\<close>

lemma syscall_simps [net_simps]:
  "w_trace (snd (syscall os q w)) = (q, s_ret (fst (syscall os q w))) # w_trace w"
  "fst (syscall os q w) = os (w_trace w) q"
  by (simp_all add: syscall_def Let_def)

lemma redisSetError_fields [simp]:
  "rc_err (redisSetError c t m) = t" "rc_fd (redisSetError c t m) = rc_fd c"
  "rc_flags (redisSetError c t m) = rc_flags c" "rc_obuf (redisSetError c t m) = rc_obuf c"
  "rc_reader (redisSetError c t m) = rc_reader c"
  by (simp_all add: redisSetError_def)

lemma redisSetErrorFromErrno_fields [simp]:
  "rc_err (redisSetErrorFromErrno strerr c t p w) = t" "rc_fd (redisSetErrorFromErrno strerr c t p w) = rc_fd c"
  "rc_flags (redisSetErrorFromErrno strerr c t p w) = rc_flags c" "rc_obuf (redisSetErrorFromErrno strerr c t p w) = rc_obuf c"
  "rc_reader (redisSetErrorFromErrno strerr c t p w) = rc_reader c"
  by (simp_all add: redisSetErrorFromErrno_def Let_def)

lemma err_codes_nonzero [simp]: "REDIS_ERR_IO \<noteq> 0" "REDIS_ERR_OTHER \<noteq> 0" "REDIS_ERR_EOF \<noteq> 0" "REDIS_ERR_OOM \<noteq> 0"
  "REDIS_ERR_PROTOCOL \<noteq> 0"
  by (simp_all add: REDIS_ERR_IO_def REDIS_ERR_OTHER_def REDIS_ERR_EOF_def REDIS_ERR_OOM_def REDIS_ERR_PROTOCOL_def)

lemma redis_status_distinct [simp]: "REDIS_OK \<noteq> REDIS_ERR" "REDIS_ERR \<noteq> REDIS_OK" "REDIS_ERR < 0" "\<not> REDIS_OK < 0"
  by (simp_all add: status_codes)

lemma closeFd_holding:
  assumes "holding S c w" shows "closed S (fst (redisContextCloseFd os c w)) (snd (redisContextCloseFd os c w))"
  using assms by (auto simp: holding_def closed_def redisContextCloseFd_def net_simps)

lemma closeFd_fields [simp]:
  "rc_err (fst (redisContextCloseFd os c w)) = rc_err c" "rc_flags (fst (redisContextCloseFd os c w)) = rc_flags c"
  "rc_obuf (fst (redisContextCloseFd os c w)) = rc_obuf c" "rc_reader (fst (redisContextCloseFd os c w)) = rc_reader c"
  by (simp_all add: redisContextCloseFd_def)

lemma fail_close_step:
  assumes "holding S c w'" shows "step_ok S c w (fail_close os strerr p c w')"
proof -
  let ?c = "redisSetErrorFromErrno strerr c REDIS_ERR_IO p w'"
  have "holding S ?c w'" using assms by (simp add: holding_def)
  note closed = closeFd_holding [OF this, of os]
  obtain c1 w1 where q: "redisContextCloseFd os ?c w' = (c1, w1)" by fastforce
  show ?thesis
    using closed closeFd_fields [of os ?c w'] by (simp add: q step_ok_def fail_close_def failed_def)
qed

text \<open>A call that neither opens nor closes a socket nor sets its flags.\<close>

definition quiet :: "sysreq \<Rightarrow> bool" where
  "quiet q = (case q of Socket _ _ _ \<Rightarrow> False | Close _ \<Rightarrow> False | SetFl _ _ \<Rightarrow> False | _ \<Rightarrow> True)"

lemma quiet_open: "quiet q \<Longrightarrow> open_fds ((q, r) # t) = open_fds t \<and> last_setfl ((q, r) # t) = last_setfl t"
  by (cases q) (auto simp: quiet_def)

lemma quiet_simps [simp]:
  "quiet (GetFl fd)" "quiet (SetSockOpt fd opt v)" "quiet (GetSockError fd)" "quiet (Poll fd ms)"
  "quiet (Connect fd a)" "quiet (Bind fd a)" "quiet (GetAddrInfo h p f)" "quiet (Read fd n)" "quiet (Write fd bs)"
  by (simp_all add: quiet_def)

lemma quiet_call:
  assumes "quiet q" "syscall os q w = (r, w')"
  shows "open_fds (w_trace w') = open_fds (w_trace w)" "last_setfl (w_trace w') = last_setfl (w_trace w)"
    "holding S c w' = holding S c w"
  using assms(2) quiet_open [OF assms(1)] by (auto simp: syscall_def Let_def holding_def)

lemma step_ok_quiet:
  "quiet q \<Longrightarrow> syscall os q w = (r, w') \<Longrightarrow> step_ok S c w' res \<Longrightarrow> step_ok S c w res"
  using quiet_call [of q os w r w'] by (auto simp: step_ok_def split: prod.splits)

lemma step_ok_done: "holding S c w \<Longrightarrow> step_ok S c w (REDIS_OK, c, w)"
  by (simp add: step_ok_def)

lemma step_ok_trans:
  "step_ok S c w (REDIS_OK, c', w') \<Longrightarrow> step_ok S c' w' res \<Longrightarrow> step_ok S c w res"
  by (auto simp: step_ok_def status_codes split: prod.splits)

lemma step_ok_error:
  "holding S c w' \<Longrightarrow> t \<noteq> 0 \<Longrightarrow> step_ok S c w (REDIS_ERR, redisSetError c t m, w')"
  "holding S c w' \<Longrightarrow> t \<noteq> 0 \<Longrightarrow> step_ok S c w (REDIS_ERR, redisSetErrorFromErrno strerr c t p w'', w')"
  by (auto simp: step_ok_def failed_def holding_def)

lemma NoDelay_step:
  assumes "holding S c w" shows "step_ok S c w (redisSetTcpNoDelay os strerr c w)"
proof -
  obtain r w' where q: "syscall os (SetSockOpt (rc_fd c) NoDelay 1) w = (r, w')" by fastforce
  have h: "holding S c w'" using assms quiet_call(3) [OF _ q] by simp
  show ?thesis
    by (rule step_ok_quiet [OF _ q]) (use h in \<open>auto simp: redisSetTcpNoDelay_def q intro: fail_close_step step_ok_done\<close>)
qed

lemma CheckSocketError_step:
  assumes "holding S c w" shows "step_ok S c w (redisCheckSocketError os strerr c w)"
proof -
  obtain r w' where q: "syscall os (GetSockError (rc_fd c)) w = (r, w')" by fastforce
  have h: "holding S c w'" using assms quiet_call(3) [OF _ q] by simp
  then have h': "holding S c (w'\<lparr>w_errno := e\<rparr>)" for e by (simp add: holding_def)
  show ?thesis
    by (rule step_ok_quiet [OF _ q])
      (use h h' in \<open>auto simp: redisCheckSocketError_def q Let_def intro: step_ok_error step_ok_done\<close>)
qed

lemma WaitReady_step:
  assumes "holding S c w" shows "step_ok S c w (redisContextWaitReady os strerr c timeout w)"
proof (cases "wait_msec timeout")
  case None
  then show ?thesis using fail_close_step [OF assms] by (simp add: redisContextWaitReady_def)
next
  case (Some ms)
  obtain r w' where q: "syscall os (Poll (rc_fd c) ms) w = (r, w')" by fastforce
  have h: "holding S c w'" using assms quiet_call(3) [OF _ q] by simp
  then have h': "holding S c (w'\<lparr>w_errno := e\<rparr>)" for e by (simp add: holding_def)
  have "step_ok S c w (fail_close os strerr (Some ''poll(2)'') c w')" "step_ok S c w (redisCheckSocketError os strerr c w')"
    "step_ok S c w (fail_close os strerr None c (w'\<lparr>w_errno := ETIMEDOUT\<rparr>))"
    "step_ok S c w (fail_close os strerr None c w)"
    using fail_close_step [OF h] step_ok_quiet [OF _ q CheckSocketError_step [OF h]] fail_close_step [OF h'] fail_close_step [OF assms]
    by auto
  then show ?thesis using Some by (auto simp: redisContextWaitReady_def q)
qed

lemma bind_any_quiet:
  "bind_any os s bs w = (ok, w') \<Longrightarrow> open_fds (w_trace w') = open_fds (w_trace w) \<and> last_setfl (w_trace w') = last_setfl (w_trace w)"
proof (induction bs arbitrary: w)
  case Nil
  then show ?case by simp
next
  case (Cons b bs)
  obtain r w1 where q: "syscall os (Bind s (ai_addr b)) w = (r, w1)" by fastforce
  show ?case
    using Cons quiet_call [OF _ q] by (auto simp: q split: if_splits)
qed

lemma bind_source_step:
  assumes "holding S c w" shows "step_ok S c w (bind_source os strerr gaierr family src c w)"
proof (cases src)
  case None
  then show ?thesis using step_ok_done [OF assms] by (simp add: bind_source_def)
next
  case (Some a)
  obtain r w1 where q: "syscall os (GetAddrInfo a None family) w = (r, w1)" by fastforce
  obtain ok w2 where b: "bind_any os (rc_fd c) (s_addrs r) w1 = (ok, w2)" by fastforce
  have h: "holding S c w1" using assms quiet_call(3) [OF _ q] by simp
  have h2: "holding S c w2" "last_setfl (w_trace w2) = last_setfl (w_trace w)"
    using h bind_any_quiet [OF b] quiet_call(2) [OF _ q] by (auto simp: holding_def)
  show ?thesis
    using h h2 step_ok_error(1) [OF h] step_ok_error(1) [OF h2(1)]
    by (auto simp: bind_source_def Some q b step_ok_def split: prod.splits)
qed

definition fd_mode :: "redis_context \<Rightarrow> world \<Rightarrow> bool \<Rightarrow> bool" where
  "fd_mode c w blocking \<longleftrightarrow>
     (\<exists>fl. last_setfl (w_trace w) (rc_fd c) = Some fl \<and> (fl AND O_NONBLOCK = 0) = blocking)"

lemma nonblock_bit: "(fl AND O_NONBLOCK = 0) = (\<not> bit fl 11)"
proof -
  have pow: "O_NONBLOCK = 2 ^ 11" by (simp add: O_NONBLOCK_def)
  show ?thesis unfolding pow by (rule and_exp_eq_0_iff_not_bit)
qed

lemma SetBlocking_spec:
  assumes h: "holding S c w" and r: "redisSetBlocking os strerr c blocking w = (st, c', w')"
  shows "st = REDIS_OK \<and> c' = c \<and> holding S c w' \<and> fd_mode c w' blocking \<or>
     st = REDIS_ERR \<and> failed c c' \<and> (holding S c' w' \<or> closed S c' w')"
proof -
  obtain r1 w1 where q1: "syscall os (GetFl (rc_fd c)) w = (r1, w1)" by fastforce
  have h1: "holding S c w1" using h quiet_call(3) [OF _ q1] by simp
  define fl where "fl = (if blocking then s_ret r1 AND NOT O_NONBLOCK else s_ret r1 OR O_NONBLOCK)"
  obtain r2 w2 where q2: "syscall os (SetFl (rc_fd c) fl) w1 = (r2, w2)" by fastforce
  have t2: "w_trace w2 = (SetFl (rc_fd c) fl, s_ret r2) # w_trace w1"
    using q2 by (auto simp: syscall_def Let_def)
  have h2: "holding S c w2" using h1 by (simp add: holding_def t2)
  have fails: "step_ok S c w (fail_close os strerr p c w1)" "step_ok S c w (fail_close os strerr p c w2)" for p
    using fail_close_step [OF h1] fail_close_step [OF h2] by auto
  have fc: "fst (fail_close os strerr p c v) = REDIS_ERR" for p v by (simp add: fail_close_def)
  show ?thesis
  proof (cases "s_ret r1 = - 1 \<or> s_ret r2 = - 1")
    case True
    then have "\<exists>p v. redisSetBlocking os strerr c blocking w = fail_close os strerr p c v \<and> v \<in> {w1, w2}"
      by (auto simp: redisSetBlocking_def q1 q2 Let_def simp flip: fl_def)
    then obtain p v where v: "(st, c', w') = fail_close os strerr p c v" "v \<in> {w1, w2}" using r by auto
    have "step_ok S c w (st, c', w')" unfolding v(1) using fails [of p] v(2) by auto
    moreover have "st = REDIS_ERR" using fc [of p v] arg_cong [OF v(1), of fst] by simp
    ultimately show ?thesis by (auto simp: step_ok_def)
  next
    case False
    then have "(st, c', w') = (REDIS_OK, c, w2)"
      using r by (auto simp: redisSetBlocking_def q1 q2 Let_def simp flip: fl_def)
    moreover have "fd_mode c w2 blocking"
      using False nonblock_bit [of fl]
      by (simp add: fd_mode_def t2 fl_def nonblock_bit bit_simps) (simp add: O_NONBLOCK_def)
    ultimately show ?thesis using h2 by auto
  qed
qed

text \<open>The outcome of connecting.\<close>

definition connect_ok :: "int set \<Rightarrow> redis_context \<Rightarrow> int \<times> redis_context \<times> world \<Rightarrow> bool" where
  "connect_ok S c res \<longleftrightarrow> (case res of (st, c', w') \<Rightarrow>
     st = REDIS_OK \<and> holding S c' w' \<and> c' = c\<lparr>rc_fd := rc_fd c', rc_flags := rc_flags c OR REDIS_CONNECTED\<rparr>
       \<and> fd_mode c' w' (rc_flags c AND REDIS_BLOCK \<noteq> 0) \<or>
     st = REDIS_ERR \<and> failed c c' \<and> (holding S c' w' \<or> rc_fd c' \<in> {- 1, rc_fd c} \<and> open_fds (w_trace w') = S))"

lemma settled_connect:
  "failed c c' \<Longrightarrow> holding S c' w' \<or> closed S c' w' \<Longrightarrow> connect_ok S c (REDIS_ERR, c', w')"
  by (auto simp: connect_ok_def closed_def)

lemma failed_fd: "failed (c\<lparr>rc_fd := s\<rparr>) c' = failed c c'"
  by (simp add: failed_def)

lemma finish_connect_spec:
  assumes h: "holding S (c\<lparr>rc_fd := s\<rparr>) w" and b: "blocking \<longleftrightarrow> rc_flags c AND REDIS_BLOCK \<noteq> 0"
    and m: "\<not> blocking \<Longrightarrow> fd_mode (c\<lparr>rc_fd := s\<rparr>) w False"
  shows "connect_ok S c (finish_connect os strerr blocking (c\<lparr>rc_fd := s\<rparr>) w)"
proof -
  let ?c = "c\<lparr>rc_fd := s\<rparr>"
  obtain st1 c1 w1 where q1: "(if blocking then redisSetBlocking os strerr ?c True w else (REDIS_OK, ?c, w)) = (st1, c1, w1)"
    by (cases "if blocking then redisSetBlocking os strerr ?c True w else (REDIS_OK, ?c, w)") auto
  have s1: "st1 = REDIS_OK \<and> c1 = ?c \<and> holding S ?c w1 \<and> fd_mode ?c w1 blocking \<or>
     st1 = REDIS_ERR \<and> failed ?c c1 \<and> (holding S c1 w1 \<or> closed S c1 w1)"
    using SetBlocking_spec [OF h, of os strerr True st1 c1 w1] q1 h m by (cases blocking) auto
  show ?thesis
  proof (cases "st1 = REDIS_OK")
    case False
    then have "finish_connect os strerr blocking ?c w = (REDIS_ERR, c1, w1)"
      unfolding finish_connect_def q1 by simp
    then show ?thesis using s1 False settled_connect failed_fd by metis
  next
    case True
    then have c1: "c1 = ?c" "holding S ?c w1" "fd_mode ?c w1 blocking" using s1 by auto
    obtain st2 c2 w2 where q2: "redisSetTcpNoDelay os strerr ?c w1 = (st2, c2, w2)" by (cases "redisSetTcpNoDelay os strerr ?c w1") auto
    note s2 = NoDelay_step [OF c1(2), of os strerr, unfolded q2 step_ok_def prod.case]
    show ?thesis
    proof (cases "st2 = REDIS_OK")
      case False
      then have "finish_connect os strerr blocking ?c w = (REDIS_ERR, c2, w2)"
        unfolding finish_connect_def q1 using True c1(1) q2 by simp
      then show ?thesis using s2 False settled_connect failed_fd by metis
    next
      case True2: True
      then have c2: "c2 = ?c" "holding S ?c w2" "last_setfl (w_trace w2) = last_setfl (w_trace w1)" using s2 by auto
      have "finish_connect os strerr blocking ?c w = (REDIS_OK, ?c\<lparr>rc_flags := rc_flags ?c OR REDIS_CONNECTED\<rparr>, w2)"
        unfolding finish_connect_def q1 using True True2 c1(1) c2(1) q2 by simp
      moreover have "fd_mode ?c w2 blocking" using c1(3) c2(3) by (simp add: fd_mode_def)
      ultimately show ?thesis using c2(2) b by (simp add: connect_ok_def holding_def fd_mode_def)
    qed
  qed
qed

lemma socket_opened:
  assumes "os_ok os" "syscall os (Socket f ty p) w = (s, w1)" "open_fds (w_trace w) = S"
  shows "if s_ret s = - 1 then open_fds (w_trace w1) = S else holding S (c\<lparr>rc_fd := s_ret s\<rparr>) w1"
proof -
  have s: "s = os (w_trace w) (Socket f ty p)" "w_trace w1 = (Socket f ty p, s_ret s) # w_trace w"
    using assms(2) by (auto simp: syscall_def Let_def)
  have "s_ret s = - 1 \<or> 0 \<le> s_ret s \<and> s_ret s \<notin> S"
    using assms(1,3) unfolding os_ok_def s(1) by blast
  then show ?thesis using assms(3) by (auto simp: holding_def s(2))
qed

lemma connect_addrs_spec:
  assumes os: "os_ok os" and b: "blocking \<longleftrightarrow> rc_flags c0 AND REDIS_BLOCK \<noteq> 0"
  shows "open_fds (w_trace w) = S \<Longrightarrow> f \<in> {- 1, rc_fd c0} \<Longrightarrow>
    connect_ok S c0 (connect_addrs os strerr gaierr blocking timeout family src ps (c0\<lparr>rc_fd := f\<rparr>) w)"
proof (induction ps arbitrary: f w)
  case Nil
  have "failed c0 (redisSetError (c0\<lparr>rc_fd := f\<rparr>) REDIS_ERR_OTHER m)" for m by (simp add: failed_def)
  then show ?case using Nil by (auto simp: connect_ok_def)
next
  case (Cons p ps)
  obtain s w1 where q1: "syscall os (Socket (ai_family p) (ai_socktype p) (ai_protocol p)) w = (s, w1)" by fastforce
  let ?ca = "connect_addrs os strerr gaierr blocking timeout family src"
  show ?case
  proof (cases "s_ret s = - 1")
    case True
    then have "open_fds (w_trace w1) = S" using socket_opened [OF os q1 Cons.prems(1)] by simp
    then show ?thesis using Cons.IH [OF _ Cons.prems(2)] True by (simp add: q1)
  next
    case sock: False
    let ?c = "c0\<lparr>rc_fd := s_ret s\<rparr>"
    have h1: "holding S ?c w1" using socket_opened [OF os q1 Cons.prems(1), of c0] sock by simp
    obtain st2 c2 w2 where q2: "redisSetBlocking os strerr ?c False w1 = (st2, c2, w2)"
      by (cases "redisSetBlocking os strerr ?c False w1") auto
    note s2 = SetBlocking_spec [OF h1 q2]
    show ?thesis
    proof (cases "st2 = REDIS_OK")
      case False
      then show ?thesis using s2 settled_connect failed_fd by (simp add: q1 q2 sock)
    next
      case True
      then have c2: "c2 = ?c" "holding S ?c w2" "fd_mode ?c w2 False" using s2 by auto
      obtain st3 c3 w3 where q3: "bind_source os strerr gaierr family src ?c w2 = (st3, c3, w3)"
        by (cases "bind_source os strerr gaierr family src ?c w2") auto
      note s3 = bind_source_step [OF c2(2), of os strerr gaierr family src, unfolded q3 step_ok_def prod.case]
      note ok2 = True
      show ?thesis
      proof (cases "st3 = REDIS_OK")
        case False
        then show ?thesis using s3 settled_connect failed_fd by (simp add: q1 q2 sock ok2 c2(1) q3)
      next
        case ok3: True
        then have c3: "c3 = ?c" "holding S ?c w3" "fd_mode ?c w3 False"
          using s3 c2(3) by (auto simp: fd_mode_def)
        obtain r w4 where q4: "syscall os (Connect (s_ret s) (ai_addr p)) w3 = (r, w4)" by fastforce
        have c4: "holding S ?c w4" "fd_mode ?c w4 False"
          using quiet_call [OF _ q4] c3(2,3) by (auto simp: fd_mode_def)
        have fin: "connect_ok S c0 (finish_connect os strerr blocking ?c w4)"
          by (rule finish_connect_spec [OF c4(1) b]) (use c4(2) in blast)
        obtain c5 w5 where q5: "redisContextCloseFd os ?c w4 = (c5, w5)" by fastforce
        have c5: "c5 = c0\<lparr>rc_fd := - 1\<rparr>" "open_fds (w_trace w5) = S"
          using closeFd_holding [OF c4(1), of os] c4(1) q5
          by (auto simp: closed_def holding_def redisContextCloseFd_def split: if_splits)
        obtain st6 c6 w6 where q6: "redisContextWaitReady os strerr ?c timeout w4 = (st6, c6, w6)"
          by (cases "redisContextWaitReady os strerr ?c timeout w4") auto
        note s6 = WaitReady_step [OF c4(1), of os strerr timeout, unfolded q6 step_ok_def prod.case]
        have wait: "connect_ok S c0 (if st6 \<noteq> REDIS_OK then (REDIS_ERR, c6, w6) else finish_connect os strerr blocking c6 w6)"
        proof (cases "st6 = REDIS_OK")
          case False
          then show ?thesis using s6 settled_connect failed_fd by auto
        next
          case True
          then have "c6 = ?c" "holding S ?c w6" "fd_mode ?c w6 False" using s6 c4(2) by (auto simp: fd_mode_def)
          then show ?thesis using True finish_connect_spec [OF _ b, of S "s_ret s" w6 os strerr] by simp
        qed
        have next_addr: "connect_ok S c0 (?ca ps c5 w5)" using Cons.IH [OF c5(2), of "- 1"] c5(1) by simp
        have step: "?ca (p # ps) (c0\<lparr>rc_fd := f\<rparr>) w =
          (if s_ret r = - 1 then
             if w_errno w4 = EHOSTUNREACH then ?ca ps c5 w5
             else if w_errno w4 = EINPROGRESS \<and> \<not> blocking then finish_connect os strerr blocking ?c w4
             else if st6 \<noteq> REDIS_OK then (REDIS_ERR, c6, w6) else finish_connect os strerr blocking c6 w6
           else finish_connect os strerr blocking ?c w4)"
          using sock ok2 ok3 by (simp add: q1 q2 q3 q4 q5 q6 c2(1) c3(1))
        show ?thesis unfolding step using fin wait next_addr by (cases blocking) auto
      qed
    qed
  qed
qed

lemma ConnectAny_spec:
  assumes "os_ok os" "open_fds (w_trace w) = S"
  shows "connect_ok S c (redisContextConnectAny os strerr gaierr c addr port timeout src w)"
proof -
  let ?port = "Some (take 5 (dec_of_int port))"
  obtain r1 w1 where q1: "syscall os (GetAddrInfo addr ?port AF_INET) w = (r1, w1)" by fastforce
  obtain r2 w2 where q2: "syscall os (GetAddrInfo addr ?port AF_INET6) w1 = (r2, w2)" by fastforce
  have w: "open_fds (w_trace w1) = S" "open_fds (w_trace w2) = S"
    using assms(2) quiet_call(1) [OF _ q1] quiet_call(1) [OF _ q2] by auto
  have c: "c = c\<lparr>rc_fd := rc_fd c\<rparr>" by simp
  have addrs: "connect_ok S c (connect_addrs os strerr gaierr (rc_flags c AND REDIS_BLOCK \<noteq> 0) timeout family src ps c v)"
    if "open_fds (w_trace v) = S" for family ps v
    using connect_addrs_spec [OF assms(1) refl that, of "rc_fd c" c] by simp
  have "connect_ok S c (REDIS_ERR, redisSetError c REDIS_ERR_OTHER m, w2)" for m
    using w(2) by (simp add: connect_ok_def failed_def)
  then show ?thesis using addrs w by (simp add: redisContextConnectAny_def q1 q2 Let_def)
qed

lemma ConnectUnix_spec:
  assumes "os_ok os" "open_fds (w_trace w) = S"
  shows "connect_ok S c (redisContextConnectUnix os strerr c path timeout w)"
proof -
  define blocking where "blocking \<longleftrightarrow> rc_flags c AND REDIS_BLOCK \<noteq> 0"
  obtain s w1 where q1: "syscall os (Socket AF_LOCAL SOCK_STREAM 0) w = (s, w1)" by fastforce
  note opened = socket_opened [OF assms(1) q1 assms(2), of c]
  show ?thesis
  proof (cases "s_ret s = - 1")
    case True
    then have "redisContextConnectUnix os strerr c path timeout w = (REDIS_ERR, redisSetErrorFromErrno strerr c REDIS_ERR_IO None w1, w1)"
      by (simp add: redisContextConnectUnix_def redisCreateSocket_def q1 Let_def)
    then show ?thesis using True opened by (simp add: connect_ok_def failed_def)
  next
    case sock: False
    let ?c = "c\<lparr>rc_fd := s_ret s\<rparr>"
    have h1: "holding S ?c w1" using opened sock by simp
    have af: "AF_LOCAL \<noteq> AF_INET" by (simp add: AF_LOCAL_def AF_INET_def)
    have create: "redisCreateSocket os strerr c AF_LOCAL w = (REDIS_OK, ?c, w1)"
      using sock af by (simp add: redisCreateSocket_def q1 Let_def)
    obtain st2 c2 w2 where q2: "redisSetBlocking os strerr ?c False w1 = (st2, c2, w2)"
      by (cases "redisSetBlocking os strerr ?c False w1") auto
    note s2 = SetBlocking_spec [OF h1 q2]
    show ?thesis
    proof (cases "st2 = REDIS_OK")
      case False
      then have "redisContextConnectUnix os strerr c path timeout w = (REDIS_ERR, c2, w2)"
        by (simp add: redisContextConnectUnix_def create q2 Let_def)
      then show ?thesis using s2 False settled_connect failed_fd by metis
    next
      case True
      then have c2: "c2 = ?c" "holding S ?c w2" "fd_mode ?c w2 False" using s2 by auto
      obtain r w3 where q3: "syscall os (Connect (s_ret s) (take 107 (cstr path))) w2 = (r, w3)" by fastforce
      have c3: "holding S ?c w3" "fd_mode ?c w3 False"
        using quiet_call [OF _ q3] c2(2,3) by (auto simp: fd_mode_def)
      define wait where "wait \<longleftrightarrow> s_ret r = - 1 \<and> \<not> (w_errno w3 = EINPROGRESS \<and> \<not> blocking)"
      obtain st4 c4 w4 where q4: "(if wait then redisContextWaitReady os strerr ?c timeout w3 else (REDIS_OK, ?c, w3)) = (st4, c4, w4)"
        by (cases "if wait then redisContextWaitReady os strerr ?c timeout w3 else (REDIS_OK, ?c, w3)") auto
      have s4: "step_ok S ?c w3 (st4, c4, w4)"
        using WaitReady_step [OF c3(1), of os strerr timeout] step_ok_done [OF c3(1)] q4 by (cases wait) auto
      obtain st5 c5 w5 where q5: "(if blocking then redisSetBlocking os strerr c4 True w4 else (REDIS_OK, c4, w4)) = (st5, c5, w5)"
        by (cases "if blocking then redisSetBlocking os strerr c4 True w4 else (REDIS_OK, c4, w4)") auto
      have unix: "redisContextConnectUnix os strerr c path timeout w =
         (if st4 \<noteq> REDIS_OK then (REDIS_ERR, c4, w4)
          else if st5 \<noteq> REDIS_OK then (REDIS_ERR, c5, w5)
          else (REDIS_OK, c5\<lparr>rc_flags := rc_flags c5 OR REDIS_CONNECTED\<rparr>, w5))"
        using True q4 q5 unfolding wait_def blocking_def
        by (simp add: redisContextConnectUnix_def create q2 c2(1) q3 Let_def)
      show ?thesis
      proof (cases "st4 = REDIS_OK")
        case False
        then show ?thesis using unix s4 settled_connect failed_fd by (auto simp: step_ok_def)
      next
        case ok4: True
        then have c4: "c4 = ?c" "holding S ?c w4" "fd_mode ?c w4 False"
          using s4 c3(2) by (auto simp: step_ok_def fd_mode_def)
        have s5: "st5 = REDIS_OK \<and> c5 = ?c \<and> holding S ?c w5 \<and> fd_mode ?c w5 blocking \<or>
           st5 = REDIS_ERR \<and> failed ?c c5 \<and> (holding S c5 w5 \<or> closed S c5 w5)"
          using SetBlocking_spec [OF c4(2), of os strerr True st5 c5 w5] q5 c4 by (cases blocking) auto
        show ?thesis
        proof (cases "st5 = REDIS_OK")
          case False
          then show ?thesis using unix ok4 s5 settled_connect failed_fd by auto
        next
          case True
          then show ?thesis using unix ok4 s5 by (simp add: connect_ok_def holding_def fd_mode_def blocking_def)
        qed
      qed
    qed
  qed
qed

section \<open>Properties\<close>

text \<open>C38. Connecting, over TCP with or without a source address or over a Unix socket, never loses a
  socket, whatever the system calls return: on success the context owns exactly one new open
  socket, which is blocking exactly when the context is, and is marked as connected; on failure
  the error is set, the flags are as before, and at most the socket recorded in the context is
  still open.\<close>

theorem connect_keeps_sockets:
  assumes "os_ok os" "open_fds (w_trace w) = S"
  shows "connect_ok S c (redisContextConnectTcp os strerr gaierr c addr port timeout w)
    \<and> connect_ok S c (redisContextConnectBindTcp os strerr gaierr c addr port timeout (Some src) w)
    \<and> connect_ok S c (redisContextConnectUnix os strerr c path timeout w)"
  unfolding redisContextConnectTcp_def redisContextConnectBindTcp_def
  by (intro conjI ConnectAny_spec ConnectUnix_spec assms)

definition demo_os :: os where
  "demo_os t q =
     (let ok = \<lparr>s_ret = 0, s_errno = 0, s_value = 0, s_data = [], s_addrs = []\<rparr> in
      case q of
        Socket _ _ _ \<Rightarrow> ok\<lparr>s_ret := if 3 \<in> open_fds t then - 1 else 3\<rparr>
      | Connect _ _ \<Rightarrow> ok\<lparr>s_ret := - 1, s_errno := EINPROGRESS\<rparr>
      | GetAddrInfo _ _ _ \<Rightarrow> ok\<lparr>s_addrs := [\<lparr>ai_family = 2, ai_socktype = 1, ai_protocol = 0, ai_addr = ''a''\<rparr>]\<rparr>
      | _ \<Rightarrow> ok)"

theorem connect_keeps_sockets_witness:
  "\<exists>st c w. redisContextConnectTcp demo_os (\<lambda>e. '''') (\<lambda>e. '''')
       \<lparr>rc_err = 0, rc_errstr = '''', rc_fd = 0, rc_flags = 0, rc_obuf = None, rc_reader = None\<rparr> ''h'' 80 None
       \<lparr>w_trace = [], w_errno = 0\<rparr> = (st, c, w) \<and> st = REDIS_OK \<and> open_fds (w_trace w) = {rc_fd c}"
proof -
  let ?c = "\<lparr>rc_err = 0, rc_errstr = '''', rc_fd = 0, rc_flags = 0, rc_obuf = None, rc_reader = None\<rparr>"
  let ?w = "\<lparr>w_trace = [], w_errno = 0\<rparr>"
  let ?r = "redisContextConnectTcp demo_os (\<lambda>e. '''') (\<lambda>e. '''') ?c ''h'' 80 None ?w"
  have ok: "os_ok demo_os" by (simp add: os_ok_def demo_os_def Let_def)
  have empty: "open_fds (w_trace ?w) = {}" by simp
  have good: "connect_ok {} ?c ?r" using connect_keeps_sockets [OF ok empty] by blast
  have "fst ?r = REDIS_OK"
    by (simp add: redisContextConnectTcp_def redisContextConnectAny_def syscall_def demo_os_def Let_def
        redisSetBlocking_def bind_source_def finish_connect_def redisSetTcpNoDelay_def
        EINPROGRESS_def EHOSTUNREACH_def)
  then show ?thesis using good by (cases ?r) (auto simp: connect_ok_def holding_def status_codes)
qed

end
