(* ===== verification/RespStream.thy ===== *)
theory RespStream
  imports RespReader
begin

text \<open>
  What the protocol reader does does not depend on how the bytes of the peer are cut into
  pieces. \<open>ext c r r'\<close> says that the reader \<open>r'\<close> is in the same state as \<open>r\<close> with the bytes \<open>c\<close> more
  to read; every function of the reader is shown to respect it, up to the loop that takes the
  replies out after each piece.
\<close>

section \<open>Well-formed readers\<close>

definition buf_wf :: "reader \<Rightarrow> bool" where
  "buf_wf r \<longleftrightarrow> (\<exists>b. rd_buf r = Some b \<and> sds_ok b \<and> sh_len b = rd_len r \<and> sh_len b + sh_free b < 2 ^ 32)
     \<and> rd_pos r \<le> rd_len r \<and> rd_len r < 2 ^ 31"

definition known_type :: "int \<Rightarrow> bool" where
  "known_type t \<longleftrightarrow> t < 0 \<or> t \<in> {REDIS_REPLY_ERROR, REDIS_REPLY_STATUS, REDIS_REPLY_INTEGER,
     REDIS_REPLY_STRING, REDIS_REPLY_ARRAY}"

definition stack_wf :: "reader \<Rightarrow> bool" where
  "stack_wf r \<longleftrightarrow> length (rd_stack r) = 9 \<and> - 1 \<le> rd_ridx r \<and> rd_ridx r \<le> 8
     \<and> (0 \<le> rd_ridx r \<longrightarrow> known_type (t_type (cur_task r))
          \<and> \<not> (rd_ridx r = 8 \<and> t_type (cur_task r) = REDIS_REPLY_ARRAY))"

definition reader_wf :: "reader \<Rightarrow> bool" where
  "reader_wf r \<longleftrightarrow> rd_err r = 0 \<and> buf_wf r \<and> stack_wf r"

definition same_control :: "reader \<Rightarrow> reader \<Rightarrow> bool" where
  "same_control r r' \<longleftrightarrow> rd_err r' = rd_err r \<and> rd_errstr r' = rd_errstr r \<and> rd_maxbuf r' = rd_maxbuf r
     \<and> rd_stack r' = rd_stack r \<and> rd_ridx r' = rd_ridx r \<and> rd_reply r' = rd_reply r \<and> rd_store r' = rd_store r"

definition ext :: "byte list \<Rightarrow> reader \<Rightarrow> reader \<Rightarrow> bool" where
  "ext c r r' \<longleftrightarrow> reader_wf r \<and> reader_wf r' \<and> same_control r r' \<and> window r' = window r @ c"

text \<open>Moving the cursor.\<close>

definition adv :: "nat \<Rightarrow> reader \<Rightarrow> reader" where
  "adv n r = r\<lparr>rd_pos := rd_pos r + n\<rparr>"

lemma window_length: "buf_wf r \<Longrightarrow> length (window r) = rd_len r - rd_pos r"
  by (auto simp: buf_wf_def window_def sds_ok_def sds_shape_def)

lemma window_adv: "window (adv n r) = drop n (window r)"
  by (simp add: window_def adv_def add.commute split: option.split)

lemma buf_wf_adv: "buf_wf r \<Longrightarrow> n \<le> length (window r) \<Longrightarrow> buf_wf (adv n r)"
  using window_length [of r] by (auto simp: buf_wf_def adv_def)

lemma adv_fields [simp]:
  "rd_err (adv n r) = rd_err r" "rd_errstr (adv n r) = rd_errstr r" "rd_maxbuf (adv n r) = rd_maxbuf r"
  "rd_stack (adv n r) = rd_stack r" "rd_ridx (adv n r) = rd_ridx r" "rd_reply (adv n r) = rd_reply r"
  "rd_store (adv n r) = rd_store r" "rd_buf (adv n r) = rd_buf r" "rd_len (adv n r) = rd_len r"
  "rd_pos (adv n r) = rd_pos r + n"
  by (simp_all add: adv_def)

lemma same_control_adv: "same_control r r' \<Longrightarrow> same_control (adv n r) (adv m r')"
  by (simp add: same_control_def)

lemma stack_wf_adv [simp]: "stack_wf (adv n r) = stack_wf r"
  by (simp add: stack_wf_def cur_task_def task_at_def)

lemma ext_adv:
  assumes "ext c r r'" "n \<le> length (window r)" shows "ext c (adv n r) (adv n r')"
  using assms buf_wf_adv [of r n] buf_wf_adv [of r' n]
  by (simp add: ext_def reader_wf_def window_adv same_control_adv)

text \<open>Updates of the control part keep the buffer.\<close>

definition same_buffer :: "reader \<Rightarrow> reader \<Rightarrow> bool" where
  "same_buffer r s \<longleftrightarrow> rd_buf s = rd_buf r \<and> rd_pos s = rd_pos r \<and> rd_len s = rd_len r \<and> rd_err s = rd_err r
     \<and> rd_errstr s = rd_errstr r \<and> rd_maxbuf s = rd_maxbuf r"

lemma same_buffer_window: "same_buffer r s \<Longrightarrow> window s = window r"
  by (simp add: same_buffer_def window_def split: option.split)

lemma same_buffer_wf: "same_buffer r s \<Longrightarrow> buf_wf r \<Longrightarrow> buf_wf s"
  by (simp add: same_buffer_def buf_wf_def)

lemma same_buffer_trans: "same_buffer r s \<Longrightarrow> same_buffer s t \<Longrightarrow> same_buffer r t"
  by (simp add: same_buffer_def)

lemma same_buffer_refl [simp]: "same_buffer r r"
  by (simp add: same_buffer_def)

lemma ext_control:
  assumes "ext c r r'" "same_buffer r s" "same_buffer r' s'" "stack_wf s"
    and "rd_stack s' = rd_stack s" "rd_ridx s' = rd_ridx s" "rd_reply s' = rd_reply s" "rd_store s' = rd_store s"
  shows "ext c s s'"
proof -
  have "stack_wf s'" using assms(4-6) by (simp add: stack_wf_def cur_task_def task_at_def)
  moreover have "rd_err s = 0" "rd_err s' = 0"
    using assms(1-3) by (simp_all add: ext_def reader_wf_def same_buffer_def)
  moreover have "same_control s s'"
    using assms by (simp add: ext_def same_control_def same_buffer_def)
  ultimately show ?thesis
    using assms same_buffer_window [OF assms(2)] same_buffer_window [OF assms(3)]
      same_buffer_wf [OF assms(2)] same_buffer_wf [OF assms(3)]
    by (simp add: ext_def reader_wf_def)
qed

section \<open>The next task\<close>

lemma moveToNextTask_same_buffer: "moveToNextTask r = Some s \<Longrightarrow> same_buffer r s \<and> rd_reply s = rd_reply r \<and> rd_store s = rd_store r"
proof (induction r arbitrary: s rule: moveToNextTask.induct)
  case (1 r)
  from 1(2) show ?case
    by (subst (asm) moveToNextTask.simps)
      (auto simp: Let_def upd_task_def same_buffer_def split: if_splits dest!: 1(1) [OF _ _ refl refl])
qed

lemma moveToNextTask_wf:
  "moveToNextTask r = Some s \<Longrightarrow> length (rd_stack r) = 9 \<Longrightarrow> - 1 \<le> rd_ridx r \<Longrightarrow> rd_ridx r \<le> 8 \<Longrightarrow> stack_wf s"
proof (induction r arbitrary: s rule: moveToNextTask.induct)
  case (1 r)
  show ?case
  proof (cases "rd_ridx r \<le> 0")
    case True
    then show ?thesis using 1(2-)
      by (subst (asm) moveToNextTask.simps) (auto simp: stack_wf_def split: if_splits)
  next
    case False
    then have nat: "nat (rd_ridx r) < length (rd_stack r)" using 1(3,5) by simp
    from False 1(2) have "(t_idx (task_at r (rd_ridx r)) = t_elements (task_at r (rd_ridx r - 1)) - 1
        \<and> moveToNextTask (r\<lparr>rd_ridx := rd_ridx r - 1\<rparr>) = Some s
        \<and> t_type (task_at r (rd_ridx r - 1)) = REDIS_REPLY_ARRAY)
      \<or> s = upd_task r (nat (rd_ridx r)) (\<lambda>t. t\<lparr>t_type := - 1, t_elements := - 1, t_idx := t_idx t + 1\<rparr>)"
      by (subst (asm) moveToNextTask.simps) (auto simp: Let_def split: if_splits)
    then show ?thesis
    proof
      assume a: "t_idx (task_at r (rd_ridx r)) = t_elements (task_at r (rd_ridx r - 1)) - 1
        \<and> moveToNextTask (r\<lparr>rd_ridx := rd_ridx r - 1\<rparr>) = Some s
        \<and> t_type (task_at r (rd_ridx r - 1)) = REDIS_REPLY_ARRAY"
      show ?thesis
        by (rule 1(1) [OF _ _ refl refl]) (use a False 1(3-5) in auto)
    next
      assume "s = upd_task r (nat (rd_ridx r)) (\<lambda>t. t\<lparr>t_type := - 1, t_elements := - 1, t_idx := t_idx t + 1\<rparr>)"
      then show ?thesis using 1(3-5) nat False
        by (simp add: stack_wf_def upd_task_def cur_task_def task_at_def known_type_def REDIS_REPLY_ARRAY_def)
    qed
  qed
qed

text \<open>The next task depends on the stack only.\<close>

definition put_control :: "reader \<Rightarrow> reader \<Rightarrow> reader" where
  "put_control s r = r\<lparr>rd_stack := rd_stack s, rd_ridx := rd_ridx s, rd_reply := rd_reply s, rd_store := rd_store s\<rparr>"

lemma moveToNextTask_control:
  assumes "rd_stack r' = rd_stack r" "rd_ridx r' = rd_ridx r" "rd_reply r' = rd_reply r" "rd_store r' = rd_store r"
  shows "moveToNextTask r' = map_option (\<lambda>s. put_control s r') (moveToNextTask r)"
  using assms
proof (induction r arbitrary: r' rule: moveToNextTask.induct)
  case (1 r)
  consider (neg) "rd_ridx r < 0" | (zero) "rd_ridx r = 0"
    | (bad) "0 < rd_ridx r" "t_type (task_at r (rd_ridx r - 1)) \<noteq> REDIS_REPLY_ARRAY"
    | (pop) "0 < rd_ridx r" "t_type (task_at r (rd_ridx r - 1)) = REDIS_REPLY_ARRAY"
        "t_idx (task_at r (rd_ridx r)) = t_elements (task_at r (rd_ridx r - 1)) - 1"
    | (stay) "0 < rd_ridx r" "t_type (task_at r (rd_ridx r - 1)) = REDIS_REPLY_ARRAY"
        "t_idx (task_at r (rd_ridx r)) \<noteq> t_elements (task_at r (rd_ridx r - 1)) - 1"
    by linarith
  then show ?case
  proof cases
    case pop
    let ?q = "r\<lparr>rd_ridx := rd_ridx r - 1\<rparr>" and ?q' = "r'\<lparr>rd_ridx := rd_ridx r' - 1\<rparr>"
    have "moveToNextTask r = moveToNextTask ?q" "moveToNextTask r' = moveToNextTask ?q'"
      using pop 1(2-) by (subst moveToNextTask.simps, simp add: Let_def task_at_def)+
    moreover have "moveToNextTask ?q' = map_option (\<lambda>s. put_control s ?q') (moveToNextTask ?q)"
      using pop 1(2-) by (intro 1(1) [OF _ _ refl refl]) auto
    moreover have "put_control s ?q' = put_control s r'" for s by (simp add: put_control_def)
    ultimately show ?thesis by simp
  qed (use 1(2-) in \<open>subst moveToNextTask.simps, subst (2) moveToNextTask.simps,
      simp add: Let_def task_at_def put_control_def upd_task_def\<close>)+
qed

lemma ext_moveToNextTask:
  assumes "ext c r r'"
  shows "rel_option (ext c) (moveToNextTask r) (moveToNextTask r')"
proof (cases "moveToNextTask r")
  case None
  then show ?thesis using moveToNextTask_control [of r' r] assms by (simp add: ext_def same_control_def)
next
  case (Some s)
  have eq: "moveToNextTask r' = Some (put_control s r')"
    using moveToNextTask_control [of r' r] assms Some by (simp add: ext_def same_control_def)
  have "stack_wf s"
    using assms moveToNextTask_wf [OF Some] by (simp add: ext_def reader_wf_def stack_wf_def)
  then have "ext c s (put_control s r')"
    using moveToNextTask_same_buffer [OF Some]
    by (intro ext_control [OF assms]) (auto simp: put_control_def same_buffer_def)
  then show ?thesis using Some eq by simp
qed
section \<open>Items\<close>

definition out_rel :: "byte list \<Rightarrow> reader \<Rightarrow> (int \<times> reader) option \<Rightarrow> (int \<times> reader) option \<Rightarrow> bool" where
  "out_rel c r x y \<longleftrightarrow> rel_option (\<lambda>(st, s) (st', s'). st' = st \<and>
     (st = REDIS_OK \<and> ext c s s' \<and> length (window s) < length (window r)
      \<or> st = REDIS_ERR \<and> s' = s \<and> rd_err s \<noteq> 0)) x y"

definition stuck_or :: "byte list \<Rightarrow> reader \<Rightarrow> reader \<Rightarrow> (int \<times> reader) option \<Rightarrow> (int \<times> reader) option \<Rightarrow> bool" where
  "stuck_or c r r' x y \<longleftrightarrow> x = Some (REDIS_ERR, r) \<and> (c = [] \<longrightarrow> y = Some (REDIS_ERR, r')) \<or> out_rel c r x y"

lemma ext_window_prefix: "ext c r r' \<Longrightarrow> window r' = window r @ c"
  by (simp add: ext_def)

lemma ext_lengths:
  "ext c r r' \<Longrightarrow> rd_len r - rd_pos r = length (window r) \<and> rd_len r' - rd_pos r' = length (window r @ c)
     \<and> length (window r @ c) < 2 ^ 31"
proof -
  assume e: "ext c r r'"
  then have "buf_wf r" "buf_wf r'" by (simp_all add: ext_def reader_wf_def)
  then show ?thesis
    using window_length [of r] window_length [of r'] ext_window_prefix [OF e]
    by (auto simp: buf_wf_def)
qed

lemma SetError_eq:
  assumes "ext c r r'"
  shows "redisReaderSetError (adv n r') t m = redisReaderSetError (adv k r) t m"
  using assms
  by (auto simp: ext_def reader_wf_def buf_wf_def same_control_def redisReaderSetError_def adv_def)

lemma SetError_adv0: "redisReaderSetError r t m = redisReaderSetError (adv 0 r) t m"
  by (simp add: adv_def)

lemma out_rel_error:
  assumes "ext c r r'" "t \<noteq> 0"
  shows "out_rel c q (Some (REDIS_ERR, redisReaderSetError (adv k r) t m))
      (Some (REDIS_ERR, redisReaderSetError (adv n r') t m))"
  using SetError_eq [OF assms(1), of n t m k] assms(2)
  by (simp add: out_rel_def redisReaderSetError_def)

lemma out_rel_error0:
  assumes "ext c r r'" "t \<noteq> 0"
  shows "out_rel c q (Some (REDIS_ERR, redisReaderSetError r t m)) (Some (REDIS_ERR, redisReaderSetError r' t m))"
  using out_rel_error [OF assms, of q 0 m 0] by (simp add: adv_def)

lemma ext_finish_item:
  assumes "ext c (adv n r) (adv n r')" "0 < n" "n \<le> length (window r)"
  shows "out_rel c r (finish_item (adv n r) created) (finish_item (adv n r') created)"
proof -
  let ?f = "\<lambda>r. r\<lparr>rd_store := snd created, rd_reply := (if rd_ridx r = 0 then Some (fst created) else rd_reply r)\<rparr>"
  have e: "ext c (?f (adv n r)) (?f (adv n r'))"
    by (rule ext_control [OF assms(1)])
      (use assms(1) in \<open>auto simp: same_buffer_def ext_def reader_wf_def stack_wf_def cur_task_def task_at_def same_control_def\<close>)
  have small: "length (window s) < length (window r)" if "moveToNextTask (?f (adv n r)) = Some s" for s
  proof -
    have "same_buffer (adv n r) s"
      using moveToNextTask_same_buffer [OF that] by (auto simp: same_buffer_def)
    then have "window s = drop n (window r)" using same_buffer_window window_adv by metis
    then show ?thesis using assms(2,3) by simp
  qed
  show ?thesis
    using ext_moveToNextTask [OF e] small
    by (cases "moveToNextTask (?f (adv n r))"; cases "moveToNextTask (?f (adv n r'))")
      (auto simp: finish_item_def Let_def out_rel_def)
qed

lemma read_digits_append: "CR \<in> set s \<Longrightarrow> read_digits v (s @ c) = read_digits v s"
  by (induction v s rule: read_digits.induct) (auto simp: Let_def)

lemma readLongLong_append:
  assumes "nl_at s k" shows "readLongLong (s @ c) = readLongLong s"
proof -
  have k: "k + 1 < length s" "s ! k = CR" using assms by (auto simp: nl_at_def)
  then obtain x xs where s: "s = x # xs" by (cases s) auto
  have p: "peek (s @ c) 0 = peek s 0" by (simp add: s peek_def)
  have "CR \<in> set s" using k nth_mem [of k s] by simp
  moreover have "CR \<in> set (drop 1 s)" if "peek s 0 = CHR ''-'' \<or> peek s 0 = CHR ''+''"
  proof -
    have "x \<noteq> CR" using that by (auto simp: s peek_def)
    then show ?thesis using \<open>CR \<in> set s\<close> by (simp add: s)
  qed
  moreover have "drop 1 (s @ c) = drop 1 s @ c" using k by simp
  ultimately show ?thesis
    unfolding readLongLong_def Let_def p by (auto simp: read_digits_append)
qed

lemma nl_bounds: "seekNewline s (length s) = Some k \<Longrightarrow> length s < 2 ^ 31 \<Longrightarrow> nl_at s k \<and> k + 2 \<le> length s"
  using seekNewline_Some [of s k] by (auto simp: nl_at_def)

lemma created_eq:
  assumes "same_control r r'"
  shows "cur_task r' = cur_task r"
  using assms by (simp add: same_control_def cur_task_def task_at_def)

lemma take_append_le: "n \<le> length s \<Longrightarrow> take n (s @ c) = take n s"
  by simp

lemma createStringObject_prefix:
  "n \<le> length s \<Longrightarrow> createStringObject st cur h (s @ c) n = createStringObject st cur h s n"
  by (simp add: createStringObject_def Let_def)

lemma ext_processLineItem:
  assumes e: "ext c r r'"
  shows "stuck_or c r r' (processLineItem oom r) (processLineItem oom r')"
proof (cases "seekNewline (window r) (length (window r))")
  case None
  then show ?thesis
    using ext_lengths [OF e] ext_window_prefix [OF e]
    by (auto simp: stuck_or_def processLineItem_def readLine_def Let_def)
next
  case (Some k)
  have len: "length (window r @ c) < 2 ^ 31" "length (window r) < 2 ^ 31" using ext_lengths [OF e] by auto
  note nl = nl_bounds [OF Some len(2)]
  have some': "seekNewline (window r @ c) (length (window r @ c)) = Some k"
    by (rule seekNewline_append [OF len(1) Some])
  have lines: "readLine r = Some (window r, k, adv (k + 2) r)" "readLine r' = Some (window r @ c, k, adv (k + 2) r')"
    using Some some' ext_lengths [OF e] ext_window_prefix [OF e] by (simp_all add: readLine_def Let_def adv_def)
  have ctl: "same_control r r'" using e by (simp add: ext_def)
  have e2: "ext c (adv (k + 2) r) (adv (k + 2) r')" using ext_adv [OF e] nl by simp
  let ?created = "if t_type (cur_task r) = REDIS_REPLY_INTEGER
    then createIntegerObject (rd_stack r) (nat (rd_ridx r)) (rd_store r) (readLongLong (window r))
    else createStringObject (rd_stack r) (nat (rd_ridx r)) (rd_store r) (window r) k"
  have created: "(if t_type (cur_task r') = REDIS_REPLY_INTEGER
    then createIntegerObject (rd_stack r') (nat (rd_ridx r')) (rd_store r') (readLongLong (window r @ c))
    else createStringObject (rd_stack r') (nat (rd_ridx r')) (rd_store r') (window r @ c) k) = ?created"
    using ctl nl readLongLong_append [of "window r" k c] createStringObject_prefix [of k "window r" _ _ _ c]
    by (simp add: created_eq [OF ctl] same_control_def)
  have "out_rel c r (processLineItem oom r) (processLineItem oom r')"
  proof (cases "oom (length (rd_store r))")
    case True
    then show ?thesis
      using ctl out_rel_error [OF e, of REDIS_ERR_OOM r "k + 2" _ "k + 2"]
      by (simp add: processLineItem_def lines same_control_def redisReaderSetErrorOOM_def REDIS_ERR_OOM_def)
  next
    case False
    moreover from this have "\<not> oom (length (rd_store r'))" using ctl by (simp add: same_control_def)
    ultimately have "processLineItem oom r = (case ?created of None \<Rightarrow> None | Some x \<Rightarrow> finish_item (adv (k + 2) r) x)"
      "processLineItem oom r' = (case ?created of None \<Rightarrow> None | Some x \<Rightarrow> finish_item (adv (k + 2) r') x)"
      by (simp_all only: processLineItem_def lines Let_def option.case prod.case if_False created)
    then show ?thesis
      using ext_finish_item [OF e2] nl by (auto simp: out_rel_def split: option.split)
  qed
  then show ?thesis by (simp add: stuck_or_def)
qed

lemma ext_processBulkItem:
  assumes e: "ext c r r'"
  shows "stuck_or c r r' (processBulkItem oom r) (processBulkItem oom r')"
proof (cases "seekNewline (window r) (length (window r))")
  case None
  then show ?thesis
    using ext_lengths [OF e] ext_window_prefix [OF e]
    by (auto simp: stuck_or_def processBulkItem_def Let_def)
next
  case (Some k)
  have len: "length (window r @ c) < 2 ^ 31" "length (window r) < 2 ^ 31" using ext_lengths [OF e] by auto
  note nl = nl_bounds [OF Some len(2)]
  have some': "seekNewline (window r @ c) (length (window r @ c)) = Some k"
    by (rule seekNewline_append [OF len(1) Some])
  have ctl: "same_control r r'" using e by (simp add: ext_def)
  have lens: "rd_len r - rd_pos r = length (window r)" "rd_len r' - rd_pos r' = length (window r @ c)"
    using ext_lengths [OF e] by simp_all
  have pos: "rd_pos r \<le> rd_len r" "rd_pos r' \<le> rd_len r'" using e by (simp_all add: ext_def reader_wf_def buf_wf_def)
  define n where "n = readLongLong (window r)"
  define total where "total = (if n < 0 then k + 2 else k + 2 + (nat n + 2))"
  let ?mk = "\<lambda>w. if n < 0 then createNilObject (rd_stack r) (nat (rd_ridx r)) (rd_store r)
     else createStringObject (rd_stack r) (nat (rd_ridx r)) (rd_store r) (drop (k + 2) w) (nat n)"
  let ?rest = "\<lambda>w q. if n < 0 \<or> total \<le> length w
     then (if oom (length (rd_store r)) then Some (REDIS_ERR, redisReaderSetErrorOOM q)
           else case ?mk w of None \<Rightarrow> None | Some x \<Rightarrow> finish_item (adv total q) x)
     else Some (REDIS_ERR, q)"
  have fit: "rd_pos r + (k + 2 + (nat n + 2)) \<le> rd_len r \<longleftrightarrow> k + 2 + (nat n + 2) \<le> length (window r)"
    "rd_pos r' + (k + 2 + (nat n + 2)) \<le> rd_len r' \<longleftrightarrow> k + 2 + (nat n + 2) \<le> length (window r @ c)"
    using lens pos by auto
  have n': "readLongLong (window r @ c) = n" using readLongLong_append nl unfolding n_def by blast
  have eq: "processBulkItem oom r = ?rest (window r) r"
    unfolding processBulkItem_def Let_def lens Some option.case n_def [symmetric] fit
    by (simp add: total_def adv_def cong: option.case_cong)
  have eq': "processBulkItem oom r' = ?rest (window r @ c) r'"
    unfolding processBulkItem_def Let_def lens ext_window_prefix [OF e] some' option.case n' fit
    using ctl by (simp add: total_def adv_def same_control_def cong: option.case_cong)
  show ?thesis
  proof (cases "n < 0 \<or> total \<le> length (window r)")
    case False
    then show ?thesis by (auto simp: eq eq' stuck_or_def)
  next
    case True
    then have short: "total \<le> length (window r)" "0 < total" using nl by (auto simp: total_def)
    have both: "(n < 0 \<or> total \<le> length (window r @ c)) = True" "(n < 0 \<or> total \<le> length (window r)) = True"
      using short by auto
    have mk: "?mk (window r @ c) = ?mk (window r)"
      using short createStringObject_prefix [of "nat n" "drop (k + 2) (window r)" _ _ _ c]
      by (auto simp: total_def)
    have "out_rel c r (?rest (window r) r) (?rest (window r @ c) r')"
    proof (cases "oom (length (rd_store r))")
      case True
      then show ?thesis unfolding both if_True redisReaderSetErrorOOM_def
        using out_rel_error0 [OF e, of REDIS_ERR_OOM] by (simp add: REDIS_ERR_OOM_def)
    next
      case False
      then show ?thesis unfolding both if_True mk
        using ext_finish_item [OF ext_adv [OF e short(1)] short(2,1)]
        by (auto simp: out_rel_def split: option.split)
    qed
    then show ?thesis unfolding eq eq' stuck_or_def by blast
  qed
qed

lemma set_root_ext:
  assumes "ext c s s'"
  shows "ext c (if root then s\<lparr>rd_reply := Some a\<rparr> else s) (if root then s'\<lparr>rd_reply := Some a\<rparr> else s')"
proof (cases root)
  case True
  have "ext c (s\<lparr>rd_reply := Some a\<rparr>) (s'\<lparr>rd_reply := Some a\<rparr>)"
    by (rule ext_control [OF assms])
      (use assms in \<open>auto simp: same_buffer_def ext_def reader_wf_def stack_wf_def cur_task_def task_at_def same_control_def\<close>)
  with True show ?thesis by simp
qed (use assms in simp)

lemma ext_move_then_root:
  assumes e: "ext c (adv n r) (adv n r')" "0 < n" "n \<le> length (window r)"
  shows "out_rel c r
    (map_option (\<lambda>s. (REDIS_OK, if root then s\<lparr>rd_reply := Some a\<rparr> else s)) (moveToNextTask ((adv n r)\<lparr>rd_store := h\<rparr>)))
    (map_option (\<lambda>s. (REDIS_OK, if root then s\<lparr>rd_reply := Some a\<rparr> else s)) (moveToNextTask ((adv n r')\<lparr>rd_store := h\<rparr>)))"
proof -
  have e2: "ext c ((adv n r)\<lparr>rd_store := h\<rparr>) ((adv n r')\<lparr>rd_store := h\<rparr>)"
    by (rule ext_control [OF e(1)])
      (use e(1) in \<open>auto simp: same_buffer_def ext_def reader_wf_def stack_wf_def cur_task_def task_at_def same_control_def\<close>)
  have small: "length (window (if root then s\<lparr>rd_reply := Some a\<rparr> else s)) < length (window r)"
    if "moveToNextTask ((adv n r)\<lparr>rd_store := h\<rparr>) = Some s" for s
  proof -
    have "same_buffer (adv n r) (if root then s\<lparr>rd_reply := Some a\<rparr> else s)"
      using moveToNextTask_same_buffer [OF that] by (auto simp: same_buffer_def)
    then have "window (if root then s\<lparr>rd_reply := Some a\<rparr> else s) = drop n (window r)"
      using same_buffer_window window_adv by metis
    then show ?thesis using e(2,3) by simp
  qed
  show ?thesis
  proof (cases "moveToNextTask ((adv n r)\<lparr>rd_store := h\<rparr>)")
    case None
    then show ?thesis using ext_moveToNextTask [OF e2] by (simp add: out_rel_def)
  next
    case (Some s)
    then obtain s' where s': "moveToNextTask ((adv n r')\<lparr>rd_store := h\<rparr>) = Some s'" "ext c s s'"
      using ext_moveToNextTask [OF e2] by (auto simp: option_rel_Some1)
    show ?thesis using set_root_ext [OF s'(2), of root a] small [OF Some] Some s'(1)
      by (simp add: out_rel_def)
  qed
qed

lemma ext_push:
  assumes e: "ext c r r'" and ridx: "0 \<le> rd_ridx r" "rd_ridx r < 8"
  shows "ext c (push_task r k a h) (push_task r' k a h)"
proof (rule ext_control [OF e])
  show "same_buffer r (push_task r k a h)" "same_buffer r' (push_task r' k a h)"
    by (simp_all add: push_task_def same_buffer_def)
  have "length (rd_stack r) = 9" using e by (simp add: ext_def reader_wf_def stack_wf_def)
  moreover have "nat (rd_ridx r) + 1 < 9" using ridx by simp
  moreover have "nat (rd_ridx r + 1) = nat (rd_ridx r) + 1" using ridx by simp
  ultimately show "stack_wf (push_task r k a h)"
    using ridx by (simp add: push_task_def stack_wf_def cur_task_def task_at_def known_type_def REDIS_REPLY_ARRAY_def)
qed (use e in \<open>simp_all add: push_task_def ext_def same_control_def\<close>)

lemma push_window: "window (push_task r k a h) = window r"
  by (rule same_buffer_window) (simp add: push_task_def same_buffer_def)

lemma ext_processMultiBulkItem:
  assumes e: "ext c r r'" and ridx: "0 \<le> rd_ridx r" "rd_ridx r < 8"
  shows "stuck_or c r r' (processMultiBulkItem oom r) (processMultiBulkItem oom r')"
proof -
  have ctl: "same_control r r'" using e by (simp add: ext_def)
  have ridx8: "(rd_ridx r = 8) = False" "(rd_ridx r' = 8) = False" using ridx ctl by (auto simp: same_control_def)
  show ?thesis
  proof (cases "seekNewline (window r) (length (window r))")
    case None
    then show ?thesis
      using ext_lengths [OF e] ext_window_prefix [OF e] ridx8
      by (auto simp: stuck_or_def processMultiBulkItem_def readLine_def Let_def)
  next
    case (Some k)
    have len: "length (window r @ c) < 2 ^ 31" "length (window r) < 2 ^ 31" using ext_lengths [OF e] by auto
    note nl = nl_bounds [OF Some len(2)]
    have some': "seekNewline (window r @ c) (length (window r @ c)) = Some k"
      by (rule seekNewline_append [OF len(1) Some])
    have lines: "readLine r = Some (window r, k, adv (k + 2) r)" "readLine r' = Some (window r @ c, k, adv (k + 2) r')"
      using Some some' ext_lengths [OF e] ext_window_prefix [OF e] by (simp_all add: readLine_def Let_def adv_def)
    have e2: "ext c (adv (k + 2) r) (adv (k + 2) r')" using ext_adv [OF e] nl by simp
    define m where "m = readLongLong (window r)"
    define n where "n = k + 2"
    note m' = trans [OF readLongLong_append [OF conjunct1 [OF nl]] m_def [symmetric]]
    let ?root = "rd_ridx r = 0"
    let ?set = "\<lambda>a s. if ?root then s\<lparr>rd_reply := Some a\<rparr> else s"
    let ?cur = "nat (rd_ridx r)"
    let ?rest = "\<lambda>q. if oom (length (rd_store r)) then Some (REDIS_ERR, redisReaderSetErrorOOM (adv n q))
      else if m = - 1 then
        (case createNilObject (rd_stack r) ?cur (rd_store r) of None \<Rightarrow> None
         | Some (a, h) \<Rightarrow> map_option (\<lambda>s. (REDIS_OK, ?set a s)) (moveToNextTask ((adv n q)\<lparr>rd_store := h\<rparr>)))
      else
        (case createArrayObject (rd_stack r) ?cur (rd_store r) (c_int m) of None \<Rightarrow> None
         | Some (a, h) \<Rightarrow>
             if m > 0 then Some (REDIS_OK, ?set a (push_task (adv n q) (c_int m) a h))
             else map_option (\<lambda>s. (REDIS_OK, ?set a s)) (moveToNextTask ((adv n q)\<lparr>rd_store := h\<rparr>)))"
    have eq: "processMultiBulkItem oom r = ?rest r"
      unfolding processMultiBulkItem_def Let_def ridx8 if_False lines option.case prod.case m_def [symmetric] n_def
      by (simp cong: option.case_cong)
    have f: "rd_stack r' = rd_stack r" "rd_ridx r' = rd_ridx r" "rd_store r' = rd_store r"
      using ctl by (simp_all add: same_control_def)
    have eq': "processMultiBulkItem oom r' = ?rest r'"
      unfolding processMultiBulkItem_def Let_def ridx8 if_False lines option.case prod.case m' n_def f
      by (simp cong: option.case_cong)
    have e3: "ext c (adv n r) (adv n r')" "0 < n" "n \<le> length (window r)"
      using e2 nl by (simp_all add: n_def)
    note mv = ext_move_then_root [OF e3, of ?root]
    have push: "out_rel c r (Some (REDIS_OK, ?set a (push_task (adv n r) (c_int m) a h)))
        (Some (REDIS_OK, ?set a (push_task (adv n r') (c_int m) a h)))" for a h
    proof -
      have "ext c (?set a (push_task (adv n r) (c_int m) a h)) (?set a (push_task (adv n r') (c_int m) a h))"
        by (rule set_root_ext [OF ext_push [OF e3(1)]]) (use ridx in simp_all)
      moreover have "window (?set a (push_task (adv n r) (c_int m) a h)) = drop n (window r)"
      proof -
        have "window (s\<lparr>rd_reply := x\<rparr>) = window s" for s x by (rule same_buffer_window) (simp add: same_buffer_def)
        then show ?thesis by (simp add: push_window window_adv)
      qed
      moreover have "length (window r) - n < length (window r)" using e3(2,3) by linarith
      ultimately show ?thesis by (simp add: out_rel_def)
    qed
    have "out_rel c r (?rest r) (?rest r')"
    proof (cases "oom (length (rd_store r))")
      case True
      then show ?thesis unfolding redisReaderSetErrorOOM_def
        using out_rel_error [OF e, of REDIS_ERR_OOM r n _ n] by (simp add: REDIS_ERR_OOM_def)
    next
      case False
      have none: "out_rel c r None None" by (simp add: out_rel_def)
      show ?thesis unfolding if_not_P [OF False]
        using mv push none by (cases "m = - 1"; cases "m > 0") (auto split: option.split)
    qed
    then show ?thesis unfolding eq eq' stuck_or_def by blast
  qed
qed

lemma ext_process_typed:
  assumes e: "ext c r r'" and typed: "0 \<le> rd_ridx r"
  shows "stuck_or c r r' (process_typed oom r) (process_typed oom r')"
proof -
  have ct: "cur_task r' = cur_task r" using e created_eq by (simp add: ext_def)
  have "rd_ridx r < 8" if "t_type (cur_task r) = REDIS_REPLY_ARRAY"
    using e that typed by (auto simp: ext_def reader_wf_def stack_wf_def)
  then show ?thesis
    using ext_processLineItem [OF e] ext_processBulkItem [OF e] ext_processMultiBulkItem [OF e typed]
    by (auto simp: process_typed_def ct Let_def stuck_or_def out_rel_def)
qed

section \<open>The loop over the items\<close>

definition item_stuck :: "byte list \<Rightarrow> (nat \<Rightarrow> bool) \<Rightarrow> reader \<Rightarrow> reader \<Rightarrow> bool" where
  "item_stuck c oom r r' \<longleftrightarrow> (\<exists>s s'. processItem oom r = Some (REDIS_ERR, s) \<and> ext c s s' \<and> 0 \<le> rd_ridx s
     \<and> processItem oom r' = processItem oom s' \<and> (c = [] \<longrightarrow> processItem oom r' = Some (REDIS_ERR, s')))"

lemma item_stuck_here:
  "\<lbrakk> ext c r r'; 0 \<le> rd_ridx r; processItem oom r = Some (REDIS_ERR, r);
     c = [] \<longrightarrow> processItem oom r' = Some (REDIS_ERR, r') \<rbrakk> \<Longrightarrow> item_stuck c oom r r'"
  unfolding item_stuck_def by blast

lemma reply_type_of_known: "reply_type_of b = Some t \<Longrightarrow> known_type t \<and> 0 < t"
  by (auto simp: reply_type_of_def known_type_def reply_types split: if_splits)

lemma ext_processItem:
  assumes e: "ext c r r'" and ridx: "0 \<le> rd_ridx r"
  shows "item_stuck c oom r r' \<or> out_rel c r (processItem oom r) (processItem oom r')"
proof (cases "t_type (cur_task r) < 0")
  case False
  have ct: "cur_task r' = cur_task r" using e created_eq by (simp add: ext_def)
  have "processItem oom r = process_typed oom r" "processItem oom r' = process_typed oom r'"
    using False ct by (simp_all add: processItem_def)
  then show ?thesis
    using ext_process_typed [OF e ridx, of oom] item_stuck_here [OF e ridx, of oom]
    by (auto simp: stuck_or_def)
next
  case True
  have ctl: "same_control r r'" and ct: "cur_task r' = cur_task r" using e created_eq by (simp_all add: ext_def)
  note lens = ext_lengths [OF e]
  show ?thesis
  proof (cases "window r = []")
    case empty: True
    then have "rd_len r - rd_pos r = 0" using lens by simp
    then have "processItem oom r = Some (REDIS_ERR, r)"
      using True by (simp add: processItem_def readBytes_def)
    moreover have "c = [] \<longrightarrow> processItem oom r' = Some (REDIS_ERR, r')"
      using True lens empty by (simp add: processItem_def readBytes_def ct)
    ultimately show ?thesis using e ridx by (auto simp: item_stuck_def)
  next
    case False
    then have one: "1 \<le> length (window r)" by (cases "window r") auto
    then have read: "readBytes r 1 = Some (window r, adv 1 r)" "readBytes r' 1 = Some (window r @ c, adv 1 r')"
      using lens ext_window_prefix [OF e] by (simp_all add: readBytes_def adv_def)
    have head: "peek (window r @ c) 0 = peek (window r) 0" using False by (simp add: peek_def nth_append)
    note e1 = ext_adv [OF e one]
    show ?thesis
    proof (cases "reply_type_of (peek (window r) 0)")
      case None
      then have "out_rel c r (processItem oom r) (processItem oom r')"
        using True ct read head out_rel_error [OF e, of REDIS_ERR_PROTOCOL r 1 _ 1]
        by (simp add: processItem_def redisReaderSetErrorProtocolByte_def REDIS_ERR_PROTOCOL_def)
      then show ?thesis by simp
    next
      case (Some t)
      note kt = reply_type_of_known [OF Some]
      let ?u = "\<lambda>q. upd_task q (nat (rd_ridx r)) (\<lambda>x. x\<lparr>t_type := t\<rparr>)"
      let ?s = "?u (adv 1 r)" and ?s' = "?u (adv 1 r')"
      have eqs: "processItem oom r = process_typed oom ?s" "processItem oom r' = process_typed oom ?s'"
        using True ct ctl read head Some by (simp_all add: processItem_def same_control_def)
      have stack: "length (rd_stack r) = 9" "nat (rd_ridx r) < 9"
        using e by (auto simp: ext_def reader_wf_def stack_wf_def)
      have ct_s: "t_type (cur_task ?s) = t" "t_type (cur_task ?s') = t"
        using stack ctl by (simp_all add: upd_task_def cur_task_def task_at_def same_control_def)
      have typed: "processItem oom ?s' = process_typed oom ?s'"
        using kt ct_s by (simp add: processItem_def)
      show ?thesis
      proof (cases "t = REDIS_REPLY_ARRAY \<and> rd_ridx r = 8")
        case True
        have sb: "redisReaderSetError ?s' q m = redisReaderSetError ?s q m" for q m
          using e by (auto simp: ext_def reader_wf_def buf_wf_def same_control_def redisReaderSetError_def upd_task_def adv_def)
        have "process_typed oom ?s = Some (REDIS_ERR, redisReaderSetError ?s REDIS_ERR_PROTOCOL
                ''No support for nested multi bulk replies with depth > 7'')"
          "process_typed oom ?s' = Some (REDIS_ERR, redisReaderSetError ?s' REDIS_ERR_PROTOCOL
                ''No support for nested multi bulk replies with depth > 7'')"
          using True ct_s ctl by (simp_all add: process_typed_def processMultiBulkItem_def reply_types
              upd_task_def same_control_def)
        then show ?thesis unfolding eqs sb
          by (simp add: out_rel_def redisReaderSetError_def REDIS_ERR_PROTOCOL_def)
      next
        case False
        have "stack_wf ?s"
          using e kt False ct_s by (auto simp: ext_def reader_wf_def stack_wf_def upd_task_def)
        then have es: "ext c ?s ?s'"
          using ctl by (intro ext_control [OF e1]) (simp_all add: upd_task_def same_buffer_def same_control_def)
        have ws: "window ?s = drop 1 (window r)"
          using same_buffer_window [of "adv 1 r" ?s] by (simp add: upd_task_def same_buffer_def window_adv)
        have rs: "rd_ridx ?s = rd_ridx r" by (simp add: upd_task_def)
        consider (stuck) "process_typed oom ?s = Some (REDIS_ERR, ?s)" "c = [] \<longrightarrow> process_typed oom ?s' = Some (REDIS_ERR, ?s')"
          | (out) "out_rel c ?s (process_typed oom ?s) (process_typed oom ?s')"
          using ext_process_typed [OF es, of oom] ridx rs by (auto simp: stuck_or_def)
        then show ?thesis
        proof cases
          case stuck
          then show ?thesis using es eqs typed ridx rs by (auto simp: item_stuck_def)
        next
          case out
          then have "out_rel c r (process_typed oom ?s) (process_typed oom ?s')"
            using ws by (auto simp: out_rel_def elim!: option.rel_mono_strong)
          then show ?thesis unfolding eqs by simp
        qed
      qed
    qed
  qed
qed

text \<open>A successful item takes bytes, so the guard of the loop never stops it.\<close>

lemma processItem_progress:
  assumes "reader_wf r" "0 \<le> rd_ridx r" "processItem oom r = Some (REDIS_OK, s)"
  shows "reader_wf s \<and> length (window s) < length (window r)"
proof -
  have "ext [] r r" using assms(1) by (simp add: ext_def same_control_def)
  from ext_processItem [OF this assms(2), of oom] show ?thesis
    using assms(3) by (auto simp: item_stuck_def out_rel_def REDIS_ERR_def REDIS_OK_def ext_def)
qed

lemma process_items_unfold:
  assumes "reader_wf r" "0 \<le> rd_ridx r"
  shows "process_items oom r = (case processItem oom r of None \<Rightarrow> None
    | Some (st, r') \<Rightarrow> if st \<noteq> REDIS_OK then Some r' else process_items oom r')"
proof -
  have "\<not> rd_ridx r < 0" using assms(2) by simp
  then show ?thesis
    using processItem_progress [OF assms] by (subst process_items.simps) (auto split: option.split)
qed

definition loop_stuck :: "byte list \<Rightarrow> (nat \<Rightarrow> bool) \<Rightarrow> reader \<Rightarrow> reader \<Rightarrow> bool" where
  "loop_stuck c oom r r' \<longleftrightarrow> (\<exists>s s'. process_items oom r = Some s \<and> ext c s s' \<and> 0 \<le> rd_ridx s
     \<and> process_items oom r' = process_items oom s' \<and> (c = [] \<longrightarrow> process_items oom r' = Some s'))"

definition loop_rel :: "byte list \<Rightarrow> reader \<Rightarrow> reader option \<Rightarrow> reader option \<Rightarrow> bool" where
  "loop_rel c r = rel_option (\<lambda>s s'. ext c s s' \<and> rd_ridx s = - 1 \<and> length (window s) \<le> length (window r)
       \<and> (0 \<le> rd_ridx r \<longrightarrow> length (window s) < length (window r))
     \<or> s' = s \<and> rd_err s \<noteq> 0)"

lemma ext_process_items:
  "ext c r r' \<Longrightarrow> loop_stuck c oom r r' \<or> loop_rel c r (process_items oom r) (process_items oom r')"
proof (induction "length (window r)" arbitrary: r r' rule: less_induct)
  case less
  note e = less.prems
  have ctl: "rd_ridx r' = rd_ridx r" and wf: "reader_wf r" "reader_wf r'"
    using e by (simp_all add: ext_def same_control_def)
  show ?case
  proof (cases "rd_ridx r < 0")
    case True
    then have "rd_ridx r = - 1" using wf by (simp add: reader_wf_def stack_wf_def)
    moreover have "process_items oom r = Some r" "process_items oom r' = Some r'"
      using True ctl by (subst process_items.simps, simp)+
    ultimately show ?thesis using e by (simp add: loop_rel_def)
  next
    case False
    then have ridx: "0 \<le> rd_ridx r" "0 \<le> rd_ridx r'" using ctl by auto
    note unf = process_items_unfold [OF wf(1) ridx(1), of oom] process_items_unfold [OF wf(2) ridx(2), of oom]
    consider (stuck) "item_stuck c oom r r'" | (out) "out_rel c r (processItem oom r) (processItem oom r')"
      using ext_processItem [OF e ridx(1)] by blast
    then show ?thesis
    proof cases
      case stuck
      then obtain s s' where s: "processItem oom r = Some (REDIS_ERR, s)" "ext c s s'" "0 \<le> rd_ridx s"
        "processItem oom r' = processItem oom s'" "c = [] \<longrightarrow> processItem oom r' = Some (REDIS_ERR, s')"
        unfolding item_stuck_def by blast
      have "reader_wf s'" "0 \<le> rd_ridx s'" using s(2,3) by (simp_all add: ext_def same_control_def)
      from process_items_unfold [OF this, of oom] unf s have "loop_stuck c oom r r'"
        unfolding loop_stuck_def by (intro exI [of _ s] exI [of _ s']) (simp add: status_codes)
      then show ?thesis by blast
    next
      case out
      show ?thesis
      proof (cases "processItem oom r")
        case None
        then show ?thesis using out unf by (simp add: out_rel_def loop_rel_def)
      next
        case (Some p)
        obtain st s where p: "p = (st, s)" by (cases p)
        obtain s' where s': "processItem oom r' = Some (st, s')"
          "st = REDIS_OK \<and> ext c s s' \<and> length (window s) < length (window r) \<or> st = REDIS_ERR \<and> s' = s \<and> rd_err s \<noteq> 0"
          using out Some p by (auto simp: out_rel_def option_rel_Some1)
        show ?thesis
        proof (cases "st = REDIS_OK")
          case True
          then have es: "ext c s s'" "length (window s) < length (window r)"
            using s'(2) by (auto simp: status_codes)
          have eqs: "process_items oom r = process_items oom s" "process_items oom r' = process_items oom s'"
            using unf Some p s'(1) True by simp_all
          have mono: "loop_rel c s x y \<Longrightarrow> loop_rel c r x y" for x y
            unfolding loop_rel_def by (erule option.rel_mono_strong) (use es(2) in auto)
          from less.hyps [OF es(2,1)] mono show ?thesis
            unfolding loop_stuck_def eqs by blast
        next
          case False
          then show ?thesis using unf Some p s' by (auto simp: loop_rel_def)
        qed
      qed
    qed
  qed
qed

section \<open>Taking a reply out\<close>

lemma window_sds: "rd_buf r = Some b \<Longrightarrow> sh_len b = rd_len r \<Longrightarrow> window r = drop (rd_pos r) (sds_str b)"
  by (simp add: window_def sds_str_def)

lemma sdsrange_drop:
  assumes "sds_ok b" "sh_len b + sh_free b < 2 ^ 32" "n \<le> sh_len b" "sh_len b < 2 ^ 31"
  shows "sds_ok (sdsrange b (int n) (- 1)) \<and> sds_str (sdsrange b (int n) (- 1)) = drop n (sds_str b)
    \<and> sh_len (sdsrange b (int n) (- 1)) = sh_len b - n
    \<and> sh_len (sdsrange b (int n) (- 1)) + sh_free (sdsrange b (int n) (- 1)) = sh_len b + sh_free b"
proof -
  define b' where "b' = sdsrange b (int n) (- 1)"
  have int: "in_int (int n)" "in_int (- 1)" using assms(3,4) by (simp_all add: in_int_def)
  have len: "sdslen b < 2 ^ 31" using assms(4) by (simp add: sdslen_def)
  note rng = sdsrange_ok [OF assms(1,2) len int, folded b'_def]
  have "range_spec (sds_str b) (int n) (- 1) = drop n (sds_str b)"
    using sds_str_length [OF assms(1)] assms(3) by (auto simp: range_spec_def sdslen_def Let_def max_def)
  then have str: "sds_str b' = drop n (sds_str b)" using rng by simp
  moreover have "sh_len b' = sh_len b - n"
  proof -
    have "sh_len b' = length (sds_str b')" using sds_str_length [of b'] rng by (simp add: sdslen_def)
    then show ?thesis using sds_str_length [OF assms(1)] unfolding str by (simp add: sdslen_def)
  qed
  ultimately show ?thesis using rng by (simp add: b'_def)
qed

lemma compact_buffer_keeps:
  assumes "buf_wf r"
  shows "\<exists>s. compact_buffer r = Some s \<and> buf_wf s \<and> window s = window r \<and> same_control r s"
proof (cases "1024 \<le> rd_pos r")
  case False
  then show ?thesis using assms by (simp add: compact_buffer_def same_control_def)
next
  case True
  obtain b where b: "rd_buf r = Some b" "sds_ok b" "sh_len b = rd_len r" "sh_len b + sh_free b < 2 ^ 32"
    and pos: "rd_pos r \<le> rd_len r" "rd_len r < 2 ^ 31"
    using assms by (auto simp: buf_wf_def)
  define b' where "b' = sdsrange b (int (rd_pos r)) (- 1)"
  have b': "sds_ok b'" "sds_str b' = drop (rd_pos r) (sds_str b)" "sh_len b' = rd_len r - rd_pos r"
    "sh_len b' + sh_free b' < 2 ^ 32"
    using sdsrange_drop [OF b(2,4), of "rd_pos r"] b(3,4) pos by (auto simp: b'_def)
  have compact: "compact_buffer r = Some (r\<lparr>rd_buf := Some b', rd_pos := 0, rd_len := sdslen b'\<rparr>)"
  proof -
    have "c_int (int (rd_pos r)) = int (rd_pos r)" using pos by (intro c_int_id) auto
    then show ?thesis using True b(1) by (simp only: compact_buffer_def b'_def Let_def if_True option.case)
  qed
  have "window (r\<lparr>rd_buf := Some b', rd_pos := 0, rd_len := sdslen b'\<rparr>) = sds_str b'"
    by (subst window_sds [where b = b']) (simp_all add: sdslen_def)
  moreover have "window r = drop (rd_pos r) (sds_str b)" by (rule window_sds [OF b(1,3)])
  moreover have "buf_wf (r\<lparr>rd_buf := Some b', rd_pos := 0, rd_len := sdslen b'\<rparr>)"
    using b' pos by (simp add: buf_wf_def sdslen_def)
  ultimately show ?thesis using compact b'(2) by (simp add: same_control_def)
qed

lemma compact_ext:
  assumes "ext c r r'" "compact_buffer r = Some s" "compact_buffer r' = Some s'"
  shows "ext c s s'"
proof -
  have "buf_wf r" "buf_wf r'" using assms(1) by (simp_all add: ext_def reader_wf_def)
  note k = compact_buffer_keeps [OF this(1)] compact_buffer_keeps [OF this(2)]
  have s: "buf_wf s" "window s = window r" "same_control r s" using k(1) assms(2) by auto
  have s': "buf_wf s'" "window s' = window r'" "same_control r' s'" using k(2) assms(3) by auto
  have "stack_wf s = stack_wf r" "stack_wf s' = stack_wf r'" "rd_err s = rd_err r" "rd_err s' = rd_err r'"
    using s(3) s'(3) by (simp_all add: same_control_def stack_wf_def cur_task_def task_at_def)
  then show ?thesis using assms(1) s s' by (simp add: ext_def reader_wf_def same_control_def)
qed

lemma compact_left:
  assumes "ext c r r'" "compact_buffer r = Some s" shows "ext c s r'"
proof -
  have "buf_wf r" using assms(1) by (simp add: ext_def reader_wf_def)
  then have s: "buf_wf s" "window s = window r" "same_control r s"
    using compact_buffer_keeps assms(2) by fastforce+
  have "stack_wf s = stack_wf r" "rd_err s = rd_err r"
    using s(3) by (simp_all add: same_control_def stack_wf_def cur_task_def task_at_def)
  then show ?thesis using assms(1) s by (simp add: ext_def reader_wf_def same_control_def)
qed

text \<open>The reader with its first task in place; \<open>sim\<close> compares readers after this step.\<close>

definition sim :: "byte list \<Rightarrow> reader \<Rightarrow> reader \<Rightarrow> bool" where
  "sim c r r' \<longleftrightarrow> ext c (start_stack r) (start_stack r')"

lemma start_stack_started: "0 \<le> rd_ridx r \<Longrightarrow> start_stack r = r"
  by (simp add: start_stack_def)

lemma start_same_buffer: "same_buffer r (start_stack r)"
  by (simp add: start_stack_def same_buffer_def)

lemma start_wf: "reader_wf r \<Longrightarrow> reader_wf (start_stack r) \<and> 0 \<le> rd_ridx (start_stack r)"
  using same_buffer_wf [OF start_same_buffer, of r]
  by (auto simp: start_stack_def reader_wf_def stack_wf_def cur_task_def task_at_def first_task_def known_type_def reply_types)

lemma ext_sim: "ext c r r' \<Longrightarrow> sim c r r'"
proof -
  assume e: "ext c r r'"
  have "stack_wf (start_stack r)" using start_wf [of r] e by (simp add: ext_def reader_wf_def)
  then show ?thesis unfolding sim_def
    by (intro ext_control [OF e start_same_buffer start_same_buffer])
      (use e in \<open>simp_all add: ext_def same_control_def start_stack_def\<close>)
qed

lemma sim_window: "sim c r r' \<Longrightarrow> window r' = window r @ c"
  using same_buffer_window [OF start_same_buffer] by (simp add: sim_def ext_def)

text \<open>What follows the loop.\<close>

definition emit :: "reader \<Rightarrow> (int \<times> nat option \<times> reader) option" where
  "emit r = (if rd_err r \<noteq> 0 then Some (REDIS_ERR, None, r)
     else case compact_buffer r of
       None \<Rightarrow> None
     | Some s \<Rightarrow> (if rd_ridx s = - 1 then Some (REDIS_OK, rd_reply s, s\<lparr>rd_reply := None\<rparr>) else Some (REDIS_OK, None, s)))"

lemma GetReply_emit:
  "redisReaderGetReply oom r =
     (if rd_err r \<noteq> 0 then Some (REDIS_ERR, None, r) else if rd_len r = 0 then Some (REDIS_OK, None, r)
      else case process_items oom (start_stack r) of None \<Rightarrow> None | Some s \<Rightarrow> emit s)"
  by (simp add: redisReaderGetReply_def emit_def cong: option.case_cong)

lemma loop_on_empty:
  assumes "reader_wf r" "0 \<le> rd_ridx r" "window r = []"
  shows "process_items oom r = Some r"
proof -
  have lens: "rd_len r - rd_pos r = 0" using assms window_length [of r] by (simp add: reader_wf_def)
  have seek: "seekNewline [] 0 = None" using seekNewline_Some [of "[]"] by (auto simp: nl_at_def)
  have "processItem oom r = Some (REDIS_ERR, r)"
    using assms lens seek
    by (auto simp: processItem_def readBytes_def process_typed_def processLineItem_def processBulkItem_def
        processMultiBulkItem_def readLine_def reader_wf_def stack_wf_def known_type_def Let_def)
  then show ?thesis using process_items_unfold [OF assms(1,2), of oom] by (simp add: status_codes)
qed

section \<open>The root reply\<close>

definition reply_wf :: "reader \<Rightarrow> bool" where
  "reply_wf r \<longleftrightarrow> (0 < rd_ridx r \<longrightarrow> rd_reply r \<noteq> None)"

lemma finish_item_reply:
  "finish_item q created = Some (st, s) \<Longrightarrow> reply_wf q \<Longrightarrow> 0 \<le> rd_ridx q \<Longrightarrow> rd_reply s \<noteq> None"
  by (auto simp: finish_item_def Let_def reply_wf_def dest!: moveToNextTask_same_buffer)

lemma process_typed_reply:
  assumes "reply_wf r" "0 \<le> rd_ridx r" "process_typed oom r = Some (REDIS_OK, s)"
  shows "rd_reply s \<noteq> None"
proof -
  have fin: "finish_item (r\<lparr>rd_pos := p\<rparr>) created = Some (REDIS_OK, s) \<Longrightarrow> rd_reply s \<noteq> None" for p created
    using assms(1,2) finish_item_reply [of "r\<lparr>rd_pos := p\<rparr>" created REDIS_OK s] by (simp add: reply_wf_def)
  have line: "readLine r = Some (p, k, r') \<Longrightarrow> r' = r\<lparr>rd_pos := rd_pos r'\<rparr>" for p k r'
    by (auto simp: readLine_def Let_def split: option.splits)
  have root: "rd_reply (if rd_ridx r = 0 then x\<lparr>rd_reply := Some a\<rparr> else x) \<noteq> None"
    if "rd_reply x = rd_reply r" for x a
    using that assms(1,2) by (auto simp: reply_wf_def)
  have "process_typed oom r \<noteq> Some (REDIS_OK, s) \<or> rd_reply s \<noteq> None"
  proof (cases "t_type (cur_task r) = REDIS_REPLY_ARRAY")
    case True
    then have typed: "process_typed oom r = processMultiBulkItem oom r"
      by (simp add: process_typed_def reply_types)
    have mv: "rd_reply y \<noteq> None"
      if m: "map_option (\<lambda>x. (REDIS_OK, if rd_ridx r = 0 then x\<lparr>rd_reply := Some a\<rparr> else x))
          (moveToNextTask (r'\<lparr>rd_store := h\<rparr>)) = Some (REDIS_OK, y)" and same: "rd_reply r' = rd_reply r" for a r' h y
    proof -
      obtain x where x: "moveToNextTask (r'\<lparr>rd_store := h\<rparr>) = Some x"
        "y = (if rd_ridx r = 0 then x\<lparr>rd_reply := Some a\<rparr> else x)" using m by auto
      have "rd_reply x = rd_reply r" using moveToNextTask_same_buffer [OF x(1)] same by simp
      then show ?thesis unfolding x(2) by (rule root)
    qed
    show ?thesis unfolding typed
    proof (cases "rd_ridx r = 8 \<or> readLine r = None \<or> oom (length (rd_store r))")
      case True
      then show "processMultiBulkItem oom r \<noteq> Some (REDIS_OK, s) \<or> rd_reply s \<noteq> None"
        by (auto simp: processMultiBulkItem_def status_codes Let_def split: option.split)
    next
      case False
      then obtain p k r' where rl: "readLine r = Some (p, k, r')" by auto
      have rr: "rd_reply r' = rd_reply r" by (subst line [OF rl]) simp
      define m where "m = readLongLong p"
      have push: "rd_reply (push_task r' e a h) = rd_reply r" for e a h by (simp add: push_task_def rr)
      have eq: "processMultiBulkItem oom r =
        (if m = - 1 then
          (case createNilObject (rd_stack r) (nat (rd_ridx r)) (rd_store r) of None \<Rightarrow> None
           | Some (a, h) \<Rightarrow> map_option (\<lambda>x. (REDIS_OK, if rd_ridx r = 0 then x\<lparr>rd_reply := Some a\<rparr> else x))
               (moveToNextTask (r'\<lparr>rd_store := h\<rparr>)))
         else
          (case createArrayObject (rd_stack r) (nat (rd_ridx r)) (rd_store r) (c_int m) of None \<Rightarrow> None
           | Some (a, h) \<Rightarrow>
              if m > 0 then Some (REDIS_OK, if rd_ridx r = 0 then (push_task r' (c_int m) a h)\<lparr>rd_reply := Some a\<rparr>
                                            else push_task r' (c_int m) a h)
              else map_option (\<lambda>x. (REDIS_OK, if rd_ridx r = 0 then x\<lparr>rd_reply := Some a\<rparr> else x))
               (moveToNextTask (r'\<lparr>rd_store := h\<rparr>))))"
        using False unfolding processMultiBulkItem_def Let_def rl option.case prod.case m_def [symmetric]
        by (simp cong: option.case_cong)
      have "rd_reply s \<noteq> None" if ok: "processMultiBulkItem oom r = Some (REDIS_OK, s)"
      proof -
        consider (move) a h where "map_option (\<lambda>x. (REDIS_OK, if rd_ridx r = 0 then x\<lparr>rd_reply := Some a\<rparr> else x))
               (moveToNextTask (r'\<lparr>rd_store := h\<rparr>)) = Some (REDIS_OK, s)"
          | (push) a h where "s = (if rd_ridx r = 0 then (push_task r' (c_int m) a h)\<lparr>rd_reply := Some a\<rparr>
                                            else push_task r' (c_int m) a h)"
          using ok unfolding eq by (simp only: split: if_split_asm option.split_asm prod.split_asm) auto
        then show ?thesis
        proof cases
          case move
          then show ?thesis by (rule mv [OF _ rr])
        next
          case push': push
          then show ?thesis unfolding push' by (intro root push)
        qed
      qed
      then show "processMultiBulkItem oom r \<noteq> Some (REDIS_OK, s) \<or> rd_reply s \<noteq> None" by blast
    qed
  next
    case False
    have L: "\<exists>p c. finish_item (r\<lparr>rd_pos := p\<rparr>) c = Some (REDIS_OK, s)" if "processLineItem oom r = Some (REDIS_OK, s)"
    proof (cases "readLine r")
      case None
      then show ?thesis using that by (simp add: processLineItem_def status_codes)
    next
      case (Some x)
      then obtain p k r' where x: "readLine r = Some (p, k, r')" by (cases x) auto
      have "\<exists>c. finish_item r' c = Some (REDIS_OK, s)"
        using that unfolding processLineItem_def x option.case prod.case
        by (auto simp: status_codes Let_def split: if_split_asm option.split_asm)
      then show ?thesis by (subst (asm) line [OF x]) blast
    qed
    have B: "\<exists>p c. finish_item (r\<lparr>rd_pos := p\<rparr>) c = Some (REDIS_OK, s)" if "processBulkItem oom r = Some (REDIS_OK, s)"
      using that unfolding processBulkItem_def Let_def
      by (simp only: status_codes split: if_split_asm option.split_asm) auto
    show ?thesis
      using False L B fin by (auto simp: process_typed_def Let_def split: if_split_asm)
  qed
  then show ?thesis using assms(3) by blast
qed

lemma processItem_reply:
  assumes "reply_wf r" "0 \<le> rd_ridx r" "processItem oom r = Some (REDIS_OK, s)"
  shows "rd_reply s \<noteq> None"
proof (cases "t_type (cur_task r) < 0")
  case False
  then show ?thesis using process_typed_reply [OF assms(1,2)] assms(3) by (simp add: processItem_def)
next
  case True
  then obtain p r' t where r': "readBytes r 1 = Some (p, r')"
    "process_typed oom (upd_task r' (nat (rd_ridx r)) (\<lambda>x. x\<lparr>t_type := t\<rparr>)) = Some (REDIS_OK, s)"
    using assms(3) by (auto simp: processItem_def status_codes split: option.splits)
  have "rd_reply r' = rd_reply r" "rd_ridx r' = rd_ridx r"
    using r'(1) by (auto simp: readBytes_def split: if_splits)
  then show ?thesis
    using process_typed_reply [OF _ _ r'(2)] assms(1,2) by (simp add: reply_wf_def upd_task_def)
qed

lemma SetError_err [simp]: "rd_err (redisReaderSetError r t m) = t"
  by (simp add: redisReaderSetError_def)

lemma finish_item_ok: "finish_item r created = Some (st, s) \<Longrightarrow> st = REDIS_OK"
  by (auto simp: finish_item_def Let_def)

lemma process_typed_error:
  assumes "process_typed oom r = Some (st, s)" "st \<noteq> REDIS_OK"
  shows "s = r \<or> rd_err s \<noteq> 0"
proof -
  have oom: "rd_err (redisReaderSetErrorOOM q) \<noteq> 0" for q
    by (simp add: redisReaderSetErrorOOM_def REDIS_ERR_OOM_def)
  have prot: "REDIS_ERR_PROTOCOL \<noteq> 0" by (simp add: REDIS_ERR_PROTOCOL_def)
  have L: "s = r \<or> rd_err s \<noteq> 0" if "processLineItem oom r = Some (st, s)"
    using that assms(2) oom unfolding processLineItem_def Let_def
    by (auto dest: finish_item_ok split: if_split_asm option.split_asm prod.split_asm)
  have B: "s = r \<or> rd_err s \<noteq> 0" if "processBulkItem oom r = Some (st, s)"
    using that assms(2) oom unfolding processBulkItem_def Let_def
    by (auto dest: finish_item_ok split: if_split_asm option.split_asm)
  have M: "s = r \<or> rd_err s \<noteq> 0" if "processMultiBulkItem oom r = Some (st, s)"
    using that assms(2) oom prot unfolding processMultiBulkItem_def Let_def
    by (auto split: if_split_asm option.split_asm prod.split_asm)
  show ?thesis
    using assms(1) L B M unfolding process_typed_def Let_def by (auto split: if_split_asm)
qed

lemma processItem_error_keeps:
  assumes "processItem oom r = Some (st, s)" "st \<noteq> REDIS_OK" "rd_err s = 0"
  shows "rd_reply s = rd_reply r \<and> rd_ridx s = rd_ridx r"
proof (cases "t_type (cur_task r) < 0")
  case False
  then show ?thesis using process_typed_error [OF _ assms(2)] assms by (auto simp: processItem_def)
next
  case True
  show ?thesis
  proof (cases "readBytes r 1")
    case None
    then show ?thesis using True assms(1) by (simp add: processItem_def)
  next
    case (Some x)
    then obtain p r' where x: "readBytes r 1 = Some (p, r')" by (cases x) auto
    have r': "rd_reply r' = rd_reply r" "rd_ridx r' = rd_ridx r"
      using x by (auto simp: readBytes_def split: if_splits)
    show ?thesis
    proof (cases "reply_type_of (peek p 0)")
      case None
      then have "rd_err s \<noteq> 0"
        using True x assms(1)
        by (auto simp: processItem_def redisReaderSetErrorProtocolByte_def REDIS_ERR_PROTOCOL_def)
      then show ?thesis using assms(3) by simp
    next
      case (Some t)
      then have "process_typed oom (upd_task r' (nat (rd_ridx r)) (\<lambda>u. u\<lparr>t_type := t\<rparr>)) = Some (st, s)"
        using True x assms(1) by (simp add: processItem_def)
      from process_typed_error [OF this assms(2)] show ?thesis
        using assms(3) r' by (auto simp: upd_task_def)
    qed
  qed
qed

lemma process_items_reply:
  assumes "reader_wf r" "reply_wf r" "0 \<le> rd_ridx r" "process_items oom r = Some s" "rd_err s = 0"
  shows "reply_wf s \<and> (rd_ridx s = - 1 \<longrightarrow> rd_reply s \<noteq> None)"
  using assms
proof (induction "length (window r)" arbitrary: r rule: less_induct)
  case less
  note unf = process_items_unfold [OF less.prems(1,3), of oom]
  obtain st q where q: "processItem oom r = Some (st, q)" using less.prems(4) unf by (auto split: option.splits)
  show ?case
  proof (cases "st = REDIS_OK")
    case True
    note ok = q [unfolded True]
    have qn: "rd_reply q \<noteq> None" by (rule processItem_reply [OF less.prems(2,3) ok])
    have loop: "process_items oom q = Some s" using less.prems(4) unf ok by simp
    note pr = processItem_progress [OF less.prems(1,3) ok]
    show ?thesis
    proof (cases "rd_ridx q < 0")
      case True
      then have "s = q" using loop by (subst (asm) process_items.simps) simp
      then show ?thesis using qn by (simp add: reply_wf_def)
    next
      case False
      have "reply_wf q" using qn by (simp add: reply_wf_def)
      then show ?thesis using less.hyps [of q] pr loop False less.prems(5) by simp
    qed
  next
    case False
    then have s: "s = q" using less.prems(4) unf q by simp
    then have "rd_reply s = rd_reply r \<and> rd_ridx s = rd_ridx r"
      using processItem_error_keeps [OF q False] less.prems(5) by simp
    then show ?thesis using less.prems(2,3) by (simp add: reply_wf_def)
  qed
qed

section \<open>Draining the reader\<close>

lemma reply_wf_start: "- 1 \<le> rd_ridx r \<Longrightarrow> reply_wf (start_stack r) = reply_wf r"
  by (auto simp: reply_wf_def start_stack_def)

lemma reply_wf_control: "same_control r r' \<Longrightarrow> reply_wf r' = reply_wf r"
  by (simp add: reply_wf_def same_control_def)

lemma stack_wf_control: "same_control r r' \<Longrightarrow> stack_wf r' = stack_wf r"
  by (simp add: same_control_def stack_wf_def cur_task_def task_at_def)

lemma ext_len_pos: "ext c r r' \<Longrightarrow> c \<noteq> [] \<Longrightarrow> rd_len r' \<noteq> 0"
  using ext_lengths [of c r r'] by (cases c) auto

lemma compacted:
  assumes "reader_wf r" shows "\<exists>s. compact_buffer r = Some s \<and> reader_wf s \<and> window s = window r \<and> same_control r s"
proof -
  have "buf_wf r" using assms by (simp add: reader_wf_def)
  then obtain s where s: "compact_buffer r = Some s" "buf_wf s" "window s = window r" "same_control r s"
    using compact_buffer_keeps by blast
  have "rd_err s = rd_err r" using s(4) by (simp add: same_control_def)
  then have "reader_wf s" using assms s(2) stack_wf_control [OF s(4)] by (simp add: reader_wf_def)
  then show ?thesis using s by blast
qed

lemma reply_taken_ext:
  assumes "ext c s s'" "rd_ridx s = - 1"
  shows "ext c (s\<lparr>rd_reply := None\<rparr>) (s'\<lparr>rd_reply := None\<rparr>)"
  by (rule ext_control [OF assms(1)])
    (use assms in \<open>auto simp: same_buffer_def ext_def reader_wf_def stack_wf_def cur_task_def task_at_def same_control_def\<close>)

text \<open>
  The four outcomes of \<^verbatim>\<open>redisReaderGetReply\<close> on a reader and on one with more bytes \<open>c\<close>: the first one
  needs more bytes and the second one goes on from there; no defined result; a dead reader; the
  same reply.
\<close>

definition sim_wf :: "byte list \<Rightarrow> reader \<Rightarrow> reader \<Rightarrow> bool" where
  "sim_wf c r r' \<longleftrightarrow> sim c r r' \<and> reader_wf r \<and> reader_wf r' \<and> reply_wf r"

lemma GetReply_sim:
  assumes sim: "sim_wf c r r'" and c: "c \<noteq> []"
  shows "(\<exists>s s'. redisReaderGetReply oom r = Some (REDIS_OK, None, s) \<and> sim_wf c s s'
        \<and> redisReaderGetReply oom r' = redisReaderGetReply oom s')
    \<or> redisReaderGetReply oom r = None \<and> redisReaderGetReply oom r' = None
    \<or> (\<exists>s. redisReaderGetReply oom r = Some (REDIS_ERR, None, s) \<and> redisReaderGetReply oom r' = Some (REDIS_ERR, None, s)
        \<and> rd_err s \<noteq> 0)
    \<or> (\<exists>a s s'. redisReaderGetReply oom r = Some (REDIS_OK, Some a, s) \<and> redisReaderGetReply oom r' = Some (REDIS_OK, Some a, s')
        \<and> sim_wf c s s' \<and> length (window s) < length (window r))"
proof -
  let ?q = "start_stack r" and ?q' = "start_stack r'"
  have e: "ext c ?q ?q'" and wf: "reader_wf r" "reader_wf r'" "reply_wf r"
    using sim by (simp_all add: sim_wf_def sim_def)
  have err: "rd_err r = 0" "rd_err r' = 0" using wf by (simp_all add: reader_wf_def)
  have lens: "rd_len ?q' = rd_len r'" "rd_len ?q = rd_len r"
    using start_same_buffer [of r'] start_same_buffer [of r] by (simp_all add: same_buffer_def)
  have len': "rd_len r' \<noteq> 0" using ext_len_pos [OF e c] lens by simp
  have G': "redisReaderGetReply oom r' = (case process_items oom ?q' of None \<Rightarrow> None | Some s \<Rightarrow> emit s)"
    using err len' by (simp add: GetReply_emit)
  show ?thesis
  proof (cases "rd_len r = 0")
    case True
    then have "redisReaderGetReply oom r = Some (REDIS_OK, None, r)" using err by (simp add: GetReply_emit)
    then show ?thesis using sim by blast
  next
    case False
    have G: "redisReaderGetReply oom r = (case process_items oom ?q of None \<Rightarrow> None | Some s \<Rightarrow> emit s)"
      using err False by (simp add: GetReply_emit)
    have q: "reader_wf ?q" "0 \<le> rd_ridx ?q" "reply_wf ?q"
      using start_wf [OF wf(1)] reply_wf_start [of r] wf by (auto simp: reader_wf_def stack_wf_def)
    have wq: "window ?q = window r" by (rule same_buffer_window [OF start_same_buffer])
    consider (stuck) "loop_stuck c oom ?q ?q'" | (rel) "loop_rel c ?q (process_items oom ?q) (process_items oom ?q')"
      using ext_process_items [OF e] by blast
    then show ?thesis
    proof cases
      case stuck
      then obtain s s' where s: "process_items oom ?q = Some s" "ext c s s'" "0 \<le> rd_ridx s"
        "process_items oom ?q' = process_items oom s'" unfolding loop_stuck_def by blast
      have wfs: "reader_wf s" "reader_wf s'" "rd_err s = 0" "rd_err s' = 0" "0 \<le> rd_ridx s'"
        using s(2,3) by (auto simp: ext_def reader_wf_def same_control_def)
      obtain s1 where s1: "compact_buffer s = Some s1" "reader_wf s1" "same_control s s1"
        using compacted [OF wfs(1)] by blast
      have "redisReaderGetReply oom r = Some (REDIS_OK, None, s1)"
        using G s(1) wfs(3) s1 s(3) by (simp add: emit_def same_control_def)
      moreover have "sim c s1 s'" by (rule ext_sim [OF compact_left [OF s(2) s1(1)]])
      moreover have "reply_wf s1"
        using process_items_reply [OF q(1,3,2) s(1) wfs(3)] reply_wf_control [OF s1(3)] by simp
      moreover have "redisReaderGetReply oom r' = redisReaderGetReply oom s'"
        unfolding G' s(4) using wfs(4,5) ext_len_pos [OF s(2) c]
        by (simp add: GetReply_emit start_stack_started)
      ultimately show ?thesis using s1(2) wfs(2) unfolding sim_wf_def by blast
    next
      case rel
      show ?thesis
      proof (cases "process_items oom ?q")
        case None
        then show ?thesis using rel G G' by (simp add: loop_rel_def)
      next
        case (Some s)
        then obtain s' where s': "process_items oom ?q' = Some s'"
          "ext c s s' \<and> rd_ridx s = - 1 \<and> length (window s) < length (window ?q) \<or> s' = s \<and> rd_err s \<noteq> 0"
          using rel q(2) by (auto simp: loop_rel_def option_rel_Some1)
        show ?thesis
        proof (cases "rd_err s = 0")
          case False
          have dead: "emit s = Some (REDIS_ERR, None, s)" using False by (simp add: emit_def)
          have "s' = s" using s'(2) False by (auto simp: ext_def reader_wf_def)
          then have "redisReaderGetReply oom r = Some (REDIS_ERR, None, s)"
            "redisReaderGetReply oom r' = Some (REDIS_ERR, None, s)"
            using G G' Some s'(1) dead by simp_all
          then show ?thesis using False by blast
        next
          case True
          then have es: "ext c s s'" "rd_ridx s = - 1" "length (window s) < length (window r)"
            using s'(2) wq by auto
          have wfs: "reader_wf s" "reader_wf s'" "rd_err s' = 0" using es(1) by (auto simp: ext_def reader_wf_def)
          obtain t where t: "compact_buffer s = Some t" "window t = window s" "same_control s t"
            using compacted [OF wfs(1)] by blast
          obtain t' where t': "compact_buffer s' = Some t'" using compacted [OF wfs(2)] by blast
          have et: "ext c t t'" by (rule compact_ext [OF es(1) t(1) t'])
          have rt: "rd_ridx t = - 1" "rd_ridx t' = - 1" "rd_reply t' = rd_reply t"
            using es(2) t(3) et by (auto simp: ext_def same_control_def)
          obtain a where a: "rd_reply t = Some a"
            using process_items_reply [OF q(1,3,2) Some True] es(2) t(3) by (auto simp: same_control_def)
          let ?t = "t\<lparr>rd_reply := None\<rparr>" and ?t' = "t'\<lparr>rd_reply := None\<rparr>"
          have e2: "ext c ?t ?t'" by (rule reply_taken_ext [OF et rt(1)])
          then have "sim_wf c ?t ?t'"
            using ext_sim rt(1) by (simp add: sim_wf_def ext_def reply_wf_def)
          moreover have "redisReaderGetReply oom r = Some (REDIS_OK, Some a, ?t)"
            "redisReaderGetReply oom r' = Some (REDIS_OK, Some a, ?t')"
            using G G' Some s'(1) True wfs(3) t(1) t' rt a by (simp_all add: emit_def)
          moreover have "window ?t = window t" by (rule same_buffer_window) (simp add: same_buffer_def)
          ultimately show ?thesis using es(3) t(2) by auto
        qed
      qed
    qed
  qed
qed

lemma GetReply_progress:
  assumes wf: "reader_wf r" and get: "redisReaderGetReply oom r = Some (REDIS_OK, Some a, t)"
  shows "length (window t) < length (window r)"
proof -
  let ?q = "start_stack r"
  have q: "reader_wf ?q" "0 \<le> rd_ridx ?q" using start_wf [OF wf] by auto
  have wq: "window ?q = window r" by (rule same_buffer_window [OF start_same_buffer])
  have err: "rd_err r = 0" using wf by (simp add: reader_wf_def)
  then obtain s where s: "process_items oom ?q = Some s" "emit s = Some (REDIS_OK, Some a, t)"
    using get by (auto simp: GetReply_emit split: if_splits option.splits)
  have e0: "rd_err s = 0" using s(2) by (auto simp: emit_def status_codes split: if_splits)
  then obtain u where u: "compact_buffer s = Some u" "rd_ridx u = - 1" "t = u\<lparr>rd_reply := None\<rparr>"
    using s(2) by (auto simp: emit_def split: if_splits option.splits)
  have "ext [] ?q ?q" using q(1) by (simp add: ext_def same_control_def)
  from ext_process_items [OF this, of oom] have "rd_ridx s = - 1 \<Longrightarrow> reader_wf s \<and> length (window s) < length (window ?q)"
    using s(1) q(2) e0 by (auto simp: loop_stuck_def loop_rel_def ext_def)
  moreover have "reader_wf s"
    using ext_process_items [OF \<open>ext [] ?q ?q\<close>, of oom] s(1) e0 by (auto simp: loop_stuck_def loop_rel_def ext_def)
  moreover from this obtain v where "compact_buffer s = Some v" "window v = window s" "same_control s v"
    using compacted by blast
  moreover have "window t = window u" unfolding u(3) by (rule same_buffer_window) (simp add: same_buffer_def)
  ultimately show ?thesis using u wq by (auto simp: same_control_def)
qed

text \<open>
  A client's loop: it takes replies out of the reader until there is none or an error. Every
  reply taken consumes bytes (lemma \<open>GetReply_progress\<close>), so the guard never stops it. The result
  is the last status, the addresses of the replies and the reader.
\<close>

function drain :: "(nat \<Rightarrow> bool) \<Rightarrow> reader \<Rightarrow> (int \<times> nat list \<times> reader) option" where
  "drain oom r =
     (case redisReaderGetReply oom r of
        None \<Rightarrow> None
      | Some (st, None, s) \<Rightarrow> Some (st, [], s)
      | Some (st, Some a, s) \<Rightarrow>
          (if length (window s) < length (window r)
           then map_option (\<lambda>(st', as, t). (st', a # as, t)) (drain oom s) else None))"
  by pat_completeness auto
termination by (relation "measure (\<lambda>(oom, r). length (window r))") auto

declare drain.simps [simp del]

lemma drain_cong:
  assumes "reader_wf r" "reader_wf r'" "redisReaderGetReply oom r = redisReaderGetReply oom r'"
  shows "drain oom r = drain oom r'"
proof (cases "redisReaderGetReply oom r'")
  case None
  then show ?thesis using assms(3) by (simp add: drain.simps)
next
  case (Some x)
  obtain st y s where x: "x = (st, y, s)" by (cases x)
  show ?thesis
  proof (cases y)
    case None
    then show ?thesis using Some x assms(3) by (simp add: drain.simps)
  next
    case (Some a)
    have "st = REDIS_OK" using \<open>redisReaderGetReply oom r' = Some x\<close> x Some
      by (auto simp: redisReaderGetReply_def split: if_splits option.splits)
    then have "length (window s) < length (window r)" "length (window s) < length (window r')"
      using GetReply_progress [OF assms(1)] GetReply_progress [OF assms(2)] assms(3)
        \<open>redisReaderGetReply oom r' = Some x\<close> x Some by auto
    then show ?thesis
      using \<open>redisReaderGetReply oom r' = Some x\<close> x Some assms(3)
      by (subst (1 2) drain.simps) simp
  qed
qed

text \<open>
  Draining a reader, and draining one with more bytes: the second one first gives the same
  replies, then what the first one gives when the bytes have arrived.
\<close>

lemma drain_sim:
  assumes "sim_wf c r r'" "c \<noteq> []"
  shows "(\<exists>as s s'. drain oom r = Some (REDIS_OK, as, s) \<and> sim_wf c s s'
        \<and> drain oom r' = map_option (\<lambda>(st, bs, t). (st, as @ bs, t)) (drain oom s'))
    \<or> drain oom r = None \<and> drain oom r' = None
    \<or> (\<exists>as s. drain oom r = Some (REDIS_ERR, as, s) \<and> drain oom r' = Some (REDIS_ERR, as, s) \<and> rd_err s \<noteq> 0)"
  using assms(1)
proof (induction "length (window r)" arbitrary: r r' rule: less_induct)
  case less
  have wf: "reader_wf r" "reader_wf r'" using less.prems by (auto simp: sim_wf_def)
  consider (more) s s' where "redisReaderGetReply oom r = Some (REDIS_OK, None, s)" "sim_wf c s s'"
      "redisReaderGetReply oom r' = redisReaderGetReply oom s'"
    | (undef) "redisReaderGetReply oom r = None" "redisReaderGetReply oom r' = None"
    | (dead) s where "redisReaderGetReply oom r = Some (REDIS_ERR, None, s)"
        "redisReaderGetReply oom r' = Some (REDIS_ERR, None, s)" "rd_err s \<noteq> 0"
    | (reply) a s s' where "redisReaderGetReply oom r = Some (REDIS_OK, Some a, s)"
        "redisReaderGetReply oom r' = Some (REDIS_OK, Some a, s')" "sim_wf c s s'"
        "length (window s) < length (window r)"
    using GetReply_sim [OF less.prems assms(2), of oom] by metis
  then show ?case
  proof cases
    case more
    have "drain oom r' = drain oom s'"
      using more(2,3) wf(2) by (intro drain_cong) (auto simp: sim_wf_def)
    moreover have "drain oom r = Some (REDIS_OK, [], s)" using more(1) by (subst drain.simps) simp
    moreover have "map_option (\<lambda>(st, bs, t). (st, [] @ bs, t)) x = x" for x :: "(int \<times> nat list \<times> reader) option"
      by (cases x) auto
    ultimately show ?thesis using more(2) by metis
  next
    case undef
    then show ?thesis by (simp add: drain.simps)
  next
    case dead
    then show ?thesis by (subst (1 2 3 4 5 6) drain.simps) simp
  next
    case reply
    have shorter: "length (window s') < length (window r')" by (rule GetReply_progress [OF wf(2) reply(2)])
    have d: "drain oom r = map_option (\<lambda>(st', as, t). (st', a # as, t)) (drain oom s)"
      "drain oom r' = map_option (\<lambda>(st', as, t). (st', a # as, t)) (drain oom s')"
      using reply(1,2,4) shorter by (subst drain.simps, simp)+
    from less.hyps [OF reply(4,3)] show ?thesis
      unfolding d
    proof (elim disjE exE conjE)
      fix as t t' assume h: "drain oom s = Some (REDIS_OK, as, t)" "sim_wf c t t'"
        "drain oom s' = map_option (\<lambda>(st, bs, t). (st, as @ bs, t)) (drain oom t')"
      have "map_option (\<lambda>(st', as, t). (st', a # as, t)) (drain oom s')
          = map_option (\<lambda>(st, bs, t). (st, (a # as) @ bs, t)) (drain oom t')"
        unfolding h(3) option.map_comp by (rule arg_cong [where f = "\<lambda>f. map_option f _"]) (auto simp: fun_eq_iff)
      then show "(\<exists>as s'' s'''. map_option (\<lambda>(st', as, t). (st', a # as, t)) (drain oom s) = Some (REDIS_OK, as, s'')
          \<and> sim_wf c s'' s''' \<and> map_option (\<lambda>(st', as, t). (st', a # as, t)) (drain oom s')
              = map_option (\<lambda>(st, bs, t). (st, as @ bs, t)) (drain oom s'''))
        \<or> map_option (\<lambda>(st', as, t). (st', a # as, t)) (drain oom s) = None
            \<and> map_option (\<lambda>(st', as, t). (st', a # as, t)) (drain oom s') = None
        \<or> (\<exists>as t. map_option (\<lambda>(st', as, t). (st', a # as, t)) (drain oom s) = Some (REDIS_ERR, as, t)
            \<and> map_option (\<lambda>(st', as, t). (st', a # as, t)) (drain oom s') = Some (REDIS_ERR, as, t) \<and> rd_err t \<noteq> 0)"
        using h(1,2) by (intro disjI1 exI [of _ "a # as"] exI [of _ t] exI [of _ t']) simp
    qed auto
  qed
qed

section \<open>Readers that differ in their buffers only\<close>

lemma ext_refl: "reader_wf r \<Longrightarrow> ext [] r r"
  by (simp add: ext_def same_control_def)

lemma ext_sym: "ext [] r r' \<Longrightarrow> ext [] r' r"
  by (simp add: ext_def same_control_def)

lemma ext_trans: "ext c r r' \<Longrightarrow> ext d r' r'' \<Longrightarrow> ext (c @ d) r r''"
  by (simp add: ext_def same_control_def)

lemma sim_wf_sym: "sim_wf [] r r' \<Longrightarrow> sim_wf [] r' r"
proof -
  assume s: "sim_wf [] r r'"
  then have e: "ext [] (start_stack r) (start_stack r')" by (simp add: sim_wf_def sim_def)
  have "reply_wf (start_stack r') = reply_wf (start_stack r)"
    using e by (intro reply_wf_control) (simp add: ext_def)
  then have "reply_wf r'"
    using s reply_wf_start [of r] reply_wf_start [of r'] by (simp add: sim_wf_def reader_wf_def stack_wf_def)
  then show ?thesis using s ext_sym [OF e] by (simp add: sim_wf_def sim_def)
qed

lemma sim_wf_trans: "sim_wf c r r' \<Longrightarrow> sim_wf d r' r'' \<Longrightarrow> sim_wf (c @ d) r r''"
  using ext_trans by (auto simp: sim_wf_def sim_def)

definition res_rel :: "(int \<times> nat option \<times> reader) option \<Rightarrow> (int \<times> nat option \<times> reader) option \<Rightarrow> bool" where
  "res_rel = rel_option (\<lambda>(st, a, s) (st', a', s'). st' = st \<and> a' = a
     \<and> (st = REDIS_OK \<and> sim_wf [] s s' \<or> st = REDIS_ERR \<and> a = None \<and> s' = s \<and> rd_err s \<noteq> 0))"

lemma res_rel_sym: "res_rel x y \<Longrightarrow> res_rel y x"
  unfolding res_rel_def by (cases x; cases y) (auto dest: sim_wf_sym)

lemma res_rel_trans: "res_rel x y \<Longrightarrow> res_rel y z \<Longrightarrow> res_rel x z"
  unfolding res_rel_def
  by (cases x; cases y; cases z) (auto dest: sim_wf_trans [where c = "[]" and d = "[]", simplified])

text \<open>\<^verbatim>\<open>redisReaderGetReply\<close> without its early return for an empty buffer.\<close>

definition get_loop :: "(nat \<Rightarrow> bool) \<Rightarrow> reader \<Rightarrow> (int \<times> nat option \<times> reader) option" where
  "get_loop oom r = (case process_items oom (start_stack r) of None \<Rightarrow> None | Some s \<Rightarrow> emit s)"

lemma emit_waiting:
  assumes "reader_wf s" "0 \<le> rd_ridx s" "reply_wf s"
  shows "\<exists>t. emit s = Some (REDIS_OK, None, t) \<and> ext [] s t \<and> reply_wf t"
proof -
  obtain t where t: "compact_buffer s = Some t" "reader_wf t" "window t = window s" "same_control s t"
    using compacted [OF assms(1)] by blast
  have "rd_err s = 0" using assms(1) by (simp add: reader_wf_def)
  then have "emit s = Some (REDIS_OK, None, t)" using t(1,4) assms(2) by (simp add: emit_def same_control_def)
  then show ?thesis using t assms reply_wf_control [OF t(4)] by (simp add: ext_def)
qed

lemma GetReply_get_loop:
  assumes "reader_wf r" "reply_wf r"
  shows "res_rel (redisReaderGetReply oom r) (get_loop oom r) \<or> get_loop oom r = None \<and> redisReaderGetReply oom r = None
     \<or> redisReaderGetReply oom r = get_loop oom r"
proof (cases "rd_len r = 0")
  case False
  then show ?thesis using assms by (simp add: GetReply_emit get_loop_def reader_wf_def)
next
  case True
  let ?q = "start_stack r"
  have q: "reader_wf ?q" "0 \<le> rd_ridx ?q" "reply_wf ?q"
    using start_wf [OF assms(1)] reply_wf_start [of r] assms by (auto simp: reader_wf_def stack_wf_def)
  have "buf_wf r" using assms(1) by (simp add: reader_wf_def)
  then have "window ?q = []"
    using True window_length [of r] same_buffer_window [OF start_same_buffer, of r] by simp
  then have "process_items oom ?q = Some ?q" by (rule loop_on_empty [OF q(1,2)])
  moreover obtain t where t: "emit ?q = Some (REDIS_OK, None, t)" "ext [] ?q t" "reply_wf t"
    using emit_waiting [OF q] by blast
  ultimately have "get_loop oom r = Some (REDIS_OK, None, t)" by (simp add: get_loop_def)
  moreover have "redisReaderGetReply oom r = Some (REDIS_OK, None, r)"
    using True assms(1) by (simp add: redisReaderGetReply_def reader_wf_def)
  moreover have "sim_wf [] r t"
  proof -
    have "0 \<le> rd_ridx t" using t(2) q(2) by (simp add: ext_def same_control_def)
    then have "start_stack t = t" by (rule start_stack_started)
    then show ?thesis using t(2) assms by (simp add: sim_wf_def sim_def ext_def)
  qed
  ultimately show ?thesis by (simp add: res_rel_def)
qed

lemma get_loop_same:
  assumes "sim_wf [] r r'"
  shows "res_rel (get_loop oom r) (get_loop oom r')"
proof -
  let ?q = "start_stack r" and ?q' = "start_stack r'"
  have e: "ext [] ?q ?q'" and wf: "reader_wf r" "reply_wf r" using assms by (simp_all add: sim_wf_def sim_def)
  have q: "reader_wf ?q" "0 \<le> rd_ridx ?q" "reply_wf ?q"
    using start_wf [OF wf(1)] reply_wf_start [of r] wf by (auto simp: reader_wf_def stack_wf_def)
  consider (stuck) s s' where "process_items oom ?q = Some s" "process_items oom ?q' = Some s'" "ext [] s s'" "0 \<le> rd_ridx s"
    | (undef) "process_items oom ?q = None" "process_items oom ?q' = None"
    | (dead) s where "process_items oom ?q = Some s" "process_items oom ?q' = Some s" "rd_err s \<noteq> 0"
    | (reply) s s' where "process_items oom ?q = Some s" "process_items oom ?q' = Some s'" "ext [] s s'" "rd_ridx s = - 1"
    using ext_process_items [OF e, of oom] unfolding loop_stuck_def loop_rel_def
    by (cases "process_items oom ?q"; cases "process_items oom ?q'") auto
  then show ?thesis
  proof cases
    case stuck
    have wfs: "reader_wf s" "reader_wf s'" "0 \<le> rd_ridx s'" using stuck(3,4) by (auto simp: ext_def same_control_def)
    have rw: "reply_wf s"
      using process_items_reply [OF q(1,3,2) stuck(1)] wfs(1) by (simp add: reader_wf_def)
    have rw': "reply_wf s'" using rw reply_wf_control [of s s'] stuck(3) by (simp add: ext_def)
    obtain t t' where t: "emit s = Some (REDIS_OK, None, t)" "ext [] s t" "reply_wf t"
      "emit s' = Some (REDIS_OK, None, t')" "ext [] s' t'"
      using emit_waiting [OF wfs(1) stuck(4) rw] emit_waiting [OF wfs(2,3) rw'] by blast
    have "ext [] t t'" using ext_trans [OF ext_trans [OF ext_sym [OF t(2)] stuck(3)] t(5)] by simp
    then have "sim_wf [] t t'" using ext_sim t(3) by (simp add: sim_wf_def ext_def)
    then show ?thesis using stuck(1,2) t by (simp add: get_loop_def res_rel_def)
  next
    case undef
    then show ?thesis by (simp add: get_loop_def res_rel_def)
  next
    case dead
    then show ?thesis by (simp add: get_loop_def res_rel_def emit_def)
  next
    case reply
    have wfs: "reader_wf s" "reader_wf s'" "rd_err s = 0" "rd_err s' = 0" using reply(3) by (auto simp: ext_def reader_wf_def)
    obtain t t' where t: "compact_buffer s = Some t" "same_control s t" "compact_buffer s' = Some t'"
      using compacted [OF wfs(1)] compacted [OF wfs(2)] by blast
    have et: "ext [] t t'" by (rule compact_ext [OF reply(3) t(1,3)])
    have rt: "rd_ridx t = - 1" "rd_ridx t' = - 1" "rd_reply t' = rd_reply t"
      using reply(4) t(2) et by (auto simp: ext_def same_control_def)
    have "ext [] (t\<lparr>rd_reply := None\<rparr>) (t'\<lparr>rd_reply := None\<rparr>)" by (rule reply_taken_ext [OF et rt(1)])
    then have "sim_wf [] (t\<lparr>rd_reply := None\<rparr>) (t'\<lparr>rd_reply := None\<rparr>)"
      using ext_sim rt(1) by (simp add: sim_wf_def ext_def reply_wf_def)
    then show ?thesis using reply(1,2) wfs t rt by (simp add: get_loop_def res_rel_def emit_def)
  qed
qed

lemma GetReply_same:
  assumes "sim_wf [] r r'"
  shows "res_rel (redisReaderGetReply oom r) (redisReaderGetReply oom r')"
proof -
  have refl: "res_rel (get_loop oom r) (get_loop oom r)" "res_rel (get_loop oom r') (get_loop oom r')"
    using get_loop_same [OF assms, of oom] res_rel_sym res_rel_trans by blast+
  have wf: "reader_wf r" "reply_wf r" "reader_wf r'" "reply_wf r'"
    using assms sim_wf_sym [OF assms] by (auto simp: sim_wf_def)
  have left: "res_rel (redisReaderGetReply oom r) (get_loop oom r)"
    using GetReply_get_loop [OF wf(1,2), of oom] refl(1) by (auto simp: res_rel_def)
  have "res_rel (redisReaderGetReply oom r') (get_loop oom r')"
    using GetReply_get_loop [OF wf(3,4), of oom] refl(2) by (auto simp: res_rel_def)
  then show ?thesis
    using res_rel_trans [OF left res_rel_trans [OF get_loop_same [OF assms] res_rel_sym]] by blast
qed

definition drain_alike :: "(int \<times> nat list \<times> reader) option \<Rightarrow> (int \<times> nat list \<times> reader) option \<Rightarrow> bool" where
  "drain_alike = rel_option (\<lambda>(st, as, s) (st', as', s'). st' = st \<and> as' = as
     \<and> (st = REDIS_OK \<and> sim_wf [] s s' \<or> st = REDIS_ERR \<and> s' = s \<and> rd_err s \<noteq> 0))"

lemma drain_same: "sim_wf [] r r' \<Longrightarrow> drain_alike (drain oom r) (drain oom r')"
proof (induction "length (window r)" arbitrary: r r' rule: less_induct)
  case less
  have wf: "reader_wf r" "reader_wf r'" using less.prems by (auto simp: sim_wf_def)
  note R = GetReply_same [OF less.prems, of oom]
  show ?case
  proof (cases "redisReaderGetReply oom r")
    case None
    then show ?thesis using R by (simp add: drain.simps res_rel_def drain_alike_def)
  next
    case (Some x)
    obtain st y s where x: "x = (st, y, s)" by (cases x)
    obtain s' where s': "redisReaderGetReply oom r' = Some (st, y, s')"
      "st = REDIS_OK \<and> sim_wf [] s s' \<or> st = REDIS_ERR \<and> y = None \<and> s' = s \<and> rd_err s \<noteq> 0"
      using R Some x by (auto simp: res_rel_def option_rel_Some1)
    show ?thesis
    proof (cases y)
      case None
      then show ?thesis using Some x s' by (subst (1 2) drain.simps) (auto simp: drain_alike_def)
    next
      case y: (Some a)
      then have ok: "st = REDIS_OK" "sim_wf [] s s'" using s'(2) by auto
      have sh: "length (window s) < length (window r)" "length (window s') < length (window r')"
        using GetReply_progress [OF wf(1)] GetReply_progress [OF wf(2)] Some x s'(1) y ok(1) by auto
      have d: "drain oom r = map_option (\<lambda>(st', as, t). (st', a # as, t)) (drain oom s)"
        "drain oom r' = map_option (\<lambda>(st', as, t). (st', a # as, t)) (drain oom s')"
        using Some x s'(1) y sh by (subst drain.simps, simp)+
      from less.hyps [OF sh(1) ok(2)] show ?thesis
        unfolding d by (cases "drain oom s"; cases "drain oom s'") (auto simp: drain_alike_def)
    qed
  qed
qed

end
