(* ===== verification/RespFormat.thy ===== *)
theory RespFormat
  imports RespReader SdsFormat
begin

text \<open>
  Command formatting of \<^verbatim>\<open>hiredis.c\<close>: \<^verbatim>\<open>redisvFormatCommand\<close> with its \<^verbatim>\<open>printf\<close>-like format, and
  \<^verbatim>\<open>redisFormatCommandArgv\<close>. A format is the byte list before its terminator and the position \<^verbatim>\<open>c\<close>
  of the code is the rest of it; a variadic argument carries its C type. The text that one
  conversion of \<^verbatim>\<open>vsnprintf\<close> produces is the parameter \<open>pf\<close>; \<open>a\<close> is the allocator of the dynamic
  strings, \<open>mem n\<close> says whether \<^verbatim>\<open>malloc\<close> or \<^verbatim>\<open>realloc\<close> of \<open>n\<close> bytes succeeds.
\<close>

section \<open>Lengths\<close>

text \<open>The loop divides a C \<^verbatim>\<open>int\<close> by 10 until it is 0.\<close>

fun intlen_loop :: "nat \<Rightarrow> nat" where
  "intlen_loop i = Suc (if i div 10 = 0 then 0 else intlen_loop (i div 10))"

declare intlen_loop.simps [simp del]

text \<open>Negating the smallest \<^verbatim>\<open>int\<close> leaves its magnitude here.\<close>

definition intlen :: "int \<Rightarrow> nat" where
  "intlen i = (if i < 0 then Suc (intlen_loop (nat (- i))) else intlen_loop (nat i))"

definition bulklen :: "nat \<Rightarrow> nat" where
  "bulklen len = 1 + intlen (c_int (int len)) + 2 + len + 2"

lemma intlen_loop_dec: "intlen_loop n = length (dec_of_nat n)"
proof (induction n rule: intlen_loop.induct)
  case (1 n)
  then show ?case by (subst intlen_loop.simps, subst dec_of_nat.simps) auto
qed

lemma intlen_dec: "intlen i = length (dec_of_int i)"
  by (simp add: intlen_def dec_of_int_def intlen_loop_dec)

section \<open>The parts of a command\<close>

abbreviation crlf :: "byte list" where "crlf \<equiv> [CR, LF]"

text \<open>\<^verbatim>\<open>$<length>\r\n<bytes>\r\n\<close>\<close>

definition bulk :: "byte list \<Rightarrow> byte list" where
  "bulk arg = CHR ''$'' # dec_of_nat (length arg) @ crlf @ arg @ crlf"

text \<open>The protocol's encoding of a command: an array of bulk strings.\<close>

definition encode_command :: "byte list list \<Rightarrow> byte list" where
  "encode_command args = CHR ''*'' # dec_of_nat (length args) @ crlf @ concat (map bulk args)"

text \<open>
  What a formatting function does: it returns the length and the buffer stored through
  \<^verbatim>\<open>target\<close>, returns -1, or has no defined result.
\<close>

datatype fmt_result = Undefined | Failed | Returns int "byte list"

text \<open>
  The common end of both functions: the buffer of \<^verbatim>\<open>totlen + 1\<close> bytes is filled and the position
  compared with \<^verbatim>\<open>totlen\<close>. Filling it beyond its size, as after a wrap of the \<^verbatim>\<open>int\<close> total, is
  undefined.
\<close>

definition build_command :: "(nat \<Rightarrow> bool) \<Rightarrow> int \<Rightarrow> byte list list \<Rightarrow> fmt_result" where
  "build_command mem totlen argv =
     (if totlen < 0 then Undefined
      else if \<not> mem (nat totlen + 1) then Failed
      else
        let cmd = (CHR ''*'' # dec_of_int (int (length argv)) @ crlf) @
                  concat (map (\<lambda>arg. (CHR ''$'' # dec_of_nat (length arg) @ crlf) @ arg @ [CR] @ [LF]) argv) in
        if int (length cmd) = totlen then Returns totlen (cmd @ [NUL]) else Undefined)"

lemma bulk_length: "length arg < 2 ^ 31 \<Longrightarrow> length (bulk arg) = bulklen (length arg)"
  by (simp add: bulk_def bulklen_def intlen_dec dec_of_int_def)

lemma build_command_encode:
  assumes "totlen = int (length (encode_command argv))" "mem (nat totlen + 1)"
  shows "build_command mem totlen argv = Returns totlen (encode_command argv @ [NUL])"
proof -
  have "(CHR ''*'' # dec_of_int (int (length argv)) @ crlf) @
      concat (map (\<lambda>arg. (CHR ''$'' # dec_of_nat (length arg) @ crlf) @ arg @ [CR] @ [LF]) argv)
      = encode_command argv"
    by (simp add: encode_command_def bulk_def [abs_def] dec_of_int_def)
  then show ?thesis using assms by (simp add: build_command_def Let_def del: append.simps append_assoc)
qed

section \<open>\<^verbatim>\<open>redisFormatCommandArgv\<close>\<close>

text \<open>The \<open>j\<close>-th argument as the code reads it: \<open>None\<close> when the given length exceeds it.\<close>

definition argv_bytes :: "byte list list \<Rightarrow> nat list option \<Rightarrow> nat \<Rightarrow> byte list option" where
  "argv_bytes argv argvlen j =
     (case argvlen of
        None \<Rightarrow> Some (cstr (argv ! j))
      | Some ls \<Rightarrow> if j < length ls \<and> ls ! j \<le> length (argv ! j) then Some (take (ls ! j) (argv ! j)) else None)"

fun sum_bulklen :: "int \<Rightarrow> byte list list \<Rightarrow> int" where
  "sum_bulklen totlen [] = totlen"
| "sum_bulklen totlen (arg # args) = sum_bulklen (c_int (totlen + int (bulklen (length arg)))) args"

definition redisFormatCommandArgv ::
  "(nat \<Rightarrow> bool) \<Rightarrow> byte list list \<Rightarrow> nat list option \<Rightarrow> fmt_result" where
  "redisFormatCommandArgv mem argv argvlen =
     (let argc = length argv in
      case those (map (argv_bytes argv argvlen) [0..<argc]) of
        None \<Rightarrow> Undefined
      | Some args \<Rightarrow>
          build_command mem (sum_bulklen (int (1 + intlen (int argc) + 2)) args) args)"

section \<open>\<^verbatim>\<open>redisvFormatCommand\<close>\<close>

text \<open>A variadic argument; a floating point one is opaque.\<close>

datatype 'd va_arg = VPtr "byte list" | VSize nat | VInt int | VLong int | VLLong int | VDouble 'd

text \<open>\<^verbatim>\<open>strchr\<close> also finds the terminator of the set.\<close>

definition strchr_found :: "byte list \<Rightarrow> byte \<Rightarrow> bool" where
  "strchr_found cs c \<longleftrightarrow> c = NUL \<or> c \<in> set cs"

definition intfmts :: "byte list" where "intfmts = ''diouxX''"

definition skip_flag :: "byte \<Rightarrow> byte list \<Rightarrow> byte list" where
  "skip_flag f p = (if peek p 0 \<noteq> NUL \<and> peek p 0 = f then drop 1 p else p)"

definition skip_digits :: "byte list \<Rightarrow> byte list" where
  "skip_digits p = dropWhile isdigit p"

text \<open>Flags, field width and precision.\<close>

definition skip_spec :: "byte list \<Rightarrow> byte list" where
  "skip_spec p =
     (let p = skip_flag (CHR ''#'') p; p = skip_flag (CHR ''0'') p; p = skip_flag (CHR ''-'') p;
          p = skip_flag (CHR '' '') p; p = skip_flag (CHR ''+'') p;
          p = skip_digits p
      in if peek p 0 = CHR ''.'' then skip_digits (drop 1 p) else p)"

datatype conv = CInt | CDouble | CLong | CLLong

text \<open>
  The conversion behind \<^verbatim>\<open>%\<close>: its argument type, and the rest of the format from its last
  character on; \<open>None\<close> is the label \<^verbatim>\<open>fmt_invalid\<close>.
\<close>

definition scan_conv :: "byte list \<Rightarrow> (conv \<times> byte list) option" where
  "scan_conv p0 =
     (let p = skip_spec p0;
          valid = (\<lambda>k c. if peek p k \<noteq> NUL \<and> strchr_found intfmts (peek p k) then Some (c, drop k p) else None)
      in
      if strchr_found intfmts (peek p 0) then Some (CInt, p)
      else if strchr_found ''eEfFgGaA'' (peek p 0) then Some (CDouble, p)
      else if peek p 0 = CHR ''h'' \<and> peek p 1 = CHR ''h'' then valid 2 CInt
      else if peek p 0 = CHR ''h'' then valid 1 CInt
      else if peek p 0 = CHR ''l'' \<and> peek p 1 = CHR ''l'' then valid 2 CLLong
      else if peek p 0 = CHR ''l'' then valid 1 CLong
      else None)"

text \<open>\<^verbatim>\<open>va_arg\<close> with a type; reading an argument of another type is undefined.\<close>

fun take_va :: "conv \<Rightarrow> 'd va_arg list \<Rightarrow> ('d va_arg \<times> 'd va_arg list) option" where
  "take_va CInt (VInt i # ap) = Some (VInt i, ap)"
| "take_va CDouble (VDouble d # ap) = Some (VDouble d, ap)"
| "take_va CLong (VLong i # ap) = Some (VLong i, ap)"
| "take_va CLLong (VLLong i # ap) = Some (VLLong i, ap)"
| "take_va _ _ = None"

record fmt_state =
  f_curarg :: sds
  f_touched :: bool
  f_argv :: "sds list"
  f_totlen :: int

text \<open>\<^verbatim>\<open>curargv[argc++] = curarg\<close> and the new total; \<open>None\<close> when the array cannot grow.\<close>

definition finish_arg :: "(nat \<Rightarrow> bool) \<Rightarrow> fmt_state \<Rightarrow> fmt_state option" where
  "finish_arg mem st =
     (if mem (8 * (length (f_argv st) + 1))
      then Some (st\<lparr>f_argv := f_argv st @ [f_curarg st],
                    f_totlen := c_int (f_totlen st + int (bulklen (sdslen (f_curarg st))))\<rparr>)
      else None)"

text \<open>
  One \<^verbatim>\<open>%\<close> sequence at \<open>c\<close> (the percent sign and what follows): the new argument, the remaining
  variadic arguments and the position where the loop goes on. The outer \<open>None\<close> is undefined
  behaviour, the inner one the label \<^verbatim>\<open>err\<close>. The position after a conversion is one past the
  character at which the scan stopped, which for the terminator lies outside of the format.
\<close>

definition cat_bytes ::
  "allocator \<Rightarrow> sds \<Rightarrow> byte list \<Rightarrow> nat \<Rightarrow> 'd va_arg list \<Rightarrow> byte list
     \<Rightarrow> (sds \<times> 'd va_arg list \<times> byte list) option" where
  "cat_bytes a curarg t n ap c =
     (if n > 0 then map_option (\<lambda>s'. (s', ap, c)) (sdscatlen a curarg t n) else Some (curarg, ap, c))"

fun percent_string ::
  "allocator \<Rightarrow> sds \<Rightarrow> byte list \<Rightarrow> 'd va_arg list
     \<Rightarrow> (sds \<times> 'd va_arg list \<times> byte list) option option" where
  "percent_string a curarg c (VPtr t # ap) = Some (cat_bytes a curarg t (strlen t) ap (drop 2 c))"
| "percent_string a curarg c _ = None"

fun percent_binary ::
  "allocator \<Rightarrow> sds \<Rightarrow> byte list \<Rightarrow> 'd va_arg list
     \<Rightarrow> (sds \<times> 'd va_arg list \<times> byte list) option option" where
  "percent_binary a curarg c (VPtr t # VSize n # ap) =
     (if n \<le> length t then Some (cat_bytes a curarg t n ap (drop 2 c)) else None)"
| "percent_binary a curarg c _ = None"

definition percent_printf ::
  "allocator \<Rightarrow> byte list \<Rightarrow> (byte list \<Rightarrow> 'd va_arg \<Rightarrow> byte list) \<Rightarrow> sds \<Rightarrow> byte list \<Rightarrow> 'd va_arg list
     \<Rightarrow> (sds \<times> 'd va_arg list \<times> byte list) option option" where
  "percent_printf a sb pf curarg c ap =
     (case scan_conv (drop 1 c) of
        None \<Rightarrow> Some None
      | Some (cv, p) \<Rightarrow>
          (case take_va cv ap of
             None \<Rightarrow> None
           | Some (v, ap') \<Rightarrow>
               (let l = length c - length p + 1 in
                if l < 16 - 2 then
                  (case sdscatvprintf a sb curarg (take l c) (pf (take l c) v) of
                     None \<Rightarrow> Some None
                   | Some s' \<Rightarrow> if p = [] then None else Some (Some (s', ap', drop 1 p)))
                else Some (Some (curarg, ap', drop 2 c)))))"

definition percent ::
  "allocator \<Rightarrow> byte list \<Rightarrow> (byte list \<Rightarrow> 'd va_arg \<Rightarrow> byte list) \<Rightarrow> sds \<Rightarrow> byte list \<Rightarrow> 'd va_arg list
     \<Rightarrow> (sds \<times> 'd va_arg list \<times> byte list) option option" where
  "percent a sb pf curarg c ap =
     (if peek c 1 = CHR ''s'' then percent_string a curarg c ap
      else if peek c 1 = CHR ''b'' then percent_binary a curarg c ap
      else if peek c 1 = CHR 0x25 then
        Some (map_option (\<lambda>s'. (s', ap, drop 2 c)) (sdscat a curarg [CHR 0x25, NUL]))
      else percent_printf a sb pf curarg c ap)"

lemma skip_spec_length: "length (skip_spec p) \<le> length p"
proof -
  have flag: "length (skip_flag f q) \<le> length q" for f q by (simp add: skip_flag_def)
  have digits: "length (skip_digits q) \<le> length q" for q by (simp add: skip_digits_def length_dropWhile_le)
  let ?q = "skip_digits (skip_flag (CHR ''+'') (skip_flag (CHR '' '') (skip_flag (CHR ''-'')
    (skip_flag (CHR ''0'') (skip_flag (CHR ''#'') p)))))"
  have q: "length ?q \<le> length p"
    by (rule order_trans [OF digits], (rule order_trans [OF flag])+, simp)
  moreover have "length (skip_digits (drop 1 ?q)) \<le> length ?q"
    by (rule order_trans [OF digits]) simp
  ultimately show ?thesis unfolding skip_spec_def Let_def by (simp split: if_split)
qed

lemma scan_conv_length: "scan_conv p0 = Some (conv, p) \<Longrightarrow> length p \<le> length p0"
  using skip_spec_length [of p0] by (auto simp: scan_conv_def Let_def split: if_splits)

lemma cat_bytes_rest: "cat_bytes a curarg t n ap c = Some (s', ap', c') \<Longrightarrow> c' = c"
  by (auto simp: cat_bytes_def split: if_splits)

lemma percent_string_rest: "percent_string a s c ap = Some (Some (s', ap', c')) \<Longrightarrow> c' = drop 2 c"
  by (cases "(a, s, c, ap)" rule: percent_string.cases) (auto dest: cat_bytes_rest)

lemma percent_binary_rest: "percent_binary a s c ap = Some (Some (s', ap', c')) \<Longrightarrow> c' = drop 2 c"
  by (cases "(a, s, c, ap)" rule: percent_binary.cases) (auto dest: cat_bytes_rest split: if_splits)

lemma percent_printf_rest:
  assumes "percent_printf a sb pf s c ap = Some (Some (s', ap', c'))" "c \<noteq> []"
  shows "length c' < length c"
proof -
  obtain cv p v ap1 where p: "scan_conv (drop 1 c) = Some (cv, p)" "take_va cv ap = Some (v, ap1)"
    using assms(1) by (auto simp: percent_printf_def split: option.splits)
  have "length p < length c"
    using scan_conv_length [OF p(1)] assms(2) by (cases c) auto
  then show ?thesis
    using assms by (auto simp: percent_printf_def p [unfolded One_nat_def] Let_def split: if_splits option.splits)
qed

lemma percent_shorter:
  assumes "percent a sb pf s c ap = Some (Some (s', ap', c'))" "c \<noteq> []"
  shows "length c' < length c"
  using assms percent_printf_rest [of a sb pf s c ap s' ap' c']
  by (auto simp: percent_def dest!: percent_string_rest percent_binary_rest split: if_splits)

text \<open>The loop over the format.\<close>

function fmt_loop ::
  "(nat \<Rightarrow> bool) \<Rightarrow> allocator \<Rightarrow> byte list \<Rightarrow> (byte list \<Rightarrow> 'd va_arg \<Rightarrow> byte list) \<Rightarrow> byte list
     \<Rightarrow> 'd va_arg list \<Rightarrow> fmt_state \<Rightarrow> fmt_state option option" where
  "fmt_loop mem a sb pf c ap st =
     (if c = [] then Some (Some st)
      else if peek c 0 \<noteq> CHR ''%'' \<or> peek c 1 = NUL then
        (if peek c 0 = CHR '' '' then
           (if f_touched st then
              (case finish_arg mem st of
                 None \<Rightarrow> Some None
               | Some st' \<Rightarrow>
                   (case sdsempty a of
                      None \<Rightarrow> Some None
                    | Some e \<Rightarrow> fmt_loop mem a sb pf (drop 1 c) ap (st'\<lparr>f_curarg := e, f_touched := False\<rparr>)))
            else fmt_loop mem a sb pf (drop 1 c) ap st)
         else
           (case sdscatlen a (f_curarg st) c 1 of
              None \<Rightarrow> Some None
            | Some s' \<Rightarrow> fmt_loop mem a sb pf (drop 1 c) ap (st\<lparr>f_curarg := s', f_touched := True\<rparr>)))
      else
        (case percent a sb pf (f_curarg st) c ap of
           None \<Rightarrow> None
         | Some None \<Rightarrow> Some None
         | Some (Some (s', ap', c')) \<Rightarrow>
             fmt_loop mem a sb pf c' ap' (st\<lparr>f_curarg := s', f_touched := True\<rparr>)))"
  by pat_completeness auto
termination
  by (relation "measure (\<lambda>(mem, a, sb, pf, c, ap, st). length c)") (auto dest: percent_shorter)

declare fmt_loop.simps [simp del]

definition redisvFormatCommand ::
  "(nat \<Rightarrow> bool) \<Rightarrow> allocator \<Rightarrow> byte list \<Rightarrow> (byte list \<Rightarrow> 'd va_arg \<Rightarrow> byte list) \<Rightarrow> bool \<Rightarrow> byte list
     \<Rightarrow> 'd va_arg list \<Rightarrow> fmt_result" where
  "redisvFormatCommand mem a sb pf target format ap =
     (if \<not> target then Failed
      else
        case sdsempty a of
          None \<Rightarrow> Failed
        | Some e \<Rightarrow>
            (case fmt_loop mem a sb pf (cstr format) ap
                    \<lparr>f_curarg = e, f_touched = False, f_argv = [], f_totlen = 0\<rparr> of
               None \<Rightarrow> Undefined
             | Some None \<Rightarrow> Failed
             | Some (Some st) \<Rightarrow>
                 (case (if f_touched st then finish_arg mem st else Some st) of
                    None \<Rightarrow> Failed
                  | Some st' \<Rightarrow>
                      build_command mem
                        (c_int (f_totlen st' + int (1 + intlen (int (length (f_argv st'))) + 2)))
                        (map sds_str (f_argv st')))))"

definition redisFormatCommand ::
  "(nat \<Rightarrow> bool) \<Rightarrow> allocator \<Rightarrow> byte list \<Rightarrow> (byte list \<Rightarrow> 'd va_arg \<Rightarrow> byte list) \<Rightarrow> bool \<Rightarrow> byte list
     \<Rightarrow> 'd va_arg list \<Rightarrow> fmt_result" where
  "redisFormatCommand mem a sb pf target format ap = redisvFormatCommand mem a sb pf target format ap"

section \<open>Formatting from a vector\<close>

lemma sum_bulklen_exact:
  assumes "0 \<le> t" "t + int (length (concat (map bulk args))) < 2 ^ 31"
  shows "sum_bulklen t args = t + int (length (concat (map bulk args)))"
  using assms
proof (induction args arbitrary: t)
  case Nil
  then show ?case by simp
next
  case (Cons arg args)
  have "length arg \<le> length (bulk arg)" by (simp add: bulk_def)
  then have "length arg < 2 ^ 31" using Cons.prems by simp
  then have len: "bulklen (length arg) = length (bulk arg)" by (simp add: bulk_length)
  then show ?case
    using Cons.IH [of "t + int (length (bulk arg))"] Cons.prems by (simp add: c_int_id)
qed

lemma encode_command_length:
  "int (length (encode_command args)) = int (1 + intlen (int (length args)) + 2) + int (length (concat (map bulk args)))"
  by (simp add: encode_command_def intlen_dec dec_of_int_def)

lemma argv_bytes_cstr: "those (map (argv_bytes argv None) [0..<length argv]) = Some (map cstr argv)"
proof -
  have "map (argv_bytes argv None) [0..<length argv] = map Some (map cstr argv)"
    by (rule nth_equalityI) (simp_all add: argv_bytes_def)
  moreover have "those (map Some xs) = Some xs" for xs :: "byte list list" by (induction xs) simp_all
  ultimately show ?thesis by metis
qed

lemma argv_bytes_lens:
  "those (map (argv_bytes argv (Some (map length argv))) [0..<length argv]) = Some argv"
proof -
  have "map (argv_bytes argv (Some (map length argv))) [0..<length argv] = map Some argv"
    by (rule nth_equalityI) (simp_all add: argv_bytes_def)
  moreover have "those (map Some xs) = Some xs" for xs :: "byte list list" by (induction xs) simp_all
  ultimately show ?thesis by metis
qed

lemma format_argv_build:
  assumes "length (encode_command args) < 2 ^ 31" "\<forall>n. mem n"
  shows "build_command mem (sum_bulklen (int (1 + intlen (int (length args)) + 2)) args) args
    = Returns (int (length (encode_command args))) (encode_command args @ [NUL])"
proof -
  have "sum_bulklen (int (1 + intlen (int (length args)) + 2)) args = int (length (encode_command args))"
    unfolding encode_command_length
  proof (rule sum_bulklen_exact)
    have "int (length (encode_command args)) < 2 ^ 31" using assms(1) by simp
    then show "int (1 + intlen (int (length args)) + 2) + int (length (concat (map bulk args))) < 2 ^ 31"
      unfolding encode_command_length .
  qed simp
  then show ?thesis using build_command_encode assms(2) by metis
qed

section \<open>What a format denotes\<close>

text \<open>
  A format as a sequence of pieces with the arguments its conversions consume. \<open>PConv sp v\<close> is
  \<^verbatim>\<open>%\<close> followed by the characters \<open>sp\<close> of a \<^verbatim>\<open>printf\<close> conversion of the argument \<open>v\<close>.
\<close>

datatype 'd piece =
  PLit byte | PBlank | PStr "byte list" | PBin "byte list" | PPct | PConv "byte list" "'d va_arg"

fun piece_fmt :: "'d piece \<Rightarrow> byte list" where
  "piece_fmt (PLit c) = [c]"
| "piece_fmt PBlank = '' ''"
| "piece_fmt (PStr t) = [CHR 0x25, CHR ''s'']"
| "piece_fmt (PBin t) = [CHR 0x25, CHR ''b'']"
| "piece_fmt PPct = [CHR 0x25, CHR 0x25]"
| "piece_fmt (PConv sp v) = CHR 0x25 # sp"

fun piece_args :: "'d piece \<Rightarrow> 'd va_arg list" where
  "piece_args (PStr t) = [VPtr t]"
| "piece_args (PBin t) = [VPtr t, VSize (length t)]"
| "piece_args (PConv sp v) = [v]"
| "piece_args _ = []"

fun piece_text :: "(byte list \<Rightarrow> 'd va_arg \<Rightarrow> byte list) \<Rightarrow> 'd piece \<Rightarrow> byte list" where
  "piece_text pf (PLit c) = [c]"
| "piece_text pf PBlank = []"
| "piece_text pf (PStr t) = cstr t"
| "piece_text pf (PBin t) = t"
| "piece_text pf PPct = [CHR 0x25]"
| "piece_text pf (PConv sp v) = cstr (pf (CHR 0x25 # sp) v)"

text \<open>
  A conversion the code accepts: it does not begin with one of its own letters, it is short
  enough for the local buffer, and scanning it stops at its last character.
\<close>

definition conv_ok :: "byte list \<Rightarrow> 'd va_arg \<Rightarrow> bool" where
  "conv_ok sp v \<longleftrightarrow>
     sp \<noteq> [] \<and> NUL \<notin> set sp \<and> length sp < 13 \<and> hd sp \<noteq> CHR ''s'' \<and> hd sp \<noteq> CHR ''b'' \<and> hd sp \<noteq> CHR 0x25
     \<and> (\<exists>cv. (\<forall>rest. scan_conv (sp @ rest) = Some (cv, last sp # rest)) \<and> (\<forall>ap. take_va cv (v # ap) = Some (v, ap)))"

fun piece_ok :: "'d piece \<Rightarrow> bool" where
  "piece_ok (PLit c) \<longleftrightarrow> c \<noteq> NUL \<and> c \<noteq> CHR '' '' \<and> c \<noteq> CHR 0x25"
| "piece_ok (PConv sp v) \<longleftrightarrow> conv_ok sp v"
| "piece_ok _ \<longleftrightarrow> True"

text \<open>Blanks of the format separate arguments; everything else, also an empty \<^verbatim>\<open>%s\<close>, joins.\<close>

fun split_args :: "(byte list \<Rightarrow> 'd va_arg \<Rightarrow> byte list) \<Rightarrow> byte list option \<Rightarrow> 'd piece list \<Rightarrow> byte list list" where
  "split_args pf cur [] = (case cur of None \<Rightarrow> [] | Some t \<Rightarrow> [t])"
| "split_args pf cur (p # ps) =
     (if p = PBlank then (case cur of None \<Rightarrow> [] | Some t \<Rightarrow> [t]) @ split_args pf None ps
      else split_args pf (Some ((case cur of None \<Rightarrow> [] | Some t \<Rightarrow> t) @ piece_text pf p)) ps)"

definition fmt_inv :: "byte list option \<Rightarrow> fmt_state \<Rightarrow> bool" where
  "fmt_inv cur st \<longleftrightarrow> sds_ok (f_curarg st) \<and> 0 \<le> f_totlen st \<and> f_touched st = (cur \<noteq> None) \<and>
     sds_str (f_curarg st) = (case cur of None \<Rightarrow> [] | Some t \<Rightarrow> t)"

definition bulks_length :: "byte list list \<Rightarrow> int" where
  "bulks_length args = int (length (concat (map bulk args)))"

lemma bulks_length_simps [simp]:
  "bulks_length [] = 0"
  "bulks_length (a # as) = int (length (bulk a)) + bulks_length as"
  "bulks_length (as @ bs) = bulks_length as + bulks_length bs"
  by (simp_all add: bulks_length_def)

lemma bulks_length_nonneg: "0 \<le> bulks_length as" by (simp add: bulks_length_def)

lemma split_args_current:
  "\<exists>u us. split_args pf (Some t) ps = (t @ u) # us"
proof (induction ps arbitrary: t)
  case Nil
  then show ?case by simp
next
  case (Cons p ps)
  show ?case
  proof (cases "p = PBlank")
    case False
    obtain u us where "split_args pf (Some (t @ piece_text pf p)) ps = ((t @ piece_text pf p) @ u) # us"
      using Cons.IH by blast
    then show ?thesis using False by auto
  qed auto
qed

lemma split_args_room:
  assumes "fmt_inv (Some t) st" "f_totlen st + bulks_length (split_args pf (Some (t @ x)) ps) < 2 ^ 31"
  shows "sds_fits (f_curarg st) (length x)" "length t < 2 ^ 31"
proof -
  obtain u us where "split_args pf (Some (t @ x)) ps = ((t @ x) @ u) # us"
    using split_args_current by blast
  then have "int (length t) + int (length x) < 2 ^ 31"
    using assms bulks_length_nonneg [of us] by (simp add: bulk_def fmt_inv_def)
  moreover have "sh_len (f_curarg st) = length t"
    using assms(1) sds_str_length [of "f_curarg st"] by (simp add: fmt_inv_def sdslen_def)
  ultimately show "sds_fits (f_curarg st) (length x)" "length t < 2 ^ 31"
    by (simp_all add: sds_fits_def SDS_MAX_PREALLOC_def)
qed

lemma fmt_inv_None: "fmt_inv None st \<Longrightarrow> fmt_inv (Some []) (st\<lparr>f_touched := True\<rparr>)"
  by (simp add: fmt_inv_def)

text \<open>Every conversion appends its text to the current argument.\<close>

lemma percent_piece:
  assumes a: "allocator_ok a" "\<forall>n. a n \<noteq> None" and sb: "2 \<le> length sb"
    and ok: "sds_ok s" and fits: "sds_fits s (length (piece_text pf p))"
    and p: "piece_ok p" "\<And>c. p \<noteq> PLit c" "p \<noteq> PBlank"
  shows "\<exists>s'. percent a sb pf s (piece_fmt p @ rest) (piece_args p @ ap) = Some (Some (s', ap, rest))
    \<and> sds_ok s' \<and> sds_str s' = sds_str s @ piece_text pf p"
proof -
  have cat: "\<exists>s'. cat_bytes a s t n ap c = Some (s', ap, c) \<and> sds_ok s' \<and> sds_str s' = sds_str s @ take n t"
    if le: "n \<le> length t" "sds_fits s n" for t n c
  proof (cases "n > 0")
    case True
    obtain s' where s': "sdscatlen a s t n = Some s'" using sdscatlen_succeeds [of a s t n] a(2) by auto
    then show ?thesis
      using True sdscatlen_Some [OF a(1) ok le(2, 1) s'] by (simp add: cat_bytes_def)
  qed (simp add: cat_bytes_def ok)
  show ?thesis
  proof (cases p)
    case (PStr t)
    have "length (cstr t) = strlen t" "take (strlen t) t = cstr t"
      by (simp add: strlen_def) (rule take_strlen)
    then show ?thesis
      using cat [OF strlen_le [of t], of rest] fits PStr by (auto simp: percent_def peek_def)
  next
    case (PBin t)
    then show ?thesis using cat [of "length t" t rest] fits by (auto simp: percent_def peek_def)
  next
    case PPct
    obtain s' where s': "sdscatlen a s [CHR 0x25, NUL] 1 = Some s'"
      using sdscatlen_succeeds [of a s "[CHR 0x25, NUL]" 1] a(2) by auto
    have "strlen [CHR 0x25, NUL] = 1" by (simp add: strlen_def cstr_def)
    then show ?thesis
      using PPct s' sdscatlen_Some [OF a(1) ok _ _ s'] fits by (simp add: percent_def peek_def sdscat_def)
  next
    case (PConv sp v)
    then have c: "conv_ok sp v" using p(1) by simp
    then obtain x xs where sp: "sp = x # xs" by (cases sp) (auto simp: conv_ok_def)
    obtain cv where cv: "\<And>rest. scan_conv (sp @ rest) = Some (cv, last sp # rest)"
      "\<And>ap. take_va cv (v # ap) = Some (v, ap)" using c by (auto simp: conv_ok_def)
    have len: "length sp < 13" using c by (simp add: conv_ok_def)
    have x: "x \<noteq> CHR ''s''" "x \<noteq> CHR ''b''" "x \<noteq> CHR 0x25" using c sp by (auto simp: conv_ok_def)
    let ?out = "pf (CHR 0x25 # sp) v"
    obtain s' where s': "sdscatvprintf a sb s (CHR 0x25 # sp) ?out = Some s'"
      using sdscatvprintf_succeeds [of a sb s "CHR 0x25 # sp" ?out] a(2) by auto
    have "sds_fits s (strlen ?out)" using fits PConv by (simp add: strlen_def)
    from sdscatvprintf_Some [OF a(1) ok this sb s']
    have res: "sds_ok s' \<and> sds_str s' = sds_str s @ cstr ?out" .
    have "percent a sb pf s (CHR 0x25 # sp @ rest) (v # ap) = percent_printf a sb pf s (CHR 0x25 # sp @ rest) (v # ap)"
      using x sp by (simp add: percent_def peek_def)
    also have "\<dots> = Some (Some (s', ap, rest))"
      using cv len s' by (simp add: percent_printf_def Let_def)
    finally show ?thesis using res PConv by simp
  qed (use p in auto)
qed

lemma finish_arg_spec:
  assumes "fmt_inv (Some t) st" "f_totlen st + int (length (bulk t)) < 2 ^ 31" "\<forall>n. mem n"
  shows "finish_arg mem st = Some (st\<lparr>f_argv := f_argv st @ [f_curarg st], f_totlen := f_totlen st + int (length (bulk t))\<rparr>)
    \<and> sds_str (f_curarg st) = t"
proof -
  have t: "sds_str (f_curarg st) = t" "sdslen (f_curarg st) = length t" "0 \<le> f_totlen st"
    using assms(1) sds_str_length [of "f_curarg st"] by (auto simp: fmt_inv_def)
  have "length t \<le> length (bulk t)" by (simp add: bulk_def)
  then have "length t < 2 ^ 31" using assms(2) t(3) by simp
  then have "bulklen (length t) = length (bulk t)" by (simp add: bulk_length)
  then show ?thesis using t assms(2, 3) by (simp add: finish_arg_def c_int_id)
qed

lemma sdsempty_succeeds: "\<forall>n. a n \<noteq> None \<Longrightarrow> \<exists>e. sdsempty a = Some e"
  using sdsnewlen_succeeds [of a "Some []" 0] by (auto simp: sdsempty_def)

definition finish_st :: "(nat \<Rightarrow> bool) \<Rightarrow> fmt_state \<Rightarrow> fmt_state option" where
  "finish_st mem st = (if f_touched st then finish_arg mem st else Some st)"

text \<open>The whole loop: with memory available it collects exactly the arguments denoted.\<close>

lemma fmt_loop_spec:
  assumes a: "allocator_ok a" "\<forall>n. a n \<noteq> None" and sb: "2 \<le> length sb" and mem: "\<forall>n. mem n"
    and ps: "\<forall>p \<in> set ps. piece_ok p" and st: "fmt_inv cur st"
    and room: "f_totlen st + bulks_length (split_args pf cur ps) < 2 ^ 31"
  shows "\<exists>st1 st'. fmt_loop mem a sb pf (concat (map piece_fmt ps)) (concat (map piece_args ps)) st = Some (Some st1)
    \<and> finish_st mem st1 = Some st'
    \<and> map sds_str (f_argv st') = map sds_str (f_argv st) @ split_args pf cur ps
    \<and> f_totlen st' = f_totlen st + bulks_length (split_args pf cur ps)"
  using ps st room
proof (induction ps arbitrary: cur st)
  case Nil
  have loop: "fmt_loop mem a sb pf [] [] st = Some (Some st)" by (subst fmt_loop.simps) simp
  show ?case
  proof (cases cur)
    case None
    then show ?thesis using Nil loop by (simp add: finish_st_def fmt_inv_def)
  next
    case (Some t)
    let ?st = "st\<lparr>f_argv := f_argv st @ [f_curarg st], f_totlen := f_totlen st + int (length (bulk t))\<rparr>"
    have "finish_arg mem st = Some ?st \<and> sds_str (f_curarg st) = t"
      using Nil Some by (intro finish_arg_spec mem) auto
    moreover have "f_touched st" using Nil Some by (simp add: fmt_inv_def)
    ultimately have "finish_st mem st = Some ?st" "map sds_str (f_argv ?st) = map sds_str (f_argv st) @ [t]"
      by (simp_all add: finish_st_def)
    moreover have "split_args pf cur [] = [t]" using Some by simp
    ultimately show ?thesis using loop by (intro exI [of _ st] exI [of _ ?st]) simp
  qed
next
  case (Cons p ps)
  let ?c = "concat (map piece_fmt ps)" and ?ap = "concat (map piece_args ps)"
  have ps: "\<forall>p \<in> set ps. piece_ok p" "piece_ok p" using Cons.prems(1) by auto
  show ?case
  proof (cases "p = PBlank")
    case True
    show ?thesis
    proof (cases cur)
      case None
      then have "\<not> f_touched st" using Cons.prems(2) by (simp add: fmt_inv_def)
      then have "fmt_loop mem a sb pf (CHR '' '' # ?c) ?ap st = fmt_loop mem a sb pf ?c ?ap st"
        by (subst fmt_loop.simps) (simp add: peek_def)
      then show ?thesis using Cons.IH [OF ps(1) Cons.prems(2)] Cons.prems(3) True None by simp
    next
      case (Some t)
      let ?st = "st\<lparr>f_argv := f_argv st @ [f_curarg st], f_totlen := f_totlen st + int (length (bulk t))\<rparr>"
      have fin: "finish_arg mem st = Some ?st" "sds_str (f_curarg st) = t" "f_touched st"
        using finish_arg_spec [of t st mem] Cons.prems(2, 3) True Some mem
          bulks_length_nonneg [of "split_args pf None ps"] by (auto simp: fmt_inv_def)
      obtain e where e: "sdsempty a = Some e"
        using sdsempty_succeeds [OF a(2)] by blast
      let ?st2 = "?st\<lparr>f_curarg := e, f_touched := False\<rparr>"
      have inv: "fmt_inv None ?st2"
        using sdsempty_Some [OF a(1) e] Cons.prems(2) Some by (simp add: fmt_inv_def)
      have "fmt_loop mem a sb pf (CHR '' '' # ?c) ?ap st = fmt_loop mem a sb pf ?c ?ap ?st2"
        using fin e by (subst fmt_loop.simps) (simp add: peek_def)
      then show ?thesis
        using Cons.IH [OF ps(1) inv] Cons.prems(3) True Some fin(2) by (auto simp: add.assoc)
    qed
  next
    case False
    define t where "t = (case cur of None \<Rightarrow> [] | Some t \<Rightarrow> t)"
    have split: "split_args pf cur (p # ps) = split_args pf (Some (t @ piece_text pf p)) ps"
      using False by (simp add: t_def)
    have inv: "fmt_inv (Some t) (st\<lparr>f_touched := True\<rparr>)"
      using Cons.prems(2) by (auto simp: fmt_inv_def t_def)
    have fits: "sds_fits (f_curarg st) (length (piece_text pf p))"
      using split_args_room(1) [OF inv, of "pf" "piece_text pf p" ps] Cons.prems(3) split by simp
    have ok: "sds_ok (f_curarg st)" "sds_str (f_curarg st) = t" using inv by (auto simp: fmt_inv_def)
    have "\<exists>s'. fmt_loop mem a sb pf (piece_fmt p @ ?c) (piece_args p @ ?ap) st
          = fmt_loop mem a sb pf ?c ?ap (st\<lparr>f_curarg := s', f_touched := True\<rparr>)
        \<and> sds_ok s' \<and> sds_str s' = t @ piece_text pf p"
    proof (cases "\<exists>c. p = PLit c")
      case True
      then obtain c where c: "p = PLit c" by blast
      obtain s' where s': "sdscatlen a (f_curarg st) (c # ?c) 1 = Some s'"
        using sdscatlen_succeeds [of a "f_curarg st" "c # ?c" 1] a(2) by auto
      then have "fmt_loop mem a sb pf (c # ?c) ?ap st = fmt_loop mem a sb pf ?c ?ap (st\<lparr>f_curarg := s', f_touched := True\<rparr>)"
        using ps(2) c by (subst fmt_loop.simps) (simp add: peek_def)
      then show ?thesis
        using sdscatlen_Some [OF a(1) ok(1) _ _ s'] fits ok(2) c by auto
    next
      case nolit: False
      obtain s' where s': "percent a sb pf (f_curarg st) (piece_fmt p @ ?c) (piece_args p @ ?ap) = Some (Some (s', ?ap, ?c))"
        "sds_ok s'" "sds_str s' = t @ piece_text pf p"
        using percent_piece [OF a sb ok(1) fits ps(2) _ False, of ?c ?ap] nolit ok(2) by auto
      have "\<exists>x xs. piece_fmt p = CHR 0x25 # x # xs \<and> x \<noteq> NUL"
        using ps(2) nolit False by (cases p) (auto simp: conv_ok_def neq_Nil_conv)
      then have "fmt_loop mem a sb pf (piece_fmt p @ ?c) (piece_args p @ ?ap) st
          = fmt_loop mem a sb pf ?c ?ap (st\<lparr>f_curarg := s', f_touched := True\<rparr>)"
        using s'(1) by (subst fmt_loop.simps) (auto simp: peek_def)
      then show ?thesis using s' by blast
    qed
    then obtain s' where s': "fmt_loop mem a sb pf (piece_fmt p @ ?c) (piece_args p @ ?ap) st
          = fmt_loop mem a sb pf ?c ?ap (st\<lparr>f_curarg := s', f_touched := True\<rparr>)"
      "sds_ok s'" "sds_str s' = t @ piece_text pf p" by blast
    let ?st = "st\<lparr>f_curarg := s', f_touched := True\<rparr>"
    have inv': "fmt_inv (Some (t @ piece_text pf p)) ?st"
      using s' Cons.prems(2) by (simp add: fmt_inv_def)
    from Cons.IH [OF ps(1) inv'] Cons.prems(3) show ?thesis
      unfolding split using s'(1) by simp
  qed
qed

lemma piece_fmt_no_nul: "piece_ok p \<Longrightarrow> NUL \<notin> set (piece_fmt p)"
  by (cases p) (auto simp: conv_ok_def)

lemma format_pieces:
  assumes "allocator_ok a" "\<forall>n. a n \<noteq> None" "2 \<le> length sb" "\<forall>n. mem n" "\<forall>p \<in> set ps. piece_ok p"
    "length (encode_command (split_args pf None ps)) < 2 ^ 31"
  shows "redisvFormatCommand mem a sb pf True (concat (map piece_fmt ps)) (concat (map piece_args ps))
    = Returns (int (length (encode_command (split_args pf None ps)))) (encode_command (split_args pf None ps) @ [NUL])"
proof -
  let ?args = "split_args pf None ps"
  obtain e where e: "sdsempty a = Some e" using sdsempty_succeeds [OF assms(2)] by blast
  let ?st = "\<lparr>f_curarg = e, f_touched = False, f_argv = [], f_totlen = 0\<rparr>"
  have inv: "fmt_inv None ?st" using sdsempty_Some [OF assms(1) e] by (simp add: fmt_inv_def)
  have lt: "int (length (encode_command ?args)) < 2 ^ 31" using assms(6) by simp
  then have "f_totlen ?st + bulks_length ?args < 2 ^ 31"
    unfolding encode_command_length bulks_length_def by simp
  from fmt_loop_spec [OF assms(1-5) inv this] obtain st1 st' where
    st: "fmt_loop mem a sb pf (concat (map piece_fmt ps)) (concat (map piece_args ps)) ?st = Some (Some st1)"
    "finish_st mem st1 = Some st'" "map sds_str (f_argv st') = ?args" "f_totlen st' = bulks_length ?args" by auto
  have "length (f_argv st') = length ?args" using st(3) by (metis length_map)
  then have tot: "f_totlen st' + int (1 + intlen (int (length (f_argv st'))) + 2) = int (length (encode_command ?args))"
    unfolding encode_command_length st(4) bulks_length_def by simp
  have "cstr (concat (map piece_fmt ps)) = concat (map piece_fmt ps)"
    using assms(5) piece_fmt_no_nul by (intro cstr_id) auto
  then have "redisvFormatCommand mem a sb pf True (concat (map piece_fmt ps)) (concat (map piece_args ps))
      = build_command mem (c_int (int (length (encode_command ?args)))) ?args"
    using e st(1, 2) tot by (simp add: redisvFormatCommand_def finish_st_def st(3))
  then show ?thesis
    using lt build_command_encode [OF refl, of mem ?args] assms(4) by (simp add: c_int_id)
qed

section \<open>Properties\<close>

lemmas scan_simps = scan_conv_def skip_spec_def skip_flag_def skip_digits_def strchr_found_def intfmts_def
  peek_def Let_def isdigit_def uchar_def

text \<open>The integer conversions with and without a size, and one with width and precision.\<close>

lemma conv_ok_examples:
  "conv_ok ''d'' (VInt i)" "conv_ok ''x'' (VInt i)" "conv_ok ''lld'' (VLLong i)" "conv_ok ''lu'' (VLong i)"
  "conv_ok ''hhd'' (VInt i)" "conv_ok ''08.3f'' (VDouble d)"
  by (simp_all add: conv_ok_def scan_simps)

text \<open>C12. Formatting a command yields the protocol's encoding of exactly the arguments its format
  denotes: blanks of the format separate arguments, blanks inside an interpolated string do not,
  \<^verbatim>\<open>%b\<close> is binary safe, \<^verbatim>\<open>%%\<close> is a percent sign and \<^verbatim>\<open>printf\<close> conversions append their text; the
  computed length is the length of the buffer.\<close>

theorem redisFormatCommand_encodes:
  assumes "allocator_ok a" "\<forall>n. a n \<noteq> None" "2 \<le> length sb" "\<forall>n. mem n" "\<forall>p \<in> set ps. piece_ok p"
    "length (encode_command (split_args pf None ps)) < 2 ^ 31"
  shows "redisFormatCommand mem a sb pf True (concat (map piece_fmt ps)) (concat (map piece_args ps))
    = Returns (int (length (encode_command (split_args pf None ps)))) (encode_command (split_args pf None ps) @ [NUL])"
  unfolding redisFormatCommand_def by (rule format_pieces [OF assms])

definition nul_alloc :: allocator where
  "nul_alloc n = Some (replicate n NUL)"

lemma nul_alloc_ok [simp]: "allocator_ok nul_alloc" "\<forall>n. nul_alloc n \<noteq> None" "nul_alloc n \<noteq> None"
  by (auto simp: nul_alloc_def allocator_ok_def)

theorem redisFormatCommand_encodes_witness:
  "\<exists>n. redisFormatCommand (\<lambda>n. True) nul_alloc (replicate 1024 NUL) (\<lambda>f (v :: nat va_arg). ''7'') True
       ''SET %s k%d %b'' [VPtr ''a b'', VInt 7, VPtr [NUL], VSize 1]
     = Returns n (encode_command [''SET'', ''a b'', ''k7'', [NUL]] @ [NUL])"
proof -
  let ?ps = "[PLit (CHR ''S''), PLit (CHR ''E''), PLit (CHR ''T''), PBlank, PStr ''a b'', PBlank,
     PLit (CHR ''k''), PConv ''d'' (VInt 7), PBlank, PBin [NUL]] :: nat piece list"
  have args: "split_args (\<lambda>f (v :: nat va_arg). ''7'') None ?ps = [''SET'', ''a b'', ''k7'', [NUL]]"
    by (simp add: cstr_def)
  have len: "length (encode_command [''SET'', ''a b'', ''k7'', [NUL]]) < 2 ^ 31"
    by (simp add: encode_command_def bulk_def dec_of_nat.simps)
  have ok: "\<forall>p \<in> set ?ps. piece_ok p" by (simp add: conv_ok_examples)
  have "redisFormatCommand (\<lambda>n. True) nul_alloc (replicate 1024 NUL) (\<lambda>f (v :: nat va_arg). ''7'') True
       (concat (map piece_fmt ?ps)) (concat (map piece_args ?ps))
     = Returns (int (length (encode_command [''SET'', ''a b'', ''k7'', [NUL]])))
         (encode_command [''SET'', ''a b'', ''k7'', [NUL]] @ [NUL])"
    using redisFormatCommand_encodes [of nul_alloc "replicate 1024 NUL" "\<lambda>n. True" ?ps "\<lambda>f (v :: nat va_arg). ''7''"] ok len
    unfolding args by simp
  then show ?thesis by simp
qed

text \<open>Formatting from a vector yields the same encoding, of the strings up to their terminators
  when no lengths are given and of all their bytes when they are.\<close>

theorem redisFormatCommandArgv_encodes:
  assumes "\<forall>n. mem n" "length (encode_command (map cstr argv)) < 2 ^ 31" "length (encode_command argv) < 2 ^ 31"
  shows "redisFormatCommandArgv mem argv None
      = Returns (int (length (encode_command (map cstr argv)))) (encode_command (map cstr argv) @ [NUL])
    \<and> redisFormatCommandArgv mem argv (Some (map length argv))
      = Returns (int (length (encode_command argv))) (encode_command argv @ [NUL])"
  using format_argv_build [OF assms(2, 1)] format_argv_build [OF assms(3, 1)]
  by (simp add: redisFormatCommandArgv_def argv_bytes_cstr argv_bytes_lens)

theorem redisFormatCommandArgv_encodes_witness:
  "redisFormatCommandArgv (\<lambda>n. True) [''GET'', ''k'' @ [NUL] @ ''v''] None
     = Returns (int (length (encode_command [''GET'', ''k'']))) (encode_command [''GET'', ''k''] @ [NUL])"
proof -
  let ?argv = "[''GET'', ''k'' @ [NUL] @ ''v'']"
  have m: "map cstr ?argv = [''GET'', ''k'']" by (simp add: cstr_def)
  have len: "length (encode_command (map cstr ?argv)) < 2 ^ 31" "length (encode_command ?argv) < 2 ^ 31"
    unfolding m by (simp_all add: encode_command_def bulk_def dec_of_nat.simps)
  show ?thesis
    using redisFormatCommandArgv_encodes [OF _ len, of "\<lambda>n. True"] unfolding m by simp
qed

text \<open>A format that ends in a width, as \<^verbatim>\<open>%5\<close>, is taken for an integer conversion, because \<^verbatim>\<open>strchr\<close>
  finds the terminator in the set of conversion characters; the loop then steps over the
  terminator and reads beyond the format.\<close>

theorem redisvFormatCommand_open_width:
  assumes "\<forall>n. a n \<noteq> None" "ds \<noteq> []" "\<forall>d \<in> set ds. isdigit d" "length ds < 12"
  shows "redisvFormatCommand mem a sb pf True (CHR 0x25 # ds) (VInt i # ap) = Undefined"
proof -
  obtain e where e: "sdsempty a = Some e" using sdsempty_succeeds [OF assms(1)] by blast
  obtain x xs where ds: "ds = x # xs" using assms(2) by (cases ds) auto
  have x: "isdigit x" using assms(3) ds by simp
  then have ne: "x \<noteq> NUL" "x \<noteq> CHR ''s''" "x \<noteq> CHR ''b''" "x \<noteq> CHR 0x25" "x \<noteq> CHR ''#''"
    "x \<noteq> CHR ''-''" "x \<noteq> CHR '' ''" "x \<noteq> CHR ''+''" "x \<noteq> CHR ''.''"
    by (auto simp: isdigit_def uchar_def)
  have dw: "dropWhile isdigit ys = []" if "\<forall>d \<in> set ys. isdigit d" for ys using that by simp
  have flags: "skip_flag (CHR ''#'') ds = ds"
    using ne by (simp add: skip_flag_def ds peek_def)
  have nd: "ys = [] \<or> (isdigit (hd ys))" if "\<forall>d \<in> set ys. isdigit d" for ys using that by (cases ys) auto
  define ys where "ys = skip_flag (CHR ''0'') ds"
  have ys: "skip_flag (CHR ''0'') ds = ys" "\<forall>d \<in> set ys. isdigit d"
    using assms(3) by (auto simp: ys_def skip_flag_def dest: in_set_dropD split: if_splits)
  have keep: "skip_flag f ys = ys" if "f = CHR ''-'' \<or> f = CHR '' '' \<or> f = CHR ''+''" for f
    using nd [OF ys(2)] that by (cases ys) (auto simp: skip_flag_def peek_def isdigit_def uchar_def)
  have "skip_spec ds = []"
    using ys(2) by (simp add: skip_spec_def flags ys(1) keep skip_digits_def dw Let_def peek_def)
  then have scan: "scan_conv ds = Some (CInt, [])"
    by (simp add: scan_conv_def Let_def strchr_found_def peek_def)
  obtain s' where s': "sdscatvprintf a sb e (CHR 0x25 # ds) (pf (CHR 0x25 # ds) (VInt i)) = Some s'"
    using sdscatvprintf_succeeds [of a sb e] assms(1) by blast
  have "percent a sb pf e (CHR 0x25 # ds) (VInt i # ap) = None"
    using ne ds scan s' assms(4) by (simp add: percent_def percent_printf_def peek_def Let_def)
  then have loop: "fmt_loop mem a sb pf (CHR 0x25 # ds) (VInt i # ap)
      \<lparr>f_curarg = e, f_touched = False, f_argv = [], f_totlen = 0\<rparr> = None"
    using ne ds by (subst fmt_loop.simps) (simp add: peek_def)
  have "NUL \<notin> set (CHR 0x25 # ds)" using assms(3) digit_not_special by auto
  then have "cstr (CHR 0x25 # ds) = CHR 0x25 # ds" by (rule cstr_id)
  then show ?thesis using e loop by (simp add: redisvFormatCommand_def)
qed

theorem redisvFormatCommand_open_width_witness:
  "redisvFormatCommand (\<lambda>n. True) nul_alloc [] (\<lambda>f (v :: nat va_arg). '' 7'') True [CHR 0x25, CHR ''5''] [VInt 7] = Undefined"
  using redisvFormatCommand_open_width [of nul_alloc "''5''" "\<lambda>n. True" "[]" "\<lambda>f (v :: nat va_arg). '' 7''" 7 "[]"]
  by (simp add: isdigit_def uchar_def)

end
