(* ===== verification/RespSession.thy ===== *)
theory RespSession
  imports RespStream RespFormat
begin

text \<open>
  A client of the protocol reader: it feeds the pieces it receives and takes the replies out
  after each of them. The replies, the status and the store do not depend on how the bytes are cut
  into pieces.
\<close>

section \<open>The buffer does not grow by reading\<close>

lemma finish_item_len: "finish_item q created = Some (st, s) \<Longrightarrow> rd_len s = rd_len q"
  by (auto simp: finish_item_def Let_def same_buffer_def dest!: moveToNextTask_same_buffer)

lemma readLine_len: "readLine r = Some (p, k, r') \<Longrightarrow> rd_len r' = rd_len r"
  by (auto simp: readLine_def Let_def split: option.splits)

lemma moveToNextTask_len: "moveToNextTask q = Some s \<Longrightarrow> rd_len s = rd_len q"
  by (auto simp: same_buffer_def dest!: moveToNextTask_same_buffer)

lemma process_typed_len:
  assumes "process_typed oom r = Some (st, s)" "rd_err s = 0" "rd_err r = 0"
  shows "rd_len s = rd_len r"
proof (cases "st = REDIS_OK")
  case False
  then show ?thesis using process_typed_error [OF assms(1)] assms(2) by auto
next
  case True
  have L: "rd_len s = rd_len r" if "processLineItem oom r = Some (st, s)"
    using that True unfolding processLineItem_def Let_def
    by (auto dest!: finish_item_len readLine_len simp: status_codes split: if_split_asm option.split_asm prod.split_asm)
  have B: "rd_len s = rd_len r" if "processBulkItem oom r = Some (st, s)"
    using that True unfolding processBulkItem_def Let_def
    by (auto dest!: finish_item_len simp: status_codes split: if_split_asm option.split_asm)
  have M: "rd_len s = rd_len r" if "processMultiBulkItem oom r = Some (st, s)"
    using that True unfolding processMultiBulkItem_def Let_def
    by (auto dest!: moveToNextTask_len readLine_len simp: status_codes push_task_def
        split: if_split_asm option.split_asm prod.split_asm)
  show ?thesis
    using assms(1) L B M unfolding process_typed_def Let_def by (auto split: if_split_asm)
qed

lemma processItem_len:
  assumes "processItem oom r = Some (st, s)" "rd_err s = 0" "rd_err r = 0"
  shows "rd_len s = rd_len r"
proof (cases "t_type (cur_task r) < 0")
  case False
  then show ?thesis using process_typed_len [OF _ assms(2,3)] assms(1) by (simp add: processItem_def)
next
  case True
  show ?thesis
  proof (cases "readBytes r 1")
    case None
    then show ?thesis using True assms(1) by (simp add: processItem_def)
  next
    case (Some x)
    then obtain p r' where x: "readBytes r 1 = Some (p, r')" by (cases x) auto
    have r': "rd_len r' = rd_len r" "rd_err r' = 0"
      using x assms(3) by (auto simp: readBytes_def split: if_splits)
    show ?thesis
    proof (cases "reply_type_of (peek p 0)")
      case None
      then show ?thesis
        using True x assms(1,2)
        by (auto simp: processItem_def redisReaderSetErrorProtocolByte_def REDIS_ERR_PROTOCOL_def)
    next
      case (Some t)
      then have "process_typed oom (upd_task r' (nat (rd_ridx r)) (\<lambda>u. u\<lparr>t_type := t\<rparr>)) = Some (st, s)"
        using True x assms(1) by (simp add: processItem_def)
      from process_typed_len [OF this assms(2)] show ?thesis using r' by (simp add: upd_task_def)
    qed
  qed
qed

lemma process_items_len:
  assumes "reader_wf r" "process_items oom r = Some s" "rd_err s = 0"
  shows "rd_len s = rd_len r"
  using assms
proof (induction "length (window r)" arbitrary: r rule: less_induct)
  case less
  have err: "rd_err r = 0" using less.prems(1) by (simp add: reader_wf_def)
  show ?case
  proof (cases "rd_ridx r < 0")
    case True
    then show ?thesis using less.prems(2) by (subst (asm) process_items.simps) simp
  next
    case False
    then have ridx: "0 \<le> rd_ridx r" by simp
    note unf = process_items_unfold [OF less.prems(1) ridx, of oom]
    obtain st q where q: "processItem oom r = Some (st, q)" using less.prems(2) unf by (auto split: option.splits)
    show ?thesis
    proof (cases "st = REDIS_OK")
      case True
      note pr = processItem_progress [OF less.prems(1) ridx q [unfolded True]]
      have "process_items oom q = Some s" using less.prems(2) unf q True by simp
      moreover have "rd_len q = rd_len r" using processItem_len [OF q _ err] pr by (simp add: reader_wf_def)
      ultimately show ?thesis using less.hyps [of q] pr less.prems(3) by simp
    next
      case False
      then have "s = q" using less.prems(2) unf q by simp
      then show ?thesis using processItem_len [OF q _ err] less.prems(3) by simp
    qed
  qed
qed

lemma compact_len:
  assumes "buf_wf r" "compact_buffer r = Some s" shows "rd_len s \<le> rd_len r"
proof (cases "1024 \<le> rd_pos r")
  case False
  then show ?thesis using assms(2) by (simp add: compact_buffer_def)
next
  case True
  have s: "buf_wf s" "window s = window r" using compact_buffer_keeps [OF assms(1)] assms(2) by auto
  have "rd_pos s = 0"
    using True assms(2) unfolding compact_buffer_def by (auto simp: Let_def split: option.splits)
  then have "rd_len s = length (window s)" using window_length [OF s(1)] by simp
  then show ?thesis using s(2) window_length [OF assms(1)] by simp
qed

lemma GetReply_len:
  assumes "reader_wf r" "redisReaderGetReply oom r = Some (st, a, t)" "rd_err t = 0"
  shows "rd_len t \<le> rd_len r"
proof (cases "rd_len r = 0")
  case True
  then show ?thesis using assms by (simp add: redisReaderGetReply_def reader_wf_def)
next
  case False
  let ?q = "start_stack r"
  have q: "reader_wf ?q" "rd_len ?q = rd_len r"
    using start_wf [OF assms(1)] start_same_buffer [of r] by (auto simp: same_buffer_def)
  obtain s where s: "process_items oom ?q = Some s" "emit s = Some (st, a, t)"
    using assms False by (auto simp: GetReply_emit reader_wf_def split: option.splits)
  show ?thesis
  proof (cases "rd_err s = 0")
    case False
    then show ?thesis using s(2) assms(3) by (simp add: emit_def)
  next
    case True
    obtain u where u: "compact_buffer s = Some u" "rd_len t = rd_len u"
      using s(2) True by (auto simp: emit_def split: if_splits option.splits)
    have "reader_wf s"
      using ext_process_items [OF ext_refl [OF q(1)], of oom] s(1) True
      by (auto simp: loop_stuck_def loop_rel_def ext_def)
    then have "rd_len u \<le> rd_len s" using compact_len [OF _ u(1)] by (simp add: reader_wf_def)
    then show ?thesis using process_items_len [OF q(1) s(1) True] q(2) u(2) by simp
  qed
qed

lemma GetReply_wf:
  assumes "reader_wf r" "reply_wf r" "redisReaderGetReply oom r = Some (st, a, t)"
  shows "st = REDIS_OK \<and> reader_wf t \<and> reply_wf t \<or> st = REDIS_ERR \<and> a = None \<and> rd_err t \<noteq> 0"
proof -
  have "ext [] (start_stack r) (start_stack r)" using start_wf [OF assms(1)] by (intro ext_refl) auto
  then have "sim_wf [] r r" using assms(1,2) by (simp add: sim_wf_def sim_def)
  from GetReply_same [OF this, of oom] show ?thesis using assms(3) by (auto simp: res_rel_def sim_wf_def)
qed

lemma drain_wf:
  assumes "reader_wf r" "reply_wf r" "drain oom r = Some (st, as, t)" "st = REDIS_OK"
  shows "reader_wf t \<and> reply_wf t \<and> rd_len t \<le> rd_len r"
  using assms
proof (induction "length (window r)" arbitrary: r as rule: less_induct)
  case less
  obtain st1 y s where x: "redisReaderGetReply oom r = Some (st1, y, s)"
    using less.prems(3) by (subst (asm) drain.simps) (auto split: option.splits)
  note wf = GetReply_wf [OF less.prems(1,2) x]
  show ?case
  proof (cases y)
    case None
    then have "st1 = st" "t = s" using less.prems(3) x by (simp_all add: drain.simps)
    then show ?thesis
      using wf less.prems(4) GetReply_len [OF less.prems(1) x] by (auto simp: status_codes reader_wf_def)
  next
    case (Some a)
    then have ok: "reader_wf s" "reply_wf s" "rd_len s \<le> rd_len r"
      using wf GetReply_len [OF less.prems(1) x] by (auto simp: reader_wf_def)
    obtain bs where "drain oom s = Some (st, bs, t)" "length (window s) < length (window r)"
      using less.prems(3) x Some by (subst (asm) drain.simps) (auto split: if_splits)
    then show ?thesis using less.hyps [OF _ ok(1,2)] less.prems(4) ok(3) by fastforce
  qed
qed
section \<open>Feeding\<close>

lemma sdsMakeRoomFor_total:
  assumes "sdsMakeRoomFor a s n = Some s'" "sh_len s + sh_free s < 2 ^ 32" "sds_fits s n"
  shows "sh_len s' + sh_free s' < 2 ^ 32"
  using assms
  by (auto simp: sdsMakeRoomFor_def sdsavail_def sdslen_def Let_def sds_fits_def SDS_MAX_PREALLOC_def
      split: option.splits if_splits)

lemma sdscatlen_total:
  assumes a: "allocator_ok a" and ok: "sds_ok s" and fits: "sds_fits s n" and n: "n \<le> length t"
    and s: "sdscatlen a s t n = Some s'" and tot: "sh_len s + sh_free s < 2 ^ 32"
  shows "sh_len s' + sh_free s' < 2 ^ 32"
proof -
  obtain r where r: "sdsMakeRoomFor a s n = Some r"
    and s': "s' = r\<lparr>sh_buf := (blit (sh_buf r) (sh_len s) (take n t))[sh_len s + n := NUL],
        sh_len := u32 (sh_len s + n), sh_free := u32 (sh_free r - n)\<rparr>"
    using s by (auto simp: sdscatlen_def sdslen_def Let_def split: option.splits)
  have room: "sh_len r = sh_len s" "n \<le> sh_free r" using sdsMakeRoomFor_Some [OF a ok fits r] by auto
  have tr: "sh_len r + sh_free r < 2 ^ 32" by (rule sdsMakeRoomFor_total [OF r tot fits])
  then have "u32 (sh_len s + n) = sh_len s + n" "u32 (sh_free r - n) = sh_free r - n"
    using room by (auto intro!: u32_id)
  then show ?thesis using s' room tr by simp
qed

lemma sdsempty_free: "allocator_ok a \<Longrightarrow> sdsempty a = Some s \<Longrightarrow> sds_ok s \<and> sh_len s = 0 \<and> sh_free s = 0"
  using sdsempty_Some [of a s] by (auto simp: sdsempty_def sdsnewlen_def split: option.splits)

lemma feed_spec:
  assumes a: "allocator_ok a" "\<forall>n. a n \<noteq> None" and wf: "reader_wf r" and c: "c \<noteq> []"
    and small: "rd_len r + length c < 2 ^ 31"
  shows "\<exists>r'. redisReaderFeed a r c = Some (REDIS_OK, r') \<and> ext c r r' \<and> rd_len r' \<le> rd_len r + length c"
proof -
  have err: "rd_err r = 0" and bw: "buf_wf r" and sw: "stack_wf r" using wf by (simp_all add: reader_wf_def)
  obtain b where b: "rd_buf r = Some b" "sds_ok b" "sh_len b = rd_len r" "sh_len b + sh_free b < 2 ^ 32"
    "rd_pos r \<le> rd_len r" using bw by (auto simp: buf_wf_def)
  define fresh where "fresh \<longleftrightarrow> rd_len r = 0 \<and> rd_maxbuf r \<noteq> 0 \<and> sdsavail b > rd_maxbuf r"
  obtain e where e: "sdsempty a = Some e" using sdsempty_succeeds [OF a(2)] by blast
  define r1 where "r1 = (if fresh then r\<lparr>rd_buf := Some e, rd_pos := 0\<rparr> else r)"
  define b1 where "b1 = (if fresh then e else b)"
  have b1: "rd_buf r1 = Some b1" "sds_ok b1" "sh_len b1 = rd_len r" "sh_len b1 + sh_free b1 < 2 ^ 32"
    using b sdsempty_free [OF a(1) e] by (auto simp: r1_def b1_def fresh_def)
  have r1: "rd_len r1 = rd_len r" "rd_pos r1 \<le> rd_len r" "same_control r r1"
    using b(5) by (auto simp: r1_def same_control_def)
  have w1: "window r1 = window r"
  proof (cases fresh)
    case True
    then have "rd_len r = 0" by (simp add: fresh_def)
    then show ?thesis by (simp add: window_def r1_def split: option.split)
  qed (simp add: r1_def)
  have fits: "sds_fits b1 (length c)" using small b1(3) by (simp add: sds_fits_def SDS_MAX_PREALLOC_def)
  obtain s where s: "sdscatlen a b1 c (length c) = Some s"
    using sdscatlen_succeeds [of a b1 c "length c"] a(2) by auto
  have s': "sds_ok s" "sds_str s = sds_str b1 @ c" "sh_len s = rd_len r + length c" "sh_len s + sh_free s < 2 ^ 32"
    using sdscatlen_Some [OF a(1) b1(2) fits le_refl s] sdscatlen_total [OF a(1) b1(2) fits le_refl s b1(4)] b1(3)
    by auto
  define r2 where "r2 = r1\<lparr>rd_buf := Some s, rd_len := sdslen s\<rparr>"
  have feed: "redisReaderFeed a r c = Some (REDIS_OK, r2)"
  proof (cases fresh)
    case True
    then have "rd_len r = 0 \<and> rd_maxbuf r \<noteq> 0 \<and> sdsavail b > rd_maxbuf r" by (simp add: fresh_def)
    moreover have "sdscatlen a e c (length c) = Some s" using s True by (simp add: b1_def)
    ultimately show ?thesis
      using err c b(1) e True by (simp add: redisReaderFeed_def r2_def r1_def)
  next
    case False
    then have keep: "\<not> (rd_len r = 0 \<and> rd_maxbuf r \<noteq> 0 \<and> sdsavail b > rd_maxbuf r)" by (simp add: fresh_def)
    have "sdscatlen a b c (length c) = Some s" using s False by (simp add: b1_def)
    then show ?thesis
      using err c False unfolding redisReaderFeed_def b(1) option.case if_not_P [OF keep]
      by (simp add: b(1) r2_def r1_def)
  qed
  have w2: "window r2 = window r @ c"
  proof -
    have f: "rd_buf r2 = Some s" "sh_len s = rd_len r2" "rd_pos r2 = rd_pos r1" "sh_len b1 = rd_len r1"
      using b1(3) r1(1) by (simp_all add: r2_def sdslen_def)
    have "window r2 = drop (rd_pos r1) (sds_str s)" using window_sds [OF f(1,2)] f(3) by simp
    moreover have "window r1 = drop (rd_pos r1) (sds_str b1)" by (rule window_sds [OF b1(1) f(4)])
    moreover have "rd_pos r1 \<le> length (sds_str b1)" using sds_str_length [OF b1(2)] b1(3) r1(2) by (simp add: sdslen_def)
    ultimately show ?thesis using s'(2) w1 by simp
  qed
  have ctl: "same_control r r2" using r1(3) by (simp add: r2_def same_control_def)
  have "buf_wf r2" using s' small r1(2) by (simp add: buf_wf_def r2_def sdslen_def)
  moreover have "stack_wf r2" using stack_wf_control [OF ctl] sw by simp
  moreover have "rd_err r2 = 0" using ctl err by (simp add: same_control_def)
  ultimately have "ext c r r2" using wf ctl w2 by (simp add: ext_def reader_wf_def)
  then show ?thesis using feed s'(3) by (simp add: r2_def sdslen_def)
qed

section \<open>Sessions\<close>

text \<open>Feeding the pieces one after the other, taking the replies out after each of them.\<close>

fun session ::
  "(nat \<Rightarrow> bool) \<Rightarrow> allocator \<Rightarrow> reader \<Rightarrow> byte list list \<Rightarrow> (int \<times> nat list \<times> reader) option" where
  "session oom a r [] = Some (REDIS_OK, [], r)"
| "session oom a r (c # cs) =
     (case redisReaderFeed a r c of
        None \<Rightarrow> None
      | Some (st, r1) \<Rightarrow>
          (if st \<noteq> REDIS_OK then Some (st, [], r1)
           else case drain oom r1 of
             None \<Rightarrow> None
           | Some (st, as, r2) \<Rightarrow>
               (if st \<noteq> REDIS_OK then Some (st, as, r2)
                else map_option (\<lambda>(st, bs, r3). (st, as @ bs, r3)) (session oom a r2 cs))))"

text \<open>What a client sees: the status, the replies it was given and the store they live in.\<close>

definition observe :: "(int \<times> nat list \<times> reader) option \<Rightarrow> (int \<times> nat list \<times> reply_store \<times> int \<times> byte list) option" where
  "observe = map_option (\<lambda>(st, as, r). (st, as, rd_store r, rd_err r, rd_errstr r))"

lemma sim_wf_fields: "sim_wf c r r' \<Longrightarrow> rd_store r' = rd_store r \<and> rd_err r' = rd_err r \<and> rd_errstr r' = rd_errstr r"
  by (auto simp: sim_wf_def sim_def ext_def same_control_def start_stack_def split: if_splits)

lemma drain_alike_observe: "drain_alike x y \<Longrightarrow> observe x = observe y"
  unfolding drain_alike_def observe_def
  by (cases x; cases y) (auto dest: sim_wf_fields)

lemma ext_sim_right:
  assumes "ext c r r1" "sim_wf (c @ d) r r'"
  shows "sim_wf d r1 r'"
proof -
  have s: "ext c (start_stack r) (start_stack r1)" using ext_sim [OF assms(1)] by (simp add: sim_def)
  have e: "ext (c @ d) (start_stack r) (start_stack r')" using assms(2) by (simp add: sim_wf_def sim_def)
  have "ext d (start_stack r1) (start_stack r')" using s e by (simp add: ext_def same_control_def)
  moreover have "reply_wf r1" using reply_wf_control [of r r1] assms by (simp add: ext_def sim_wf_def)
  moreover have "reader_wf r1" using assms(1) by (simp add: ext_def)
  ultimately show ?thesis using assms(2) by (simp add: sim_wf_def sim_def)
qed

lemma observe_prepend:
  "observe x = observe y \<Longrightarrow>
    observe (map_option (\<lambda>(st, bs, t). (st, as @ bs, t)) x) = observe (map_option (\<lambda>(st, bs, t). (st, as @ bs, t)) y)"
  unfolding observe_def by (cases x; cases y) auto

lemma session_drain:
  assumes a: "allocator_ok a" "\<forall>n. a n \<noteq> None"
  shows "cs \<noteq> [] \<Longrightarrow> \<forall>c \<in> set cs. c \<noteq> [] \<Longrightarrow> sim_wf (concat cs) r r' \<Longrightarrow> rd_len r + length (concat cs) < 2 ^ 31
    \<Longrightarrow> observe (session oom a r cs) = observe (drain oom r')"
proof (induction cs arbitrary: r r')
  case Nil
  then show ?case by simp
next
  case (Cons c cs)
  have wf: "reader_wf r" "reply_wf r" using Cons.prems(3) by (auto simp: sim_wf_def)
  have c: "c \<noteq> []" "rd_len r + length c < 2 ^ 31" using Cons.prems(2,4) by auto
  obtain r1 where r1: "redisReaderFeed a r c = Some (REDIS_OK, r1)" "ext c r r1" "rd_len r1 \<le> rd_len r + length c"
    using feed_spec [OF a wf(1) c] by blast
  have sim1: "sim_wf (concat cs) r1 r'" using ext_sim_right [OF r1(2)] Cons.prems(3) by simp
  have wf1: "reader_wf r1" "reply_wf r1" using sim1 by (auto simp: sim_wf_def)
  show ?case
  proof (cases "cs = []")
    case True
    have "observe (session oom a r (c # cs)) = observe (drain oom r1)"
      using r1(1) True by (auto simp: observe_def split: option.splits)
    then show ?thesis using drain_alike_observe [OF drain_same [of r1 r' oom]] sim1 True by simp
  next
    case False
    then have ne: "concat cs \<noteq> []" using Cons.prems(2) by (cases cs) auto
    from drain_sim [OF sim1 ne, of oom] show ?thesis
    proof (elim disjE exE conjE)
      fix as s s'
      assume more: "drain oom r1 = Some (REDIS_OK, as, s)" "sim_wf (concat cs) s s'"
        "drain oom r' = map_option (\<lambda>(st, bs, t). (st, as @ bs, t)) (drain oom s')"
      have "rd_len s \<le> rd_len r1" using drain_wf [OF wf1 more(1)] by simp
      then have "rd_len s + length (concat cs) < 2 ^ 31" using r1(3) Cons.prems(4) by simp
      then have "observe (session oom a s cs) = observe (drain oom s')"
        using Cons.IH [OF False _ more(2)] Cons.prems(2) by simp
      note prepend = observe_prepend [OF this, of as]
      have "session oom a r (c # cs) = map_option (\<lambda>(st, bs, t). (st, as @ bs, t)) (session oom a s cs)"
        using r1(1) more(1) by simp
      then show ?thesis using prepend unfolding more(3) by simp
    next
      assume "drain oom r1 = None" "drain oom r' = None"
      then show ?thesis using r1(1) by simp
    next
      fix as s assume "drain oom r1 = Some (REDIS_ERR, as, s)" "drain oom r' = Some (REDIS_ERR, as, s)"
      then show ?thesis using r1(1) by (simp add: status_codes)
    qed
  qed
qed

lemma session_chunks:
  assumes "allocator_ok a" "\<forall>n. a n \<noteq> None" "reader_wf r" "reply_wf r" "rd_len r + length (concat cs) < 2 ^ 31"
    "\<forall>c \<in> set cs. c \<noteq> []" "cs \<noteq> []"
  shows "observe (session oom a r cs) = observe (session oom a r [concat cs])"
proof -
  have ne: "concat cs \<noteq> []" using assms(6,7) by (cases cs) auto
  obtain r' where r': "redisReaderFeed a r (concat cs) = Some (REDIS_OK, r')" "ext (concat cs) r r'"
    using feed_spec [OF assms(1-3) ne assms(5)] by blast
  have "sim_wf (concat cs) r r'" using ext_sim [OF r'(2)] assms(3,4) r'(2) by (simp add: sim_wf_def ext_def)
  then have "observe (session oom a r cs) = observe (drain oom r')"
    using session_drain [OF assms(1,2,7,6)] assms(5) by blast
  moreover have "observe (session oom a r [concat cs]) = observe (drain oom r')"
    using r'(1) by (auto simp: observe_def split: option.splits)
  ultimately show ?thesis by simp
qed

lemma created_wf:
  assumes "allocator_ok a" "redisReaderCreate a = Some r"
  shows "reader_wf r \<and> reply_wf r \<and> rd_len r = 0"
proof -
  obtain b where b: "sdsempty a = Some b" "r = \<lparr>rd_err = 0, rd_errstr = '''', rd_buf = Some b, rd_pos = 0, rd_len = 0,
      rd_maxbuf = REDIS_READER_MAX_BUF, rd_stack = replicate 9 empty_task, rd_ridx = - 1, rd_reply = None, rd_store = []\<rparr>"
    using assms(2) by (auto simp: redisReaderCreate_def split: option.splits)
  have "sds_ok b \<and> sh_len b = 0 \<and> sh_free b = 0" by (rule sdsempty_free [OF assms(1) b(1)])
  then show ?thesis by (simp add: b(2) reader_wf_def buf_wf_def stack_wf_def reply_wf_def)
qed

text \<open>C2. The replies a client takes out of a reader do not depend on how the stream is cut into
  pieces: feeding any non-empty pieces and taking out all replies after each of them yields the
  same status, the same replies in the same order, the same reply objects and the same error as
  feeding the whole stream at once, also when the stream violates the protocol.\<close>

theorem reader_chunk_independent:
  assumes "allocator_ok a" "\<forall>n. a n \<noteq> None" "redisReaderCreate a = Some r"
    "length (concat cs) < 2 ^ 31" "\<forall>c \<in> set cs. c \<noteq> []" "cs \<noteq> []"
  shows "observe (session oom a r cs) = observe (session oom a r [concat cs])"
proof -
  have r: "reader_wf r" "reply_wf r" "rd_len r = 0" using created_wf [OF assms(1,3)] by auto
  have "rd_len r + length (concat cs) < 2 ^ 31" using r(3) assms(4) by simp
  then show ?thesis by (intro session_chunks assms r)
qed

theorem reader_chunk_independent_witness:
  "\<exists>r. redisReaderCreate nul_alloc = Some r \<and>
     observe (session (\<lambda>n. False) nul_alloc r [''*2'', [CR], [LF] @ ''$1'' @ crlf @ ''a'', crlf @ '':7'' @ crlf])
     = observe (session (\<lambda>n. False) nul_alloc r [''*2'' @ crlf @ ''$1'' @ crlf @ ''a'' @ crlf @ '':7'' @ crlf])"
proof -
  obtain b where b: "sdsempty nul_alloc = Some b"
    using sdsempty_succeeds [of nul_alloc] by auto
  then obtain r where r: "redisReaderCreate nul_alloc = Some r" by (simp add: redisReaderCreate_def)
  show ?thesis
    using reader_chunk_independent [OF nul_alloc_ok(1,2) r, of "[''*2'', [CR], [LF] @ ''$1'' @ crlf @ ''a'', crlf @ '':7'' @ crlf]" "\<lambda>n. False"] r
    by (simp del: session.simps)
qed

text \<open>How draining ends: waiting with a reader in good order, or dead with the error set.\<close>

lemma drain_total_or_undefined:
  assumes "reader_wf r" "reply_wf r" "drain oom r = Some (st, as, t)"
  shows "st = REDIS_OK \<and> reader_wf t \<or> st = REDIS_ERR \<and> rd_err t \<noteq> 0"
proof -
  have "ext [] (start_stack r) (start_stack r)" using start_wf [OF assms(1)] by (intro ext_refl) auto
  then have "sim_wf [] r r" using assms(1,2) by (simp add: sim_wf_def sim_def)
  from drain_same [OF this, of oom] show ?thesis using assms(3) by (auto simp: drain_alike_def sim_wf_def)
qed

end
