(* ===== verification/RespDecode.thy ===== *)
theory RespDecode
  imports RespSession
begin

text \<open>
  What the reader of \<^verbatim>\<open>hiredis.c\<close> decodes. Replies are described as trees with their encoding in the
  redis protocol; the reply objects of an encoded tree are laid out in the order the reader creates
  them. The main lemma follows the task stack through a tree of any shape within the nesting limit;
  the property says that the replies taken out of a stream are the trees that were encoded.
\<close>

section \<open>Replies and their encoding\<close>

datatype resp =
  RStatus "byte list"
| RError "byte list"
| RInteger int
| RBulk "byte list"
| RNil
| RArray "resp list"

fun encode :: "resp \<Rightarrow> byte list" where
  "encode (RStatus s) = CHR ''+'' # s @ crlf"
| "encode (RError s) = CHR ''-'' # s @ crlf"
| "encode (RInteger i) = CHR '':'' # dec_of_int i @ crlf"
| "encode (RBulk s) = bulk s"
| "encode RNil = ''$-1'' @ crlf"
| "encode (RArray ts) = CHR ''*'' # dec_of_nat (length ts) @ crlf @ concat (map encode ts)"

text \<open>A command is the array of its arguments.\<close>

lemma encode_command_array: "encode_command args = encode (RArray (map RBulk args))"
  by (simp add: encode_command_def comp_def)

text \<open>The arrays inside one another, and what fits the fields of a reply.\<close>

fun nest :: "resp \<Rightarrow> nat" where
  "nest (RArray ts) = Suc (foldr max (map nest ts) 0)"
| "nest _ = 0"

fun fits :: "resp \<Rightarrow> bool" where
  "fits (RStatus s) = (CR \<notin> set s)"
| "fits (RError s) = (CR \<notin> set s)"
| "fits (RInteger i) = (- (2 ^ 63) \<le> i \<and> i < 2 ^ 63)"
| "fits (RBulk s) = True"
| "fits RNil = True"
| "fits (RArray ts) = list_all fits ts"

text \<open>The object at an address of the store stands for the reply.\<close>

fun represents :: "reply_store \<Rightarrow> nat \<Rightarrow> resp \<Rightarrow> bool" where
  "represents h a (RStatus s) = (a < length h \<and> h ! a = (createReplyObject REDIS_REPLY_STATUS)
     \<lparr>r_str := Some (s @ [NUL]), r_len := int (length s)\<rparr>)"
| "represents h a (RError s) = (a < length h \<and> h ! a = (createReplyObject REDIS_REPLY_ERROR)
     \<lparr>r_str := Some (s @ [NUL]), r_len := int (length s)\<rparr>)"
| "represents h a (RInteger i) = (a < length h \<and> h ! a = (createReplyObject REDIS_REPLY_INTEGER)\<lparr>r_integer := i\<rparr>)"
| "represents h a (RBulk s) = (a < length h \<and> h ! a = (createReplyObject REDIS_REPLY_STRING)
     \<lparr>r_str := Some (s @ [NUL]), r_len := int (length s)\<rparr>)"
| "represents h a RNil = (a < length h \<and> h ! a = createReplyObject REDIS_REPLY_NIL)"
| "represents h a (RArray ts) = (a < length h \<and> r_type (h ! a) = REDIS_REPLY_ARRAY \<and> r_elements (h ! a) = length ts
     \<and> (case r_element (h ! a) of
          None \<Rightarrow> ts = []
        | Some es \<Rightarrow> list_all2 (\<lambda>e t. case e of None \<Rightarrow> False | Some b \<Rightarrow> represents h b t) es ts))"

section \<open>Numbers\<close>

lemma digit_char_code [simp]: "d < 10 \<Longrightarrow> schar (digit_char d) = 48 + int d"
  by (simp add: schar_def)

lemma digit_char_not_cr [simp]: "d < 10 \<Longrightarrow> digit_char d \<noteq> CR"
proof
  assume d: "d < 10" "digit_char d = CR"
  then have "48 + d = uchar CR" by (metis uchar_digit_char)
  then show False by (simp add: uchar_def)
qed

lemma digits_no_cr: "CR \<notin> set (dec_of_nat n)"
  using dec_of_nat_digits [of CR n] by (auto simp: isdigit_def uchar_def)

lemma c_llong_shift: "\<exists>k. c_llong x = x + k * 2 ^ 64"
proof -
  have "c_llong x = x - (x + 2 ^ 63) div 2 ^ 64 * 2 ^ 64" by (simp add: c_llong_def flip: minus_div_mult_eq_mod)
  then show ?thesis by (intro exI [of _ "- ((x + 2 ^ 63) div 2 ^ 64)"]) simp
qed

lemma c_llong_add: "c_llong (x + k * 2 ^ 64) = c_llong x"
proof -
  have "x + k * 2 ^ 64 + 2 ^ 63 = x + 2 ^ 63 + k * 2 ^ 64" by simp
  then show ?thesis unfolding c_llong_def by (metis mod_mult_self1)
qed

lemma c_llong_accumulate: "c_llong (c_llong (c_llong v * 10) + d) = c_llong (v * 10 + d)"
proof -
  obtain k where "c_llong v = v + k * 2 ^ 64" using c_llong_shift by blast
  moreover obtain l where "c_llong (c_llong v * 10) = c_llong v * 10 + l * 2 ^ 64" using c_llong_shift by blast
  ultimately have "c_llong (c_llong v * 10) + d = v * 10 + d + (k * 10 + l) * 2 ^ 64" by (simp add: algebra_simps)
  then show ?thesis using c_llong_add by metis
qed

lemma read_digits_step:
  "d < 10 \<Longrightarrow> read_digits (c_llong v) (digit_char d # s) = read_digits (c_llong (v * 10 + int d)) s"
  using c_llong_accumulate [of v "int d"] by (simp add: Let_def)

lemma read_digits_dec:
  "\<exists>k. read_digits (c_llong v) (dec_of_nat n @ s) = read_digits (c_llong (v * 10 ^ k + int n)) s"
proof (induction n arbitrary: s rule: dec_of_nat.induct)
  case (1 n)
  show ?case
  proof (cases "n < 10")
    case True
    then have "dec_of_nat n = [digit_char n]" by (simp add: dec_of_nat.simps)
    then show ?thesis using read_digits_step [OF True, of v s] by (intro exI [of _ 1]) simp
  next
    case False
    then have d: "dec_of_nat n = dec_of_nat (n div 10) @ [digit_char (n mod 10)]" by (subst dec_of_nat.simps) simp
    obtain k where "read_digits (c_llong v) (dec_of_nat (n div 10) @ digit_char (n mod 10) # s)
        = read_digits (c_llong (v * 10 ^ k + int (n div 10))) (digit_char (n mod 10) # s)"
      using 1 [OF False] by blast
    also have "\<dots> = read_digits (c_llong ((v * 10 ^ k + int (n div 10)) * 10 + int (n mod 10))) s"
      by (rule read_digits_step) simp
    also have "(v * 10 ^ k + int (n div 10)) * 10 + int (n mod 10) = v * 10 ^ Suc k + int (n div 10 * 10 + n mod 10)"
      by (simp only: of_nat_add of_nat_mult power_Suc) (simp add: algebra_simps)
    finally show ?thesis unfolding d by (intro exI [of _ "Suc k"]) simp
  qed
qed

lemma read_digits_number: "read_digits 0 (dec_of_nat n @ CR # s) = Some (c_llong (int n))"
  using read_digits_dec [of 0 n "CR # s"] by auto

lemma dec_head: "\<exists>c w. dec_of_nat n = c # w \<and> c \<noteq> CHR ''-'' \<and> c \<noteq> CHR ''+''"
proof -
  obtain c w where c: "dec_of_nat n = c # w" by (cases "dec_of_nat n") auto
  then have "isdigit c" using dec_of_nat_digits [of c n] by simp
  then show ?thesis using c by (auto simp: isdigit_def uchar_def)
qed

lemma readLongLong_nat: "int n < 2 ^ 63 \<Longrightarrow> readLongLong (dec_of_nat n @ CR # s) = int n"
proof -
  assume n: "int n < 2 ^ 63"
  obtain c w where c: "dec_of_nat n = c # w" "c \<noteq> CHR ''-''" "c \<noteq> CHR ''+''" using dec_head by blast
  then have "peek (dec_of_nat n @ CR # s) 0 = c" by (simp add: peek_def)
  then show ?thesis using n c(2,3) by (simp add: readLongLong_def read_digits_number)
qed

lemma readLongLong_int: "- (2 ^ 63) \<le> i \<Longrightarrow> i < 2 ^ 63 \<Longrightarrow> readLongLong (dec_of_int i @ CR # s) = i"
proof (cases "i < 0")
  case True
  assume "- (2 ^ 63) \<le> i" "i < 2 ^ 63"
  moreover obtain k where k: "c_llong (- i) = - i + k * 2 ^ 64" using c_llong_shift by blast
  have "c_llong (- c_llong (- i)) = c_llong (i + (- k) * 2 ^ 64)" unfolding k by (simp add: algebra_simps)
  then have "c_llong (- c_llong (- i)) = c_llong i" by (simp only: c_llong_add)
  ultimately show ?thesis using True
    by (simp add: dec_of_int_def readLongLong_def peek_def read_digits_number)
qed (simp add: dec_of_int_def readLongLong_nat)

section \<open>Lines\<close>

lemma window_bound: "reader_wf r \<Longrightarrow> length (window r) = rd_len r - rd_pos r \<and> length (window r) < 2 ^ 31"
  using window_length [of r] by (auto simp: reader_wf_def buf_wf_def)

lemma seek_line:
  assumes "CR \<notin> set s" "length (s @ crlf @ rest) < 2 ^ 31"
  shows "seekNewline (s @ crlf @ rest) (length (s @ crlf @ rest)) = Some (length s)"
  unfolding seekNewline_Some [OF assms(2)]
proof (intro conjI allI impI)
  show "nl_at (s @ crlf @ rest) (length s)" by (simp add: nl_at_def nth_append)
  fix j assume "j < length s"
  then have "(s @ crlf @ rest) ! j = s ! j" "s ! j \<in> set s" by (simp_all add: nth_append)
  then have "(s @ crlf @ rest) ! j \<noteq> CR" using assms(1) by metis
  then show "\<not> nl_at (s @ crlf @ rest) j" by (simp add: nl_at_def)
qed

lemma readLine_line:
  assumes "reader_wf r" "window r = s @ crlf @ rest" "CR \<notin> set s"
  shows "readLine r = Some (s @ crlf @ rest, length s, adv (length s + 2) r) \<and> window (adv (length s + 2) r) = rest"
proof -
  have "length (s @ crlf @ rest) < 2 ^ 31" "rd_len r - rd_pos r = length (s @ crlf @ rest)"
    using window_bound [OF assms(1)] assms(2) by auto
  then have "readLine r = Some (s @ crlf @ rest, length s, adv (length s + 2) r)"
    unfolding readLine_def Let_def assms(2) using seek_line [OF assms(3)] by (simp add: adv_def)
  then show ?thesis by (simp add: window_adv assms(2))
qed

section \<open>Items\<close>

text \<open>A task about to read an item; its object is to be linked from the array one level up.\<close>

definition parent_ready :: "reader \<Rightarrow> bool" where
  "parent_ready r \<longleftrightarrow>
     (let t = cur_task r; p = task_at r (rd_ridx r - 1) in
      if rd_ridx r = 0 then t_parent t = None
      else t_parent t = Some (nat (rd_ridx r) - 1) \<and> t_type p = REDIS_REPLY_ARRAY
        \<and> 0 \<le> t_idx t \<and> t_idx t < t_elements p
        \<and> (\<exists>pa es. t_obj p = Some pa \<and> pa < length (rd_store r) \<and> r_type (rd_store r ! pa) = REDIS_REPLY_ARRAY
            \<and> r_element (rd_store r ! pa) = Some es \<and> int (length es) = t_elements p))"

definition ready :: "reader \<Rightarrow> bool" where
  "ready r \<longleftrightarrow> reader_wf r \<and> 0 \<le> rd_ridx r \<and> t_type (cur_task r) < 0 \<and> parent_ready r"

definition parent_addr :: "reader \<Rightarrow> nat" where
  "parent_addr r = the (t_obj (task_at r (rd_ridx r - 1)))"

text \<open>The store with the object at \<open>a\<close> linked from its parent.\<close>

definition set_elements :: "nat \<Rightarrow> nat option list \<Rightarrow> reply_store \<Rightarrow> reply_store" where
  "set_elements pa es h = h[pa := (h ! pa)\<lparr>r_element := Some es\<rparr>]"

definition elements_at :: "reply_store \<Rightarrow> nat \<Rightarrow> nat option list" where
  "elements_at h pa = the (r_element (h ! pa))"

definition place :: "reader \<Rightarrow> nat \<Rightarrow> reply_store" where
  "place r a = (if rd_ridx r = 0 then rd_store r
     else let pa = parent_addr r in
       set_elements pa ((elements_at (rd_store r) pa)[nat (t_idx (cur_task r)) := Some a]) (rd_store r))"

lemma place_length [simp]: "length (place r a) = length (rd_store r)"
  by (simp add: place_def set_elements_def Let_def)

text \<open>The item's type is known and its byte read.\<close>

definition typed :: "reader \<Rightarrow> int \<Rightarrow> reader" where
  "typed r ty = upd_task (adv 1 r) (nat (rd_ridx r)) (\<lambda>t. t\<lparr>t_type := ty\<rparr>)"

lemma typed_fields [simp]:
  "rd_ridx (typed r ty) = rd_ridx r" "rd_store (typed r ty) = rd_store r" "rd_reply (typed r ty) = rd_reply r"
  "rd_err (typed r ty) = rd_err r" "length (rd_stack (typed r ty)) = length (rd_stack r)"
  by (simp_all add: typed_def upd_task_def)

lemma typed_stack: "rd_stack (typed r ty) = (rd_stack r)[nat (rd_ridx r) := (rd_stack r ! nat (rd_ridx r))\<lparr>t_type := ty\<rparr>]"
  by (simp add: typed_def upd_task_def)

lemma typed_window: "window (typed r ty) = drop 1 (window r)"
proof -
  have "window (typed r ty) = window (adv 1 r)" by (intro same_buffer_window) (simp add: typed_def upd_task_def same_buffer_def)
  then show ?thesis by (simp add: window_adv)
qed

lemma ready_range: "ready r \<Longrightarrow> 0 \<le> rd_ridx r \<and> rd_ridx r \<le> 8 \<and> length (rd_stack r) = 9 \<and> nat (rd_ridx r) < 9"
  by (auto simp: ready_def reader_wf_def stack_wf_def)

lemma typed_wf:
  assumes "ready r" "window r = c # w" "known_type ty" "ty = REDIS_REPLY_ARRAY \<Longrightarrow> rd_ridx r < 8"
  shows "reader_wf (typed r ty) \<and> window (typed r ty) = w \<and> cur_task (typed r ty) = (cur_task r)\<lparr>t_type := ty\<rparr>"
proof -
  note k = ready_range [OF assms(1)]
  have cur: "cur_task (typed r ty) = (cur_task r)\<lparr>t_type := ty\<rparr>"
    using k by (simp add: cur_task_def task_at_def typed_stack)
  have "buf_wf (adv 1 r)" using assms(1,2) buf_wf_adv [of r 1] by (simp add: ready_def reader_wf_def)
  then have "buf_wf (typed r ty)" by (rule same_buffer_wf [rotated]) (simp add: typed_def upd_task_def same_buffer_def)
  moreover have "stack_wf (typed r ty)"
    using k assms(3,4) cur by (auto simp: stack_wf_def)
  ultimately show ?thesis using assms(1,2) cur typed_window [of r ty] by (simp add: ready_def reader_wf_def)
qed

lemma processItem_typed:
  assumes "ready r" "window r = c # w" "reply_type_of c = Some ty"
  shows "processItem oom r = process_typed oom (typed r ty)"
proof -
  have "length (window r) = rd_len r - rd_pos r" using window_bound assms(1) by (simp add: ready_def)
  then have "readBytes r 1 = Some (window r, adv 1 r)" using assms(2) by (simp add: readBytes_def adv_def)
  then show ?thesis using assms by (simp add: processItem_def ready_def peek_def typed_def)
qed

lemma create_object_place:
  assumes "ready r"
  shows "create_object (rd_stack (typed r ty)) (nat (rd_ridx r)) (rd_store r) obj
    = Some (length (rd_store r), place r (length (rd_store r)) @ [obj])"
proof (cases "rd_ridx r = 0")
  case True
  then show ?thesis using assms ready_range [OF assms]
    by (simp add: create_object_def link_parent_def typed_stack ready_def parent_ready_def cur_task_def task_at_def place_def)
next
  case False
  define k where "k = nat (rd_ridx r)"
  have k: "0 < k" "k < 9" "nat (rd_ridx r - 1) = k - 1" using False ready_range [OF assms] by (auto simp: k_def)
  let ?t = "rd_stack r ! k" and ?p = "rd_stack r ! (k - 1)"
  have p: "t_parent ?t = Some (k - 1)" "0 \<le> t_idx ?t" "t_idx ?t < t_elements ?p"
    using assms False k by (auto simp: ready_def parent_ready_def cur_task_def task_at_def Let_def k_def)
  obtain pa es where pa: "t_obj ?p = Some pa" "pa < length (rd_store r)" "r_type (rd_store r ! pa) = REDIS_REPLY_ARRAY"
    "r_element (rd_store r ! pa) = Some es" "int (length es) = t_elements ?p"
    using assms False k by (auto simp: ready_def parent_ready_def cur_task_def task_at_def Let_def k_def)
  have st: "rd_stack (typed r ty) ! k = ?t\<lparr>t_type := ty\<rparr>" "rd_stack (typed r ty) ! (k - 1) = ?p"
    using k ready_range [OF assms] by (simp_all add: typed_stack k_def [symmetric])
  have "place r a = (rd_store r)[pa := (rd_store r ! pa)\<lparr>r_element := Some (es[nat (t_idx ?t) := Some a])\<rparr>]" for a
    using False pa(1,4) k by (simp add: place_def parent_addr_def set_elements_def elements_at_def task_at_def cur_task_def k_def)
  moreover have "pa < length (rd_store r) + 1" using pa(2) by simp
  ultimately show ?thesis using p pa st
    by (simp add: create_object_def link_parent_def k_def [symmetric] nth_append list_update_append Let_def not_le)
qed

section \<open>The objects of a tree\<close>

fun nodes :: "resp \<Rightarrow> nat" where
  "nodes (RArray ts) = Suc (sum_list (map nodes ts))"
| "nodes _ = 1"

fun child_addrs :: "nat \<Rightarrow> resp list \<Rightarrow> nat list" where
  "child_addrs a [] = []"
| "child_addrs a (t # ts) = a # child_addrs (a + nodes t) ts"

definition array_obj :: "nat \<Rightarrow> nat option list \<Rightarrow> redis_reply" where
  "array_obj n es = (createReplyObject REDIS_REPLY_ARRAY)
     \<lparr>r_element := (if n > 0 then Some es else None), r_elements := n\<rparr>"

fun layout :: "nat \<Rightarrow> resp \<Rightarrow> reply_store" and layouts :: "nat \<Rightarrow> resp list \<Rightarrow> reply_store" where
  "layout a (RStatus s) = [(createReplyObject REDIS_REPLY_STATUS)\<lparr>r_str := Some (s @ [NUL]), r_len := int (length s)\<rparr>]"
| "layout a (RError s) = [(createReplyObject REDIS_REPLY_ERROR)\<lparr>r_str := Some (s @ [NUL]), r_len := int (length s)\<rparr>]"
| "layout a (RInteger i) = [(createReplyObject REDIS_REPLY_INTEGER)\<lparr>r_integer := i\<rparr>]"
| "layout a (RBulk s) = [(createReplyObject REDIS_REPLY_STRING)\<lparr>r_str := Some (s @ [NUL]), r_len := int (length s)\<rparr>]"
| "layout a RNil = [createReplyObject REDIS_REPLY_NIL]"
| "layout a (RArray ts) = array_obj (length ts) (map Some (child_addrs (Suc a) ts)) # layouts (Suc a) ts"
| "layouts a [] = []"
| "layouts a (t # ts) = layout a t @ layouts (a + nodes t) ts"

lemma layout_length [simp]: "length (layout a t) = nodes t" "length (layouts a ts) = sum_list (map nodes ts)"
  by (induction a t and a ts rule: layout_layouts.induct) simp_all

lemma child_addrs_length [simp]: "length (child_addrs a ts) = length ts"
  by (induction ts arbitrary: a) simp_all

section \<open>Reading an item\<close>

text \<open>The loop goes on with the task after the one of \<open>u\<close>.\<close>

definition after :: "(nat \<Rightarrow> bool) \<Rightarrow> reader \<Rightarrow> reader option" where
  "after oom u = (case moveToNextTask u of None \<Rightarrow> None | Some s \<Rightarrow> process_items oom s)"

text \<open>The reader \<open>u\<close> has read the item \<open>t\<close>, whose object is at the end of the store of \<open>r\<close>.\<close>

definition same_below :: "reader \<Rightarrow> reader \<Rightarrow> bool" where
  "same_below r u \<longleftrightarrow> (\<forall>j < nat (rd_ridx r). rd_stack u ! j = rd_stack r ! j)
     \<and> t_idx (cur_task u) = t_idx (cur_task r) \<and> t_parent (cur_task u) = t_parent (cur_task r)"

definition item_done :: "reader \<Rightarrow> resp \<Rightarrow> byte list \<Rightarrow> reader \<Rightarrow> bool" where
  "item_done r t rest u \<longleftrightarrow> reader_wf u \<and> rd_ridx u = rd_ridx r \<and> window u = rest
     \<and> rd_store u = place r (length (rd_store r)) @ layout (length (rd_store r)) t
     \<and> rd_reply u = (if rd_ridx r = 0 then Some (length (rd_store r)) else rd_reply r)
     \<and> same_below r u"

definition reads_item :: "(nat \<Rightarrow> bool) \<Rightarrow> reader \<Rightarrow> resp \<Rightarrow> byte list \<Rightarrow> bool" where
  "reads_item oom r t rest \<longleftrightarrow> (\<exists>u. process_items oom r = after oom u \<and> item_done r t rest u)"

lemma items_after:
  assumes "ready r" "processItem oom r = map_option (Pair REDIS_OK) (moveToNextTask u)"
  shows "process_items oom r = after oom u"
  using assms process_items_unfold [of r oom]
  by (cases "moveToNextTask u") (auto simp: ready_def after_def status_codes)

text \<open>A finished item without children.\<close>

lemma leaf_done:
  assumes r: "ready r" and w: "window r = c # w" and ty: "known_type ty" "ty \<noteq> REDIS_REPLY_ARRAY"
    and q: "q = adv n (typed r ty)" "n \<le> length w" "drop n w = rest" and l: "layout (length (rd_store r)) t = [obj]"
    and p: "processItem oom r = finish_item q (length (rd_store r), place r (length (rd_store r)) @ [obj])"
  shows "reads_item oom r t rest"
proof -
  let ?a = "length (rd_store r)"
  let ?u = "q\<lparr>rd_store := place r ?a @ [obj], rd_reply := (if rd_ridx r = 0 then Some ?a else rd_reply r)\<rparr>"
  note t = typed_wf [OF r w ty(1)] and k = ready_range [OF r]
  have t': "reader_wf (typed r ty)" "window (typed r ty) = w" "cur_task (typed r ty) = (cur_task r)\<lparr>t_type := ty\<rparr>"
    using t ty(2) by auto
  have cur: "cur_task ?u = (cur_task r)\<lparr>t_type := ty\<rparr>" using t'(3) by (simp add: q(1) cur_task_def task_at_def)
  have "buf_wf q" using t'(1,2) q(1,2) buf_wf_adv [of "typed r ty" n] by (simp add: reader_wf_def)
  then have "buf_wf ?u" by (rule same_buffer_wf [rotated]) (simp add: same_buffer_def)
  moreover have "stack_wf ?u" using cur k ty by (auto simp: stack_wf_def q(1))
  moreover have "rd_err ?u = 0" using t'(1) by (simp add: q(1) reader_wf_def)
  moreover have "window ?u = rest" using t'(2) q by (simp add: window_adv same_buffer_window [of q] same_buffer_def)
  moreover have "same_below r ?u"
    using cur by (auto simp: same_below_def q(1) typed_stack)
  ultimately have "item_done r t rest ?u" using l by (simp add: item_done_def reader_wf_def q(1))
  moreover have "processItem oom r = map_option (Pair REDIS_OK) (moveToNextTask ?u)"
    using p by (simp add: finish_item_def q(1))
  ultimately show ?thesis using items_after [OF r] by (auto simp: reads_item_def)
qed

lemma peek_first: "reply_type_of (CHR ''+'') = Some REDIS_REPLY_STATUS" "reply_type_of (CHR ''-'') = Some REDIS_REPLY_ERROR"
  "reply_type_of (CHR '':'') = Some REDIS_REPLY_INTEGER" "reply_type_of (CHR ''$'') = Some REDIS_REPLY_STRING"
  "reply_type_of (CHR ''*'') = Some REDIS_REPLY_ARRAY"
  by (simp_all add: reply_type_of_def)

lemma known_reply_types [simp]: "known_type REDIS_REPLY_STATUS" "known_type REDIS_REPLY_ERROR" "known_type REDIS_REPLY_INTEGER"
  "known_type REDIS_REPLY_STRING" "known_type REDIS_REPLY_ARRAY"
  by (simp_all add: known_type_def)

lemma string_not_array: "REDIS_REPLY_STRING \<noteq> REDIS_REPLY_ARRAY"
  by (simp add: reply_types)

lemma line_item:
  assumes r: "ready r" and w: "window r = c # s @ crlf @ rest" and c: "reply_type_of c = Some ty"
    and ty: "ty = REDIS_REPLY_STATUS \<or> ty = REDIS_REPLY_ERROR \<or> ty = REDIS_REPLY_INTEGER" and cr: "CR \<notin> set s"
    and oom: "\<forall>n. \<not> oom n"
    and obj: "obj = (if ty = REDIS_REPLY_INTEGER then (createReplyObject REDIS_REPLY_INTEGER)\<lparr>r_integer := readLongLong (s @ crlf @ rest)\<rparr>
        else (createReplyObject ty)\<lparr>r_str := Some (s @ [NUL]), r_len := int (length s)\<rparr>)"
    and l: "layout (length (rd_store r)) t = [obj]"
  shows "reads_item oom r t rest"
proof -
  have ty': "known_type ty" "ty \<noteq> REDIS_REPLY_ARRAY" using ty by (auto simp: known_type_def reply_types)
  have T: "reader_wf (typed r ty)" "window (typed r ty) = s @ crlf @ rest" "cur_task (typed r ty) = (cur_task r)\<lparr>t_type := ty\<rparr>"
    using typed_wf [OF r w ty'(1)] ty'(2) by auto
  note line = readLine_line [OF T(1,2) cr]
  have len: "length s < 2 ^ 31" using window_bound [OF T(1)] T(2) by simp
  have tt: "t_type (rd_stack (typed r ty) ! nat (rd_ridx r)) = ty" using T(3) by (simp add: cur_task_def task_at_def)
  have "processItem oom r = finish_item (adv (length s + 2) (typed r ty)) (length (rd_store r), place r (length (rd_store r)) @ [obj])"
    unfolding processItem_typed [OF r w c] process_typed_def
    using ty line oom T(3) tt len obj
    by (auto simp: processLineItem_def createIntegerObject_def createStringObject_def create_object_place [OF r] reply_types)
  then show ?thesis
    by (intro leaf_done [OF r w ty' refl _ _ l]) simp_all
qed

lemma status_item:
  assumes "ready r" "window r = encode (RStatus s) @ rest" "fits (RStatus s)" "\<forall>n. \<not> oom n"
  shows "reads_item oom r (RStatus s) rest"
  using assms by (intro line_item [where c = "CHR ''+''" and s = s]) (auto simp: peek_first reply_types)

lemma error_item:
  assumes "ready r" "window r = encode (RError s) @ rest" "fits (RError s)" "\<forall>n. \<not> oom n"
  shows "reads_item oom r (RError s) rest"
  using assms by (intro line_item [where c = "CHR ''-''" and s = s]) (auto simp: peek_first reply_types)

lemma dec_of_int_no_cr: "CR \<notin> set (dec_of_int i)"
  using digits_no_cr by (auto simp: dec_of_int_def)

lemma integer_item:
  assumes "ready r" "window r = encode (RInteger i) @ rest" "fits (RInteger i)" "\<forall>n. \<not> oom n"
  shows "reads_item oom r (RInteger i) rest"
proof -
  have "readLongLong (dec_of_int i @ crlf @ rest) = i" using assms(3) readLongLong_int by simp
  then show ?thesis
    using assms dec_of_int_no_cr
    by (intro line_item [where c = "CHR '':''" and s = "dec_of_int i"]) (auto simp: peek_first)
qed

lemma bulk_string_item:
  assumes r: "ready r" and w: "window r = CHR ''$'' # head @ crlf @ body" and head: "CR \<notin> set head"
    and n: "readLongLong (head @ crlf @ body) = n" and oom: "\<forall>n. \<not> oom n"
    and t: "n < 0 \<and> t = RNil \<and> body = rest \<or> (\<exists>s. t = RBulk s \<and> n = int (length s) \<and> body = s @ crlf @ rest)"
  shows "reads_item oom r t rest"
proof -
  let ?q = "typed r REDIS_REPLY_STRING"
  have T: "reader_wf ?q" "window ?q = head @ crlf @ body" "cur_task ?q = (cur_task r)\<lparr>t_type := REDIS_REPLY_STRING\<rparr>"
    using typed_wf [OF r w known_reply_types(4)] string_not_array by blast+
  have len: "rd_len ?q - rd_pos ?q = length (head @ crlf @ body)" "length (head @ crlf @ body) < 2 ^ 31"
    using window_bound [OF T(1)] T(2) by auto
  have pos: "rd_pos ?q \<le> rd_len ?q" using T(1) by (auto simp: reader_wf_def buf_wf_def)
  have seek: "seekNewline (window ?q) (rd_len ?q - rd_pos ?q) = Some (length head)"
    unfolding T(2) len(1) by (rule seek_line [OF head len(2)])
  have tt: "t_type (rd_stack ?q ! nat (rd_ridx r)) = REDIS_REPLY_STRING" using T(3) by (simp add: cur_task_def task_at_def)
  have P: "processItem oom r = processBulkItem oom ?q"
    unfolding processItem_typed [OF r w peek_first(4)] process_typed_def using T(3) by (simp add: reply_types)
  from t show ?thesis
  proof (elim disjE conjE exE)
    assume "n < 0" and [simp]: "t = RNil" "body = rest"
    then have "processItem oom r = finish_item (adv (length head + 2) ?q)
        (length (rd_store r), place r (length (rd_store r)) @ [createReplyObject REDIS_REPLY_NIL])"
      unfolding P processBulkItem_def Let_def seek using oom n T(2)
      by (simp add: createNilObject_def create_object_place [OF r] adv_def)
    then show ?thesis
      by (intro leaf_done [OF r w _ _ refl]) (simp_all add: string_not_array)
  next
    fix s assume [simp]: "t = RBulk s" "n = int (length s)" "body = s @ crlf @ rest"
    let ?obj = "(createReplyObject REDIS_REPLY_STRING)\<lparr>r_str := Some (s @ [NUL]), r_len := int (length s)\<rparr>"
    have fit: "rd_pos ?q + (length head + 2 + (length s + 2)) \<le> rd_len ?q" using len(1) pos by simp
    have "length s < 2 ^ 31" using len(2) by simp
    then have "createStringObject (rd_stack ?q) (nat (rd_ridx r)) (rd_store r) (s @ crlf @ rest) (length s)
        = Some (length (rd_store r), place r (length (rd_store r)) @ [?obj])"
      using tt by (simp add: createStringObject_def create_object_place [OF r])
    then have "processItem oom r = finish_item (adv (length head + 2 + (length s + 2)) ?q)
        (length (rd_store r), place r (length (rd_store r)) @ [?obj])"
      unfolding P processBulkItem_def Let_def seek using oom n T(2) fit
      by (simp add: adv_def)
    moreover have "drop (length head + 2 + (length s + 2)) (head @ crlf @ body) = rest" by (simp add: numeral_eq_Suc)
    ultimately show ?thesis
      by (intro leaf_done [OF r w _ _ refl]) (simp_all add: string_not_array del: append_assoc)
  qed
qed

lemma bulk_item:
  assumes "ready r" "window r = encode (RBulk s) @ rest" "\<forall>n. \<not> oom n"
  shows "reads_item oom r (RBulk s) rest"
proof -
  have w: "window r = CHR ''$'' # dec_of_nat (length s) @ crlf @ (s @ crlf @ rest)" using assms(2) by (simp add: bulk_def)
  then have "length s < 2 ^ 31" using window_bound [of r] assms(1) by (simp add: ready_def)
  then have "readLongLong (dec_of_nat (length s) @ crlf @ (s @ crlf @ rest)) = int (length s)"
    using readLongLong_nat by simp
  from bulk_string_item [OF assms(1) w digits_no_cr this assms(3)] show ?thesis by blast
qed

lemma nil_item:
  assumes "ready r" "window r = encode RNil @ rest" "\<forall>n. \<not> oom n"
  shows "reads_item oom r RNil rest"
proof -
  have "readLongLong (''-1'' @ crlf @ rest) = - 1"
    by (simp add: readLongLong_def peek_def schar_def uchar_def)
  from bulk_string_item [OF assms(1) _ _ this assms(3), of RNil rest] assms(2) show ?thesis by simp
qed

section \<open>Arrays\<close>

lemma set_elements_append:
  "pa < length h \<Longrightarrow> set_elements pa es (h @ x) = set_elements pa es h @ x"
  by (simp add: set_elements_def list_update_append nth_append)

lemma set_elements_twice: "set_elements pa es (set_elements pa es' h) = set_elements pa es h"
  by (cases "pa < length h") (simp_all add: set_elements_def list_update_beyond)

lemma set_elements_length [simp]: "length (set_elements pa es h) = length h"
  by (simp add: set_elements_def)

lemma elements_at_set: "pa < length h \<Longrightarrow> (set_elements pa es h @ x) ! pa = (h ! pa)\<lparr>r_element := Some es\<rparr>"
  by (simp add: set_elements_def nth_append)

definition reads_items :: "(nat \<Rightarrow> bool) \<Rightarrow> reader \<Rightarrow> resp list \<Rightarrow> byte list \<Rightarrow> bool" where
  "reads_items oom r ts rest \<longleftrightarrow>
     (let n = length (rd_store r); pa = parent_addr r; i = nat (t_idx (cur_task r)) in
      \<exists>u. process_items oom r = after oom u \<and> reader_wf u \<and> rd_ridx u = rd_ridx r - 1 \<and> window u = rest
        \<and> rd_store u = set_elements pa (take i (elements_at (rd_store r) pa) @ map Some (child_addrs n ts)) (rd_store r)
            @ layouts n ts
        \<and> rd_reply u = rd_reply r \<and> (\<forall>j < nat (rd_ridx r). rd_stack u ! j = rd_stack r ! j))"

lemma children:
  assumes "\<And>t r rest. t \<in> set ts \<Longrightarrow> ready r \<Longrightarrow> window r = encode t @ rest \<Longrightarrow> nat (rd_ridx r) + nest t \<le> 8
      \<Longrightarrow> reads_item oom r t rest"
  shows "ts \<noteq> [] \<Longrightarrow> ready r \<Longrightarrow> 0 < rd_ridx r \<Longrightarrow>
    t_elements (task_at r (rd_ridx r - 1)) = t_idx (cur_task r) + int (length ts) \<Longrightarrow>
    window r = concat (map encode ts) @ rest \<Longrightarrow> \<forall>t \<in> set ts. nat (rd_ridx r) + nest t \<le> 8 \<Longrightarrow> reads_items oom r ts rest"
  using assms
proof (induction ts arbitrary: r)
  case Nil
  then show ?case by simp
next
  case (Cons t ts)
  let ?n = "length (rd_store r)" and ?cur = "cur_task r" and ?prv = "task_at r (rd_ridx r - 1)"
  define k where "k = nat (rd_ridx r)"
  define i where "i = nat (t_idx ?cur)"
  define pa where "pa = parent_addr r"
  have k: "rd_ridx r = int k" "0 < k" "k \<le> 8" "length (rd_stack r) = 9"
    using ready_range [OF Cons.prems(2)] Cons.prems(3) by (auto simp: k_def)
  have k1: "nat (rd_ridx r - 1) = k - 1" using k by simp
  have prv: "?prv = rd_stack r ! (k - 1)" "?cur = rd_stack r ! k" using k1 by (simp_all add: task_at_def cur_task_def k_def)
  obtain es where par: "t_parent ?cur = Some (k - 1)" "t_type ?prv = REDIS_REPLY_ARRAY" "t_idx ?cur = int i"
    "t_obj ?prv = Some pa" "pa < ?n" "r_type (rd_store r ! pa) = REDIS_REPLY_ARRAY" "r_element (rd_store r ! pa) = Some es"
    "length es = i + Suc (length ts)" "t_elements ?prv = int (i + Suc (length ts))"
    using Cons.prems(2,3,4) unfolding ready_def parent_ready_def
    by (auto simp: Let_def k_def i_def pa_def parent_addr_def)
  have el: "elements_at (rd_store r) pa = es" using par(7) by (simp add: elements_at_def)
  have place: "place r ?n = set_elements pa (es[i := Some ?n]) (rd_store r)"
    using k by (simp add: place_def Let_def pa_def [symmetric] el i_def)
  have "reads_item oom r t (concat (map encode ts) @ rest)"
    by (rule Cons.prems(7)) (use Cons.prems(2,5,6) in auto)
  then obtain u where u: "process_items oom r = after oom u" "reader_wf u" "rd_ridx u = rd_ridx r"
    "window u = concat (map encode ts) @ rest" "rd_store u = place r ?n @ layout ?n t"
    "rd_reply u = rd_reply r" "same_below r u"
    using k by (auto simp: reads_item_def item_done_def)
  have uk: "length (rd_stack u) = 9" using u(2) by (auto simp: reader_wf_def stack_wf_def)
  have below: "rd_stack u ! j = rd_stack r ! j" if "j < k" for j using u(7) that by (simp add: same_below_def k_def)
  have cur: "t_idx (cur_task u) = int i" "t_parent (cur_task u) = Some (k - 1)"
    using u(7) par(1,3) by (simp_all add: same_below_def)
  have uprv: "task_at u (rd_ridx u - 1) = ?prv" using below [of "k - 1"] k k1 u(3) by (simp add: task_at_def prv)
  have uprv': "task_at u (int k - 1) = ?prv" using uprv unfolding u(3) k(1) .
  have ucur: "cur_task u = rd_stack u ! k" "task_at u (rd_ridx u) = cur_task u" using u(3) by (simp_all add: cur_task_def task_at_def k_def)
  show ?case
  proof (cases "ts = []")
    case True
    let ?u = "u\<lparr>rd_ridx := rd_ridx u - 1\<rparr>"
    have "moveToNextTask u = moveToNextTask ?u"
      using par(2,9) True cur(1) k(2) ucur(2) unfolding u(3) k(1)
      by (subst moveToNextTask.simps) (simp add: Let_def uprv' u(3) k(1))
    then have "process_items oom r = after oom ?u" using u(1) by (simp add: after_def)
    moreover have "reader_wf ?u"
    proof -
      have "cur_task ?u = ?prv" using uprv by (simp add: cur_task_def task_at_def)
      moreover have "buf_wf ?u" using u(2) by (simp add: reader_wf_def same_buffer_wf [of u] same_buffer_def)
      ultimately show ?thesis using u(2,3) k par(2) by (auto simp: reader_wf_def stack_wf_def)
    qed
    moreover have "es[i := Some ?n] = take i es @ [Some ?n]" using par(8) True by (simp add: upd_conv_take_nth_drop)
    moreover have "window ?u = window u" by (intro same_buffer_window) (simp add: same_buffer_def)
    ultimately show ?thesis
      unfolding reads_items_def Let_def pa_def [symmetric] i_def [symmetric] el
      using u(3-6) below True by (intro exI [of _ ?u]) (simp add: place k_def)
  next
    case False
    let ?s = "upd_task u k (\<lambda>t. t\<lparr>t_type := - 1, t_elements := - 1, t_idx := t_idx t + 1\<rparr>)"
    have move: "moveToNextTask u = Some ?s"
      using par(2,9) False cur(1) k(2) ucur(2) unfolding u(3) k(1)
      by (subst moveToNextTask.simps) (simp add: Let_def uprv' u(3) k(1))
    note sb = moveToNextTask_same_buffer [OF move]
    have s_ridx: "rd_ridx ?s = rd_ridx r" using u(3) by (simp add: upd_task_def)
    have s_cur: "cur_task ?s = (cur_task u)\<lparr>t_type := - 1, t_elements := - 1, t_idx := t_idx (cur_task u) + 1\<rparr>"
      using k uk ucur(1) u(3) by (simp add: cur_task_def task_at_def upd_task_def)
    have s_below: "rd_stack ?s ! j = rd_stack r ! j" if "j < k" for j using below [OF that] that by (simp add: upd_task_def)
    have s_prv: "task_at ?s (rd_ridx ?s - 1) = ?prv" using s_below [of "k - 1"] k k1 s_ridx by (simp add: task_at_def prv)
    have s_wf: "reader_wf ?s"
      using u(2) sb moveToNextTask_wf [OF move] same_buffer_wf [of u ?s]
      by (auto simp: reader_wf_def stack_wf_def same_buffer_def)
    have s_store: "rd_store ?s = set_elements pa (es[i := Some ?n]) (rd_store r) @ layout ?n t" using sb u(5) place by simp
    have s_pa: "rd_store ?s ! pa = (rd_store r ! pa)\<lparr>r_element := Some (es[i := Some ?n])\<rparr>" "pa < length (rd_store ?s)"
      using elements_at_set [OF par(5)] par(5) unfolding s_store by simp_all
    have s_ne: "rd_ridx ?s \<noteq> 0" "0 \<le> rd_ridx ?s" "nat (rd_ridx ?s) - 1 = k - 1" using s_ridx k by auto
    have s_idx: "t_idx (cur_task ?s) = int (Suc i)" "t_parent (cur_task ?s) = Some (nat (rd_ridx ?s) - 1)" "t_type (cur_task ?s) < 0"
      using s_cur cur s_ne(3) by simp_all
    have bound: "int (Suc i) < t_elements ?prv" "0 \<le> int (Suc i)" using par(9) False by (cases ts, simp_all)
    have s_arr: "r_type (rd_store ?s ! pa) = REDIS_REPLY_ARRAY" "r_element (rd_store ?s ! pa) = Some (es[i := Some ?n])"
      using s_pa(1) par(6) by simp_all
    have s_len: "int (length (es[i := Some ?n])) = t_elements ?prv" using par(8,9) by simp
    have "parent_ready ?s"
      unfolding parent_ready_def Let_def if_not_P [OF s_ne(1)] s_prv s_idx(1)
      using s_idx(2) par(2,4) bound s_pa(2) s_arr s_len by blast
    then have ready: "ready ?s" using s_wf s_ne(2) s_idx(3) by (simp add: ready_def)
    have addr: "parent_addr ?s = pa" using s_prv par(4) by (simp add: parent_addr_def)
    have el': "elements_at (rd_store ?s) pa = es[i := Some ?n]" using s_pa(1) by (simp add: elements_at_def)
    have idx: "nat (t_idx (cur_task ?s)) = Suc i" using s_cur cur(1) by simp
    have "reads_items oom ?s ts rest"
    proof (rule Cons.IH [OF False ready])
      show "t_elements (task_at ?s (rd_ridx ?s - 1)) = t_idx (cur_task ?s) + int (length ts)"
        using s_prv par(9) s_cur cur(1) by simp
      show "window ?s = concat (map encode ts) @ rest" using same_buffer_window [OF conjunct1 [OF sb]] u(4) by (rule trans)
      show "reads_item oom r' t' rest'" if "t' \<in> set ts" "ready r'" "window r' = encode t' @ rest'" "nat (rd_ridx r') + nest t' \<le> 8"
        for t' r' rest' by (rule Cons.prems(7)) (use that in auto)
      show "0 < rd_ridx ?s" unfolding s_ridx by (rule Cons.prems(3))
      show "\<forall>t \<in> set ts. nat (rd_ridx ?s) + nest t \<le> 8" unfolding s_ridx using Cons.prems(6) by simp
    qed
    then obtain v where v: "process_items oom ?s = after oom v" "reader_wf v" "rd_ridx v = rd_ridx r - 1" "window v = rest"
      "rd_store v = set_elements pa (take (Suc i) (es[i := Some ?n]) @ map Some (child_addrs (length (rd_store ?s)) ts)) (rd_store ?s)
        @ layouts (length (rd_store ?s)) ts" "rd_reply v = rd_reply ?s" "\<forall>j < k. rd_stack v ! j = rd_stack ?s ! j"
      unfolding reads_items_def Let_def addr el' idx s_ridx k_def [symmetric] by blast
    have len: "length (rd_store ?s) = ?n + nodes t" by (simp add: s_store)
    have take: "take (Suc i) (es[i := Some ?n]) = take i es @ [Some ?n]" using par(8) by (simp add: take_Suc_conv_app_nth)
    have "rd_store v = set_elements pa (take i es @ map Some (child_addrs ?n (t # ts))) (rd_store r) @ layouts ?n (t # ts)"
      unfolding v(5) len take unfolding s_store using par(5) by (simp add: set_elements_append set_elements_twice)
    moreover have "process_items oom r = after oom v" using u(1) move v(1) by (simp add: after_def)
    ultimately show ?thesis
      unfolding reads_items_def Let_def pa_def [symmetric] i_def [symmetric] el
      using v(2-4,6,7) sb u(6) s_below by (intro exI [of _ v]) (simp add: k_def)
  qed
qed

lemma foldr_max_bound: "m \<in> set ns \<Longrightarrow> m \<le> foldr max ns (0 :: nat)"
  by (induction ns) auto

lemma nest_child: "t \<in> set ts \<Longrightarrow> nest t < nest (RArray ts)"
  using foldr_max_bound [of "nest t" "map nest ts"] by simp

lemma moveToNextTask_reply:
  "moveToNextTask (u\<lparr>rd_reply := x\<rparr>) = map_option (\<lambda>s. s\<lparr>rd_reply := x\<rparr>) (moveToNextTask u)"
proof (induction u rule: moveToNextTask.induct)
  case (1 r)
  have swap: "r\<lparr>rd_reply := x, rd_ridx := i\<rparr> = r\<lparr>rd_ridx := i, rd_reply := x\<rparr>" for i by simp
  show ?case
    by (subst moveToNextTask.simps, subst (2) moveToNextTask.simps)
      (use 1 in \<open>simp add: Let_def task_at_def upd_task_def swap\<close>)
qed

text \<open>The state behind the head line of an array.\<close>

lemma array_head:
  assumes r: "ready r" and w: "window r = CHR ''*'' # dec_of_nat n @ crlf @ body" and n: "int n < 2 ^ 31"
    and k: "rd_ridx r < 8" and oom: "\<forall>n. \<not> oom n"
  defines "q \<equiv> adv (length (dec_of_nat n) + 2) (typed r REDIS_REPLY_ARRAY)"
    and "h \<equiv> place r (length (rd_store r)) @ [array_obj n (replicate n None)]"
    and "set_root \<equiv> (\<lambda>s. if rd_ridx r = 0 then s\<lparr>rd_reply := Some (length (rd_store r))\<rparr> else s)"
  shows "window q = body \<and> reader_wf q \<and> cur_task q = (cur_task r)\<lparr>t_type := REDIS_REPLY_ARRAY\<rparr>
    \<and> processItem oom r = (if n > 0 then Some (REDIS_OK, set_root (push_task q (int n) (length (rd_store r)) h))
        else map_option (\<lambda>s. (REDIS_OK, set_root s)) (moveToNextTask (q\<lparr>rd_store := h\<rparr>)))"
proof -
  let ?t = "typed r REDIS_REPLY_ARRAY"
  have T: "reader_wf ?t" "window ?t = dec_of_nat n @ crlf @ body" "cur_task ?t = (cur_task r)\<lparr>t_type := REDIS_REPLY_ARRAY\<rparr>"
    using typed_wf [OF r w known_reply_types(5)] k by auto
  note line = readLine_line [OF T(1,2) digits_no_cr]
  have num: "readLongLong (dec_of_nat n @ crlf @ body) = int n" using n readLongLong_nat by simp
  have obj: "(createReplyObject REDIS_REPLY_ARRAY)
      \<lparr>r_element := (if int n > 0 then Some (replicate (nat (int n)) None) else None), r_elements := nat (int n mod 2 ^ 64)\<rparr>
    = array_obj n (replicate n None)"
    using n by (simp add: array_obj_def)
  have c: "c_int (int n) = int n" using n by (simp add: c_int_id)
  have P: "processItem oom r = processMultiBulkItem oom ?t"
    unfolding processItem_typed [OF r w peek_first(5)] process_typed_def using T(3) by (simp add: reply_types)
  have "processItem oom r = (if n > 0 then Some (REDIS_OK, set_root (push_task q (int n) (length (rd_store r)) h))
        else map_option (\<lambda>s. (REDIS_OK, set_root s)) (moveToNextTask (q\<lparr>rd_store := h\<rparr>)))"
    unfolding P processMultiBulkItem_def Let_def using k oom line num c
    by (simp add: createArrayObject_def create_object_place [OF r] obj [simplified] q_def h_def set_root_def)
  moreover have "reader_wf q" using T(1,2) buf_wf_adv [of ?t "length (dec_of_nat n) + 2"] by (simp add: q_def reader_wf_def)
  moreover have "cur_task q = cur_task ?t" by (simp add: q_def cur_task_def task_at_def)
  ultimately show ?thesis using line T(3) by (simp add: q_def)
qed

lemma array_obj_fields: "r_type (array_obj n es) = REDIS_REPLY_ARRAY" "r_elements (array_obj n es) = n"
  "r_element (array_obj n es) = (if n > 0 then Some es else None)"
  by (simp_all add: array_obj_def createReplyObject_def)

lemma array_obj_set: "0 < n \<Longrightarrow> (array_obj n es)\<lparr>r_element := Some es'\<rparr> = array_obj n es'"
  by (simp add: array_obj_def)

lemma empty_array_item:
  assumes r: "ready r" and w: "window r = encode (RArray []) @ rest" and k: "rd_ridx r < 8" and oom: "\<forall>n. \<not> oom n"
  shows "reads_item oom r (RArray []) rest"
proof -
  let ?a = "length (rd_store r)" and ?k = "nat (rd_ridx r)"
  define q where "q = adv (length (dec_of_nat 0) + 2) (typed r REDIS_REPLY_ARRAY)"
  define h where "h = place r ?a @ [array_obj 0 (replicate 0 None)]"
  have w': "window r = CHR ''*'' # dec_of_nat 0 @ crlf @ rest" using w by simp
  have H: "window q = rest" "reader_wf q" "cur_task q = (cur_task r)\<lparr>t_type := REDIS_REPLY_ARRAY\<rparr>"
    "processItem oom r = map_option (\<lambda>s. (REDIS_OK, if rd_ridx r = 0 then s\<lparr>rd_reply := Some ?a\<rparr> else s))
      (moveToNextTask (q\<lparr>rd_store := h\<rparr>))"
    using array_head [OF r w' _ k oom] by (simp_all add: q_def h_def)
  let ?u = "q\<lparr>rd_store := h, rd_reply := (if rd_ridx r = 0 then Some ?a else rd_reply r)\<rparr>"
  have reply: "rd_reply q = rd_reply r" by (simp add: q_def)
  have step: "map_option (\<lambda>s. (REDIS_OK, if rd_ridx r = 0 then s\<lparr>rd_reply := Some ?a\<rparr> else s)) (moveToNextTask (q\<lparr>rd_store := h\<rparr>))
      = map_option (Pair REDIS_OK) (moveToNextTask ?u)"
  proof (cases "rd_ridx r = 0")
    case True
    then have "?u = (q\<lparr>rd_store := h\<rparr>)\<lparr>rd_reply := Some ?a\<rparr>" by simp
    then show ?thesis using True moveToNextTask_reply [of "Some ?a" "q\<lparr>rd_store := h\<rparr>"]
      by (simp add: option.map_comp comp_def)
  next
    case False
    then have "?u = q\<lparr>rd_store := h\<rparr>" using reply by simp
    then show ?thesis using False by (simp cong: map_option_cong)
  qed
  have "process_items oom r = after oom ?u" using items_after [OF r, of oom ?u] H(4) step by simp
  moreover have "reader_wf ?u"
  proof -
    have "cur_task ?u = cur_task q" by (simp add: cur_task_def task_at_def)
    moreover have "buf_wf ?u" using H(2) same_buffer_wf [of q ?u] by (simp add: reader_wf_def same_buffer_def)
    ultimately show ?thesis using H(2) by (auto simp: reader_wf_def stack_wf_def)
  qed
  moreover have "window ?u = rest" using same_buffer_window [of q ?u] H(1) by (simp add: same_buffer_def)
  moreover have "same_below r ?u"
  proof -
    have "cur_task ?u = cur_task q" by (simp add: cur_task_def task_at_def)
    then show ?thesis using H(3) by (auto simp: same_below_def q_def typed_stack)
  qed
  ultimately show ?thesis
    unfolding reads_item_def item_done_def by (intro exI [of _ ?u]) (simp add: h_def q_def)
qed

lemma array_item:
  assumes IH: "\<And>t r rest. t \<in> set ts \<Longrightarrow> ready r \<Longrightarrow> window r = encode t @ rest \<Longrightarrow> nat (rd_ridx r) + nest t \<le> 8
      \<Longrightarrow> reads_item oom r t rest"
    and r: "ready r" and w: "window r = encode (RArray ts) @ rest" and depth: "nat (rd_ridx r) + nest (RArray ts) \<le> 8"
    and ts: "ts \<noteq> []" and n: "int (length ts) < 2 ^ 31" and oom: "\<forall>n. \<not> oom n"
  shows "reads_item oom r (RArray ts) rest"
proof -
  let ?a = "length (rd_store r)" and ?n = "length ts"
  define k where "k = nat (rd_ridx r)"
  have k: "rd_ridx r = int k" "k < 8" "length (rd_stack r) = 9"
    using ready_range [OF r] depth by (auto simp: k_def)
  have w': "window r = CHR ''*'' # dec_of_nat ?n @ crlf @ (concat (map encode ts) @ rest)" using w by simp
  define q where "q = adv (length (dec_of_nat ?n) + 2) (typed r REDIS_REPLY_ARRAY)"
  define h where "h = place r ?a @ [array_obj ?n (replicate ?n None)]"
  define s where "s = (if rd_ridx r = 0 then (push_task q (int ?n) ?a h)\<lparr>rd_reply := Some ?a\<rparr> else push_task q (int ?n) ?a h)"
  have H: "window q = concat (map encode ts) @ rest" "reader_wf q" "cur_task q = (cur_task r)\<lparr>t_type := REDIS_REPLY_ARRAY\<rparr>"
    "processItem oom r = Some (REDIS_OK, s)"
    using array_head [OF r w' n _ oom] k ts by (simp_all add: q_def h_def s_def)
  have q: "rd_ridx q = int k" "rd_stack q = (rd_stack r)[k := (rd_stack r ! k)\<lparr>t_type := REDIS_REPLY_ARRAY\<rparr>]" "rd_reply q = rd_reply r"
    using k by (simp_all add: q_def typed_stack)
  have s: "rd_ridx s = int k + 1" "rd_store s = h" "rd_reply s = (if rd_ridx r = 0 then Some ?a else rd_reply r)"
    "rd_stack s = (rd_stack q)[k := (rd_stack q ! k)\<lparr>t_elements := int ?n, t_obj := Some ?a\<rparr>,
      Suc k := \<lparr>t_type = - 1, t_elements = - 1, t_idx = 0, t_obj = None, t_parent = Some k\<rparr>]"
    using q by (simp_all add: s_def push_task_def)
  have s_cur: "cur_task s = \<lparr>t_type = - 1, t_elements = - 1, t_idx = 0, t_obj = None, t_parent = Some k\<rparr>"
    using s(1,4) q(2) k by (simp add: cur_task_def task_at_def nat_add_distrib)
  have s_prv: "task_at s (rd_ridx s - 1) = (rd_stack r ! k)\<lparr>t_type := REDIS_REPLY_ARRAY, t_elements := int ?n, t_obj := Some ?a\<rparr>"
    using s(1,4) q(2) k by (simp add: task_at_def)
  have wf: "reader_wf r" "0 \<le> rd_ridx r" using r by (auto simp: ready_def)
  have s_wf: "reader_wf s" using processItem_progress [OF wf H(4)] by simp
  have s_win: "window s = concat (map encode ts) @ rest"
    using same_buffer_window [of q s] H(1) by (simp add: s_def push_task_def same_buffer_def)
  have obj: "h ! ?a = array_obj ?n (replicate ?n None)" by (simp add: h_def nth_append)
  have ne: "rd_ridx s \<noteq> 0" using s(1) by simp
  have "parent_ready s"
    unfolding parent_ready_def Let_def if_not_P [OF ne] s_prv s_cur
    using s(1,2) ts obj by (simp add: nat_add_distrib array_obj_def createReplyObject_def h_def nth_append)
  then have s_ready: "ready s" using s_wf s(1) s_cur by (simp add: ready_def)
  have "reads_items oom s ts rest"
  proof (rule children [OF _ ts s_ready])
    show "reads_item oom r' t' rest'" if "t' \<in> set ts" "ready r'" "window r' = encode t' @ rest'" "nat (rd_ridx r') + nest t' \<le> 8"
      for t' r' rest' by (rule IH) (use that in auto)
    show "t_elements (task_at s (rd_ridx s - 1)) = t_idx (cur_task s) + int (length ts)" unfolding s_prv s_cur by simp
    have "nat (rd_ridx s) = Suc k" using s(1) by simp
    then show "\<forall>t \<in> set ts. nat (rd_ridx s) + nest t \<le> 8" using depth nest_child k_def by fastforce
  qed (use s(1) s_win in auto)
  moreover have addr: "parent_addr s = ?a" "nat (t_idx (cur_task s)) = 0" using s_prv s_cur by (simp_all add: parent_addr_def)
  moreover have nat: "nat (rd_ridx s) = Suc k" "rd_ridx s - 1 = rd_ridx r" using s(1) k by simp_all
  ultimately obtain u where u: "process_items oom s = after oom u" "reader_wf u" "rd_ridx u = rd_ridx r" "window u = rest"
    "rd_store u = set_elements ?a (take 0 (elements_at h ?a) @ map Some (child_addrs (length h) ts)) h @ layouts (length h) ts"
    "rd_reply u = rd_reply s" "\<forall>j < Suc k. rd_stack u ! j = rd_stack s ! j"
    unfolding reads_items_def Let_def s(2) by metis
  have "process_items oom r = process_items oom s"
    using process_items_unfold [OF wf, of oom] H(4) by simp
  moreover have "rd_store u = place r ?a @ layout ?a (RArray ts)"
  proof -
    have "set_elements ?a es h = place r ?a @ [array_obj ?n es]" for es
      using ts by (simp add: set_elements_def obj array_obj_set) (simp add: h_def list_update_append)
    then show ?thesis using u(5) by (simp add: h_def)
  qed
  moreover have "same_below r u"
  proof -
    have "rd_stack u ! k = (rd_stack r ! k)\<lparr>t_type := REDIS_REPLY_ARRAY, t_elements := int ?n, t_obj := Some ?a\<rparr>"
      using u(7) s(4) q(2) k by simp
    moreover have "rd_stack u ! j = rd_stack r ! j" if "j < k" for j using u(7) s(4) q(2) that by simp
    ultimately show ?thesis using u(3) k by (simp add: same_below_def cur_task_def task_at_def)
  qed
  ultimately show ?thesis
    unfolding reads_item_def item_done_def using u(1-4,6) s(3) by (intro exI [of _ u]) simp
qed

section \<open>Trees\<close>

lemma encode_nonempty: "encode t \<noteq> []"
  by (cases t) (simp_all add: bulk_def)

lemma children_bound: "length ts \<le> length (concat (map encode ts))"
proof (induction ts)
  case (Cons t ts)
  have "0 < length (encode t)" using encode_nonempty by simp
  then show ?case using Cons by (simp del: length_greater_0_conv)
qed simp

lemma reads_tree:
  assumes oom: "\<forall>n. \<not> oom n"
  shows "fits t \<Longrightarrow> ready r \<Longrightarrow> window r = encode t @ rest \<Longrightarrow> nat (rd_ridx r) + nest t \<le> 8 \<Longrightarrow> reads_item oom r t rest"
proof (induction t arbitrary: r rest)
  case (RArray ts)
  have IH: "reads_item oom r' t' rest'" if "t' \<in> set ts" "ready r'" "window r' = encode t' @ rest'" "nat (rd_ridx r') + nest t' \<le> 8"
    for t' r' rest'
    by (rule RArray.IH [OF that(1) _ that(2-4)]) (use RArray.prems(1) that(1) in \<open>auto simp: list_all_iff\<close>)
  show ?case
  proof (cases "ts = []")
    case True
    then show ?thesis using empty_array_item [OF RArray.prems(2) _ _ oom] RArray.prems(3,4) by simp
  next
    case False
    have "length ts \<le> length (window r)" using children_bound [of ts] RArray.prems(3) by simp
    then have "int (length ts) < 2 ^ 31" using window_bound [of r] RArray.prems(2) by (simp add: ready_def)
    then show ?thesis using array_item [OF IH RArray.prems(2,3,4) False _ oom] by blast
  qed
qed (use status_item error_item integer_item bulk_item nil_item oom in auto)

text \<open>The objects of a tree stand for it.\<close>

lemma layout_represents:
  "a = length h \<Longrightarrow> represents (h @ layout a t @ x) a t"
  "a = length h \<Longrightarrow> list_all2 (represents (h @ layouts a ts @ x)) (child_addrs a ts) ts"
proof (induction a t and a ts arbitrary: h x and h x rule: layout_layouts.induct)
  case (6 a ts)
  let ?arr = "array_obj (length ts) (map Some (child_addrs (Suc a) ts))"
  have "list_all2 (represents ((h @ [?arr]) @ layouts (Suc a) ts @ x)) (child_addrs (Suc a) ts) ts"
    by (rule 6(1)) (simp add: 6(2))
  then have "list_all2 (\<lambda>e t. case e of None \<Rightarrow> False | Some b \<Rightarrow> represents (h @ ?arr # layouts (Suc a) ts @ x) b t)
      (map Some (child_addrs (Suc a) ts)) ts"
    by (simp add: list_all2_map1)
  then show ?case unfolding 6(2) by (simp add: array_obj_fields)
next
  case (8 a t ts)
  have "represents (h @ layout a t @ layouts (a + nodes t) ts @ x) a t" using 8(1) [OF 8(3)] by simp
  moreover have "list_all2 (represents ((h @ layout a t) @ layouts (a + nodes t) ts @ x)) (child_addrs (a + nodes t) ts) ts"
    by (rule 8(2)) (simp add: 8(3))
  ultimately show ?case by simp
qed (simp_all add: nth_append)

section \<open>Taking replies out\<close>

definition between :: "reader \<Rightarrow> bool" where
  "between r \<longleftrightarrow> reader_wf r \<and> rd_ridx r = - 1"

lemma start_ready: "between r \<Longrightarrow> ready (start_stack r) \<and> rd_ridx (start_stack r) = 0"
  using start_wf [of r]
  by (auto simp: between_def ready_def parent_ready_def start_stack_def cur_task_def task_at_def first_task_def
      reader_wf_def stack_wf_def)

lemma GetReply_tree:
  assumes r: "between r" and w: "window r = encode t @ rest" and t: "fits t" "nest t \<le> 8" and oom: "\<forall>n. \<not> oom n"
  shows "\<exists>s. redisReaderGetReply oom r = Some (REDIS_OK, Some (length (rd_store r)), s) \<and> between s \<and> window s = rest
    \<and> rd_store s = rd_store r @ layout (length (rd_store r)) t"
proof -
  let ?q = "start_stack r" and ?a = "length (rd_store r)"
  have q: "ready ?q" "rd_ridx ?q = 0" using start_ready [OF r] by auto
  have st: "rd_store ?q = rd_store r" "window ?q = window r"
    using same_buffer_window [OF start_same_buffer, of r] by (simp_all add: start_stack_def)
  have "reads_item oom ?q t rest"
    by (rule reads_tree [OF oom t(1) q(1)]) (use st w q t(2) in auto)
  then obtain u where u: "process_items oom ?q = after oom u" "reader_wf u" "rd_ridx u = 0" "window u = rest"
    "rd_store u = rd_store r @ layout ?a t" "rd_reply u = Some ?a"
    using q(2) st by (auto simp: reads_item_def item_done_def place_def)
  let ?v = "u\<lparr>rd_ridx := - 1\<rparr>"
  have "moveToNextTask u = Some ?v" using u(3) by (subst moveToNextTask.simps) simp
  moreover have "process_items oom ?v = Some ?v" by (subst process_items.simps) simp
  ultimately have items: "process_items oom ?q = Some ?v" using u(1) by (simp add: after_def)
  have v: "buf_wf ?v" "rd_err ?v = 0" "window ?v = rest"
    using u(2,4) same_buffer_wf [of u ?v] same_buffer_window [of u ?v] by (auto simp: reader_wf_def same_buffer_def)
  then obtain s where s: "compact_buffer ?v = Some s" "buf_wf s" "window s = rest" "same_control ?v s"
    using compact_buffer_keeps by metis
  have err: "rd_err r = 0" using r by (simp add: between_def reader_wf_def)
  have "0 < length (window r)" using w encode_nonempty [of t] by simp
  moreover have "length (window r) = rd_len r - rd_pos r" using window_bound [of r] r by (simp add: between_def)
  ultimately have "rd_len r \<noteq> 0" by linarith
  then have "redisReaderGetReply oom r = Some (REDIS_OK, Some ?a, s\<lparr>rd_reply := None\<rparr>)"
    using err items s v(2) u(6) by (simp add: redisReaderGetReply_def same_control_def)
  moreover have "between (s\<lparr>rd_reply := None\<rparr>)"
  proof -
    have "buf_wf (s\<lparr>rd_reply := None\<rparr>)" by (rule same_buffer_wf [OF _ s(2)]) (simp add: same_buffer_def)
    moreover have "length (rd_stack s) = 9" using s(4) u(2) by (simp add: same_control_def reader_wf_def stack_wf_def)
    ultimately show ?thesis using s(4) v(2) by (simp add: between_def reader_wf_def stack_wf_def same_control_def)
  qed
  moreover have "window (s\<lparr>rd_reply := None\<rparr>) = rest" using s(3) same_buffer_window [of s "s\<lparr>rd_reply := None\<rparr>"] by (simp add: same_buffer_def)
  moreover have "rd_store s = rd_store r @ layout ?a t" using s(4) u(5) by (simp add: same_control_def)
  ultimately show ?thesis by (intro exI [of _ "s\<lparr>rd_reply := None\<rparr>"]) simp
qed

lemma GetReply_empty:
  assumes r: "between r" and w: "window r = []"
  shows "\<exists>s. redisReaderGetReply oom r = Some (REDIS_OK, None, s) \<and> rd_store s = rd_store r"
proof (cases "rd_len r = 0")
  case True
  then show ?thesis using r by (simp add: redisReaderGetReply_def between_def reader_wf_def)
next
  case False
  let ?q = "start_stack r"
  have q: "reader_wf ?q" "rd_ridx ?q = 0" using start_ready [OF r] by (auto simp: ready_def)
  have st: "rd_store ?q = rd_store r" "window ?q = window r"
    using same_buffer_window [OF start_same_buffer, of r] by (simp_all add: start_stack_def)
  have items: "process_items oom ?q = Some ?q" using loop_on_empty [of ?q oom] q st(2) w by simp
  obtain s where s: "compact_buffer ?q = Some s" "same_control ?q s"
    using compact_buffer_keeps q(1) unfolding reader_wf_def by blast
  then have "redisReaderGetReply oom r = Some (REDIS_OK, None, s)"
    using r False items q by (simp add: redisReaderGetReply_def between_def reader_wf_def same_control_def)
  then show ?thesis using s(2) st(1) by (simp add: same_control_def)
qed

lemma drain_trees:
  assumes oom: "\<forall>n. \<not> oom n"
  shows "between r \<Longrightarrow> window r = concat (map encode ts) \<Longrightarrow> \<forall>t \<in> set ts. fits t \<and> nest t \<le> 8 \<Longrightarrow>
    \<exists>s. drain oom r = Some (REDIS_OK, child_addrs (length (rd_store r)) ts, s)
      \<and> rd_store s = rd_store r @ layouts (length (rd_store r)) ts"
proof (induction ts arbitrary: r)
  case Nil
  then obtain s where "redisReaderGetReply oom r = Some (REDIS_OK, None, s)" "rd_store s = rd_store r"
    using GetReply_empty by fastforce
  then show ?case by (subst drain.simps) simp
next
  case (Cons t ts)
  obtain s where s: "redisReaderGetReply oom r = Some (REDIS_OK, Some (length (rd_store r)), s)" "between s"
    "window s = concat (map encode ts)" "rd_store s = rd_store r @ layout (length (rd_store r)) t"
    using GetReply_tree [OF Cons.prems(1) _ _ _ oom, of t] Cons.prems(2,3) by auto
  have "length (window s) < length (window r)"
    using GetReply_progress [OF _ s(1)] Cons.prems(1) by (simp add: between_def)
  moreover obtain u where "drain oom s = Some (REDIS_OK, child_addrs (length (rd_store s)) ts, u)"
    "rd_store u = rd_store s @ layouts (length (rd_store s)) ts"
    using Cons.IH [OF s(2,3)] Cons.prems(3) by auto
  ultimately show ?case using s(1,4) by (subst drain.simps) simp
qed

lemma feed_between:
  assumes "allocator_ok a" "\<forall>n. a n \<noteq> None" "between r" "reply_wf r" "rd_len r = 0" "bs \<noteq> []" "length bs < 2 ^ 31"
  shows "\<exists>r'. redisReaderFeed a r bs = Some (REDIS_OK, r') \<and> between r' \<and> window r' = bs \<and> rd_store r' = rd_store r"
proof -
  have wf: "reader_wf r" "rd_len r + length bs < 2 ^ 31" using assms(3,5,7) by (auto simp: between_def)
  obtain r' where r': "redisReaderFeed a r bs = Some (REDIS_OK, r')" "ext bs r r'"
    using feed_spec [OF assms(1,2) wf(1) assms(6) wf(2)] by blast
  have "window r = []" using window_bound [OF wf(1)] assms(5) by simp
  then show ?thesis using r' assms(3) by (auto simp: between_def ext_def same_control_def)
qed

section \<open>Properties\<close>

text \<open>C1. What a server sends is what the client gets: when a stream of encoded replies of any shape
  (status lines, errors, integers over the whole 64-bit range, binary-safe strings, nil, arrays up
  to eight deep) arrives in pieces of any size, the replies taken out are those that were sent, in
  order, each represented by its tree of reply objects.\<close>

theorem replies_decoded:
  assumes "allocator_ok a" "\<forall>n. a n \<noteq> None" "\<forall>n. \<not> oom n" "redisReaderCreate a = Some r"
    "concat cs = concat (map encode ts)" "\<forall>c \<in> set cs. c \<noteq> []" "cs \<noteq> []" "length (concat cs) < 2 ^ 31"
    "\<forall>t \<in> set ts. fits t \<and> nest t \<le> 8"
  shows "\<exists>as s. session oom a r cs = Some (REDIS_OK, as, s) \<and> list_all2 (represents (rd_store s)) as ts"
proof -
  have r: "reader_wf r" "reply_wf r" "rd_len r = 0" "rd_ridx r = - 1" "rd_store r = []"
    using created_wf [OF assms(1,4)] assms(4) by (auto simp: redisReaderCreate_def split: option.splits)
  have ne: "concat cs \<noteq> []" using assms(6,7) by (cases cs) auto
  obtain r' where r': "redisReaderFeed a r (concat cs) = Some (REDIS_OK, r')" "between r'" "window r' = concat cs" "rd_store r' = []"
    using feed_between [OF assms(1,2) _ r(2,3) ne assms(8)] r by (auto simp: between_def)
  obtain s where s: "drain oom r' = Some (REDIS_OK, child_addrs 0 ts, s)" "rd_store s = layouts 0 ts"
    using drain_trees [OF assms(3) r'(2), of ts] r'(3,4) assms(5,9) by auto
  have "rd_len r + length (concat cs) < 2 ^ 31" using r(3) assms(8) by simp
  then have "observe (session oom a r cs) = observe (session oom a r [concat cs])"
    by (intro session_chunks assms r)
  also have "session oom a r [concat cs] = Some (REDIS_OK, child_addrs 0 ts, s)" using r'(1) s(1) by simp
  finally obtain s' where "session oom a r cs = Some (REDIS_OK, child_addrs 0 ts, s')" "rd_store s' = rd_store s"
    by (auto simp: observe_def)
  then show ?thesis using layout_represents(2) [of 0 "[]" ts "[]"] s(2) by auto
qed

theorem replies_decoded_witness:
  "\<exists>r as s. redisReaderCreate nul_alloc = Some r
     \<and> session (\<lambda>n. False) nul_alloc r [''*2'', [CR], [LF] @ '':-7'' @ crlf @ ''$1'' @ crlf, [CR] @ crlf @ ''+OK'' @ crlf]
        = Some (REDIS_OK, as, s)
     \<and> list_all2 (represents (rd_store s)) as [RArray [RInteger (- 7), RBulk [CR]], RStatus ''OK'']"
proof -
  let ?ts = "[RArray [RInteger (- 7), RBulk [CR]], RStatus ''OK'']"
  let ?cs = "[''*2'', [CR], [LF] @ '':-7'' @ crlf @ ''$1'' @ crlf, [CR] @ crlf @ ''+OK'' @ crlf]"
  obtain b where b: "sdsempty nul_alloc = Some b" using sdsempty_succeeds [of nul_alloc] by auto
  then obtain r where r: "redisReaderCreate nul_alloc = Some r" by (simp add: redisReaderCreate_def)
  have digits: "dec_of_nat 2 = ''2''" "dec_of_nat 7 = ''7''" "dec_of_nat 1 = ''1''"
    by (simp_all add: dec_of_nat.simps digit_char_def char_of_def bit_Suc_0_iff)
  have eq: "concat ?cs = concat (map encode ?ts)" by (simp add: digits digits(1) [unfolded numeral_2_eq_2] digits(3) [simplified] bulk_def dec_of_int_def)
  have fit: "\<forall>t \<in> set ?ts. fits t \<and> nest t \<le> 8" by simp
  show ?thesis
    using replies_decoded [OF nul_alloc_ok(1,2) _ r eq _ _ _ fit, of "\<lambda>n. False"] r by (simp del: session.simps)
qed

end
