(* ===== verification/RedisContext.thy ===== *)
theory RedisContext
  imports RedisNet RespDecode
begin

unbundle bit_operations_syntax

text \<open>
  The connection context of \<^verbatim>\<open>hiredis.c\<close>: creating and releasing it, the output buffer and the two
  functions that move bytes between it, the socket and the reply parser, and the commands built
  on them. The library functions a program runs with are collected in a record. \<open>None\<close> is a run
  without a defined result (a null pointer is followed) or, for the loops of \<^verbatim>\<open>redisGetReply\<close>, one
  that does not end.
\<close>

section \<open>The surroundings of the program\<close>

record 'd env =
  e_os :: os
  e_strerror :: "int \<Rightarrow> byte list"
  e_gaierror :: "int \<Rightarrow> byte list"
  e_mem :: "nat \<Rightarrow> bool"
  e_alloc :: allocator
  e_static :: "byte list"
  e_printf :: "byte list \<Rightarrow> 'd va_arg \<Rightarrow> byte list"
  e_oom :: "nat \<Rightarrow> bool"

definition sizeof_redisContext :: nat where "sizeof_redisContext = 160"
definition REDIS_KEEPALIVE_INTERVAL :: int where "REDIS_KEEPALIVE_INTERVAL = 15"

section \<open>Creating and releasing a context\<close>

text \<open>\<open>None\<close> is the null pointer here.\<close>

definition redisContextInit :: "'d env \<Rightarrow> redis_context option" where
  "redisContextInit e =
     (if \<not> e_mem e sizeof_redisContext then None
      else Some \<lparr>rc_err = 0, rc_errstr = '''', rc_fd = 0, rc_flags = 0, rc_obuf = sdsempty (e_alloc e),
                 rc_reader = redisReaderCreate (e_alloc e)\<rparr>)"

definition redisFree :: "'d env \<Rightarrow> redis_context \<Rightarrow> world \<Rightarrow> world" where
  "redisFree e c w = (if rc_fd c > 0 then snd (syscall (e_os e) (Close (rc_fd c)) w) else w)"

definition redisFreeKeepFd :: "'d env \<Rightarrow> redis_context \<Rightarrow> world \<Rightarrow> int \<times> world" where
  "redisFreeKeepFd e c w = (rc_fd c, redisFree e (c\<lparr>rc_fd := - 1\<rparr>) w)"

definition with_context ::
  "'d env \<Rightarrow> (redis_context \<Rightarrow> int \<times> redis_context \<times> world) \<Rightarrow> (int \<Rightarrow> int)
     \<Rightarrow> (redis_context \<times> world) option" where
  "with_context e connect flags =
     map_option (\<lambda>c. snd (connect (c\<lparr>rc_flags := flags (rc_flags c)\<rparr>))) (redisContextInit e)"

definition redisConnect :: "'d env \<Rightarrow> byte list \<Rightarrow> int \<Rightarrow> world \<Rightarrow> (redis_context \<times> world) option" where
  "redisConnect e ip port w =
     with_context e (\<lambda>c. redisContextConnectTcp (e_os e) (e_strerror e) (e_gaierror e) c ip port None w)
       (\<lambda>f. f OR REDIS_BLOCK)"

definition redisConnectWithTimeout ::
  "'d env \<Rightarrow> byte list \<Rightarrow> int \<Rightarrow> int \<times> int \<Rightarrow> world \<Rightarrow> (redis_context \<times> world) option" where
  "redisConnectWithTimeout e ip port tv w =
     with_context e (\<lambda>c. redisContextConnectTcp (e_os e) (e_strerror e) (e_gaierror e) c ip port (Some tv) w)
       (\<lambda>f. f OR REDIS_BLOCK)"

definition redisConnectNonBlock :: "'d env \<Rightarrow> byte list \<Rightarrow> int \<Rightarrow> world \<Rightarrow> (redis_context \<times> world) option" where
  "redisConnectNonBlock e ip port w =
     with_context e (\<lambda>c. redisContextConnectTcp (e_os e) (e_strerror e) (e_gaierror e) c ip port None w)
       (\<lambda>f. f AND NOT REDIS_BLOCK)"

text \<open>This one follows the pointer without a test: \<open>None\<close> is an undefined run.\<close>

definition redisConnectBindNonBlock ::
  "'d env \<Rightarrow> byte list \<Rightarrow> int \<Rightarrow> byte list option \<Rightarrow> world \<Rightarrow> (redis_context \<times> world) option" where
  "redisConnectBindNonBlock e ip port source_addr w =
     (case redisContextInit e of
        None \<Rightarrow> None
      | Some c \<Rightarrow>
          Some (snd (redisContextConnectBindTcp (e_os e) (e_strerror e) (e_gaierror e)
            (c\<lparr>rc_flags := rc_flags c AND NOT REDIS_BLOCK\<rparr>) ip port None source_addr w)))"

definition redisConnectUnix :: "'d env \<Rightarrow> byte list \<Rightarrow> world \<Rightarrow> (redis_context \<times> world) option" where
  "redisConnectUnix e path w =
     with_context e (\<lambda>c. redisContextConnectUnix (e_os e) (e_strerror e) c path None w) (\<lambda>f. f OR REDIS_BLOCK)"

definition redisConnectUnixWithTimeout ::
  "'d env \<Rightarrow> byte list \<Rightarrow> int \<times> int \<Rightarrow> world \<Rightarrow> (redis_context \<times> world) option" where
  "redisConnectUnixWithTimeout e path tv w =
     with_context e (\<lambda>c. redisContextConnectUnix (e_os e) (e_strerror e) c path (Some tv) w) (\<lambda>f. f OR REDIS_BLOCK)"

definition redisConnectUnixNonBlock :: "'d env \<Rightarrow> byte list \<Rightarrow> world \<Rightarrow> (redis_context \<times> world) option" where
  "redisConnectUnixNonBlock e path w =
     with_context e (\<lambda>c. redisContextConnectUnix (e_os e) (e_strerror e) c path None w) (\<lambda>f. f AND NOT REDIS_BLOCK)"

definition redisConnectFd :: "'d env \<Rightarrow> int \<Rightarrow> redis_context option" where
  "redisConnectFd e fd =
     map_option (\<lambda>c. c\<lparr>rc_fd := fd, rc_flags := rc_flags c OR (REDIS_BLOCK OR REDIS_CONNECTED)\<rparr>) (redisContextInit e)"

definition redisSetTimeout :: "'d env \<Rightarrow> redis_context \<Rightarrow> int \<times> int \<Rightarrow> world \<Rightarrow> int \<times> redis_context \<times> world" where
  "redisSetTimeout e c tv w =
     (if rc_flags c AND REDIS_BLOCK \<noteq> 0 then redisContextSetTimeout (e_os e) (e_strerror e) c tv w
      else (REDIS_ERR, c, w))"

definition redisEnableKeepAlive :: "'d env \<Rightarrow> redis_context \<Rightarrow> world \<Rightarrow> int \<times> redis_context \<times> world" where
  "redisEnableKeepAlive e c w =
     (let (st, c, w) = redisKeepAlive (e_os e) (e_strerror e) c REDIS_KEEPALIVE_INTERVAL w in
      if st \<noteq> REDIS_OK then (REDIS_ERR, c, w) else (REDIS_OK, c, w))"

section \<open>Moving bytes\<close>

definition try_again :: "redis_context \<Rightarrow> world \<Rightarrow> bool" where
  "try_again c w \<longleftrightarrow> w_errno w = EAGAIN \<and> rc_flags c AND REDIS_BLOCK = 0 \<or> w_errno w = EINTR"

definition redisBufferRead :: "'d env \<Rightarrow> redis_context \<Rightarrow> world \<Rightarrow> (int \<times> redis_context \<times> world) option" where
  "redisBufferRead e c w =
     (if rc_err c \<noteq> 0 then Some (REDIS_ERR, c, w)
      else
        let (r, w) = syscall (e_os e) (Read (rc_fd c) (1024 * 16)) w in
        if s_ret r = - 1 then
          (if try_again c w then Some (REDIS_OK, c, w)
           else Some (REDIS_ERR, redisSetErrorErrno (e_strerror e) c w, w))
        else if s_ret r = 0 then
          Some (REDIS_ERR, redisSetError c REDIS_ERR_EOF ''Server closed the connection'', w)
        else
          case rc_reader c of
            None \<Rightarrow> None
          | Some rd \<Rightarrow>
              (case redisReaderFeed (e_alloc e) rd (take (nat (s_ret r)) (s_data r)) of
                 None \<Rightarrow> None
               | Some (st, rd') \<Rightarrow>
                   let c = c\<lparr>rc_reader := Some rd'\<rparr> in
                   if st \<noteq> REDIS_OK then Some (REDIS_ERR, redisSetError c (rd_err rd') (rd_errstr rd'), w)
                   else Some (REDIS_OK, c, w)))"

text \<open>The second component is what is stored through \<^verbatim>\<open>done\<close>, which all callers give.\<close>

definition redisBufferWrite :: "'d env \<Rightarrow> redis_context \<Rightarrow> world \<Rightarrow> (int \<times> bool \<times> redis_context \<times> world) option" where
  "redisBufferWrite e c w =
     (if rc_err c \<noteq> 0 then Some (REDIS_ERR, False, c, w)
      else case rc_obuf c of
        None \<Rightarrow> None
      | Some ob \<Rightarrow>
          (if sdslen ob > 0 then
             let (r, w) = syscall (e_os e) (Write (rc_fd c) (sds_str ob)) w; n = s_ret r in
             if n = - 1 then
               (if try_again c w then Some (REDIS_OK, sdslen ob = 0, c, w)
                else Some (REDIS_ERR, False, redisSetErrorErrno (e_strerror e) c w, w))
             else if n > 0 then
               (if n = c_int (int (sdslen ob)) then
                  (case sdsempty (e_alloc e) of
                     None \<Rightarrow> None
                   | Some ob' \<Rightarrow> Some (REDIS_OK, sdslen ob' = 0, c\<lparr>rc_obuf := Some ob'\<rparr>, w))
                else
                  let ob' = sdsrange ob n (- 1) in
                  Some (REDIS_OK, sdslen ob' = 0, c\<lparr>rc_obuf := Some ob'\<rparr>, w))
             else Some (REDIS_OK, sdslen ob = 0, c, w)
           else Some (REDIS_OK, sdslen ob = 0, c, w)))"

definition redisGetReplyFromReader :: "'d env \<Rightarrow> redis_context \<Rightarrow> (int \<times> nat option \<times> redis_context) option" where
  "redisGetReplyFromReader e c =
     (case rc_reader c of
        None \<Rightarrow> None
      | Some rd \<Rightarrow>
          (case redisReaderGetReply (e_oom e) rd of
             None \<Rightarrow> None
           | Some (st, reply, rd') \<Rightarrow>
               let c = c\<lparr>rc_reader := Some rd'\<rparr> in
               if st = REDIS_ERR then Some (REDIS_ERR, reply, redisSetError c (rd_err rd') (rd_errstr rd'))
               else Some (REDIS_OK, reply, c)))"

text \<open>\<^verbatim>\<open>do { redisBufferWrite } while (!wdone)\<close>\<close>

partial_function (option) write_until_done ::
  "'d env \<Rightarrow> redis_context \<Rightarrow> world \<Rightarrow> (int \<times> redis_context \<times> world) option" where
  "write_until_done e c w =
     Option.bind (redisBufferWrite e c w) (\<lambda>(st, wdone, c, w).
       if st = REDIS_ERR then Some (REDIS_ERR, c, w)
       else if wdone then Some (REDIS_OK, c, w)
       else write_until_done e c w)"

text \<open>\<^verbatim>\<open>do { redisBufferRead; redisGetReplyFromReader } while (aux == NULL)\<close>\<close>

partial_function (option) read_until_reply ::
  "'d env \<Rightarrow> redis_context \<Rightarrow> world \<Rightarrow> (int \<times> nat option \<times> redis_context \<times> world) option" where
  "read_until_reply e c w =
     Option.bind (redisBufferRead e c w) (\<lambda>(st, c, w).
       if st = REDIS_ERR then Some (REDIS_ERR, None, c, w)
       else
         Option.bind (redisGetReplyFromReader e c) (\<lambda>(st, aux, c).
           if st = REDIS_ERR then Some (REDIS_ERR, None, c, w)
           else if aux \<noteq> None then Some (REDIS_OK, aux, c, w)
           else read_until_reply e c w))"

definition redisGetReply :: "'d env \<Rightarrow> redis_context \<Rightarrow> world \<Rightarrow> (int \<times> nat option \<times> redis_context \<times> world) option" where
  "redisGetReply e c w =
     (case redisGetReplyFromReader e c of
        None \<Rightarrow> None
      | Some (st, aux, c) \<Rightarrow>
          (if st = REDIS_ERR then Some (REDIS_ERR, None, c, w)
           else if aux = None \<and> rc_flags c AND REDIS_BLOCK \<noteq> 0 then
             (case write_until_done e c w of
                None \<Rightarrow> None
              | Some (st, c, w) \<Rightarrow>
                  if st = REDIS_ERR then Some (REDIS_ERR, None, c, w) else read_until_reply e c w)
           else Some (REDIS_OK, aux, c, w)))"

section \<open>Commands\<close>

definition redisAppendBytes :: "'d env \<Rightarrow> redis_context \<Rightarrow> byte list \<Rightarrow> nat \<Rightarrow> (int \<times> redis_context) option" where
  "redisAppendBytes e c cmd len =
     (case rc_obuf c of
        None \<Rightarrow> None
      | Some ob \<Rightarrow>
          (case sdscatlen (e_alloc e) ob cmd len of
             None \<Rightarrow> Some (REDIS_ERR, redisSetError c REDIS_ERR_OOM ''Out of memory'')
           | Some newbuf \<Rightarrow> Some (REDIS_OK, c\<lparr>rc_obuf := Some newbuf\<rparr>)))"

definition redisAppendFormattedCommand ::
  "'d env \<Rightarrow> redis_context \<Rightarrow> byte list \<Rightarrow> nat \<Rightarrow> (int \<times> redis_context) option" where
  "redisAppendFormattedCommand e c cmd len =
     (case redisAppendBytes e c cmd len of
        None \<Rightarrow> None
      | Some (st, c) \<Rightarrow> if st \<noteq> REDIS_OK then Some (REDIS_ERR, c) else Some (REDIS_OK, c))"

text \<open>The common end of the two functions that format and append.\<close>

definition append_formatted :: "'d env \<Rightarrow> redis_context \<Rightarrow> fmt_result \<Rightarrow> (int \<times> redis_context) option" where
  "append_formatted e c f =
     (case f of
        Undefined \<Rightarrow> None
      | Failed \<Rightarrow> Some (REDIS_ERR, redisSetError c REDIS_ERR_OOM ''Out of memory'')
      | Returns len cmd \<Rightarrow>
          (case redisAppendBytes e c cmd (nat len) of
             None \<Rightarrow> None
           | Some (st, c) \<Rightarrow> if st \<noteq> REDIS_OK then Some (REDIS_ERR, c) else Some (REDIS_OK, c)))"

definition redisvAppendCommand ::
  "'d env \<Rightarrow> redis_context \<Rightarrow> byte list \<Rightarrow> 'd va_arg list \<Rightarrow> (int \<times> redis_context) option" where
  "redisvAppendCommand e c format ap =
     append_formatted e c (redisvFormatCommand (e_mem e) (e_alloc e) (e_static e) (e_printf e) True format ap)"

definition redisAppendCommand ::
  "'d env \<Rightarrow> redis_context \<Rightarrow> byte list \<Rightarrow> 'd va_arg list \<Rightarrow> (int \<times> redis_context) option" where
  "redisAppendCommand e c format ap = redisvAppendCommand e c format ap"

definition redisAppendCommandArgv ::
  "'d env \<Rightarrow> redis_context \<Rightarrow> byte list list \<Rightarrow> nat list option \<Rightarrow> (int \<times> redis_context) option" where
  "redisAppendCommandArgv e c argv argvlen =
     append_formatted e c (redisFormatCommandArgv (e_mem e) argv argvlen)"

definition redisBlockForReply :: "'d env \<Rightarrow> redis_context \<Rightarrow> world \<Rightarrow> (nat option \<times> redis_context \<times> world) option" where
  "redisBlockForReply e c w =
     (if rc_flags c AND REDIS_BLOCK \<noteq> 0 then
        (case redisGetReply e c w of
           None \<Rightarrow> None
         | Some (st, reply, c, w) \<Rightarrow> if st \<noteq> REDIS_OK then Some (None, c, w) else Some (reply, c, w))
      else Some (None, c, w))"

definition redisvCommand ::
  "'d env \<Rightarrow> redis_context \<Rightarrow> byte list \<Rightarrow> 'd va_arg list \<Rightarrow> world \<Rightarrow> (nat option \<times> redis_context \<times> world) option" where
  "redisvCommand e c format ap w =
     (case redisvAppendCommand e c format ap of
        None \<Rightarrow> None
      | Some (st, c) \<Rightarrow> if st \<noteq> REDIS_OK then Some (None, c, w) else redisBlockForReply e c w)"

definition redisCommand ::
  "'d env \<Rightarrow> redis_context \<Rightarrow> byte list \<Rightarrow> 'd va_arg list \<Rightarrow> world \<Rightarrow> (nat option \<times> redis_context \<times> world) option" where
  "redisCommand e c format ap w = redisvCommand e c format ap w"

definition redisCommandArgv ::
  "'d env \<Rightarrow> redis_context \<Rightarrow> byte list list \<Rightarrow> nat list option \<Rightarrow> world \<Rightarrow> (nat option \<times> redis_context \<times> world) option" where
  "redisCommandArgv e c argv argvlen w =
     (case redisAppendCommandArgv e c argv argvlen of
        None \<Rightarrow> None
      | Some (st, c) \<Rightarrow> if st \<noteq> REDIS_OK then Some (None, c, w) else redisBlockForReply e c w)"

section \<open>The output stream\<close>

text \<open>The bytes a trace has written to a descriptor, in order, and the reads it has made.\<close>

fun written :: "int \<Rightarrow> trace \<Rightarrow> byte list" where
  "written fd [] = []"
| "written fd ((Write fd' bs, n) # t) = written fd t @ (if fd' = fd then take (nat n) bs else [])"
| "written fd (_ # t) = written fd t"

fun reads :: "int \<Rightarrow> trace \<Rightarrow> nat" where
  "reads fd [] = 0"
| "reads fd ((Read fd' k, n) # t) = reads fd t + (if fd' = fd then 1 else 0)"
| "reads fd (_ # t) = reads fd t"

text \<open>\<^verbatim>\<open>write\<close> reports at most the number of bytes it was given.\<close>

definition write_bounded :: "os \<Rightarrow> bool" where
  "write_bounded os \<longleftrightarrow> (\<forall>t fd bs. s_ret (os t (Write fd bs)) \<le> int (length bs))"

definition env_ok :: "'d env \<Rightarrow> bool" where
  "env_ok e \<longleftrightarrow> allocator_ok (e_alloc e) \<and> (\<forall>n. e_alloc e n \<noteq> None) \<and> write_bounded (e_os e)"

text \<open>A usable output buffer with contents \<open>bs\<close>.\<close>

definition pending :: "redis_context \<Rightarrow> byte list \<Rightarrow> bool" where
  "pending c bs \<longleftrightarrow> (\<exists>ob. rc_obuf c = Some ob \<and> sds_ok ob \<and> sh_len ob + sh_free ob < 2 ^ 32
     \<and> sds_str ob = bs \<and> length bs < 2 ^ 31)"

lemma pending_len: "rc_obuf c = Some ob \<Longrightarrow> pending c bs \<Longrightarrow> sdslen ob = length bs \<and> sds_str ob = bs"
  using sds_str_length [of ob] by (auto simp: pending_def)

lemma pending_set: "pending c bs \<Longrightarrow> rc_obuf c' = rc_obuf c \<Longrightarrow> pending c' bs"
  by (simp add: pending_def)

lemma redisSetErrorErrno_fields [simp]:
  "rc_obuf (redisSetErrorErrno se c w) = rc_obuf c" "rc_fd (redisSetErrorErrno se c w) = rc_fd c"
  "rc_err (redisSetErrorErrno se c w) = REDIS_ERR_IO" "rc_reader (redisSetErrorErrno se c w) = rc_reader c"
  "rc_flags (redisSetErrorErrno se c w) = rc_flags c"
  by (simp_all add: redisSetErrorErrno_def)

text \<open>One call of \<^verbatim>\<open>redisBufferWrite\<close> moves a prefix of the pending bytes to the socket.\<close>

lemma BufferWrite_spec:
  assumes e: "env_ok e" and p: "pending c bs"
  shows "\<exists>st dn c' w' k. redisBufferWrite e c w = Some (st, dn, c', w') \<and> k \<le> length bs \<and> pending c' (drop k bs)
    \<and> written (rc_fd c) (w_trace w') = written (rc_fd c) (w_trace w) @ take k bs
    \<and> reads (rc_fd c) (w_trace w') = reads (rc_fd c) (w_trace w)
    \<and> rc_fd c' = rc_fd c \<and> rc_reader c' = rc_reader c \<and> rc_flags c' = rc_flags c
    \<and> (st = REDIS_OK \<and> rc_err c' = 0 \<and> rc_err c = 0 \<and> dn = (drop k bs = []) \<or> st = REDIS_ERR \<and> rc_err c' \<noteq> 0)
    \<and> (rc_err c = 0 \<and> bs \<noteq> [] \<and> 0 < s_ret (e_os e (w_trace w) (Write (rc_fd c) bs)) \<longrightarrow> st = REDIS_OK \<and> 0 < k)"
proof (cases "rc_err c = 0")
  case False
  then have "redisBufferWrite e c w = Some (REDIS_ERR, False, c, w)" by (simp add: redisBufferWrite_def)
  then show ?thesis using False p by (intro exI [of _ REDIS_ERR] exI [of _ False] exI [of _ c] exI [of _ w] exI [of _ 0]) simp
next
  case noerr: True
  obtain ob where ob: "rc_obuf c = Some ob" "sds_ok ob" "sh_len ob + sh_free ob < 2 ^ 32" "sds_str ob = bs"
    "length bs < 2 ^ 31" using p by (auto simp: pending_def)
  have len: "sdslen ob = length bs" using pending_len [OF ob(1) p] by simp
  show ?thesis
  proof (cases "bs = []")
    case True
    then have "redisBufferWrite e c w = Some (REDIS_OK, True, c, w)" using noerr ob(1) len by (simp add: redisBufferWrite_def)
    then show ?thesis using True p noerr
      by (intro exI [of _ REDIS_OK] exI [of _ True] exI [of _ c] exI [of _ w] exI [of _ 0]) simp
  next
    case False
    obtain r w1 where q: "syscall (e_os e) (Write (rc_fd c) bs) w = (r, w1)" by fastforce
    have r: "r = e_os e (w_trace w) (Write (rc_fd c) bs)" "w_trace w1 = (Write (rc_fd c) bs, s_ret r) # w_trace w"
      using q by (auto simp: syscall_def Let_def)
    have bound: "s_ret r \<le> int (length bs)" using e unfolding r(1) env_ok_def write_bounded_def by blast
    have wr: "written (rc_fd c) (w_trace w1) = written (rc_fd c) (w_trace w) @ take (nat (s_ret r)) bs"
      "reads (rc_fd c) (w_trace w1) = reads (rc_fd c) (w_trace w)" by (simp_all add: r(2))
    have pos: "0 < sdslen ob" using False len by simp
    have body: "redisBufferWrite e c w =
       (if s_ret r = - 1 then
               (if try_again c w1 then Some (REDIS_OK, sdslen ob = 0, c, w1)
                else Some (REDIS_ERR, False, redisSetErrorErrno (e_strerror e) c w1, w1))
             else if s_ret r > 0 then
               (if s_ret r = c_int (int (sdslen ob)) then
                  (case sdsempty (e_alloc e) of
                     None \<Rightarrow> None
                   | Some ob' \<Rightarrow> Some (REDIS_OK, sdslen ob' = 0, c\<lparr>rc_obuf := Some ob'\<rparr>, w1))
                else
                  Some (REDIS_OK, sdslen (sdsrange ob (s_ret r) (- 1)) = 0,
                        c\<lparr>rc_obuf := Some (sdsrange ob (s_ret r) (- 1))\<rparr>, w1))
             else Some (REDIS_OK, sdslen ob = 0, c, w1))"
      using noerr pos by (simp add: redisBufferWrite_def ob(1,4) q Let_def)
    have k: "nat (s_ret r) \<le> length bs" using bound by linarith
    consider (fail) "s_ret r = - 1" | (none) "s_ret r \<noteq> - 1" "s_ret r \<le> 0" | (all) "s_ret r = int (length bs)" "0 < s_ret r"
      | (part) "0 < s_ret r" "s_ret r < int (length bs)"
      using bound by linarith
    then show ?thesis
    proof cases
      case fail
      then show ?thesis using body wr p False noerr r(1) len pending_set [OF p]
        by (cases "try_again c w1")
          (intro exI [of _ REDIS_OK] exI [of _ False] exI [of _ c] exI [of _ w1] exI [of _ 0], simp,
            intro exI [of _ REDIS_ERR] exI [of _ False] exI [of _ "redisSetErrorErrno (e_strerror e) c w1"] exI [of _ w1] exI [of _ 0], simp)
    next
      case none
      then show ?thesis using body wr p False noerr r(1) len
        by (intro exI [of _ REDIS_OK] exI [of _ False] exI [of _ c] exI [of _ w1] exI [of _ 0]) simp
    next
      case all
      obtain ob' where ob': "sdsempty (e_alloc e) = Some ob'" using sdsempty_succeeds e unfolding env_ok_def by blast
      have e': "sds_ok ob' \<and> sh_len ob' = 0 \<and> sh_free ob' = 0" using sdsempty_free [OF _ ob'] e by (simp add: env_ok_def)
      then have "pending (c\<lparr>rc_obuf := Some ob'\<rparr>) []" by (simp add: pending_def sds_str_def)
      moreover have "c_int (int (sdslen ob)) = int (length bs)" using ob(5) len by (simp add: c_int_id)
      ultimately show ?thesis using body all ob' wr noerr e' r(1) False
        by (intro exI [of _ REDIS_OK] exI [of _ True] exI [of _ "c\<lparr>rc_obuf := Some ob'\<rparr>"] exI [of _ w1] exI [of _ "length bs"])
          (simp add: sdslen_def)
    next
      case part
      define n where "n = nat (s_ret r)"
      have n: "s_ret r = int n" "0 < n" "n < length bs" using part by (auto simp: n_def)
      let ?ob = "sdsrange ob (int n) (- 1)"
      have ob': "sds_ok ?ob" "sds_str ?ob = drop n bs" "sh_len ?ob = length bs - n" "sh_len ?ob + sh_free ?ob < 2 ^ 32"
        using sdsrange_drop [OF ob(2,3), of n] n ob(3,4,5) len by (auto simp: sdslen_def)
      have "pending (c\<lparr>rc_obuf := Some ?ob\<rparr>) (drop n bs)" using ob' ob(5) by (simp add: pending_def)
      moreover have "c_int (int (sdslen ob)) \<noteq> int n" using ob(5) len n by (simp add: c_int_id)
      ultimately show ?thesis using body n wr noerr ob'(3) r(1) False
        by (intro exI [of _ REDIS_OK] exI [of _ False] exI [of _ "c\<lparr>rc_obuf := Some ?ob\<rparr>"] exI [of _ w1] exI [of _ n])
          (simp add: sdslen_def)
    qed
  qed
qed

text \<open>Appending to the output buffer.\<close>

lemma AppendBytes_spec:
  assumes e: "env_ok e" and p: "pending c bs" and n: "n \<le> length cmd" "length bs + n < 2 ^ 31"
  shows "\<exists>c'. redisAppendBytes e c cmd n = Some (REDIS_OK, c') \<and> pending c' (bs @ take n cmd)
    \<and> rc_fd c' = rc_fd c \<and> rc_err c' = rc_err c \<and> rc_reader c' = rc_reader c \<and> rc_flags c' = rc_flags c"
proof -
  obtain ob where ob: "rc_obuf c = Some ob" "sds_ok ob" "sh_len ob + sh_free ob < 2 ^ 32" "sds_str ob = bs"
    using p by (auto simp: pending_def)
  have len: "sh_len ob = length bs" using pending_len [OF ob(1) p] by (simp add: sdslen_def)
  have a: "allocator_ok (e_alloc e)" "\<forall>n. e_alloc e n \<noteq> None" using e by (auto simp: env_ok_def)
  have fits: "sds_fits ob n" using n(2) len by (simp add: sds_fits_def SDS_MAX_PREALLOC_def)
  obtain s where s: "sdscatlen (e_alloc e) ob cmd n = Some s"
    using sdscatlen_succeeds [of "e_alloc e" ob cmd n] a(2) by auto
  have "sds_ok s \<and> sds_str s = bs @ take n cmd" "sh_len s + sh_free s < 2 ^ 32"
    using sdscatlen_Some [OF a(1) ob(2) fits n(1) s] sdscatlen_total [OF a(1) ob(2) fits n(1) s ob(3)] ob(4) by auto
  then have "pending (c\<lparr>rc_obuf := Some s\<rparr>) (bs @ take n cmd)" using n by (simp add: pending_def)
  then show ?thesis using ob(1) s by (simp add: redisAppendBytes_def)
qed

text \<open>A program's use of the output buffer: commands are appended, and now and then it is written.\<close>

datatype out_op = Append "byte list" | Flush

fun run_out :: "'d env \<Rightarrow> out_op list \<Rightarrow> redis_context \<Rightarrow> world \<Rightarrow> (redis_context \<times> world) option" where
  "run_out e [] c w = Some (c, w)"
| "run_out e (Append bs # ops) c w =
     (case redisAppendFormattedCommand e c bs (length bs) of
        None \<Rightarrow> None
      | Some (st, c) \<Rightarrow> run_out e ops c w)"
| "run_out e (Flush # ops) c w =
     (case redisBufferWrite e c w of
        None \<Rightarrow> None
      | Some (st, dn, c, w) \<Rightarrow> run_out e ops c w)"

fun appended :: "out_op list \<Rightarrow> byte list" where
  "appended [] = []"
| "appended (Append bs # ops) = bs @ appended ops"
| "appended (Flush # ops) = appended ops"

lemma run_out_spec:
  assumes e: "env_ok e"
  shows "pending c bs \<Longrightarrow> length bs + length (appended ops) < 2 ^ 31 \<Longrightarrow>
    \<exists>c' w' rest. run_out e ops c w = Some (c', w') \<and> pending c' rest
      \<and> written (rc_fd c) (w_trace w') @ rest = written (rc_fd c) (w_trace w) @ bs @ appended ops"
proof (induction ops arbitrary: c w bs)
  case Nil
  then show ?case by auto
next
  case (Cons op ops)
  show ?case
  proof (cases op)
    case (Append cmd)
    obtain c1 where c1: "redisAppendBytes e c cmd (length cmd) = Some (REDIS_OK, c1)" "pending c1 (bs @ cmd)"
      "rc_fd c1 = rc_fd c"
      using AppendBytes_spec [OF e Cons.prems(1), of "length cmd" cmd] Cons.prems(2) Append by auto
    then have "redisAppendFormattedCommand e c cmd (length cmd) = Some (REDIS_OK, c1)"
      by (simp add: redisAppendFormattedCommand_def)
    then show ?thesis
      using Cons.IH [OF c1(2), of w] Cons.prems(2) Append c1(3) by simp
  next
    case Flush
    obtain st dn c1 w1 k where f: "redisBufferWrite e c w = Some (st, dn, c1, w1)" "k \<le> length bs"
      "pending c1 (drop k bs)" "written (rc_fd c) (w_trace w1) = written (rc_fd c) (w_trace w) @ take k bs"
      "rc_fd c1 = rc_fd c"
      using BufferWrite_spec [OF e Cons.prems(1), of w] by blast
    have tk: "take k bs @ drop k bs @ x = bs @ x" for x by (simp flip: append_assoc)
    have "length (drop k bs) + length (appended ops) < 2 ^ 31" using Cons.prems(2) Flush by simp
    from Cons.IH [OF f(3) this, of w1] show ?thesis
      using Flush f(1,4,5) by (auto simp: tk)
  qed
qed

section \<open>A command on a blocking connection\<close>

text \<open>Every write of pending bytes makes progress.\<close>

definition accepts :: "os \<Rightarrow> int \<Rightarrow> bool" where
  "accepts os fd \<longleftrightarrow> (\<forall>t bs. bs \<noteq> [] \<longrightarrow> 0 < s_ret (os t (Write fd bs)))"

lemma write_until_done_spec:
  assumes e: "env_ok e" and acc: "accepts (e_os e) (rc_fd c)"
  shows "pending c bs \<Longrightarrow> rc_err c = 0 \<Longrightarrow>
    \<exists>c' w'. write_until_done e c w = Some (REDIS_OK, c', w') \<and> pending c' [] \<and> rc_err c' = 0
      \<and> written (rc_fd c) (w_trace w') = written (rc_fd c) (w_trace w) @ bs
      \<and> reads (rc_fd c) (w_trace w') = reads (rc_fd c) (w_trace w)
      \<and> rc_fd c' = rc_fd c \<and> rc_reader c' = rc_reader c \<and> rc_flags c' = rc_flags c"
  using acc
proof (induction "length bs" arbitrary: bs c w rule: less_induct)
  case less
  obtain st dn c1 w1 k where f: "redisBufferWrite e c w = Some (st, dn, c1, w1)" "k \<le> length bs"
    "pending c1 (drop k bs)" "written (rc_fd c) (w_trace w1) = written (rc_fd c) (w_trace w) @ take k bs"
    "reads (rc_fd c) (w_trace w1) = reads (rc_fd c) (w_trace w)"
    "rc_fd c1 = rc_fd c" "rc_reader c1 = rc_reader c" "rc_flags c1 = rc_flags c"
    "st = REDIS_OK \<and> rc_err c1 = 0 \<and> rc_err c = 0 \<and> dn = (drop k bs = []) \<or> st = REDIS_ERR \<and> rc_err c1 \<noteq> 0"
    "rc_err c = 0 \<and> bs \<noteq> [] \<and> 0 < s_ret (e_os e (w_trace w) (Write (rc_fd c) bs)) \<longrightarrow> st = REDIS_OK \<and> 0 < k"
    using BufferWrite_spec [OF e less.prems(1), of w] by blast
  show ?case
  proof (cases "bs = []")
    case True
    then have "redisBufferWrite e c w = Some (REDIS_OK, True, c, w)"
      using less.prems(1,2) pending_len [OF _ less.prems(1)] by (auto simp: redisBufferWrite_def pending_def sdslen_def)
    then have "write_until_done e c w = Some (REDIS_OK, c, w)" by (simp add: write_until_done.simps)
    then show ?thesis using less.prems True by simp
  next
    case False
    then have ok: "st = REDIS_OK" "0 < k" "rc_err c1 = 0" "dn = (drop k bs = [])"
      using f(9,10) less.prems(2,3) by (auto simp: accepts_def)
    show ?thesis
    proof (cases dn)
      case True
      then have "write_until_done e c w = Some (REDIS_OK, c1, w1)" using f(1) ok(1) by (simp add: write_until_done.simps)
      then show ?thesis using f ok True by auto
    next
      case False
      then have unf: "write_until_done e c w = write_until_done e c1 w1" using f(1) ok(1) by (simp add: write_until_done.simps)
      have "length (drop k bs) < length bs" using ok(2) \<open>bs \<noteq> []\<close> by simp
      moreover have "accepts (e_os e) (rc_fd c1)" using less.prems(3) f(6) by simp
      ultimately obtain c' w' where "write_until_done e c1 w1 = Some (REDIS_OK, c', w')" "pending c' []" "rc_err c' = 0"
        "written (rc_fd c1) (w_trace w') = written (rc_fd c1) (w_trace w1) @ drop k bs"
        "reads (rc_fd c1) (w_trace w') = reads (rc_fd c1) (w_trace w1)"
        "rc_fd c' = rc_fd c1" "rc_reader c' = rc_reader c1" "rc_flags c' = rc_flags c1"
        using less.hyps [OF _ f(3) ok(3), of w1] by blast
      then show ?thesis using unf f by auto
    qed
  qed
qed

text \<open>The \<open>i\<close>-th read on the socket returns the \<open>i\<close>-th piece.\<close>

definition delivers :: "os \<Rightarrow> int \<Rightarrow> byte list list \<Rightarrow> bool" where
  "delivers os fd cs \<longleftrightarrow> (\<forall>t n. reads fd t < length cs \<and> length (cs ! reads fd t) \<le> n \<longrightarrow>
     s_ret (os t (Read fd n)) = int (length (cs ! reads fd t)) \<and> s_data (os t (Read fd n)) = cs ! reads fd t)"

lemma BufferRead_piece:
  assumes e: "env_ok e" and d: "delivers (e_os e) (rc_fd c) cs" "reads (rc_fd c) (w_trace w) = i" "i < length cs"
    and z: "length (cs ! i) \<le> 1024 * 16"
    and c: "cs ! i \<noteq> []" "rc_err c = 0" "rc_reader c = Some rd" "reader_wf rd" "rd_len rd + length (cs ! i) < 2 ^ 31"
  shows "\<exists>rd' w'. redisBufferRead e c w = Some (REDIS_OK, c\<lparr>rc_reader := Some rd'\<rparr>, w') \<and> ext (cs ! i) rd rd'
    \<and> rd_len rd' \<le> rd_len rd + length (cs ! i)
    \<and> reads (rc_fd c) (w_trace w') = Suc i \<and> written (rc_fd c) (w_trace w') = written (rc_fd c) (w_trace w)"
proof -
  obtain r w1 where q: "syscall (e_os e) (Read (rc_fd c) (1024 * 16)) w = (r, w1)" by fastforce
  have r: "r = e_os e (w_trace w) (Read (rc_fd c) (1024 * 16))" "w_trace w1 = (Read (rc_fd c) (1024 * 16), s_ret r) # w_trace w"
    using q by (auto simp: syscall_def Let_def)
  have s: "s_ret r = int (length (cs ! i))" "s_data r = cs ! i"
    using d z unfolding delivers_def r(1) by auto
  obtain rd' where rd': "redisReaderFeed (e_alloc e) rd (cs ! i) = Some (REDIS_OK, rd')" "ext (cs ! i) rd rd'"
    "rd_len rd' \<le> rd_len rd + length (cs ! i)"
    using feed_spec [OF _ _ c(4,1,5), of "e_alloc e"] e by (auto simp: env_ok_def)
  have "0 < length (cs ! i)" using c(1) by simp
  then have "redisBufferRead e c w = Some (REDIS_OK, c\<lparr>rc_reader := Some rd'\<rparr>, w1)"
    using c(2,3) s rd'(1) by (simp add: redisBufferRead_def q [simplified])
  moreover have "reads (rc_fd c) (w_trace w1) = Suc i" "written (rc_fd c) (w_trace w1) = written (rc_fd c) (w_trace w)"
    using d(2) by (simp_all add: r(2))
  ultimately show ?thesis using rd' by blast
qed

text \<open>The reply the whole stream gives is the one \<^verbatim>\<open>redisGetReply\<close> returns when it comes in pieces.\<close>

definition replied :: "redis_context \<Rightarrow> (int \<times> nat option \<times> redis_context \<times> world) option \<Rightarrow> nat \<Rightarrow> reader \<Rightarrow> world \<Rightarrow> bool" where
  "replied c res a s' w \<longleftrightarrow> (\<exists>rd' w'. res = Some (REDIS_OK, Some a, c\<lparr>rc_reader := Some rd'\<rparr>, w')
     \<and> rd_store rd' = rd_store s' \<and> written (rc_fd c) (w_trace w') = written (rc_fd c) (w_trace w))"

lemma replied_reader: "replied (c\<lparr>rc_reader := x\<rparr>) res a s' w \<longleftrightarrow> replied c res a s' w"
  by (simp add: replied_def)

lemma replied_world:
  "written (rc_fd c) (w_trace w1) = written (rc_fd c) (w_trace w) \<Longrightarrow> replied c res a s' w1 = replied c res a s' w"
  by (simp add: replied_def)

lemma read_until_reply_delivers:
  assumes e: "env_ok e" and d: "delivers (e_os e) (rc_fd c) cs" and z: "\<forall>p \<in> set cs. p \<noteq> [] \<and> length p \<le> 1024 * 16"
    and g: "redisReaderGetReply (e_oom e) r' = Some (REDIS_OK, Some a, s')" and err: "rc_err c = 0"
  shows "reads (rc_fd c) (w_trace w) = i \<Longrightarrow> i < length cs \<Longrightarrow> rc_reader c = Some rd \<Longrightarrow>
    sim_wf (concat (drop i cs)) rd r' \<Longrightarrow> rd_len rd + length (concat (drop i cs)) < 2 ^ 31 \<Longrightarrow>
    replied c (read_until_reply e c w) a s' w"
  using d err g
proof (induction "length cs - i" arbitrary: i c w rd r' rule: less_induct)
  case less
  note prems = less.prems
  let ?rest = "concat (drop (Suc i) cs)"
  have split: "concat (drop i cs) = cs ! i @ ?rest" using prems(2) by (simp flip: Cons_nth_drop_Suc)
  have piece: "cs ! i \<noteq> []" "length (cs ! i) \<le> 1024 * 16" using z prems(2) by auto
  have wf: "reader_wf rd" using prems(4) by (simp add: sim_wf_def)
  obtain rd1 w1 where b: "redisBufferRead e c w = Some (REDIS_OK, c\<lparr>rc_reader := Some rd1\<rparr>, w1)" "ext (cs ! i) rd rd1"
    "rd_len rd1 \<le> rd_len rd + length (cs ! i)" "reads (rc_fd c) (w_trace w1) = Suc i"
    "written (rc_fd c) (w_trace w1) = written (rc_fd c) (w_trace w)"
    using BufferRead_piece [OF e prems(6,1,2) piece(2,1) prems(7,3) wf] prems(5) split by auto
  have sim: "sim_wf ?rest rd1 r'" using ext_sim_right [OF b(2)] prems(4) split by simp
  have unf: "read_until_reply e c w = (case redisGetReplyFromReader e (c\<lparr>rc_reader := Some rd1\<rparr>) of None \<Rightarrow> None
     | Some (st, aux, c) \<Rightarrow> if st = REDIS_ERR then Some (REDIS_ERR, None, c, w1)
         else if aux \<noteq> None then Some (REDIS_OK, aux, c, w1) else read_until_reply e c w1)"
    by (subst read_until_reply.simps) (auto simp: b(1) split: option.split)
  have ret: "redisReaderGetReply (e_oom e) rd1 = Some (REDIS_OK, Some a, s1) \<Longrightarrow> rd_store s1 = rd_store s' \<Longrightarrow>
    replied c (read_until_reply e c w) a s' w" for s1
    using b(5) by (auto simp: unf redisGetReplyFromReader_def replied_def intro!: exI [of _ s1])
  show ?case
  proof (cases "?rest = []")
    case True
    have "sim_wf [] rd1 r'" using sim unfolding True .
    then have "res_rel (redisReaderGetReply (e_oom e) rd1) (redisReaderGetReply (e_oom e) r')" by (rule GetReply_same)
    then show ?thesis using ret sim_wf_fields unfolding prems(8) res_rel_def
      by (cases "redisReaderGetReply (e_oom e) rd1") fastforce+
  next
    case False
    from GetReply_sim [OF sim False, of "e_oom e"] show ?thesis
    proof (elim disjE exE conjE)
      fix s s2 assume s: "redisReaderGetReply (e_oom e) rd1 = Some (REDIS_OK, None, s)" "sim_wf ?rest s s2"
        "redisReaderGetReply (e_oom e) r' = redisReaderGetReply (e_oom e) s2"
      have wf1: "reader_wf rd1" using b(2) by (simp add: ext_def)
      have "rd_err s = 0" using s(2) by (simp add: sim_wf_def reader_wf_def)
      then have len: "rd_len s + length ?rest < 2 ^ 31"
        using GetReply_len [OF wf1 s(1)] b(3) prems(5) split by simp
      have i: "Suc i < length cs" using False by (metis concat.simps(1) drop_all not_less)
      let ?c = "c\<lparr>rc_reader := Some s\<rparr>"
      have "replied ?c (read_until_reply e ?c w1) a s' w1"
        by (rule less.hyps [of "Suc i" ?c w1 s s2]) (use i b(4) s len prems(6-8) in auto)
      then have "replied c (read_until_reply e ?c w1) a s' w" using replied_world [OF b(5)] by (simp add: replied_reader)
      moreover have "read_until_reply e c w = read_until_reply e ?c w1" by (simp add: unf redisGetReplyFromReader_def s(1))
      ultimately show ?thesis by simp
    next
      fix a1 s s2 assume "redisReaderGetReply (e_oom e) rd1 = Some (REDIS_OK, Some a1, s)"
        "redisReaderGetReply (e_oom e) r' = Some (REDIS_OK, Some a1, s2)" "sim_wf ?rest s s2"
      then show ?thesis using ret [of s] sim_wf_fields [of ?rest s s2] prems(8) by simp
    qed (simp_all add: prems(8))
  qed
qed

lemma empty_reader_no_reply: "rd_err rd = 0 \<Longrightarrow> rd_len rd = 0 \<Longrightarrow> redisReaderGetReply oom rd = Some (REDIS_OK, None, rd)"
  by (simp add: redisReaderGetReply_def)

text \<open>A blocking context between two commands: nothing to send, nothing half received.\<close>

definition at_rest :: "redis_context \<Rightarrow> bool" where
  "at_rest c \<longleftrightarrow> pending c [] \<and> rc_err c = 0 \<and> rc_flags c AND REDIS_BLOCK \<noteq> 0
     \<and> (\<exists>rd. rc_reader c = Some rd \<and> between rd \<and> reply_wf rd \<and> rd_len rd = 0)"

lemma GetReply_blocking:
  assumes e: "env_ok e" and acc: "accepts (e_os e) (rc_fd c)" and d: "delivers (e_os e) (rc_fd c) cs"
    and z: "cs \<noteq> []" "\<forall>p \<in> set cs. p \<noteq> [] \<and> length p \<le> 1024 * 16" "length (concat cs) < 2 ^ 31"
    and c: "pending c bs" "rc_err c = 0" "rc_flags c AND REDIS_BLOCK \<noteq> 0" "reads (rc_fd c) (w_trace w) = 0"
    and rd: "rc_reader c = Some rd" "reader_wf rd" "reply_wf rd" "rd_len rd = 0"
    and f: "redisReaderFeed (e_alloc e) rd (concat cs) = Some (REDIS_OK, r')"
    and g: "redisReaderGetReply (e_oom e) r' = Some (REDIS_OK, Some a, s')"
  shows "\<exists>c' w' rd'. redisGetReply e c w = Some (REDIS_OK, Some a, c', w') \<and> rc_reader c' = Some rd'
    \<and> rd_store rd' = rd_store s' \<and> pending c' [] \<and> rc_err c' = 0
    \<and> written (rc_fd c) (w_trace w') = written (rc_fd c) (w_trace w) @ bs"
proof -
  have "rd_err rd = 0" using rd(2) by (simp add: reader_wf_def)
  then have none: "redisGetReplyFromReader e c = Some (REDIS_OK, None, c)"
    using rd(1) empty_reader_no_reply rd(4) by (simp add: redisGetReplyFromReader_def)
  obtain c1 w1 where w: "write_until_done e c w = Some (REDIS_OK, c1, w1)" "pending c1 []" "rc_err c1 = 0"
    "written (rc_fd c) (w_trace w1) = written (rc_fd c) (w_trace w) @ bs" "reads (rc_fd c) (w_trace w1) = reads (rc_fd c) (w_trace w)"
    "rc_fd c1 = rc_fd c" "rc_reader c1 = rc_reader c" "rc_flags c1 = rc_flags c"
    using write_until_done_spec [OF e acc c(1,2), of w] by blast
  have ne: "concat cs \<noteq> []" using z(1,2) by (cases cs) auto
  have a: "allocator_ok (e_alloc e)" "\<forall>n. e_alloc e n \<noteq> None" using e by (auto simp: env_ok_def)
  have "rd_len rd + length (concat cs) < 2 ^ 31" using rd(4) z(3) by simp
  from feed_spec [OF a rd(2) ne this] f have "ext (concat cs) rd r'" by auto
  then have sim: "sim_wf (concat (drop 0 cs)) rd r'" using ext_sim rd(2,3) by (simp add: sim_wf_def ext_def)
  have "replied c1 (read_until_reply e c1 w1) a s' w1"
    by (rule read_until_reply_delivers [OF e _ z(2) g w(3), of w1 0 rd]) (use d w c(4) sim rd z in auto)
  then obtain rd' w' where r: "read_until_reply e c1 w1 = Some (REDIS_OK, Some a, c1\<lparr>rc_reader := Some rd'\<rparr>, w')"
    "rd_store rd' = rd_store s'" "written (rc_fd c) (w_trace w') = written (rc_fd c) (w_trace w1)"
    unfolding replied_def w(6) by blast
  have "redisGetReply e c w = Some (REDIS_OK, Some a, c1\<lparr>rc_reader := Some rd'\<rparr>, w')"
    using none w(1) r(1) c(3) by (simp add: redisGetReply_def)
  moreover have "pending (c1\<lparr>rc_reader := Some rd'\<rparr>) []" by (rule pending_set [OF w(2)]) simp
  ultimately show ?thesis using r(2,3) w(3,4) by auto
qed

lemma AppendCommandArgv_spec:
  assumes e: "env_ok e" "\<forall>n. e_mem e n" and p: "pending c []" and n: "length (encode_command argv) < 2 ^ 31"
  shows "\<exists>c'. redisAppendCommandArgv e c argv (Some (map length argv)) = Some (REDIS_OK, c')
    \<and> pending c' (encode_command argv) \<and> rc_fd c' = rc_fd c \<and> rc_err c' = rc_err c \<and> rc_reader c' = rc_reader c
    \<and> rc_flags c' = rc_flags c"
proof -
  let ?cmd = "encode_command argv"
  have "redisFormatCommandArgv (e_mem e) argv (Some (map length argv)) = Returns (int (length ?cmd)) (?cmd @ [NUL])"
    using format_argv_build [OF n e(2)] by (simp add: redisFormatCommandArgv_def argv_bytes_lens)
  moreover obtain c' where "redisAppendBytes e c (?cmd @ [NUL]) (length ?cmd) = Some (REDIS_OK, c')"
    "pending c' ?cmd" "rc_fd c' = rc_fd c \<and> rc_err c' = rc_err c \<and> rc_reader c' = rc_reader c \<and> rc_flags c' = rc_flags c"
    using AppendBytes_spec [OF e(1) p, of "length ?cmd" "?cmd @ [NUL]"] n by auto
  ultimately show ?thesis by (simp add: redisAppendCommandArgv_def append_formatted_def)
qed

section \<open>Errors\<close>

lemma BufferWrite_err: "redisBufferWrite e c w = Some (REDIS_ERR, dn, c', w') \<Longrightarrow> rc_err c' \<noteq> 0"
  by (auto simp: redisBufferWrite_def Let_def split: if_splits option.splits prod.splits)

lemma feed_err: "redisReaderFeed a rd bs = Some (st, rd') \<Longrightarrow> st \<noteq> REDIS_OK \<Longrightarrow> rd_err rd' \<noteq> 0"
  by (auto simp: redisReaderFeed_def status_codes redisReaderSetErrorOOM_def redisReaderSetError_def Let_def
      split: if_splits option.splits)

lemma BufferRead_err:
  assumes "redisBufferRead e c w = Some (REDIS_ERR, c', w')" shows "rc_err c' \<noteq> 0"
  using assms feed_err unfolding redisBufferRead_def Let_def
  by (auto split: if_splits option.splits prod.splits)

lemma reader_err: "redisReaderGetReply oom rd = Some (REDIS_ERR, a, rd') \<Longrightarrow> rd_err rd' \<noteq> 0"
  by (auto simp: redisReaderGetReply_def status_codes Let_def split: if_splits option.splits)

lemma FromReader_err: "redisGetReplyFromReader e c = Some (REDIS_ERR, a, c') \<Longrightarrow> rc_err c' \<noteq> 0"
  using reader_err by (auto simp: redisGetReplyFromReader_def Let_def split: if_splits option.splits prod.splits)

lemma FromReader_keeps_err:
  assumes "redisGetReplyFromReader e c = Some (st, a, c')" "rc_err c \<noteq> 0"
  shows "rc_err c' \<noteq> 0"
proof (cases "st = REDIS_ERR")
  case True
  then show ?thesis using assms(1) FromReader_err by blast
next
  case False
  then have "\<exists>rd. c' = c\<lparr>rc_reader := Some rd\<rparr>"
    using assms(1) unfolding redisGetReplyFromReader_def Let_def by (auto split: option.splits if_splits)
  then show ?thesis using assms(2) by auto
qed

lemma write_until_done_err: "write_until_done e c w = Some res \<Longrightarrow> fst res = REDIS_ERR \<longrightarrow> rc_err (fst (snd res)) \<noteq> 0"
proof (induction rule: write_until_done.raw_induct [rotated, consumes 1])
  case (1 loop e c w res)
  then obtain st dn c1 w1 where b: "redisBufferWrite e c w = Some (st, dn, c1, w1)"
    by (auto simp: bind_eq_Some_conv)
  show ?case
  proof (cases "st = REDIS_ERR")
    case True
    then show ?thesis using 1(2) b BufferWrite_err [of e c w dn c1 w1] by auto
  next
    case False
    then show ?thesis using 1(2) 1(1) b by (auto split: if_splits)
  qed
qed

lemma read_until_reply_err: "read_until_reply e c w = Some res \<Longrightarrow> fst res = REDIS_ERR \<longrightarrow> rc_err (fst (snd (snd res))) \<noteq> 0"
proof (induction rule: read_until_reply.raw_induct [rotated, consumes 1])
  case (1 loop e c w res)
  then obtain st c1 w1 where b: "redisBufferRead e c w = Some (st, c1, w1)"
    by (auto simp: bind_eq_Some_conv)
  show ?case
  proof (cases "st = REDIS_ERR")
    case True
    then show ?thesis using 1(2) b BufferRead_err [of e c w c1 w1] by auto
  next
    case False
    then obtain st2 a c2 where r: "redisGetReplyFromReader e c1 = Some (st2, a, c2)"
      using 1(2) b by (auto simp: bind_eq_Some_conv)
    show ?thesis
    proof (cases "st2 = REDIS_ERR")
      case True
      then show ?thesis using 1(2) b r False FromReader_err [of e c1 a c2] by auto
    next
      case not_err: False
      then show ?thesis using 1(2) 1(1) [of e c2 w1 res] b r False by (auto split: if_splits)
    qed
  qed
qed

lemma GetReply_err:
  assumes "redisGetReply e c w = Some (REDIS_ERR, a, c', w')" shows "rc_err c' \<noteq> 0"
  using assms FromReader_err write_until_done_err read_until_reply_err unfolding redisGetReply_def
  by (fastforce split: if_splits option.splits prod.splits)

section \<open>Properties\<close>

text \<open>C11. A command on a blocking connection returns its answer: when every \<^verbatim>\<open>write\<close> of pending bytes
  takes at least one of them and the server's reply arrives, in pieces of any size, then
  \<^verbatim>\<open>redisCommandArgv\<close> comes back with the reply object that stands for it, has sent exactly the
  encoding of its arguments and leaves nothing to send.\<close>

theorem command_returns_reply:
  assumes "env_ok e" "\<forall>n. e_mem e n" "\<forall>n. \<not> e_oom e n" "at_rest c" "accepts (e_os e) (rc_fd c)"
    "delivers (e_os e) (rc_fd c) cs" "reads (rc_fd c) (w_trace w) = 0"
    "\<forall>p \<in> set cs. p \<noteq> [] \<and> length p \<le> 1024 * 16" "length (concat cs) < 2 ^ 31" "length (encode_command argv) < 2 ^ 31"
    "concat cs = encode t" "fits t" "nest t \<le> 8"
  shows "\<exists>a c' w' rd'. redisCommandArgv e c argv (Some (map length argv)) w = Some (Some a, c', w')
    \<and> rc_reader c' = Some rd' \<and> represents (rd_store rd') a t \<and> pending c' [] \<and> rc_err c' = 0
    \<and> written (rc_fd c) (w_trace w') = written (rc_fd c) (w_trace w) @ encode_command argv"
proof -
  obtain rd where rd: "rc_reader c = Some rd" "between rd" "reply_wf rd" "rd_len rd = 0"
    and p: "pending c []" "rc_err c = 0" "rc_flags c AND REDIS_BLOCK \<noteq> 0"
    using assms(4) by (auto simp: at_rest_def)
  have rd_wf: "reader_wf rd" using rd(2) by (simp add: between_def)
  have ne: "concat cs \<noteq> []" "cs \<noteq> []" using assms(11) encode_nonempty [of t] by auto
  have a: "allocator_ok (e_alloc e)" "\<forall>n. e_alloc e n \<noteq> None" using assms(1) by (auto simp: env_ok_def)
  obtain r' where r': "redisReaderFeed (e_alloc e) rd (concat cs) = Some (REDIS_OK, r')" "between r'" "window r' = encode t @ []"
    using feed_between [OF a rd(2-4) ne(1) assms(9)] assms(11) by auto
  obtain s' where g: "redisReaderGetReply (e_oom e) r' = Some (REDIS_OK, Some (length (rd_store r')), s')"
    "rd_store s' = rd_store r' @ layout (length (rd_store r')) t"
    using GetReply_tree [OF r'(2,3) assms(12,13,3)] by blast
  obtain c1 where c1: "redisAppendCommandArgv e c argv (Some (map length argv)) = Some (REDIS_OK, c1)"
    "pending c1 (encode_command argv)" "rc_fd c1 = rc_fd c" "rc_err c1 = rc_err c" "rc_reader c1 = rc_reader c"
    "rc_flags c1 = rc_flags c"
    using AppendCommandArgv_spec [OF assms(1,2) p(1) assms(10)] by blast
  obtain c' w' rd' where b: "redisGetReply e c1 w = Some (REDIS_OK, Some (length (rd_store r')), c', w')" "rc_reader c' = Some rd'"
    "rd_store rd' = rd_store s'" "pending c' []" "rc_err c' = 0"
    "written (rc_fd c) (w_trace w') = written (rc_fd c) (w_trace w) @ encode_command argv"
    using GetReply_blocking [OF assms(1) _ _ ne(2) assms(8,9) c1(2) _ _ _ _ rd_wf rd(3,4) r'(1) g(1), of w]
      assms(5-7) c1(3-6) p(2,3) rd(1) by auto
  have "redisCommandArgv e c argv (Some (map length argv)) w = Some (Some (length (rd_store r')), c', w')"
    using c1(1,6) p(3) b(1) by (simp add: redisCommandArgv_def redisBlockForReply_def)
  moreover have "represents (rd_store rd') (length (rd_store r')) t"
    unfolding b(3) g(2) using layout_represents(1) [of "length (rd_store r')" "rd_store r'" t "[]"] by simp
  ultimately show ?thesis using b(2-6) by blast
qed

text \<open>An operating system that takes all bytes and whose \<open>i\<close>-th read on a socket yields the \<open>i\<close>-th piece.\<close>

definition scripted_os :: "byte list list \<Rightarrow> os" where
  "scripted_os cs t q =
     (case q of
        Write fd bs \<Rightarrow> \<lparr>s_ret = int (length bs), s_errno = 0, s_value = 0, s_data = [], s_addrs = []\<rparr>
      | Read fd n \<Rightarrow>
          (let d = if reads fd t < length cs then take n (cs ! reads fd t) else [] in
           \<lparr>s_ret = int (length d), s_errno = 0, s_value = 0, s_data = d, s_addrs = []\<rparr>)
      | _ \<Rightarrow> \<lparr>s_ret = 0, s_errno = 0, s_value = 0, s_data = [], s_addrs = []\<rparr>)"

definition scripted_env :: "byte list list \<Rightarrow> nat env" where
  "scripted_env cs = \<lparr>e_os = scripted_os cs, e_strerror = (\<lambda>n. []), e_gaierror = (\<lambda>n. []), e_mem = (\<lambda>n. True),
     e_alloc = nul_alloc, e_static = [], e_printf = (\<lambda>f v. []), e_oom = (\<lambda>n. False)\<rparr>"

lemma scripted_env_ok: "env_ok (scripted_env cs)" "accepts (e_os (scripted_env cs)) fd" "delivers (e_os (scripted_env cs)) fd cs"
  by (auto simp: env_ok_def scripted_env_def write_bounded_def scripted_os_def accepts_def delivers_def Let_def
      split: sysreq.split)

lemma ConnectFd_at_rest:
  assumes "env_ok e" "redisConnectFd e fd = Some c"
  shows "at_rest c \<and> rc_fd c = fd \<and> rc_reader c = redisReaderCreate (e_alloc e)"
proof -
  have a: "allocator_ok (e_alloc e)" "\<forall>n. e_alloc e n \<noteq> None" using assms(1) by (auto simp: env_ok_def)
  obtain b where b: "sdsempty (e_alloc e) = Some b" using sdsempty_succeeds [OF a(2)] by blast
  then obtain rd where rd: "redisReaderCreate (e_alloc e) = Some rd" by (simp add: redisReaderCreate_def)
  have b': "sds_ok b \<and> sh_len b = 0 \<and> sh_free b = 0" by (rule sdsempty_free [OF a(1) b])
  have c: "rc_err c = 0" "rc_fd c = fd" "rc_flags c = REDIS_BLOCK OR REDIS_CONNECTED" "rc_obuf c = Some b" "rc_reader c = Some rd"
    using assms(2) b rd by (auto simp: redisConnectFd_def redisContextInit_def split: if_splits)
  have "(REDIS_BLOCK OR REDIS_CONNECTED) AND REDIS_BLOCK \<noteq> 0" by (simp add: REDIS_BLOCK_def REDIS_CONNECTED_def)
  moreover have "pending c []" using c(4) b' by (simp add: pending_def sds_str_def)
  moreover have "rd_ridx rd = - 1" using rd by (auto simp: redisReaderCreate_def split: option.splits)
  ultimately show ?thesis using c rd created_wf [OF a(1) rd] by (simp add: at_rest_def between_def)
qed

theorem command_returns_reply_witness:
  "\<exists>c a c' w' rd'. redisConnectFd (scripted_env [''+O'', ''K'' @ crlf]) 5 = Some c
     \<and> redisCommandArgv (scripted_env [''+O'', ''K'' @ crlf]) c [''PING''] (Some (map length [''PING''])) \<lparr>w_trace = [], w_errno = 0\<rparr>
         = Some (Some a, c', w')
     \<and> rc_reader c' = Some rd' \<and> represents (rd_store rd') a (RStatus ''OK'') \<and> written 5 (w_trace w') = encode_command [''PING'']"
proof -
  let ?cs = "[''+O'', ''K'' @ crlf]"
  let ?e = "scripted_env ?cs"
  obtain c where c: "redisConnectFd ?e 5 = Some c"
    by (simp add: redisConnectFd_def redisContextInit_def scripted_env_def)
  have r: "at_rest c" "rc_fd c = 5" using ConnectFd_at_rest [OF scripted_env_ok(1) c] by auto
  have mem: "\<forall>n. e_mem ?e n" "\<forall>n. \<not> e_oom ?e n" by (simp_all add: scripted_env_def)
  have cs: "\<forall>p \<in> set ?cs. p \<noteq> [] \<and> length p \<le> 1024 * 16" "length (concat ?cs) < 2 ^ 31" "concat ?cs = encode (RStatus ''OK'')"
    by simp_all
  have argv: "length (encode_command [''PING'']) < 2 ^ 31"
    by (simp add: encode_command_def bulk_def dec_of_nat.simps)
  have "fits (RStatus ''OK'')" "nest (RStatus ''OK'') \<le> 8" "reads (rc_fd c) (w_trace \<lparr>w_trace = [], w_errno = 0\<rparr>) = 0" by simp_all
  from command_returns_reply [OF scripted_env_ok(1) mem r(1) scripted_env_ok(2,3) this(3) cs(1,2) argv cs(3) this(1,2)]
  show ?thesis using c r(2) by (auto simp del: represents.simps)
qed

text \<open>C35. The output of a connection is the commands in the order they were appended: however
  appending and writing alternate and whatever \<^verbatim>\<open>write\<close> does (short writes, failures, interrupts),
  the bytes written to the socket followed by the bytes still in the buffer are the appended
  commands, none lost, repeated or torn.\<close>

theorem output_stream:
  assumes "env_ok e" "pending c []" "length (appended ops) < 2 ^ 31"
  shows "\<exists>c' w' rest. run_out e ops c w = Some (c', w') \<and> pending c' rest
    \<and> written (rc_fd c) (w_trace w') @ rest = written (rc_fd c) (w_trace w) @ appended ops"
  using run_out_spec [OF assms(1,2), of ops w] assms(3) by simp

text \<open>An operating system whose writes take one byte at a time.\<close>

definition slow_env :: "nat env" where
  "slow_env = (scripted_env [])\<lparr>e_os := \<lambda>t q. \<lparr>s_ret = (case q of Write fd bs \<Rightarrow> if bs = [] then 0 else 1 | _ \<Rightarrow> 0),
     s_errno = 0, s_value = 0, s_data = [], s_addrs = []\<rparr>\<rparr>"

lemma slow_env_ok: "env_ok slow_env"
  by (auto simp: env_ok_def slow_env_def scripted_env_def write_bounded_def Suc_le_eq split: sysreq.split)

theorem output_stream_witness:
  "\<exists>c c' w' rest. redisConnectFd slow_env 5 = Some c
     \<and> run_out slow_env [Append ''abc'', Flush, Append ''de'', Flush] c \<lparr>w_trace = [], w_errno = 0\<rparr> = Some (c', w')
     \<and> pending c' rest \<and> written 5 (w_trace w') @ rest = ''abcde''"
proof -
  obtain c where c: "redisConnectFd slow_env 5 = Some c"
    by (simp add: redisConnectFd_def redisContextInit_def slow_env_def scripted_env_def)
  have r: "at_rest c \<and> rc_fd c = 5 \<and> rc_reader c = redisReaderCreate (e_alloc slow_env)"
    by (rule ConnectFd_at_rest [OF slow_env_ok c])
  then have "pending c []" by (simp add: at_rest_def)
  from output_stream [OF slow_env_ok this, of "[Append ''abc'', Flush, Append ''de'', Flush]" "\<lparr>w_trace = [], w_errno = 0\<rparr>"]
  show ?thesis using c r by simp
qed

text \<open>A failure is final: when \<^verbatim>\<open>redisGetReply\<close> reports an error the context carries it, and from
  then on no function moves a byte: reading, writing and waiting for a reply fail without a
  system call, and the two buffer functions leave the context as it is.\<close>

theorem failed_context_is_dead:
  assumes "redisGetReply e c w = Some (REDIS_ERR, a, c', w')"
  shows "redisBufferRead e c' v = Some (REDIS_ERR, c', v) \<and> redisBufferWrite e c' v = Some (REDIS_ERR, False, c', v)
    \<and> (redisGetReply e c' v = Some (st, b, c'', v') \<longrightarrow> v' = v)"
proof -
  have err: "rc_err c' \<noteq> 0" by (rule GetReply_err [OF assms])
  have wl: "write_until_done e d v = Some (REDIS_ERR, d, v)" if "rc_err d \<noteq> 0" for d
    by (subst write_until_done.simps) (simp add: redisBufferWrite_def that)
  have "redisGetReply e c' v = Some (st, b, c'', v') \<longrightarrow> v' = v"
  proof (cases "redisGetReplyFromReader e c'")
    case (Some res)
    obtain st1 b1 d where res: "res = (st1, b1, d)" by (cases res)
    have "rc_err d \<noteq> 0" using FromReader_keeps_err Some err res by blast
    then have "write_until_done e d v = Some (REDIS_ERR, d, v)" by (rule wl)
    then show ?thesis using Some res by (simp add: redisGetReply_def)
  qed (simp add: redisGetReply_def)
  then show ?thesis using err by (simp add: redisBufferRead_def redisBufferWrite_def)
qed

theorem failed_context_is_dead_witness:
  "\<exists>c c' w'. redisConnectFd (scripted_env []) 5 = Some c
     \<and> redisGetReply (scripted_env []) c \<lparr>w_trace = [], w_errno = 0\<rparr> = Some (REDIS_ERR, None, c', w')
     \<and> redisBufferRead (scripted_env []) c' w' = Some (REDIS_ERR, c', w')"
proof -
  let ?w = "\<lparr>w_trace = [], w_errno = 0\<rparr>"
  obtain c where c: "redisConnectFd (scripted_env []) 5 = Some c"
    by (simp add: redisConnectFd_def redisContextInit_def scripted_env_def)
  have r: "at_rest c \<and> rc_fd c = 5 \<and> rc_reader c = redisReaderCreate (e_alloc (scripted_env []))"
    by (rule ConnectFd_at_rest [OF scripted_env_ok(1) c])
  then have p: "pending c []" and live: "rc_err c = 0" "rc_flags c AND REDIS_BLOCK \<noteq> 0" by (auto simp: at_rest_def)
  obtain ob where "rc_obuf c = Some ob" using p by (auto simp: pending_def)
  moreover have "sdslen ob = length ([] :: byte list)" using pending_len [OF calculation p] by blast
  moreover obtain rd' where "rc_reader c = Some rd'" "reader_wf rd'" "rd_len rd' = 0"
    using r unfolding at_rest_def between_def by blast
  ultimately obtain rd where rd: "rc_reader c = Some rd" "rd_len rd = 0" "rd_err rd = 0" "rc_err c = 0"
    "rc_flags c AND REDIS_BLOCK \<noteq> 0" "rc_obuf c = Some ob" "sdslen ob = 0"
    using live by (simp add: reader_wf_def)
  have "c\<lparr>rc_reader := Some rd\<rparr> = c" using rd(1) by simp
  then have from_reader: "redisGetReplyFromReader (scripted_env []) c = Some (REDIS_OK, None, c)"
    using rd(1-3) empty_reader_no_reply [of rd] by (simp add: redisGetReplyFromReader_def)
  have "write_until_done (scripted_env []) c ?w = Some (REDIS_OK, c, ?w)"
    by (subst write_until_done.simps) (simp add: redisBufferWrite_def rd)
  moreover obtain c' w' where "redisBufferRead (scripted_env []) c ?w = Some (REDIS_ERR, c', w')"
    using rd by (simp add: redisBufferRead_def syscall_def scripted_env_def scripted_os_def Let_def)
  then have "read_until_reply (scripted_env []) c ?w = Some (REDIS_ERR, None, c', w')"
    by (subst read_until_reply.simps) simp
  ultimately have g: "redisGetReply (scripted_env []) c ?w = Some (REDIS_ERR, None, c', w')"
    using rd from_reader by (simp add: redisGetReply_def)
  then show ?thesis using failed_context_is_dead [OF g, of w'] c by blast
qed

end
