(* ===== verification/Dict.thy ===== *)
theory Dict
  imports CPrelude StdMap "HOL-Library.Multiset"
begin

unbundle bit_operations_syntax

text \<open>
  The hash table of \<^verbatim>\<open>hiredis/dict.{h,c}\<close>: a vector of chains indexed by the low bits of the
  key's hash. A chain of \<^verbatim>\<open>dictEntry\<close> structures linked by \<^verbatim>\<open>next\<close> is a list of entries, the null
  table an empty vector. Keys and values are the things the pointers stand for, so a duplicate
  made by \<^verbatim>\<open>keyDup\<close> equals its original; the type's functions are the code's pointers, \<open>None\<close>
  for null, already applied to \<^verbatim>\<open>privdata\<close>; a destructor yields the events it causes.
  An operation's result is \<open>None\<close> where the code reads outside of the table, follows a failed
  allocation or fails its assertion; \<open>mem n\<close> says whether an allocation of \<open>n\<close> bytes succeeds.
\<close>

section \<open>Data\<close>

definition DICT_OK :: int where "DICT_OK = 0"
definition DICT_ERR :: int where "DICT_ERR = 1"
definition DICT_HT_INITIAL_SIZE :: nat where "DICT_HT_INITIAL_SIZE = 4"

record ('k, 'v) dictEntry =
  de_key :: 'k
  de_val :: 'v

record ('k, 'v, 'ev) dictType =
  hashFunction :: "'k \<Rightarrow> 32 word"
  keyDup :: "('k \<Rightarrow> 'k) option"
  valDup :: "('v \<Rightarrow> 'v) option"
  keyCompare :: "('k \<Rightarrow> 'k \<Rightarrow> bool) option"
  keyDestructor :: "('k \<Rightarrow> 'ev list) option"
  valDestructor :: "('v \<Rightarrow> 'ev list) option"

record ('k, 'v, 'ev) dict =
  d_table :: "('k, 'v) dictEntry list list"
  d_type :: "('k, 'v, 'ev) dictType"
  d_size :: nat
  d_sizemask :: nat
  d_used :: nat

record ('k, 'v) dictIterator =
  it_index :: int
  it_entry :: "('k, 'v) dictEntry list"
  it_nextEntry :: "('k, 'v) dictEntry list"

text \<open>An \<^verbatim>\<open>unsigned long\<close> counter.\<close>

definition ulong :: "int \<Rightarrow> nat" where
  "ulong x = nat (x mod 2 ^ 64)"

lemma ulong_id [simp]: "0 \<le> x \<Longrightarrow> x < 2 ^ 64 \<Longrightarrow> ulong x = nat x"
  by (simp add: ulong_def)

section \<open>The macros of \<^verbatim>\<open>dict.h\<close>\<close>

definition dictFreeEntryVal :: "('k, 'v, 'ev) dict \<Rightarrow> ('k, 'v) dictEntry \<Rightarrow> 'ev list" where
  "dictFreeEntryVal ht he =
     (case valDestructor (d_type ht) of None \<Rightarrow> [] | Some f \<Rightarrow> f (de_val he))"

definition dictFreeEntryKey :: "('k, 'v, 'ev) dict \<Rightarrow> ('k, 'v) dictEntry \<Rightarrow> 'ev list" where
  "dictFreeEntryKey ht he =
     (case keyDestructor (d_type ht) of None \<Rightarrow> [] | Some f \<Rightarrow> f (de_key he))"

definition dictSetHashVal :: "('k, 'v, 'ev) dict \<Rightarrow> 'v \<Rightarrow> 'v" where
  "dictSetHashVal ht v = (case valDup (d_type ht) of None \<Rightarrow> v | Some f \<Rightarrow> f v)"

definition dictSetHashKey :: "('k, 'v, 'ev) dict \<Rightarrow> 'k \<Rightarrow> 'k" where
  "dictSetHashKey ht k = (case keyDup (d_type ht) of None \<Rightarrow> k | Some f \<Rightarrow> f k)"

definition dictCompareHashKeys :: "('k, 'v, 'ev) dict \<Rightarrow> 'k \<Rightarrow> 'k \<Rightarrow> bool" where
  "dictCompareHashKeys ht k1 k2 =
     (case keyCompare (d_type ht) of None \<Rightarrow> k1 = k2 | Some f \<Rightarrow> f k1 k2)"

definition dictHashKey :: "('k, 'v, 'ev) dict \<Rightarrow> 'k \<Rightarrow> nat" where
  "dictHashKey ht k = unat (hashFunction (d_type ht) k)"

text \<open>\<^verbatim>\<open>h = dictHashKey(ht, key) & ht->sizemask\<close>, stored in an \<^verbatim>\<open>unsigned int\<close>.\<close>

definition key_slot :: "('k, 'v, 'ev) dict \<Rightarrow> 'k \<Rightarrow> nat" where
  "key_slot ht k = u32 (dictHashKey ht k AND d_sizemask ht)"

text \<open>\<^verbatim>\<open>ht->table[h]\<close>\<close>

definition chain :: "('k, 'v, 'ev) dict \<Rightarrow> nat \<Rightarrow> ('k, 'v) dictEntry list option" where
  "chain ht h = (if h < length (d_table ht) then Some (d_table ht ! h) else None)"

section \<open>Operations\<close>

definition dictGenHashFunction :: "byte list \<Rightarrow> 32 word" where
  "dictGenHashFunction buf =
     foldl (\<lambda>hash c. (push_bit 5 hash + hash) + word_of_nat (uchar c)) 5381 buf"

definition dict_reset :: "('k, 'v, 'ev) dict \<Rightarrow> ('k, 'v, 'ev) dict" where
  "dict_reset ht = ht\<lparr>d_table := [], d_size := 0, d_sizemask := 0, d_used := 0\<rparr>"

definition dict_init :: "('k, 'v, 'ev) dictType \<Rightarrow> ('k, 'v, 'ev) dict" where
  "dict_init ty = \<lparr>d_table = [], d_type = ty, d_size = 0, d_sizemask = 0, d_used = 0\<rparr>"

definition dictCreate :: "(nat \<Rightarrow> bool) \<Rightarrow> ('k, 'v, 'ev) dictType \<Rightarrow> ('k, 'v, 'ev) dict option" where
  "dictCreate mem ty = (if mem 48 then Some (dict_init ty) else None)"

text \<open>
  The doubling loop of \<^verbatim>\<open>_dictNextPower\<close>. It starts at 4; at 0 the code would loop forever, which
  no call reaches.
\<close>

function next_power_loop :: "nat \<Rightarrow> nat \<Rightarrow> nat" where
  "next_power_loop sz i = (if sz \<le> i \<or> i = 0 then i else next_power_loop sz (i * 2))"
  by pat_completeness auto
termination by (relation "measure (\<lambda>(sz, i). sz - i)") auto

declare next_power_loop.simps [simp del]

definition dictNextPower :: "nat \<Rightarrow> nat" where
  "dictNextPower sz =
     (if 2 ^ 63 - 1 \<le> sz then 2 ^ 63 - 1 else next_power_loop sz DICT_HT_INITIAL_SIZE)"

text \<open>\<^verbatim>\<open>he->next = n.table[h]; n.table[h] = he\<close>\<close>

definition link_entry ::
  "('k, 'v, 'ev) dict \<Rightarrow> nat \<Rightarrow> ('k, 'v) dictEntry \<Rightarrow> ('k, 'v, 'ev) dict option" where
  "link_entry n h he =
     (case chain n h of
        None \<Rightarrow> None
      | Some c \<Rightarrow> Some (n\<lparr>d_table := (d_table n)[h := he # c]\<rparr>))"

text \<open>The inner loop of \<^verbatim>\<open>dictExpand\<close>: one chain of \<open>ht\<close> moves to \<open>n\<close>.\<close>

fun move_chain ::
  "('k, 'v, 'ev) dict \<Rightarrow> ('k, 'v, 'ev) dict \<Rightarrow> ('k, 'v) dictEntry list
     \<Rightarrow> (('k, 'v, 'ev) dict \<times> ('k, 'v, 'ev) dict) option" where
  "move_chain ht n [] = Some (ht, n)"
| "move_chain ht n (he # nextHe) =
     (case link_entry n (key_slot n (de_key he)) he of
        None \<Rightarrow> None
      | Some n' \<Rightarrow> move_chain (ht\<lparr>d_used := ulong (int (d_used ht) - 1)\<rparr>) n' nextHe)"

lemma move_chain_keeps:
  "move_chain ht n c = Some (ht', n')
     \<Longrightarrow> d_size ht' = d_size ht \<and> d_table ht' = d_table ht \<and> d_type ht' = d_type ht"
  by (induction ht n c rule: move_chain.induct) (auto split: option.splits)

function move_table ::
  "('k, 'v, 'ev) dict \<Rightarrow> ('k, 'v, 'ev) dict \<Rightarrow> nat
     \<Rightarrow> (('k, 'v, 'ev) dict \<times> ('k, 'v, 'ev) dict) option" where
  "move_table ht n i =
     (if i < d_size ht \<and> 0 < d_used ht then
        case chain ht i of
          None \<Rightarrow> None
        | Some c \<Rightarrow>
            (case move_chain ht n c of
               None \<Rightarrow> None
             | Some (ht', n') \<Rightarrow> move_table ht' n' (Suc i))
      else Some (ht, n))"
  by pat_completeness auto
termination
  by (relation "measure (\<lambda>(ht, n, i). d_size ht - i)") (auto dest: move_chain_keeps)

declare move_table.simps [simp del]

definition dictExpand ::
  "(nat \<Rightarrow> bool) \<Rightarrow> ('k, 'v, 'ev) dict \<Rightarrow> nat \<Rightarrow> (int \<times> ('k, 'v, 'ev) dict) option" where
  "dictExpand mem ht sz =
     (let realsize = dictNextPower sz in
      if sz < d_used ht then Some (DICT_ERR, ht)
      else
        let n = (dict_init (d_type ht))
          \<lparr>d_size := realsize, d_sizemask := realsize - 1,
           d_table := (if mem (realsize * 8) then replicate realsize [] else []),
           d_used := d_used ht\<rparr> in
        case move_table ht n 0 of
          None \<Rightarrow> None
        | Some (ht', n') \<Rightarrow> if d_used ht' = 0 then Some (DICT_OK, n') else None)"

definition dictExpandIfNeeded ::
  "(nat \<Rightarrow> bool) \<Rightarrow> ('k, 'v, 'ev) dict \<Rightarrow> (int \<times> ('k, 'v, 'ev) dict) option" where
  "dictExpandIfNeeded mem ht =
     (if d_size ht = 0 then dictExpand mem ht DICT_HT_INITIAL_SIZE
      else if d_used ht = d_size ht then dictExpand mem ht (ulong (int (d_size ht * 2)))
      else Some (DICT_OK, ht))"

text \<open>The walk along a chain up to the entry of a key.\<close>

definition chain_find ::
  "('k, 'v, 'ev) dict \<Rightarrow> 'k \<Rightarrow> ('k, 'v) dictEntry list \<Rightarrow> ('k, 'v) dictEntry option" where
  "chain_find ht k c = find (\<lambda>he. dictCompareHashKeys ht k (de_key he)) c"

definition dictKeyIndex ::
  "(nat \<Rightarrow> bool) \<Rightarrow> ('k, 'v, 'ev) dict \<Rightarrow> 'k \<Rightarrow> (int \<times> ('k, 'v, 'ev) dict) option" where
  "dictKeyIndex mem ht k =
     (case dictExpandIfNeeded mem ht of
        None \<Rightarrow> None
      | Some (st, ht1) \<Rightarrow>
          if st = DICT_ERR then Some (- 1, ht1)
          else
            let h = key_slot ht1 k in
            case chain ht1 h of
              None \<Rightarrow> None
            | Some c \<Rightarrow>
                (case chain_find ht1 k c of
                   Some _ \<Rightarrow> Some (- 1, ht1)
                 | None \<Rightarrow> Some (c_int (int h), ht1)))"

definition dictAdd ::
  "(nat \<Rightarrow> bool) \<Rightarrow> ('k, 'v, 'ev) dict \<Rightarrow> 'k \<Rightarrow> 'v \<Rightarrow> (int \<times> ('k, 'v, 'ev) dict) option" where
  "dictAdd mem ht k v =
     (case dictKeyIndex mem ht k of
        None \<Rightarrow> None
      | Some (index, ht1) \<Rightarrow>
          if index = - 1 then Some (DICT_ERR, ht1)
          else if index < 0 \<or> \<not> mem 24 then None
          else
            case link_entry ht1 (nat index)
                   \<lparr>de_key = dictSetHashKey ht1 k, de_val = dictSetHashVal ht1 v\<rparr> of
              None \<Rightarrow> None
            | Some ht2 \<Rightarrow> Some (DICT_OK, ht2\<lparr>d_used := ulong (int (d_used ht2) + 1)\<rparr>))"

definition dictFind :: "('k, 'v, 'ev) dict \<Rightarrow> 'k \<Rightarrow> ('k, 'v) dictEntry option option" where
  "dictFind ht k =
     (if d_size ht = 0 then Some None
      else
        case chain ht (key_slot ht k) of
          None \<Rightarrow> None
        | Some c \<Rightarrow> Some (chain_find ht k c))"

text \<open>Storing through the entry that \<^verbatim>\<open>dictFind\<close> returned.\<close>

fun chain_store ::
  "('k, 'v, 'ev) dict \<Rightarrow> 'k \<Rightarrow> 'v \<Rightarrow> ('k, 'v) dictEntry list \<Rightarrow> ('k, 'v) dictEntry list" where
  "chain_store ht k v [] = []"
| "chain_store ht k v (he # c) =
     (if dictCompareHashKeys ht k (de_key he) then he\<lparr>de_val := v\<rparr> # c
      else he # chain_store ht k v c)"

text \<open>The result is the code's 1 or 0, the table and the events of the freed value.\<close>

definition dictReplace ::
  "(nat \<Rightarrow> bool) \<Rightarrow> ('k, 'v, 'ev) dict \<Rightarrow> 'k \<Rightarrow> 'v
     \<Rightarrow> (int \<times> ('k, 'v, 'ev) dict \<times> 'ev list) option" where
  "dictReplace mem ht k v =
     (case dictAdd mem ht k v of
        None \<Rightarrow> None
      | Some (st, ht1) \<Rightarrow>
          if st = DICT_OK then Some (1, ht1, [])
          else
            case dictFind ht1 k of
              Some (Some auxentry) \<Rightarrow>
                (let h = key_slot ht1 k in
                 Some (0, ht1\<lparr>d_table := (d_table ht1)
                            [h := chain_store ht1 k (dictSetHashVal ht1 v) (d_table ht1 ! h)]\<rparr>,
                       dictFreeEntryVal ht1 auxentry))
            | _ \<Rightarrow> None)"

text \<open>The unlinking loop of \<^verbatim>\<open>dictDelete\<close>: the chain without the entry, and the entry.\<close>

fun chain_unlink ::
  "('k, 'v, 'ev) dict \<Rightarrow> 'k \<Rightarrow> ('k, 'v) dictEntry list
     \<Rightarrow> (('k, 'v) dictEntry list \<times> ('k, 'v) dictEntry) option" where
  "chain_unlink ht k [] = None"
| "chain_unlink ht k (de # c) =
     (if dictCompareHashKeys ht k (de_key de) then Some (c, de)
      else map_option (\<lambda>(c', d). (de # c', d)) (chain_unlink ht k c))"

definition dictDelete ::
  "('k, 'v, 'ev) dict \<Rightarrow> 'k \<Rightarrow> (int \<times> ('k, 'v, 'ev) dict \<times> 'ev list) option" where
  "dictDelete ht k =
     (if d_size ht = 0 then Some (DICT_ERR, ht, [])
      else
        let h = key_slot ht k in
        case chain ht h of
          None \<Rightarrow> None
        | Some c \<Rightarrow>
            (case chain_unlink ht k c of
               None \<Rightarrow> Some (DICT_ERR, ht, [])
             | Some (c', de) \<Rightarrow>
                 Some (DICT_OK,
                       ht\<lparr>d_table := (d_table ht)[h := c'],
                          d_used := ulong (int (d_used ht) - 1)\<rparr>,
                       dictFreeEntryKey ht de @ dictFreeEntryVal ht de)))"

fun clear_chain ::
  "('k, 'v, 'ev) dict \<Rightarrow> ('k, 'v) dictEntry list \<Rightarrow> ('k, 'v, 'ev) dict \<times> 'ev list" where
  "clear_chain ht [] = (ht, [])"
| "clear_chain ht (he # nextHe) =
     (let (ht', evs) = clear_chain (ht\<lparr>d_used := ulong (int (d_used ht) - 1)\<rparr>) nextHe in
      (ht', dictFreeEntryKey ht he @ dictFreeEntryVal ht he @ evs))"

lemma clear_chain_keeps:
  "clear_chain ht c = (ht', evs)
     \<Longrightarrow> d_size ht' = d_size ht \<and> d_table ht' = d_table ht \<and> d_type ht' = d_type ht"
  by (induction ht c arbitrary: ht' evs rule: clear_chain.induct) (auto split: prod.splits)

function clear_table ::
  "('k, 'v, 'ev) dict \<Rightarrow> nat \<Rightarrow> (('k, 'v, 'ev) dict \<times> 'ev list) option" where
  "clear_table ht i =
     (if i < d_size ht \<and> 0 < d_used ht then
        case chain ht i of
          None \<Rightarrow> None
        | Some c \<Rightarrow>
            (case clear_chain ht c of
               (ht', evs) \<Rightarrow> map_option (\<lambda>(ht'', evs'). (ht'', evs @ evs')) (clear_table ht' (Suc i)))
      else Some (ht, []))"
  by pat_completeness auto
termination
  by (relation "measure (\<lambda>(ht, i). d_size ht - i)") (auto dest: clear_chain_keeps [OF sym])

declare clear_table.simps [simp del]

definition dict_clear :: "('k, 'v, 'ev) dict \<Rightarrow> (int \<times> ('k, 'v, 'ev) dict \<times> 'ev list) option" where
  "dict_clear ht =
     map_option (\<lambda>(ht', evs). (DICT_OK, dict_reset ht', evs)) (clear_table ht 0)"

definition dictRelease :: "('k, 'v, 'ev) dict \<Rightarrow> 'ev list option" where
  "dictRelease ht = map_option (\<lambda>(st, ht', evs). evs) (dict_clear ht)"

definition dictGetIterator :: "(nat \<Rightarrow> bool) \<Rightarrow> ('k, 'v) dictIterator option" where
  "dictGetIterator mem =
     (if mem 32 then Some \<lparr>it_index = - 1, it_entry = [], it_nextEntry = []\<rparr> else None)"

text \<open>
  \<^verbatim>\<open>dictNext\<close>. A pointer into a chain is the rest of the chain from there. The size is cast to
  \<^verbatim>\<open>int\<close> before it is compared.
\<close>

function dictNext ::
  "('k, 'v, 'ev) dict \<Rightarrow> ('k, 'v) dictIterator
     \<Rightarrow> (('k, 'v) dictEntry option \<times> ('k, 'v) dictIterator) option" where
  "dictNext ht iter =
     (if it_entry iter = [] then
        let iter1 = iter\<lparr>it_index := it_index iter + 1\<rparr> in
        if c_int (int (d_size ht)) \<le> it_index iter1 then Some (None, iter1)
        else if it_index iter1 < 0 then None
        else
          case chain ht (nat (it_index iter1)) of
            None \<Rightarrow> None
          | Some [] \<Rightarrow> dictNext ht (iter1\<lparr>it_entry := []\<rparr>)
          | Some (he # c) \<Rightarrow>
              Some (Some he, iter1\<lparr>it_entry := he # c, it_nextEntry := c\<rparr>)
      else
        case it_nextEntry iter of
          [] \<Rightarrow> dictNext ht (iter\<lparr>it_entry := []\<rparr>)
        | he # c \<Rightarrow> Some (Some he, iter\<lparr>it_entry := he # c, it_nextEntry := c\<rparr>))"
  by pat_completeness auto
termination
  by (relation "measures [\<lambda>(ht, iter). nat (c_int (int (d_size ht)) - it_index iter),
        \<lambda>(ht, iter). length (it_entry iter)]") (auto simp: Let_def)

declare dictNext.simps [simp del]

section \<open>The invariant\<close>

text \<open>
  What the table relies on of its type: the comparison is equality of the keys, a duplicate is
  equal to its original.
\<close>

definition type_ok :: "('k, 'v, 'ev) dictType \<Rightarrow> bool" where
  "type_ok ty \<longleftrightarrow>
     (\<forall>f a b. keyCompare ty = Some f \<longrightarrow> f a b = (a = b)) \<and>
     (\<forall>f a. keyDup ty = Some f \<longrightarrow> f a = a) \<and> (\<forall>f a. valDup ty = Some f \<longrightarrow> f a = a)"

definition entries :: "('k, 'v, 'ev) dict \<Rightarrow> ('k, 'v) dictEntry list" where
  "entries ht = concat (d_table ht)"

text \<open>Every entry is in the chain of its key's slot.\<close>

definition well_placed :: "('k, 'v, 'ev) dict \<Rightarrow> bool" where
  "well_placed ht \<longleftrightarrow>
     (\<forall>i < length (d_table ht). \<forall>he \<in> set (d_table ht ! i). key_slot ht (de_key he) = i)"

definition sized :: "('k, 'v, 'ev) dict \<Rightarrow> nat \<Rightarrow> bool" where
  "sized ht k \<longleftrightarrow> k \<le> 31 \<and> d_size ht = 2 ^ k \<and> d_sizemask ht = 2 ^ k - 1 \<and> length (d_table ht) = 2 ^ k"

definition dict_inv :: "('k, 'v, 'ev) dict \<Rightarrow> bool" where
  "dict_inv ht \<longleftrightarrow>
     type_ok (d_type ht) \<and>
     (d_size ht = 0 \<and> d_table ht = [] \<or> (\<exists>k. sized ht k)) \<and>
     d_used ht = length (entries ht) \<and> d_used ht \<le> d_size ht \<and>
     distinct (map de_key (entries ht)) \<and> well_placed ht"

text \<open>The finite map a table stands for.\<close>

definition dict_map :: "('k, 'v, 'ev) dict \<Rightarrow> 'k \<Rightarrow> 'v option" where
  "dict_map ht = map_of (map (\<lambda>he. (de_key he, de_val he)) (entries ht))"

lemma type_ok_simps [simp]:
  "type_ok (d_type ht) \<Longrightarrow> dictCompareHashKeys ht a b = (a = b)"
  "type_ok (d_type ht) \<Longrightarrow> dictSetHashKey ht a = a"
  "type_ok (d_type ht) \<Longrightarrow> dictSetHashVal ht v = v"
  by (auto simp: type_ok_def dictCompareHashKeys_def dictSetHashKey_def dictSetHashVal_def
      split: option.splits)

lemma key_slot_mod:
  assumes "sized ht k" shows "key_slot ht x = dictHashKey ht x mod 2 ^ k"
proof -
  have "dictHashKey ht x AND (2 ^ k - 1) = dictHashKey ht x mod 2 ^ k"
    by (metis mask_eq_exp_minus_1 take_bit_eq_mask take_bit_eq_mod)
  moreover have "dictHashKey ht x mod 2 ^ k \<le> dictHashKey ht x" by simp
  moreover have "dictHashKey ht x < 2 ^ 32"
    unfolding dictHashKey_def using unsigned_less [of "hashFunction (d_type ht) x"] by simp
  ultimately have "u32 (dictHashKey ht x mod 2 ^ k) = dictHashKey ht x mod 2 ^ k"
    by (intro u32_id) (rule le_less_trans)
  then show ?thesis
    using assms \<open>_ AND _ = _\<close> by (simp add: key_slot_def sized_def)
qed

lemma key_slot_less:
  assumes "sized ht k" shows "key_slot ht x < length (d_table ht)"
  using assms key_slot_mod [OF assms, of x] by (simp add: sized_def)

lemma chain_Some: "sized ht k \<Longrightarrow> chain ht (key_slot ht x) = Some (d_table ht ! key_slot ht x)"
  using key_slot_less by (simp add: chain_def)

lemma key_slot_cong [simp]:
  "key_slot (ht\<lparr>d_table := t, d_used := u\<rparr>) = key_slot ht"
  "key_slot (ht\<lparr>d_table := t\<rparr>) = key_slot ht"
  "key_slot (ht\<lparr>d_used := u\<rparr>) = key_slot ht"
  by (auto simp: key_slot_def dictHashKey_def fun_eq_iff)

lemma sized_cong [simp]:
  "sized (ht\<lparr>d_used := u\<rparr>) k = sized ht k"
  "sized (ht\<lparr>d_table := (d_table ht)[i := c]\<rparr>) k = sized ht k"
  by (auto simp: sized_def)

lemma compare_cong [simp]:
  "dictCompareHashKeys (ht\<lparr>d_used := u\<rparr>) = dictCompareHashKeys ht"
  "dictCompareHashKeys (ht\<lparr>d_table := t\<rparr>) = dictCompareHashKeys ht"
  by (auto simp: dictCompareHashKeys_def fun_eq_iff)

subsection \<open>Replacing one chain\<close>

lemma mset_concat_update:
  "i < length t \<Longrightarrow> mset (concat (t[i := c])) + mset (t ! i) = mset (concat t) + mset c"
proof (induction t arbitrary: i)
  case Nil
  then show ?case by simp
next
  case (Cons a t)
  then show ?case by (cases i) (auto simp: ac_simps)
qed

lemma mset_keys_distinct:
  "mset xs = mset ys \<Longrightarrow> distinct (map f xs) = distinct (map f ys)"
  by (metis mset_eq_imp_distinct_iff mset_map)

lemma find_key:
  "distinct (map de_key c)
     \<Longrightarrow> find (\<lambda>he. de_key he = k) c = Some he \<longleftrightarrow> he \<in> set c \<and> de_key he = k"
  by (induction c) (auto simp: image_iff)

lemma find_key_None: "find (\<lambda>he. de_key he = k) c = None \<longleftrightarrow> k \<notin> de_key ` set c"
  by (auto simp: find_None_iff)

lemma dict_map_Some:
  "distinct (map de_key (entries ht))
     \<Longrightarrow> dict_map ht k = Some v \<longleftrightarrow> (\<exists>he \<in> set (entries ht). de_key he = k \<and> de_val he = v)"
proof -
  assume d: "distinct (map de_key (entries ht))"
  have "distinct (map fst (map (\<lambda>he. (de_key he, de_val he)) (entries ht)))"
    using d by (simp add: comp_def)
  then show ?thesis
    unfolding dict_map_def by (subst map_of_eq_Some_iff) auto
qed

lemma dict_map_None: "dict_map ht k = None \<longleftrightarrow> k \<notin> de_key ` set (entries ht)"
  by (auto simp: dict_map_def map_of_eq_None_iff image_iff)

lemma dict_map_mset:
  assumes "distinct (map de_key (entries ht))" "mset (entries ht') = mset (entries ht)"
  shows "dict_map ht' = dict_map ht"
proof
  fix k
  have s: "set (entries ht') = set (entries ht)" by (rule mset_eq_setD [OF assms(2)])
  have d: "distinct (map de_key (entries ht'))"
    using assms mset_keys_distinct by blast
  show "dict_map ht' k = dict_map ht k"
  proof (cases "dict_map ht k")
    case None
    then have "dict_map ht' k = None" unfolding dict_map_None s .
    then show ?thesis using None by simp
  next
    case (Some v)
    then have "dict_map ht' k = Some v"
      using dict_map_Some [OF assms(1), of k v] dict_map_Some [OF d, of k v] s by simp
    then show ?thesis using Some by simp
  qed
qed

subsection \<open>Lookup\<close>

lemma distinct_chain:
  "distinct (map f (concat t)) \<Longrightarrow> i < length t \<Longrightarrow> distinct (map f (t ! i))"
  by (metis distinct_append id_take_nth_drop concat.simps(2) concat_append map_append)

lemma entry_in_slot:
  assumes "sized ht n" "well_placed ht" "de_key he = k"
  shows "he \<in> set (entries ht) \<longleftrightarrow> he \<in> set (d_table ht ! key_slot ht k)"
proof
  assume "he \<in> set (entries ht)"
  then obtain i where i: "i < length (d_table ht)" "he \<in> set (d_table ht ! i)"
    unfolding entries_def set_concat UN_iff by (metis in_set_conv_nth)
  moreover from this have "key_slot ht k = i" using assms(2, 3) by (auto simp: well_placed_def)
  ultimately show "he \<in> set (d_table ht ! key_slot ht k)" by simp
next
  assume "he \<in> set (d_table ht ! key_slot ht k)"
  then show "he \<in> set (entries ht)"
    using key_slot_less [OF assms(1)] by (auto simp: entries_def)
qed

lemma chain_find_spec:
  assumes "sized ht n" "dict_inv ht"
  shows "chain_find ht k (d_table ht ! key_slot ht k) = Some he \<longleftrightarrow> he \<in> set (entries ht) \<and> de_key he = k"
    and "chain_find ht k (d_table ht ! key_slot ht k) = None \<longleftrightarrow> k \<notin> de_key ` set (entries ht)"
proof -
  have t: "type_ok (d_type ht)" "well_placed ht" "distinct (map de_key (concat (d_table ht)))"
    using assms(2) by (auto simp: dict_inv_def entries_def)
  have d: "distinct (map de_key (d_table ht ! key_slot ht k))"
    by (rule distinct_chain [OF t(3) key_slot_less [OF assms(1)]])
  have f: "chain_find ht k c = find (\<lambda>he. de_key he = k) c" for c
    using t(1) by (auto simp: chain_find_def intro: arg_cong2 [where f = find])
  note in_slot = entry_in_slot [OF assms(1) t(2)]
  show "chain_find ht k (d_table ht ! key_slot ht k) = Some he \<longleftrightarrow> he \<in> set (entries ht) \<and> de_key he = k"
    unfolding f find_key [OF d] using in_slot by blast
  show "chain_find ht k (d_table ht ! key_slot ht k) = None \<longleftrightarrow> k \<notin> de_key ` set (entries ht)"
    unfolding f find_key_None using in_slot by (auto simp: image_iff)
qed

lemma dict_inv_cases:
  assumes "dict_inv ht"
  obtains (null) "d_size ht = 0" "d_table ht = []" "d_used ht = 0" | (table) k where "sized ht k" "d_size ht \<noteq> 0"
  using assms by (auto simp: dict_inv_def sized_def entries_def)

text \<open>\<^verbatim>\<open>dictFind\<close> stays inside the table and finds the entry of the key.\<close>

lemma dictFind_lookup:
  assumes "dict_inv ht"
  shows "\<exists>r. dictFind ht k = Some r \<and> dict_map ht k = map_option de_val r
     \<and> (\<forall>he. r = Some he \<longrightarrow> he \<in> set (entries ht) \<and> de_key he = k)"
  using assms
proof (cases rule: dict_inv_cases)
  case null
  then show ?thesis by (auto simp: dictFind_def dict_map_def entries_def)
next
  case (table n)
  note spec = chain_find_spec [OF table(1) assms, of k]
  have d: "distinct (map de_key (entries ht))" using assms by (simp add: dict_inv_def)
  show ?thesis
  proof (cases "chain_find ht k (d_table ht ! key_slot ht k)")
    case None
    then show ?thesis
      using table spec(2) by (simp add: dictFind_def chain_Some [OF table(1)] dict_map_None)
  next
    case (Some he)
    then have "he \<in> set (entries ht)" "de_key he = k" using spec(1) by auto
    then have "dict_map ht k = Some (de_val he)" using dict_map_Some [OF d] by blast
    then show ?thesis
      using table Some \<open>he \<in> _\<close> \<open>de_key he = k\<close>
      by (simp add: dictFind_def chain_Some [OF table(1)])
  qed
qed

subsection \<open>Moving entries to a new table\<close>

lemma link_entry_spec:
  assumes "sized n k" "well_placed n"
  shows "\<exists>n'. link_entry n (key_slot n (de_key he)) he = Some n' \<and> sized n' k \<and> well_placed n'
     \<and> mset (entries n') = add_mset he (mset (entries n))
     \<and> d_type n' = d_type n \<and> d_used n' = d_used n"
proof -
  let ?h = "key_slot n (de_key he)"
  let ?n = "n\<lparr>d_table := (d_table n)[?h := he # d_table n ! ?h]\<rparr>"
  have h: "?h < length (d_table n)" by (rule key_slot_less [OF assms(1)])
  have "mset (concat ((d_table n)[?h := he # d_table n ! ?h])) = add_mset he (mset (concat (d_table n)))"
    using mset_concat_update [OF h, of "he # d_table n ! ?h"] by simp
  moreover have "well_placed ?n"
    using assms(2) h by (auto simp: well_placed_def nth_list_update)
  ultimately show ?thesis
    using assms(1) chain_Some [OF assms(1)] by (simp add: link_entry_def entries_def)
qed

lemma ulong_dec [simp]: "0 < u \<Longrightarrow> u < 2 ^ 64 \<Longrightarrow> ulong (int u - 1) = u - 1"
  by (simp add: nat_diff_distrib)

lemma move_chain_spec:
  assumes "sized n k" "well_placed n" "length c \<le> d_used ht" "d_used ht < 2 ^ 64"
  shows "\<exists>n'. move_chain ht n c = Some (ht\<lparr>d_used := d_used ht - length c\<rparr>, n') \<and> sized n' k
     \<and> well_placed n' \<and> mset (entries n') = mset (entries n) + mset c
     \<and> d_type n' = d_type n \<and> d_used n' = d_used n"
  using assms
proof (induction c arbitrary: ht n)
  case Nil
  then show ?case by simp
next
  case (Cons he c)
  obtain n1 where n1: "link_entry n (key_slot n (de_key he)) he = Some n1" "sized n1 k" "well_placed n1"
    "mset (entries n1) = add_mset he (mset (entries n))" "d_type n1 = d_type n" "d_used n1 = d_used n"
    using link_entry_spec [OF Cons.prems(1, 2)] by blast
  have dec: "ulong (int (d_used ht) - 1) = d_used ht - 1" using Cons.prems(3, 4) by simp
  have "length c \<le> d_used (ht\<lparr>d_used := d_used ht - 1\<rparr>)" "d_used (ht\<lparr>d_used := d_used ht - 1\<rparr>) < 2 ^ 64"
    using Cons.prems(3, 4) by auto
  from Cons.IH [OF n1(2, 3) this] show ?case
    using n1 by (auto simp: dec)
qed

lemma move_table_spec:
  assumes "sized n k" "well_placed n" "d_used ht = length (concat (drop i (d_table ht)))"
    "d_used ht < 2 ^ 64" "d_size ht = length (d_table ht)"
  shows "\<exists>n'. move_table ht n i = Some (ht\<lparr>d_used := 0\<rparr>, n') \<and> sized n' k \<and> well_placed n'
     \<and> mset (entries n') = mset (entries n) + mset (concat (drop i (d_table ht)))
     \<and> d_type n' = d_type n \<and> d_used n' = d_used n"
  using assms
proof (induction "d_size ht - i" arbitrary: ht n i)
  case 0
  then show ?case by (subst move_table.simps) auto
next
  case (Suc x)
  show ?case
  proof (cases "d_used ht = 0")
    case True
    then have "concat (drop i (d_table ht)) = []" using Suc.prems(3) by (metis length_0_conv)
    then show ?thesis
      using True Suc.prems by (subst move_table.simps) (auto simp: True)
  next
    case False
    have i: "i < length (d_table ht)" using Suc.hyps(2) Suc.prems(5) by simp
    let ?c = "d_table ht ! i"
    have drop: "concat (drop i (d_table ht)) = ?c @ concat (drop (Suc i) (d_table ht))"
      by (simp only: Cons_nth_drop_Suc [OF i, symmetric] concat.simps)
    have le: "length ?c \<le> d_used ht" using Suc.prems(3) unfolding drop by simp
    obtain n1 where n1: "move_chain ht n ?c = Some (ht\<lparr>d_used := d_used ht - length ?c\<rparr>, n1)"
      "sized n1 k" "well_placed n1" "mset (entries n1) = mset (entries n) + mset ?c"
      "d_type n1 = d_type n" "d_used n1 = d_used n"
      using move_chain_spec [OF Suc.prems(1, 2) le Suc.prems(4)] by blast
    have "\<exists>n'. move_table (ht\<lparr>d_used := d_used ht - length ?c\<rparr>) n1 (Suc i) = Some (ht\<lparr>d_used := 0\<rparr>, n')
       \<and> sized n' k \<and> well_placed n'
       \<and> mset (entries n') = mset (entries n1) + mset (concat (drop (Suc i) (d_table ht)))
       \<and> d_type n' = d_type n1 \<and> d_used n' = d_used n1"
      using Suc.hyps(1) [of "ht\<lparr>d_used := d_used ht - length ?c\<rparr>" "Suc i" n1] Suc.hyps(2) Suc.prems n1(2, 3)
      by (simp add: drop)
    then obtain n' where n': "move_table (ht\<lparr>d_used := d_used ht - length ?c\<rparr>) n1 (Suc i) = Some (ht\<lparr>d_used := 0\<rparr>, n')"
      "sized n' k" "well_placed n'" "mset (entries n') = mset (entries n1) + mset (concat (drop (Suc i) (d_table ht)))"
      "d_type n' = d_type n1" "d_used n' = d_used n1" by blast
    have "chain ht i = Some ?c" using i by (simp add: chain_def)
    then have "move_table ht n i = Some (ht\<lparr>d_used := 0\<rparr>, n')"
      using False i unfolding move_table.simps [of ht n i]
      by (simp only: Suc.prems(5) n1(1) n'(1) option.case prod.case simp_thms if_True neq0_conv)
    moreover have "mset (entries n') = mset (entries n) + mset (concat (drop i (d_table ht)))"
      unfolding drop n'(4) n1(4) by simp
    ultimately show ?thesis
      using n'(2, 3) n'(5, 6) n1(5, 6) by (intro exI [of _ n'] conjI) simp_all
  qed
qed

text \<open>\<^verbatim>\<open>_dictNextPower\<close>: the smallest power of two from 4 on that holds \<open>sz\<close>.\<close>

lemma next_power_loop_pow:
  "2 ^ a < sz \<Longrightarrow> sz \<le> 2 ^ (a + d) \<Longrightarrow> \<exists>k. next_power_loop sz (2 ^ a) = 2 ^ k \<and> sz \<le> 2 ^ k \<and> 2 ^ (k - 1) < sz \<and> 0 < k \<and> k \<le> a + d"
proof (induction d arbitrary: a)
  case 0
  then show ?case by simp
next
  case (Suc d)
  have unf: "next_power_loop sz (2 ^ a) = next_power_loop sz (2 ^ Suc a)"
    using Suc.prems(1) by (subst next_power_loop.simps) (simp add: mult.commute)
  show ?case
  proof (cases "2 ^ Suc a < sz")
    case True
    from Suc.IH [OF this] Suc.prems(2) unf show ?thesis by simp
  next
    case False
    then have "next_power_loop sz (2 ^ Suc a) = 2 ^ Suc a"
      by (subst next_power_loop.simps) simp
    then show ?thesis using unf False Suc.prems(1) by (intro exI [of _ "Suc a"]) auto
  qed
qed

lemma dictNextPower_pow:
  assumes "sz \<le> 2 ^ d" "2 \<le> d" "d \<le> 62"
  shows "\<exists>k. dictNextPower sz = 2 ^ k \<and> sz \<le> 2 ^ k \<and> 2 \<le> k \<and> k \<le> d \<and> (k = 2 \<or> 2 ^ (k - 1) < sz)"
proof -
  have "sz \<le> 2 ^ 62" using assms(1) power_increasing [OF assms(3), of "2 :: nat"] by simp
  then have eq: "dictNextPower sz = next_power_loop sz (2 ^ 2)"
    by (simp add: dictNextPower_def DICT_HT_INITIAL_SIZE_def)
  show ?thesis
  proof (cases "(2 :: nat) ^ 2 < sz")
    case True
    have "sz \<le> 2 ^ (2 + (d - 2))" using assms(1, 2) by (metis le_add_diff_inverse)
    from next_power_loop_pow [OF True this] obtain k where k: "next_power_loop sz (2 ^ 2) = 2 ^ k"
      "sz \<le> 2 ^ k" "2 ^ (k - 1) < sz" "k \<le> d" using assms(2) by auto
    have "\<not> k < 2" using k(2) True by (auto simp: less_2_cases_iff intro: ccontr)
    then show ?thesis using eq k by auto
  next
    case False
    then show ?thesis
      using assms(2) unfolding eq by (intro exI [of _ 2], subst next_power_loop.simps) simp
  qed
qed

lemma dictNextPower_exact: "2 \<le> k \<Longrightarrow> k \<le> 31 \<Longrightarrow> dictNextPower (2 ^ k) = 2 ^ k"
  using dictNextPower_pow [of "2 ^ k" k] by (auto dest: order.antisym [OF _ power_increasing])

lemma dictExpand_spec:
  assumes inv: "dict_inv ht" and used: "d_used ht \<le> sz" and sz: "sz \<le> 2 ^ 31" and mem: "\<forall>n. mem n"
  shows "\<exists>k ht'. dictExpand mem ht sz = Some (DICT_OK, ht') \<and> dict_inv ht' \<and> sized ht' k \<and> sz \<le> 2 ^ k
     \<and> mset (entries ht') = mset (entries ht) \<and> d_used ht' = d_used ht \<and> d_type ht' = d_type ht"
proof -
  obtain k where k: "dictNextPower sz = 2 ^ k" "sz \<le> 2 ^ k" "k \<le> 31"
    using dictNextPower_pow [OF sz] by auto
  let ?n = "(dict_init (d_type ht))\<lparr>d_size := 2 ^ k, d_sizemask := 2 ^ k - 1,
             d_table := replicate (2 ^ k) [], d_used := d_used ht\<rparr>"
  have n: "sized ?n k" "well_placed ?n" "entries ?n = []" "d_type ?n = d_type ht"
    using k(3) by (auto simp: sized_def well_placed_def entries_def dict_init_def)
  have eq: "d_used ht = length (concat (drop 0 (d_table ht)))" "d_size ht = length (d_table ht)"
    and lt: "d_used ht < 2 ^ 64"
    using inv used sz by (auto simp: dict_inv_def entries_def sized_def)
  obtain n' where n': "move_table ht ?n 0 = Some (ht\<lparr>d_used := 0\<rparr>, n')" "sized n' k" "well_placed n'"
    "mset (entries n') = mset (entries ht)" "d_type n' = d_type ht" "d_used n' = d_used ht"
    using move_table_spec [OF n(1, 2) eq(1) lt eq(2)] n(3, 4)
    by (auto simp: entries_def)
  have "\<not> sz < d_used ht" using used by simp
  then have "dictExpand mem ht sz = Some (DICT_OK, n')"
    by (simp add: dictExpand_def k(1) mem n'(1) [simplified])
  moreover have "dict_inv n'"
    using inv n' used k(2) mset_keys_distinct [OF n'(4), of de_key] mset_eq_length [OF n'(4)]
    by (auto simp: dict_inv_def sized_def)
  ultimately show ?thesis using n' k(2) by blast
qed

lemma dictExpandIfNeeded_spec:
  assumes inv: "dict_inv ht" and used: "d_used ht < 2 ^ 31" and mem: "\<forall>n. mem n"
  shows "\<exists>k ht'. dictExpandIfNeeded mem ht = Some (DICT_OK, ht') \<and> dict_inv ht' \<and> sized ht' k
     \<and> d_used ht' < d_size ht'
     \<and> mset (entries ht') = mset (entries ht) \<and> d_used ht' = d_used ht \<and> d_type ht' = d_type ht"
  using inv
proof (cases rule: dict_inv_cases)
  case null
  have le: "d_used ht \<le> DICT_HT_INITIAL_SIZE" "DICT_HT_INITIAL_SIZE \<le> 2 ^ 31"
    using null by (simp_all add: DICT_HT_INITIAL_SIZE_def)
  obtain k ht' where e: "dictExpand mem ht DICT_HT_INITIAL_SIZE = Some (DICT_OK, ht')" "dict_inv ht'"
    "sized ht' k" "mset (entries ht') = mset (entries ht)" "d_used ht' = d_used ht" "d_type ht' = d_type ht"
    using dictExpand_spec [OF inv le mem] by blast
  then have "0 < d_size ht'" by (simp add: sized_def)
  then show ?thesis using e null by (auto simp: dictExpandIfNeeded_def)
next
  case (table k0)
  show ?thesis
  proof (cases "d_used ht = d_size ht")
    case False
    then show ?thesis using table inv by (auto simp: dictExpandIfNeeded_def dict_inv_def)
  next
    case True
    then have pow: "(2 :: nat) ^ k0 < 2 ^ 31" using used table by (simp add: sized_def)
    then have "k0 < 31" by (rule power_less_imp_less_exp [rotated]) simp
    then have le: "d_used ht \<le> d_size ht * 2" "d_size ht * 2 \<le> 2 ^ 31"
      using True table power_increasing [of "Suc k0" 31 "2 :: nat"] by (simp_all add: sized_def)
    then have ul: "ulong (int (d_size ht * 2)) = d_size ht * 2" by (subst ulong_id) auto
    obtain k ht' where e: "dictExpand mem ht (d_size ht * 2) = Some (DICT_OK, ht')" "dict_inv ht'"
      "sized ht' k" "d_size ht * 2 \<le> 2 ^ k" "mset (entries ht') = mset (entries ht)"
      "d_used ht' = d_used ht" "d_type ht' = d_type ht"
      using dictExpand_spec [OF inv le mem] by blast
    then have "d_used ht' < d_size ht'" using True table(2) unfolding sized_def by linarith
    then show ?thesis using e True table(2) ul by (auto simp: dictExpandIfNeeded_def)
  qed
qed

section \<open>Insertion\<close>

lemma c_int_slot:
  assumes "sized ht k" shows "c_int (int (key_slot ht x)) = int (key_slot ht x)"
proof -
  have "key_slot ht x < 2 ^ k" using key_slot_less [OF assms] assms by (simp add: sized_def)
  also have "(2 :: nat) ^ k \<le> 2 ^ 31" using assms by (intro power_increasing) (auto simp: sized_def)
  finally show ?thesis by (intro c_int_id) auto
qed

lemma dict_inv_cong:
  "dict_inv ht \<Longrightarrow> mset (entries ht') = mset (entries ht) \<Longrightarrow> dict_map ht' = dict_map ht"
  by (rule dict_map_mset) (auto simp: dict_inv_def)

lemma dict_map_Cons:
  assumes "distinct (map de_key (entries ht'))" "mset (entries ht') = add_mset he (mset (entries ht))"
  shows "dict_map ht' = (dict_map ht)(de_key he \<mapsto> de_val he)"
proof -
  let ?m = "\<lambda>xs. map_of (map (\<lambda>he. (de_key he, de_val he)) xs)"
  have d: "distinct (map de_key (he # entries ht))"
    using assms mset_keys_distinct [of "entries ht'" "he # entries ht" de_key] by simp
  have "dict_map ht' = ?m (he # entries ht)"
    unfolding dict_map_def
    by (rule map_of_inject_set [THEN iffD2])
      (use assms d mset_eq_setD [of "entries ht'" "he # entries ht"] in \<open>auto simp: comp_def\<close>)
  then show ?thesis by (simp add: dict_map_def)
qed

text \<open>
  \<^verbatim>\<open>dictAdd\<close> stores the entry of a new key, refuses a known one and keeps the invariant.
\<close>

lemma dictAdd_spec:
  assumes inv: "dict_inv ht" and used: "d_used ht < 2 ^ 31" and mem: "\<forall>n. mem n"
  shows "\<exists>ht' st. dictAdd mem ht k v = Some (st, ht') \<and> dict_inv ht' \<and> d_type ht' = d_type ht
     \<and> (\<exists>n. sized ht' n)
     \<and> (if dict_map ht k = None
        then st = DICT_OK \<and> dict_map ht' = (dict_map ht)(k \<mapsto> v) \<and> d_used ht' = Suc (d_used ht)
        else st = DICT_ERR \<and> dict_map ht' = dict_map ht \<and> d_used ht' = d_used ht)"
proof -
  obtain n ht1 where e: "dictExpandIfNeeded mem ht = Some (DICT_OK, ht1)" "dict_inv ht1" "sized ht1 n"
    "d_used ht1 < d_size ht1"
    "mset (entries ht1) = mset (entries ht)" "d_used ht1 = d_used ht" "d_type ht1 = d_type ht"
    using dictExpandIfNeeded_spec [OF inv used mem] by blast
  have map1: "dict_map ht1 = dict_map ht" by (rule dict_inv_cong [OF inv e(5)])
  have ty: "type_ok (d_type ht1)" "well_placed ht1" "distinct (map de_key (entries ht1))"
    using e(2) by (auto simp: dict_inv_def)
  let ?h = "key_slot ht1 k"
  note spec = chain_find_spec [OF e(3, 2), of k]
  show ?thesis
  proof (cases "dict_map ht k")
    case (Some w)
    then have "chain_find ht1 k (d_table ht1 ! ?h) \<noteq> None"
      using spec(2) dict_map_None [of ht1 k] map1 by auto
    then have "dictKeyIndex mem ht k = Some (- 1, ht1)"
      by (auto simp: dictKeyIndex_def e(1) chain_Some [OF e(3)] DICT_OK_def DICT_ERR_def Let_def)
    then have "dictAdd mem ht k v = Some (DICT_ERR, ht1)" by (simp add: dictAdd_def)
    then show ?thesis using Some e map1 by auto
  next
    case None
    then have new: "k \<notin> de_key ` set (entries ht1)" using dict_map_None [of ht1 k] map1 by simp
    then have "chain_find ht1 k (d_table ht1 ! ?h) = None" using spec(2) by simp
    then have ki: "dictKeyIndex mem ht k = Some (int ?h, ht1)"
      using c_int_slot [OF e(3), of k]
      by (simp add: dictKeyIndex_def e(1) chain_Some [OF e(3)] DICT_OK_def DICT_ERR_def Let_def)
    let ?he = "\<lparr>de_key = k, de_val = v\<rparr>"
    obtain ht2 where l: "link_entry ht1 ?h ?he = Some ht2" "sized ht2 n" "well_placed ht2"
      "mset (entries ht2) = add_mset ?he (mset (entries ht1))" "d_type ht2 = d_type ht1" "d_used ht2 = d_used ht1"
      using link_entry_spec [OF e(3) ty(2), of ?he] by auto
    have d2: "distinct (map de_key (entries ht2))"
      using mset_keys_distinct [of "entries ht2" "?he # entries ht1" de_key] l(4) ty(3) new by simp
    have ul: "ulong (int (d_used ht2) + 1) = Suc (d_used ht)"
      using used e(6) l(6) by (subst ulong_id) auto
    define ht3 where "ht3 = ht2\<lparr>d_used := Suc (d_used ht)\<rparr>"
    have add: "dictAdd mem ht k v = Some (DICT_OK, ht3)"
      using l(1) ty(1) ul by (simp add: dictAdd_def ki mem ht3_def)
    have ent3: "entries ht3 = entries ht2" by (simp add: ht3_def entries_def)
    have len: "length (entries ht3) = Suc (d_used ht)"
      using mset_eq_length [of "entries ht2" "?he # entries ht1"] l(4) e(2, 6) ent3
      by (simp add: dict_inv_def)
    have inv3: "dict_inv ht3"
      using e(2, 4, 6) l(2, 3, 5) e(3) d2 len ent3
      by (auto simp: dict_inv_def well_placed_def ht3_def sized_def)
    have "dict_map ht3 = (dict_map ht1)(k \<mapsto> v)"
      using dict_map_Cons [of ht3 ?he ht1] d2 l(4) ent3 by simp
    then show ?thesis
      using None add inv3 l(2, 5) e(7) map1 by (auto simp: ht3_def)
  qed
qed

section \<open>Replacement and removal\<close>

lemma mset_update_add:
  assumes "i < length t" "mset c = add_mset he (mset (t ! i))"
  shows "mset (concat (t[i := c])) = add_mset he (mset (concat t))"
  using mset_concat_update [OF assms(1), of c] assms(2) by simp

lemma mset_update_remove:
  assumes "i < length t" "mset (t ! i) = add_mset he (mset c)"
  shows "mset (concat t) = add_mset he (mset (concat (t[i := c])))"
  using mset_concat_update [OF assms(1), of c] assms(2) by simp

lemma chain_store_spec:
  assumes "type_ok (d_type ht)" "chain_find ht k c = Some he"
  shows "\<exists>R. mset c = add_mset he R \<and> mset (chain_store ht k v c) = add_mset (he\<lparr>de_val := v\<rparr>) R"
  using assms
proof (induction c)
  case Nil
  then show ?case by (simp add: chain_find_def)
next
  case (Cons a c)
  show ?case
  proof (cases "de_key a = k")
    case True
    then show ?thesis using Cons.prems by (auto simp: chain_find_def)
  next
    case False
    then have ne: "k \<noteq> de_key a" by simp
    then have "chain_find ht k c = Some he" using Cons.prems by (simp add: chain_find_def)
    from Cons.IH [OF Cons.prems(1) this] obtain R where
      "mset c = add_mset he R" "mset (chain_store ht k v c) = add_mset (he\<lparr>de_val := v\<rparr>) R" by blast
    then show ?thesis using ne Cons.prems(1) by (intro exI [of _ "add_mset a R"]) (simp add: add_mset_commute)
  qed
qed

lemma chain_store_keys: "map de_key (chain_store ht k v c) = map de_key c"
  by (induction c) auto

lemma chain_unlink_spec:
  assumes "type_ok (d_type ht)"
  shows "case chain_find ht k c of
           None \<Rightarrow> chain_unlink ht k c = None
         | Some he \<Rightarrow> \<exists>c'. chain_unlink ht k c = Some (c', he) \<and> mset c = add_mset he (mset c')"
proof (induction c)
  case Nil
  then show ?case by (simp add: chain_find_def)
next
  case (Cons a c)
  show ?case
  proof (cases "de_key a = k")
    case True
    then show ?thesis using assms by (simp add: chain_find_def)
  next
    case False
    then have ne: "k \<noteq> de_key a" by simp
    then have "chain_find ht k (a # c) = chain_find ht k c" using assms by (simp add: chain_find_def)
    then show ?thesis using Cons.IH ne assms by (auto simp: add_mset_commute split: option.splits)
  qed
qed

lemma well_placed_update:
  assumes "well_placed ht" "h < length (d_table ht)" "\<And>he. he \<in> set c \<Longrightarrow> key_slot ht (de_key he) = h"
  shows "well_placed (ht\<lparr>d_table := (d_table ht)[h := c]\<rparr>)"
  using assms by (auto simp: well_placed_def nth_list_update)

lemma chain_keys_placed:
  "well_placed ht \<Longrightarrow> h < length (d_table ht) \<Longrightarrow> he \<in> set (d_table ht ! h) \<Longrightarrow> key_slot ht (de_key he) = h"
  by (auto simp: well_placed_def)

text \<open>
  \<^verbatim>\<open>dictReplace\<close> binds the key, frees the value it replaces and says whether the key was new.
\<close>

lemma dictReplace_spec:
  assumes inv: "dict_inv ht" and used: "d_used ht < 2 ^ 31" and mem: "\<forall>n. mem n"
  shows "\<exists>ht' r evs. dictReplace mem ht k v = Some (r, ht', evs) \<and> dict_inv ht' \<and> d_type ht' = d_type ht
     \<and> dict_map ht' = (dict_map ht)(k \<mapsto> v)
     \<and> (case dict_map ht k of
          None \<Rightarrow> r = 1 \<and> evs = [] \<and> d_used ht' = Suc (d_used ht)
        | Some w \<Rightarrow> r = 0 \<and> d_used ht' = d_used ht
            \<and> evs = (case valDestructor (d_type ht) of None \<Rightarrow> [] | Some f \<Rightarrow> f w))"
proof -
  obtain st ht1 n where a: "dictAdd mem ht k v = Some (st, ht1)" "dict_inv ht1" "d_type ht1 = d_type ht"
    "sized ht1 n"
    "if dict_map ht k = None
     then st = DICT_OK \<and> dict_map ht1 = (dict_map ht)(k \<mapsto> v) \<and> d_used ht1 = Suc (d_used ht)
     else st = DICT_ERR \<and> dict_map ht1 = dict_map ht \<and> d_used ht1 = d_used ht"
    using dictAdd_spec [OF inv used mem, of k v] by blast
  show ?thesis
  proof (cases "dict_map ht k")
    case None
    then show ?thesis using a by (simp add: dictReplace_def)
  next
    case (Some w)
    have st: "st = DICT_ERR" "dict_map ht1 = dict_map ht" "d_used ht1 = d_used ht"
      using a(5) Some by auto
    have ty: "type_ok (d_type ht1)" "well_placed ht1" "distinct (map de_key (entries ht1))"
      "d_used ht1 = length (entries ht1)" "d_used ht1 \<le> d_size ht1"
      using a(2) by (auto simp: dict_inv_def)
    let ?h = "key_slot ht1 k"
    have h: "?h < length (d_table ht1)" by (rule key_slot_less [OF a(4)])
    obtain he where f: "dictFind ht1 k = Some (Some he)" "de_val he = w" "de_key he = k"
      using dictFind_lookup [OF a(2), of k] st(2) Some by (auto simp: map_option_eq_Some dest: sym)
    have "d_size ht1 \<noteq> 0" using a(4) by (simp add: sized_def)
    then have cf: "chain_find ht1 k (d_table ht1 ! ?h) = Some he"
      using f(1) by (simp add: dictFind_def chain_Some [OF a(4)])
    let ?c = "chain_store ht1 k v (d_table ht1 ! ?h)"
    obtain R where R: "mset (d_table ht1 ! ?h) = add_mset he R" "mset ?c = add_mset (he\<lparr>de_val := v\<rparr>) R"
      using chain_store_spec [OF ty(1) cf] by blast
    define ht2 where "ht2 = ht1\<lparr>d_table := (d_table ht1)[?h := ?c]\<rparr>"
    define ht0 where "ht0 = ht1\<lparr>d_table := [SOME ys. mset ys = mset (entries ht1) - {#he#}]\<rparr>"
    have in1: "he \<in> set (entries ht1)"
      using chain_find_spec(1) [OF a(4, 2), of k he] cf by simp
    have e0: "mset (entries ht0) = mset (entries ht1) - {#he#}"
      using someI_ex [OF ex_mset, of "mset (entries ht1) - {#he#}"] by (simp add: ht0_def entries_def)
    then have e1: "mset (entries ht1) = add_mset he (mset (entries ht0))"
      using in1 by simp
    have e2: "mset (entries ht2) = add_mset (he\<lparr>de_val := v\<rparr>) (mset (entries ht0))"
      using mset_concat_update [OF h, of ?c] R e1 by (simp add: ht2_def entries_def)
    have "mset (map de_key (entries ht2)) = mset (map de_key (entries ht1))"
      using e1 e2 by simp
    then have d2: "distinct (map de_key (entries ht2))"
      using ty(3) mset_eq_imp_distinct_iff by blast
    have m: "dict_map ht2 = (dict_map ht1)(k \<mapsto> v)"
      using dict_map_Cons [OF ty(3) e1] dict_map_Cons [OF d2 e2] f(3) by simp
    have len: "length (entries ht2) = length (entries ht1)"
      using arg_cong [OF e1, of size] arg_cong [OF e2, of size] by simp
    have wp: "well_placed ht2"
      unfolding ht2_def
    proof (rule well_placed_update [OF ty(2) h])
      fix he' assume "he' \<in> set ?c"
      then have "de_key he' \<in> de_key ` set (d_table ht1 ! ?h)"
        using chain_store_keys [of ht1 k v "d_table ht1 ! ?h"] by (metis image_eqI image_set)
      then show "key_slot ht1 (de_key he') = ?h"
        using chain_keys_placed [OF ty(2) h] by auto
    qed
    have inv2: "dict_inv ht2"
      using ty a(2, 4) wp d2 len by (auto simp: dict_inv_def ht2_def sized_def)
    have "dictReplace mem ht k v = Some (0, ht2, dictFreeEntryVal ht1 he)"
      using a(1) st(1) f(1) ty(1) by (simp add: dictReplace_def DICT_OK_def DICT_ERR_def Let_def ht2_def)
    then show ?thesis
      using Some inv2 m st a(3) f(2) by (auto simp: dictFreeEntryVal_def ht2_def)
  qed
qed

lemma dictDelete_spec:
  assumes inv: "dict_inv ht" and used: "d_used ht < 2 ^ 64"
  shows "\<exists>ht' st evs. dictDelete ht k = Some (st, ht', evs) \<and> dict_inv ht' \<and> d_type ht' = d_type ht
     \<and> dict_map ht' = (dict_map ht)(k := None)
     \<and> (case dict_map ht k of
          None \<Rightarrow> st = DICT_ERR \<and> evs = [] \<and> ht' = ht
        | Some w \<Rightarrow> st = DICT_OK \<and> Suc (d_used ht') = d_used ht
            \<and> evs = (case keyDestructor (d_type ht) of None \<Rightarrow> [] | Some f \<Rightarrow> f k)
                  @ (case valDestructor (d_type ht) of None \<Rightarrow> [] | Some f \<Rightarrow> f w))"
  using inv
proof (cases rule: dict_inv_cases)
  case null
  then have "dict_map ht = Map.empty" by (simp add: dict_map_def entries_def)
  then show ?thesis using null inv by (simp add: dictDelete_def)
next
  case (table n)
  have ty: "type_ok (d_type ht)" "well_placed ht" "distinct (map de_key (entries ht))"
    "d_used ht = length (entries ht)" "d_used ht \<le> d_size ht"
    using inv by (auto simp: dict_inv_def)
  let ?h = "key_slot ht k"
  have h: "?h < length (d_table ht)" by (rule key_slot_less [OF table(1)])
  note spec = chain_find_spec [OF table(1) inv, of k]
  note un = chain_unlink_spec [OF ty(1), of k "d_table ht ! ?h"]
  show ?thesis
  proof (cases "chain_find ht k (d_table ht ! ?h)")
    case None
    then have "dict_map ht k = None" using spec(2) dict_map_None by fastforce
    then show ?thesis
      using None un table(2) inv
      by (auto simp: dictDelete_def chain_Some [OF table(1)] Let_def fun_upd_idem)
  next
    case (Some he)
    obtain c' where c': "chain_unlink ht k (d_table ht ! ?h) = Some (c', he)"
      "mset (d_table ht ! ?h) = add_mset he (mset c')"
      using un Some by auto
    have he: "he \<in> set (entries ht)" "de_key he = k" using spec(1) Some by auto
    then have look: "dict_map ht k = Some (de_val he)" using dict_map_Some [OF ty(3)] by blast
    define ht2 where "ht2 = ht\<lparr>d_table := (d_table ht)[?h := c'], d_used := ulong (int (d_used ht) - 1)\<rparr>"
    have e: "mset (entries ht) = add_mset he (mset (entries ht2))"
      using mset_update_remove [OF h c'(2)] by (simp add: entries_def ht2_def)
    have d2: "distinct (map de_key (he # entries ht2))"
      using mset_keys_distinct [of "entries ht" "he # entries ht2" de_key] e ty(3) by simp
    have "dict_map ht2 k = None" using d2 he(2) by (auto simp: dict_map_None)
    then have m: "dict_map ht2 = (dict_map ht)(k := None)"
      using dict_map_Cons [OF ty(3) e] he(2) by auto
    have len: "Suc (length (entries ht2)) = length (entries ht)"
      using arg_cong [OF e, of size] by simp
    then have ul: "ulong (int (d_used ht) - 1) = length (entries ht2)"
      using ty(4) used by (subst ulong_dec) auto
    have "set c' \<subseteq> set (d_table ht ! ?h)" using mset_eq_setD [of "d_table ht ! ?h" "he # c'"] c'(2) by auto
    then have "well_placed (ht\<lparr>d_table := (d_table ht)[?h := c']\<rparr>)"
      using chain_keys_placed [OF ty(2) h] by (intro well_placed_update [OF ty(2) h]) auto
    then have "well_placed ht2" by (simp add: well_placed_def ht2_def)
    then have inv2: "dict_inv ht2"
      using ty d2 table(1) len ul by (auto simp: dict_inv_def ht2_def sized_def)
    have "dictDelete ht k = Some (DICT_OK, ht2, dictFreeEntryKey ht he @ dictFreeEntryVal ht he)"
      using table(2) c'(1) by (simp add: dictDelete_def chain_Some [OF table(1)] Let_def ht2_def)
    then show ?thesis
      using look inv2 m he(2) ul len ty(4)
      by (auto simp: dictFreeEntryKey_def dictFreeEntryVal_def ht2_def)
  qed
qed

lemma dict_used_le: "dict_inv ht \<Longrightarrow> d_used ht \<le> 2 ^ 31"
proof -
  assume inv: "dict_inv ht"
  then have le: "d_used ht \<le> d_size ht" by (simp add: dict_inv_def)
  from inv show ?thesis
  proof (cases rule: dict_inv_cases)
    case (table k)
    then have "(2 :: nat) ^ k \<le> 2 ^ 31" by (intro power_increasing) (auto simp: sized_def)
    then show ?thesis using le table(1) unfolding sized_def by linarith
  qed simp
qed

section \<open>The table as a map\<close>

definition dict_look :: "('k, 'v, 'ev) dict \<Rightarrow> 'k \<Rightarrow> 'v option" where
  "dict_look ht k = (case dictFind ht k of Some (Some he) \<Rightarrow> Some (de_val he) | _ \<Rightarrow> None)"

definition dict_put :: "'k \<Rightarrow> 'v \<Rightarrow> ('k, 'v, 'ev) dict \<Rightarrow> ('k, 'v, 'ev) dict" where
  "dict_put k v ht = (case dictReplace (\<lambda>n. True) ht k v of Some (r, ht', evs) \<Rightarrow> ht' | None \<Rightarrow> ht)"

definition dict_remove :: "'k \<Rightarrow> ('k, 'v, 'ev) dict \<Rightarrow> ('k, 'v, 'ev) dict" where
  "dict_remove k ht = (case dictDelete ht k of Some (st, ht', evs) \<Rightarrow> ht' | None \<Rightarrow> ht)"

definition dict_room :: "nat \<Rightarrow> ('k, 'v, 'ev) dict \<Rightarrow> bool" where
  "dict_room n ht \<longleftrightarrow> d_used ht + n \<le> 2 ^ 31"

lemma dict_look_map: "dict_inv ht \<Longrightarrow> dict_look ht k = dict_map ht k"
  using dictFind_lookup [of ht k] by (auto simp: dict_look_def split: option.splits)

lemma dict_put_spec:
  assumes "dict_inv ht" "dict_room (Suc n) ht"
  shows "dict_inv (dict_put k v ht) \<and> dict_map (dict_put k v ht) = (dict_map ht)(k \<mapsto> v)
    \<and> dict_room n (dict_put k v ht)"
proof -
  have "d_used ht < 2 ^ 31" using assms(2) by (simp add: dict_room_def)
  from dictReplace_spec [OF assms(1) this, of "\<lambda>n. True" k v] show ?thesis
    using assms(2) by (auto simp: dict_put_def dict_room_def split: option.splits)
qed

lemma dict_remove_spec:
  assumes "dict_inv ht"
  shows "dict_inv (dict_remove k ht) \<and> dict_map (dict_remove k ht) = (dict_map ht)(k := None)
    \<and> d_used (dict_remove k ht) \<le> d_used ht"
proof -
  have "d_used ht < 2 ^ 64" using dict_used_le [OF assms] by simp
  from dictDelete_spec [OF assms this, of k] show ?thesis
    by (auto simp: dict_remove_def split: option.splits)
qed

interpretation dict: bounded_map_adt dict_look dict_put dict_remove dict_inv dict_room
proof unfold_locales
  fix ht :: "('a, 'b, 'c) dict" and n k v k'
  assume inv: "dict_inv ht"
  show "dict_look (dict_remove k ht) k' = (if k' = k then None else dict_look ht k')"
    "dict_inv (dict_remove k ht)"
    using dict_remove_spec [OF inv, of k] inv by (auto simp: dict_look_map)
  show "dict_room n (dict_remove k ht)" if "dict_room n ht"
    using that dict_remove_spec [OF inv, of k] by (simp add: dict_room_def)
  assume room: "dict_room (Suc n) ht"
  show "dict_look (dict_put k v ht) k' = (if k' = k then Some v else dict_look ht k')"
    "dict_inv (dict_put k v ht)" "dict_room n (dict_put k v ht)"
    using dict_put_spec [OF inv room, of k v] inv by (auto simp: dict_look_map)
qed

lemma dict_inv_init: "type_ok ty \<Longrightarrow> dict_inv (dict_init ty)"
  by (simp add: dict_inv_def dict_init_def entries_def well_placed_def)

section \<open>Clearing\<close>

definition free_events :: "('k, 'v, 'ev) dict \<Rightarrow> ('k, 'v) dictEntry list \<Rightarrow> 'ev list" where
  "free_events ht es = concat (map (\<lambda>he. dictFreeEntryKey ht he @ dictFreeEntryVal ht he) es)"

lemma free_events_cong: "d_type ht' = d_type ht \<Longrightarrow> free_events ht' = free_events ht"
  by (auto simp: free_events_def dictFreeEntryKey_def dictFreeEntryVal_def fun_eq_iff)

lemma free_events_simps [simp]:
  "free_events ht [] = []"
  "free_events ht (he # es) = dictFreeEntryKey ht he @ dictFreeEntryVal ht he @ free_events ht es"
  "free_events ht (es @ es') = free_events ht es @ free_events ht es'"
  by (simp_all add: free_events_def)

lemma clear_chain_spec:
  "length c \<le> d_used ht \<Longrightarrow> d_used ht < 2 ^ 64
     \<Longrightarrow> clear_chain ht c = (ht\<lparr>d_used := d_used ht - length c\<rparr>, free_events ht c)"
proof (induction c arbitrary: ht)
  case Nil
  then show ?case by simp
next
  case (Cons he c)
  have "ulong (int (d_used ht) - 1) = d_used ht - 1" using Cons.prems by simp
  then show ?case
    using Cons.IH [of "ht\<lparr>d_used := d_used ht - 1\<rparr>"] Cons.prems
      free_events_cong [of "ht\<lparr>d_used := d_used ht - 1\<rparr>" ht]
    by simp
qed

lemma clear_table_spec:
  assumes "d_used ht = length (concat (drop i (d_table ht)))"
    "d_used ht < 2 ^ 64" "d_size ht = length (d_table ht)"
  shows "clear_table ht i = Some (ht\<lparr>d_used := 0\<rparr>, free_events ht (concat (drop i (d_table ht))))"
  using assms
proof (induction "d_size ht - i" arbitrary: ht i)
  case 0
  then show ?case by (subst clear_table.simps) auto
next
  case (Suc x)
  show ?case
  proof (cases "d_used ht = 0")
    case True
    then have "concat (drop i (d_table ht)) = []" using Suc.prems(1) by (metis length_0_conv)
    then show ?thesis using True by (subst clear_table.simps) (simp del: concat_eq_Nil_conv)
  next
    case False
    have i: "i < length (d_table ht)" using Suc.hyps(2) Suc.prems(3) by simp
    let ?c = "d_table ht ! i"
    let ?ht = "ht\<lparr>d_used := d_used ht - length ?c\<rparr>"
    have drop: "concat (drop i (d_table ht)) = ?c @ concat (drop (Suc i) (d_table ht))"
      by (simp only: Cons_nth_drop_Suc [OF i, symmetric] concat.simps)
    have le: "length ?c \<le> d_used ht" using Suc.prems(1) unfolding drop by simp
    have "clear_table ?ht (Suc i)
        = Some (?ht\<lparr>d_used := 0\<rparr>, free_events ?ht (concat (drop (Suc i) (d_table ?ht))))"
      using Suc.hyps(2) Suc.prems by (intro Suc.hyps(1)) (simp_all add: drop)
    moreover have "free_events ?ht = free_events ht" by (rule free_events_cong) simp
    moreover have "chain ht i = Some ?c" using i by (simp add: chain_def)
    moreover have "i < d_size ht \<and> 0 < d_used ht" using i False Suc.prems(3) by simp
    ultimately have "clear_table ht i
        = Some (ht\<lparr>d_used := 0\<rparr>, free_events ht ?c @ free_events ht (concat (drop (Suc i) (d_table ht))))"
      unfolding clear_table.simps [of ht i] by (simp add: clear_chain_spec [OF le Suc.prems(2)])
    then show ?thesis by (simp add: drop)
  qed
qed

text \<open>\<^verbatim>\<open>_dictClear\<close> frees every entry once and leaves an empty table.\<close>

lemma dict_clear_spec:
  assumes inv: "dict_inv ht"
  shows "dict_clear ht = Some (DICT_OK, dict_init (d_type ht), free_events ht (entries ht))"
proof -
  have "d_used ht = length (concat (drop 0 (d_table ht)))" "d_size ht = length (d_table ht)"
    using inv by (auto simp: dict_inv_def entries_def sized_def)
  moreover have "d_used ht < 2 ^ 64" using dict_used_le [OF inv] by simp
  ultimately have "clear_table ht 0 = Some (ht\<lparr>d_used := 0\<rparr>, free_events ht (entries ht))"
    using clear_table_spec [of ht 0] by (simp add: entries_def)
  then show ?thesis by (simp add: dict_clear_def dict_reset_def dict_init_def)
qed

section \<open>Iteration\<close>

text \<open>The entries an iterator has still to visit.\<close>

definition it_rest :: "('k, 'v, 'ev) dict \<Rightarrow> ('k, 'v) dictIterator \<Rightarrow> ('k, 'v) dictEntry list" where
  "it_rest ht it =
     (if it_entry it = [] then [] else it_nextEntry it)
       @ concat (drop (nat (it_index it + 1)) (d_table ht))"

lemma signed_size:
  assumes "sized ht k" "k \<le> 30"
  shows "c_int (int (d_size ht)) = int (length (d_table ht))"
proof -
  have "(2 :: nat) ^ k \<le> 2 ^ 30" by (rule power_increasing [OF assms(2)]) simp
  then have "d_size ht \<le> 2 ^ 30" "d_size ht = length (d_table ht)"
    using assms(1) unfolding sized_def by auto
  then show ?thesis by (subst c_int_id) auto
qed

lemma dictNext_null:
  assumes "sized ht k" "k \<le> 30" "- 1 \<le> it_index it" "it_entry it = []"
  shows "\<exists>it'. - 1 \<le> it_index it' \<and>
     (case it_rest ht it of
        [] \<Rightarrow> dictNext ht it = Some (None, it')
      | he # r \<Rightarrow> dictNext ht it = Some (Some he, it') \<and> it_rest ht it' = r \<and> it_entry it' \<noteq> []
          \<and> nat (it_index it') < length (d_table ht) \<and> 0 \<le> it_index it'
          \<and> set (he # it_nextEntry it') \<subseteq> set (d_table ht ! nat (it_index it')))"
  using assms
proof (induction "length (d_table ht) - nat (it_index it + 1)" arbitrary: it)
  case 0
  have size: "c_int (int (d_size ht)) = int (length (d_table ht))"
    by (rule signed_size [OF 0(2, 3)])
  have "int (length (d_table ht)) \<le> it_index it + 1" using 0(1, 4) by linarith
  then show ?case
    using 0(4, 5) size by (subst dictNext.simps, simp add: it_rest_def Let_def)
next
  case (Suc x)
  have size: "c_int (int (d_size ht)) = int (length (d_table ht))"
    by (rule signed_size [OF Suc.prems(1, 2)])
  let ?i = "nat (it_index it + 1)"
  let ?it1 = "it\<lparr>it_index := it_index it + 1\<rparr>"
  have i: "?i < length (d_table ht)" using Suc.hyps(2) by linarith
  have ge: "\<not> c_int (int (d_size ht)) \<le> it_index it + 1" "\<not> it_index it + 1 < 0"
    using i Suc.prems(3) unfolding size by linarith+
  have c: "chain ht ?i = Some (d_table ht ! ?i)" using i by (simp add: chain_def)
  have drop: "concat (drop ?i (d_table ht)) = d_table ht ! ?i @ concat (drop (Suc ?i) (d_table ht))"
    by (simp only: Cons_nth_drop_Suc [OF i, symmetric] concat.simps)
  have si: "nat (it_index it + 1 + 1) = Suc ?i" using Suc.prems(3) by linarith
  show ?case
  proof (cases "d_table ht ! ?i")
    case Nil
    let ?it2 = "?it1\<lparr>it_entry := []\<rparr>"
    have next_eq: "dictNext ht it = dictNext ht ?it2"
      using Suc.prems(4) ge c Nil by (subst dictNext.simps) (simp add: Let_def)
    have rest_eq: "it_rest ht it = it_rest ht ?it2"
      using Suc.prems(4) Nil si unfolding it_rest_def drop by simp
    have "x = length (d_table ht) - nat (it_index ?it2 + 1)"
      using Suc.hyps(2) si by simp
    then show ?thesis
      unfolding next_eq rest_eq
      by (rule Suc.hyps(1)) (use Suc.prems in simp_all)
  next
    case (Cons he c0)
    have "dictNext ht it = Some (Some he, ?it1\<lparr>it_entry := he # c0, it_nextEntry := c0\<rparr>)"
      using Suc.prems(4) ge c Cons by (subst dictNext.simps) (simp add: Let_def)
    moreover have "it_rest ht it = he # c0 @ concat (drop (Suc ?i) (d_table ht))"
      using Suc.prems(4) Cons unfolding it_rest_def drop by simp
    ultimately show ?thesis
      using Suc.prems(3) Cons i si by (simp add: it_rest_def subset_insertI)
  qed
qed

definition it_ok :: "('k, 'v, 'ev) dict \<Rightarrow> ('k, 'v) dictIterator \<Rightarrow> bool" where
  "it_ok ht it \<longleftrightarrow> - 1 \<le> it_index it \<and>
     (it_entry it \<noteq> [] \<longrightarrow> 0 \<le> it_index it \<and> nat (it_index it) < length (d_table ht)
        \<and> set (it_nextEntry it) \<subseteq> set (d_table ht ! nat (it_index it)))"

lemma dictNext_spec:
  assumes "sized ht k" "k \<le> 30" "it_ok ht it"
  shows "\<exists>it'. - 1 \<le> it_index it' \<and>
     (case it_rest ht it of
        [] \<Rightarrow> dictNext ht it = Some (None, it')
      | he # r \<Rightarrow> dictNext ht it = Some (Some he, it') \<and> it_rest ht it' = r \<and> it_entry it' \<noteq> []
          \<and> nat (it_index it') < length (d_table ht) \<and> 0 \<le> it_index it'
          \<and> set (he # it_nextEntry it') \<subseteq> set (d_table ht ! nat (it_index it')))"
proof (cases "it_entry it = []")
  case True
  then show ?thesis using dictNext_null [OF assms(1, 2) _ True] assms(3) by (simp add: it_ok_def)
next
  case False
  show ?thesis
  proof (cases "it_nextEntry it")
    case Nil
    let ?it = "it\<lparr>it_entry := []\<rparr>"
    have next_eq: "dictNext ht it = dictNext ht ?it" using False Nil by (subst dictNext.simps) simp
    have rest_eq: "it_rest ht it = it_rest ht ?it" using Nil False by (simp add: it_rest_def)
    show ?thesis
      unfolding next_eq rest_eq
      by (rule dictNext_null [OF assms(1, 2)]) (use assms(3) in \<open>simp_all add: it_ok_def\<close>)
  next
    case (Cons he c)
    have "dictNext ht it = Some (Some he, it\<lparr>it_entry := he # c, it_nextEntry := c\<rparr>)"
      using False Cons by (subst dictNext.simps) simp
    then show ?thesis
      using False Cons assms(3) by (auto simp: it_rest_def it_ok_def)
  qed
qed

text \<open>
  A client's loop over the table: \<^verbatim>\<open>while ((de = dictNext(it)) != NULL)\<close>, where the body deletes
  the entry it was given when \<open>del\<close> says so. \<open>fuel\<close> bounds the number of calls.
\<close>

fun visit ::
  "(('k, 'v) dictEntry \<Rightarrow> bool) \<Rightarrow> nat \<Rightarrow> ('k, 'v, 'ev) dict \<Rightarrow> ('k, 'v) dictIterator
     \<Rightarrow> (('k, 'v) dictEntry list \<times> ('k, 'v, 'ev) dict) option" where
  "visit del 0 ht it = None"
| "visit del (Suc fuel) ht it =
     (case dictNext ht it of
        None \<Rightarrow> None
      | Some (None, it') \<Rightarrow> Some ([], ht)
      | Some (Some he, it') \<Rightarrow>
          map_option (\<lambda>(hes, ht'). (he # hes, ht'))
            (visit del fuel (if del he then dict_remove (de_key he) ht else ht) it'))"

lemma dict_remove_table:
  assumes inv: "dict_inv ht" and s: "sized ht k" and he: "he \<in> set (d_table ht ! i)" "i < length (d_table ht)"
  shows "\<exists>c. d_table (dict_remove (de_key he) ht) = (d_table ht)[i := c] \<and> mset (d_table ht ! i) = add_mset he (mset c)
     \<and> sized (dict_remove (de_key he) ht) k"
proof -
  have ty: "type_ok (d_type ht)" "well_placed ht" using inv by (auto simp: dict_inv_def)
  have i: "key_slot ht (de_key he) = i" using ty(2) he by (simp add: well_placed_def)
  have "he \<in> set (entries ht)" using he by (auto simp: entries_def)
  then have f: "chain_find ht (de_key he) (d_table ht ! i) = Some he"
    using chain_find_spec(1) [OF s inv, of "de_key he" he] i by simp
  obtain c' where c': "chain_unlink ht (de_key he) (d_table ht ! i) = Some (c', he)"
    "mset (d_table ht ! i) = add_mset he (mset c')"
    using chain_unlink_spec [OF ty(1), of "de_key he" "d_table ht ! i"] f by auto
  have "d_size ht \<noteq> 0" using s by (simp add: sized_def)
  then show ?thesis
    using c' i s chain_Some [OF s, of "de_key he"]
    by (intro exI [of _ c']) (simp add: dict_remove_def dictDelete_def Let_def sized_def)
qed

lemma visit_spec:
  assumes "dict_inv ht" "sized ht k" "k \<le> 30" "it_ok ht it" "it_rest ht it = hes" "length hes < fuel"
    "distinct (map de_key hes)"
  shows "\<exists>ht'. visit del fuel ht it = Some (hes, ht') \<and> dict_inv ht'
     \<and> dict_map ht' = (\<lambda>x. if x \<in> de_key ` {he \<in> set hes. del he} then None else dict_map ht x)"
  using assms
proof (induction hes arbitrary: fuel ht it)
  case Nil
  then obtain fuel' where fuel: "fuel = Suc fuel'" by (cases fuel) auto
  obtain it' where "dictNext ht it = Some (None, it')"
    using dictNext_spec [OF Nil.prems(2-4)] Nil.prems(5) by auto
  then show ?case using Nil.prems(1) fuel by simp
next
  case (Cons he hes)
  obtain fuel' where fuel: "fuel = Suc fuel'" using Cons.prems(6) by (cases fuel) auto
  obtain it' where n: "dictNext ht it = Some (Some he, it')" "it_rest ht it' = hes" "it_entry it' \<noteq> []"
    "nat (it_index it') < length (d_table ht)" "0 \<le> it_index it'" "he \<in> set (d_table ht ! nat (it_index it'))"
    "set (it_nextEntry it') \<subseteq> set (d_table ht ! nat (it_index it'))"
    using dictNext_spec [OF Cons.prems(2-4)] Cons.prems(5) by auto
  define ht1 where "ht1 = (if del he then dict_remove (de_key he) ht else ht)"
  have ht1: "dict_inv ht1 \<and> dict_map ht1 = (if del he then (dict_map ht)(de_key he := None) else dict_map ht)"
    using dict_remove_spec [OF Cons.prems(1)] Cons.prems(1) by (simp add: ht1_def)
  obtain c where c: "d_table (dict_remove (de_key he) ht) = (d_table ht)[nat (it_index it') := c]"
    "mset (d_table ht ! nat (it_index it')) = add_mset he (mset c)" "sized (dict_remove (de_key he) ht) k"
    using dict_remove_table [OF Cons.prems(1, 2) n(6, 4)] by blast
  have s1: "sized ht1 k" using c(3) Cons.prems(2) by (simp add: ht1_def)
  have "drop (nat (it_index it' + 1)) (d_table ht1) = drop (nat (it_index it' + 1)) (d_table ht)"
    using n(5) c(1) by (simp add: ht1_def drop_update_cancel nat_add_distrib)
  then have rest: "it_rest ht1 it' = hes" using n(2, 3) by (simp add: it_rest_def)
  have sub: "set (it_nextEntry it') \<subseteq> set (d_table ht1 ! nat (it_index it'))"
  proof
    fix e assume e: "e \<in> set (it_nextEntry it')"
    then have "e \<in> set hes" using n(2, 3) by (auto simp: it_rest_def)
    then have "e \<noteq> he" using Cons.prems(7) by auto
    moreover have "e \<in> set (d_table ht ! nat (it_index it'))" using e n(7) by auto
    ultimately have "e \<in> set c" using mset_eq_setD [of "d_table ht ! nat (it_index it')" "he # c"] c(2) by auto
    then show "e \<in> set (d_table ht1 ! nat (it_index it'))"
      using n(4) c(1) \<open>e \<in> set (d_table ht ! _)\<close> by (simp add: ht1_def)
  qed
  have ok: "it_ok ht1 it'"
    using n(3, 4, 5) sub c(1) by (simp add: it_ok_def ht1_def)
  obtain ht' where ht': "visit del fuel' ht1 it' = Some (hes, ht')" "dict_inv ht'"
    "dict_map ht' = (\<lambda>x. if x \<in> de_key ` {he \<in> set hes. del he} then None else dict_map ht1 x)"
    using Cons.IH [OF _ s1 Cons.prems(3) ok rest, of fuel'] ht1 Cons.prems(6, 7) fuel by auto
  have "visit del fuel ht it = Some (he # hes, ht')"
    using n(1) ht'(1) by (simp add: fuel ht1_def)
  then show ?case using ht'(2, 3) ht1 by (auto simp: fun_eq_iff)
qed

section \<open>Properties\<close>

text \<open>C36. Every operation of the hash table acts on the finite map it stands for: \<^verbatim>\<open>dictAdd\<close> stores
  a new key and refuses a known one, \<^verbatim>\<open>dictReplace\<close> binds the key and frees exactly the value it
  replaces, \<^verbatim>\<open>dictDelete\<close> unbinds it and frees exactly its key and its value, \<^verbatim>\<open>dictFind\<close> finds the entry;
  none of them reads outside of the table, whatever growing the insertion needs, and all keep the
  table's invariant.\<close>

theorem dict_refines_map:
  assumes "dict_inv ht" "d_used ht < 2 ^ 31" "\<forall>n. mem n"
  shows "(\<exists>ht'. dictAdd mem ht k v = Some (if dict_map ht k = None then DICT_OK else DICT_ERR, ht') \<and> dict_inv ht'
        \<and> dict_map ht' = (if dict_map ht k = None then (dict_map ht)(k \<mapsto> v) else dict_map ht)) \<and>
    (\<exists>ht'. dictReplace mem ht k v
        = Some (if dict_map ht k = None then 1 else 0, ht',
            case (dict_map ht k, valDestructor (d_type ht)) of (Some w, Some f) \<Rightarrow> f w | _ \<Rightarrow> []) \<and> dict_inv ht'
        \<and> dict_map ht' = (dict_map ht)(k \<mapsto> v)) \<and>
    (\<exists>ht'. dictDelete ht k = Some (if dict_map ht k = None then DICT_ERR else DICT_OK, ht',
          case dict_map ht k of
            None \<Rightarrow> []
          | Some w \<Rightarrow> (case keyDestructor (d_type ht) of None \<Rightarrow> [] | Some f \<Rightarrow> f k)
              @ (case valDestructor (d_type ht) of None \<Rightarrow> [] | Some f \<Rightarrow> f w)) \<and> dict_inv ht'
        \<and> dict_map ht' = (dict_map ht)(k := None)) \<and>
    (\<exists>r. dictFind ht k = Some r \<and> map_option de_val r = dict_map ht k)"
proof (intro conjI)
  show "\<exists>ht'. dictAdd mem ht k v = Some (if dict_map ht k = None then DICT_OK else DICT_ERR, ht') \<and> dict_inv ht'
        \<and> dict_map ht' = (if dict_map ht k = None then (dict_map ht)(k \<mapsto> v) else dict_map ht)"
    using dictAdd_spec [OF assms, of k v] by (auto split: if_splits)
  show "\<exists>ht'. dictReplace mem ht k v
        = Some (if dict_map ht k = None then 1 else 0, ht',
            case (dict_map ht k, valDestructor (d_type ht)) of (Some w, Some f) \<Rightarrow> f w | _ \<Rightarrow> []) \<and> dict_inv ht'
        \<and> dict_map ht' = (dict_map ht)(k \<mapsto> v)"
    using dictReplace_spec [OF assms, of k v] by (auto split: option.splits)
  show "\<exists>ht'. dictDelete ht k = Some (if dict_map ht k = None then DICT_ERR else DICT_OK, ht',
          case dict_map ht k of
            None \<Rightarrow> []
          | Some w \<Rightarrow> (case keyDestructor (d_type ht) of None \<Rightarrow> [] | Some f \<Rightarrow> f k)
              @ (case valDestructor (d_type ht) of None \<Rightarrow> [] | Some f \<Rightarrow> f w)) \<and> dict_inv ht'
        \<and> dict_map ht' = (dict_map ht)(k := None)"
  proof -
    obtain ht' st evs where d: "dictDelete ht k = Some (st, ht', evs)" "dict_inv ht'" "dict_map ht' = (dict_map ht)(k := None)"
      and r: "case dict_map ht k of
          None \<Rightarrow> st = DICT_ERR \<and> evs = [] \<and> ht' = ht
        | Some w \<Rightarrow> st = DICT_OK \<and> Suc (d_used ht') = d_used ht
            \<and> evs = (case keyDestructor (d_type ht) of None \<Rightarrow> [] | Some f \<Rightarrow> f k)
                  @ (case valDestructor (d_type ht) of None \<Rightarrow> [] | Some f \<Rightarrow> f w)"
      using dictDelete_spec [OF assms(1), of k] assms(2) by auto
    show ?thesis
    proof (cases "dict_map ht k")
      case None
      then show ?thesis using d r by (intro exI [of _ ht']) simp
    next
      case (Some w)
      then show ?thesis using d r by (intro exI [of _ ht']) simp
    qed
  qed
  show "\<exists>r. dictFind ht k = Some r \<and> map_option de_val r = dict_map ht k"
    using dictFind_lookup [OF assms(1), of k] by auto
qed

definition byte_keys :: "(byte list, nat, nat) dictType" where
  "byte_keys = \<lparr>hashFunction = dictGenHashFunction, keyDup = None, valDup = None, keyCompare = None,
     keyDestructor = None, valDestructor = Some (\<lambda>v. [v])\<rparr>"

lemma byte_keys_ok: "type_ok byte_keys"
  by (simp add: type_ok_def byte_keys_def)

theorem dict_refines_map_witness:
  "\<exists>ht'. dictAdd (\<lambda>n. True) (dict_init byte_keys) ''channel'' 7 = Some (DICT_OK, ht') \<and> dict_inv ht'
     \<and> dict_map ht' = [''channel'' \<mapsto> 7]"
proof -
  have e: "dict_map (dict_init byte_keys) = Map.empty" "d_used (dict_init byte_keys) < 2 ^ 31"
    by (simp_all add: dict_map_def entries_def dict_init_def)
  show ?thesis
    using dict_refines_map [OF dict_inv_init [OF byte_keys_ok] e(2), of "\<lambda>n. True" "''channel''" 7] e(1)
    by simp
qed

text \<open>C37. A loop over the table with \<^verbatim>\<open>dictNext\<close> is given every entry exactly once, in table order,
  also when it deletes entries it has been given; afterwards exactly those are gone. (Tables of at
  most \<open>2 ^ 30\<close> slots; \<open>dict_iteration_signed_size\<close> shows what happens beyond.)\<close>

theorem dict_iteration_complete:
  assumes "dict_inv ht" "sized ht k" "k \<le> 30" "mem 32" "dictGetIterator mem = Some it"
  shows "\<exists>ht'. visit del (Suc (d_used ht)) ht it = Some (entries ht, ht') \<and> dict_inv ht'
    \<and> distinct (map de_key (entries ht))
    \<and> dict_map ht' = (\<lambda>x. if x \<in> de_key ` {he \<in> set (entries ht). del he} then None else dict_map ht x)"
proof -
  have "it_ok ht it" "it_rest ht it = entries ht"
    using assms(4, 5) by (auto simp: dictGetIterator_def it_ok_def it_rest_def entries_def)
  moreover have "length (entries ht) < Suc (d_used ht)" "distinct (map de_key (entries ht))"
    using assms(1) by (auto simp: dict_inv_def)
  ultimately show ?thesis
    using visit_spec [OF assms(1-3), of it "entries ht" "Suc (d_used ht)" del] by blast
qed

theorem dict_iteration_complete_witness:
  "\<exists>(ht :: (byte list, nat, nat) dict) ht' it. visit (\<lambda>he. de_val he = 1) 3 ht it
       = Some ([\<lparr>de_key = ''a'', de_val = 1\<rparr>, \<lparr>de_key = ''b'', de_val = 2\<rparr>], ht')
     \<and> dict_map ht' = [''b'' \<mapsto> 2 :: nat]"
proof -
  let ?a = "\<lparr>de_key = ''a'', de_val = 1\<rparr>" and ?b = "\<lparr>de_key = ''b'', de_val = 2 :: nat\<rparr>"
  let ?ht = "\<lparr>d_table = [[], [], [?a], [?b]], d_type = byte_keys, d_size = 4, d_sizemask = 3, d_used = 2\<rparr>"
  let ?it = "\<lparr>it_index = - 1, it_entry = [], it_nextEntry = []\<rparr>"
  have s: "sized ?ht 2" by (simp add: sized_def)
  have "key_slot ?ht ''a'' = 2" "key_slot ?ht ''b'' = 3"
    by (simp_all add: key_slot_def dictHashKey_def dictGenHashFunction_def byte_keys_def uchar_def u32_def)
  then have "well_placed ?ht" by (simp add: well_placed_def less_Suc_eq numeral_eq_Suc)
  then have inv: "dict_inv ?ht"
    using byte_keys_ok s by (auto simp: dict_inv_def entries_def)
  have "dictGetIterator (\<lambda>n. True) = Some ?it" by (simp add: dictGetIterator_def)
  note iteration = dict_iteration_complete [OF inv s _ _ this, of "\<lambda>he. de_val he = 1"]
  have three: "Suc (d_used ?ht) = 3" and le: "2 \<le> (30 :: nat)" by simp_all
  obtain ht' where v: "visit (\<lambda>he. de_val he = 1) 3 ?ht ?it = Some (entries ?ht, ht')"
    and m: "dict_map ht' = (\<lambda>x. if x \<in> de_key ` {he \<in> set (entries ?ht). de_val he = 1} then None else dict_map ?ht x)"
    using iteration [OF le] unfolding three by blast
  have e: "entries ?ht = [?a, ?b]" by (simp add: entries_def)
  have "de_key ` {he \<in> set [?a, ?b]. de_val he = 1} = {''a''}"
    by (auto intro!: image_eqI [where x = ?a])
  then have "dict_map ht' = [''b'' \<mapsto> 2]"
    unfolding m e by (auto simp: dict_map_def entries_def fun_eq_iff)
  then show ?thesis
    using v unfolding e by blast
qed

text \<open>A table of \<open>2 ^ 31\<close> slots cannot be iterated: \<^verbatim>\<open>dictNext\<close> casts the size to \<^verbatim>\<open>int\<close>, which makes
  it negative, and the iteration is over before its first slot.\<close>

theorem dict_iteration_signed_size:
  assumes "sized ht 31" "dictGetIterator mem = Some it"
  shows "\<exists>it'. dictNext ht it = Some (None, it')"
proof -
  have "c_int (int (d_size ht)) = - (2 ^ 31)" using assms(1) by (simp add: sized_def c_int_def)
  moreover have "it_entry it = []" "it_index it = - 1"
    using assms(2) by (auto simp: dictGetIterator_def split: if_splits)
  ultimately show ?thesis by (subst dictNext.simps) (simp add: Let_def)
qed

lemma sized_empty:
  "k \<le> 31 \<Longrightarrow> sized \<lparr>d_table = replicate (2 ^ k) [], d_type = ty, d_size = 2 ^ k,
     d_sizemask = 2 ^ k - 1, d_used = 0\<rparr> k"
  by (simp add: sized_def)

theorem dict_iteration_signed_size_witness:
  "\<exists>(ht :: (byte list, nat, nat) dict) it it'. sized ht 31 \<and> dictNext ht it = Some (None, it')"
proof -
  obtain ht :: "(byte list, nat, nat) dict" where s: "sized ht 31"
    using sized_empty [of 31] by blast
  have "dictGetIterator (\<lambda>n. True) = Some \<lparr>it_index = - 1, it_entry = [], it_nextEntry = []\<rparr>"
    by (simp add: dictGetIterator_def)
  from dict_iteration_signed_size [OF s this] s show ?thesis by blast
qed

text \<open>Storing any list of bindings one after the other leaves every key with its last binding,
  and \<^verbatim>\<open>_dictClear\<close> then frees each stored value once.\<close>

theorem dict_last_binding_wins:
  assumes "dict_inv ht" "dict_room (length kvs) ht"
  shows "dict_look (fold (\<lambda>(k, v). dict_put k v) kvs ht) k
       = (case map_of (rev kvs) k of Some v \<Rightarrow> Some v | None \<Rightarrow> dict_look ht k)
     \<and> (\<exists>ty evs. dict_clear (fold (\<lambda>(k, v). dict_put k v) kvs ht) = Some (DICT_OK, dict_init ty, evs)
        \<and> evs = free_events (fold (\<lambda>(k, v). dict_put k v) kvs ht) (entries (fold (\<lambda>(k, v). dict_put k v) kvs ht)))"
  using dict.look_upds [OF assms] dict_clear_spec [OF dict.inv_upds [OF assms]] by blast

theorem dict_last_binding_wins_witness:
  "dict_look (fold (\<lambda>(k, v). dict_put k v) [(''a'', 1), (''b'', 2), (''a'', 3)] (dict_init byte_keys)) ''a'' = Some 3"
proof -
  have r: "dict_room (length [(''a'', 1), (''b'', 2), (''a'', 3 :: nat)]) (dict_init byte_keys)"
    by (simp add: dict_room_def dict_init_def)
  show ?thesis
    using dict_last_binding_wins [OF dict_inv_init [OF byte_keys_ok] r, of "''a''"] by simp
qed

end
