(* ===== verification/Async.thy ===== *)
theory Async
  imports RedisContext Dict
begin

unbundle bit_operations_syntax

text \<open>
  The asynchronous interface of \<^verbatim>\<open>hiredis/async.{h,c}\<close>: a context with queues of callbacks, whose
  reading and writing an event library drives. A function pointer is a number, a null pointer
  \<open>None\<close>; a linked list of callbacks is a list. The program's callbacks are a parameter: a function
  of what has happened so far that yields the calls the callback makes. What happens is a log.

  A result is \<open>None\<close> where the code has no defined behaviour: a failed assertion, a null pointer,
  or a context that is released while it is still in use. Releasing a context leaves no context:
  the functions that may do so return an optional one.
\<close>

section \<open>Data\<close>

record redisCallback =
  cb_fn :: "nat option"
  cb_privdata :: int

datatype ev_hook = AddRead | DelRead | AddWrite | DelWrite | Cleanup

datatype aevent =
  Hooked ev_hook
| Replied nat int "nat option"
| OnConnect nat int
| OnDisconnect nat int
| FreeObject nat
| FreeKey "byte list"
| FreeCallback redisCallback

datatype action = Command "nat option" int "byte list list" | Disconnect | Free

record async_context =
  ac_c :: redis_context
  ac_err :: int
  ac_errstr :: "byte list option"
  ac_ev :: "ev_hook list"
  ac_onDisconnect :: "nat option"
  ac_onConnect :: "nat option"
  ac_replies :: "redisCallback list"
  ac_invalid :: "redisCallback list"
  ac_channels :: "(byte list, redisCallback, aevent) dict"
  ac_patterns :: "(byte list, redisCallback, aevent) dict"

record aworld =
  aw_os :: world
  aw_log :: "aevent list"

record 'd aenv =
  a_env :: "'d env"
  a_client :: "aevent list \<Rightarrow> action list"

definition log_event :: "aevent \<Rightarrow> aworld \<Rightarrow> aworld" where
  "log_event x w = w\<lparr>aw_log := x # aw_log w\<rparr>"

definition log_events :: "aevent list \<Rightarrow> aworld \<Rightarrow> aworld" where
  "log_events xs w = w\<lparr>aw_log := rev xs @ aw_log w\<rparr>"

text \<open>The macros \<^verbatim>\<open>_EL_ADD_READ\<close> to \<^verbatim>\<open>_EL_CLEANUP\<close>: the hook is called when it is set.\<close>

definition el_hook :: "ev_hook \<Rightarrow> async_context \<Rightarrow> aworld \<Rightarrow> aworld" where
  "el_hook h ac w = (if h \<in> set (ac_ev ac) then log_event (Hooked h) w else w)"

definition set_flag :: "int \<Rightarrow> async_context \<Rightarrow> async_context" where
  "set_flag f ac = ac\<lparr>ac_c := (ac_c ac)\<lparr>rc_flags := rc_flags (ac_c ac) OR f\<rparr>\<rparr>"

definition clear_flag :: "int \<Rightarrow> async_context \<Rightarrow> async_context" where
  "clear_flag f ac = ac\<lparr>ac_c := (ac_c ac)\<lparr>rc_flags := rc_flags (ac_c ac) AND NOT f\<rparr>\<rparr>"

definition has_flag :: "int \<Rightarrow> async_context \<Rightarrow> bool" where
  "has_flag f ac \<longleftrightarrow> rc_flags (ac_c ac) AND f \<noteq> 0"

section \<open>The dictionaries of subscriptions\<close>

definition callbackHash :: "byte list \<Rightarrow> 32 word" where
  "callbackHash key = dictGenHashFunction key"

definition callbackValDup :: "redisCallback \<Rightarrow> redisCallback" where
  "callbackValDup src = src"

definition callbackKeyCompare :: "byte list \<Rightarrow> byte list \<Rightarrow> bool" where
  "callbackKeyCompare key1 key2 =
     (let l1 = length key1; l2 = length key2 in
      if l1 \<noteq> l2 then False else take l1 key1 = take l1 key2)"

definition callbackKeyDestructor :: "byte list \<Rightarrow> aevent list" where
  "callbackKeyDestructor key = [FreeKey key]"

definition callbackValDestructor :: "redisCallback \<Rightarrow> aevent list" where
  "callbackValDestructor val = [FreeCallback val]"

definition callbackDict :: "(byte list, redisCallback, aevent) dictType" where
  "callbackDict = \<lparr>hashFunction = callbackHash, keyDup = None, valDup = Some callbackValDup,
     keyCompare = Some callbackKeyCompare, keyDestructor = Some callbackKeyDestructor,
     valDestructor = Some callbackValDestructor\<rparr>"

section \<open>Creating a context\<close>

definition sizeof_redisAsyncContext :: nat where "sizeof_redisAsyncContext = 320"

text \<open>The inner option is the null pointer returned when the context cannot grow.\<close>

definition redisAsyncInitialize :: "'d env \<Rightarrow> redis_context \<Rightarrow> async_context option option" where
  "redisAsyncInitialize e c =
     (if \<not> e_mem e sizeof_redisAsyncContext then Some None
      else
        let c = c\<lparr>rc_flags := rc_flags c AND NOT REDIS_CONNECTED\<rparr> in
        case (dictCreate (e_mem e) callbackDict, dictCreate (e_mem e) callbackDict) of
          (Some ch, Some pt) \<Rightarrow>
            Some (Some \<lparr>ac_c = c, ac_err = 0, ac_errstr = None, ac_ev = [], ac_onDisconnect = None, ac_onConnect = None,
                        ac_replies = [], ac_invalid = [], ac_channels = ch, ac_patterns = pt\<rparr>)
        | _ \<Rightarrow> None)"

definition redisAsyncCopyError :: "async_context \<Rightarrow> async_context" where
  "redisAsyncCopyError ac = ac\<lparr>ac_err := rc_err (ac_c ac), ac_errstr := Some (rc_errstr (ac_c ac))\<rparr>"

text \<open>The common part of \<^verbatim>\<open>redisAsyncConnect\<close> and \<^verbatim>\<open>redisAsyncConnectUnix\<close> behind the connecting call.\<close>

definition async_of :: "'d env \<Rightarrow> (redis_context \<times> world) option \<Rightarrow> world \<Rightarrow> (async_context option \<times> world) option" where
  "async_of e connected w =
     (case connected of
        None \<Rightarrow> Some (None, w)
      | Some (c, w) \<Rightarrow>
          (case redisAsyncInitialize e c of
             None \<Rightarrow> None
           | Some None \<Rightarrow> Some (None, redisFree e c w)
           | Some (Some ac) \<Rightarrow> Some (Some (redisAsyncCopyError ac), w)))"

definition redisAsyncConnect :: "'d env \<Rightarrow> byte list \<Rightarrow> int \<Rightarrow> world \<Rightarrow> (async_context option \<times> world) option" where
  "redisAsyncConnect e ip port w = async_of e (redisConnectNonBlock e ip port w) w"

definition redisAsyncConnectBind ::
  "'d env \<Rightarrow> byte list \<Rightarrow> int \<Rightarrow> byte list option \<Rightarrow> world \<Rightarrow> (async_context option \<times> world) option" where
  "redisAsyncConnectBind e ip port source_addr w =
     (case redisConnectBindNonBlock e ip port source_addr w of
        None \<Rightarrow> None
      | Some (c, w) \<Rightarrow>
          (case redisAsyncInitialize e c of
             Some (Some ac) \<Rightarrow> Some (Some (redisAsyncCopyError ac), w)
           | _ \<Rightarrow> None))"

definition redisAsyncConnectUnix :: "'d env \<Rightarrow> byte list \<Rightarrow> world \<Rightarrow> (async_context option \<times> world) option" where
  "redisAsyncConnectUnix e path w = async_of e (redisConnectUnixNonBlock e path w) w"

definition redisAsyncSetConnectCallback ::
  "async_context \<Rightarrow> nat option \<Rightarrow> aworld \<Rightarrow> int \<times> async_context \<times> aworld" where
  "redisAsyncSetConnectCallback ac fn w =
     (if ac_onConnect ac = None then
        let ac = ac\<lparr>ac_onConnect := fn\<rparr> in (REDIS_OK, ac, el_hook AddWrite ac w)
      else (REDIS_ERR, ac, w))"

definition redisAsyncSetDisconnectCallback :: "async_context \<Rightarrow> nat option \<Rightarrow> int \<times> async_context" where
  "redisAsyncSetDisconnectCallback ac fn =
     (if ac_onDisconnect ac = None then (REDIS_OK, ac\<lparr>ac_onDisconnect := fn\<rparr>) else (REDIS_ERR, ac))"

section \<open>Queues of callbacks\<close>

definition sizeof_redisCallback :: nat where "sizeof_redisCallback = 24"

definition redisPushCallback :: "(nat \<Rightarrow> bool) \<Rightarrow> redisCallback list \<Rightarrow> redisCallback \<Rightarrow> int \<times> redisCallback list" where
  "redisPushCallback mem list source =
     (if \<not> mem sizeof_redisCallback then (REDIS_ERR_OOM, list) else (REDIS_OK, list @ [source]))"

text \<open>The status, what is stored in the target, and the list.\<close>

definition redisShiftCallback ::
  "redisCallback list \<Rightarrow> redisCallback \<Rightarrow> int \<times> redisCallback \<times> redisCallback list" where
  "redisShiftCallback list target =
     (case list of [] \<Rightarrow> (REDIS_ERR, target, []) | cb # rest \<Rightarrow> (REDIS_OK, cb, rest))"

section \<open>Issuing commands\<close>

text \<open>\<^verbatim>\<open>(int)strtol(s, NULL, 10)\<close>, cut to 32 bits.\<close>

definition strtol_int :: "byte list \<Rightarrow> int" where
  "strtol_int s = c_int (strtol64 s)"

text \<open>\<^verbatim>\<open>strchr\<close> from a position of a terminated buffer.\<close>

definition strchr_from :: "byte list \<Rightarrow> nat \<Rightarrow> byte \<Rightarrow> nat option" where
  "strchr_from s p c =
     (let t = cstr (drop p s); i = length (takeWhile (\<lambda>x. x \<noteq> c) t) in
      if i < length t then Some (p + i) else None)"

text \<open>
  The inner option is the returned pointer, with the stored string and length; pointers are
  positions in the command. Reading outside of the command and the assertion are \<open>None\<close>.
\<close>

definition nextArgument :: "byte list \<Rightarrow> int \<Rightarrow> (int \<times> int \<times> int) option option" where
  "nextArgument cmd start =
     (if start < 0 \<or> int (length cmd) \<le> start then None
      else
        case (if cmd ! nat start \<noteq> CHR ''$'' then strchr_from cmd (nat start) (CHR ''$'') else Some (nat start)) of
          None \<Rightarrow> Some None
        | Some p \<Rightarrow>
            (let len = strtol_int (drop (p + 1) cmd) in
             case strchr_from cmd p CR of
               None \<Rightarrow> None
             | Some q \<Rightarrow> Some (Some (int q + 2 + len + 2, int q + 2, len))))"

text \<open>The loop of a subscription: each further argument becomes a key of the dictionary.\<close>

definition async_dict :: "bool \<Rightarrow> async_context \<Rightarrow> (byte list, redisCallback, aevent) dict" where
  "async_dict pvariant ac = (if pvariant then ac_patterns ac else ac_channels ac)"

definition set_async_dict :: "bool \<Rightarrow> (byte list, redisCallback, aevent) dict \<Rightarrow> async_context \<Rightarrow> async_context" where
  "set_async_dict pvariant d ac = (if pvariant then ac\<lparr>ac_patterns := d\<rparr> else ac\<lparr>ac_channels := d\<rparr>)"

text \<open>The bytes at a stored argument; \<open>None\<close> when its length leads out of the command.\<close>

definition argument_name :: "'d env \<Rightarrow> byte list \<Rightarrow> int \<Rightarrow> int \<Rightarrow> byte list option" where
  "argument_name e cmd str len =
     (if len < 0 \<or> int (length cmd) < str + len then None
      else map_option sds_str (sdsnewlen (e_alloc e) (Some (take (nat len) (drop (nat str) cmd))) (nat len)))"

partial_function (option) subscribe_loop ::
  "'d env \<Rightarrow> byte list \<Rightarrow> bool \<Rightarrow> redisCallback \<Rightarrow> int \<Rightarrow> async_context \<Rightarrow> aworld \<Rightarrow> (async_context \<times> aworld) option" where
  "subscribe_loop e cmd pvariant cb p ac w =
     Option.bind (nextArgument cmd p) (\<lambda>r. case r of
       None \<Rightarrow> Some (ac, w)
     | Some (p, astr, alen) \<Rightarrow>
         Option.bind (argument_name e cmd astr alen) (\<lambda>sname.
         Option.bind (dictReplace (e_mem e) (async_dict pvariant ac) sname cb) (\<lambda>(st, d, evs).
           subscribe_loop e cmd pvariant cb p (set_async_dict pvariant d ac) (log_events evs w))))"

text \<open>\<^verbatim>\<open>strncasecmp\<close> of a pattern in lower case, up to its length.\<close>

definition at_keyword :: "byte list \<Rightarrow> int \<Rightarrow> byte list \<Rightarrow> bool" where
  "at_keyword cmd p kw \<longleftrightarrow> map tolower (take (length kw) (drop (nat p) cmd)) = kw"

definition append_command ::
  "'d env \<Rightarrow> byte list \<Rightarrow> nat \<Rightarrow> async_context \<Rightarrow> aworld \<Rightarrow> (int \<times> async_context \<times> aworld) option" where
  "append_command e cmd len ac w =
     (case redisAppendBytes e (ac_c ac) cmd len of
        None \<Rightarrow> None
      | Some (st, c) \<Rightarrow>
          let ac = ac\<lparr>ac_c := c\<rparr> in Some (REDIS_OK, ac, el_hook AddWrite ac w))"

definition redisAsyncCommand_body ::
  "'d env \<Rightarrow> nat option \<Rightarrow> int \<Rightarrow> byte list \<Rightarrow> nat \<Rightarrow> async_context \<Rightarrow> aworld \<Rightarrow> (int \<times> async_context \<times> aworld) option" where
  "redisAsyncCommand_body e fn privdata cmd len ac w =
     (if has_flag (REDIS_DISCONNECTING OR REDIS_FREEING) ac then Some (REDIS_ERR, ac, w)
      else
        let cb = \<lparr>cb_fn = fn, cb_privdata = privdata\<rparr> in
        case nextArgument cmd 0 of
          None \<Rightarrow> None
        | Some None \<Rightarrow> None
        | Some (Some (p, name, clen)) \<Rightarrow>
            if p < 0 \<or> int (length cmd) \<le> p \<or> int (length cmd) \<le> name then None
            else
              let hasnext = (cmd ! nat p = CHR ''$'');
                  pvariant = (tolower (cmd ! nat name) = CHR ''p'');
                  name = (if pvariant then name + 1 else name) in
              if hasnext \<and> at_keyword cmd name (''subscribe'' @ [CR, LF]) then
                (case subscribe_loop e cmd pvariant cb p (set_flag REDIS_SUBSCRIBED ac) w of
                   None \<Rightarrow> None
                 | Some (ac, w) \<Rightarrow> append_command e cmd len ac w)
              else if at_keyword cmd name (''unsubscribe'' @ [CR, LF]) then
                (if \<not> has_flag REDIS_SUBSCRIBED ac then Some (REDIS_ERR, ac, w)
                 else append_command e cmd len ac w)
              else if at_keyword cmd name (''monitor'' @ [CR, LF]) then
                (let ac = set_flag REDIS_MONITORING ac in
                 append_command e cmd len (ac\<lparr>ac_replies := snd (redisPushCallback (e_mem e) (ac_replies ac) cb)\<rparr>) w)
              else if has_flag REDIS_SUBSCRIBED ac then
                append_command e cmd len (ac\<lparr>ac_invalid := snd (redisPushCallback (e_mem e) (ac_invalid ac) cb)\<rparr>) w
              else
                append_command e cmd len (ac\<lparr>ac_replies := snd (redisPushCallback (e_mem e) (ac_replies ac) cb)\<rparr>) w)"

text \<open>
  The formatted command is used and freed without a look at the length: after a failure the
  pointer is uninitialised.
\<close>

definition async_formatted ::
  "'d env \<Rightarrow> nat option \<Rightarrow> int \<Rightarrow> fmt_result \<Rightarrow> async_context \<Rightarrow> aworld \<Rightarrow> (int \<times> async_context \<times> aworld) option" where
  "async_formatted e fn privdata f ac w =
     (case f of
        Undefined \<Rightarrow> None
      | Failed \<Rightarrow> None
      | Returns len cmd \<Rightarrow> redisAsyncCommand_body e fn privdata cmd (nat len) ac w)"

definition redisvAsyncCommand ::
  "'d env \<Rightarrow> nat option \<Rightarrow> int \<Rightarrow> byte list \<Rightarrow> 'd va_arg list \<Rightarrow> async_context \<Rightarrow> aworld
     \<Rightarrow> (int \<times> async_context \<times> aworld) option" where
  "redisvAsyncCommand e fn privdata format ap ac w =
     async_formatted e fn privdata
       (redisvFormatCommand (e_mem e) (e_alloc e) (e_static e) (e_printf e) True format ap) ac w"

definition redisAsyncCommand ::
  "'d env \<Rightarrow> nat option \<Rightarrow> int \<Rightarrow> byte list \<Rightarrow> 'd va_arg list \<Rightarrow> async_context \<Rightarrow> aworld
     \<Rightarrow> (int \<times> async_context \<times> aworld) option" where
  "redisAsyncCommand e fn privdata format ap ac w = redisvAsyncCommand e fn privdata format ap ac w"

definition redisAsyncCommandArgv ::
  "'d env \<Rightarrow> nat option \<Rightarrow> int \<Rightarrow> byte list list \<Rightarrow> nat list option \<Rightarrow> async_context \<Rightarrow> aworld
     \<Rightarrow> (int \<times> async_context \<times> aworld) option" where
  "redisAsyncCommandArgv e fn privdata argv argvlen ac w =
     async_formatted e fn privdata (redisFormatCommandArgv (e_mem e) argv argvlen) ac w"

section \<open>Callbacks\<close>

text \<open>
  Releasing and disconnecting as the program calls them. The function that really releases the
  context is a parameter here, because the program's callbacks, which run inside of it, make these
  calls too.
\<close>

definition redisAsyncFree_with ::
  "(async_context \<Rightarrow> aworld \<Rightarrow> (async_context option \<times> aworld) option) \<Rightarrow> async_context \<Rightarrow> aworld
     \<Rightarrow> (async_context option \<times> aworld) option" where
  "redisAsyncFree_with release ac w =
     (let ac = set_flag REDIS_FREEING ac in
      if \<not> has_flag REDIS_IN_CALLBACK ac then release ac w else Some (Some ac, w))"

definition redisAsyncDisconnect_with ::
  "(async_context \<Rightarrow> aworld \<Rightarrow> (async_context option \<times> aworld) option) \<Rightarrow> async_context \<Rightarrow> aworld
     \<Rightarrow> (async_context option \<times> aworld) option" where
  "redisAsyncDisconnect_with release ac w =
     (let ac = set_flag REDIS_DISCONNECTING ac in
      if \<not> has_flag REDIS_IN_CALLBACK ac \<and> ac_replies ac = [] then release ac w else Some (Some ac, w))"

text \<open>
  The calls of one callback. Library code that has called the program goes on with the context, or
  is releasing it already, so a call that releases it leads to the use of freed memory.
\<close>

fun perform :: "'d env \<Rightarrow> action list \<Rightarrow> async_context \<Rightarrow> aworld \<Rightarrow> (async_context \<times> aworld) option" where
  "perform e [] ac w = Some (ac, w)"
| "perform e (Command fn privdata argv # as) ac w =
     (case redisAsyncCommandArgv e fn privdata argv (Some (map length argv)) ac w of
        None \<Rightarrow> None
      | Some (st, ac, w) \<Rightarrow> perform e as ac w)"
| "perform e (Disconnect # as) ac w =
     (case redisAsyncDisconnect_with (\<lambda>ac w. None) ac w of
        Some (Some ac, w) \<Rightarrow> perform e as ac w
      | _ \<Rightarrow> None)"
| "perform e (Free # as) ac w =
     (case redisAsyncFree_with (\<lambda>ac w. None) ac w of
        Some (Some ac, w) \<Rightarrow> perform e as ac w
      | _ \<Rightarrow> None)"

definition call_client :: "'d aenv \<Rightarrow> aevent \<Rightarrow> async_context \<Rightarrow> aworld \<Rightarrow> (async_context \<times> aworld) option" where
  "call_client ae x ac w =
     (let w = log_event x w in perform (a_env ae) (a_client ae (aw_log w)) ac w)"

definition redisRunCallback ::
  "'d aenv \<Rightarrow> redisCallback \<Rightarrow> nat option \<Rightarrow> async_context \<Rightarrow> aworld \<Rightarrow> (async_context \<times> aworld) option" where
  "redisRunCallback ae cb reply ac w =
     (case cb_fn cb of
        None \<Rightarrow> Some (ac, w)
      | Some fn \<Rightarrow>
          map_option (\<lambda>(ac, w). (clear_flag REDIS_IN_CALLBACK ac, w))
            (call_client ae (Replied fn (cb_privdata cb) reply) (set_flag REDIS_IN_CALLBACK ac) w))"

section \<open>Releasing a context\<close>

text \<open>The loops that run the callbacks left over with a null reply.\<close>

partial_function (option) run_replies :: "'d aenv \<Rightarrow> async_context \<Rightarrow> aworld \<Rightarrow> (async_context \<times> aworld) option" where
  "run_replies ae ac w =
     (case ac_replies ac of
        [] \<Rightarrow> Some (ac, w)
      | cb # rest \<Rightarrow>
          Option.bind (redisRunCallback ae cb None (ac\<lparr>ac_replies := rest\<rparr>) w) (\<lambda>(ac, w). run_replies ae ac w))"

partial_function (option) run_invalid :: "'d aenv \<Rightarrow> async_context \<Rightarrow> aworld \<Rightarrow> (async_context \<times> aworld) option" where
  "run_invalid ae ac w =
     (case ac_invalid ac of
        [] \<Rightarrow> Some (ac, w)
      | cb # rest \<Rightarrow>
          Option.bind (redisRunCallback ae cb None (ac\<lparr>ac_invalid := rest\<rparr>) w) (\<lambda>(ac, w). run_invalid ae ac w))"

partial_function (option) run_subscriptions ::
  "'d aenv \<Rightarrow> bool \<Rightarrow> (byte list, redisCallback) dictIterator \<Rightarrow> async_context \<Rightarrow> aworld \<Rightarrow> (async_context \<times> aworld) option" where
  "run_subscriptions ae pvariant it ac w =
     Option.bind (dictNext (async_dict pvariant ac) it) (\<lambda>(de, it). case de of
       None \<Rightarrow> Some (ac, w)
     | Some de \<Rightarrow>
         Option.bind (redisRunCallback ae (de_val de) None ac w) (\<lambda>(ac, w). run_subscriptions ae pvariant it ac w))"

definition release_subscriptions :: "'d aenv \<Rightarrow> bool \<Rightarrow> async_context \<Rightarrow> aworld \<Rightarrow> (async_context \<times> aworld) option" where
  "release_subscriptions ae pvariant ac w =
     Option.bind (dictGetIterator (e_mem (a_env ae))) (\<lambda>it.
     Option.bind (run_subscriptions ae pvariant it ac w) (\<lambda>(ac, w).
     Option.bind (dictRelease (async_dict pvariant ac)) (\<lambda>evs. Some (ac, log_events evs w))))"

definition call_onDisconnect :: "'d aenv \<Rightarrow> async_context \<Rightarrow> aworld \<Rightarrow> (async_context \<times> aworld) option" where
  "call_onDisconnect ae ac w =
     (case ac_onDisconnect ac of
        Some fn \<Rightarrow>
          (if has_flag REDIS_CONNECTED ac then
             call_client ae (OnDisconnect fn
               (if has_flag REDIS_FREEING ac then REDIS_OK
                else if ac_err ac = 0 then REDIS_OK else REDIS_ERR)) ac w
           else Some (ac, w))
      | None \<Rightarrow> Some (ac, w))"

definition redisAsyncFree_body :: "'d aenv \<Rightarrow> async_context \<Rightarrow> aworld \<Rightarrow> (async_context option \<times> aworld) option" where
  "redisAsyncFree_body ae ac w =
     Option.bind (run_replies ae ac w) (\<lambda>(ac, w).
     Option.bind (run_invalid ae ac w) (\<lambda>(ac, w).
     Option.bind (release_subscriptions ae False ac w) (\<lambda>(ac, w).
     Option.bind (release_subscriptions ae True ac w) (\<lambda>(ac, w).
     Option.bind (call_onDisconnect ae ac (el_hook Cleanup ac w)) (\<lambda>(ac, w).
       Some (None, w\<lparr>aw_os := redisFree (a_env ae) (ac_c ac) (aw_os w)\<rparr>))))))"

definition redisAsyncFree :: "'d aenv \<Rightarrow> async_context \<Rightarrow> aworld \<Rightarrow> (async_context option \<times> aworld) option" where
  "redisAsyncFree ae ac w = redisAsyncFree_with (redisAsyncFree_body ae) ac w"

definition redisAsyncDisconnect_body :: "'d aenv \<Rightarrow> async_context \<Rightarrow> aworld \<Rightarrow> (async_context option \<times> aworld) option" where
  "redisAsyncDisconnect_body ae ac w =
     (let ac = redisAsyncCopyError ac in
      if ac_err ac = 0 then
        (if ac_replies ac \<noteq> [] then None else redisAsyncFree_body ae ac w)
      else redisAsyncFree_body ae (set_flag REDIS_DISCONNECTING ac) w)"

definition redisAsyncDisconnect :: "'d aenv \<Rightarrow> async_context \<Rightarrow> aworld \<Rightarrow> (async_context option \<times> aworld) option" where
  "redisAsyncDisconnect ae ac w = redisAsyncDisconnect_with (redisAsyncDisconnect_body ae) ac w"

section \<open>Replies\<close>

text \<open>The string of a reply object and the element of an array.\<close>

definition reply_at :: "async_context \<Rightarrow> nat \<Rightarrow> redis_reply option" where
  "reply_at ac a =
     (case rc_reader (ac_c ac) of
        None \<Rightarrow> None
      | Some rd \<Rightarrow> if a < length (rd_store rd) then Some (rd_store rd ! a) else None)"

definition element_of :: "async_context \<Rightarrow> redis_reply \<Rightarrow> nat \<Rightarrow> redis_reply option" where
  "element_of ac r i =
     (case r_element r of
        None \<Rightarrow> None
      | Some es \<Rightarrow> if i < length es then Option.bind (es ! i) (reply_at ac) else None)"

definition typed_element :: "async_context \<Rightarrow> redis_reply \<Rightarrow> nat \<Rightarrow> int \<Rightarrow> redis_reply option" where
  "typed_element ac r i type =
     (case element_of ac r i of None \<Rightarrow> None | Some x \<Rightarrow> if r_type x = type then Some x else None)"

definition redisGetSubscribeCallback ::
  "'d env \<Rightarrow> redis_reply \<Rightarrow> redisCallback \<Rightarrow> async_context \<Rightarrow> aworld \<Rightarrow> (redisCallback \<times> async_context \<times> aworld) option" where
  "redisGetSubscribeCallback e reply dstcb ac w =
     (if r_type reply = REDIS_REPLY_ARRAY then
        (if \<not> 2 \<le> r_elements reply then None
         else
           Option.bind (typed_element ac reply 0 REDIS_REPLY_STRING) (\<lambda>r0.
           Option.bind (r_str r0) (\<lambda>stype.
           Option.bind (typed_element ac reply 1 REDIS_REPLY_STRING) (\<lambda>r1.
           Option.bind (sdsnewlen (e_alloc e) (r_str r1) (nat (r_len r1))) (\<lambda>sname.
             let pvariant = (tolower (peek stype 0) = CHR ''p''); callbacks = async_dict pvariant ac in
             Option.bind (dictFind callbacks (sds_str sname)) (\<lambda>de. case de of
               None \<Rightarrow> Some (dstcb, ac, w)
             | Some de \<Rightarrow>
                 (if map tolower (cstr (if pvariant then drop 1 stype else stype)) = ''unsubscribe'' then
                    Option.bind (dictDelete callbacks (sds_str sname)) (\<lambda>(st, d, evs).
                    Option.bind (typed_element ac reply 2 REDIS_REPLY_INTEGER) (\<lambda>r2.
                      let ac = set_async_dict pvariant d ac in
                      Some (de_val de, (if r_integer r2 = 0 then clear_flag REDIS_SUBSCRIBED ac else ac), log_events evs w)))
                  else Some (de_val de, ac, w))))))))
      else
        let (st, dstcb, rest) = redisShiftCallback (ac_invalid ac) dstcb in
        Some (dstcb, ac\<lparr>ac_invalid := rest\<rparr>, w))"

text \<open>The error reply of a server that closes the connection.\<close>

definition spontaneous_error :: "redis_reply \<Rightarrow> async_context \<Rightarrow> async_context" where
  "spontaneous_error reply ac =
     ac\<lparr>ac_c := (ac_c ac)\<lparr>rc_err := REDIS_ERR_OTHER, rc_errstr := take 127 (cstr (the (r_str reply)))\<rparr>\<rparr>"

partial_function (option) process_loop ::
  "'d aenv \<Rightarrow> redisCallback \<Rightarrow> async_context \<Rightarrow> aworld \<Rightarrow> (async_context option \<times> aworld) option" where
  "process_loop ae cb ac w =
     Option.bind (redisGetReply (a_env ae) (ac_c ac) (aw_os w)) (\<lambda>(st, reply, c, os).
       let ac = ac\<lparr>ac_c := c\<rparr>; w = w\<lparr>aw_os := os\<rparr> in
       if st \<noteq> REDIS_OK then redisAsyncDisconnect_body ae ac w
       else case reply of
         None \<Rightarrow>
           (if has_flag REDIS_DISCONNECTING ac \<and> (case rc_obuf c of None \<Rightarrow> False | Some ob \<Rightarrow> sdslen ob = 0)
            then redisAsyncDisconnect_body ae ac w
            else if has_flag REDIS_MONITORING ac
            then Some (Some (ac\<lparr>ac_replies := snd (redisPushCallback (e_mem (a_env ae)) (ac_replies ac) cb)\<rparr>), w)
            else Some (Some ac, w))
       | Some a \<Rightarrow>
           (let (st, cb, rest) = redisShiftCallback (ac_replies ac) cb; ac = ac\<lparr>ac_replies := rest\<rparr> in
            Option.bind (reply_at ac a) (\<lambda>r.
              if st \<noteq> REDIS_OK \<and> r_type r = REDIS_REPLY_ERROR then
                redisAsyncDisconnect_body ae (spontaneous_error r ac) (log_event (FreeObject a) w)
              else
                Option.bind
                  (if st = REDIS_OK then Some (cb, ac, w)
                   else if \<not> has_flag REDIS_SUBSCRIBED ac \<and> \<not> has_flag REDIS_MONITORING ac then None
                   else if has_flag REDIS_SUBSCRIBED ac then redisGetSubscribeCallback (a_env ae) r cb ac w
                   else Some (cb, ac, w)) (\<lambda>(cb, ac, w).
                if cb_fn cb \<noteq> None then
                  Option.bind (redisRunCallback ae cb (Some a) ac w) (\<lambda>(ac, w).
                    let w = log_event (FreeObject a) w in
                    if has_flag REDIS_FREEING ac then redisAsyncFree_body ae ac w else process_loop ae cb ac w)
                else process_loop ae cb ac (log_event (FreeObject a) w)))))"

definition redisProcessCallbacks :: "'d aenv \<Rightarrow> async_context \<Rightarrow> aworld \<Rightarrow> (async_context option \<times> aworld) option" where
  "redisProcessCallbacks ae ac w = process_loop ae \<lparr>cb_fn = None, cb_privdata = 0\<rparr> ac w"

section \<open>Events\<close>

text \<open>The connect callback, which runs outside of the callback flag.\<close>

definition call_onConnect :: "'d aenv \<Rightarrow> int \<Rightarrow> async_context \<Rightarrow> aworld \<Rightarrow> (async_context \<times> aworld) option" where
  "call_onConnect ae status ac w =
     (case ac_onConnect ac of None \<Rightarrow> Some (ac, w) | Some fn \<Rightarrow> call_client ae (OnConnect fn status) ac w)"

definition redisAsyncHandleConnect ::
  "'d aenv \<Rightarrow> async_context \<Rightarrow> aworld \<Rightarrow> (int \<times> async_context option \<times> aworld) option" where
  "redisAsyncHandleConnect ae ac w =
     (let (st, c, os) = redisCheckSocketError (e_os (a_env ae)) (e_strerror (a_env ae)) (ac_c ac) (aw_os w);
          ac = ac\<lparr>ac_c := c\<rparr>; w = w\<lparr>aw_os := os\<rparr> in
      if st = REDIS_ERR then
        (if w_errno os = EINPROGRESS then Some (REDIS_OK, Some ac, w)
         else
           Option.bind (call_onConnect ae REDIS_ERR ac w) (\<lambda>(ac, w).
             map_option (\<lambda>(ac, w). (REDIS_ERR, ac, w)) (redisAsyncDisconnect_body ae ac w)))
      else
        map_option (\<lambda>(ac, w). (REDIS_OK, Some ac, w)) (call_onConnect ae REDIS_OK (set_flag REDIS_CONNECTED ac) w))"

text \<open>The common start of both handlers: go on with a connected context.\<close>

definition when_connected ::
  "'d aenv \<Rightarrow> (async_context \<Rightarrow> aworld \<Rightarrow> (async_context option \<times> aworld) option) \<Rightarrow> async_context \<Rightarrow> aworld
     \<Rightarrow> (async_context option \<times> aworld) option" where
  "when_connected ae handle ac w =
     (if has_flag REDIS_CONNECTED ac then handle ac w
      else
        Option.bind (redisAsyncHandleConnect ae ac w) (\<lambda>(st, ac, w).
          if st \<noteq> REDIS_OK then Some (ac, w)
          else case ac of
            None \<Rightarrow> None
          | Some ac \<Rightarrow> if has_flag REDIS_CONNECTED ac then handle ac w else Some (Some ac, w)))"

definition redisAsyncHandleRead :: "'d aenv \<Rightarrow> async_context \<Rightarrow> aworld \<Rightarrow> (async_context option \<times> aworld) option" where
  "redisAsyncHandleRead ae =
     when_connected ae (\<lambda>ac w.
       Option.bind (redisBufferRead (a_env ae) (ac_c ac) (aw_os w)) (\<lambda>(st, c, os).
         let ac = ac\<lparr>ac_c := c\<rparr>; w = w\<lparr>aw_os := os\<rparr> in
         if st = REDIS_ERR then redisAsyncDisconnect_body ae ac w
         else redisProcessCallbacks ae ac (el_hook AddRead ac w)))"

definition redisAsyncHandleWrite :: "'d aenv \<Rightarrow> async_context \<Rightarrow> aworld \<Rightarrow> (async_context option \<times> aworld) option" where
  "redisAsyncHandleWrite ae =
     when_connected ae (\<lambda>ac w.
       Option.bind (redisBufferWrite (a_env ae) (ac_c ac) (aw_os w)) (\<lambda>(st, wdone, c, os).
         let ac = ac\<lparr>ac_c := c\<rparr>; w = w\<lparr>aw_os := os\<rparr> in
         if st = REDIS_ERR then redisAsyncDisconnect_body ae ac w
         else Some (Some ac, el_hook AddRead ac (el_hook (if wdone then DelWrite else AddWrite) ac w))))"

end
