(* ===== verification/AsyncRelease.thy ===== *)
theory AsyncRelease
  imports Async
begin

unbundle bit_operations_syntax

text \<open>
  How a context ends: while it is being released or disconnected no callback of the program can
  revive it, every callback that is still waiting is called exactly once with a null reply, and
  the socket is closed.
\<close>

section \<open>Flags\<close>

lemma flag_bits:
  "REDIS_BLOCK = 2 ^ 0" "REDIS_CONNECTED = 2 ^ 1" "REDIS_DISCONNECTING = 2 ^ 2" "REDIS_FREEING = 2 ^ 3"
  "REDIS_IN_CALLBACK = 2 ^ 4" "REDIS_SUBSCRIBED = 2 ^ 5" "REDIS_MONITORING = 2 ^ 6"
  by (simp_all add: REDIS_BLOCK_def REDIS_CONNECTED_def REDIS_DISCONNECTING_def REDIS_FREEING_def
      REDIS_IN_CALLBACK_def REDIS_SUBSCRIBED_def REDIS_MONITORING_def)

lemma has_flag_bit: "has_flag (2 ^ k) ac \<longleftrightarrow> bit (rc_flags (ac_c ac)) k"
  using and_exp_eq_0_iff_not_bit [of "rc_flags (ac_c ac)" k] by (simp add: has_flag_def)

lemma has_flag_or: "has_flag (f OR g) ac \<longleftrightarrow> has_flag f ac \<or> has_flag g ac"
  by (simp add: has_flag_def bit.conj_disj_distrib or_eq_0_iff)

lemma set_flag_bit: "bit (rc_flags (ac_c (set_flag (2 ^ k) ac))) j \<longleftrightarrow> bit (rc_flags (ac_c ac)) j \<or> j = k"
  by (auto simp: set_flag_def bit_or_iff bit_exp_iff)

lemma clear_flag_bit: "bit (rc_flags (ac_c (clear_flag (2 ^ k) ac))) j \<longleftrightarrow> bit (rc_flags (ac_c ac)) j \<and> j \<noteq> k"
  by (auto simp: clear_flag_def bit_and_iff bit_not_iff bit_exp_iff)

lemma flag_basics [simp]:
  "has_flag (f) (ac\<lparr>ac_err := e\<rparr>) = has_flag f ac" "has_flag f (ac\<lparr>ac_errstr := s\<rparr>) = has_flag f ac"
  "has_flag f (ac\<lparr>ac_replies := l\<rparr>) = has_flag f ac" "has_flag f (ac\<lparr>ac_invalid := l\<rparr>) = has_flag f ac"
  "has_flag f (ac\<lparr>ac_channels := d\<rparr>) = has_flag f ac" "has_flag f (ac\<lparr>ac_patterns := d\<rparr>) = has_flag f ac"
  by (simp_all add: has_flag_def)

text \<open>A context whose flags alone have changed.\<close>

definition reflag :: "int \<Rightarrow> async_context \<Rightarrow> async_context" where
  "reflag f ac = ac\<lparr>ac_c := (ac_c ac)\<lparr>rc_flags := f\<rparr>\<rparr>"

lemma reflag_fields [simp]:
  "ac_replies (reflag f ac) = ac_replies ac" "ac_invalid (reflag f ac) = ac_invalid ac"
  "ac_channels (reflag f ac) = ac_channels ac" "ac_patterns (reflag f ac) = ac_patterns ac"
  "ac_ev (reflag f ac) = ac_ev ac" "ac_onDisconnect (reflag f ac) = ac_onDisconnect ac"
  "ac_onConnect (reflag f ac) = ac_onConnect ac" "ac_err (reflag f ac) = ac_err ac"
  "rc_fd (ac_c (reflag f ac)) = rc_fd (ac_c ac)" "rc_flags (ac_c (reflag f ac)) = f"
  "reflag g (reflag f ac) = reflag g ac" "reflag (rc_flags (ac_c ac)) ac = ac"
  by (simp_all add: reflag_def)

lemma reflag_flag: "set_flag x ac = reflag (rc_flags (ac_c ac) OR x) ac"
  "clear_flag x ac = reflag (rc_flags (ac_c ac) AND NOT x) ac"
  by (simp_all add: set_flag_def clear_flag_def reflag_def)

definition closing :: "async_context \<Rightarrow> bool" where
  "closing ac \<longleftrightarrow> has_flag REDIS_DISCONNECTING ac \<or> has_flag REDIS_FREEING ac"

text \<open>\<open>ac'\<close> is \<open>ac\<close> up to flags that keep it closing (or being freed) and say as before whether it is
  connected.\<close>

definition still_closing :: "async_context \<Rightarrow> async_context \<Rightarrow> bool" where
  "still_closing ac ac' \<longleftrightarrow> (\<exists>f. ac' = reflag f ac) \<and> closing ac' \<and> has_flag REDIS_CONNECTED ac' = has_flag REDIS_CONNECTED ac
     \<and> (has_flag REDIS_FREEING ac \<longrightarrow> has_flag REDIS_FREEING ac')"

lemma still_closing_refl: "closing ac \<Longrightarrow> still_closing ac ac"
  unfolding still_closing_def using reflag_fields(12) [of ac] by metis

lemma still_closing_trans: "still_closing ac ac' \<Longrightarrow> still_closing ac' ac'' \<Longrightarrow> still_closing ac ac''"
  by (auto simp: still_closing_def)

lemma still_closing_set:
  assumes "closing ac" "k \<noteq> 1"
  shows "still_closing ac (set_flag (2 ^ k) ac)"
proof -
  have "closing (set_flag (2 ^ k) ac)" using assms(1) unfolding closing_def flag_bits has_flag_bit set_flag_bit by auto
  moreover have "has_flag REDIS_CONNECTED (set_flag (2 ^ k) ac) = has_flag REDIS_CONNECTED ac"
    using assms(2) unfolding flag_bits(2) has_flag_bit set_flag_bit by simp
  moreover have "has_flag REDIS_FREEING ac \<Longrightarrow> has_flag REDIS_FREEING (set_flag (2 ^ k) ac)"
    unfolding flag_bits has_flag_bit set_flag_bit by simp
  ultimately show ?thesis unfolding still_closing_def reflag_flag by blast
qed

lemma still_closing_clear_callback:
  assumes "closing ac"
  shows "still_closing ac (clear_flag REDIS_IN_CALLBACK ac)"
proof -
  have "closing (clear_flag REDIS_IN_CALLBACK ac)"
    using assms unfolding closing_def flag_bits has_flag_bit clear_flag_bit by simp
  moreover have "has_flag REDIS_CONNECTED (clear_flag REDIS_IN_CALLBACK ac) = has_flag REDIS_CONNECTED ac"
    unfolding flag_bits has_flag_bit clear_flag_bit by simp
  moreover have "has_flag REDIS_FREEING ac \<Longrightarrow> has_flag REDIS_FREEING (clear_flag REDIS_IN_CALLBACK ac)"
    unfolding flag_bits has_flag_bit clear_flag_bit by simp
  ultimately show ?thesis unfolding still_closing_def reflag_flag by blast
qed

section \<open>What the program can do while a context closes\<close>

definition formattable :: "action \<Rightarrow> bool" where
  "formattable x \<longleftrightarrow> (case x of Command fn pd argv \<Rightarrow> length (encode_command argv) < 2 ^ 31 | _ \<Rightarrow> True)"

definition client_ok :: "'d aenv \<Rightarrow> bool" where
  "client_ok ae \<longleftrightarrow> (\<forall>n. e_mem (a_env ae) n) \<and> (\<forall>l. \<forall>x \<in> set (a_client ae l). formattable x)"

lemma Argv_formatted:
  assumes "length (encode_command argv) < 2 ^ 31" "\<forall>n. mem n"
  shows "redisFormatCommandArgv mem argv (Some (map length argv))
    = Returns (int (length (encode_command argv))) (encode_command argv @ [NUL])"
  using format_argv_build [OF assms] by (simp add: redisFormatCommandArgv_def argv_bytes_lens)

lemma command_refused:
  assumes "closing ac" "length (encode_command argv) < 2 ^ 31" "\<forall>n. e_mem e n"
  shows "redisAsyncCommandArgv e fn pd argv (Some (map length argv)) ac w = Some (REDIS_ERR, ac, w)"
  using assms(1) Argv_formatted [OF assms(2,3)]
  by (simp add: redisAsyncCommandArgv_def async_formatted_def redisAsyncCommand_body_def has_flag_or closing_def)

lemma perform_closing:
  assumes mem: "\<forall>n. e_mem e n"
  shows "closing ac \<Longrightarrow> has_flag REDIS_IN_CALLBACK ac \<Longrightarrow> \<forall>x \<in> set as. formattable x \<Longrightarrow>
    \<exists>ac'. perform e as ac w = Some (ac', w) \<and> still_closing ac ac'"
proof (induction as arbitrary: ac)
  case Nil
  then show ?case by (simp add: still_closing_refl)
next
  case (Cons x as)
  have cb: "has_flag REDIS_IN_CALLBACK (set_flag (2 ^ k) ac)" for k
    using Cons.prems(2) unfolding flag_bits has_flag_bit set_flag_bit by simp
  have step: ?case if "perform e (x # as) ac w = perform e as (set_flag (2 ^ k) ac) w" "k \<noteq> 1" for k
  proof -
    have s: "still_closing ac (set_flag (2 ^ k) ac)" by (rule still_closing_set [OF Cons.prems(1) that(2)])
    then have "closing (set_flag (2 ^ k) ac)" by (simp add: still_closing_def)
    from Cons.IH [OF this cb] show ?thesis using Cons.prems(3) that(1) still_closing_trans [OF s] by auto
  qed
  show ?case
  proof (cases x)
    case (Command fn pd argv)
    then have "perform e (x # as) ac w = perform e as ac w"
      using Cons.prems command_refused [OF Cons.prems(1) _ mem] by (simp add: formattable_def)
    then show ?thesis using Cons by simp
  next
    case Disconnect
    then have "perform e (x # as) ac w = perform e as (set_flag (2 ^ 2) ac) w"
      using cb [of 2] by (simp add: redisAsyncDisconnect_with_def flag_bits(3))
    then show ?thesis by (rule step) simp
  next
    case Free
    then have "perform e (x # as) ac w = perform e as (set_flag (2 ^ 3) ac) w"
      using cb [of 3] by (simp add: redisAsyncFree_with_def flag_bits(4))
    then show ?thesis by (rule step) simp
  qed
qed

definition ends :: "redisCallback \<Rightarrow> aevent list" where
  "ends cb = (case cb_fn cb of None \<Rightarrow> [] | Some fn \<Rightarrow> [Replied fn (cb_privdata cb) None])"

lemma run_callback_closing:
  assumes ok: "client_ok ae" and c: "closing ac" "\<not> has_flag REDIS_IN_CALLBACK ac"
  shows "\<exists>ac' w'. redisRunCallback ae cb None ac w = Some (ac', w') \<and> still_closing ac ac' \<and> \<not> has_flag REDIS_IN_CALLBACK ac'
    \<and> aw_os w' = aw_os w \<and> aw_log w' = ends cb @ aw_log w"
proof (cases "cb_fn cb")
  case None
  then show ?thesis using c still_closing_refl by (simp add: redisRunCallback_def ends_def)
next
  case (Some fn)
  let ?ac = "set_flag REDIS_IN_CALLBACK ac" and ?w = "log_event (Replied fn (cb_privdata cb) None) w"
  have s: "still_closing ac ?ac" using still_closing_set [OF c(1), of 4] by (simp add: flag_bits)
  then have "closing ?ac" by (simp add: still_closing_def)
  moreover have "has_flag REDIS_IN_CALLBACK ?ac" unfolding flag_bits has_flag_bit set_flag_bit by simp
  moreover have "\<forall>n. e_mem (a_env ae) n" "\<forall>x \<in> set (a_client ae (aw_log ?w)). formattable x"
    using ok by (auto simp: client_ok_def)
  ultimately obtain ac1 where ac1: "perform (a_env ae) (a_client ae (aw_log ?w)) ?ac ?w = Some (ac1, ?w)" "still_closing ?ac ac1"
    using perform_closing by blast
  let ?ac' = "clear_flag REDIS_IN_CALLBACK ac1"
  have "redisRunCallback ae cb None ac w = Some (?ac', ?w)"
    using Some ac1(1) by (simp add: redisRunCallback_def call_client_def)
  moreover have "still_closing ac ?ac'"
    using still_closing_trans [OF s ac1(2)] still_closing_clear_callback [of ac1] still_closing_trans ac1(2)
    unfolding still_closing_def [of ?ac] by blast
  moreover have "\<not> has_flag REDIS_IN_CALLBACK ?ac'" unfolding flag_bits has_flag_bit clear_flag_bit by simp
  ultimately show ?thesis using Some by (simp add: ends_def log_event_def)
qed
section \<open>Running the callbacks that wait\<close>

text \<open>What a step of the release does: it keeps closing, makes no system call and logs \<open>evs\<close>.\<close>

definition release_step :: "async_context \<Rightarrow> aworld \<Rightarrow> aevent list \<Rightarrow> (async_context \<times> aworld) option \<Rightarrow> bool" where
  "release_step ac w evs res \<longleftrightarrow> (\<exists>ac' w'. res = Some (ac', w') \<and> still_closing ac ac' \<and> \<not> has_flag REDIS_IN_CALLBACK ac'
     \<and> aw_os w' = aw_os w \<and> aw_log w' = rev evs @ aw_log w)"

lemma ends_rev: "rev (ends cb) = ends cb"
  by (simp add: ends_def split: option.split)

lemma run_callback_step:
  "client_ok ae \<Longrightarrow> closing ac \<Longrightarrow> \<not> has_flag REDIS_IN_CALLBACK ac \<Longrightarrow>
    release_step ac w (ends cb) (redisRunCallback ae cb None ac w)"
  using run_callback_closing [of ae ac cb w] by (simp add: release_step_def ends_rev)

lemma release_step_bind:
  assumes "release_step ac w evs res"
    and "\<And>ac' w'. still_closing ac ac' \<Longrightarrow> \<not> has_flag REDIS_IN_CALLBACK ac' \<Longrightarrow> aw_os w' = aw_os w
      \<Longrightarrow> release_step ac' w' evs' (f ac' w')"
  shows "release_step ac w (evs @ evs') (Option.bind res (\<lambda>(ac, w). f ac w))"
proof -
  obtain ac' w' where a: "res = Some (ac', w')" "still_closing ac ac'" "\<not> has_flag REDIS_IN_CALLBACK ac'"
    "aw_os w' = aw_os w" "aw_log w' = rev evs @ aw_log w"
    using assms(1) by (auto simp: release_step_def)
  from assms(2) [OF a(2-4)] show ?thesis
    using a still_closing_trans [OF a(2)] by (auto simp: release_step_def)
qed

lemma reflag_drop:
  "(reflag f ac)\<lparr>ac_replies := l\<rparr> = reflag f (ac\<lparr>ac_replies := l\<rparr>)"
  "(reflag f ac)\<lparr>ac_invalid := l\<rparr> = reflag f (ac\<lparr>ac_invalid := l\<rparr>)"
  by (simp_all add: reflag_def)

lemma still_closing_replies:
  assumes "still_closing (ac\<lparr>ac_replies := l\<rparr>) ac1"
  shows "still_closing (ac\<lparr>ac_replies := m\<rparr>) (ac1\<lparr>ac_replies := m\<rparr>)"
proof -
  obtain f where "ac1 = reflag f (ac\<lparr>ac_replies := l\<rparr>)" using assms by (auto simp: still_closing_def)
  then have "ac1\<lparr>ac_replies := m\<rparr> = reflag f (ac\<lparr>ac_replies := m\<rparr>)" by (simp add: reflag_drop)
  then show ?thesis using assms unfolding still_closing_def closing_def flag_basics by blast
qed

lemma still_closing_invalid:
  assumes "still_closing (ac\<lparr>ac_invalid := l\<rparr>) ac1"
  shows "still_closing (ac\<lparr>ac_invalid := m\<rparr>) (ac1\<lparr>ac_invalid := m\<rparr>)"
proof -
  obtain f where "ac1 = reflag f (ac\<lparr>ac_invalid := l\<rparr>)" using assms by (auto simp: still_closing_def)
  then have "ac1\<lparr>ac_invalid := m\<rparr> = reflag f (ac\<lparr>ac_invalid := m\<rparr>)" by (simp add: reflag_drop)
  then show ?thesis using assms unfolding still_closing_def closing_def flag_basics by blast
qed

lemma run_replies_step:
  assumes ok: "client_ok ae"
  shows "closing ac \<Longrightarrow> \<not> has_flag REDIS_IN_CALLBACK ac \<Longrightarrow>
    release_step (ac\<lparr>ac_replies := []\<rparr>) w (concat (map ends (ac_replies ac))) (run_replies ae ac w)"
proof (induction "ac_replies ac" arbitrary: ac w)
  case Nil
  then have r: "run_replies ae ac w = Some (ac, w)" and eq: "ac\<lparr>ac_replies := []\<rparr> = ac" by (simp_all add: run_replies.simps)
  show ?case unfolding eq r using Nil.prems still_closing_refl [of ac] Nil.hyps by (simp add: release_step_def)
next
  case (Cons cb l)
  let ?ac = "ac\<lparr>ac_replies := l\<rparr>"
  have unf: "run_replies ae ac w = Option.bind (redisRunCallback ae cb None ?ac w) (\<lambda>(ac, w). run_replies ae ac w)"
    using Cons.hyps(2) by (subst run_replies.simps) (simp flip: Cons.hyps(2))
  have c: "closing ?ac" "\<not> has_flag REDIS_IN_CALLBACK ?ac" using Cons.prems by (simp_all add: closing_def)
  obtain ac1 w1 where a: "redisRunCallback ae cb None ?ac w = Some (ac1, w1)" "still_closing ?ac ac1"
    "\<not> has_flag REDIS_IN_CALLBACK ac1" "aw_os w1 = aw_os w" "aw_log w1 = ends cb @ aw_log w"
    using run_callback_closing [OF ok c] by blast
  have r1: "ac_replies ac1 = l" "closing ac1" using a(2) by (auto simp: still_closing_def)
  have "still_closing (ac\<lparr>ac_replies := []\<rparr>) (ac1\<lparr>ac_replies := []\<rparr>)" by (rule still_closing_replies [OF a(2)])
  then show ?case
    using Cons.hyps(1) [of ac1 w1] r1 a(3-5) still_closing_trans
    unfolding unf a(1) release_step_def by (auto simp: ends_rev simp flip: Cons.hyps(2))
qed

lemma run_invalid_step:
  assumes ok: "client_ok ae"
  shows "closing ac \<Longrightarrow> \<not> has_flag REDIS_IN_CALLBACK ac \<Longrightarrow>
    release_step (ac\<lparr>ac_invalid := []\<rparr>) w (concat (map ends (ac_invalid ac))) (run_invalid ae ac w)"
proof (induction "ac_invalid ac" arbitrary: ac w)
  case Nil
  then have r: "run_invalid ae ac w = Some (ac, w)" and eq: "ac\<lparr>ac_invalid := []\<rparr> = ac" by (simp_all add: run_invalid.simps)
  show ?case unfolding eq r using Nil.prems still_closing_refl [of ac] Nil.hyps by (simp add: release_step_def)
next
  case (Cons cb l)
  let ?ac = "ac\<lparr>ac_invalid := l\<rparr>"
  have unf: "run_invalid ae ac w = Option.bind (redisRunCallback ae cb None ?ac w) (\<lambda>(ac, w). run_invalid ae ac w)"
    using Cons.hyps(2) by (subst run_invalid.simps) (simp flip: Cons.hyps(2))
  have c: "closing ?ac" "\<not> has_flag REDIS_IN_CALLBACK ?ac" using Cons.prems by (simp_all add: closing_def)
  obtain ac1 w1 where a: "redisRunCallback ae cb None ?ac w = Some (ac1, w1)" "still_closing ?ac ac1"
    "\<not> has_flag REDIS_IN_CALLBACK ac1" "aw_os w1 = aw_os w" "aw_log w1 = ends cb @ aw_log w"
    using run_callback_closing [OF ok c] by blast
  have r1: "ac_invalid ac1 = l" "closing ac1" using a(2) by (auto simp: still_closing_def)
  have "still_closing (ac\<lparr>ac_invalid := []\<rparr>) (ac1\<lparr>ac_invalid := []\<rparr>)" by (rule still_closing_invalid [OF a(2)])
  then show ?case
    using Cons.hyps(1) [of ac1 w1] r1 a(3-5) still_closing_trans
    unfolding unf a(1) release_step_def by (auto simp: ends_rev simp flip: Cons.hyps(2))
qed

text \<open>The dictionaries a context owns.\<close>

definition subs_ok :: "(byte list, redisCallback, aevent) dict \<Rightarrow> bool" where
  "subs_ok d \<longleftrightarrow> dict_inv d \<and> d_type d = callbackDict \<and> d_size d \<le> 2 ^ 30"

definition subscribers :: "(byte list, redisCallback, aevent) dict \<Rightarrow> redisCallback list" where
  "subscribers d = map de_val (entries d)"

lemma dictNext_subs:
  assumes d: "subs_ok d" and it: "it_ok d it"
  shows "\<exists>it'. case it_rest d it of
        [] \<Rightarrow> dictNext d it = Some (None, it')
      | he # r \<Rightarrow> dictNext d it = Some (Some he, it') \<and> it_rest d it' = r \<and> it_ok d it'"
proof (cases "d_size d = 0")
  case True
  then have e: "d_table d = []" using d by (auto simp: subs_ok_def dict_inv_def sized_def)
  have "it_entry it = []" using it e by (auto simp: it_ok_def)
  moreover have "0 \<le> it_index it + 1" using it by (simp add: it_ok_def)
  ultimately show ?thesis using True e by (subst dictNext.simps) (simp add: it_rest_def Let_def)
next
  case False
  then obtain k where k: "sized d k" using d by (auto simp: subs_ok_def dict_inv_def)
  then have "(2 :: nat) ^ k \<le> 2 ^ 30" using d by (simp add: subs_ok_def sized_def)
  then have "k \<le> 30" using power_le_imp_le_exp [of "2 :: nat" k 30] by simp
  from dictNext_spec [OF k this it] show ?thesis by (fastforce simp: it_ok_def split: list.splits)
qed

lemma run_subscriptions_step:
  assumes ok: "client_ok ae" and d: "subs_ok d"
  shows "it_ok d it \<Longrightarrow> it_rest d it = hes \<Longrightarrow> async_dict pv ac = d \<Longrightarrow> closing ac \<Longrightarrow> \<not> has_flag REDIS_IN_CALLBACK ac \<Longrightarrow>
    release_step ac w (concat (map (ends \<circ> de_val) hes)) (run_subscriptions ae pv it ac w)"
proof (induction hes arbitrary: it ac w)
  case Nil
  then obtain it' where "dictNext d it = Some (None, it')" using dictNext_subs [OF d Nil.prems(1)] by auto
  then have "run_subscriptions ae pv it ac w = Some (ac, w)" using Nil.prems(3) by (subst run_subscriptions.simps) simp
  then show ?case using Nil.prems still_closing_refl by (simp add: release_step_def)
next
  case (Cons he hes)
  obtain it' where n: "dictNext d it = Some (Some he, it')" "it_rest d it' = hes" "it_ok d it'"
    using dictNext_subs [OF d Cons.prems(1)] Cons.prems(2) by auto
  have "run_subscriptions ae pv it ac w
      = Option.bind (redisRunCallback ae (de_val he) None ac w) (\<lambda>(ac, w). run_subscriptions ae pv it' ac w)"
    using n(1) Cons.prems(3) by (subst run_subscriptions.simps) simp
  moreover have "release_step ac w (ends (de_val he) @ concat (map (ends \<circ> de_val) hes))
      (Option.bind (redisRunCallback ae (de_val he) None ac w) (\<lambda>(ac, w). run_subscriptions ae pv it' ac w))"
  proof (rule release_step_bind [OF run_callback_step [OF ok Cons.prems(4,5)]])
    fix ac' w' assume a: "still_closing ac ac'" "\<not> has_flag REDIS_IN_CALLBACK ac'"
    then have "async_dict pv ac' = d" "closing ac'" using Cons.prems(3) by (auto simp: still_closing_def async_dict_def)
    then show "release_step ac' w' (concat (map (ends \<circ> de_val) hes)) (run_subscriptions ae pv it' ac' w')"
      by (intro Cons.IH n a)
  qed
  ultimately show ?case by (simp add: comp_def)
qed

lemma release_subscriptions_step:
  assumes ok: "client_ok ae" and d: "subs_ok (async_dict pv ac)" and c: "closing ac" "\<not> has_flag REDIS_IN_CALLBACK ac"
  shows "release_step ac w (concat (map ends (subscribers (async_dict pv ac))) @ free_events (async_dict pv ac) (entries (async_dict pv ac)))
    (release_subscriptions ae pv ac w)"
proof -
  let ?d = "async_dict pv ac"
  let ?it = "\<lparr>it_index = - 1, it_entry = [], it_nextEntry = []\<rparr> :: (byte list, redisCallback) dictIterator"
  have it: "dictGetIterator (e_mem (a_env ae)) = Some ?it" using ok by (simp add: client_ok_def dictGetIterator_def)
  have r: "it_ok ?d ?it" "it_rest ?d ?it = entries ?d" by (simp_all add: it_ok_def it_rest_def entries_def)
  have clear: "dictRelease ?d = Some (free_events ?d (entries ?d))"
    using dict_clear_spec [of ?d] d by (simp add: subs_ok_def dictRelease_def)
  obtain ac1 w1 where a: "run_subscriptions ae pv ?it ac w = Some (ac1, w1)" "still_closing ac ac1" "\<not> has_flag REDIS_IN_CALLBACK ac1"
    "aw_os w1 = aw_os w" "aw_log w1 = rev (concat (map ends (subscribers ?d))) @ aw_log w"
    using run_subscriptions_step [OF ok d r refl c, of w] by (auto simp: release_step_def subscribers_def comp_def)
  have "async_dict pv ac1 = ?d" using a(2) by (auto simp: still_closing_def async_dict_def)
  then show ?thesis using it clear a by (simp add: release_subscriptions_def release_step_def log_events_def)
qed

section \<open>The whole release\<close>

text \<open>
  The disconnect callback runs when the context is half released: it may try to send commands, which
  are refused, but not disconnect or free the context.
\<close>

definition keeps_off :: "'d aenv \<Rightarrow> bool" where
  "keeps_off ae \<longleftrightarrow> (\<forall>fn st l. \<forall>x \<in> set (a_client ae (OnDisconnect fn st # l)). x \<noteq> Disconnect \<and> x \<noteq> Free)"

lemma perform_commands:
  assumes "\<forall>n. e_mem e n" "closing ac" "\<forall>x \<in> set as. formattable x \<and> x \<noteq> Disconnect \<and> x \<noteq> Free"
  shows "perform e as ac w = Some (ac, w)"
  using assms(3)
proof (induction as)
  case (Cons x as)
  then obtain fn pd argv where "x = Command fn pd argv" "length (encode_command argv) < 2 ^ 31"
    by (cases x) (auto simp: formattable_def)
  then show ?case using Cons command_refused [OF assms(2) _ assms(1)] by simp
qed simp

fun is_call :: "aevent \<Rightarrow> bool" where
  "is_call (Replied fn pd r) = True"
| "is_call (OnDisconnect fn st) = True"
| "is_call (OnConnect fn st) = True"
| "is_call _ = False"

definition final_calls :: "async_context \<Rightarrow> aevent list" where
  "final_calls ac = concat (map ends (ac_replies ac @ ac_invalid ac
     @ subscribers (ac_channels ac) @ subscribers (ac_patterns ac)))"

definition farewell :: "async_context \<Rightarrow> int \<Rightarrow> aevent list" where
  "farewell ac st = (case ac_onDisconnect ac of
     Some fn \<Rightarrow> if has_flag REDIS_CONNECTED ac then [OnDisconnect fn st] else [] | None \<Rightarrow> [])"

lemma farewell_cong:
  "ac_onDisconnect a = ac_onDisconnect b \<Longrightarrow> has_flag REDIS_CONNECTED a = has_flag REDIS_CONNECTED b \<Longrightarrow> farewell a = farewell b"
  unfolding farewell_def by presburger

lemma calls_of_ends [simp]: "filter is_call (concat (map ends l)) = concat (map ends l)"
  by (induction l) (auto simp: ends_def split: option.split)

lemma calls_of_frees:
  "d_type d = callbackDict \<Longrightarrow> filter is_call (free_events d hes) = []"
  by (induction hes) (auto simp: free_events_def dictFreeEntryKey_def dictFreeEntryVal_def callbackDict_def
      callbackKeyDestructor_def callbackValDestructor_def)

lemma redisFree_fd: "rc_fd c' = rc_fd c \<Longrightarrow> redisFree e c' w = redisFree e c w"
  by (simp add: redisFree_def)

lemma onDisconnect_step:
  assumes ok: "client_ok ae" "keeps_off ae" and c: "closing ac"
  shows "\<exists>st w'. call_onDisconnect ae ac w = Some (ac, w') \<and> aw_os w' = aw_os w \<and> aw_log w' = rev (farewell ac st) @ aw_log w
    \<and> (has_flag REDIS_FREEING ac \<longrightarrow> st = REDIS_OK)"
proof (cases "\<exists>fn. ac_onDisconnect ac = Some fn \<and> has_flag REDIS_CONNECTED ac")
  case False
  then show ?thesis by (auto simp: call_onDisconnect_def farewell_def split: option.split)
next
  case True
  then obtain fn where fn: "ac_onDisconnect ac = Some fn" "has_flag REDIS_CONNECTED ac" by blast
  define st where "st = (if has_flag REDIS_FREEING ac then REDIS_OK else if ac_err ac = 0 then REDIS_OK else REDIS_ERR)"
  have "perform (a_env ae) (a_client ae (OnDisconnect fn st # aw_log w)) ac (log_event (OnDisconnect fn st) w)
      = Some (ac, log_event (OnDisconnect fn st) w)"
    by (rule perform_commands) (use ok c in \<open>auto simp: client_ok_def keeps_off_def\<close>)
  then have "call_onDisconnect ae ac w = Some (ac, log_event (OnDisconnect fn st) w)"
    using fn by (simp add: call_onDisconnect_def call_client_def log_event_def st_def)
  then show ?thesis using fn by (intro exI [of _ st]) (simp add: farewell_def log_event_def st_def)
qed

lemma free_body_spec:
  assumes ok: "client_ok ae" "keeps_off ae" and c: "closing ac" "\<not> has_flag REDIS_IN_CALLBACK ac"
    and d: "subs_ok (ac_channels ac)" "subs_ok (ac_patterns ac)"
  shows "\<exists>w' evs st. redisAsyncFree_body ae ac w = Some (None, w') \<and> aw_log w' = rev evs @ aw_log w
    \<and> filter is_call evs = final_calls ac @ farewell ac st \<and> (has_flag REDIS_FREEING ac \<longrightarrow> st = REDIS_OK)
    \<and> aw_os w' = redisFree (a_env ae) (ac_c ac) (aw_os w)"
proof -
  let ?ac1 = "ac\<lparr>ac_replies := []\<rparr>"
  obtain a1 w1 where a1: "run_replies ae ac w = Some (a1, w1)" "still_closing ?ac1 a1" "\<not> has_flag REDIS_IN_CALLBACK a1"
    "aw_os w1 = aw_os w" "aw_log w1 = rev (concat (map ends (ac_replies ac))) @ aw_log w"
    using run_replies_step [OF ok(1) c, of w] by (auto simp: release_step_def)
  have f1: "closing a1" "ac_invalid a1 = ac_invalid ac" "ac_channels a1 = ac_channels ac" "ac_patterns a1 = ac_patterns ac"
    "ac_onDisconnect a1 = ac_onDisconnect ac" "rc_fd (ac_c a1) = rc_fd (ac_c ac)" "has_flag REDIS_CONNECTED a1 = has_flag REDIS_CONNECTED ac"
    "has_flag REDIS_FREEING ac \<longrightarrow> has_flag REDIS_FREEING a1"
    using a1(2) by (auto simp: still_closing_def)
  let ?ac2 = "a1\<lparr>ac_invalid := []\<rparr>"
  obtain a2 w2 where a2: "run_invalid ae a1 w1 = Some (a2, w2)" "still_closing ?ac2 a2" "\<not> has_flag REDIS_IN_CALLBACK a2"
    "aw_os w2 = aw_os w1" "aw_log w2 = rev (concat (map ends (ac_invalid ac))) @ aw_log w1"
    using run_invalid_step [OF ok(1) f1(1) a1(3), of w1] f1(2) by (auto simp: release_step_def)
  have f2: "closing a2" "ac_channels a2 = ac_channels ac" "ac_patterns a2 = ac_patterns ac"
    "ac_onDisconnect a2 = ac_onDisconnect ac" "rc_fd (ac_c a2) = rc_fd (ac_c ac)" "has_flag REDIS_CONNECTED a2 = has_flag REDIS_CONNECTED ac"
    "has_flag REDIS_FREEING ac \<longrightarrow> has_flag REDIS_FREEING a2"
    using a2(2) f1 by (auto simp: still_closing_def)
  obtain a3 w3 where a3: "release_subscriptions ae False a2 w2 = Some (a3, w3)" "still_closing a2 a3" "\<not> has_flag REDIS_IN_CALLBACK a3"
    "aw_os w3 = aw_os w2" "aw_log w3 = rev (concat (map ends (subscribers (ac_channels ac)))
        @ free_events (ac_channels ac) (entries (ac_channels ac))) @ aw_log w2"
    using release_subscriptions_step [OF ok(1) _ f2(1) a2(3), of False w2] f2(2) d(1)
    by (auto simp: release_step_def async_dict_def)
  have f3: "closing a3" "ac_patterns a3 = ac_patterns ac"
    "ac_onDisconnect a3 = ac_onDisconnect ac" "rc_fd (ac_c a3) = rc_fd (ac_c ac)" "has_flag REDIS_CONNECTED a3 = has_flag REDIS_CONNECTED ac"
    "has_flag REDIS_FREEING ac \<longrightarrow> has_flag REDIS_FREEING a3"
    using a3(2) f2 by (auto simp: still_closing_def)
  obtain a4 w4 where a4: "release_subscriptions ae True a3 w3 = Some (a4, w4)" "still_closing a3 a4" "\<not> has_flag REDIS_IN_CALLBACK a4"
    "aw_os w4 = aw_os w3" "aw_log w4 = rev (concat (map ends (subscribers (ac_patterns ac)))
        @ free_events (ac_patterns ac) (entries (ac_patterns ac))) @ aw_log w3"
    using release_subscriptions_step [OF ok(1) _ f3(1) a3(3), of True w3] f3(2) d(2)
    by (auto simp: release_step_def async_dict_def)
  have f4: "closing a4" "ac_onDisconnect a4 = ac_onDisconnect ac" "rc_fd (ac_c a4) = rc_fd (ac_c ac)"
    "has_flag REDIS_CONNECTED a4 = has_flag REDIS_CONNECTED ac" "has_flag REDIS_FREEING ac \<longrightarrow> has_flag REDIS_FREEING a4"
    using a4(2) f3 by (auto simp: still_closing_def)
  have f5: "farewell a4 = farewell ac" by (rule farewell_cong [OF f4(2,4)])
  let ?w5 = "el_hook Cleanup a4 w4"
  obtain hooks where w5: "aw_os ?w5 = aw_os w4" "aw_log ?w5 = rev hooks @ aw_log w4" "filter is_call hooks = []"
    by (cases "Cleanup \<in> set (ac_ev a4)") (auto simp: el_hook_def log_event_def intro: that [of "[Hooked Cleanup]"] that [of "[]"])
  obtain st w6 where w6: "call_onDisconnect ae a4 ?w5 = Some (a4, w6)" "aw_os w6 = aw_os ?w5"
    "aw_log w6 = rev (farewell ac st) @ aw_log ?w5" "has_flag REDIS_FREEING a4 \<longrightarrow> st = REDIS_OK"
    using onDisconnect_step [OF ok f4(1), of ?w5] f5 by auto
  let ?evs = "concat (map ends (ac_replies ac)) @ concat (map ends (ac_invalid ac))
      @ concat (map ends (subscribers (ac_channels ac))) @ free_events (ac_channels ac) (entries (ac_channels ac))
      @ concat (map ends (subscribers (ac_patterns ac))) @ free_events (ac_patterns ac) (entries (ac_patterns ac))
      @ hooks @ farewell ac st"
  let ?w7 = "w6\<lparr>aw_os := redisFree (a_env ae) (ac_c a4) (aw_os w6)\<rparr>"
  have "redisAsyncFree_body ae ac w = Some (None, ?w7)"
    by (simp add: redisAsyncFree_body_def a1(1) a2(1) a3(1) a4(1) w6(1))
  moreover have "aw_log ?w7 = rev ?evs @ aw_log w" using a1(5) a2(5) a3(5) a4(5) w5(2) w6(3) by simp
  moreover have "filter is_call (farewell ac st) = farewell ac st" by (simp add: farewell_def split: option.split)
  then have "filter is_call ?evs = final_calls ac @ farewell ac st"
    using calls_of_frees d w5(3) by (simp add: final_calls_def subs_ok_def)
  moreover have "aw_os ?w7 = redisFree (a_env ae) (ac_c ac) (aw_os w)"
    using redisFree_fd [OF f4(3)] a1(4) a2(4) a3(4) a4(4) w5(1) w6(2) by simp
  ultimately show ?thesis using w6(4) f4(5) by (intro exI [of _ ?w7] exI [of _ ?evs] exI [of _ st]) simp
qed


lemma free_body_spec':
  assumes "client_ok ae" "keeps_off ae" "closing ac" "\<not> has_flag REDIS_IN_CALLBACK ac"
    "subs_ok (ac_channels ac)" "subs_ok (ac_patterns ac)"
  obtains w' evs st where "redisAsyncFree_body ae ac w = Some (None, w')" "aw_log w' = rev evs @ aw_log w"
    "filter is_call evs = final_calls ac @ farewell ac st" "has_flag REDIS_FREEING ac \<longrightarrow> st = REDIS_OK"
    "aw_os w' = redisFree (a_env ae) (ac_c ac) (aw_os w)"
  using free_body_spec [OF assms, of w] by blast

lemma final_calls_reflag [simp]: "final_calls (reflag f ac) = final_calls ac"
  by (simp add: final_calls_def)

lemma redisFree_reflag [simp]: "redisFree e (ac_c (reflag f ac)) w = redisFree e (ac_c ac) w"
  by (rule redisFree_fd) simp

section \<open>Nothing is left waiting\<close>

text \<open>C4. Releasing a context answers everybody: outside of a callback, \<^verbatim>\<open>redisAsyncFree\<close> returns,
  and on the way each callback still waiting (for a reply, for a reply to a command sent while
  subscribed, for messages of a channel, for those of a pattern) is called exactly once, in that
  order, with a null reply; then the disconnect callback is told \<^verbatim>\<open>REDIS_OK\<close> if the context was
  connected, and the connection is closed. This holds whatever commands, disconnects and frees
  the callbacks ask for.\<close>

theorem free_answers_every_callback:
  assumes "client_ok ae" "keeps_off ae" "\<not> has_flag REDIS_IN_CALLBACK ac"
    "subs_ok (ac_channels ac)" "subs_ok (ac_patterns ac)"
  shows "\<exists>w' evs. redisAsyncFree ae ac w = Some (None, w') \<and> aw_log w' = rev evs @ aw_log w
    \<and> filter is_call evs = concat (map ends (ac_replies ac @ ac_invalid ac
         @ subscribers (ac_channels ac) @ subscribers (ac_patterns ac))) @ farewell ac REDIS_OK
    \<and> aw_os w' = redisFree (a_env ae) (ac_c ac) (aw_os w)"
proof -
  let ?ac = "set_flag REDIS_FREEING ac"
  have f: "has_flag REDIS_FREEING ?ac" "\<not> has_flag REDIS_IN_CALLBACK ?ac" "has_flag REDIS_CONNECTED ?ac = has_flag REDIS_CONNECTED ac"
    using assms(3) unfolding flag_bits has_flag_bit set_flag_bit by auto
  have eq: "final_calls ?ac = final_calls ac" "farewell ?ac = farewell ac"
    "redisFree (a_env ae) (ac_c ?ac) (aw_os w) = redisFree (a_env ae) (ac_c ac) (aw_os w)"
    using f(3) farewell_cong [of ?ac ac] by (simp_all add: reflag_flag)
  have "closing ?ac" "subs_ok (ac_channels ?ac)" "subs_ok (ac_patterns ?ac)"
    using f(1) assms(4,5) by (simp_all add: closing_def reflag_flag)
  then obtain w' evs st where "redisAsyncFree_body ae ?ac w = Some (None, w')" "aw_log w' = rev evs @ aw_log w"
    "filter is_call evs = final_calls ?ac @ farewell ?ac st" "has_flag REDIS_FREEING ?ac \<longrightarrow> st = REDIS_OK"
    "aw_os w' = redisFree (a_env ae) (ac_c ?ac) (aw_os w)"
    by (rule free_body_spec' [OF assms(1,2) _ f(2), of w])
  then show ?thesis
    using f(1,2) unfolding eq by (auto simp: redisAsyncFree_def redisAsyncFree_with_def final_calls_def)
qed

lemma subs_ok_new: "subs_ok (dict_init callbackDict)"
proof -
  have "callbackKeyCompare a b \<longleftrightarrow> a = b" for a b by (auto simp: callbackKeyCompare_def Let_def)
  then show ?thesis
    by (simp add: subs_ok_def dict_inv_def type_ok_def dict_init_def callbackDict_def callbackValDup_def entries_def well_placed_def)
qed

lemma BufferRead_fails:
  assumes "redisBufferRead e c w = Some (REDIS_ERR, c', w')"
  shows "rc_err c' \<noteq> 0 \<and> rc_fd c' = rc_fd c \<and> rc_flags c' = rc_flags c"
proof -
  have "rd_err rd' \<noteq> 0" if "redisReaderFeed a rd bs = Some (st, rd')" "st \<noteq> REDIS_OK" for a rd bs st rd'
    using that by (auto simp: redisReaderFeed_def redisReaderSetErrorOOM_def redisReaderSetError_def status_codes Let_def split: if_splits option.splits)
  then show ?thesis using assms
    by (auto simp: redisBufferRead_def status_codes redisSetError_def redisSetErrorErrno_def REDIS_ERR_IO_def Let_def
        split: if_splits option.splits prod.splits)
qed


text \<open>A program that, on any answer, asks for another command, a disconnect and a release.\<close>

definition pushy_env :: "byte list list \<Rightarrow> nat aenv" where
  "pushy_env cs = \<lparr>a_env = scripted_env cs, a_client = (\<lambda>l. case l of
     Replied fn pd r # _ \<Rightarrow> [Command (Some 9) 0 [''PING''], Disconnect, Free] | _ \<Rightarrow> [])\<rparr>"

lemma pushy_env_ok: "client_ok (pushy_env cs)" "keeps_off (pushy_env cs)"
  by (auto simp: client_ok_def keeps_off_def pushy_env_def scripted_env_def formattable_def encode_command_def bulk_def
      dec_of_nat.simps split: list.split aevent.split)

definition waiting_context :: async_context where
  "waiting_context =
    \<lparr>ac_c = \<lparr>rc_err = 0, rc_errstr = [], rc_fd = 5, rc_flags = REDIS_CONNECTED, rc_obuf = None, rc_reader = None\<rparr>,
     ac_err = 0, ac_errstr = None, ac_ev = [Cleanup], ac_onDisconnect = Some 3, ac_onConnect = None,
     ac_replies = [\<lparr>cb_fn = Some 1, cb_privdata = 10\<rparr>, \<lparr>cb_fn = None, cb_privdata = 0\<rparr>, \<lparr>cb_fn = Some 2, cb_privdata = 20\<rparr>],
     ac_invalid = [], ac_channels = dict_init callbackDict, ac_patterns = dict_init callbackDict\<rparr>"

lemma waiting_context_ok:
  "\<not> has_flag REDIS_IN_CALLBACK waiting_context" "has_flag REDIS_CONNECTED waiting_context"
  "subs_ok (ac_channels waiting_context)" "subs_ok (ac_patterns waiting_context)" "rc_fd (ac_c waiting_context) = 5"
  "concat (map ends (ac_replies waiting_context @ ac_invalid waiting_context @ subscribers (ac_channels waiting_context)
     @ subscribers (ac_patterns waiting_context))) = [Replied 1 10 None, Replied 2 20 None]"
  "farewell waiting_context st = [OnDisconnect 3 st]"
  using subs_ok_new
  by (simp_all add: waiting_context_def has_flag_def REDIS_IN_CALLBACK_def REDIS_CONNECTED_def ends_def subscribers_def
      entries_def dict_init_def farewell_def)

theorem free_answers_every_callback_witness:
  "\<exists>w' evs. redisAsyncFree (pushy_env []) waiting_context \<lparr>aw_os = \<lparr>w_trace = [], w_errno = 0\<rparr>, aw_log = []\<rparr> = Some (None, w')
     \<and> aw_log w' = rev evs \<and> filter is_call evs = [Replied 1 10 None, Replied 2 20 None, OnDisconnect 3 REDIS_OK]
     \<and> w_trace (aw_os w') \<noteq> []"
proof -
  let ?w = "\<lparr>aw_os = \<lparr>w_trace = [], w_errno = 0\<rparr>, aw_log = []\<rparr>"
  have closed: "w_trace (redisFree (scripted_env []) (ac_c waiting_context) \<lparr>w_trace = [], w_errno = 0\<rparr>) \<noteq> []"
    by (simp add: redisFree_def waiting_context_ok(5) syscall_def scripted_env_def scripted_os_def Let_def)
  from free_answers_every_callback [OF pushy_env_ok waiting_context_ok(1,3,4), of "[]" ?w]
  show ?thesis using closed unfolding waiting_context_ok(6,7) by (auto simp: pushy_env_def)
qed

lemma broken_step:
  assumes "client_ok ae" "keeps_off ae" "\<not> has_flag REDIS_IN_CALLBACK ac" "has_flag REDIS_CONNECTED ac"
    "subs_ok (ac_channels ac)" "subs_ok (ac_patterns ac)"
    and "redisBufferRead (a_env ae) (ac_c ac) (aw_os w) = Some (REDIS_ERR, c', os')"
  shows "\<exists>w' evs st. redisAsyncHandleRead ae ac w = Some (None, w') \<and> aw_log w' = rev evs @ aw_log w
    \<and> filter is_call evs = concat (map ends (ac_replies ac @ ac_invalid ac
         @ subscribers (ac_channels ac) @ subscribers (ac_patterns ac))) @ farewell ac st
    \<and> aw_os w' = redisFree (a_env ae) c' os'"
proof -
  let ?ac = "set_flag REDIS_DISCONNECTING (redisAsyncCopyError (ac\<lparr>ac_c := c'\<rparr>))"
  let ?w = "w\<lparr>aw_os := os'\<rparr>"
  note c' = BufferRead_fails [OF assms(7)]
  have f: "rc_flags (ac_c (redisAsyncCopyError (ac\<lparr>ac_c := c'\<rparr>))) = rc_flags (ac_c ac)"
    using c' by (simp add: redisAsyncCopyError_def)
  have g: "has_flag REDIS_DISCONNECTING ?ac" "\<not> has_flag REDIS_IN_CALLBACK ?ac" "has_flag REDIS_CONNECTED ?ac = has_flag REDIS_CONNECTED ac"
    using assms(3) unfolding flag_bits has_flag_bit set_flag_bit f by auto
  have eq: "final_calls ?ac = final_calls ac" "farewell ?ac = farewell ac"
    "redisFree (a_env ae) (ac_c ?ac) (aw_os ?w) = redisFree (a_env ae) c' os'"
    using farewell_cong [OF _ g(3)] redisFree_fd by (simp_all add: reflag_flag redisAsyncCopyError_def final_calls_def)
  have "closing ?ac" "subs_ok (ac_channels ?ac)" "subs_ok (ac_patterns ?ac)"
    using g(1) assms(5,6) by (simp_all add: closing_def reflag_flag redisAsyncCopyError_def)
  then obtain w' evs st where "redisAsyncFree_body ae ?ac ?w = Some (None, w')" "aw_log w' = rev evs @ aw_log ?w"
    "filter is_call evs = final_calls ?ac @ farewell ?ac st" "has_flag REDIS_FREEING ?ac \<longrightarrow> st = REDIS_OK"
    "aw_os w' = redisFree (a_env ae) (ac_c ?ac) (aw_os ?w)"
    by (rule free_body_spec' [OF assms(1,2) _ g(2), of ?w])
  moreover have "redisAsyncHandleRead ae ac w = redisAsyncFree_body ae ?ac ?w"
    using assms(4,7) c' by (simp add: redisAsyncHandleRead_def when_connected_def redisAsyncDisconnect_body_def
        redisAsyncCopyError_def Let_def)
  ultimately show ?thesis unfolding eq by (auto simp: final_calls_def)
qed

text \<open>A broken connection leaves nobody waiting: when reading from a connected context fails
  (the server has closed the connection, a system error, no memory), the read handler calls every
  waiting callback exactly once with a null reply, then the disconnect callback, closes the
  connection and releases the context, whatever the callbacks ask for.\<close>

theorem broken_connection_answers_everybody:
  assumes "client_ok ae" "keeps_off ae" "\<not> has_flag REDIS_IN_CALLBACK ac" "has_flag REDIS_CONNECTED ac"
    "subs_ok (ac_channels ac)" "subs_ok (ac_patterns ac)"
    and "redisBufferRead (a_env ae) (ac_c ac) (aw_os w) = Some (REDIS_ERR, c', os')"
  shows "\<exists>w' evs st. redisAsyncHandleRead ae ac w = Some (None, w') \<and> aw_log w' = rev evs @ aw_log w
    \<and> filter is_call evs = concat (map ends (ac_replies ac @ ac_invalid ac
         @ subscribers (ac_channels ac) @ subscribers (ac_patterns ac))) @ farewell ac st
    \<and> aw_os w' = redisFree (a_env ae) c' os'"
  by (rule broken_step [OF assms])

theorem broken_connection_answers_everybody_witness:
  "\<exists>w' evs st. redisAsyncHandleRead (pushy_env []) waiting_context \<lparr>aw_os = \<lparr>w_trace = [], w_errno = 0\<rparr>, aw_log = []\<rparr> = Some (None, w')
     \<and> aw_log w' = rev evs \<and> filter is_call evs = [Replied 1 10 None, Replied 2 20 None, OnDisconnect 3 st]"
proof -
  let ?w = "\<lparr>aw_os = \<lparr>w_trace = [], w_errno = 0\<rparr>, aw_log = []\<rparr>"
  obtain c' os' where r: "redisBufferRead (scripted_env []) (ac_c waiting_context) \<lparr>w_trace = [], w_errno = 0\<rparr> = Some (REDIS_ERR, c', os')"
    by (simp add: redisBufferRead_def waiting_context_def syscall_def scripted_env_def scripted_os_def Let_def)
  have "redisBufferRead (a_env (pushy_env [])) (ac_c waiting_context) (aw_os ?w) = Some (REDIS_ERR, c', os')"
    using r by (simp add: pushy_env_def)
  from broken_connection_answers_everybody [OF pushy_env_ok waiting_context_ok(1-4) this]
  show ?thesis unfolding waiting_context_ok(6,7) by auto
qed

end
