(* ===== verification/AsyncCommands.thy ===== *)
theory AsyncCommands
  imports AsyncRelease
begin

text \<open>
  Issuing commands on an asynchronous context: the arguments that \<^verbatim>\<open>nextArgument\<close> finds in a formatted
  command, the commands that queue a callback for their reply, and the subscriptions, which
  register one for every channel they name.
\<close>

section \<open>The arguments of a formatted command\<close>

lemma strchr_from_found:
  assumes "c \<notin> set pre" "NUL \<notin> set pre" "c \<noteq> NUL"
  shows "strchr_from (front @ pre @ c # rest) (length front) c = Some (length front + length pre)"
proof -
  have "cstr (pre @ c # rest) = pre @ c # cstr rest"
    using assms(2,3) by (auto simp: cstr_def takeWhile_append)
  moreover have "length (takeWhile (\<lambda>x. x \<noteq> c) (pre @ c # cstr rest)) = length pre"
    using assms(1) by (subst takeWhile_append2) auto
  ultimately show ?thesis by (simp add: strchr_from_def)
qed

lemma strtol_digits:
  assumes "n < 2 ^ 31"
  shows "strtol_int (dec_of_nat n @ CR # rest) = int n"
proof -
  have "\<not> isdigit CR" by (simp add: isdigit_def uchar_def)
  from strtol64_digits [OF _ this, of n rest] assms show ?thesis by (simp add: strtol_int_def)
qed

lemma nextArgument_bulk:
  assumes "CHR ''$'' \<notin> set pre" "NUL \<notin> set pre" "length s < 2 ^ 31"
  shows "nextArgument (front @ pre @ bulk s @ rest) (int (length front))
    = Some (Some (int (length front + length pre + length (bulk s)),
        int (length front + length pre + length (bulk s) - length s - 2), int (length s)))"
proof -
  let ?d = "dec_of_nat (length s)" and ?p = "length front + length pre"
  let ?cmd = "front @ pre @ bulk s @ rest"
  have cmd: "?cmd = front @ pre @ CHR ''$'' # (?d @ CR # LF # s @ crlf @ rest)" by (simp add: bulk_def)
  have p: "strchr_from ?cmd (length front) (CHR ''$'') = Some ?p"
    unfolding cmd by (rule strchr_from_found [OF assms(1,2)]) simp
  have first: "(if ?cmd ! length front \<noteq> CHR ''$'' then strchr_from ?cmd (length front) (CHR ''$'') else Some (length front)) = Some ?p"
  proof (cases pre)
    case Nil
    then show ?thesis using p by (simp add: bulk_def nth_append)
  next
    case (Cons x xs)
    then have "?cmd ! length front \<noteq> CHR ''$''" using assms(1) by (auto simp: nth_append)
    then show ?thesis using p by simp
  qed
  have digs: "CR \<notin> set (CHR ''$'' # ?d)" "NUL \<notin> set (CHR ''$'' # ?d)"
    using digit_not_special [OF dec_of_nat_digits [of _ "length s"]] by auto
  have q: "strchr_from ?cmd ?p CR = Some (?p + Suc (length ?d))"
    using strchr_from_found [OF digs, of "front @ pre" "LF # s @ crlf @ rest"] by (simp add: bulk_def)
  have "drop (?p + 1) ?cmd = ?d @ CR # LF # s @ crlf @ rest" unfolding cmd by simp
  then have "strtol_int (drop (?p + 1) ?cmd) = int (length s)" using strtol_digits [OF assms(3)] by simp
  moreover have "\<not> int (length front) < 0" "\<not> int (length ?cmd) \<le> int (length front)" by (simp_all add: bulk_def)
  moreover have "length (bulk s) = length ?d + length s + 5" by (simp add: bulk_def)
  ultimately show ?thesis unfolding nextArgument_def nat_int first using q by (simp add: Let_def)
qed

lemma nextArgument_end:
  assumes "start = int (length cmd)"
  shows "nextArgument (cmd @ [NUL]) start = Some None"
  using assms by (simp add: nextArgument_def strchr_from_def nth_append cstr_def Let_def)

lemma take_middle: "take (length s) (drop (length a) (a @ s @ b)) = s"
  by simp

text \<open>The text of an argument, at the position \<^verbatim>\<open>nextArgument\<close> stores.\<close>

lemma bulk_text:
  "take (length s) (drop (length front + length (bulk s) - length s - 2) (front @ bulk s @ rest)) = s"
proof -
  have cut: "length front + length (bulk s) - length s - 2 = length (front @ CHR ''$'' # dec_of_nat (length s) @ crlf)"
    by (simp add: bulk_def)
  have parts: "front @ bulk s @ rest = (front @ CHR ''$'' # dec_of_nat (length s) @ crlf) @ s @ crlf @ rest"
    by (simp add: bulk_def)
  show ?thesis unfolding cut parts by (rule take_middle)
qed

lemma argument_name_bulk:
  assumes "env_ok e" "length s < 2 ^ 31"
  shows "argument_name e (front @ bulk s @ rest) (int (length front + length (bulk s) - length s - 2)) (int (length s)) = Some s"
proof -
  have a: "allocator_ok (e_alloc e)" "\<forall>n. e_alloc e n \<noteq> None" using assms(1) by (auto simp: env_ok_def)
  obtain x where x: "sdsnewlen (e_alloc e) (Some s) (length s) = Some x"
    using sdsnewlen_succeeds [of "e_alloc e"] a(2) by blast
  have "sds_str x = s" using sdsnewlen_Some [OF a(1) x] assms(2) by simp
  moreover have "int (length front + length (bulk s) - length s - 2) + int (length s) \<le> int (length (front @ bulk s @ rest))"
    by (simp add: bulk_def)
  ultimately show ?thesis using x bulk_text [of s front rest] by (simp add: argument_name_def del: length_append)
qed


section \<open>The name of a command\<close>

text \<open>What the name of a command is compared with: case and a leading \<^verbatim>\<open>p\<close> do not count.\<close>

definition keyword_of :: "byte list \<Rightarrow> byte list" where
  "keyword_of name = map tolower (if name \<noteq> [] \<and> tolower (hd name) = CHR ''p'' then tl name else name)"

lemma tolower_CR: "tolower c = CR \<longleftrightarrow> c = CR"
proof
  assume a: "tolower c = CR"
  show "c = CR"
  proof (cases "65 \<le> uchar c \<and> uchar c \<le> 90")
    case True
    then have "uchar (tolower c) = uchar c + 32" by (simp add: tolower_def uchar_def take_bit_eq_mod)
    then show ?thesis using a True by (simp add: uchar_def)
  next
    case False
    then show ?thesis using a by (auto simp: tolower_def)
  qed
qed (simp add: tolower_def uchar_def)

lemma takeWhile_stop: "c \<notin> set a \<Longrightarrow> takeWhile (\<lambda>x. x \<noteq> c) (a @ c # b) = a"
  by (induction a) auto

lemma at_keyword_name:
  assumes "drop (nat p) cmd = x @ crlf @ rest" "CR \<notin> set x" "CR \<notin> set k"
  shows "at_keyword cmd p (k @ [CR, LF]) \<longleftrightarrow> map tolower x = k"
proof -
  have x: "CR \<notin> set (map tolower x)"
  proof
    assume "CR \<in> set (map tolower x)"
    then obtain c where "c \<in> set x" "CR = tolower c" by auto
    then show False using tolower_CR [of c] assms(2) by simp
  qed
  have cr: "tolower CR = CR" "tolower LF = LF" by (simp_all add: tolower_def uchar_def)
  have eq: "at_keyword cmd p (k @ [CR, LF]) \<longleftrightarrow>
      take (length k + 2) (map tolower x @ CR # LF # map tolower rest) = k @ [CR, LF]"
    unfolding at_keyword_def assms(1) take_map [symmetric] by (simp add: cr del: take_append)
  show ?thesis
  proof
    assume "at_keyword cmd p (k @ [CR, LF])"
    then obtain z where "map tolower x @ CR # LF # map tolower rest = (k @ [CR, LF]) @ z"
      unfolding eq by (metis append_take_drop_id)
    then have "takeWhile (\<lambda>c. c \<noteq> CR) (map tolower x @ CR # LF # map tolower rest)
        = takeWhile (\<lambda>c. c \<noteq> CR) (k @ CR # LF # z)" by simp
    then show "map tolower x = k" using takeWhile_stop [OF x] takeWhile_stop [OF assms(3)] by simp
  next
    assume "map tolower x = k"
    then show "at_keyword cmd p (k @ [CR, LF])" unfolding eq by simp
  qed
qed

lemma command_parts:
  assumes "length name < 2 ^ 31" "front = CHR ''*'' # dec_of_nat (Suc (length args)) @ crlf"
    "rest = concat (map bulk args) @ [NUL]"
  shows "encode_command (name # args) @ [NUL] = front @ bulk name @ rest"
    "nextArgument (front @ bulk name @ rest) 0 = Some (Some (int (length front + length (bulk name)),
       int (length front + length (bulk name) - length name - 2), int (length name)))"
    "drop (length front + length (bulk name) - length name - 2) (front @ bulk name @ rest) = name @ crlf @ rest"
    "(front @ bulk name @ rest) ! (length front + length (bulk name)) = CHR ''$'' \<longleftrightarrow> args \<noteq> []"
proof -
  show "encode_command (name # args) @ [NUL] = front @ bulk name @ rest" by (simp add: encode_command_def assms(2,3))
  have "CHR ''$'' \<notin> set front" "NUL \<notin> set front"
    using digit_not_special [OF dec_of_nat_digits [of _ "Suc (length args)"]] by (auto simp: assms(2))
  from nextArgument_bulk [OF this assms(1), of "[]" rest]
  show "nextArgument (front @ bulk name @ rest) 0 = Some (Some (int (length front + length (bulk name)),
       int (length front + length (bulk name) - length name - 2), int (length name)))" by simp
  have cut: "length front + length (bulk name) - length name - 2 = length (front @ CHR ''$'' # dec_of_nat (length name) @ crlf)"
    by (simp add: bulk_def)
  have parts: "front @ bulk name @ rest = (front @ CHR ''$'' # dec_of_nat (length name) @ crlf) @ name @ crlf @ rest"
    by (simp add: bulk_def)
  have "drop (length a) (a @ b) = b" for a b :: "byte list" by simp
  then show "drop (length front + length (bulk name) - length name - 2) (front @ bulk name @ rest) = name @ crlf @ rest"
    unfolding cut parts .
  have "(front @ bulk name @ rest) ! (length front + length (bulk name)) = rest ! 0"
    using nth_append_length_plus [of "front @ bulk name" rest 0] by simp
  then show "(front @ bulk name @ rest) ! (length front + length (bulk name)) = CHR ''$'' \<longleftrightarrow> args \<noteq> []"
    by (cases args) (simp_all add: assms(3) bulk_def)
qed


section \<open>Issuing commands\<close>

definition open_context :: "async_context \<Rightarrow> bool" where
  "open_context ac \<longleftrightarrow> \<not> has_flag REDIS_DISCONNECTING ac \<and> \<not> has_flag REDIS_FREEING ac"

definition regular :: "byte list list \<Rightarrow> bool" where
  "regular argv \<longleftrightarrow> argv \<noteq> [] \<and> CR \<notin> set (hd argv)
     \<and> keyword_of (hd argv) \<notin> {''subscribe'', ''unsubscribe'', ''monitor''}"

lemma encode_bound: "s \<in> set argv \<Longrightarrow> length s \<le> length (encode_command argv)"
proof -
  assume "s \<in> set argv"
  then have "length s \<le> length (concat (map bulk argv))" by (induction argv) (auto simp: bulk_def)
  then show ?thesis by (simp add: encode_command_def)
qed

lemma append_command_spec:
  assumes "env_ok e" "pending (ac_c ac) bs" "length bs + length cmd < 2 ^ 31"
  shows "\<exists>c'. append_command e (cmd @ [NUL]) (length cmd) ac w = Some (REDIS_OK, ac\<lparr>ac_c := c'\<rparr>, el_hook AddWrite (ac\<lparr>ac_c := c'\<rparr>) w)
    \<and> pending c' (bs @ cmd) \<and> rc_fd c' = rc_fd (ac_c ac) \<and> rc_err c' = rc_err (ac_c ac)
    \<and> rc_reader c' = rc_reader (ac_c ac) \<and> rc_flags c' = rc_flags (ac_c ac)"
  using AppendBytes_spec [OF assms(1,2), of "length cmd" "cmd @ [NUL]"] assms(3) by (auto simp: append_command_def Let_def)

text \<open>What the command function does once it has found the first argument.\<close>

lemma Command_body_unfold:
  assumes o: "open_context ac" and n: "length name < 2 ^ 31" "CR \<notin> set name"
    and cmd_def: "cmd = encode_command (name # args) @ [NUL]" and cb_def: "cb = \<lparr>cb_fn = fn, cb_privdata = pd\<rparr>"
  shows "redisAsyncCommand_body e fn pd cmd len ac w =
     (let pv = (name \<noteq> [] \<and> tolower (hd name) = CHR ''p'');
          p = int (length (CHR ''*'' # dec_of_nat (Suc (length args)) @ crlf) + length (bulk name)) in
      if args \<noteq> [] \<and> keyword_of name = ''subscribe'' then
        (case subscribe_loop e cmd pv cb p (set_flag REDIS_SUBSCRIBED ac) w of
           None \<Rightarrow> None | Some (ac, w) \<Rightarrow> append_command e cmd len ac w)
      else if keyword_of name = ''unsubscribe'' then
        (if \<not> has_flag REDIS_SUBSCRIBED ac then Some (REDIS_ERR, ac, w) else append_command e cmd len ac w)
      else if keyword_of name = ''monitor'' then
        append_command e cmd len ((set_flag REDIS_MONITORING ac)\<lparr>ac_replies := snd (redisPushCallback (e_mem e) (ac_replies ac) cb)\<rparr>) w
      else if has_flag REDIS_SUBSCRIBED ac then
        append_command e cmd len (ac\<lparr>ac_invalid := snd (redisPushCallback (e_mem e) (ac_invalid ac) cb)\<rparr>) w
      else append_command e cmd len (ac\<lparr>ac_replies := snd (redisPushCallback (e_mem e) (ac_replies ac) cb)\<rparr>) w)"
proof -
  let ?front = "CHR ''*'' # dec_of_nat (Suc (length args)) @ crlf" and ?rest = "concat (map bulk args) @ [NUL]"
  let ?pv = "name \<noteq> [] \<and> tolower (hd name) = CHR ''p''"
  let ?p = "length ?front + length (bulk name)" and ?q = "length ?front + length (bulk name) - length name - 2"
  note parts = command_parts [OF n(1) refl refl, of args]
  have cmd: "cmd = ?front @ bulk name @ ?rest" unfolding cmd_def by (rule parts(1))
  have arg1: "nextArgument cmd 0 = Some (Some (int ?p, int ?q, int (length name)))" unfolding cmd by (rule parts(2))
  have q: "drop ?q cmd = name @ crlf @ ?rest" unfolding cmd by (rule parts(3))
  have dollar: "cmd ! ?p = CHR ''$'' \<longleftrightarrow> args \<noteq> []" unfolding cmd by (rule parts(4))
  have len: "?p < length cmd" "?q < length cmd" unfolding cmd by (simp_all add: bulk_def)
  have head: "cmd ! ?q = (case name of [] \<Rightarrow> CR | c # _ \<Rightarrow> c)"
    using arg_cong [OF q, of hd] len(2) by (simp add: hd_drop_conv_nth split: list.split)
  have pv: "tolower (cmd ! ?q) = CHR ''p'' \<longleftrightarrow> ?pv"
    unfolding head by (auto simp: tolower_def uchar_def split: list.split)
  let ?name = "if ?pv then int ?q + 1 else int ?q"
  let ?x = "if ?pv then tl name else name"
  have tail: "drop (nat ?name) cmd = ?x @ crlf @ ?rest"
  proof (cases ?pv)
    case True
    then have "drop (Suc ?q) cmd = tl (drop ?q cmd)" by (simp add: drop_Suc tl_drop)
    then show ?thesis using True q by (simp add: nat_add_distrib)
  next
    case False
    show ?thesis unfolding if_not_P [OF False] nat_int by (rule q)
  qed
  have "CR \<notin> set ?x" using n(2) by (cases name) auto
  then have kw: "CR \<notin> set k \<Longrightarrow> at_keyword cmd ?name (k @ [CR, LF]) = (keyword_of name = k)" for k
    using at_keyword_name [OF tail, of k] by (simp add: keyword_of_def)
  have no_cr: "CR \<notin> set ''subscribe''" "CR \<notin> set ''unsubscribe''" "CR \<notin> set ''monitor''" by simp_all
  have opened: "\<not> has_flag (REDIS_DISCONNECTING OR REDIS_FREEING) ac" using o by (simp add: open_context_def has_flag_or)
  have inside: "\<not> (int ?p < 0 \<or> int (length cmd) \<le> int ?p \<or> int (length cmd) \<le> int ?q)" using len by linarith
  show ?thesis
    unfolding redisAsyncCommand_body_def if_not_P [OF opened] Let_def arg1 option.case prod.case if_not_P [OF inside]
      nat_int dollar pv kw [OF no_cr(1)] kw [OF no_cr(2)] kw [OF no_cr(3)] cb_def
    by (simp only: cb_def [symmetric] reflag_fields reflag_flag)
qed


lemma async_Argv:
  assumes "length (encode_command argv) < 2 ^ 31" "\<forall>n. e_mem e n"
  shows "redisAsyncCommandArgv e fn pd argv (Some (map length argv)) ac w
    = redisAsyncCommand_body e fn pd (encode_command argv @ [NUL]) (length (encode_command argv)) ac w"
  using Argv_formatted [OF assms] by (simp add: redisAsyncCommandArgv_def async_formatted_def)

lemma regular_command:
  assumes e: "env_ok e" "\<forall>n. e_mem e n" and o: "open_context ac" "\<not> has_flag REDIS_SUBSCRIBED ac"
    and argv: "regular argv" and p: "pending (ac_c ac) bs" "length bs + length (encode_command argv) < 2 ^ 31"
  shows "\<exists>c'. redisAsyncCommandArgv e fn pd argv (Some (map length argv)) ac w
      = (let ac' = ac\<lparr>ac_replies := ac_replies ac @ [\<lparr>cb_fn = fn, cb_privdata = pd\<rparr>], ac_c := c'\<rparr>
         in Some (REDIS_OK, ac', el_hook AddWrite ac' w))
    \<and> pending c' (bs @ encode_command argv) \<and> rc_fd c' = rc_fd (ac_c ac) \<and> rc_err c' = rc_err (ac_c ac)
    \<and> rc_reader c' = rc_reader (ac_c ac) \<and> rc_flags c' = rc_flags (ac_c ac)"
proof -
  obtain name args where na: "argv = name # args" using argv by (cases argv) (auto simp: regular_def)
  let ?ac = "ac\<lparr>ac_replies := ac_replies ac @ [\<lparr>cb_fn = fn, cb_privdata = pd\<rparr>]\<rparr>"
  have small: "length (encode_command argv) < 2 ^ 31" using p(2) by simp
  then have name: "length name < 2 ^ 31" "CR \<notin> set name"
    using encode_bound [of name argv] argv na by (auto simp: regular_def)
  have kw: "keyword_of name \<noteq> ''subscribe''" "keyword_of name \<noteq> ''unsubscribe''" "keyword_of name \<noteq> ''monitor''"
    using argv na by (auto simp: regular_def)
  have queue: "snd (redisPushCallback (e_mem e) (ac_replies ac) cb) = ac_replies ac @ [cb]" for cb
    using e(2) by (simp add: redisPushCallback_def)
  have "redisAsyncCommand_body e fn pd (encode_command argv @ [NUL]) (length (encode_command argv)) ac w
      = append_command e (encode_command argv @ [NUL]) (length (encode_command argv)) ?ac w"
    using kw o(2) queue unfolding na Command_body_unfold [OF o(1) name refl refl] by simp
  then have "redisAsyncCommandArgv e fn pd argv (Some (map length argv)) ac w
      = append_command e (encode_command argv @ [NUL]) (length (encode_command argv)) ?ac w"
    unfolding async_Argv [OF small e(2)] .
  moreover have "pending (ac_c ?ac) bs" using p(1) by simp
  note append_command_spec [OF e(1) this p(2), of w]
  ultimately show ?thesis by (simp add: Let_def)
qed

section \<open>Subscriptions\<close>

definition subscribed :: "(byte list, redisCallback, aevent) dict \<Rightarrow> byte list \<Rightarrow> redisCallback option" where
  "subscribed d = dict_map d"

lemma set_async_dict_twice:
  "set_async_dict pv d (set_async_dict pv d' ac) = set_async_dict pv d ac"
  "async_dict pv (set_async_dict pv d ac) = d" "set_async_dict pv (async_dict pv ac) ac = ac"
  by (simp_all add: set_async_dict_def async_dict_def)

lemma calls_of_vals: "filter is_call (case valDestructor callbackDict of None \<Rightarrow> [] | Some f \<Rightarrow> f v) = []"
  by (simp add: callbackDict_def callbackValDestructor_def)

lemma subscribe_loop_spec:
  assumes e: "env_ok e" "\<forall>n. e_mem e n"
  shows "\<forall>s \<in> set args. length s < 2 ^ 31 \<Longrightarrow> dict_inv (async_dict pv ac) \<Longrightarrow> d_type (async_dict pv ac) = callbackDict \<Longrightarrow>
    d_used (async_dict pv ac) + length args < 2 ^ 31 \<Longrightarrow> cmd = front @ concat (map bulk args) @ [NUL] \<Longrightarrow>
    \<exists>d evs. subscribe_loop e cmd pv cb (int (length front)) ac w = Some (set_async_dict pv d ac, log_events evs w)
      \<and> dict_inv d \<and> d_type d = callbackDict \<and> filter is_call evs = []
      \<and> dict_map d = (\<lambda>s. if s \<in> set args then Some cb else dict_map (async_dict pv ac) s)"
proof (induction args arbitrary: front ac w)
  case Nil
  then have "nextArgument cmd (int (length front)) = Some None" using nextArgument_end [OF refl, of front] by simp
  then have "subscribe_loop e cmd pv cb (int (length front)) ac w = Some (ac, w)" by (subst subscribe_loop.simps) simp
  then show ?case
    using Nil.prems by (intro exI [of _ "async_dict pv ac"] exI [of _ "[]"]) (simp add: set_async_dict_twice log_events_def)
next
  case (Cons s args)
  let ?rest = "concat (map bulk args) @ [NUL]" and ?d = "async_dict pv ac"
  have cmd: "cmd = front @ [] @ bulk s @ ?rest" "cmd = front @ bulk s @ ?rest" using Cons.prems(5) by simp_all
  have s: "length s < 2 ^ 31" using Cons.prems(1) by simp
  have arg1: "nextArgument cmd (int (length front)) = Some (Some (int (length (front @ bulk s)),
      int (length front + length (bulk s) - length s - 2), int (length s)))"
    using nextArgument_bulk [of "[]" s front ?rest] s unfolding cmd(1) by simp
  have name: "argument_name e cmd (int (length front + length (bulk s) - length s - 2)) (int (length s)) = Some s"
    unfolding cmd(2) by (rule argument_name_bulk [OF e(1) s])
  have used: "d_used ?d < 2 ^ 31" using Cons.prems(4) by simp
  obtain d1 r evs1 where r: "dictReplace (e_mem e) ?d s cb = Some (r, d1, evs1)" "dict_inv d1" "d_type d1 = callbackDict"
    "dict_map d1 = (dict_map ?d)(s \<mapsto> cb)" "d_used d1 \<le> Suc (d_used ?d)" "filter is_call evs1 = []"
    using dictReplace_spec [OF Cons.prems(2) used e(2), of s cb] Cons.prems(3) calls_of_vals
    by (auto split: option.splits)
  let ?ac = "set_async_dict pv d1 ac"
  have front': "cmd = (front @ bulk s) @ ?rest" using cmd(2) by simp
  have "d_used (async_dict pv ?ac) + length args < 2 ^ 31" using r(5) Cons.prems(4) by (simp add: set_async_dict_twice)
  then obtain d evs where d: "subscribe_loop e cmd pv cb (int (length (front @ bulk s))) ?ac (log_events evs1 w)
      = Some (set_async_dict pv d ?ac, log_events evs (log_events evs1 w))" "dict_inv d" "d_type d = callbackDict"
    "filter is_call evs = []" "dict_map d = (\<lambda>x. if x \<in> set args then Some cb else dict_map d1 x)"
    using Cons.IH [of ?ac "front @ bulk s" "log_events evs1 w", unfolded set_async_dict_twice(2)] Cons.prems(1) r(2,3) front'
    unfolding set_async_dict_twice(2) by auto
  have "subscribe_loop e cmd pv cb (int (length front)) ac w
      = subscribe_loop e cmd pv cb (int (length (front @ bulk s))) ?ac (log_events evs1 w)"
    by (subst subscribe_loop.simps) (simp only: arg1 name r(1) bind.bind_lunit option.case prod.case)
  then have "subscribe_loop e cmd pv cb (int (length front)) ac w = Some (set_async_dict pv d ac, log_events (evs1 @ evs) w)"
    using d(1) by (simp add: set_async_dict_twice log_events_def)
  then show ?case using d(2-5) r(4,6)
    by (intro exI [of _ d] exI [of _ "evs1 @ evs"]) (auto simp: fun_eq_iff)
qed


lemma set_async_dict_fields [simp]:
  "ac_c (set_async_dict pv d ac) = ac_c ac" "ac_replies (set_async_dict pv d ac) = ac_replies ac"
  "ac_invalid (set_async_dict pv d ac) = ac_invalid ac" "async_dict (\<not> pv) (set_async_dict pv d ac) = async_dict (\<not> pv) ac"
  "has_flag f (set_async_dict pv d ac) = has_flag f ac"
  by (simp_all add: set_async_dict_def async_dict_def has_flag_def)

lemma async_dict_reflag [simp]: "async_dict pv (reflag f ac) = async_dict pv ac"
  "async_dict pv (ac\<lparr>ac_c := c\<rparr>) = async_dict pv ac"
  by (simp_all add: async_dict_def)

text \<open>Subscribing registers the callback for exactly the channels it names: on an open context,
  \<^verbatim>\<open>SUBSCRIBE\<close> (or \<^verbatim>\<open>PSUBSCRIBE\<close>, in any case) with at least one argument, whatever bytes the
  channel names have, maps each named channel (or pattern) to the new callback in its dictionary,
  replacing older ones, and leaves all other channels, the other dictionary and the queue of
  waiting callbacks alone; the context counts as subscribed and the command is queued for output.\<close>

theorem subscribe_registers_channels:
  assumes e: "env_ok e" "\<forall>n. e_mem e n" and o: "open_context ac"
    and name: "CR \<notin> set name" "keyword_of name = ''subscribe''" "args \<noteq> []"
    and p: "pending (ac_c ac) bs" "length bs + length (encode_command (name # args)) < 2 ^ 31"
    and pv: "pv = (name \<noteq> [] \<and> tolower (hd name) = CHR ''p'')"
    and d: "dict_inv (async_dict pv ac)" "d_type (async_dict pv ac) = callbackDict" "d_used (async_dict pv ac) + length args < 2 ^ 31"
  shows "\<exists>ac' w'. redisAsyncCommandArgv e fn pd (name # args) (Some (map length (name # args))) ac w = Some (REDIS_OK, ac', w')
    \<and> has_flag REDIS_SUBSCRIBED ac' \<and> ac_replies ac' = ac_replies ac \<and> dict_inv (async_dict pv ac')
    \<and> dict_map (async_dict pv ac')
        = (\<lambda>s. if s \<in> set args then Some \<lparr>cb_fn = fn, cb_privdata = pd\<rparr> else dict_map (async_dict pv ac) s)
    \<and> async_dict (\<not> pv) ac' = async_dict (\<not> pv) ac \<and> pending (ac_c ac') (bs @ encode_command (name # args))"
proof -
  let ?cmd = "encode_command (name # args)" and ?cb = "\<lparr>cb_fn = fn, cb_privdata = pd\<rparr>"
  let ?ac = "set_flag REDIS_SUBSCRIBED ac"
  let ?front = "(CHR ''*'' # dec_of_nat (Suc (length args)) @ crlf) @ bulk name"
  have small: "length ?cmd < 2 ^ 31" using p(2) by simp
  then have n: "length name < 2 ^ 31" "\<forall>s \<in> set args. length s < 2 ^ 31"
    using encode_bound [of _ "name # args"] by fastforce+
  have cmd: "?cmd @ [NUL] = ?front @ concat (map bulk args) @ [NUL]" by (simp add: encode_command_def)
  have at: "async_dict pv ?ac = async_dict pv ac" by (simp add: reflag_flag)
  obtain d' evs where s: "subscribe_loop e (?cmd @ [NUL]) pv ?cb (int (length ?front)) ?ac w
      = Some (set_async_dict pv d' ?ac, log_events evs w)" "dict_inv d'"
    "dict_map d' = (\<lambda>s. if s \<in> set args then Some ?cb else dict_map (async_dict pv ac) s)"
    using subscribe_loop_spec [OF e n(2) _ _ _ cmd, of pv ?ac ?cb w, unfolded at] d by auto
  let ?ac1 = "set_async_dict pv d' ?ac"
  have "pending (ac_c ?ac1) bs" by (rule pending_set [OF p(1)]) (simp add: set_flag_def)
  from append_command_spec [OF e(1) this p(2), of "log_events evs w"]
  obtain c' w' where a: "append_command e (?cmd @ [NUL]) (length ?cmd) ?ac1 (log_events evs w)
      = Some (REDIS_OK, ?ac1\<lparr>ac_c := c'\<rparr>, w')" "pending c' (bs @ ?cmd)" "rc_flags c' = rc_flags (ac_c ?ac1)"
    by blast
  have "int (length (CHR ''*'' # dec_of_nat (Suc (length args)) @ crlf) + length (bulk name)) = int (length ?front)" by simp
  then have "redisAsyncCommand_body e fn pd (?cmd @ [NUL]) (length ?cmd) ac w = Some (REDIS_OK, ?ac1\<lparr>ac_c := c'\<rparr>, w')"
    unfolding Command_body_unfold [OF o n(1) name(1) refl refl] Let_def pv [symmetric] using name(2,3) s(1) a(1) by simp
  then have r: "redisAsyncCommandArgv e fn pd (name # args) (Some (map length (name # args))) ac w
      = Some (REDIS_OK, ?ac1\<lparr>ac_c := c'\<rparr>, w')"
    unfolding async_Argv [OF small e(2)] .
  have "has_flag REDIS_SUBSCRIBED ?ac" unfolding flag_bits has_flag_bit set_flag_bit by simp
  then have "has_flag REDIS_SUBSCRIBED (?ac1\<lparr>ac_c := c'\<rparr>)" using a(3) by (simp add: has_flag_def)
  then show ?thesis using r s(2,3) a(2)
    by (intro exI [of _ "?ac1\<lparr>ac_c := c'\<rparr>"] exI [of _ w'])
      (simp add: set_async_dict_twice reflag_flag)
qed

definition open_example :: "redis_context \<Rightarrow> async_context" where
  "open_example c = \<lparr>ac_c = c\<lparr>rc_flags := REDIS_CONNECTED\<rparr>, ac_err = 0, ac_errstr = None, ac_ev = [AddWrite], ac_onDisconnect = None,
     ac_onConnect = None, ac_replies = [], ac_invalid = [], ac_channels = dict_init callbackDict, ac_patterns = dict_init callbackDict\<rparr>"

lemma open_example_ok:
  "open_context (open_example c)" "\<not> has_flag REDIS_SUBSCRIBED (open_example c)" "\<not> has_flag REDIS_MONITORING (open_example c)"
  "dict_inv (async_dict pv (open_example c))" "d_type (async_dict pv (open_example c)) = callbackDict"
  "d_used (async_dict pv (open_example c)) = 0" "pending c bs \<Longrightarrow> pending (ac_c (open_example c)) bs"
  "dict_map (async_dict pv (open_example c)) s = None"
  using subs_ok_new
  by (simp_all add: open_context_def open_example_def has_flag_def REDIS_CONNECTED_def REDIS_DISCONNECTING_def
      REDIS_FREEING_def REDIS_SUBSCRIBED_def REDIS_MONITORING_def async_dict_def subs_ok_def dict_init_def pending_def dict_map_def entries_def)

theorem subscribe_registers_channels_witness:
  "\<exists>c ac' w'. redisConnectFd (scripted_env []) 5 = Some c
    \<and> redisAsyncCommandArgv (scripted_env []) (Some 7) 0 [''pSubscribe'', ''a*'', ''b''] (Some (map length [''pSubscribe'', ''a*'', ''b'']))
        (open_example c) \<lparr>aw_os = \<lparr>w_trace = [], w_errno = 0\<rparr>, aw_log = []\<rparr> = Some (REDIS_OK, ac', w')
    \<and> dict_map (ac_patterns ac') ''b'' = Some \<lparr>cb_fn = Some 7, cb_privdata = 0\<rparr> \<and> dict_map (ac_patterns ac') ''c'' = None
    \<and> ac_channels ac' = dict_init callbackDict"
proof -
  obtain c where c: "redisConnectFd (scripted_env []) 5 = Some c"
    by (simp add: redisConnectFd_def redisContextInit_def scripted_env_def)
  have "pending c []" using ConnectFd_at_rest [OF scripted_env_ok(1) c] by (simp add: at_rest_def)
  then have p: "pending (ac_c (open_example c)) []" by (rule open_example_ok)
  have mem: "\<forall>n. e_mem (scripted_env []) n" by (simp add: scripted_env_def)
  have kw: "CR \<notin> set ''pSubscribe''" "keyword_of ''pSubscribe'' = ''subscribe''" "[''a*'', ''b''] \<noteq> []"
    "True = (''pSubscribe'' \<noteq> [] \<and> tolower (hd ''pSubscribe'') = CHR ''p'')"
    by (simp_all add: keyword_of_def tolower_def uchar_def char_of_def bit_iff_odd)
  have len: "length ([] :: byte list) + length (encode_command [''pSubscribe'', ''a*'', ''b'']) < 2 ^ 31"
    by (simp add: encode_command_def bulk_def dec_of_nat.simps)
  have used: "d_used (async_dict True (open_example c)) + length [''a*'', ''b''] < 2 ^ 31" by (simp add: open_example_ok(6))
  from subscribe_registers_channels [OF scripted_env_ok(1) mem open_example_ok(1) kw(1-3) p len kw(4) open_example_ok(4,5) used,
      of "Some 7" 0 "\<lparr>aw_os = \<lparr>w_trace = [], w_errno = 0\<rparr>, aw_log = []\<rparr>"]
  show ?thesis using c open_example_ok(8) [of True c "''c''"] by (auto simp: async_dict_def open_example_def)
qed

end
