(* ===== verification/AsyncReplies.thy ===== *)
theory AsyncReplies
  imports AsyncCommands
begin

unbundle bit_operations_syntax

text \<open>
  Replies on an asynchronous context: the replies of a pipelined connection go to the callbacks in
  the order the commands were issued, while the callbacks issue further commands.
\<close>

section \<open>Programs that issue ordinary commands\<close>

fun issues :: "action \<Rightarrow> byte list" where
  "issues (Command fn pd argv) = encode_command argv"
| "issues _ = []"

fun queued :: "action \<Rightarrow> redisCallback" where
  "queued (Command fn pd argv) = \<lparr>cb_fn = fn, cb_privdata = pd\<rparr>"
| "queued _ = \<lparr>cb_fn = None, cb_privdata = 0\<rparr>"

definition ordinary :: "action \<Rightarrow> bool" where
  "ordinary x \<longleftrightarrow> (case x of Command fn pd argv \<Rightarrow> regular argv | _ \<Rightarrow> False)"

text \<open>Each call of the program issues ordinary commands only, of at most \<open>m\<close> bytes altogether.\<close>

definition polite :: "'d aenv \<Rightarrow> nat \<Rightarrow> bool" where
  "polite ae m \<longleftrightarrow> (\<forall>l. (\<forall>x \<in> set (a_client ae l). ordinary x) \<and> length (concat (map issues (a_client ae l))) \<le> m)"

text \<open>A connected context in regular use with output \<open>bs\<close> pending.\<close>

definition in_use :: "byte list \<Rightarrow> async_context \<Rightarrow> bool" where
  "in_use bs ac \<longleftrightarrow> open_context ac \<and> \<not> has_flag REDIS_SUBSCRIBED ac \<and> \<not> has_flag REDIS_MONITORING ac
     \<and> \<not> has_flag REDIS_BLOCK ac \<and> rc_err (ac_c ac) = 0 \<and> pending (ac_c ac) bs"

lemma in_use_cong:
  assumes "in_use bs ac" "rc_flags (ac_c ac') = rc_flags (ac_c ac)" "rc_err (ac_c ac') = rc_err (ac_c ac)" "pending (ac_c ac') bs'"
  shows "in_use bs' ac'"
  using assms by (simp add: in_use_def open_context_def has_flag_def)

lemma in_use_callback:
  "in_use bs (set_flag REDIS_IN_CALLBACK ac) = in_use bs ac" "in_use bs (clear_flag REDIS_IN_CALLBACK ac) = in_use bs ac"
proof -
  have p: "pending (ac_c (set_flag REDIS_IN_CALLBACK ac)) bs = pending (ac_c ac) bs"
    "pending (ac_c (clear_flag REDIS_IN_CALLBACK ac)) bs = pending (ac_c ac) bs"
    by (simp_all add: set_flag_def clear_flag_def pending_def)
  have r: "rc_err (ac_c (set_flag REDIS_IN_CALLBACK ac)) = rc_err (ac_c ac)"
    "rc_err (ac_c (clear_flag REDIS_IN_CALLBACK ac)) = rc_err (ac_c ac)"
    by (simp_all add: set_flag_def clear_flag_def)
  show "in_use bs (set_flag REDIS_IN_CALLBACK ac) = in_use bs ac" "in_use bs (clear_flag REDIS_IN_CALLBACK ac) = in_use bs ac"
    unfolding in_use_def open_context_def p r unfolding flag_bits has_flag_bit set_flag_bit clear_flag_bit by simp_all
qed

text \<open>What a step keeps: the reader and the operating system, while callbacks are queued and hooks called.\<close>

definition keeps_reading :: "async_context \<Rightarrow> aworld \<Rightarrow> async_context \<Rightarrow> aworld \<Rightarrow> aevent list \<Rightarrow> bool" where
  "keeps_reading ac w ac' w' evs \<longleftrightarrow> rc_reader (ac_c ac') = rc_reader (ac_c ac) \<and> (\<exists>new. ac_replies ac' = ac_replies ac @ new)
     \<and> aw_os w' = aw_os w \<and> aw_log w' = rev evs @ aw_log w"

lemma el_hook_log: "\<exists>evs. aw_log (el_hook h ac w) = rev evs @ aw_log w \<and> filter is_call evs = [] \<and> aw_os (el_hook h ac w) = aw_os w"
  by (cases "h \<in> set (ac_ev ac)") (auto simp: el_hook_def log_event_def intro: exI [of _ "[Hooked h]"])

lemma perform_ordinary:
  assumes e: "env_ok e" "\<forall>n. e_mem e n"
  shows "\<forall>x \<in> set as. ordinary x \<Longrightarrow> in_use bs ac \<Longrightarrow> length bs + length (concat (map issues as)) < 2 ^ 31 \<Longrightarrow>
    \<exists>ac' w' evs. perform e as ac w = Some (ac', w') \<and> in_use (bs @ concat (map issues as)) ac' \<and> keeps_reading ac w ac' w' evs
      \<and> filter is_call evs = []"
proof (induction as arbitrary: bs ac w)
  case Nil
  then show ?case by (intro exI [of _ ac] exI [of _ w] exI [of _ "[]"]) (simp add: keeps_reading_def)
next
  case (Cons x as)
  obtain fn pd argv where x: "x = Command fn pd argv" "regular argv"
    using Cons.prems(1) by (cases x) (auto simp: ordinary_def)
  have u: "open_context ac" "\<not> has_flag REDIS_SUBSCRIBED ac" "pending (ac_c ac) bs" using Cons.prems(2) by (auto simp: in_use_def)
  have "length bs + length (encode_command argv) < 2 ^ 31" using Cons.prems(3) x by simp
  from regular_command [OF e u(1,2) x(2) u(3) this, of fn pd w]
  obtain c' where c: "redisAsyncCommandArgv e fn pd argv (Some (map length argv)) ac w
      = (let ac' = ac\<lparr>ac_replies := ac_replies ac @ [\<lparr>cb_fn = fn, cb_privdata = pd\<rparr>], ac_c := c'\<rparr>
         in Some (REDIS_OK, ac', el_hook AddWrite ac' w))" "pending c' (bs @ encode_command argv)"
    "rc_err c' = rc_err (ac_c ac)" "rc_reader c' = rc_reader (ac_c ac)" "rc_flags c' = rc_flags (ac_c ac)" by blast
  let ?ac = "ac\<lparr>ac_replies := ac_replies ac @ [\<lparr>cb_fn = fn, cb_privdata = pd\<rparr>], ac_c := c'\<rparr>"
  let ?w = "el_hook AddWrite ?ac w"
  obtain evs1 where h: "aw_log ?w = rev evs1 @ aw_log w" "filter is_call evs1 = []" "aw_os ?w = aw_os w"
    using el_hook_log by blast
  have "in_use (bs @ encode_command argv) ?ac" by (rule in_use_cong [OF Cons.prems(2)]) (use c in simp_all)
  moreover have "\<forall>x \<in> set as. ordinary x" "length (bs @ encode_command argv) + length (concat (map issues as)) < 2 ^ 31"
    using Cons.prems(1,3) x by simp_all
  ultimately obtain ac' w' evs where r: "perform e as ?ac ?w = Some (ac', w')" "in_use ((bs @ encode_command argv) @ concat (map issues as)) ac'"
    "keeps_reading ?ac ?w ac' w' evs" "filter is_call evs = []"
    using Cons.IH by blast
  have "perform e (x # as) ac w = Some (ac', w')" using c(1) r(1) by (simp add: x Let_def)
  moreover have "keeps_reading ac w ac' w' (evs1 @ evs)" using r(3) h c(4) by (auto simp: keeps_reading_def)
  ultimately show ?case using r(2,4) h(2) x(1)
    by (intro exI [of _ ac'] exI [of _ w'] exI [of _ "evs1 @ evs"]) simp
qed

section \<open>Callbacks that get their replies\<close>

definition answer :: "redisCallback \<Rightarrow> nat \<Rightarrow> aevent list" where
  "answer cb a = (case cb_fn cb of None \<Rightarrow> [] | Some fn \<Rightarrow> [Replied fn (cb_privdata cb) (Some a)])"

lemma run_callback_reply:
  assumes ae: "env_ok (a_env ae)" "\<forall>n. e_mem (a_env ae) n" "polite ae m" and u: "in_use bs ac" "length bs + m < 2 ^ 31"
  shows "\<exists>ac' w' evs bs'. redisRunCallback ae cb (Some a) ac w = Some (ac', w') \<and> in_use bs' ac' \<and> length bs' \<le> length bs + m
    \<and> keeps_reading ac w ac' w' evs \<and> filter is_call evs = answer cb a"
proof (cases "cb_fn cb")
  case None
  then show ?thesis using u(1)
    by (intro exI [of _ ac] exI [of _ w] exI [of _ "[]"] exI [of _ bs]) (simp add: redisRunCallback_def keeps_reading_def answer_def)
next
  case (Some fn)
  let ?x = "Replied fn (cb_privdata cb) (Some a)" and ?ac = "set_flag REDIS_IN_CALLBACK ac"
  let ?w = "log_event ?x w"
  let ?as = "a_client ae (aw_log ?w)"
  have as: "\<forall>x \<in> set ?as. ordinary x" "length (concat (map issues ?as)) \<le> m"
    using ae(3) unfolding polite_def by blast+
  have "in_use bs ?ac" "length bs + length (concat (map issues ?as)) < 2 ^ 31" using u as(2) by (simp_all add: in_use_callback)
  from perform_ordinary [OF ae(1,2) as(1) this, of ?w]
  obtain ac1 w1 evs where r: "perform (a_env ae) ?as ?ac ?w = Some (ac1, w1)" "in_use (bs @ concat (map issues ?as)) ac1"
    "keeps_reading ?ac ?w ac1 w1 evs" "filter is_call evs = []" by blast
  have "redisRunCallback ae cb (Some a) ac w = Some (clear_flag REDIS_IN_CALLBACK ac1, w1)"
    using Some r(1) by (simp add: redisRunCallback_def call_client_def)
  moreover have "in_use (bs @ concat (map issues ?as)) (clear_flag REDIS_IN_CALLBACK ac1)" using r(2) by (simp add: in_use_callback)
  moreover have "keeps_reading ac w (clear_flag REDIS_IN_CALLBACK ac1) w1 (?x # evs)"
    using r(3) by (simp add: keeps_reading_def set_flag_def clear_flag_def log_event_def)
  ultimately show ?thesis using as(2) r(4) Some
    by (intro exI [of _ "clear_flag REDIS_IN_CALLBACK ac1"] exI [of _ w1] exI [of _ "?x # evs"]
        exI [of _ "bs @ concat (map issues ?as)"]) (simp add: answer_def)
qed


section \<open>The reply loop\<close>

definition holds_replies :: "resp list \<Rightarrow> async_context \<Rightarrow> bool" where
  "holds_replies ts ac \<longleftrightarrow> (\<exists>rd. rc_reader (ac_c ac) = Some rd \<and> between rd \<and> window rd = concat (map encode ts))"

definition store_of :: "async_context \<Rightarrow> reply_store" where
  "store_of ac = (case rc_reader (ac_c ac) of None \<Rightarrow> [] | Some rd \<Rightarrow> rd_store rd)"

lemma process_loop_end:
  assumes "in_use bs ac" "holds_replies [] ac"
  shows "\<exists>ac'. process_loop ae cb ac w = Some (Some ac', w) \<and> ac_replies ac' = ac_replies ac \<and> store_of ac' = store_of ac"
proof -
  obtain rd where rd: "rc_reader (ac_c ac) = Some rd" "between rd" "window rd = []" using assms(2) by (auto simp: holds_replies_def)
  obtain s where s: "redisReaderGetReply (e_oom (a_env ae)) rd = Some (REDIS_OK, None, s)" "rd_store s = rd_store rd"
    using GetReply_empty [OF rd(2,3)] by blast
  let ?ac = "ac\<lparr>ac_c := (ac_c ac)\<lparr>rc_reader := Some s\<rparr>\<rparr>"
  have f: "has_flag k ?ac = has_flag k ac" for k by (simp add: has_flag_def)
  have nb: "rc_flags (ac_c ac) AND REDIS_BLOCK = 0" using assms(1) by (simp add: in_use_def has_flag_def)
  have g: "redisGetReply (a_env ae) (ac_c ac) (aw_os w) = Some (REDIS_OK, None, ac_c ?ac, aw_os w)"
    using rd(1) s(1) nb by (simp add: redisGetReply_def redisGetReplyFromReader_def)
  have "\<not> has_flag REDIS_DISCONNECTING ?ac" "\<not> has_flag REDIS_MONITORING ?ac"
    using assms(1) unfolding f by (auto simp: in_use_def open_context_def)
  then have "process_loop ae cb ac w = Some (Some ?ac, w)"
    by (subst process_loop.simps) (simp add: g)
  then show ?thesis using s(2) rd(1) by (simp add: store_of_def)
qed

lemma process_loop_step:
  assumes ae: "env_ok (a_env ae)" "\<forall>n. e_mem (a_env ae) n" "polite ae m" "\<forall>n. \<not> e_oom (a_env ae) n"
    and u: "in_use bs ac" "length bs + m < 2 ^ 31" and h: "holds_replies (t # ts) ac" and t: "fits t" "nest t \<le> 8"
    and q: "ac_replies ac = cb # rest"
  shows "\<exists>ac1 w1 evs bs1 new. process_loop ae cb0 ac w = process_loop ae cb ac1 w1 \<and> in_use bs1 ac1 \<and> length bs1 \<le> length bs + m
    \<and> holds_replies ts ac1 \<and> store_of ac1 = store_of ac @ layout (length (store_of ac)) t \<and> ac_replies ac1 = rest @ new
    \<and> aw_os w1 = aw_os w \<and> aw_log w1 = rev evs @ aw_log w \<and> filter is_call evs = answer cb (length (store_of ac))"
proof -
  obtain rd where rd: "rc_reader (ac_c ac) = Some rd" "between rd" "window rd = encode t @ concat (map encode ts)"
    using h by (auto simp: holds_replies_def)
  let ?a = "length (rd_store rd)"
  obtain s where s: "redisReaderGetReply (e_oom (a_env ae)) rd = Some (REDIS_OK, Some ?a, s)" "between s"
    "window s = concat (map encode ts)" "rd_store s = rd_store rd @ layout ?a t"
    using GetReply_tree [OF rd(2,3) t ae(4)] by blast
  let ?ac = "ac\<lparr>ac_c := (ac_c ac)\<lparr>rc_reader := Some s\<rparr>, ac_replies := rest\<rparr>"
  have a: "store_of ac = rd_store rd" using rd(1) by (simp add: store_of_def)
  have g: "redisGetReply (a_env ae) (ac_c ac) (aw_os w) = Some (REDIS_OK, Some ?a, (ac_c ac)\<lparr>rc_reader := Some s\<rparr>, aw_os w)"
    using rd(1) s(1) by (simp add: redisGetReply_def redisGetReplyFromReader_def)
  have "0 < nodes t" by (cases t) simp_all
  then obtain r where r: "reply_at ?ac ?a = Some r" using s(4) by (simp add: reply_at_def)
  have use: "in_use bs ?ac" by (rule in_use_cong [OF u(1)]) (use u(1) in \<open>simp_all add: in_use_def pending_def\<close>)
  obtain ac1 w1 evs bs1 where c: "redisRunCallback ae cb (Some ?a) ?ac w = Some (ac1, w1)" "in_use bs1 ac1"
    "length bs1 \<le> length bs + m" "keeps_reading ?ac w ac1 w1 evs" "filter is_call evs = answer cb ?a"
    using run_callback_reply [OF ae(1-3) use u(2)] by blast
  obtain new where new: "ac_replies ac1 = rest @ new" using c(4) by (auto simp: keeps_reading_def)
  have free: "\<not> has_flag REDIS_FREEING ac1" using c(2) by (simp add: in_use_def open_context_def)
  let ?w1 = "log_event (FreeObject ?a) w1"
  have loop: "process_loop ae cb0 ac w = process_loop ae cb ac1 ?w1"
  proof (cases "cb_fn cb")
    case None
    then have "ac1 = ?ac" "w1 = w" using c(1) by (simp_all add: redisRunCallback_def)
    then show ?thesis using None r
      by (subst process_loop.simps) (simp add: g q redisShiftCallback_def)
  next
    case (Some fn)
    then show ?thesis using r c(1) free
      by (subst process_loop.simps) (simp add: g q redisShiftCallback_def Let_def)
  qed
  have "aw_log ?w1 = rev (evs @ [FreeObject ?a]) @ aw_log w" "aw_os ?w1 = aw_os w"
    using c(4) by (simp_all add: keeps_reading_def log_event_def)
  moreover have "holds_replies ts ac1" "store_of ac1 = store_of ac @ layout ?a t"
    using c(4) s(2-4) a by (simp_all add: keeps_reading_def holds_replies_def store_of_def)
  ultimately show ?thesis using loop c(2,3,5) new a
    by (intro exI [of _ ac1] exI [of _ ?w1] exI [of _ "evs @ [FreeObject ?a]"] exI [of _ bs1] exI [of _ new]) simp
qed

lemma process_loop_replies:
  assumes ae: "env_ok (a_env ae)" "\<forall>n. e_mem (a_env ae) n" "polite ae m" "\<forall>n. \<not> e_oom (a_env ae) n"
  shows "in_use bs ac \<Longrightarrow> length bs + length ts * m < 2 ^ 31 \<Longrightarrow> holds_replies ts ac \<Longrightarrow> \<forall>t \<in> set ts. fits t \<and> nest t \<le> 8 \<Longrightarrow>
    ac_replies ac = cbs @ rest \<Longrightarrow> length cbs = length ts \<Longrightarrow>
    \<exists>ac' w' evs new. process_loop ae cb0 ac w = Some (Some ac', w') \<and> ac_replies ac' = rest @ new
      \<and> store_of ac' = store_of ac @ layouts (length (store_of ac)) ts \<and> aw_os w' = aw_os w
      \<and> aw_log w' = rev evs @ aw_log w \<and> filter is_call evs = concat (map2 answer cbs (child_addrs (length (store_of ac)) ts))"
proof (induction ts arbitrary: bs ac cbs rest cb0 w)
  case Nil
  then show ?case using process_loop_end [OF Nil.prems(1,3), of ae cb0 w] by auto
next
  case (Cons t ts)
  obtain cb cbs' where cbs: "cbs = cb # cbs'" "length cbs' = length ts" using Cons.prems(6) by (cases cbs) auto
  have q: "ac_replies ac = cb # (cbs' @ rest)" using Cons.prems(5) cbs by simp
  have t: "fits t" "nest t \<le> 8" and m: "length bs + m < 2 ^ 31" using Cons.prems(2,4) by simp_all
  obtain ac1 w1 evs1 bs1 new1 where s: "process_loop ae cb0 ac w = process_loop ae cb ac1 w1" "in_use bs1 ac1" "length bs1 \<le> length bs + m"
    "holds_replies ts ac1" "store_of ac1 = store_of ac @ layout (length (store_of ac)) t" "ac_replies ac1 = (cbs' @ rest) @ new1"
    "aw_os w1 = aw_os w" "aw_log w1 = rev evs1 @ aw_log w" "filter is_call evs1 = answer cb (length (store_of ac))"
    using process_loop_step [OF ae Cons.prems(1) m Cons.prems(3) t q] by blast
  have "length bs1 + length ts * m < 2 ^ 31" "ac_replies ac1 = cbs' @ (rest @ new1)" "\<forall>t \<in> set ts. fits t \<and> nest t \<le> 8"
    using s(3,6) Cons.prems(2,4) by simp_all
  then obtain ac' w' evs new where r: "process_loop ae cb ac1 w1 = Some (Some ac', w')" "ac_replies ac' = (rest @ new1) @ new"
    "store_of ac' = store_of ac1 @ layouts (length (store_of ac1)) ts" "aw_os w' = aw_os w1" "aw_log w' = rev evs @ aw_log w1"
    "filter is_call evs = concat (map2 answer cbs' (child_addrs (length (store_of ac1)) ts))"
    using Cons.IH [OF s(2) _ s(4) _ _ cbs(2), of "rest @ new1" cb w1] by blast
  then show ?case using s cbs
    by (intro exI [of _ ac'] exI [of _ w'] exI [of _ "evs1 @ evs"] exI [of _ "new1 @ new"]) simp
qed


section \<open>Properties\<close>

lemma el_hook_same: "filter is_call (rev (aw_log (el_hook h ac w))) = filter is_call (rev (aw_log w))"
  by (simp add: el_hook_def log_event_def)

lemma BufferRead_whole:
  assumes e: "env_ok e" and c: "rc_err c = 0" "rc_reader c = Some rd" "between rd" "reply_wf rd" "rd_len rd = 0"
    and os: "s_ret (e_os e (w_trace w) (Read (rc_fd c) (1024 * 16))) = int (length bs)"
      "s_data (e_os e (w_trace w) (Read (rc_fd c) (1024 * 16))) = bs" and bs: "bs \<noteq> []" "length bs < 2 ^ 31"
  shows "\<exists>rd' w'. redisBufferRead e c w = Some (REDIS_OK, c\<lparr>rc_reader := Some rd'\<rparr>, w') \<and> between rd' \<and> window rd' = bs"
proof -
  have a: "allocator_ok (e_alloc e)" "\<forall>n. e_alloc e n \<noteq> None" using e by (auto simp: env_ok_def)
  obtain rd' where "redisReaderFeed (e_alloc e) rd bs = Some (REDIS_OK, rd')" "between rd'" "window rd' = bs"
    using feed_between [OF a c(3-5) bs] by blast
  then show ?thesis using c(1,2) os bs(1) by (intro exI [of _ rd']) (simp add: redisBufferRead_def syscall_def Let_def)
qed

text \<open>C3. Pipelining: when the replies to the first commands in the queue arrive, the read handler calls
  each callback exactly once, in the order the commands were issued, with the object of its own
  reply, and takes those callbacks off the queue; the callbacks may issue further commands, which
  queue up behind the ones still waiting.\<close>

theorem replies_go_to_their_commands:
  assumes ae: "env_ok (a_env ae)" "\<forall>n. e_mem (a_env ae) n" "polite ae m" "\<forall>n. \<not> e_oom (a_env ae) n"
    and u: "in_use bs ac" "has_flag REDIS_CONNECTED ac" "length bs + length ts * m < 2 ^ 31"
    and rd: "rc_reader (ac_c ac) = Some rd" "between rd" "reply_wf rd" "rd_len rd = 0"
    and q: "ac_replies ac = cbs @ rest" "length cbs = length ts"
    and ts: "ts \<noteq> []" "\<forall>t \<in> set ts. fits t \<and> nest t \<le> 8" "length (concat (map encode ts)) < 2 ^ 31"
    and os: "s_ret (e_os (a_env ae) (w_trace (aw_os w)) (Read (rc_fd (ac_c ac)) (1024 * 16))) = int (length (concat (map encode ts)))"
      "s_data (e_os (a_env ae) (w_trace (aw_os w)) (Read (rc_fd (ac_c ac)) (1024 * 16))) = concat (map encode ts)"
  shows "\<exists>ac' w' as new. redisAsyncHandleRead ae ac w = Some (Some ac', w') \<and> ac_replies ac' = rest @ new
    \<and> list_all2 (represents (store_of ac')) as ts
    \<and> filter is_call (rev (aw_log w')) = filter is_call (rev (aw_log w)) @ concat (map2 answer cbs as)"
proof -
  have "concat (map encode ts) \<noteq> []" using ts(1) encode_nonempty by (cases ts) auto
  moreover have "rc_err (ac_c ac) = 0" using u(1) by (simp add: in_use_def)
  ultimately obtain rd' os' where r: "redisBufferRead (a_env ae) (ac_c ac) (aw_os w)
      = Some (REDIS_OK, (ac_c ac)\<lparr>rc_reader := Some rd'\<rparr>, os')" "between rd'" "window rd' = concat (map encode ts)"
    using BufferRead_whole [OF ae(1) _ rd os _ ts(3)] by blast
  let ?ac = "ac\<lparr>ac_c := (ac_c ac)\<lparr>rc_reader := Some rd'\<rparr>\<rparr>"
  let ?w = "el_hook AddRead ?ac (w\<lparr>aw_os := os'\<rparr>)"
  have use: "in_use bs ?ac" by (rule in_use_cong [OF u(1)]) (use u(1) in \<open>simp_all add: in_use_def pending_def\<close>)
  have h: "holds_replies ts ?ac" using r by (simp add: holds_replies_def)
  have q': "ac_replies ?ac = cbs @ rest" using q(1) by simp
  obtain ac' w' evs new where p: "process_loop ae \<lparr>cb_fn = None, cb_privdata = 0\<rparr> ?ac ?w = Some (Some ac', w')"
    "ac_replies ac' = rest @ new" "store_of ac' = store_of ?ac @ layouts (length (store_of ?ac)) ts"
    "aw_log w' = rev evs @ aw_log ?w" "filter is_call evs = concat (map2 answer cbs (child_addrs (length (store_of ?ac)) ts))"
    using process_loop_replies [OF ae use u(3) h ts(2) q' q(2)] by blast
  have "redisAsyncHandleRead ae ac w = Some (Some ac', w')"
    using u(2) r(1) p(1) by (simp add: redisAsyncHandleRead_def when_connected_def redisProcessCallbacks_def status_codes Let_def)
  moreover have "list_all2 (represents (store_of ac')) (child_addrs (length (store_of ?ac)) ts) ts"
    using layout_represents(2) [OF refl, of "store_of ?ac" ts "[]"] p(3) by simp
  moreover have "filter is_call (rev (aw_log w')) = filter is_call (rev (aw_log w)) @ filter is_call evs"
    using el_hook_same [of AddRead ?ac "w\<lparr>aw_os := os'\<rparr>"] p(4) by simp
  ultimately show ?thesis using p(2,5) by auto
qed

text \<open>A program that issues another command when its first callback is answered.\<close>

definition chain_env :: "byte list list \<Rightarrow> nat aenv" where
  "chain_env cs = \<lparr>a_env = scripted_env cs, a_client = (\<lambda>l. case l of
     Replied fn pd r # _ \<Rightarrow> if fn = 1 then [Command (Some 9) 0 [''PING'']] else [] | _ \<Rightarrow> [])\<rparr>"

lemma chain_env_polite: "polite (chain_env cs) 14"
  by (auto simp: polite_def chain_env_def ordinary_def regular_def keyword_of_def tolower_def uchar_def encode_command_def bulk_def
      dec_of_nat.simps char_of_def bit_iff_odd split: list.split aevent.split)

theorem replies_go_to_their_commands_witness:
  "\<exists>c ac' w' a b new. redisConnectFd (scripted_env [''+OK'' @ crlf @ '':7'' @ crlf]) 5 = Some c
    \<and> redisAsyncHandleRead (chain_env [''+OK'' @ crlf @ '':7'' @ crlf])
        ((open_example c)\<lparr>ac_replies := [\<lparr>cb_fn = Some 1, cb_privdata = 10\<rparr>, \<lparr>cb_fn = Some 2, cb_privdata = 20\<rparr>, \<lparr>cb_fn = Some 3, cb_privdata = 30\<rparr>]\<rparr>)
        \<lparr>aw_os = \<lparr>w_trace = [], w_errno = 0\<rparr>, aw_log = []\<rparr> = Some (Some ac', w')
    \<and> ac_replies ac' = \<lparr>cb_fn = Some 3, cb_privdata = 30\<rparr> # new
    \<and> represents (store_of ac') a (RStatus ''OK'') \<and> represents (store_of ac') b (RInteger 7)
    \<and> filter is_call (rev (aw_log w')) = [Replied 1 10 (Some a), Replied 2 20 (Some b)]"
proof -
  let ?cs = "[''+OK'' @ crlf @ '':7'' @ crlf]" and ?ts = "[RStatus ''OK'', RInteger 7]"
  let ?cbs = "[\<lparr>cb_fn = Some 1, cb_privdata = 10\<rparr>, \<lparr>cb_fn = Some 2, cb_privdata = 20\<rparr>]"
  let ?rest = "[\<lparr>cb_fn = Some 3, cb_privdata = 30\<rparr>]" and ?w = "\<lparr>aw_os = \<lparr>w_trace = [], w_errno = 0\<rparr>, aw_log = []\<rparr>"
  obtain c where c: "redisConnectFd (scripted_env ?cs) 5 = Some c"
    by (simp add: redisConnectFd_def redisContextInit_def scripted_env_def)
  let ?ac = "(open_example c)\<lparr>ac_replies := ?cbs @ ?rest\<rparr>"
  have r: "at_rest c" "rc_fd c = 5" using ConnectFd_at_rest [OF scripted_env_ok(1) c] by auto
  then obtain rd where rd: "rc_reader (ac_c ?ac) = Some rd" "between rd" "reply_wf rd" "rd_len rd = 0"
    by (auto simp: at_rest_def open_example_def)
  have e: "env_ok (a_env (chain_env ?cs))" "\<forall>n. e_mem (a_env (chain_env ?cs)) n" "\<forall>n. \<not> e_oom (a_env (chain_env ?cs)) n"
    using scripted_env_ok(1) [of ?cs] by (simp_all add: chain_env_def) (simp_all add: scripted_env_def)
  have u: "in_use [] ?ac" "has_flag REDIS_CONNECTED ?ac"
    using r(1) by (simp_all add: in_use_def open_context_def has_flag_def open_example_def at_rest_def REDIS_CONNECTED_def
        REDIS_DISCONNECTING_def REDIS_FREEING_def REDIS_SUBSCRIBED_def REDIS_MONITORING_def REDIS_BLOCK_def pending_def)
  have enc: "concat (map encode ?ts) = ''+OK'' @ crlf @ '':7'' @ crlf" by (simp add: dec_of_int_def dec_of_nat.simps digit_char_def char_of_def bit_iff_odd)
  have small: "length ([] :: byte list) + length ?ts * 14 < 2 ^ 31" "length (concat (map encode ?ts)) < 2 ^ 31"
    "length ?cbs = length ?ts" "?ts \<noteq> []" "\<forall>t \<in> set ?ts. fits t \<and> nest t \<le> 8" "ac_replies ?ac = ?cbs @ ?rest"
    unfolding enc by simp_all
  have os: "s_ret (e_os (a_env (chain_env ?cs)) (w_trace (aw_os ?w)) (Read (rc_fd (ac_c ?ac)) (1024 * 16))) = int (length (concat (map encode ?ts)))"
    "s_data (e_os (a_env (chain_env ?cs)) (w_trace (aw_os ?w)) (Read (rc_fd (ac_c ?ac)) (1024 * 16))) = concat (map encode ?ts)"
    unfolding enc by (simp_all add: chain_env_def scripted_env_def scripted_os_def Let_def)
  obtain ac' w' as new where z: "redisAsyncHandleRead (chain_env ?cs) ?ac ?w = Some (Some ac', w')" "ac_replies ac' = ?rest @ new"
    "list_all2 (represents (store_of ac')) as ?ts"
    "filter is_call (rev (aw_log w')) = filter is_call (rev (aw_log ?w)) @ concat (map2 answer ?cbs as)"
    using replies_go_to_their_commands [OF e(1,2) chain_env_polite e(3) u small(1) rd small(6,3,4,5,2) os] by blast
  obtain a b where ab: "as = [a, b]" "represents (store_of ac') a (RStatus ''OK'')" "represents (store_of ac') b (RInteger 7)"
    using z(3) by (auto simp: list_all2_Cons2)
  have "filter is_call (rev (aw_log w')) = [Replied 1 10 (Some a), Replied 2 20 (Some b)]" using z(4) ab(1) by (simp add: answer_def)
  then show ?thesis using c z(1,2) ab(2,3)
    by (intro exI [of _ c] exI [of _ ac'] exI [of _ w'] exI [of _ a] exI [of _ b] exI [of _ new]) simp
qed

end
