(* ===== verification/AeLoop.thy ===== *)
theory AeLoop
  imports CPrelude "HOL-Library.Signed_Division"
begin

unbundle bit_operations_syntax

text \<open>
  The event loop of \<^verbatim>\<open>hiredis/ae.c\<close> on \<^verbatim>\<open>ae_epoll.c\<close>: file events, timers, and the function that waits
  for both. The operating system (clocks, \<^verbatim>\<open>epoll\<close>, \<^verbatim>\<open>poll\<close>) and the program's handlers are
  parameters that see what has happened so far, newest first. A handler yields the calls it makes on
  the loop; finalizers and the function called before sleeping make none, and no handler resizes the
  loop or runs it recursively.

  \<^verbatim>\<open>zmalloc\<close> never returns a null pointer, it aborts: \<open>None\<close>, as any step without a defined result (an
  index out of range, a timer used after it was freed) or without an end. Times are unbounded
  integers; the conversion of a timeout to \<^verbatim>\<open>int\<close> is written out.
\<close>

section \<open>Data\<close>

definition AE_OK :: int where "AE_OK = 0"
definition AE_ERR :: int where "AE_ERR = - 1"
definition AE_NONE :: int where "AE_NONE = 0"
definition AE_READABLE :: int where "AE_READABLE = 1"
definition AE_WRITABLE :: int where "AE_WRITABLE = 2"
definition AE_FILE_EVENTS :: int where "AE_FILE_EVENTS = 1"
definition AE_TIME_EVENTS :: int where "AE_TIME_EVENTS = 2"
definition AE_ALL_EVENTS :: int where "AE_ALL_EVENTS = AE_FILE_EVENTS OR AE_TIME_EVENTS"
definition AE_DONT_WAIT :: int where "AE_DONT_WAIT = 4"
definition AE_NOMORE :: int where "AE_NOMORE = - 1"

definition EPOLLIN :: int where "EPOLLIN = 1"
definition EPOLLOUT :: int where "EPOLLOUT = 4"
definition EPOLLERR :: int where "EPOLLERR = 8"
definition EPOLLHUP :: int where "EPOLLHUP = 16"

lemmas ae_codes = AE_OK_def AE_ERR_def AE_NONE_def AE_READABLE_def AE_WRITABLE_def AE_NOMORE_def

datatype ctl = CtlAdd | CtlMod | CtlDel

datatype ae_req = Time | Gettimeofday | EpollCreate int | EpollCtl int ctl int int | EpollWait int int int | EpollClose int
  | Poll int int int

record ae_res =
  ar_ret :: int
  ar_sec :: int
  ar_usec :: int
  ar_ready :: "(int \<times> int) list"

datatype ae_event =
  Asked ae_req ae_res
| ReadProc nat int nat int
| WriteProc nat int nat int
| TimeProc nat int nat
| Finalized nat nat
| BeforeSleep nat

type_synonym ae_log = "ae_event list"

record aeFileEvent =
  fe_mask :: int
  fe_rfileProc :: "nat option"
  fe_wfileProc :: "nat option"
  fe_clientData :: nat

record aeTimeEvent =
  te_id :: int
  te_when_sec :: int
  te_when_ms :: int
  te_timeProc :: nat
  te_finalizerProc :: "nat option"
  te_clientData :: nat

record aeEventLoop =
  el_maxfd :: int
  el_setsize :: int
  el_timeEventNextId :: int
  el_lastTime :: int
  el_events :: "aeFileEvent list"
  el_fired :: "(int \<times> int) list"
  el_timers :: "aeTimeEvent list"
  el_stop :: bool
  el_epfd :: int
  el_beforesleep :: "nat option"

datatype loop_action =
  CreateFile int int nat nat
| DeleteFile int int
| CreateTimer int nat nat "nat option"
| DeleteTimer int
| StopLoop

text \<open>A handler's calls, and the value it returns when it is a timer's.\<close>

record ae_env =
  ae_os :: "ae_log \<Rightarrow> ae_req \<Rightarrow> ae_res"
  ae_mem :: "int \<Rightarrow> bool"
  ae_client :: "ae_log \<Rightarrow> loop_action list \<times> int"

definition ask :: "ae_env \<Rightarrow> ae_req \<Rightarrow> ae_log \<Rightarrow> ae_res \<times> ae_log" where
  "ask e q l = (let r = ae_os e l q in (r, Asked q r # l))"

section \<open>The epoll module\<close>

text \<open>The events of a mask, and the mask of reported events.\<close>

definition ee_events :: "int \<Rightarrow> int" where
  "ee_events msk =
     (let ev = 0; ev = (if msk AND AE_READABLE \<noteq> 0 then ev OR EPOLLIN else ev)
      in if msk AND AE_WRITABLE \<noteq> 0 then ev OR EPOLLOUT else ev)"

definition ready_mask :: "int \<Rightarrow> int" where
  "ready_mask ev =
     (let msk = 0;
          msk = (if ev AND EPOLLIN \<noteq> 0 then msk OR AE_READABLE else msk);
          msk = (if ev AND EPOLLOUT \<noteq> 0 then msk OR AE_WRITABLE else msk);
          msk = (if ev AND EPOLLERR \<noteq> 0 then msk OR AE_WRITABLE else msk)
      in if ev AND EPOLLHUP \<noteq> 0 then msk OR AE_WRITABLE else msk)"

definition sizeof_aeFileEvent :: int where "sizeof_aeFileEvent = 32"
definition sizeof_epoll_event :: int where "sizeof_epoll_event = 12"

definition aeApiCreate :: "ae_env \<Rightarrow> int \<Rightarrow> ae_log \<Rightarrow> (int \<times> int \<times> ae_log) option" where
  "aeApiCreate e setsize l =
     (if \<not> ae_mem e 16 \<or> \<not> ae_mem e (sizeof_epoll_event * setsize) then None
      else
        let (r, l) = ask e (EpollCreate 1024) l in
        if ar_ret r = - 1 then Some (- 1, - 1, l) else Some (0, ar_ret r, l))"

definition aeApiResize :: "ae_env \<Rightarrow> int \<Rightarrow> int option" where
  "aeApiResize e setsize = (if \<not> ae_mem e (sizeof_epoll_event * setsize) then None else Some 0)"

definition aeApiFree :: "ae_env \<Rightarrow> aeEventLoop \<Rightarrow> ae_log \<Rightarrow> ae_log" where
  "aeApiFree e el l = snd (ask e (EpollClose (el_epfd el)) l)"

definition mask_of :: "aeEventLoop \<Rightarrow> int \<Rightarrow> int" where
  "mask_of el fd = fe_mask (el_events el ! nat fd)"

definition aeApiAddEvent :: "ae_env \<Rightarrow> aeEventLoop \<Rightarrow> int \<Rightarrow> int \<Rightarrow> ae_log \<Rightarrow> int \<times> ae_log" where
  "aeApiAddEvent e el fd msk l =
     (let op = (if mask_of el fd = AE_NONE then CtlAdd else CtlMod);
          msk = msk OR mask_of el fd;
          (r, l) = ask e (EpollCtl (el_epfd el) op fd (ee_events msk)) l
      in (if ar_ret r = - 1 then - 1 else 0, l))"

definition aeApiDelEvent :: "ae_env \<Rightarrow> aeEventLoop \<Rightarrow> int \<Rightarrow> int \<Rightarrow> ae_log \<Rightarrow> ae_log" where
  "aeApiDelEvent e el fd delmask l =
     (let msk = mask_of el fd AND NOT delmask in
      if msk \<noteq> AE_NONE then snd (ask e (EpollCtl (el_epfd el) CtlMod fd (ee_events msk)) l)
      else snd (ask e (EpollCtl (el_epfd el) CtlDel fd (ee_events msk)) l))"

text \<open>The timeout is a pair of seconds and microseconds; the product is converted to \<^verbatim>\<open>int\<close>.\<close>

definition aeApiPoll :: "ae_env \<Rightarrow> (int \<times> int) option \<Rightarrow> aeEventLoop \<Rightarrow> ae_log \<Rightarrow> nat \<times> aeEventLoop \<times> ae_log" where
  "aeApiPoll e tvp el l =
     (let timeout = (case tvp of Some (s, us) \<Rightarrow> c_int (s * 1000 + us sdiv 1000) | None \<Rightarrow> - 1);
          (r, l) = ask e (EpollWait (el_epfd el) (el_setsize el) timeout) l in
      if ar_ret r > 0 then
        let fired = map (\<lambda>(fd, ev). (fd, ready_mask ev)) (take (nat (ar_ret r)) (ar_ready r)) in
        (length fired, el\<lparr>el_fired := fired @ drop (length fired) (el_fired el)\<rparr>, l)
      else (0, el, l))"

definition aeApiName :: "byte list" where "aeApiName = ''epoll''"

section \<open>Creating and resizing\<close>

definition unset_event :: aeFileEvent where
  "unset_event = \<lparr>fe_mask = AE_NONE, fe_rfileProc = None, fe_wfileProc = None, fe_clientData = 0\<rparr>"

text \<open>The inner option is the null pointer.\<close>

definition aeCreateEventLoop :: "ae_env \<Rightarrow> int \<Rightarrow> ae_log \<Rightarrow> (aeEventLoop option \<times> ae_log) option" where
  "aeCreateEventLoop e setsize l =
     (if setsize < 0 \<or> \<not> ae_mem e 72 \<or> \<not> ae_mem e (sizeof_aeFileEvent * setsize) \<or> \<not> ae_mem e (8 * setsize) then None
      else
        let (t, l) = ask e Time l in
        case aeApiCreate e setsize l of
          None \<Rightarrow> None
        | Some (st, epfd, l) \<Rightarrow>
            if st = - 1 then Some (None, l)
            else Some (Some \<lparr>el_maxfd = - 1, el_setsize = setsize, el_timeEventNextId = 0, el_lastTime = ar_ret t,
                   el_events = replicate (nat setsize) unset_event, el_fired = replicate (nat setsize) (0, 0),
                   el_timers = [], el_stop = False, el_epfd = epfd, el_beforesleep = None\<rparr>, l))"

definition aeGetSetSize :: "aeEventLoop \<Rightarrow> int" where
  "aeGetSetSize el = el_setsize el"

text \<open>\<^verbatim>\<open>realloc\<close> of an array: the common part keeps its contents.\<close>

definition resized :: "nat \<Rightarrow> 'a \<Rightarrow> 'a list \<Rightarrow> 'a list" where
  "resized n x xs = take n xs @ replicate (n - length xs) x"

definition aeResizeSetSize :: "ae_env \<Rightarrow> int \<Rightarrow> aeEventLoop \<Rightarrow> (int \<times> aeEventLoop) option" where
  "aeResizeSetSize e setsize el =
     (if setsize = el_setsize el then Some (AE_OK, el)
      else if el_maxfd el \<ge> setsize then Some (AE_ERR, el)
      else
        case aeApiResize e setsize of
          None \<Rightarrow> None
        | Some st \<Rightarrow>
            if st = - 1 then Some (AE_ERR, el)
            else if setsize < 0 \<or> \<not> ae_mem e (sizeof_aeFileEvent * setsize) \<or> \<not> ae_mem e (8 * setsize) then None
            else
              let n = nat setsize; evs = resized n unset_event (el_events el) in
              Some (AE_OK, el\<lparr>el_events := map (\<lambda>i. if el_maxfd el + 1 \<le> int i then (evs ! i)\<lparr>fe_mask := AE_NONE\<rparr> else evs ! i) [0..<n],
                       el_fired := resized n (0, 0) (el_fired el), el_setsize := setsize\<rparr>))"

definition aeDeleteEventLoop :: "ae_env \<Rightarrow> aeEventLoop \<Rightarrow> ae_log \<Rightarrow> ae_log" where
  "aeDeleteEventLoop e el l = aeApiFree e el l"

definition aeStop :: "aeEventLoop \<Rightarrow> aeEventLoop" where
  "aeStop el = el\<lparr>el_stop := True\<rparr>"

section \<open>File events\<close>

definition set_event :: "int \<Rightarrow> aeFileEvent \<Rightarrow> aeEventLoop \<Rightarrow> aeEventLoop" where
  "set_event fd fe el = el\<lparr>el_events := (el_events el)[nat fd := fe]\<rparr>"

definition aeCreateFileEvent ::
  "ae_env \<Rightarrow> int \<Rightarrow> int \<Rightarrow> nat \<Rightarrow> nat \<Rightarrow> aeEventLoop \<Rightarrow> ae_log \<Rightarrow> (int \<times> aeEventLoop \<times> ae_log) option" where
  "aeCreateFileEvent e fd msk proc clientData el l =
     (if fd \<ge> el_setsize el then Some (AE_ERR, el, l)
      else if fd < 0 then None
      else
        let fe = el_events el ! nat fd; (st, l) = aeApiAddEvent e el fd msk l in
        if st = - 1 then Some (AE_ERR, el, l)
        else
          let fe = fe\<lparr>fe_mask := fe_mask fe OR msk\<rparr>;
              fe = (if msk AND AE_READABLE \<noteq> 0 then fe\<lparr>fe_rfileProc := Some proc\<rparr> else fe);
              fe = (if msk AND AE_WRITABLE \<noteq> 0 then fe\<lparr>fe_wfileProc := Some proc\<rparr> else fe);
              fe = fe\<lparr>fe_clientData := clientData\<rparr>;
              el = set_event fd fe el in
          Some (AE_OK, (if fd > el_maxfd el then el\<lparr>el_maxfd := fd\<rparr> else el), l))"

text \<open>The loop from \<open>n - 1\<close> down to the highest descriptor with an event, or -1.\<close>

fun highest_below :: "aeFileEvent list \<Rightarrow> nat \<Rightarrow> int" where
  "highest_below evs 0 = - 1"
| "highest_below evs (Suc j) = (if fe_mask (evs ! j) \<noteq> AE_NONE then int j else highest_below evs j)"

definition aeDeleteFileEvent :: "ae_env \<Rightarrow> int \<Rightarrow> int \<Rightarrow> aeEventLoop \<Rightarrow> ae_log \<Rightarrow> (aeEventLoop \<times> ae_log) option" where
  "aeDeleteFileEvent e fd msk el l =
     (if fd \<ge> el_setsize el then Some (el, l)
      else if fd < 0 then None
      else
        let fe = el_events el ! nat fd in
        if fe_mask fe = AE_NONE then Some (el, l)
        else
          let l = aeApiDelEvent e el fd msk l;
              fe = fe\<lparr>fe_mask := fe_mask fe AND NOT msk\<rparr>;
              el = set_event fd fe el in
          Some (if fd = el_maxfd el \<and> fe_mask fe = AE_NONE
                then el\<lparr>el_maxfd := highest_below (el_events el) (nat (el_maxfd el))\<rparr> else el, l))"

definition aeGetFileEvents :: "int \<Rightarrow> aeEventLoop \<Rightarrow> int option" where
  "aeGetFileEvents fd el =
     (if fd \<ge> el_setsize el then Some 0 else if fd < 0 then None else Some (mask_of el fd))"


section \<open>Timers\<close>

definition aeGetTime :: "ae_env \<Rightarrow> ae_log \<Rightarrow> int \<times> int \<times> ae_log" where
  "aeGetTime e l = (let (r, l) = ask e Gettimeofday l in (ar_sec r, ar_usec r sdiv 1000, l))"

definition aeAddMillisecondsToNow :: "ae_env \<Rightarrow> int \<Rightarrow> ae_log \<Rightarrow> int \<times> int \<times> ae_log" where
  "aeAddMillisecondsToNow e milliseconds l =
     (let (cur_sec, cur_ms, l) = aeGetTime e l;
          when_sec = cur_sec + milliseconds sdiv 1000; when_ms = cur_ms + milliseconds smod 1000 in
      if when_ms \<ge> 1000 then (when_sec + 1, when_ms - 1000, l) else (when_sec, when_ms, l))"

definition aeCreateTimeEvent ::
  "ae_env \<Rightarrow> int \<Rightarrow> nat \<Rightarrow> nat \<Rightarrow> nat option \<Rightarrow> aeEventLoop \<Rightarrow> ae_log \<Rightarrow> (int \<times> aeEventLoop \<times> ae_log) option" where
  "aeCreateTimeEvent e milliseconds proc clientData finalizerProc el l =
     (let tid = el_timeEventNextId el in
      if \<not> ae_mem e 56 then None
      else
        let (s, ms, l) = aeAddMillisecondsToNow e milliseconds l in
        Some (tid, el\<lparr>el_timeEventNextId := tid + 1,
          el_timers := \<lparr>te_id = tid, te_when_sec = s, te_when_ms = ms, te_timeProc = proc, te_finalizerProc = finalizerProc,
            te_clientData = clientData\<rparr> # el_timers el\<rparr>, l))"

text \<open>The list without the first timer of that number, and that timer.\<close>

fun unlink_timer :: "int \<Rightarrow> aeTimeEvent list \<Rightarrow> (aeTimeEvent \<times> aeTimeEvent list) option" where
  "unlink_timer tid [] = None"
| "unlink_timer tid (te # tes) =
     (if te_id te = tid then Some (te, tes) else map_option (\<lambda>(x, r). (x, te # r)) (unlink_timer tid tes))"

definition aeDeleteTimeEvent :: "int \<Rightarrow> aeEventLoop \<Rightarrow> ae_log \<Rightarrow> int \<times> aeEventLoop \<times> ae_log" where
  "aeDeleteTimeEvent tid el l =
     (case unlink_timer tid (el_timers el) of
        None \<Rightarrow> (AE_ERR, el, l)
      | Some (te, tes) \<Rightarrow>
          (AE_OK, el\<lparr>el_timers := tes\<rparr>,
           case te_finalizerProc te of None \<Rightarrow> l | Some f \<Rightarrow> Finalized f (te_clientData te) # l))"

definition earlier :: "aeTimeEvent \<Rightarrow> aeTimeEvent \<Rightarrow> bool" where
  "earlier te nearest \<longleftrightarrow> te_when_sec te < te_when_sec nearest \<or>
     (te_when_sec te = te_when_sec nearest \<and> te_when_ms te < te_when_ms nearest)"

definition aeSearchNearestTimer :: "aeEventLoop \<Rightarrow> aeTimeEvent option" where
  "aeSearchNearestTimer el =
     foldl (\<lambda>nearest te. case nearest of
              None \<Rightarrow> Some te
            | Some n \<Rightarrow> if earlier te n then Some te else Some n) None (el_timers el)"

section \<open>Handlers\<close>

fun perform_action :: "ae_env \<Rightarrow> loop_action \<Rightarrow> aeEventLoop \<Rightarrow> ae_log \<Rightarrow> (aeEventLoop \<times> ae_log) option" where
  "perform_action e (CreateFile fd msk proc data) el l = map_option snd (aeCreateFileEvent e fd msk proc data el l)"
| "perform_action e (DeleteFile fd msk) el l = aeDeleteFileEvent e fd msk el l"
| "perform_action e (CreateTimer ms proc data fin) el l = map_option snd (aeCreateTimeEvent e ms proc data fin el l)"
| "perform_action e (DeleteTimer tid) el l = Some (snd (aeDeleteTimeEvent tid el l))"
| "perform_action e StopLoop el l = Some (aeStop el, l)"

fun perform_actions :: "ae_env \<Rightarrow> loop_action list \<Rightarrow> aeEventLoop \<Rightarrow> ae_log \<Rightarrow> (aeEventLoop \<times> ae_log) option" where
  "perform_actions e [] el l = Some (el, l)"
| "perform_actions e (x # xs) el l =
     (case perform_action e x el l of None \<Rightarrow> None | Some (el, l) \<Rightarrow> perform_actions e xs el l)"

text \<open>A handler is called: the value it returns, and what its calls leave.\<close>

definition handler :: "ae_env \<Rightarrow> ae_event \<Rightarrow> aeEventLoop \<Rightarrow> ae_log \<Rightarrow> (int \<times> aeEventLoop \<times> ae_log) option" where
  "handler e x el l =
     (let l = x # l; (as, ret) = ae_client e l in map_option (\<lambda>(el, l). (ret, el, l)) (perform_actions e as el l))"

section \<open>Processing\<close>

definition set_when :: "int \<Rightarrow> int \<times> int \<Rightarrow> aeTimeEvent list \<Rightarrow> aeTimeEvent list" where
  "set_when tid w tes = map (\<lambda>te. if te_id te = tid then te\<lparr>te_when_sec := fst w, te_when_ms := snd w\<rparr> else te) tes"

definition due :: "int \<Rightarrow> int \<Rightarrow> aeTimeEvent \<Rightarrow> bool" where
  "due now_sec now_ms te \<longleftrightarrow> now_sec > te_when_sec te \<or> (now_sec = te_when_sec te \<and> now_ms \<ge> te_when_ms te)"

text \<open>
  One timer runs and is scheduled again or deleted. One that is scheduled again must still be there:
  its record is written.
\<close>

definition run_timer :: "ae_env \<Rightarrow> aeTimeEvent \<Rightarrow> aeEventLoop \<Rightarrow> ae_log \<Rightarrow> (aeEventLoop \<times> ae_log) option" where
  "run_timer e te el l =
     (case handler e (TimeProc (te_timeProc te) (te_id te) (te_clientData te)) el l of
        None \<Rightarrow> None
      | Some (retval, el, l) \<Rightarrow>
          if retval \<noteq> AE_NOMORE then
            (if \<forall>x \<in> set (el_timers el). te_id x \<noteq> te_id te then None
             else
               let (s, ms, l) = aeAddMillisecondsToNow e retval l
               in Some (el\<lparr>el_timers := set_when (te_id te) (s, ms) (el_timers el)\<rparr>, l))
          else Some (snd (aeDeleteTimeEvent (te_id te) el l)))"

text \<open>The loop over the timers from the one at hand; after a timer has run it starts again at the head.\<close>

partial_function (option) time_loop ::
  "ae_env \<Rightarrow> int \<Rightarrow> aeTimeEvent list \<Rightarrow> int \<Rightarrow> aeEventLoop \<Rightarrow> ae_log \<Rightarrow> (int \<times> aeEventLoop \<times> ae_log) option" where
  "time_loop e maxId rest processed el l =
     (case rest of
        [] \<Rightarrow> Some (processed, el, l)
      | te # rest \<Rightarrow>
          if te_id te > maxId then time_loop e maxId rest processed el l
          else
            let (now_sec, now_ms, l) = aeGetTime e l in
            if due now_sec now_ms te then
              Option.bind (run_timer e te el l) (\<lambda>(el, l). time_loop e maxId (el_timers el) (processed + 1) el l)
            else time_loop e maxId rest processed el l)"

definition processTimeEvents :: "ae_env \<Rightarrow> aeEventLoop \<Rightarrow> ae_log \<Rightarrow> (int \<times> aeEventLoop \<times> ae_log) option" where
  "processTimeEvents e el l =
     (let (t, l) = ask e Time l; now = ar_ret t;
          el = (if now < el_lastTime el then el\<lparr>el_timers := map (\<lambda>te. te\<lparr>te_when_sec := 0\<rparr>) (el_timers el)\<rparr> else el);
          el = el\<lparr>el_lastTime := now\<rparr>
      in time_loop e (el_timeEventNextId el - 1) (el_timers el) 0 el l)"

text \<open>The loop over the fired events. A handler may change the loop, so each step looks again.\<close>

fun fire_loop :: "ae_env \<Rightarrow> (int \<times> int) list \<Rightarrow> int \<Rightarrow> aeEventLoop \<Rightarrow> ae_log \<Rightarrow> (int \<times> aeEventLoop \<times> ae_log) option" where
  "fire_loop e [] processed el l = Some (processed, el, l)"
| "fire_loop e ((fd, msk) # fired) processed el l =
     (if fd < 0 \<or> int (length (el_events el)) \<le> fd then None
      else
        let fe = el_events el ! nat fd; readable = (fe_mask fe AND msk AND AE_READABLE \<noteq> 0) in
        Option.bind
          (if readable then
             Option.bind (fe_rfileProc fe) (\<lambda>p. handler e (ReadProc p fd (fe_clientData fe) msk) el l)
           else Some (0, el, l)) (\<lambda>(_, el, l).
        let fe = el_events el ! nat fd in
        Option.bind
          (if fe_mask fe AND msk AND AE_WRITABLE \<noteq> 0 \<and> (\<not> readable \<or> fe_wfileProc fe \<noteq> fe_rfileProc fe) then
             Option.bind (fe_wfileProc fe) (\<lambda>p. handler e (WriteProc p fd (fe_clientData fe) msk) el l)
           else Some (0, el, l)) (\<lambda>(_, el, l).
        fire_loop e fired (processed + 1) el l)))"

text \<open>The time to wait for: that of the nearest timer, none, or for ever.\<close>

definition wait_time :: "ae_env \<Rightarrow> int \<Rightarrow> aeEventLoop \<Rightarrow> ae_log \<Rightarrow> (int \<times> int) option \<times> ae_log" where
  "wait_time e flags el l =
     (case (if flags AND AE_TIME_EVENTS \<noteq> 0 \<and> flags AND AE_DONT_WAIT = 0 then aeSearchNearestTimer el else None) of
        Some shortest \<Rightarrow>
          (let (now_sec, now_ms, l) = aeGetTime e l;
               sec = te_when_sec shortest - now_sec;
               (sec, usec) = (if te_when_ms shortest < now_ms
                              then (sec - 1, ((te_when_ms shortest + 1000) - now_ms) * 1000)
                              else (sec, (te_when_ms shortest - now_ms) * 1000));
               sec = (if sec < 0 then 0 else sec); usec = (if usec < 0 then 0 else usec)
           in (Some (sec, usec), l))
      | None \<Rightarrow> (if flags AND AE_DONT_WAIT \<noteq> 0 then Some (0, 0) else None, l))"

definition aeProcessEvents :: "ae_env \<Rightarrow> int \<Rightarrow> aeEventLoop \<Rightarrow> ae_log \<Rightarrow> (int \<times> aeEventLoop \<times> ae_log) option" where
  "aeProcessEvents e flags el l =
     (if flags AND AE_TIME_EVENTS = 0 \<and> flags AND AE_FILE_EVENTS = 0 then Some (0, el, l)
      else
        Option.bind
          (if el_maxfd el \<noteq> - 1 \<or> (flags AND AE_TIME_EVENTS \<noteq> 0 \<and> flags AND AE_DONT_WAIT = 0) then
             let (tvp, l) = wait_time e flags el l; (numevents, el, l) = aeApiPoll e tvp el l in
             fire_loop e (take numevents (el_fired el)) 0 el l
           else Some (0, el, l)) (\<lambda>(processed, el, l).
        if flags AND AE_TIME_EVENTS \<noteq> 0 then
          map_option (\<lambda>(n, el, l). (processed + n, el, l)) (processTimeEvents e el l)
        else Some (processed, el, l)))"

text \<open>\<^verbatim>\<open>POLLIN\<close>, \<^verbatim>\<open>POLLOUT\<close>, \<^verbatim>\<open>POLLERR\<close> and \<^verbatim>\<open>POLLHUP\<close> have the values of the corresponding \<^verbatim>\<open>EPOLL\<close> flags.\<close>

definition aeWait :: "ae_env \<Rightarrow> int \<Rightarrow> int \<Rightarrow> int \<Rightarrow> ae_log \<Rightarrow> int \<times> ae_log" where
  "aeWait e fd msk milliseconds l =
     (let (r, l) = ask e (Poll fd (ee_events msk) (c_int milliseconds)) l in
      if ar_ret r = 1 then (ready_mask (snd (hd (ar_ready r))), l) else (ar_ret r, l))"

partial_function (option) main_loop :: "ae_env \<Rightarrow> aeEventLoop \<Rightarrow> ae_log \<Rightarrow> (aeEventLoop \<times> ae_log) option" where
  "main_loop e el l =
     (if el_stop el then Some (el, l)
      else
        let l = (case el_beforesleep el of None \<Rightarrow> l | Some f \<Rightarrow> BeforeSleep f # l) in
        Option.bind (aeProcessEvents e AE_ALL_EVENTS el l) (\<lambda>(_, el, l). main_loop e el l))"

definition aeMain :: "ae_env \<Rightarrow> aeEventLoop \<Rightarrow> ae_log \<Rightarrow> (aeEventLoop \<times> ae_log) option" where
  "aeMain e el l = main_loop e (el\<lparr>el_stop := False\<rparr>) l"

definition aeGetApiName :: "byte list" where "aeGetApiName = aeApiName"

definition aeSetBeforeSleepProc :: "nat option \<Rightarrow> aeEventLoop \<Rightarrow> aeEventLoop" where
  "aeSetBeforeSleepProc beforesleep el = el\<lparr>el_beforesleep := beforesleep\<rparr>"


declare time_loop.simps [code] main_loop.simps [code]

end
