(* ===== verification/AeRegistry.thy ===== *)
theory AeRegistry
  imports AeLoop
begin

unbundle bit_operations_syntax

text \<open>
  The registry of file events: the loop's own table, the highest registered descriptor and the
  interest set that the kernel keeps stay in step whatever the program does. The interface the
  clients of the registry rely on is a locale.
\<close>

section \<open>The interface of an event registry\<close>

text \<open>
  A registry gives every descriptor a set of events, coded as bits. Adding may fail and then changes
  nothing; deleting always works.
\<close>

locale event_registry =
  fixes valid :: "'s \<Rightarrow> bool"
    and member :: "'s \<Rightarrow> int \<Rightarrow> bool"
    and registered :: "'s \<Rightarrow> int \<Rightarrow> int"
    and add :: "int \<Rightarrow> int \<Rightarrow> nat \<Rightarrow> nat \<Rightarrow> 's \<Rightarrow> (bool \<times> 's) option"
    and del :: "int \<Rightarrow> int \<Rightarrow> 's \<Rightarrow> 's option"
  assumes add_law: "valid s \<Longrightarrow> member s fd \<Longrightarrow> m \<in> {1, 2, 3} \<Longrightarrow>
      \<exists>b s'. add fd m p d s = Some (b, s') \<and> valid s' \<and> member s' = member s
        \<and> registered s' = (if b then (registered s)(fd := registered s fd OR m) else registered s)"
    and del_law: "valid s \<Longrightarrow> member s fd \<Longrightarrow> m \<in> {1, 2, 3} \<Longrightarrow>
      \<exists>s'. del fd m s = Some s' \<and> valid s' \<and> member s' = member s
        \<and> registered s' = (registered s)(fd := registered s fd AND NOT m)"
    and registered_range: "valid s \<Longrightarrow> registered s fd \<in> {0, 1, 2, 3}"
begin

lemma add_del_restores:
  assumes "valid s" "member s fd" "m \<in> {1, 2, 3}" "registered s fd AND m = 0" "add fd m p d s = Some (b, s')" "del fd m s' = Some s''"
  shows "registered s'' = registered s"
proof -
  have a: "valid s'" "member s' = member s" "registered s' = (if b then (registered s)(fd := registered s fd OR m) else registered s)"
    using add_law [OF assms(1-3), of p d] assms(5) by auto
  have b: "registered s'' = (registered s')(fd := registered s' fd AND NOT m)"
    using del_law [OF a(1) _ assms(3)] a(2) assms(2,6) by fastforce
  have r: "(registered s fd OR m) AND NOT m = registered s fd" "registered s fd AND NOT m = registered s fd"
    using registered_range [OF assms(1), of fd] assms(3,4) by auto
  show ?thesis using a(3) b r by (cases b) auto
qed

lemma add_twice:
  assumes "valid s" "member s fd" "m \<in> {1, 2, 3}" "add fd m p d s = Some (True, s')" "add fd m p d s' = Some (b, s'')"
  shows "registered s'' = registered s'"
proof -
  have a: "valid s'" "member s' = member s" "registered s' = (registered s)(fd := registered s fd OR m)"
    using add_law [OF assms(1-3), of p d] assms(4) by auto
  have "registered s'' = (if b then (registered s')(fd := registered s' fd OR m) else registered s')"
    using add_law [OF a(1) _ assms(3), of fd p d] a(2) assms(2,5) by auto
  then show ?thesis using a(3) registered_range [OF assms(1), of fd] assms(3) by (auto simp: fun_eq_iff)
qed

end

section \<open>The kernel's interest set\<close>

text \<open>What the calls of \<^verbatim>\<open>epoll_ctl\<close> on one descriptor add up to.\<close>

fun interest :: "int \<Rightarrow> ae_log \<Rightarrow> int \<Rightarrow> int" where
  "interest ep [] = (\<lambda>fd. 0)"
| "interest ep (Asked q r # l) =
     (case q of
        EpollCtl p op fd ev \<Rightarrow>
          (if p = ep \<and> ar_ret r \<noteq> - 1 then (interest ep l)(fd := (if op = CtlDel then 0 else ev)) else interest ep l)
      | _ \<Rightarrow> interest ep l)"
| "interest ep (_ # l) = interest ep l"

text \<open>Changing or deleting a registered descriptor does not fail.\<close>

definition ctl_reliable :: "ae_env \<Rightarrow> bool" where
  "ctl_reliable e \<longleftrightarrow> (\<forall>l p op fd ev. op \<noteq> CtlAdd \<longrightarrow> interest p l fd \<noteq> 0 \<longrightarrow> ar_ret (ae_os e l (EpollCtl p op fd ev)) \<noteq> - 1)"

text \<open>The table is as long as its size says, its masks are sets of the two events, and \<^verbatim>\<open>maxfd\<close> is right.\<close>

definition table_ok :: "aeEventLoop \<Rightarrow> bool" where
  "table_ok el \<longleftrightarrow> 0 \<le> el_setsize el \<and> length (el_events el) = nat (el_setsize el)
     \<and> (\<forall>fe \<in> set (el_events el). fe_mask fe \<in> {0, 1, 2, 3})
     \<and> el_maxfd el = highest_below (el_events el) (length (el_events el))"

definition table_mask :: "aeEventLoop \<Rightarrow> int \<Rightarrow> int" where
  "table_mask el fd = (if 0 \<le> fd \<and> fd < el_setsize el then mask_of el fd else 0)"

definition in_step :: "aeEventLoop \<Rightarrow> ae_log \<Rightarrow> bool" where
  "in_step el l \<longleftrightarrow> table_ok el \<and> (\<forall>fd. interest (el_epfd el) l fd = ee_events (table_mask el fd))"

lemma ee_events_values [simp]: "ee_events 0 = 0" "ee_events 1 = 1" "ee_events 2 = 4" "ee_events 3 = 5"
  by (simp_all add: ee_events_def AE_READABLE_def AE_WRITABLE_def EPOLLIN_def EPOLLOUT_def)

lemma ee_events_zero: "m \<in> {0, 1, 2, 3} \<Longrightarrow> ee_events m = 0 \<longleftrightarrow> m = 0"
  by auto

lemma mask_or: "a \<in> {0, 1, 2, 3 :: int} \<Longrightarrow> b \<in> {0, 1, 2, 3} \<Longrightarrow> a OR b \<in> {0, 1, 2, 3}"
  by auto

lemma mask_clear: "a \<in> {0, 1, 2, 3 :: int} \<Longrightarrow> b \<in> {0, 1, 2, 3} \<Longrightarrow> a AND NOT b \<in> {0, 1, 2, 3}"
  by auto

lemma table_mask_range: "table_ok el \<Longrightarrow> table_mask el fd \<in> {0, 1, 2, 3}"
  by (auto simp: table_ok_def table_mask_def mask_of_def)

section \<open>The highest descriptor\<close>

definition is_highest :: "aeFileEvent list \<Rightarrow> nat \<Rightarrow> int \<Rightarrow> bool" where
  "is_highest evs n h \<longleftrightarrow> - 1 \<le> h \<and> h < int n \<and> (0 \<le> h \<longrightarrow> fe_mask (evs ! nat h) \<noteq> AE_NONE)
     \<and> (\<forall>j < n. h < int j \<longrightarrow> fe_mask (evs ! j) = AE_NONE)"

lemma highest_below_is_highest: "is_highest evs n (highest_below evs n)"
proof (induction n)
  case (Suc n)
  then show ?case by (auto simp: is_highest_def less_Suc_eq)
qed (simp add: is_highest_def)

lemma is_highest_le: "is_highest evs n h \<Longrightarrow> is_highest evs n h' \<Longrightarrow> h \<le> h'"
proof (rule ccontr)
  assume a: "is_highest evs n h" "is_highest evs n h'" "\<not> h \<le> h'"
  then have "0 \<le> h" "nat h < n" "h' < int (nat h)" by (auto simp: is_highest_def)
  then show False using a by (auto simp: is_highest_def)
qed

lemma highest_below_eq: "highest_below evs n = h \<longleftrightarrow> is_highest evs n h"
  using is_highest_le [OF highest_below_is_highest] is_highest_le [OF _ highest_below_is_highest] highest_below_is_highest
  by (metis order_antisym)


lemma highest_set:
  assumes "is_highest evs (length evs) h" "nat fd < length evs" "0 \<le> fd" "fe_mask fe \<noteq> AE_NONE"
  shows "is_highest (evs[nat fd := fe]) (length evs) (max h fd)"
  using assms by (auto simp: is_highest_def nth_list_update max_def)

lemma highest_unset:
  assumes "is_highest evs (length evs) h" "nat fd < length evs" "0 \<le> fd" "fe_mask (evs ! nat fd) \<noteq> AE_NONE"
  shows "is_highest (evs[nat fd := fe]) (length evs)
    (if fd = h \<and> fe_mask fe = AE_NONE then highest_below (evs[nat fd := fe]) (nat h) else h)"
proof (cases "fd = h \<and> fe_mask fe = AE_NONE")
  case True
  let ?evs = "evs[nat fd := fe]"
  have b: "is_highest ?evs (nat h) (highest_below ?evs (nat h))" by (rule highest_below_is_highest)
  have "fe_mask (?evs ! j) = AE_NONE" if "j < length evs" "nat h \<le> j" for j
  proof (cases "j = nat h")
    case True
    then show ?thesis using \<open>fd = h \<and> fe_mask fe = AE_NONE\<close> assms(2) by simp
  next
    case False
    then show ?thesis using that assms(1,3) True by (auto simp: is_highest_def)
  qed
  then have "\<forall>j < length evs. highest_below ?evs (nat h) < int j \<longrightarrow> fe_mask (?evs ! j) = AE_NONE"
    using b unfolding is_highest_def by (meson not_le)
  then have "is_highest ?evs (length evs) (highest_below ?evs (nat h))"
    using b assms(1) True assms(3) by (auto simp: is_highest_def)
  then show ?thesis using True by simp
next
  case False
  have "fd \<le> h" using assms by (auto simp: is_highest_def not_le)
  then show ?thesis using False assms by (auto simp: is_highest_def nth_list_update)
qed

section \<open>Registering and deleting\<close>

text \<open>The rest of the loop, which the registry does not touch.\<close>

definition same_rest :: "aeEventLoop \<Rightarrow> aeEventLoop \<Rightarrow> bool" where
  "same_rest el el' \<longleftrightarrow> el_setsize el' = el_setsize el \<and> el_timers el' = el_timers el \<and> el_epfd el' = el_epfd el
     \<and> el_timeEventNextId el' = el_timeEventNextId el \<and> el_lastTime el' = el_lastTime el"

lemma same_rest_refl [simp]: "same_rest el el" by (simp add: same_rest_def)

lemma set_event_maxfd [simp]: "el_maxfd (set_event fd fe el) = el_maxfd el" by (simp add: set_event_def)

lemma table_update:
  assumes ok: "table_ok el" and fd: "0 \<le> fd" "fd < el_setsize el" and fe: "fe_mask fe \<in> {0, 1, 2, 3}"
    and top: "is_highest ((el_events el)[nat fd := fe]) (length (el_events el)) t"
  shows "table_ok ((set_event fd fe el)\<lparr>el_maxfd := t\<rparr>) \<and> same_rest el ((set_event fd fe el)\<lparr>el_maxfd := t\<rparr>)
    \<and> table_mask ((set_event fd fe el)\<lparr>el_maxfd := t\<rparr>) = (table_mask el)(fd := fe_mask fe)"
proof -
  have "set ((el_events el)[nat fd := fe]) \<subseteq> insert fe (set (el_events el))" by (rule set_update_subset_insert)
  then have "\<forall>x \<in> set ((el_events el)[nat fd := fe]). fe_mask x \<in> {0, 1, 2, 3}" using ok fe unfolding table_ok_def by blast
  moreover have "highest_below ((el_events el)[nat fd := fe]) (length (el_events el)) = t"
    using top by (simp only: highest_below_eq)
  moreover have "nat fd < length (el_events el)" using ok fd by (simp add: table_ok_def)
  ultimately show ?thesis using ok fd
    by (auto simp: table_ok_def same_rest_def set_event_def table_mask_def mask_of_def fun_eq_iff nth_list_update)
qed

lemma create_spec:
  assumes s: "in_step el l" and fd: "0 \<le> fd" "fd < el_setsize el" and m: "m \<in> {1, 2, 3}"
  shows "\<exists>b el' l'. aeCreateFileEvent e fd m p d el l = Some (if b then AE_OK else AE_ERR, el', l') \<and> in_step el' l' \<and> same_rest el el'
    \<and> table_mask el' = (if b then (table_mask el)(fd := table_mask el fd OR m) else table_mask el)"
proof -
  let ?fe = "el_events el ! nat fd"
  let ?m = "fe_mask ?fe OR m"
  have ok: "table_ok el" and int: "\<And>x. interest (el_epfd el) l x = ee_events (table_mask el x)" using s by (auto simp: in_step_def)
  have len: "nat fd < length (el_events el)" using ok fd by (simp add: table_ok_def)
  then have range: "fe_mask ?fe \<in> {0, 1, 2, 3}" using ok by (simp add: table_ok_def)
  have tm: "table_mask el fd = fe_mask ?fe" using fd by (simp add: table_mask_def mask_of_def)
  have m': "?m \<in> {0, 1, 2, 3}" "?m \<noteq> AE_NONE" using range m by (auto simp: AE_NONE_def)
  let ?op = "if fe_mask ?fe = AE_NONE then CtlAdd else CtlMod"
  let ?q = "EpollCtl (el_epfd el) ?op fd (ee_events ?m)"
  let ?r = "ae_os e l ?q"
  have m_sym: "m OR fe_mask ?fe = ?m" by (rule or.commute)
  show ?thesis
  proof (cases "ar_ret ?r = - 1")
    case True
    then have "aeCreateFileEvent e fd m p d el l = Some (AE_ERR, el, Asked ?q ?r # l)"
      using fd by (simp add: aeCreateFileEvent_def aeApiAddEvent_def ask_def mask_of_def Let_def m_sym)
    moreover have "in_step el (Asked ?q ?r # l)" using ok int True by (simp add: in_step_def)
    ultimately show ?thesis by (intro exI [of _ False]) simp
  next
    case False
    let ?fe' = "(if m AND AE_WRITABLE \<noteq> 0 then (if m AND AE_READABLE \<noteq> 0 then ?fe\<lparr>fe_mask := ?m\<rparr>\<lparr>fe_rfileProc := Some p\<rparr> else ?fe\<lparr>fe_mask := ?m\<rparr>)\<lparr>fe_wfileProc := Some p\<rparr>
      else (if m AND AE_READABLE \<noteq> 0 then ?fe\<lparr>fe_mask := ?m\<rparr>\<lparr>fe_rfileProc := Some p\<rparr> else ?fe\<lparr>fe_mask := ?m\<rparr>))\<lparr>fe_clientData := d\<rparr>"
    have fe': "fe_mask ?fe' = ?m" by simp
    let ?top = "if fd > el_maxfd el then fd else el_maxfd el"
    let ?el = "(set_event fd ?fe' el)\<lparr>el_maxfd := ?top\<rparr>"
    have "is_highest (el_events el) (length (el_events el)) (el_maxfd el)"
      using ok highest_below_is_highest by (simp add: table_ok_def)
    from highest_set [OF this len fd(1), of ?fe'] m'(2) fe'
    have top: "is_highest ((el_events el)[nat fd := ?fe']) (length (el_events el)) ?top" by (simp add: max_def split: if_splits)
    have "fe_mask ?fe' \<in> {0, 1, 2, 3}" using fe' m'(1) by simp
    from table_update [OF ok fd this top] have t: "table_ok ?el" "same_rest el ?el" "table_mask ?el = (table_mask el)(fd := ?m)"
      unfolding fe' by blast+
    have "aeCreateFileEvent e fd m p d el l = Some (AE_OK, ?el, Asked ?q ?r # l)"
      using fd False by (simp add: aeCreateFileEvent_def aeApiAddEvent_def ask_def mask_of_def Let_def m_sym set_event_def)
    moreover have "in_step ?el (Asked ?q ?r # l)"
      using t int False unfolding in_step_def by (auto simp: same_rest_def)
    ultimately show ?thesis using t by (intro exI [of _ True]) (simp add: tm)
  qed
qed


lemma delete_spec:
  assumes e: "ctl_reliable e" and s: "in_step el l" and fd: "0 \<le> fd" "fd < el_setsize el" and m: "m \<in> {1, 2, 3}"
  shows "\<exists>el' l'. aeDeleteFileEvent e fd m el l = Some (el', l') \<and> in_step el' l' \<and> same_rest el el'
    \<and> table_mask el' = (table_mask el)(fd := table_mask el fd AND NOT m)"
proof -
  let ?fe = "el_events el ! nat fd"
  let ?m = "fe_mask ?fe AND NOT m"
  have ok: "table_ok el" and int: "\<And>x. interest (el_epfd el) l x = ee_events (table_mask el x)" using s by (auto simp: in_step_def)
  have len: "nat fd < length (el_events el)" using ok fd by (simp add: table_ok_def)
  then have range: "fe_mask ?fe \<in> {0, 1, 2, 3}" using ok by (simp add: table_ok_def)
  have tm: "table_mask el fd = fe_mask ?fe" using fd by (simp add: table_mask_def mask_of_def)
  show ?thesis
  proof (cases "fe_mask ?fe = AE_NONE")
    case True
    then have "aeDeleteFileEvent e fd m el l = Some (el, l)" using fd by (simp add: aeDeleteFileEvent_def)
    moreover have "(table_mask el)(fd := table_mask el fd AND NOT m) = table_mask el"
      using True tm by (auto simp: AE_NONE_def fun_eq_iff)
    ultimately show ?thesis using s by simp
  next
    case False
    let ?op = "if ?m \<noteq> AE_NONE then CtlMod else CtlDel"
    let ?q = "EpollCtl (el_epfd el) ?op fd (ee_events ?m)"
    let ?r = "ae_os e l ?q"
    have m': "?m \<in> {0, 1, 2, 3}" using mask_clear [OF range] m by blast
    have "interest (el_epfd el) l fd \<noteq> 0" using int [of fd] tm False ee_events_zero [OF range] by (simp add: AE_NONE_def)
    then have kept: "ar_ret ?r \<noteq> - 1" using e by (simp add: ctl_reliable_def)
    let ?fe' = "?fe\<lparr>fe_mask := ?m\<rparr>"
    let ?evs = "(el_events el)[nat fd := ?fe']"
    let ?top = "if fd = el_maxfd el \<and> ?m = AE_NONE then highest_below ?evs (nat (el_maxfd el)) else el_maxfd el"
    let ?el = "(set_event fd ?fe' el)\<lparr>el_maxfd := ?top\<rparr>"
    have "is_highest (el_events el) (length (el_events el)) (el_maxfd el)"
      using ok highest_below_is_highest by (simp add: table_ok_def)
    from highest_unset [OF this len fd(1) False, of ?fe']
    have top: "is_highest ?evs (length (el_events el)) ?top" by simp
    have "fe_mask ?fe' \<in> {0, 1, 2, 3}" using m' by simp
    from table_update [OF ok fd this top] have t: "table_ok ?el" "same_rest el ?el" "table_mask ?el = (table_mask el)(fd := ?m)"
      by simp_all
    have log: "aeApiDelEvent e el fd m l = Asked ?q ?r # l"
      by (simp add: aeApiDelEvent_def ask_def mask_of_def Let_def)
    have "aeDeleteFileEvent e fd m el l = Some (?el, Asked ?q ?r # l)"
    proof (cases "fd = el_maxfd el \<and> ?m = AE_NONE")
      case True
      then show ?thesis using fd False log by (simp add: aeDeleteFileEvent_def Let_def set_event_def)
    next
      case other: False
      have "?el = set_event fd ?fe' el" unfolding if_not_P [OF other] by (simp add: set_event_def)
      moreover have "aeDeleteFileEvent e fd m el l = Some (set_event fd ?fe' el, Asked ?q ?r # l)"
        using fd False log other by (auto simp: aeDeleteFileEvent_def Let_def)
      ultimately show ?thesis by simp
    qed
    moreover have "in_step ?el (Asked ?q ?r # l)"
      using t int kept unfolding in_step_def by (auto simp: same_rest_def AE_NONE_def)
    ultimately show ?thesis using t by (simp add: tm)
  qed
qed

section \<open>The loop provides the interface\<close>

text \<open>A descriptor is a member when the loop is large enough for it.\<close>

definition loop_member :: "aeEventLoop \<times> ae_log \<Rightarrow> int \<Rightarrow> bool" where
  "loop_member s fd \<longleftrightarrow> 0 \<le> fd \<and> fd < el_setsize (fst s)"

definition loop_add :: "ae_env \<Rightarrow> int \<Rightarrow> int \<Rightarrow> nat \<Rightarrow> nat \<Rightarrow> aeEventLoop \<times> ae_log \<Rightarrow> (bool \<times> aeEventLoop \<times> ae_log) option" where
  "loop_add e fd m p d s = map_option (\<lambda>(st, s). (st = AE_OK, s)) (aeCreateFileEvent e fd m p d (fst s) (snd s))"

definition loop_del :: "ae_env \<Rightarrow> int \<Rightarrow> int \<Rightarrow> aeEventLoop \<times> ae_log \<Rightarrow> (aeEventLoop \<times> ae_log) option" where
  "loop_del e fd m s = aeDeleteFileEvent e fd m (fst s) (snd s)"

definition loop_valid :: "ae_env \<Rightarrow> aeEventLoop \<times> ae_log \<Rightarrow> bool" where
  "loop_valid e s \<longleftrightarrow> ctl_reliable e \<and> in_step (fst s) (snd s)"

interpretation loop: event_registry "loop_valid e" loop_member "\<lambda>s. table_mask (fst s)" "loop_add e" "loop_del e" for e
proof unfold_locales
  fix s fd m p d
  assume v: "loop_valid e s" and a: "loop_member s fd" "m \<in> {1, 2, 3 :: int}"
  obtain b el' l' where c: "aeCreateFileEvent e fd m p d (fst s) (snd s) = Some (if b then AE_OK else AE_ERR, el', l')"
    "in_step el' l'" "same_rest (fst s) el'"
    "table_mask el' = (if b then (table_mask (fst s))(fd := table_mask (fst s) fd OR m) else table_mask (fst s))"
    using create_spec [of "fst s" "snd s" fd m e p d] v a by (auto simp: loop_member_def loop_valid_def)
  have "loop_add e fd m p d s = Some (b, el', l')" using c(1) by (simp add: loop_add_def ae_codes)
  then show "\<exists>b s'. loop_add e fd m p d s = Some (b, s') \<and> loop_valid e s' \<and> loop_member s' = loop_member s
      \<and> table_mask (fst s') = (if b then (table_mask (fst s))(fd := table_mask (fst s) fd OR m) else table_mask (fst s))"
    using c(2-4) v by (intro exI [of _ b] exI [of _ "(el', l')"]) (auto simp: loop_member_def loop_valid_def same_rest_def fun_eq_iff)
next
  fix s fd m
  assume v: "loop_valid e s" and a: "loop_member s fd" "m \<in> {1, 2, 3 :: int}"
  obtain el' l' where c: "aeDeleteFileEvent e fd m (fst s) (snd s) = Some (el', l')" "in_step el' l'"
    "same_rest (fst s) el'" "table_mask el' = (table_mask (fst s))(fd := table_mask (fst s) fd AND NOT m)"
    using delete_spec [of e "fst s" "snd s" fd m] v a by (auto simp: loop_member_def loop_valid_def)
  then show "\<exists>s'. loop_del e fd m s = Some s' \<and> loop_valid e s' \<and> loop_member s' = loop_member s
      \<and> table_mask (fst s') = (table_mask (fst s))(fd := table_mask (fst s) fd AND NOT m)"
    using v by (intro exI [of _ "(el', l')"]) (auto simp: loop_member_def loop_valid_def loop_del_def same_rest_def fun_eq_iff)
next
  fix s fd
  assume "loop_valid e s"
  then show "table_mask (fst s) fd \<in> {0, 1, 2, 3}" using table_mask_range by (simp add: loop_valid_def in_step_def)
qed


section \<open>Whatever the handlers do\<close>

text \<open>A handler's call names a descriptor and a nonempty set of the two events.\<close>

fun sensible :: "loop_action \<Rightarrow> bool" where
  "sensible (CreateFile fd m p d) \<longleftrightarrow> 0 \<le> fd \<and> m \<in> {1, 2, 3}"
| "sensible (DeleteFile fd m) \<longleftrightarrow> 0 \<le> fd \<and> m \<in> {1, 2, 3}"
| "sensible _ \<longleftrightarrow> True"

definition sensible_env :: "ae_env \<Rightarrow> bool" where
  "sensible_env e \<longleftrightarrow> ctl_reliable e \<and> (\<forall>n. ae_mem e n) \<and> (\<forall>l. \<forall>x \<in> set (fst (ae_client e l)). sensible x)"

lemma ask_eq: "ask e q l = (ae_os e l q, Asked q (ae_os e l q) # l)"
  by (simp add: ask_def Let_def)

lemma in_step_ask: "(\<forall>p op fd ev. q \<noteq> EpollCtl p op fd ev) \<Longrightarrow> in_step el (snd (ask e q l)) = in_step el l"
  by (cases q) (simp_all add: in_step_def ask_eq)

lemma in_step_log: "(\<forall>q r. x \<noteq> Asked q r) \<Longrightarrow> in_step el (x # l) = in_step el l"
  by (cases x) (simp_all add: in_step_def)

lemma in_step_rest [simp]:
  "in_step (el\<lparr>el_timers := t\<rparr>) l = in_step el l" "in_step (el\<lparr>el_timeEventNextId := i\<rparr>) l = in_step el l"
  "in_step (el\<lparr>el_lastTime := i\<rparr>) l = in_step el l" "in_step (el\<lparr>el_stop := b\<rparr>) l = in_step el l"
  "in_step (el\<lparr>el_fired := f\<rparr>) l = in_step el l"
  by (simp_all add: in_step_def table_ok_def table_mask_def mask_of_def)

lemma aeGetTime_in_step: "aeGetTime e l = (s, ms, l') \<Longrightarrow> in_step el l' = in_step el l"
  using in_step_ask [of Gettimeofday el e l] by (auto simp: aeGetTime_def ask_eq)

lemma aeAddMillisecondsToNow_in_step: "aeAddMillisecondsToNow e n l = (s, ms, l') \<Longrightarrow> in_step el l' = in_step el l"
  using aeGetTime_in_step by (fastforce simp: aeAddMillisecondsToNow_def Let_def split: prod.splits if_splits)

lemma aeDeleteTimeEvent_in_step: "aeDeleteTimeEvent i el l = (st, el', l') \<Longrightarrow> in_step el' l' = in_step el l"
  by (auto simp: aeDeleteTimeEvent_def in_step_log split: option.splits prod.splits)

lemma perform_action_in_step:
  assumes e: "ctl_reliable e" and s: "in_step el l" and x: "sensible x" and r: "perform_action e x el l = Some (el', l')"
  shows "in_step el' l'"
proof (cases x)
  case (CreateFile fd m p d)
  show ?thesis
  proof (cases "fd \<ge> el_setsize el")
    case True
    then show ?thesis using r s CreateFile by (auto simp: aeCreateFileEvent_def)
  next
    case False
    then show ?thesis using create_spec [OF s, of fd m e p d] x r CreateFile by fastforce
  qed
next
  case (DeleteFile fd m)
  show ?thesis
  proof (cases "fd \<ge> el_setsize el")
    case True
    then show ?thesis using r s DeleteFile by (auto simp: aeDeleteFileEvent_def)
  next
    case False
    then show ?thesis using delete_spec [OF e s, of fd m] x r DeleteFile by fastforce
  qed
next
  case (CreateTimer ms p d f)
  then show ?thesis using r s aeAddMillisecondsToNow_in_step
    by (fastforce simp: aeCreateTimeEvent_def Let_def split: if_splits prod.splits)
next
  case (DeleteTimer i)
  then show ?thesis using r s aeDeleteTimeEvent_in_step by (cases "aeDeleteTimeEvent i el l") auto
next
  case StopLoop
  then show ?thesis using r s by (auto simp: aeStop_def)
qed

lemma perform_actions_in_step:
  "ctl_reliable e \<Longrightarrow> \<forall>x \<in> set xs. sensible x \<Longrightarrow> in_step el l \<Longrightarrow> perform_actions e xs el l = Some (el', l') \<Longrightarrow> in_step el' l'"
  by (induction xs arbitrary: el l) (auto split: option.splits dest: perform_action_in_step)

lemma handler_in_step:
  assumes "sensible_env e" "in_step el l" "\<forall>q r. x \<noteq> Asked q r" "handler e x el l = Some (v, el', l')"
  shows "in_step el' l'"
proof -
  obtain as ret where c: "ae_client e (x # l) = (as, ret)" by (cases "ae_client e (x # l)")
  then have p: "perform_actions e as el (x # l) = Some (el', l')" using assms(4) by (auto simp: handler_def Let_def)
  have "ctl_reliable e" "\<forall>y \<in> set as. sensible y" using assms(1) c unfolding sensible_env_def by (metis fst_conv)+
  moreover have "in_step el (x # l)" using in_step_log [OF assms(3)] assms(2) by simp
  ultimately show ?thesis using perform_actions_in_step p by blast
qed

lemma handlers_in_step:
  assumes "sensible_env e" "in_step el l"
  shows "handler e (ReadProc p fd d m) el l = Some (v, el', l') \<Longrightarrow> in_step el' l'"
    "handler e (WriteProc p fd d m) el l = Some (v, el', l') \<Longrightarrow> in_step el' l'"
    "handler e (TimeProc p i d) el l = Some (v, el', l') \<Longrightarrow> in_step el' l'"
  using handler_in_step [OF assms] by blast+

lemma fire_loop_in_step:
  assumes e: "sensible_env e"
  shows "in_step el l \<Longrightarrow> fire_loop e fired n el l = Some (n', el', l') \<Longrightarrow> in_step el' l'"
proof (induction fired arbitrary: n el l)
  case (Cons f fired)
  obtain fd m where f: "f = (fd, m)" by (cases f)
  let ?fe = "el_events el ! nat fd"
  let ?r = "fe_mask ?fe AND m AND AE_READABLE \<noteq> 0"
  obtain v1 el1 l1 where a: "(if ?r then Option.bind (fe_rfileProc ?fe) (\<lambda>p. handler e (ReadProc p fd (fe_clientData ?fe) m) el l) else Some (0, el, l))
      = Some (v1, el1, l1)"
    "Option.bind (if fe_mask (el_events el1 ! nat fd) AND m AND AE_WRITABLE \<noteq> 0
          \<and> (\<not> ?r \<or> fe_wfileProc (el_events el1 ! nat fd) \<noteq> fe_rfileProc (el_events el1 ! nat fd)) then
        Option.bind (fe_wfileProc (el_events el1 ! nat fd)) (\<lambda>p. handler e (WriteProc p fd (fe_clientData (el_events el1 ! nat fd)) m) el1 l1)
      else Some (0, el1, l1)) (\<lambda>(_, el, l). fire_loop e fired (n + 1) el l) = Some (n', el', l')"
    using Cons.prems(2) unfolding f by (auto simp: Let_def bind_eq_Some_conv split: if_splits)
  have 1: "in_step el1 l1" using a(1) Cons.prems(1) handlers_in_step(1) [OF e] by (auto simp: bind_eq_Some_conv split: if_splits)
  obtain v2 el2 l2 where b: "(if fe_mask (el_events el1 ! nat fd) AND m AND AE_WRITABLE \<noteq> 0
          \<and> (\<not> ?r \<or> fe_wfileProc (el_events el1 ! nat fd) \<noteq> fe_rfileProc (el_events el1 ! nat fd)) then
        Option.bind (fe_wfileProc (el_events el1 ! nat fd)) (\<lambda>p. handler e (WriteProc p fd (fe_clientData (el_events el1 ! nat fd)) m) el1 l1)
      else Some (0, el1, l1)) = Some (v2, el2, l2)" "fire_loop e fired (n + 1) el2 l2 = Some (n', el', l')"
    using a(2) by (auto simp: bind_eq_Some_conv)
  have "in_step el2 l2" using b(1) 1 handlers_in_step(2) [OF e] by (auto simp: bind_eq_Some_conv split: if_splits)
  then show ?case using Cons.IH b(2) by blast
qed simp


lemma run_timer_in_step:
  assumes e: "sensible_env e" and s: "in_step el l" and r: "run_timer e te el l = Some (el', l')"
  shows "in_step el' l'"
proof -
  obtain v el1 l1 where h: "handler e (TimeProc (te_timeProc te) (te_id te) (te_clientData te)) el l = Some (v, el1, l1)"
    using r by (auto simp: run_timer_def split: option.splits)
  have 1: "in_step el1 l1" by (rule handlers_in_step(3) [OF e s h])
  obtain st el2 l2 where d: "aeDeleteTimeEvent (te_id te) el1 l1 = (st, el2, l2)" by (cases "aeDeleteTimeEvent (te_id te) el1 l1")
  obtain a b l3 where t: "aeAddMillisecondsToNow e v l1 = (a, b, l3)" by (cases "aeAddMillisecondsToNow e v l1")
  show ?thesis
  proof (cases "v = AE_NOMORE")
    case True
    then have "el' = el2" "l' = l2" using r h d by (simp_all add: run_timer_def)
    then show ?thesis using 1 aeDeleteTimeEvent_in_step [OF d] by simp
  next
    case False
    then have "el' = el1\<lparr>el_timers := set_when (te_id te) (a, b) (el_timers el1)\<rparr>" "l' = l3"
      using r h t by (simp_all add: run_timer_def split: if_splits)
    then show ?thesis using 1 aeAddMillisecondsToNow_in_step [OF t] by simp
  qed
qed

lemma time_loop_in_step:
  "time_loop e k rest n el l = Some r \<Longrightarrow> sensible_env e \<Longrightarrow> in_step el l \<Longrightarrow> in_step (fst (snd r)) (snd (snd r))"
proof (induction rule: time_loop.raw_induct [rotated, consumes 1])
  case (1 loop e k rest n el l r)
  note IH = 1(1) and res = 1(2) and e = 1(3) and s = 1(4)
  show ?case
  proof (cases rest)
    case Nil
    then show ?thesis using res s by auto
  next
    case (Cons te tes)
    obtain sec ms l1 where g: "aeGetTime e l = (sec, ms, l1)" by (cases "aeGetTime e l") auto
    then have s1: "in_step el l1" using aeGetTime_in_step s by simp
    obtain rn rel rl where r: "r = (rn, rel, rl)" by (cases r)
    consider "te_id te > k" | "te_id te \<le> k" "\<not> due sec ms te" | "te_id te \<le> k" "due sec ms te" by linarith
    then show ?thesis
    proof cases
      case 1
      then have "loop e k tes n el l = Some r" using res Cons by simp
      then show ?thesis using IH e s by blast
    next
      case 2
      then have "loop e k tes n el l1 = Some r" using res Cons g by simp
      then show ?thesis using IH e s1 by blast
    next
      case 3
      then obtain el2 l2 where t: "run_timer e te el l1 = Some (el2, l2)" "loop e k (el_timers el2) (n + 1) el2 l2 = Some r"
        using res Cons g by (auto simp: bind_eq_Some_conv)
      show ?thesis using IH [OF t(2) e run_timer_in_step [OF e s1 t(1)]] .
    qed
  qed
qed

lemma maxfd_bounds:
  assumes "table_ok el"
  shows "table_mask el fd \<noteq> 0 \<Longrightarrow> fd \<le> el_maxfd el" "0 \<le> el_maxfd el \<Longrightarrow> table_mask el (el_maxfd el) \<noteq> 0"
proof -
  have h: "is_highest (el_events el) (length (el_events el)) (el_maxfd el)"
    using assms highest_below_is_highest by (simp add: table_ok_def)
  show "fd \<le> el_maxfd el" if "table_mask el fd \<noteq> 0"
  proof (rule ccontr)
    assume "\<not> fd \<le> el_maxfd el"
    moreover have "0 \<le> fd" "fd < el_setsize el" "fe_mask (el_events el ! nat fd) \<noteq> 0"
      using that by (auto simp: table_mask_def mask_of_def split: if_splits)
    moreover have "nat fd < length (el_events el)" using assms calculation by (simp add: table_ok_def)
    moreover have "\<forall>j < length (el_events el). el_maxfd el < int j \<longrightarrow> fe_mask (el_events el ! j) = 0"
      using h by (simp add: is_highest_def AE_NONE_def)
    ultimately show False by (metis int_nat_eq not_le)
  qed
  show "table_mask el (el_maxfd el) \<noteq> 0" if "0 \<le> el_maxfd el"
    using that h assms by (simp add: is_highest_def table_mask_def mask_of_def AE_NONE_def table_ok_def)
qed

text \<open>C22. The registry stays in step: whatever the handlers called by a round of \<^verbatim>\<open>aeProcessEvents\<close> register,
  delete, schedule or stop, afterwards the kernel's interest set is, for every descriptor, exactly
  what the loop's table says, \<^verbatim>\<open>maxfd\<close> is the highest descriptor with an event, and the masks hold
  no other bits.\<close>

theorem registry_stays_in_step:
  assumes "sensible_env e" "in_step el l" "aeProcessEvents e flags el l = Some (n, el', l')"
  shows "interest (el_epfd el') l' fd = ee_events (table_mask el' fd) \<and> table_mask el' fd \<in> {0, 1, 2, 3}
    \<and> (table_mask el' fd \<noteq> 0 \<longrightarrow> fd \<le> el_maxfd el') \<and> (0 \<le> el_maxfd el' \<longrightarrow> table_mask el' (el_maxfd el') \<noteq> 0)"
proof -
  have wait: "in_step el' l' = in_step el' l''" if "wait_time e flags x l'' = (tv, l')" for tv l' l'' x el'
    using that aeGetTime_in_step by (fastforce simp: wait_time_def Let_def split: option.splits prod.splits if_splits)
  have poll: "in_step el' l' = in_step el l" if "aeApiPoll e tv el l = (m, el', l')" for tv el l m el' l'
  proof -
    have "in_step el (Asked (EpollWait a b c) r # l) = in_step el l" for a b c r by (simp add: in_step_def)
    then show ?thesis using that by (auto simp: aeApiPoll_def ask_eq Let_def split: if_splits)
  qed
  have times: "in_step el' l'" if "processTimeEvents e el l = Some (m, el', l')" "in_step el l" for m el l el' l'
  proof -
    let ?t = "ae_os e l Time"
    let ?el = "(if ar_ret ?t < el_lastTime el then el\<lparr>el_timers := map (\<lambda>te. te\<lparr>te_when_sec := 0\<rparr>) (el_timers el)\<rparr> else el)\<lparr>el_lastTime := ar_ret ?t\<rparr>"
    have "in_step ?el (Asked Time ?t # l)" using in_step_ask [of Time el e l] that(2) by (simp add: ask_eq)
    moreover have "time_loop e (el_timeEventNextId ?el - 1) (el_timers ?el) 0 ?el (Asked Time ?t # l) = Some (m, el', l')"
      using that(1) unfolding processTimeEvents_def ask_eq Let_def prod.case .
    ultimately show ?thesis using time_loop_in_step [OF _ assms(1)] by fastforce
  qed
  have fire: "in_step el1 l1" if "in_step el0 l0" "(if b then let (tvp, l) = wait_time e flags el0 l0; (numevents, el, l) = aeApiPoll e tvp el0 l in
             fire_loop e (take numevents (el_fired el)) 0 el l else Some (0, el0, l0)) = Some (m, el1, l1)" for b el0 l0 m el1 l1
  proof (cases b)
    case True
    obtain tv l2 where w: "wait_time e flags el0 l0 = (tv, l2)" by (cases "wait_time e flags el0 l0")
    obtain k el3 l3 where p: "aeApiPoll e tv el0 l2 = (k, el3, l3)" by (cases "aeApiPoll e tv el0 l2") auto
    have "in_step el3 l3" using poll [OF p] wait [OF w] that(1) by simp
    then show ?thesis using fire_loop_in_step [OF assms(1)] that(2) True w p by auto
  qed (use that in auto)
  have s: "in_step el' l'"
  proof (cases "flags AND AE_TIME_EVENTS = 0 \<and> flags AND AE_FILE_EVENTS = 0")
    case True
    then show ?thesis using assms(2,3) by (simp add: aeProcessEvents_def)
  next
    case False
    let ?b = "el_maxfd el \<noteq> - 1 \<or> (flags AND AE_TIME_EVENTS \<noteq> 0 \<and> flags AND AE_DONT_WAIT = 0)"
    obtain m el1 l1 where f: "(if ?b then let (tvp, l) = wait_time e flags el l; (numevents, el, l) = aeApiPoll e tvp el l in
             fire_loop e (take numevents (el_fired el)) 0 el l else Some (0, el, l)) = Some (m, el1, l1)"
      "(if flags AND AE_TIME_EVENTS \<noteq> 0 then map_option (\<lambda>(n, el, l). (m + n, el, l)) (processTimeEvents e el1 l1)
        else Some (m, el1, l1)) = Some (n, el', l')"
      using assms(3) unfolding aeProcessEvents_def if_not_P [OF False] by (auto simp: bind_eq_Some_conv)
    then show ?thesis using times fire [OF assms(2) f(1)] by (auto split: if_splits)
  qed
  then have "table_ok el'" by (simp add: in_step_def)
  then show ?thesis using s maxfd_bounds table_mask_range by (auto simp: in_step_def)
qed


text \<open>
  A small world for examples: the clock stands at 100 s, every request is done, and one read event is
  reported for descriptor 5.
\<close>

definition small_world :: "(ae_log \<Rightarrow> loop_action list \<times> int) \<Rightarrow> ae_env" where
  "small_world client = \<lparr>ae_os = (\<lambda>l q. case q of
       EpollWait a b c \<Rightarrow> \<lparr>ar_ret = 1, ar_sec = 0, ar_usec = 0, ar_ready = [(5, EPOLLIN)]\<rparr>
     | _ \<Rightarrow> \<lparr>ar_ret = 100, ar_sec = 100, ar_usec = 0, ar_ready = []\<rparr>),
     ae_mem = (\<lambda>n. True), ae_client = client\<rparr>"

text \<open>A read handler that turns to writing.\<close>

definition turn_around :: "ae_log \<Rightarrow> loop_action list \<times> int" where
  "turn_around l = (case l of
     ReadProc p fd d m # _ \<Rightarrow> ([DeleteFile 5 AE_READABLE, CreateFile 5 AE_WRITABLE 2 d], 0) | _ \<Rightarrow> ([], AE_NOMORE))"

lemma small_world_sensible: "sensible_env (small_world turn_around)"
  by (auto simp: sensible_env_def ctl_reliable_def small_world_def turn_around_def AE_READABLE_def AE_WRITABLE_def split: list.split ae_event.split)

definition example_loop :: aeEventLoop where
  "example_loop = \<lparr>el_maxfd = 5, el_setsize = 8, el_timeEventNextId = 0, el_lastTime = 100,
     el_events = (replicate 8 unset_event)[5 := \<lparr>fe_mask = 1, fe_rfileProc = Some 1, fe_wfileProc = None, fe_clientData = 0\<rparr>],
     el_fired = replicate 8 (0, 0), el_timers = [], el_stop = False, el_epfd = 100, el_beforesleep = None\<rparr>"

definition example_log :: ae_log where
  "example_log = [Asked (EpollCtl 100 CtlAdd 5 1) \<lparr>ar_ret = 0, ar_sec = 0, ar_usec = 0, ar_ready = []\<rparr>]"

lemma example_in_step: "in_step example_loop example_log"
proof -
  show ?thesis
    by (auto simp: in_step_def table_ok_def table_mask_def mask_of_def example_loop_def example_log_def unset_event_def AE_NONE_def
      numeral_eq_Suc nth_Cons split: nat.splits)
qed

theorem registry_stays_in_step_witness:
  "\<exists>n el' l'. aeProcessEvents (small_world turn_around) AE_ALL_EVENTS example_loop example_log = Some (n, el', l')
     \<and> interest (el_epfd el') l' 5 = EPOLLOUT"
proof -
  have "case aeProcessEvents (small_world turn_around) AE_ALL_EVENTS example_loop example_log of
      None \<Rightarrow> False | Some (n, el', l') \<Rightarrow> table_mask el' 5 = AE_WRITABLE" by code_simp
  then obtain n el' l' where r: "aeProcessEvents (small_world turn_around) AE_ALL_EVENTS example_loop example_log = Some (n, el', l')"
    "table_mask el' 5 = AE_WRITABLE" by (auto split: option.splits)
  from registry_stays_in_step [OF small_world_sensible example_in_step r(1), of 5] r
  show ?thesis by (simp add: AE_WRITABLE_def EPOLLOUT_def)
qed

end
