(* ===== verification/AeTimers.thy ===== *)
theory AeTimers
  imports AeRegistry
begin

unbundle bit_operations_syntax

text \<open>
  The timers of the event loop: how long it sleeps, which timers a round runs, and the timer that
  keeps a round from ending.
\<close>

section \<open>How long the loop sleeps\<close>

definition time_of :: "ae_res \<Rightarrow> int \<times> int" where
  "time_of r = (ar_sec r, ar_usec r sdiv 1000)"

definition in_ms :: "int \<times> int \<Rightarrow> int" where
  "in_ms t = fst t * 1000 + snd t"

definition now :: "ae_env \<Rightarrow> ae_log \<Rightarrow> int \<times> int" where
  "now e l = time_of (ae_os e l Gettimeofday)"

definition fires_at :: "aeTimeEvent \<Rightarrow> int" where
  "fires_at te = in_ms (te_when_sec te, te_when_ms te)"

definition normal :: "aeTimeEvent \<Rightarrow> bool" where
  "normal te \<longleftrightarrow> 0 \<le> te_when_ms te \<and> te_when_ms te < 1000"

lemma aeGetTime_now: "aeGetTime e l = (fst (now e l), snd (now e l), Asked Gettimeofday (ae_os e l Gettimeofday) # l)"
  by (simp add: aeGetTime_def ask_eq now_def time_of_def)

lemma earlier_fires: "normal a \<Longrightarrow> normal b \<Longrightarrow> earlier a b \<longleftrightarrow> fires_at a < fires_at b"
  by (auto simp: normal_def earlier_def fires_at_def in_ms_def)

lemma nearest_fold:
  "foldl (\<lambda>nearest te. case nearest of None \<Rightarrow> Some te | Some n \<Rightarrow> if earlier te n then Some te else Some n) (Some a) tes = r \<Longrightarrow>
    \<forall>x \<in> set (a # tes). normal x \<Longrightarrow> \<exists>n. r = Some n \<and> n \<in> set (a # tes) \<and> (\<forall>x \<in> set (a # tes). fires_at n \<le> fires_at x)"
proof (induction tes arbitrary: a)
  case (Cons t tes)
  let ?b = "if earlier t a then t else a"
  have b: "fires_at ?b \<le> fires_at t" "fires_at ?b \<le> fires_at a" "normal ?b"
    using Cons.prems(2) earlier_fires [of t a] by auto
  have step: "foldl (\<lambda>nearest te. case nearest of None \<Rightarrow> Some te | Some n \<Rightarrow> if earlier te n then Some te else Some n) (Some ?b) tes = r"
    using Cons.prems(1) by (simp add: if_distrib)
  have "\<forall>x \<in> set (?b # tes). normal x" using Cons.prems(2) b(3) by simp
  from Cons.IH [OF step this] obtain n where n: "r = Some n" "n \<in> set (?b # tes)" "\<forall>x \<in> set (?b # tes). fires_at n \<le> fires_at x"
    by blast
  have "fires_at n \<le> fires_at ?b" using n(3) by simp
  then have "fires_at n \<le> fires_at t" "fires_at n \<le> fires_at a" using b by linarith+
  then show ?case using n by (auto split: if_splits)
qed simp

lemma nearest_timer:
  assumes "el_timers el \<noteq> []" "\<forall>te \<in> set (el_timers el). normal te"
  shows "\<exists>n. aeSearchNearestTimer el = Some n \<and> n \<in> set (el_timers el) \<and> (\<forall>te \<in> set (el_timers el). fires_at n \<le> fires_at te)"
proof -
  obtain a tes where t: "el_timers el = a # tes" using assms(1) by (cases "el_timers el") auto
  show ?thesis using nearest_fold [OF refl, of a tes] assms(2) unfolding aeSearchNearestTimer_def t by simp
qed

text \<open>The timeout of a wait of \<open>d\<close> milliseconds as it is computed: an overdue timer wraps.\<close>

definition sleep_of :: "int \<Rightarrow> int" where
  "sleep_of d = (if 0 \<le> d then d else d mod 1000)"

lemma sleep_of_digits:
  assumes "0 \<le> m" "m < 1000"
  shows "sleep_of (q * 1000 + m) = (if q < 0 then 0 else q) * 1000 + m"
proof -
  have "(q * 1000 + m) mod 1000 = m" using assms by simp
  moreover have "q < 0 \<Longrightarrow> q * 1000 + m < 0" "0 \<le> q \<Longrightarrow> 0 \<le> q * 1000 + m" using assms by linarith+
  ultimately show ?thesis by (auto simp: sleep_of_def not_less)
qed

lemma sdiv_1000: "0 \<le> k \<Longrightarrow> (k * 1000) sdiv 1000 = (k :: int)"
  by (cases "k = 0") (simp_all add: signed_divide_int_def sgn_mult)

lemma wait_for_nearest:
  assumes f: "flags AND AE_TIME_EVENTS \<noteq> 0" "flags AND AE_DONT_WAIT = 0" and n: "aeSearchNearestTimer el = Some te" "normal te"
    and ms: "0 \<le> snd (now e l)" "snd (now e l) < 1000"
  shows "\<exists>s us. wait_time e flags el l = (Some (s, us), Asked Gettimeofday (ae_os e l Gettimeofday) # l)
    \<and> s * 1000 + us sdiv 1000 = sleep_of (fires_at te - in_ms (now e l))"
proof -
  let ?ns = "fst (now e l)" and ?nm = "snd (now e l)"
  let ?q = "if te_when_ms te < ?nm then te_when_sec te - ?ns - 1 else te_when_sec te - ?ns"
  let ?m = "if te_when_ms te < ?nm then te_when_ms te + 1000 - ?nm else te_when_ms te - ?nm"
  have m: "0 \<le> ?m" "?m < 1000" using ms n(2) by (auto simp: normal_def)
  have d: "fires_at te - in_ms (now e l) = ?q * 1000 + ?m" by (simp add: fires_at_def in_ms_def)
  have "wait_time e flags el l = (Some (if ?q < 0 then 0 else ?q, ?m * 1000), Asked Gettimeofday (ae_os e l Gettimeofday) # l)"
    using f n ms by (cases "te_when_ms te < ?nm") (simp_all add: wait_time_def aeGetTime_now Let_def normal_def)
  then show ?thesis using sleep_of_digits [OF m] sdiv_1000 [OF m(1)] unfolding d by auto
qed

text \<open>C33. The sleep of a round is computed from the nearest timer: when the loop waits for events while a
  timer is pending, \<^verbatim>\<open>epoll_wait\<close> is called with exactly the milliseconds that remain until the
  earliest timer, if it lies ahead by less than 2^31 ms. If that timer is already overdue, the
  timeout is not 0 but the overdue time modulo a second: the loop may sleep 999 ms too long.\<close>

theorem sleep_until_nearest_timer:
  assumes "flags AND AE_TIME_EVENTS \<noteq> 0" "flags AND AE_DONT_WAIT = 0" "el_timers el \<noteq> []" "\<forall>te \<in> set (el_timers el). normal te"
    and "0 \<le> snd (now e l)" "snd (now e l) < 1000"
    and d: "d = Min (fires_at ` set (el_timers el)) - in_ms (now e l)" "d < 2 ^ 31"
    and "wait_time e flags el l = (tv, l')" "aeApiPoll e tv el l' = (k, el', l'')"
  shows "\<exists>r. l'' = Asked (EpollWait (el_epfd el) (el_setsize el) (if 0 \<le> d then d else d mod 1000)) r # l'"
proof -
  obtain te where te: "aeSearchNearestTimer el = Some te" "te \<in> set (el_timers el)" "\<forall>x \<in> set (el_timers el). fires_at te \<le> fires_at x"
    using nearest_timer [OF assms(3,4)] by blast
  have "Min (fires_at ` set (el_timers el)) = fires_at te" by (rule Min_eqI) (use te in auto)
  then have d': "fires_at te - in_ms (now e l) = d" using d(1) by simp
  have "normal te" using te(2) assms(4) by blast
  from wait_for_nearest [OF assms(1,2) te(1) this assms(5,6)] obtain s us where w: "tv = Some (s, us)"
    "s * 1000 + us sdiv 1000 = sleep_of d" using assms(9) unfolding d' by auto
  have "0 \<le> sleep_of d" "sleep_of d < 2 ^ 31"
    using d(2) pos_mod_bound [of 1000 d] by (auto simp: sleep_of_def)
  then have "c_int (s * 1000 + us sdiv 1000) = sleep_of d" unfolding w(2) by (intro c_int_id) auto
  then show ?thesis using assms(10) w(1) by (auto simp: aeApiPoll_def ask_eq Let_def sleep_of_def split: if_splits)
qed


text \<open>A clock that stands at 10.8 s, and a timer that was due 300 ms ago.\<close>

definition late_world :: ae_env where
  "late_world = \<lparr>ae_os = (\<lambda>l q. \<lparr>ar_ret = 0, ar_sec = 10, ar_usec = 800000, ar_ready = []\<rparr>), ae_mem = (\<lambda>n. True), ae_client = (\<lambda>l. ([], AE_NOMORE))\<rparr>"

definition late_loop :: aeEventLoop where
  "late_loop = example_loop\<lparr>el_timers := [\<lparr>te_id = 0, te_when_sec = 10, te_when_ms = 500, te_timeProc = 1, te_finalizerProc = None,
     te_clientData = 0\<rparr>], el_timeEventNextId := 1, el_lastTime := 0\<rparr>"

theorem sleep_until_nearest_timer_witness:
  "\<exists>tv l' k el' l'' r. wait_time late_world AE_ALL_EVENTS late_loop [] = (tv, l') \<and> aeApiPoll late_world tv late_loop l' = (k, el', l'')
     \<and> l'' = Asked (EpollWait 100 8 700) r # l'"
proof -
  obtain tv l' where w: "wait_time late_world AE_ALL_EVENTS late_loop [] = (tv, l')" by (cases "wait_time late_world AE_ALL_EVENTS late_loop []")
  obtain k el' l'' where p: "aeApiPoll late_world tv late_loop l' = (k, el', l'')" by (cases "aeApiPoll late_world tv late_loop l'") auto
  have n: "now late_world [] = (10, 800)" by (simp add: now_def time_of_def late_world_def signed_divide_int_def)
  have d: "(- 300 :: int) = Min (fires_at ` set (el_timers late_loop)) - in_ms (now late_world [])" "(- 300 :: int) < 2 ^ 31"
    by (simp_all add: n in_ms_def late_loop_def fires_at_def)
  have "AE_ALL_EVENTS AND AE_TIME_EVENTS \<noteq> 0" "AE_ALL_EVENTS AND AE_DONT_WAIT = 0"
    by (simp_all add: AE_ALL_EVENTS_def AE_FILE_EVENTS_def AE_TIME_EVENTS_def AE_DONT_WAIT_def)
  moreover have "el_timers late_loop \<noteq> []" "\<forall>te \<in> set (el_timers late_loop). normal te" "0 \<le> snd (now late_world [])"
    "snd (now late_world []) < 1000"
    by (simp_all add: late_loop_def normal_def n)
  ultimately have "\<exists>r. l'' = Asked (EpollWait (el_epfd late_loop) (el_setsize late_loop) (if 0 \<le> (- 300 :: int) then - 300 else (- 300) mod 1000)) r # l'"
    by (intro sleep_until_nearest_timer [OF _ _ _ _ _ _ d w p])
  then show ?thesis using w p by (auto simp: late_loop_def example_loop_def)
qed

section \<open>The timers a round runs\<close>

text \<open>The runs of timers in a log, oldest first.\<close>

fun is_run :: "ae_event \<Rightarrow> bool" where
  "is_run (TimeProc p i d) = True"
| "is_run _ = False"

definition runs :: "ae_log \<Rightarrow> ae_event list" where
  "runs l = filter is_run (rev l)"

definition run_of :: "aeTimeEvent \<Rightarrow> ae_event" where
  "run_of te = TimeProc (te_timeProc te) (te_id te) (te_clientData te)"

text \<open>Handlers that delete no timer and make sensible calls.\<close>

fun no_delete :: "loop_action \<Rightarrow> bool" where
  "no_delete (DeleteTimer i) = False"
| "no_delete _ = True"

definition keeps_timers :: "ae_env \<Rightarrow> bool" where
  "keeps_timers e \<longleftrightarrow> (\<forall>n. ae_mem e n) \<and> (\<forall>l. \<forall>x \<in> set (fst (ae_client e l)). sensible x \<and> no_delete x)"

text \<open>What a handler's calls do to the timers: new ones, with new numbers, are put in front.\<close>

definition adds_timers :: "aeEventLoop \<Rightarrow> ae_log \<Rightarrow> aeEventLoop \<Rightarrow> ae_log \<Rightarrow> bool" where
  "adds_timers el l el' l' \<longleftrightarrow> (\<exists>new x. el_timers el' = new @ el_timers el \<and> (\<forall>te \<in> set new. el_timeEventNextId el \<le> te_id te)
     \<and> el_timeEventNextId el \<le> el_timeEventNextId el' \<and> l' = x @ l \<and> runs x = [])"

lemma adds_timers_refl: "adds_timers el l el l"
  unfolding adds_timers_def by (intro exI [of _ "[]"]) (simp add: runs_def)

lemma runs_append [simp]: "runs (a @ b) = runs b @ runs a"
  by (simp add: runs_def)

lemma runs_asked [simp]: "runs [Asked q r] = []" "runs [Finalized f d] = []" "runs [] = []"
  by (simp_all add: runs_def)

lemma adds_timers_trans: "adds_timers el l el1 l1 \<Longrightarrow> adds_timers el1 l1 el2 l2 \<Longrightarrow> adds_timers el l el2 l2"
proof -
  assume "adds_timers el l el1 l1" "adds_timers el1 l1 el2 l2"
  then obtain n1 x1 n2 x2 where a: "el_timers el1 = n1 @ el_timers el" "\<forall>te \<in> set n1. el_timeEventNextId el \<le> te_id te"
    "el_timeEventNextId el \<le> el_timeEventNextId el1" "l1 = x1 @ l" "runs x1 = []"
    "el_timers el2 = n2 @ el_timers el1" "\<forall>te \<in> set n2. el_timeEventNextId el1 \<le> te_id te"
    "el_timeEventNextId el1 \<le> el_timeEventNextId el2" "l2 = x2 @ l1" "runs x2 = []"
    unfolding adds_timers_def by blast
  then show ?thesis unfolding adds_timers_def by (intro exI [of _ "n2 @ n1"] exI [of _ "x2 @ x1"]) fastforce
qed

lemma create_adds:
  assumes "0 \<le> fd"
  shows "\<exists>st el' l'. aeCreateFileEvent e fd m p d el l = Some (st, el', l') \<and> adds_timers el l el' l'"
proof (cases "fd \<ge> el_setsize el")
  case True
  then show ?thesis using adds_timers_refl by (auto simp: aeCreateFileEvent_def)
next
  case False
  have "adds_timers el l el' (Asked q r # l)" if "el_timers el' = el_timers el" "el_timeEventNextId el' = el_timeEventNextId el" for q r el'
    using that unfolding adds_timers_def by (intro exI [of _ "[]"] exI [of _ "[Asked q r]"]) simp
  then show ?thesis using False assms
    by (auto simp: aeCreateFileEvent_def aeApiAddEvent_def ask_eq Let_def set_event_def)
qed

lemma delete_adds:
  assumes "0 \<le> fd"
  shows "\<exists>el' l'. aeDeleteFileEvent e fd m el l = Some (el', l') \<and> adds_timers el l el' l'"
proof -
  have "adds_timers el l el' (Asked q r # l)" if "el_timers el' = el_timers el" "el_timeEventNextId el' = el_timeEventNextId el" for q r el'
    using that unfolding adds_timers_def by (intro exI [of _ "[]"] exI [of _ "[Asked q r]"]) simp
  then show ?thesis using assms adds_timers_refl
    by (auto simp: aeDeleteFileEvent_def aeApiDelEvent_def ask_eq Let_def set_event_def)
qed

lemma perform_action_adds:
  assumes "\<forall>n. ae_mem e n" "sensible x" "no_delete x"
  shows "\<exists>el' l'. perform_action e x el l = Some (el', l') \<and> adds_timers el l el' l'"
proof (cases x)
  case (CreateFile fd m p d)
  then show ?thesis using create_adds [of fd e m p d el l] assms(2) by auto
next
  case (DeleteFile fd m)
  then show ?thesis using delete_adds [of fd e m el l] assms(2) by auto
next
  case (CreateTimer ms p d f)
  have "adds_timers el l (el\<lparr>el_timeEventNextId := el_timeEventNextId el + 1, el_timers := te # el_timers el\<rparr>) (Asked q r # l)"
    if "te_id te = el_timeEventNextId el" for te q r
    using that unfolding adds_timers_def by (intro exI [of _ "[te]"] exI [of _ "[Asked q r]"]) simp
  then show ?thesis using CreateTimer assms(1)
    by (auto simp: aeCreateTimeEvent_def aeAddMillisecondsToNow_def aeGetTime_now Let_def)
next
  case (DeleteTimer i)
  then show ?thesis using assms(3) by simp
next
  case StopLoop
  have "adds_timers el l (aeStop el) l" unfolding adds_timers_def by (intro exI [of _ "[]"]) (simp add: aeStop_def)
  then show ?thesis using StopLoop by simp
qed

lemma perform_actions_adds:
  "\<forall>n. ae_mem e n \<Longrightarrow> \<forall>x \<in> set xs. sensible x \<and> no_delete x \<Longrightarrow>
    \<exists>el' l'. perform_actions e xs el l = Some (el', l') \<and> adds_timers el l el' l'"
proof (induction xs arbitrary: el l)
  case Nil
  then show ?case using adds_timers_refl by simp
next
  case (Cons x xs)
  obtain el1 l1 where 1: "perform_action e x el l = Some (el1, l1)" "adds_timers el l el1 l1"
    using perform_action_adds Cons.prems by (metis list.set_intros(1))
  obtain el2 l2 where "perform_actions e xs el1 l1 = Some (el2, l2)" "adds_timers el1 l1 el2 l2"
    using Cons by fastforce
  then show ?case using 1 adds_timers_trans by fastforce
qed


lemma unlink_first: "\<forall>x \<in> set a. te_id x \<noteq> te_id te \<Longrightarrow> unlink_timer (te_id te) (a @ te # b) = Some (te, a @ b)"
  by (induction a) auto

definition not_after :: "int \<times> int \<Rightarrow> int \<times> int \<Rightarrow> bool" where
  "not_after s t \<longleftrightarrow> fst s < fst t \<or> (fst s = fst t \<and> snd s \<le> snd t)"

definition clock_runs :: "ae_env \<Rightarrow> bool" where
  "clock_runs e \<longleftrightarrow> (\<forall>l x. not_after (now e l) (now e (x @ l)))"

lemma due_later: "not_after s t \<Longrightarrow> due (fst s) (snd s) te \<Longrightarrow> due (fst t) (snd t) te"
  by (auto simp: not_after_def due_def)

lemma not_after_trans: "not_after a b \<Longrightarrow> not_after b c \<Longrightarrow> not_after a c"
  by (auto simp: not_after_def)

abbreviation due_at :: "int \<times> int \<Rightarrow> aeTimeEvent \<Rightarrow> bool" where
  "due_at t te \<equiv> due (fst t) (snd t) te"

lemma due_fires: "normal te \<Longrightarrow> 0 \<le> snd t \<Longrightarrow> snd t < 1000 \<Longrightarrow> due_at t te \<longleftrightarrow> fires_at te \<le> in_ms t"
  by (auto simp: normal_def due_def fires_at_def in_ms_def)

definition clock_ok :: "ae_env \<Rightarrow> bool" where
  "clock_ok e \<longleftrightarrow> clock_runs e \<and> (\<forall>l. 0 \<le> snd (now e l) \<and> snd (now e l) < 1000)"

lemma clock_later: "clock_ok e \<Longrightarrow> in_ms (now e l) \<le> in_ms (now e (x @ l))"
proof -
  assume c: "clock_ok e"
  then have "not_after (now e l) (now e (x @ l))" by (simp only: clock_ok_def clock_runs_def)
  moreover have "snd (now e l) < 1000" "0 \<le> snd (now e (x @ l))" using c unfolding clock_ok_def by blast+
  ultimately show ?thesis by (auto simp: not_after_def in_ms_def)
qed

text \<open>A timer that is scheduled again, at the time of the clock and the period.\<close>

definition at_time :: "aeTimeEvent \<Rightarrow> int \<times> int \<Rightarrow> aeTimeEvent" where
  "at_time te w = te\<lparr>te_when_sec := fst w, te_when_ms := snd w\<rparr>"

lemma at_time_id [simp]: "te_id (at_time te w) = te_id te"
  by (simp add: at_time_def)

lemma AddMilliseconds_fires:
  assumes "clock_ok e" "0 < r"
  shows "\<exists>s ms. aeAddMillisecondsToNow e r l = (s, ms, Asked Gettimeofday (ae_os e l Gettimeofday) # l)
    \<and> normal (at_time te (s, ms)) \<and> fires_at (at_time te (s, ms)) = in_ms (now e l) + r"
proof -
  have n: "0 \<le> snd (now e l)" "snd (now e l) < 1000" using assms(1) unfolding clock_ok_def by blast+
  have "r sdiv 1000 = r div 1000" "r smod 1000 = r mod 1000"
    using assms(2) by (simp_all add: signed_divide_int_def signed_modulo_int_def)
  then show ?thesis
    using n pos_mod_bound [of 1000 r] pos_mod_sign [of 1000 r]
    by (auto simp: aeAddMillisecondsToNow_def aeGetTime_now Let_def normal_def at_time_def fires_at_def in_ms_def)
qed

text \<open>
  What has happened in a round while no timer has run twice; \<open>tes\<close> are the timers that were there. A
  timer is slow if the time after which its handler wants to run again does not pass until then.
\<close>

definition round_log :: "aeTimeEvent list \<Rightarrow> ae_log \<Rightarrow> bool" where
  "round_log tes x \<longleftrightarrow> distinct (runs x) \<and> set (runs x) \<subseteq> run_of ` set tes"

definition slow_timers :: "ae_env \<Rightarrow> aeTimeEvent list \<Rightarrow> ae_log \<Rightarrow> bool" where
  "slow_timers e tes l \<longleftrightarrow>
     (\<forall>te \<in> set tes. \<forall>x y. round_log tes (y @ run_of te # x) \<longrightarrow>
        (let r = snd (ae_client e (run_of te # x @ l))
         in r = AE_NOMORE \<or> in_ms (now e (y @ run_of te # x @ l)) < in_ms (now e (run_of te # x @ l)) + r))"

text \<open>A timer that is not due any more in this round, of which \<open>x\<close> has happened.\<close>

definition parked :: "ae_env \<Rightarrow> aeTimeEvent list \<Rightarrow> ae_log \<Rightarrow> ae_log \<Rightarrow> aeTimeEvent \<Rightarrow> bool" where
  "parked e tes l x te \<longleftrightarrow> (\<forall>y. round_log tes (y @ x) \<longrightarrow> \<not> due_at (now e (y @ x @ l)) te)"

lemma parked_later: "parked e tes l x te \<Longrightarrow> parked e tes l (y @ x) te"
  unfolding parked_def by (metis append_assoc)

lemma parked_now: "parked e tes l x te \<Longrightarrow> round_log tes x \<Longrightarrow> \<not> due_at (now e (x @ l)) te"
  unfolding parked_def by (metis append_Nil)

lemma set_when_new:
  assumes "\<forall>y \<in> set a. te_id y \<noteq> te_id te" "\<forall>y \<in> set b. te_id y \<noteq> te_id te"
  shows "set_when (te_id te) w (a @ te # b) = a @ at_time te w # b"
  using assms by (auto simp: set_when_def at_time_def intro!: map_idI)

text \<open>One timer of the round: it is gone, or scheduled again and parked.\<close>

lemma run_timer_once:
  assumes e: "keeps_timers e" "clock_ok e" "slow_timers e tes l0"
    and t: "el_timers el = a @ te # b" "\<forall>y \<in> set (a @ b). te_id y \<noteq> te_id te" "te_id te < el_timeEventNextId el" "te \<in> set tes"
    and round: "round_log tes x" "run_of te \<notin> set (runs x)"
  obtains el' new y z where "run_timer e te el (x @ l0) = Some (el', (y @ x) @ l0)" "runs y = [run_of te]"
    "\<forall>v \<in> set new. el_timeEventNextId el \<le> te_id v" "el_timeEventNextId el \<le> el_timeEventNextId el'"
    "y = z @ [run_of te]"
    "snd (ae_client e (run_of te # x @ l0)) = AE_NOMORE \<and> el_timers el' = new @ a @ b
     \<or> snd (ae_client e (run_of te # x @ l0)) \<noteq> AE_NOMORE \<and> (\<exists>w. normal (at_time te w) \<and> el_timers el' = new @ a @ at_time te w # b
           \<and> parked e tes l0 (y @ x) (at_time te w))"
proof -
  let ?l = "run_of te # x @ l0"
  obtain ret where ret: "snd (ae_client e ?l) = ret" by blast
  have c: "\<forall>n. ae_mem e n" "\<forall>x \<in> set (fst (ae_client e ?l)). sensible x \<and> no_delete x"
    using e(1) by (auto simp: keeps_timers_def)
  obtain el1 l1 where p: "perform_actions e (fst (ae_client e ?l)) el ?l = Some (el1, l1)" "adds_timers el ?l el1 l1"
    using perform_actions_adds [OF c] by blast
  obtain new v where n: "el_timers el1 = new @ a @ te # b" "\<forall>y \<in> set new. el_timeEventNextId el \<le> te_id y"
    "el_timeEventNextId el \<le> el_timeEventNextId el1" "l1 = v @ ?l" "runs v = []"
    using p(2) t(1) by (auto simp: adds_timers_def)
  have ids: "\<forall>y \<in> set (new @ a). te_id y \<noteq> te_id te" "\<forall>y \<in> set b. te_id y \<noteq> te_id te" using t(2,3) n(2) by fastforce+
  have h: "handler e (run_of te) el (x @ l0) = Some (ret, el1, l1)"
    using p(1) ret by (cases "ae_client e ?l") (simp add: handler_def Let_def)
  have one: "runs (u @ [run_of te]) = [run_of te]" if "runs u = []" for u using that by (simp add: runs_def run_of_def)
  show ?thesis
  proof (cases "ret = AE_NOMORE")
    case True
    let ?f = "case te_finalizerProc te of None \<Rightarrow> [] | Some f \<Rightarrow> [Finalized f (te_clientData te)]"
    have f: "runs (?f @ v) = []" using n(5) by (simp split: option.split)
    have "unlink_timer (te_id te) (el_timers el1) = Some (te, new @ a @ b)"
      using unlink_first [OF ids(1), of b] n(1) by simp
    then have "run_timer e te el (x @ l0) = Some (el1\<lparr>el_timers := new @ a @ b\<rparr>, ((?f @ v) @ [run_of te]) @ x @ l0)"
      using h True n(4) by (simp add: run_timer_def run_of_def aeDeleteTimeEvent_def split: option.split)
    then show ?thesis
      using that [of "el1\<lparr>el_timers := new @ a @ b\<rparr>" "(?f @ v) @ [run_of te]" new "?f @ v"] one [OF f] n(2,3) ret True by simp
  next
    case False
    have ext: "round_log tes (v @ run_of te # x)"
    proof -
      have "runs (v @ run_of te # x) = runs x @ [run_of te]" using n(5) by (simp add: runs_def run_of_def)
      then show ?thesis using round t(4) by (auto simp: round_log_def)
    qed
    have slow: "in_ms (now e (u @ run_of te # x @ l0)) < in_ms (now e ?l) + ret" if "round_log tes (u @ run_of te # x)" for u
      using e(3) t(4) ret False that unfolding slow_timers_def Let_def by metis
    have "in_ms (now e ?l) \<le> in_ms (now e (v @ ?l))" by (rule clock_later [OF e(2)])
    then have pos: "0 < ret" using slow [OF ext] by simp
    let ?q = "Asked Gettimeofday (ae_os e l1 Gettimeofday)"
    from AddMilliseconds_fires [OF e(2) pos, of l1 te] obtain s ms where
      w: "aeAddMillisecondsToNow e ret l1 = (s, ms, ?q # l1)" "normal (at_time te (s, ms))"
        "fires_at (at_time te (s, ms)) = in_ms (now e l1) + ret" by blast
    have le: "in_ms (now e ?l) \<le> in_ms (now e l1)" unfolding n(4) by (rule clock_later [OF e(2)])
    have "\<not> due_at (now e (u @ run_of te # x @ l0)) (at_time te (s, ms))" if "round_log tes (u @ run_of te # x)" for u
    proof -
      have "0 \<le> snd (now e (u @ run_of te # x @ l0))" "snd (now e (u @ run_of te # x @ l0)) < 1000"
        using e(2) unfolding clock_ok_def by blast+
      then show ?thesis using slow [OF that] le w(3) due_fires [OF w(2)] by simp
    qed
    then have park: "parked e tes l0 ((?q # v @ [run_of te]) @ x) (at_time te (s, ms))"
      unfolding parked_def by (metis append_Cons append_assoc append_Nil)
    have "set_when (te_id te) (s, ms) (el_timers el1) = (new @ a) @ at_time te (s, ms) # b"
      using set_when_new [OF ids] n(1) by simp
    moreover have "\<not> (\<forall>y \<in> set (el_timers el1). te_id y \<noteq> te_id te)" using n(1) by simp
    ultimately have A: "run_timer e te el (x @ l0)
        = Some (el1\<lparr>el_timers := new @ a @ at_time te (s, ms) # b\<rparr>, ((?q # v @ [run_of te]) @ x) @ l0)"
      using h False w(1) n(4) by (simp add: run_timer_def run_of_def)
    have B: "runs (?q # v @ [run_of te]) = [run_of te]"
      using n(5) by (simp add: runs_def run_of_def)
    have C: "el_timeEventNextId el \<le> el_timeEventNextId (el1\<lparr>el_timers := new @ a @ at_time te (s, ms) # b\<rparr>)"
      using n(3) by simp
    have D: "?q # v @ [run_of te] = (?q # v) @ [run_of te]" by simp
    have "snd (ae_client e ?l) \<noteq> AE_NOMORE \<and> (\<exists>w. normal (at_time te w)
        \<and> el_timers (el1\<lparr>el_timers := new @ a @ at_time te (s, ms) # b\<rparr>) = new @ a @ at_time te w # b
        \<and> parked e tes l0 ((?q # v @ [run_of te]) @ x) (at_time te w))"
      using ret False w(2) park by (intro conjI exI [of _ "(s, ms)"]) simp_all
    then show ?thesis by (intro that [OF A B n(2) C D] disjI2)
  qed
qed

text \<open>
  The result of running the timers \<open>pend\<close> among those that are there, \<open>cur\<close>: \<open>fs\<close> are those that ran, \<open>gone\<close> those of
  them whose handler did not ask to run again; the others are due at \<open>w\<close> now.
\<close>

definition again :: "aeTimeEvent list \<Rightarrow> (aeTimeEvent \<Rightarrow> int \<times> int) \<Rightarrow> aeTimeEvent \<Rightarrow> aeTimeEvent" where
  "again fs w te = (if te \<in> set fs then at_time te (w te) else te)"

definition ends_as :: "ae_env \<Rightarrow> ae_log \<Rightarrow> aeTimeEvent set \<Rightarrow> aeTimeEvent \<Rightarrow> bool" where
  "ends_as e l' gone te \<longleftrightarrow>
     (\<exists>z y. l' = z @ run_of te # y \<and> (te \<in> gone \<longleftrightarrow> snd (ae_client e (run_of te # y)) = AE_NOMORE))"

definition ran :: "ae_env \<Rightarrow> int \<Rightarrow> int \<times> int \<Rightarrow> aeTimeEvent list \<Rightarrow> aeTimeEvent list \<Rightarrow> int \<Rightarrow> ae_log
    \<Rightarrow> (int \<times> aeEventLoop \<times> ae_log) option \<Rightarrow> bool" where
  "ran e k t0 cur pend n l res \<longleftrightarrow> (\<exists>fs gone w new el' x. res = Some (n + int (length fs), el', x @ l)
     \<and> runs x = map run_of fs \<and> distinct fs \<and> set fs \<subseteq> set pend \<and> gone \<subseteq> set fs
     \<and> (\<forall>te \<in> set pend. due_at t0 te \<longrightarrow> te \<in> set fs)
     \<and> (\<forall>te \<in> set fs. due_at (now e (x @ l)) te \<and> ends_as e (x @ l) gone te)
     \<and> (\<forall>te \<in> set fs - gone. \<not> due_at (now e (x @ l)) (at_time te (w te)))
     \<and> el_timers el' = new @ map (again fs w) (filter (\<lambda>te. te \<notin> gone) cur) \<and> (\<forall>te \<in> set new. k < te_id te))"

lemma ran_log:
  assumes "runs y = []" "ran e k t0 cur pend n (y @ l) res"
  shows "ran e k t0 cur pend n l res"
  using assms(2) unfolding ran_def
proof (elim exE conjE)
  fix fs gone w new el' x
  assume r: "res = Some (n + int (length fs), el', x @ y @ l)" "runs x = map run_of fs" "distinct fs" "set fs \<subseteq> set pend"
    "gone \<subseteq> set fs" "\<forall>te \<in> set pend. due_at t0 te \<longrightarrow> te \<in> set fs"
    "\<forall>te \<in> set fs. due_at (now e (x @ y @ l)) te \<and> ends_as e (x @ y @ l) gone te"
    "\<forall>te \<in> set fs - gone. \<not> due_at (now e (x @ y @ l)) (at_time te (w te))"
    "el_timers el' = new @ map (again fs w) (filter (\<lambda>te. te \<notin> gone) cur)" "\<forall>te \<in> set new. k < te_id te"
  show "\<exists>fs gone w new el' x. res = Some (n + int (length fs), el', x @ l)
     \<and> runs x = map run_of fs \<and> distinct fs \<and> set fs \<subseteq> set pend \<and> gone \<subseteq> set fs
     \<and> (\<forall>te \<in> set pend. due_at t0 te \<longrightarrow> te \<in> set fs)
     \<and> (\<forall>te \<in> set fs. due_at (now e (x @ l)) te \<and> ends_as e (x @ l) gone te)
     \<and> (\<forall>te \<in> set fs - gone. \<not> due_at (now e (x @ l)) (at_time te (w te)))
     \<and> el_timers el' = new @ map (again fs w) (filter (\<lambda>te. te \<notin> gone) cur) \<and> (\<forall>te \<in> set new. k < te_id te)"
    using r assms(1)
    by (intro exI [of _ fs] exI [of _ gone] exI [of _ w] exI [of _ new] exI [of _ el'] exI [of _ "x @ y"]) simp
qed

text \<open>A timer has run, and what is left is run after it.\<close>

lemma ran_first:
  assumes R: "ran e k t0 cur1 (filter (\<lambda>v. v \<noteq> te) pend) (n + 1) (y @ l) res"
    and y: "runs y = [run_of te]" "y = z @ [run_of te]" and te: "te \<in> set pend" "te \<notin> set (a @ b)" "due_at (now e l) te"
    and clock: "clock_runs e"
    and one: "(snd (ae_client e (run_of te # l)) = AE_NOMORE \<and> cur1 = a @ b)
      \<or> (snd (ae_client e (run_of te # l)) \<noteq> AE_NOMORE \<and> cur1 = a @ at_time te w0 # b
         \<and> at_time te w0 \<notin> set (filter (\<lambda>v. v \<noteq> te) pend)
         \<and> (\<forall>fs x. runs x = map run_of fs \<longrightarrow> distinct fs \<longrightarrow> set fs \<subseteq> set (filter (\<lambda>v. v \<noteq> te) pend)
               \<longrightarrow> \<not> due_at (now e (x @ y @ l)) (at_time te w0)))"
  shows "ran e k t0 (a @ te # b) pend n l res"
  using R unfolding ran_def [of _ _ _ cur1]
proof (elim exE conjE)
  fix fs gone w new el' x
  let ?p1 = "filter (\<lambda>v. v \<noteq> te) pend" and ?l' = "x @ y @ l"
  assume r: "res = Some (n + 1 + int (length fs), el', ?l')" "runs x = map run_of fs" "distinct fs" "set fs \<subseteq> set ?p1"
    "gone \<subseteq> set fs" "\<forall>te \<in> set ?p1. due_at t0 te \<longrightarrow> te \<in> set fs"
    "\<forall>te \<in> set fs. due_at (now e ?l') te \<and> ends_as e ?l' gone te"
    "\<forall>te \<in> set fs - gone. \<not> due_at (now e ?l') (at_time te (w te))"
    "el_timers el' = new @ map (again fs w) (filter (\<lambda>te. te \<notin> gone) cur1)" "\<forall>te \<in> set new. k < te_id te"
  have no: "te \<notin> set fs" "te \<notin> gone" using r(4,5) by auto
  have "not_after (now e l) (now e ?l')" using clock unfolding clock_runs_def by (metis append_assoc)
  then have due: "due_at (now e ?l') te" using due_later te(3) by blast
  define gone' where "gone' = (if snd (ae_client e (run_of te # l)) = AE_NOMORE then insert te gone else gone)"
  define w' where "w' = w(te := w0)"
  have here: "ends_as e ?l' gone' te"
    unfolding ends_as_def using no(2) by (intro exI [of _ "x @ z"] exI [of _ l]) (simp add: gone'_def y(2))
  have "ends_as e ?l' gone' v" if "v \<in> set fs" for v
  proof -
    have "(v \<in> gone') = (v \<in> gone)" using that no(1) by (auto simp: gone'_def)
    then show ?thesis using r(7) that by (simp add: ends_as_def)
  qed
  then have ends: "\<forall>v \<in> set (te # fs). due_at (now e ?l') v \<and> ends_as e ?l' gone' v" using r(7) here due by simp
  have park: "\<not> due_at (now e ?l') (at_time te w0)" if "te \<notin> gone'"
    using one r(2,3,4) that by (auto simp: gone'_def split: if_splits)
  have others: "\<forall>v \<in> set (te # fs) - gone'. \<not> due_at (now e ?l') (at_time v (w' v))"
    using r(8) park no(1) by (auto simp: w'_def gone'_def split: if_splits)
  have same: "map (again (te # fs) w') (filter (\<lambda>v. v \<notin> gone') vs) = map (again fs w) (filter (\<lambda>v. v \<notin> gone) vs)"
    if "te \<notin> set vs" for vs
  proof -
    have "filter (\<lambda>v. v \<notin> gone') vs = filter (\<lambda>v. v \<notin> gone) vs" using that by (intro filter_cong) (auto simp: gone'_def)
    then show ?thesis using that by (auto simp: again_def w'_def)
  qed
  have "te \<notin> set a" "te \<notin> set b" using te(2) by auto
  then have "map (again (te # fs) w') (filter (\<lambda>v. v \<notin> gone') (a @ te # b)) = map (again fs w) (filter (\<lambda>v. v \<notin> gone) cur1)"
    using one
  proof (elim disjE conjE)
    assume "te \<notin> set a" "te \<notin> set b" "snd (ae_client e (run_of te # l)) = AE_NOMORE" "cur1 = a @ b"
    then show ?thesis using same [of a] same [of b] by (simp add: gone'_def)
  next
    assume s: "te \<notin> set a" "te \<notin> set b" "snd (ae_client e (run_of te # l)) \<noteq> AE_NOMORE" "cur1 = a @ at_time te w0 # b"
      "at_time te w0 \<notin> set ?p1"
    then have n: "at_time te w0 \<notin> set fs" "at_time te w0 \<notin> gone" "te \<notin> gone'" using r(4,5) no(2) by (auto simp: gone'_def)
    have "again (te # fs) w' te = at_time te w0" "again fs w (at_time te w0) = at_time te w0"
      using n(1) by (simp_all add: again_def w'_def)
    then show ?thesis using same [of a] same [of b] s(1,2,4) n by simp
  qed
  then have tms: "el_timers el' = new @ map (again (te # fs) w') (filter (\<lambda>v. v \<notin> gone') (a @ te # b))" using r(9) by simp
  have all: "\<forall>v \<in> set pend. due_at t0 v \<longrightarrow> v \<in> set (te # fs)" "set (te # fs) \<subseteq> set pend" "gone' \<subseteq> set (te # fs)"
    "distinct (te # fs)" "runs (x @ y) = map run_of (te # fs)"
    using r(2-6) te(1) no(1) y(1) by (auto simp: gone'_def)
  show ?thesis
    unfolding ran_def
  proof (intro exI conjI)
    show "res = Some (n + int (length (te # fs)), el', (x @ y) @ l)" using r(1) by simp
  qed (use all ends others tms r(10) in simp_all)
qed

lemma run_of_inj: "run_of a = run_of b \<Longrightarrow> te_id a = te_id b"
  by (simp add: run_of_def)

lemma run_of_inj_on: "distinct (map te_id tes) \<Longrightarrow> set fs \<subseteq> set tes \<Longrightarrow> inj_on run_of (set fs)"
proof (intro inj_onI)
  fix a b
  assume tes: "distinct (map te_id tes)" "set fs \<subseteq> set tes" and ab: "a \<in> set fs" "b \<in> set fs" "run_of a = run_of b"
  have "inj_on te_id (set tes)" using tes(1) by (simp add: distinct_map)
  then show "a = b" using run_of_inj [OF ab(3)] ab(1,2) tes(2) by (blast dest: inj_onD)
qed

lemma time_loop_runs:
  assumes e: "keeps_timers e" "clock_ok e" "slow_timers e tes l0" and tes: "distinct (map te_id tes)"
  shows "\<lbrakk> el_timers el = new @ cur; \<forall>te \<in> set new. k < te_id te; \<forall>te \<in> set cur. te_id te \<le> k; distinct (map te_id cur);
    k < el_timeEventNextId el; set pend \<subseteq> set cur \<inter> set tes; \<forall>te \<in> set cur. te \<in> set pend \<or> parked e tes l0 x te;
    round_log tes x; \<forall>te \<in> set pend. run_of te \<notin> set (runs x); el_timers el = skip @ rest;
    \<forall>te \<in> set skip. te_id te \<le> k \<longrightarrow> \<not> due_at t0 te; not_after t0 (now e (x @ l0)) \<rbrakk> \<Longrightarrow>
    ran e k t0 cur pend n (x @ l0) (time_loop e k rest n el (x @ l0))"
proof (induction "length pend" arbitrary: pend cur new el x n skip rest rule: less_induct)
  case less
  note IH = less.hyps
  have clock: "clock_runs e" using e(2) by (simp add: clock_ok_def)
  from less.prems show ?case
  proof (induction rest arbitrary: skip x)
    case Nil
    have none: "\<not> due_at t0 te" if "te \<in> set pend" for te using Nil.prems(1,3,6,10,11) that by auto
    have "time_loop e k [] n el (x @ l0) = Some (n, el, x @ l0)" by (subst time_loop.simps) simp
    moreover have "map (again [] w) (filter (\<lambda>te. te \<notin> {}) cur) = cur" for w by (simp add: again_def map_idI)
    ultimately show ?case
      unfolding ran_def using none Nil.prems(1,2)
      by (intro exI [of _ "[]"] exI [of _ "{}"] exI [of _ "\<lambda>_. (0, 0)"] exI [of _ new] exI [of _ el]) simp
  next
    case (Cons te rest)
    let ?q = "Asked Gettimeofday (ae_os e (x @ l0) Gettimeofday)"
    have later: "not_after (now e (x @ l0)) (now e ((?q # x) @ l0))"
      using clock unfolding clock_runs_def by (metis append_Cons append_Nil)
    have t0: "not_after t0 (now e ((?q # x) @ l0))" using not_after_trans [OF Cons.prems(12) later] .
    have q: "round_log tes (?q # x)" "runs (?q # x) = runs x" using Cons.prems(8) by (simp_all add: round_log_def runs_def)
    have park_q: "\<forall>te \<in> set cur. te \<in> set pend \<or> parked e tes l0 (?q # x) te"
      using Cons.prems(7) parked_later [of e tes l0 x _ "[?q]"] by auto
    show ?case
    proof (cases "te_id te > k")
      case True
      then have "time_loop e k (te # rest) n el (x @ l0) = time_loop e k rest n el (x @ l0)" by (subst time_loop.simps) simp
      moreover have "ran e k t0 cur pend n (x @ l0) (time_loop e k rest n el (x @ l0))"
        by (rule Cons.IH [of x "skip @ [te]"]) (use Cons.prems True in simp_all)
      ultimately show ?thesis by simp
    next
      case False
      then have cur: "te \<in> set cur" using Cons.prems(1,2,10) by (metis Un_iff in_set_conv_decomp set_append)
      show ?thesis
      proof (cases "due_at (now e (x @ l0)) te")
        case not_due: False
        have "\<not> due_at t0 te" using not_due due_later [OF Cons.prems(12)] by blast
        then have "ran e k t0 cur pend n ((?q # x) @ l0) (time_loop e k rest n el ((?q # x) @ l0))"
          by (intro Cons.IH [of "?q # x" "skip @ [te]"]) (use Cons.prems q park_q t0 in simp_all)
        moreover have "time_loop e k (te # rest) n el (x @ l0) = time_loop e k rest n el ((?q # x) @ l0)"
          using False not_due by (subst time_loop.simps) (simp add: aeGetTime_now)
        ultimately show ?thesis using ran_log [of "[?q]"] by simp
      next
        case now_due: True
        have pend: "te \<in> set pend" using Cons.prems(7,8) cur now_due parked_now by blast
        obtain a b where ab: "cur = a @ te # b" using cur by (metis split_list)
        have ids: "\<forall>v \<in> set (a @ b). te_id v \<noteq> te_id te" using Cons.prems(4) unfolding ab by (auto simp: image_iff)
        have te: "te \<in> set tes" using pend Cons.prems(6) by blast
        have "\<forall>v \<in> set new. te_id v \<noteq> te_id te" using Cons.prems(2) False by auto
        then have ids': "\<forall>v \<in> set ((new @ a) @ b). te_id v \<noteq> te_id te" using ids by auto
        have split: "el_timers el = (new @ a) @ te # b" using Cons.prems(1) ab by simp
        have id: "te_id te < el_timeEventNextId el" using False Cons.prems(5) by simp
        have fresh: "run_of te \<notin> set (runs (?q # x))" using Cons.prems(9) pend q(2) by simp
        obtain el1 new1 y z where r: "run_timer e te el ((?q # x) @ l0) = Some (el1, (y @ ?q # x) @ l0)" "runs y = [run_of te]"
          "\<forall>v \<in> set new1. el_timeEventNextId el \<le> te_id v" "el_timeEventNextId el \<le> el_timeEventNextId el1" "y = z @ [run_of te]"
          "snd (ae_client e (run_of te # (?q # x) @ l0)) = AE_NOMORE \<and> el_timers el1 = new1 @ (new @ a) @ b
           \<or> snd (ae_client e (run_of te # (?q # x) @ l0)) \<noteq> AE_NOMORE \<and> (\<exists>w. normal (at_time te w)
               \<and> el_timers el1 = new1 @ (new @ a) @ at_time te w # b \<and> parked e tes l0 (y @ ?q # x) (at_time te w))"
          by (rule run_timer_once [OF e split ids' id te q(1) fresh])
        let ?x = "y @ ?q # x" and ?pend = "filter (\<lambda>v. v \<noteq> te) pend"
        have eq: "time_loop e k (te # rest) n el (x @ l0) = time_loop e k (el_timers el1) (n + 1) el1 (?x @ l0)"
          using False now_due r(1) by (subst time_loop.simps) (simp add: aeGetTime_now)
        obtain c w0 where c: "el_timers el1 = (new1 @ new) @ a @ c @ b" "c = [] \<or> c = [at_time te w0]"
          "c = [] \<longleftrightarrow> snd (ae_client e (run_of te # (?q # x) @ l0)) = AE_NOMORE" "\<forall>v \<in> set c. parked e tes l0 ?x v"
          using r(6)
        proof (elim disjE conjE exE)
          assume "snd (ae_client e (run_of te # (?q # x) @ l0)) = AE_NOMORE" "el_timers el1 = new1 @ (new @ a) @ b"
          then show ?thesis using that [of "[]"] by simp
        next
          fix w assume "snd (ae_client e (run_of te # (?q # x) @ l0)) \<noteq> AE_NOMORE"
            "el_timers el1 = new1 @ (new @ a) @ at_time te w # b" "parked e tes l0 ?x (at_time te w)"
          then show ?thesis using that [of "[at_time te w]" w] by simp
        qed
        have cid: "\<forall>v \<in> set c. te_id v = te_id te" using c(2) by auto
        have part: "v \<in> set ?pend \<or> parked e tes l0 ?x v" if "v \<in> set (a @ c @ b)" for v
        proof (cases "v \<in> set c")
          case False
          then have "v \<in> set cur" "v \<noteq> te" using that ids ab by auto
          then show ?thesis using park_q parked_later [of e tes l0 "?q # x" v y] by auto
        qed (use c(4) in blast)
        have sub: "set ?pend \<subseteq> set (a @ c @ b) \<inter> set tes" using Cons.prems(6) ab by auto
        have inj: "run_of v \<noteq> run_of te" if "v \<in> set ?pend" for v
        proof
          assume "run_of v = run_of te"
          then have "te_id v = te_id te" by (rule run_of_inj)
          then have "v = te" using tes that te Cons.prems(6) by (auto simp: distinct_map inj_on_def)
          then show False using that by simp
        qed
        have rx: "runs ?x = runs x @ [run_of te]" using r(2) q(2) by simp
        have round: "round_log tes ?x" using rx Cons.prems(8) fresh q(2) te by (auto simp: round_log_def)
        have R: "ran e k t0 (a @ c @ b) ?pend (n + 1) (?x @ l0) (time_loop e k (el_timers el1) (n + 1) el1 (?x @ l0))"
        proof (rule IH [of ?pend el1 "new1 @ new" "a @ c @ b" ?x "[]"])
          show "length ?pend < length pend" using pend by (simp add: length_filter_less)
          show "\<forall>v \<in> set (new1 @ new). k < te_id v" using r(3) Cons.prems(2,5) by fastforce
          show "\<forall>v \<in> set (a @ c @ b). te_id v \<le> k" using Cons.prems(3) ab cid False by auto
          show "distinct (map te_id (a @ c @ b))" using Cons.prems(4) ab c(2) by (auto simp: image_iff)
          show "k < el_timeEventNextId el1" using Cons.prems(5) r(4) by simp
          show "\<forall>v \<in> set ?pend. run_of v \<notin> set (runs ?x)" using rx inj Cons.prems(9) by auto
          show "not_after t0 (now e (?x @ l0))"
            using not_after_trans [OF t0] clock unfolding clock_runs_def by (metis append_assoc)
        qed (use c(1) sub part round in auto)
        have final: "\<not> due_at (now e (u @ y @ (?q # x) @ l0)) (at_time te w0)"
          if u: "runs u = map run_of fs" "distinct fs" "set fs \<subseteq> set ?pend" and some: "c \<noteq> []" for u fs
        proof -
          have "inj_on run_of (set fs)" using run_of_inj_on [OF tes] u(3) sub by blast
          moreover have "\<forall>v \<in> set fs. run_of v \<notin> set (runs ?x)" using u(3) rx inj Cons.prems(9) by auto
          moreover have "run_of ` set fs \<subseteq> run_of ` set tes" using u(3) sub by auto
          ultimately have "round_log tes (u @ ?x)" using u(1,2) round by (auto simp: round_log_def distinct_map)
          moreover have "parked e tes l0 ?x (at_time te w0)" using c(2,4) some by auto
          ultimately show ?thesis unfolding parked_def by simp
        qed
        have one: "(snd (ae_client e (run_of te # (?q # x) @ l0)) = AE_NOMORE \<and> a @ c @ b = a @ b)
          \<or> (snd (ae_client e (run_of te # (?q # x) @ l0)) \<noteq> AE_NOMORE \<and> a @ c @ b = a @ at_time te w0 # b
             \<and> at_time te w0 \<notin> set ?pend
             \<and> (\<forall>fs u. runs u = map run_of fs \<longrightarrow> distinct fs \<longrightarrow> set fs \<subseteq> set ?pend
                   \<longrightarrow> \<not> due_at (now e (u @ y @ (?q # x) @ l0)) (at_time te w0)))"
        proof (cases "c = []")
          case True
          then show ?thesis using c(3) by simp
        next
          case False
          have "at_time te w0 \<notin> set ?pend" using inj [of "at_time te w0"] by (auto simp: run_of_def at_time_def)
          then show ?thesis using False c(2,3) final by auto
        qed
        have due_q: "due_at (now e ((?q # x) @ l0)) te" by (rule due_later [OF later now_due])
        have "te \<notin> set (a @ b)" using ids by auto
        from ran_first [OF _ r(2,5) pend this due_q clock one, of k t0 n] R
        have "ran e k t0 cur pend n ((?q # x) @ l0) (time_loop e k (te # rest) n el (x @ l0))" unfolding eq ab by simp
        then show ?thesis using ran_log [of "[?q]"] by simp
      qed
    qed
  qed
qed

text \<open>C21. A round runs each timer that is due exactly once and ends. The conditions: no handler deletes a timer, the
  clock does not go back, and, while no timer has run twice, the time after which a handler wants to run again does not
  pass (\<open>slow_timers\<close>; this is so for a handler that returns \<^verbatim>\<open>AE_NOMORE\<close>, and for the reconnect timer of
  the program, which returns 5000, as long as the round takes less than five seconds; a timer that asks for 0 ms is
  excluded, and does hang, see below). Then \<^verbatim>\<open>processTimeEvents\<close> returns, whatever timers and file
  events the handlers create. It has run every timer that was due when it began, each timer at most once, none before
  its time and none that was created meanwhile, and it returns their number. The timers that ran are deleted if their
  handler returned \<^verbatim>\<open>AE_NOMORE\<close> and are scheduled for a time to come if not; the others are left as they
  were, behind the new ones.\<close>

theorem due_timers_run_once:
  assumes "keeps_timers e" "clock_ok e" "slow_timers e (el_timers el) l" "distinct (map te_id (el_timers el))"
    "\<forall>te \<in> set (el_timers el). te_id te < el_timeEventNextId el" "el_lastTime el \<le> ar_ret (ae_os e l Time)"
  shows "\<exists>fs gone w new el' x. processTimeEvents e el l = Some (int (length fs), el', x @ l) \<and> runs x = map run_of fs
    \<and> distinct fs \<and> set fs \<subseteq> set (el_timers el) \<and> gone \<subseteq> set fs
    \<and> (\<forall>te \<in> set (el_timers el). due_at (now e l) te \<longrightarrow> te \<in> set fs)
    \<and> (\<forall>te \<in> set fs. due_at (now e (x @ l)) te \<and> ends_as e (x @ l) gone te)
    \<and> (\<forall>te \<in> set fs - gone. \<not> due_at (now e (x @ l)) (at_time te (w te)))
    \<and> el_timers el' = new @ map (again fs w) (filter (\<lambda>te. te \<notin> gone) (el_timers el))
    \<and> (\<forall>te \<in> set new. el_timeEventNextId el \<le> te_id te)"
proof -
  let ?el = "el\<lparr>el_lastTime := ar_ret (ae_os e l Time)\<rparr>" and ?k = "el_timeEventNextId el - 1"
  let ?y = "[Asked Time (ae_os e l Time)]"
  have p: "processTimeEvents e el l = time_loop e ?k (el_timers el) 0 ?el (?y @ l)"
    using assms(6) by (simp add: processTimeEvents_def ask_eq Let_def)
  have "ran e ?k (now e l) (el_timers el) (el_timers el) 0 (?y @ l) (processTimeEvents e el l)"
    unfolding p
  proof (rule time_loop_runs [OF assms(1-4), of ?el "[]" _ _ _ _ "[]"])
    show "not_after (now e l) (now e (?y @ l))" using assms(2) by (simp only: clock_ok_def clock_runs_def)
    show "round_log (el_timers el) ?y" by (simp add: round_log_def)
  qed (use assms(4,5) in auto)
  from ran_log [OF _ this] have "ran e ?k (now e l) (el_timers el) (el_timers el) 0 l (processTimeEvents e el l)" by simp
  moreover have "(?k < i) = (el_timeEventNextId el \<le> i)" for i by linarith
  ultimately show ?thesis unfolding ran_def by simp
qed

text \<open>A handler that creates another timer and runs again after five seconds.\<close>

definition renew :: "ae_log \<Rightarrow> loop_action list \<times> int" where
  "renew l = ([CreateTimer 0 8 0 None], 5000)"

definition two_timers :: aeEventLoop where
  "two_timers = example_loop\<lparr>el_timeEventNextId := 2, el_timers :=
     [\<lparr>te_id = 1, te_when_sec = 200, te_when_ms = 0, te_timeProc = 7, te_finalizerProc = None, te_clientData = 0\<rparr>,
      \<lparr>te_id = 0, te_when_sec = 99, te_when_ms = 500, te_timeProc = 7, te_finalizerProc = None, te_clientData = 0\<rparr>]\<rparr>"

lemma small_world_now [simp]: "now (small_world c) l = (100, 0)"
  by (simp add: now_def time_of_def small_world_def signed_divide_int_def)

theorem due_timers_run_once_witness:
  "\<exists>el' x new w. processTimeEvents (small_world renew) two_timers [] = Some (1, el', x) \<and> runs x = [TimeProc 7 0 0]
     \<and> el_timers el' = new @ [hd (el_timers two_timers), at_time (last (el_timers two_timers)) w]
     \<and> \<not> due_at (100, 0) (at_time (last (el_timers two_timers)) w) \<and> (\<forall>te \<in> set new. 2 \<le> te_id te)"
proof -
  let ?e = "small_world renew" and ?late = "\<lparr>te_id = 0, te_when_sec = 99, te_when_ms = 500, te_timeProc = 7, te_finalizerProc = None, te_clientData = 0\<rparr>"
    and ?far = "\<lparr>te_id = 1, te_when_sec = 200, te_when_ms = 0, te_timeProc = 7, te_finalizerProc = None, te_clientData = 0\<rparr>"
  have ts: "el_timers two_timers = [?far, ?late]" "el_timeEventNextId two_timers = 2" by (simp_all add: two_timers_def)
  have client: "ae_client ?e = renew" by (simp add: small_world_def)
  have "keeps_timers ?e" by (simp add: keeps_timers_def small_world_def renew_def)
  moreover have "clock_ok ?e" by (simp add: clock_ok_def clock_runs_def not_after_def)
  moreover have "slow_timers ?e (el_timers two_timers) []" by (simp add: slow_timers_def client renew_def Let_def)
  moreover have "distinct (map te_id (el_timers two_timers))" "\<forall>te \<in> set (el_timers two_timers). te_id te < el_timeEventNextId two_timers"
    by (simp_all add: ts)
  moreover have "el_lastTime two_timers \<le> ar_ret (ae_os ?e [] Time)"
    by (simp add: two_timers_def example_loop_def small_world_def)
  ultimately obtain fs gone w new el' x where r: "processTimeEvents ?e two_timers [] = Some (int (length fs), el', x @ [])"
    "runs x = map run_of fs" "distinct fs" "set fs \<subseteq> set (el_timers two_timers)" "gone \<subseteq> set fs"
    "\<forall>te \<in> set (el_timers two_timers). due_at (now ?e []) te \<longrightarrow> te \<in> set fs"
    "\<forall>te \<in> set fs. due_at (now ?e (x @ [])) te \<and> ends_as ?e (x @ []) gone te"
    "\<forall>te \<in> set fs - gone. \<not> due_at (now ?e (x @ [])) (at_time te (w te))"
    "el_timers el' = new @ map (again fs w) (filter (\<lambda>te. te \<notin> gone) (el_timers two_timers))"
    "\<forall>te \<in> set new. el_timeEventNextId two_timers \<le> te_id te"
    using due_timers_run_once [of ?e two_timers "[]"] by blast
  have "?far \<notin> set fs" using r(7) by (auto simp: due_def)
  moreover have "?late \<in> set fs" using r(6) by (simp add: ts due_def)
  ultimately have s: "set fs = {?late}" using r(4) unfolding ts by auto
  then have fs: "fs = [?late]" using r(3) by (cases fs) (auto simp: subset_singleton_iff dest: distinct.simps(2) [THEN iffD1])
  have "gone = {}" using r(5,7) by (auto simp: ends_as_def client renew_def AE_NOMORE_def)
  then have "el_timers el' = new @ [?far, at_time ?late (w ?late)]" "\<not> due_at (100, 0) (at_time ?late (w ?late))"
    using r(8,9) by (simp_all add: ts fs again_def)
  moreover have "processTimeEvents ?e two_timers [] = Some (1, el', x)" "runs x = [TimeProc 7 0 0]" "\<forall>te \<in> set new. 2 \<le> te_id te"
    using r(1,2,10) by (simp_all add: ts fs run_of_def)
  moreover have "hd (el_timers two_timers) = ?far" "last (el_timers two_timers) = ?late" by (simp_all add: ts)
  ultimately show ?thesis by (intro exI [of _ el'] exI [of _ x] exI [of _ new] exI [of _ "w ?late"]) simp
qed

section \<open>A timer without a pause\<close>

lemma restless_loop:
  "time_loop e k rest n el l = Some r \<Longrightarrow> rest = [te] \<Longrightarrow> el_timers el = [te] \<Longrightarrow> te_id te \<le> k \<Longrightarrow> te_timeProc te = p \<Longrightarrow> te_clientData te = d \<Longrightarrow>
    te_id te = i \<Longrightarrow> due_at (now e l) te \<Longrightarrow> clock_runs e \<Longrightarrow> \<forall>l. 0 \<le> snd (now e l) \<and> snd (now e l) < 1000 \<Longrightarrow>
    \<forall>l. ae_client e (TimeProc p i d # l) = ([], 0) \<Longrightarrow> False"
proof (induction arbitrary: te rule: time_loop.raw_induct [rotated, consumes 1])
  case (1 loop e k rest n el l r)
  let ?g = "\<lambda>l. Asked Gettimeofday (ae_os e l Gettimeofday) # l"
  let ?l1 = "TimeProc p i d # ?g l"
  let ?te = "te\<lparr>te_when_sec := fst (now e ?l1), te_when_ms := snd (now e ?l1)\<rparr>"
  let ?el = "el\<lparr>el_timers := [?te]\<rparr>"
  have "ae_client e ?l1 = ([], 0)" using 1(12) by blast
  then have "run_timer e te el (?g l) = Some (?el, ?g ?l1)"
    using 1(4,6,7,8) 1(11) [rule_format, of ?l1]
    by (simp add: run_timer_def handler_def aeAddMillisecondsToNow_def aeGetTime_now set_when_def AE_NOMORE_def)
  then have "loop e k [?te] (n + 1) ?el (?g ?l1) = Some r"
    using 1(2,3,5,9) by (simp add: aeGetTime_now)
  moreover have "not_after (now e ?l1) (now e ([Asked Gettimeofday (ae_os e ?l1 Gettimeofday)] @ ?l1))"
    using 1(10) unfolding clock_runs_def by blast
  then have "due_at (now e (?g ?l1)) ?te" by (auto simp: not_after_def due_def)
  ultimately show False using 1(1) [of e k "[?te]" "n + 1" ?el "?g ?l1" r ?te] 1(5-8,10-12) by auto
qed

text \<open>A timer that asks to run again after 0 ms is never done: the round of \<^verbatim>\<open>processTimeEvents\<close> that
  runs it does not return, because the timer is always due again when the list is searched from
  its head; the numbering that keeps new timers out of the round does not exclude it.\<close>

theorem restless_timer_hangs:
  assumes "el_timers el = [te]" "te_id te < el_timeEventNextId el" "el_lastTime el \<le> ar_ret (ae_os e l Time)" "due_at (now e l) te"
    "clock_runs e" "\<forall>l. 0 \<le> snd (now e l) \<and> snd (now e l) < 1000"
    "\<forall>l. ae_client e (TimeProc (te_timeProc te) (te_id te) (te_clientData te) # l) = ([], 0)"
  shows "processTimeEvents e el l = None"
proof (rule ccontr)
  let ?y = "[Asked Time (ae_os e l Time)]"
  assume "processTimeEvents e el l \<noteq> None"
  then obtain r where "time_loop e (el_timeEventNextId el - 1) (el_timers el) 0 (el\<lparr>el_lastTime := ar_ret (ae_os e l Time)\<rparr>) (?y @ l) = Some r"
    using assms(3) by (auto simp: processTimeEvents_def ask_eq Let_def)
  moreover have "not_after (now e l) (now e (?y @ l))" using assms(5) unfolding clock_runs_def by blast
  then have "due_at (now e (?y @ l)) te" using due_later assms(4) by blast
  ultimately show False using restless_loop [of e _ _ _ _ _ r te "te_timeProc te" "te_clientData te" "te_id te"] assms by fastforce
qed

theorem restless_timer_hangs_witness:
  "processTimeEvents (small_world (\<lambda>l. ([], 0))) (two_timers\<lparr>el_timers := [last (el_timers two_timers)]\<rparr>) [] = None"
proof (rule restless_timer_hangs)
  show "el_timers (two_timers\<lparr>el_timers := [last (el_timers two_timers)]\<rparr>) = [last (el_timers two_timers)]" by simp
qed (simp_all add: two_timers_def example_loop_def due_def clock_runs_def not_after_def, simp_all add: small_world_def)

end
