(* ===== verification/AeAdapter.thy ===== *)
theory AeAdapter
  imports AsyncReplies AeTimers
begin

unbundle bit_operations_syntax

text \<open>
  The adapter of \<^verbatim>\<open>hiredis/adapters/libae.h\<close>, which puts an asynchronous context on an event loop: the
  hooks of the context register and delete the events of its descriptor, and the events call the
  handlers of the context. The loop is used through the interface of an event registry.
\<close>

section \<open>Definitions\<close>

record redisAeEvents =
  ra_context :: nat
  ra_fd :: int
  ra_reading :: bool
  ra_writing :: bool

text \<open>The numbers of the two callbacks as handlers of the loop.\<close>

definition readEvent_proc :: nat where "readEvent_proc = 1"
definition writeEvent_proc :: nat where "writeEvent_proc = 2"

definition redisAeReadEvent :: "'d aenv \<Rightarrow> async_context \<Rightarrow> aworld \<Rightarrow> (async_context option \<times> aworld) option" where
  "redisAeReadEvent ae context w = redisAsyncHandleRead ae context w"

definition redisAeWriteEvent :: "'d aenv \<Rightarrow> async_context \<Rightarrow> aworld \<Rightarrow> (async_context option \<times> aworld) option" where
  "redisAeWriteEvent ae context w = redisAsyncHandleWrite ae context w"

text \<open>
  The hooks get the record as their \<^verbatim>\<open>privdata\<close>. The record is on the heap: once \<^verbatim>\<open>redisAeCleanup\<close>
  has freed it, the pointer dangles and no hook is defined.
\<close>

type_synonym ae_state = "redisAeEvents option \<times> aeEventLoop \<times> ae_log"

definition redisAeAddRead :: "ae_env \<Rightarrow> ae_state \<Rightarrow> ae_state option" where
  "redisAeAddRead e st =
     (let (r, s) = st in
      case r of
        None \<Rightarrow> None
      | Some ev \<Rightarrow>
          if \<not> ra_reading ev then
            let ev = ev\<lparr>ra_reading := True\<rparr>
            in map_option (\<lambda>(ok, s). (Some ev, s)) (loop_add e (ra_fd ev) AE_READABLE readEvent_proc (ra_context ev) s)
          else Some (Some ev, s))"

definition redisAeDelRead :: "ae_env \<Rightarrow> ae_state \<Rightarrow> ae_state option" where
  "redisAeDelRead e st =
     (let (r, s) = st in
      case r of
        None \<Rightarrow> None
      | Some ev \<Rightarrow>
          if ra_reading ev then
            let ev = ev\<lparr>ra_reading := False\<rparr>
            in map_option (\<lambda>s. (Some ev, s)) (loop_del e (ra_fd ev) AE_READABLE s)
          else Some (Some ev, s))"

definition redisAeAddWrite :: "ae_env \<Rightarrow> ae_state \<Rightarrow> ae_state option" where
  "redisAeAddWrite e st =
     (let (r, s) = st in
      case r of
        None \<Rightarrow> None
      | Some ev \<Rightarrow>
          if \<not> ra_writing ev then
            let ev = ev\<lparr>ra_writing := True\<rparr>
            in map_option (\<lambda>(ok, s). (Some ev, s)) (loop_add e (ra_fd ev) AE_WRITABLE writeEvent_proc (ra_context ev) s)
          else Some (Some ev, s))"

definition redisAeDelWrite :: "ae_env \<Rightarrow> ae_state \<Rightarrow> ae_state option" where
  "redisAeDelWrite e st =
     (let (r, s) = st in
      case r of
        None \<Rightarrow> None
      | Some ev \<Rightarrow>
          if ra_writing ev then
            let ev = ev\<lparr>ra_writing := False\<rparr>
            in map_option (\<lambda>s. (Some ev, s)) (loop_del e (ra_fd ev) AE_WRITABLE s)
          else Some (Some ev, s))"

text \<open>Cleaning up deletes both events and frees the record.\<close>

definition redisAeCleanup :: "ae_env \<Rightarrow> ae_state \<Rightarrow> ae_state option" where
  "redisAeCleanup e st =
     Option.bind (redisAeDelRead e st) (\<lambda>st.
     Option.bind (redisAeDelWrite e st) (\<lambda>st.
     Some (None, snd st)))"

text \<open>
  Attaching: the status, the new record and the context with its hooks. A context has data exactly
  when its hooks are set; \<^verbatim>\<open>malloc\<close> is not checked.
\<close>

definition redisAeAttach :: "(nat \<Rightarrow> bool) \<Rightarrow> nat \<Rightarrow> async_context \<Rightarrow> (int \<times> redisAeEvents option \<times> async_context) option" where
  "redisAeAttach mem context ac =
     (if ac_ev ac \<noteq> [] then Some (REDIS_ERR, None, ac)
      else if \<not> mem 32 then None
      else Some (REDIS_OK, Some \<lparr>ra_context = context, ra_fd = rc_fd (ac_c ac), ra_reading = False, ra_writing = False\<rparr>,
             ac\<lparr>ac_ev := [AddRead, DelRead, AddWrite, DelWrite, Cleanup]\<rparr>))"

section \<open>A run of hooks\<close>

fun run_hook :: "ae_env \<Rightarrow> ev_hook \<Rightarrow> ae_state \<Rightarrow> ae_state option" where
  "run_hook e AddRead st = redisAeAddRead e st"
| "run_hook e DelRead st = redisAeDelRead e st"
| "run_hook e AddWrite st = redisAeAddWrite e st"
| "run_hook e DelWrite st = redisAeDelWrite e st"
| "run_hook e Cleanup st = redisAeCleanup e st"

fun run_hooks :: "ae_env \<Rightarrow> ev_hook list \<Rightarrow> ae_state \<Rightarrow> ae_state option" where
  "run_hooks e [] st = Some st"
| "run_hooks e (h # hs) st = Option.bind (run_hook e h st) (run_hooks e hs)"

text \<open>What a run of hooks asks for: reading, writing.\<close>

fun wants :: "ev_hook \<Rightarrow> bool \<times> bool \<Rightarrow> bool \<times> bool" where
  "wants AddRead (r, w) = (True, w)"
| "wants DelRead (r, w) = (False, w)"
| "wants AddWrite (r, w) = (r, True)"
| "wants DelWrite (r, w) = (r, False)"
| "wants Cleanup (r, w) = (False, False)"

definition events_of :: "bool \<times> bool \<Rightarrow> int" where
  "events_of rw = (if fst rw then AE_READABLE else 0) OR (if snd rw then AE_WRITABLE else 0)"

definition ctl_works :: "ae_env \<Rightarrow> bool" where
  "ctl_works e \<longleftrightarrow> (\<forall>l p op fd ev. ar_ret (ae_os e l (EpollCtl p op fd ev)) \<noteq> - 1)"

lemma loop_add_works:
  assumes "ctl_works e" "loop_valid e s" "loop_member s fd" "m \<in> {1, 2, 3}"
  shows "\<exists>s'. loop_add e fd m p d s = Some (True, s') \<and> loop_valid e s' \<and> loop_member s' = loop_member s
    \<and> table_mask (fst s') = (table_mask (fst s))(fd := table_mask (fst s) fd OR m)"
proof -
  obtain b s' where a: "loop_add e fd m p d s = Some (b, s')" "loop_valid e s' \<and> loop_member s' = loop_member s
      \<and> table_mask (fst s') = (if b then (table_mask (fst s))(fd := table_mask (fst s) fd OR m) else table_mask (fst s))"
    using loop.add_law [OF assms(2-4), of p d] by blast
  have "b = True"
    using a(1) assms(1,3) by (auto simp: loop_add_def aeCreateFileEvent_def loop_member_def aeApiAddEvent_def ask_eq ctl_works_def ae_codes
        Let_def split: if_splits)
  then show ?thesis using a by auto
qed

text \<open>
  A context on a loop: the record is there, its descriptor fits the table of the loop, and the loop
  watches the descriptor for nothing that the record does not note. It is in force when the loop watches for all of that.
\<close>

definition attached :: "ae_env \<Rightarrow> ae_state \<Rightarrow> bool" where
  "attached e st \<longleftrightarrow> (let (r, s) = st in case r of None \<Rightarrow> False | Some ev \<Rightarrow> loop_valid e s \<and> loop_member s (ra_fd ev)
     \<and> table_mask (fst s) (ra_fd ev) AND NOT (events_of (ra_reading ev, ra_writing ev)) = 0)"

definition ae_fd :: "ae_state \<Rightarrow> int" where
  "ae_fd st = ra_fd (the (fst st))"

definition asked :: "ae_state \<Rightarrow> bool \<times> bool" where
  "asked st = (ra_reading (the (fst st)), ra_writing (the (fst st)))"

definition watched :: "ae_state \<Rightarrow> int \<Rightarrow> int" where
  "watched st = table_mask (fst (snd st))"

definition in_force :: "ae_state \<Rightarrow> bool" where
  "in_force st \<longleftrightarrow> watched st (ae_fd st) = events_of (asked st)"

definition same_elsewhere :: "int \<Rightarrow> ae_state \<Rightarrow> ae_state \<Rightarrow> bool" where
  "same_elsewhere fd st st' \<longleftrightarrow> (\<forall>fd'. fd' \<noteq> fd \<longrightarrow> watched st' fd' = watched st fd')"

lemma same_elsewhere_trans: "same_elsewhere fd a b \<Longrightarrow> same_elsewhere fd b c \<Longrightarrow> same_elsewhere fd a c"
  by (simp add: same_elsewhere_def)

lemma attached_mask:
  assumes "attached e st"
  shows "watched st (ae_fd st) \<in> {0, 1, 2, 3} \<and> watched st (ae_fd st) AND NOT (events_of (asked st)) = 0"
  using assms loop.registered_range by (auto simp: attached_def watched_def ae_fd_def asked_def split: prod.splits option.splits)

text \<open>What one hook does: the mask changes by the event of the one flag that changes.\<close>

definition hook_ok :: "ae_env \<Rightarrow> ev_hook \<Rightarrow> ae_state \<Rightarrow> ae_state \<Rightarrow> bool" where
  "hook_ok e h st st' \<longleftrightarrow> attached e st' \<and> ae_fd st' = ae_fd st \<and> asked st' = wants h (asked st) \<and> same_elsewhere (ae_fd st) st st'
     \<and> (ctl_works e \<and> in_force st \<longrightarrow> in_force st')"

lemmas hook_defs = hook_ok_def attached_def ae_fd_def asked_def same_elsewhere_def in_force_def watched_def

lemma mask_bits:
  "m \<in> {0, 1, 2, 3 :: int} \<Longrightarrow> r = (m = 1 \<or> m = 3) \<Longrightarrow> w = (m = 2 \<or> m = 3) \<Longrightarrow> events_of (r, w) = m"
  by (auto simp: events_of_def ae_codes)

lemma add_hook_ok:
  assumes h: "h = AddRead \<or> h = AddWrite" and a: "attached e st"
  shows "\<exists>st'. run_hook e h st = Some st' \<and> hook_ok e h st st'"
proof -
  obtain ev s where st: "st = (Some ev, s)" using a by (cases st) (auto simp: attached_def split: option.splits)
  have v: "loop_valid e s" "loop_member s (ra_fd ev)" using a by (auto simp: attached_def st)
  have m: "table_mask (fst s) (ra_fd ev) \<in> {0, 1, 2, 3}" "table_mask (fst s) (ra_fd ev) AND NOT (events_of (ra_reading ev, ra_writing ev)) = 0"
    using attached_mask [OF a] by (simp_all add: st watched_def ae_fd_def asked_def)
  have 1: "AE_READABLE \<in> {1, 2, 3}" "AE_WRITABLE \<in> {1, 2, 3}" by (simp_all add: ae_codes)
  have add: "\<exists>b s'. loop_add e (ra_fd ev) k p (ra_context ev) s = Some (b, s') \<and> loop_valid e s' \<and> loop_member s' = loop_member s
      \<and> table_mask (fst s') = (if b then (table_mask (fst s))(ra_fd ev := table_mask (fst s) (ra_fd ev) OR k) else table_mask (fst s))
      \<and> (ctl_works e \<longrightarrow> b)" if k: "k \<in> {1, 2, 3}" for k p
  proof -
    obtain b s' where 2: "loop_add e (ra_fd ev) k p (ra_context ev) s = Some (b, s')" "loop_valid e s' \<and> loop_member s' = loop_member s
      \<and> table_mask (fst s') = (if b then (table_mask (fst s))(ra_fd ev := table_mask (fst s) (ra_fd ev) OR k) else table_mask (fst s))"
      using loop.add_law [OF v k, of p "ra_context ev"] by blast
    have "ctl_works e \<Longrightarrow> b" using loop_add_works [OF _ v k, of p "ra_context ev"] 2(1) by auto
    then show ?thesis using 2 by blast
  qed
  obtain br sr where ar: "loop_add e (ra_fd ev) AE_READABLE readEvent_proc (ra_context ev) s = Some (br, sr)" "loop_valid e sr"
    "loop_member sr = loop_member s" "ctl_works e \<longrightarrow> br"
    "table_mask (fst sr) = (if br then (table_mask (fst s))(ra_fd ev := table_mask (fst s) (ra_fd ev) OR AE_READABLE) else table_mask (fst s))"
    using add [OF 1(1)] by blast
  obtain bw sw where aw: "loop_add e (ra_fd ev) AE_WRITABLE writeEvent_proc (ra_context ev) s = Some (bw, sw)" "loop_valid e sw"
    "loop_member sw = loop_member s" "ctl_works e \<longrightarrow> bw"
    "table_mask (fst sw) = (if bw then (table_mask (fst s))(ra_fd ev := table_mask (fst s) (ra_fd ev) OR AE_WRITABLE) else table_mask (fst s))"
    using add [OF 1(2)] by blast
  from h show ?thesis
  proof
    assume "h = AddRead"
    then show ?thesis using ar v m by (cases "ra_reading ev"; cases "ra_writing ev"; cases br)
      (auto simp: st redisAeAddRead_def hook_defs events_of_def ae_codes Let_def)
  next
    assume "h = AddWrite"
    then show ?thesis using aw v m by (cases "ra_reading ev"; cases "ra_writing ev"; cases bw)
      (auto simp: st redisAeAddWrite_def hook_defs events_of_def ae_codes Let_def)
  qed
qed

lemma del_hook_ok:
  assumes h: "h = DelRead \<or> h = DelWrite" and a: "attached e st"
  shows "\<exists>st'. run_hook e h st = Some st' \<and> hook_ok e h st st'"
proof -
  obtain ev s where st: "st = (Some ev, s)" using a by (cases st) (auto simp: attached_def split: option.splits)
  have v: "loop_valid e s" "loop_member s (ra_fd ev)" using a by (auto simp: attached_def st)
  have m: "table_mask (fst s) (ra_fd ev) \<in> {0, 1, 2, 3}" "table_mask (fst s) (ra_fd ev) AND NOT (events_of (ra_reading ev, ra_writing ev)) = 0"
    using attached_mask [OF a] by (simp_all add: st watched_def ae_fd_def asked_def)
  have 1: "AE_READABLE \<in> {1, 2, 3}" "AE_WRITABLE \<in> {1, 2, 3}" by (simp_all add: ae_codes)
  obtain dr where dr: "loop_del e (ra_fd ev) AE_READABLE s = Some dr" "loop_valid e dr"
    "loop_member dr = loop_member s" "table_mask (fst dr) = (table_mask (fst s))(ra_fd ev := table_mask (fst s) (ra_fd ev) AND NOT AE_READABLE)"
    using loop.del_law [OF v 1(1)] by fastforce
  obtain dw where dw: "loop_del e (ra_fd ev) AE_WRITABLE s = Some dw" "loop_valid e dw"
    "loop_member dw = loop_member s" "table_mask (fst dw) = (table_mask (fst s))(ra_fd ev := table_mask (fst s) (ra_fd ev) AND NOT AE_WRITABLE)"
    using loop.del_law [OF v 1(2)] by fastforce
  from h show ?thesis
  proof
    assume "h = DelRead"
    then show ?thesis using dr v m by (cases "ra_reading ev"; cases "ra_writing ev")
      (auto simp: st redisAeDelRead_def hook_defs events_of_def ae_codes Let_def)
  next
    assume "h = DelWrite"
    then show ?thesis using dw v m by (cases "ra_reading ev"; cases "ra_writing ev")
      (auto simp: st redisAeDelWrite_def hook_defs events_of_def ae_codes Let_def)
  qed
qed

lemma hook_step: "attached e st \<Longrightarrow> h \<noteq> Cleanup \<Longrightarrow> \<exists>st'. run_hook e h st = Some st' \<and> hook_ok e h st st'"
  using add_hook_ok del_hook_ok by (cases h) blast+

text \<open>Cleaning up leaves nothing watched, also when registrations have failed.\<close>

lemma cleanup_step:
  assumes a: "attached e st"
  shows "\<exists>s. run_hook e Cleanup st = Some (None, s) \<and> watched (None, s) (ae_fd st) = 0 \<and> same_elsewhere (ae_fd st) st (None, s)"
proof -
  obtain s1 where 1: "run_hook e DelRead st = Some s1" "hook_ok e DelRead st s1" using hook_step [OF a] by blast
  have 2: "attached e s1" "ae_fd s1 = ae_fd st" "asked s1 = wants DelRead (asked st)" "same_elsewhere (ae_fd st) st s1"
    using 1(2) by (simp_all add: hook_ok_def)
  obtain s2 where 3: "run_hook e DelWrite s1 = Some s2" "hook_ok e DelWrite s1 s2" using hook_step [OF 2(1)] by blast
  have 4: "attached e s2" "ae_fd s2 = ae_fd st" "asked s2 = wants DelWrite (asked s1)" "same_elsewhere (ae_fd st) s1 s2"
    using 3(2) 2(2) by (simp_all add: hook_ok_def)
  have "asked s2 = (False, False)" using 2(3) 4(3) by (cases "asked st") simp
  then have "watched s2 (ae_fd st) = 0" using attached_mask [OF 4(1)] 4(2) by (simp add: events_of_def)
  moreover have "run_hook e Cleanup st = Some (None, snd s2)" using 1(1) 3(1) by (simp add: redisAeCleanup_def)
  moreover have "same_elsewhere (ae_fd st) st s2" using same_elsewhere_trans [OF 2(4) 4(4)] .
  ultimately show ?thesis by (simp add: watched_def same_elsewhere_def)
qed

lemma freed_hook: "run_hook e h (None, s) = None"
  by (cases h) (simp_all add: redisAeAddRead_def redisAeDelRead_def redisAeAddWrite_def redisAeDelWrite_def redisAeCleanup_def)

lemma run_hooks_append: "run_hooks e (hs @ hs') st = Option.bind (run_hooks e hs st) (run_hooks e hs')"
  by (induction hs arbitrary: st) (auto split: bind_splits)

lemma hooks_step:
  "attached e st \<Longrightarrow> Cleanup \<notin> set hs \<Longrightarrow>
    \<exists>st'. run_hooks e hs st = Some st' \<and> attached e st' \<and> ae_fd st' = ae_fd st \<and> asked st' = fold wants hs (asked st)
      \<and> same_elsewhere (ae_fd st) st st' \<and> (ctl_works e \<and> in_force st \<longrightarrow> in_force st')"
proof (induction hs arbitrary: st)
  case Nil
  then show ?case by (simp add: same_elsewhere_def)
next
  case (Cons h hs)
  have "h \<noteq> Cleanup" using Cons.prems(2) by auto
  then obtain s1 where 1: "run_hook e h st = Some s1" "hook_ok e h st s1" using hook_step [OF Cons.prems(1)] by blast
  then have a: "attached e s1" "ae_fd s1 = ae_fd st" "asked s1 = wants h (asked st)" "same_elsewhere (ae_fd st) st s1"
    "ctl_works e \<and> in_force st \<longrightarrow> in_force s1" by (simp_all add: hook_ok_def)
  from Cons.IH [OF a(1)] Cons.prems(2) obtain s2 where 2: "run_hooks e hs s1 = Some s2" "attached e s2" "ae_fd s2 = ae_fd s1"
    "asked s2 = fold wants hs (asked s1)" "same_elsewhere (ae_fd s1) s1 s2" "ctl_works e \<and> in_force s1 \<longrightarrow> in_force s2" by auto
  then show ?case using 1(1) a same_elsewhere_trans by (intro exI [of _ s2]) auto
qed

text \<open>A registration that fails is not tried again: the flag is set all the same.\<close>

lemma failed_add_is_not_retried:
  assumes "redisAeAddRead e (Some ev, s) = Some st" "\<not> ra_reading ev" "loop_add e (ra_fd ev) AE_READABLE readEvent_proc (ra_context ev) s = Some (False, s')"
  shows "redisAeAddRead e st = Some (Some (ev\<lparr>ra_reading := True\<rparr>), s')"
  using assms by (auto simp: redisAeAddRead_def Let_def)

text \<open>C34. The adapter keeps the loop's registration what the hooks of the context last asked for. From a
  context on the loop, any sequence of the hooks, repeated and redundant ones included, runs through as long as cleaning up is
  its last call at most, and after it the loop watches the descriptor only for what was last asked for: for
  reading only if reading was last added, for writing only if writing was last added, for nothing after a cleanup, which
  also frees the record. If moreover \<^verbatim>\<open>epoll_ctl\<close> never fails and the context was in force before, the loop watches for
  all that was asked for. It watches all other descriptors as before. A hook
  after a cleanup uses the freed record: such a run has no meaning.\<close>

theorem adapter_follows_hooks:
  assumes "attached e st"
  shows "if Cleanup \<in> set (butlast hs) then run_hooks e hs st = None
    else \<exists>r s. run_hooks e hs st = Some (r, s) \<and> (r = None \<longleftrightarrow> Cleanup \<in> set hs)
      \<and> watched (r, s) (ae_fd st) AND NOT (events_of (fold wants hs (asked st))) = 0
      \<and> (ctl_works e \<longrightarrow> in_force st \<longrightarrow> watched (r, s) (ae_fd st) = events_of (fold wants hs (asked st)))
      \<and> (\<forall>fd. fd \<noteq> ae_fd st \<longrightarrow> watched (r, s) fd = watched st fd)"
proof (cases "Cleanup \<in> set hs")
  case False
  then have b: "Cleanup \<notin> set (butlast hs)" by (meson in_set_butlastD)
  obtain r s where 1: "run_hooks e hs st = Some (r, s)" "attached e (r, s)" "ae_fd (r, s) = ae_fd st" "asked (r, s) = fold wants hs (asked st)"
    "same_elsewhere (ae_fd st) st (r, s)" "ctl_works e \<and> in_force st \<longrightarrow> in_force (r, s)"
    using hooks_step [OF assms False] by (metis surj_pair)
  have "r \<noteq> None" using 1(2) by (auto simp: attached_def split: option.splits)
  then show ?thesis using 1 b False attached_mask [OF 1(2)] by (auto simp: in_force_def same_elsewhere_def)
next
  case True
  then obtain h1 h2 where hs: "hs = h1 @ Cleanup # h2" and n: "Cleanup \<notin> set h1" using split_list_first by metis
  obtain s1 where 1: "run_hooks e h1 st = Some s1" "attached e s1" "ae_fd s1 = ae_fd st" "same_elsewhere (ae_fd st) st s1"
    using hooks_step [OF assms n] by blast
  obtain s where 2: "run_hook e Cleanup s1 = Some (None, s)" "watched (None, s) (ae_fd s1) = 0" "same_elsewhere (ae_fd s1) s1 (None, s)"
    using cleanup_step [OF 1(2)] by blast
  have run: "run_hooks e hs st = run_hooks e h2 (None, s)" using 1(1) 2(1) by (simp add: hs run_hooks_append)
  show ?thesis
  proof (cases h2)
    case Nil
    have "fold wants hs (asked st) = (False, False)" by (cases "fold wants h1 (asked st)") (simp add: hs Nil)
    then show ?thesis using run 2 1(3) same_elsewhere_trans [OF 1(4)] n by (simp add: hs Nil events_of_def same_elsewhere_def butlast_append)
  next
    case (Cons h h3)
    then have "Cleanup \<in> set (butlast hs)" by (simp add: hs butlast_append)
    moreover have "run_hooks e hs st = None" using run Cons freed_hook by simp
    ultimately show ?thesis by simp
  qed
qed

theorem adapter_follows_hooks_witness:
  "\<exists>r s. run_hooks (small_world renew) [AddRead, AddWrite, AddRead, DelWrite]
      (Some \<lparr>ra_context = 0, ra_fd = 3, ra_reading = False, ra_writing = False\<rparr>, example_loop, example_log) = Some (r, s)
    \<and> watched (r, s) 3 = AE_READABLE \<and> watched (r, s) 5 = AE_READABLE"
proof -
  let ?st = "(Some \<lparr>ra_context = 0, ra_fd = 3, ra_reading = False, ra_writing = False\<rparr>, example_loop, example_log) :: ae_state"
  have w: "ctl_works (small_world renew)" by (simp add: ctl_works_def small_world_def)
  have m: "table_mask example_loop 3 = 0" "table_mask example_loop 5 = 1" "el_setsize example_loop = 8"
    by (simp_all add: table_mask_def mask_of_def example_loop_def unset_event_def AE_NONE_def)
  have "ctl_reliable (small_world renew)" using w by (simp add: ctl_works_def ctl_reliable_def)
  then have a: "attached (small_world renew) ?st"
    using example_in_step m by (simp add: attached_def loop_valid_def loop_member_def events_of_def)
  have d: "ae_fd ?st = 3" "asked ?st = (False, False)" "watched ?st 3 = 0" "watched ?st 5 = 1" "in_force ?st"
    using m by (simp_all add: ae_fd_def asked_def watched_def in_force_def events_of_def)
  from adapter_follows_hooks [OF a, of "[AddRead, AddWrite, AddRead, DelWrite]"] w d
  show ?thesis by (auto simp: events_of_def ae_codes)
qed

end
