(* ===== verification/RedisConn.thy ===== *)
theory RedisConn
  imports AeAdapter
begin

unbundle bit_operations_syntax

text \<open>
  The C++ interface of \<^verbatim>\<open>redisClient/src\<close>: a connection (\<^verbatim>\<open>RedisConn\<close>) owns an asynchronous context
  and reconnects from a timer of the event manager (\<^verbatim>\<open>HiredisEventMgr\<close>). The callback objects a
  program allocates are numbers; those that exist are kept as the set of live objects. The three
  static callbacks are the functions 1 to 3 of the context. What the static callbacks do is a
  function of the events of the context, applied in order. What the virtual function \<^verbatim>\<open>CmdCallBack\<close>
  asks of the context is the program parameter of the asynchronous context. Log output is left out.
\<close>

section \<open>State\<close>

datatype conn_state = S_INIT | S_CONNECTIING | S_PROC | S_DISCONNECTING

datatype context_ptr = NULL | Context async_context | Dangling

record redis_conn =
  rn_port :: int
  rn_host :: "byte list"
  rn_context :: context_ptr
  rn_state :: conn_state
  rn_new_opt :: "int option"
  rn_live :: "int set"
  rn_next_opt :: int

definition ConnectCallback_fn :: nat where "ConnectCallback_fn = 1"
definition DisconnectCallback_fn :: nat where "DisconnectCallback_fn = 2"
definition StaticCmdCallback_fn :: nat where "StaticCmdCallback_fn = 3"

definition new_RedisConn :: redis_conn where
  "new_RedisConn = \<lparr>rn_port = 0, rn_host = [], rn_context = NULL, rn_state = S_INIT, rn_new_opt = None, rn_live = {}, rn_next_opt = 1\<rparr>"

section \<open>The static callbacks\<close>

definition ConnectCallback :: "int \<Rightarrow> redis_conn \<Rightarrow> redis_conn" where
  "ConnectCallback status conn =
     (if status \<noteq> REDIS_OK then conn\<lparr>rn_state := S_INIT, rn_context := NULL\<rparr> else conn\<lparr>rn_state := S_PROC\<rparr>)"

definition DisconnectCallback :: "int \<Rightarrow> redis_conn \<Rightarrow> redis_conn" where
  "DisconnectCallback status conn = conn\<lparr>rn_state := S_INIT, rn_context := NULL\<rparr>"

text \<open>The guard deletes the object; calling one that does not exist is undefined.\<close>

definition StaticCmdCallback :: "int \<Rightarrow> redis_conn \<Rightarrow> redis_conn option" where
  "StaticCmdCallback opt conn =
     (if opt \<in> rn_live conn then Some (conn\<lparr>rn_live := rn_live conn - {opt}\<rparr>) else None)"

fun conn_event :: "aevent \<Rightarrow> redis_conn \<Rightarrow> redis_conn option" where
  "conn_event (OnConnect fn status) conn = Some (if fn = ConnectCallback_fn then ConnectCallback status conn else conn)"
| "conn_event (OnDisconnect fn status) conn = Some (if fn = DisconnectCallback_fn then DisconnectCallback status conn else conn)"
| "conn_event (Replied fn opt reply) conn = (if fn = StaticCmdCallback_fn then StaticCmdCallback opt conn else Some conn)"
| "conn_event _ conn = Some conn"

fun conn_events :: "aevent list \<Rightarrow> redis_conn \<Rightarrow> redis_conn option" where
  "conn_events [] conn = Some conn"
| "conn_events (x # xs) conn = Option.bind (conn_event x conn) (conn_events xs)"

text \<open>
  A function of the context is called by the event loop or by the destructor: its events reach the
  connection, and the connection's pointer, unless a callback has cleared it, follows the context.
\<close>

definition on_context ::
  "(async_context \<Rightarrow> aworld \<Rightarrow> (async_context option \<times> aworld) option) \<Rightarrow> redis_conn \<Rightarrow> aworld \<Rightarrow> (redis_conn \<times> aworld) option" where
  "on_context f conn w =
     (case rn_context conn of
        Context ac \<Rightarrow>
          (case f ac w of
             None \<Rightarrow> None
           | Some (ac', w') \<Rightarrow>
               map_option (\<lambda>conn. (conn\<lparr>rn_context := (case rn_context conn of
                     NULL \<Rightarrow> NULL
                   | _ \<Rightarrow> (case ac' of None \<Rightarrow> Dangling | Some ac' \<Rightarrow> Context ac'))\<rparr>, w'))
                 (conn_events (rev (take (length (aw_log w') - length (aw_log w)) (aw_log w'))) conn))
      | _ \<Rightarrow> None)"

section \<open>Connecting\<close>

text \<open>\<open>aeLoop\<close> says whether the manager has a loop.\<close>

definition Connect :: "'d aenv \<Rightarrow> bool \<Rightarrow> redis_conn \<Rightarrow> aworld \<Rightarrow> (bool \<times> redis_conn \<times> aworld) option" where
  "Connect ae aeLoop conn w =
     (if \<not> aeLoop then Some (False, conn, w)
      else if rn_state conn \<noteq> S_INIT then Some (False, conn, w)
      else
        case redisAsyncConnect (a_env ae) (rn_host conn) (rn_port conn) (aw_os w) of
          None \<Rightarrow> None
        | Some (None, os) \<Rightarrow> Some (False, conn\<lparr>rn_context := NULL\<rparr>, w\<lparr>aw_os := os\<rparr>)
        | Some (Some ac, os) \<Rightarrow>
            let w = w\<lparr>aw_os := os\<rparr> in
            if ac_err ac \<noteq> 0 then Some (False, conn\<lparr>rn_context := Context ac\<rparr>, w)
            else
              case redisAeAttach (e_mem (a_env ae)) 0 ac of
                None \<Rightarrow> None
              | Some (st, ev, ac) \<Rightarrow>
                  let (st, ac, w) = redisAsyncSetConnectCallback ac (Some ConnectCallback_fn) w;
                      (st, ac) = redisAsyncSetDisconnectCallback ac (Some DisconnectCallback_fn)
                  in Some (True, conn\<lparr>rn_context := Context ac, rn_state := S_CONNECTIING\<rparr>, w))"

definition Init :: "'d aenv \<Rightarrow> bool \<Rightarrow> byte list \<Rightarrow> int \<Rightarrow> redis_conn \<Rightarrow> aworld \<Rightarrow> (bool \<times> redis_conn \<times> aworld) option" where
  "Init ae aeLoop ip port conn w =
     (if rn_port conn \<noteq> 0 then Some (False, conn, w) else Connect ae aeLoop (conn\<lparr>rn_port := port, rn_host := ip\<rparr>) w)"

definition TryReconnectTimer :: "'d aenv \<Rightarrow> bool \<Rightarrow> redis_conn \<Rightarrow> aworld \<Rightarrow> (redis_conn \<times> aworld) option" where
  "TryReconnectTimer ae aeLoop conn w =
     (if rn_state conn \<noteq> S_INIT then Some (conn, w) else map_option snd (Connect ae aeLoop conn w))"

definition RedisConn_IsConnect :: "redis_conn \<Rightarrow> bool" where
  "RedisConn_IsConnect conn \<longleftrightarrow> rn_state conn = S_PROC"

text \<open>The destructor's part on the context.\<close>

definition delete_RedisConn :: "'d aenv \<Rightarrow> redis_conn \<Rightarrow> aworld \<Rightarrow> (redis_conn \<times> aworld) option" where
  "delete_RedisConn ae conn w =
     (if rn_context conn \<noteq> NULL then on_context (redisAsyncDisconnect ae) conn w else Some (conn, w))"

section \<open>Commands\<close>

definition CreateOpt :: "redis_conn \<Rightarrow> int \<times> redis_conn" where
  "CreateOpt conn =
     (let conn = (case rn_new_opt conn of
            None \<Rightarrow> conn | Some opt \<Rightarrow> conn\<lparr>rn_live := rn_live conn - {opt}, rn_new_opt := None\<rparr>);
          p = rn_next_opt conn
      in (p, conn\<lparr>rn_live := insert p (rn_live conn), rn_next_opt := p + 1, rn_new_opt := Some p\<rparr>))"

text \<open>The common start of the two functions; a null object is the private data 0.\<close>

definition with_opt ::
  "int option \<Rightarrow> redis_conn \<Rightarrow> aworld \<Rightarrow> (async_context \<Rightarrow> int \<Rightarrow> (int \<times> async_context \<times> aworld) option)
     \<Rightarrow> (int \<times> redis_conn \<times> aworld) option" where
  "with_opt cb_data conn w issue =
     (case rn_context conn of
        NULL \<Rightarrow> Some (REDIS_ERR, conn, w)
      | p \<Rightarrow>
          if cb_data \<noteq> rn_new_opt conn then Some (REDIS_ERR, conn, w)
          else
            case p of
              Context ac \<Rightarrow>
                map_option (\<lambda>(st, ac, w). (st, conn\<lparr>rn_new_opt := None, rn_context := Context ac\<rparr>, w))
                  (issue ac (case cb_data of None \<Rightarrow> 0 | Some opt \<Rightarrow> opt))
            | _ \<Rightarrow> None)"

text \<open>
  The variable arguments are handed on as one argument, a \<^verbatim>\<open>va_list\<close>: a format with a conversion
  reads arguments that are not there.
\<close>

definition RedisAsyncCmd :: "'d aenv \<Rightarrow> int option \<Rightarrow> byte list \<Rightarrow> 'd va_arg list \<Rightarrow> redis_conn \<Rightarrow> aworld
     \<Rightarrow> (int \<times> redis_conn \<times> aworld) option" where
  "RedisAsyncCmd ae cb_data format ap conn w =
     with_opt cb_data conn w (\<lambda>ac opt. redisAsyncCommand (a_env ae) (Some StaticCmdCallback_fn) opt format [] ac w)"

definition RedisAsyncCmdArgv :: "'d aenv \<Rightarrow> int option \<Rightarrow> byte list list \<Rightarrow> nat list option \<Rightarrow> redis_conn \<Rightarrow> aworld
     \<Rightarrow> (int \<times> redis_conn \<times> aworld) option" where
  "RedisAsyncCmdArgv ae cb_data argv argvlen conn w =
     with_opt cb_data conn w (\<lambda>ac opt. redisAsyncCommandArgv (a_env ae) (Some StaticCmdCallback_fn) opt argv argvlen ac w)"

section \<open>The event manager\<close>

definition TIMER_MILLISECONDS :: int where "TIMER_MILLISECONDS = 5 * 1000"
definition MAX_REDIS_EVENT_SIZE :: int where "MAX_REDIS_EVENT_SIZE = 64"

text \<open>
  The set of connections is a list of addresses in their order; a connection's object is found by
  its address. \<open>TimerCb\<close> and its finalizer are the functions 10 and 11 of the loop.
\<close>

record event_mgr =
  em_loop :: "aeEventLoop option"
  em_connectSet :: "nat list"

definition TimerCb_fn :: nat where "TimerCb_fn = 10"
definition TimerFinCb_fn :: nat where "TimerFinCb_fn = 11"

definition new_HiredisEventMgr :: event_mgr where
  "new_HiredisEventMgr = \<lparr>em_loop = None, em_connectSet = []\<rparr>"

definition AddRedisConn :: "nat \<Rightarrow> event_mgr \<Rightarrow> bool \<times> event_mgr" where
  "AddRedisConn p em = (p \<notin> set (em_connectSet em), em\<lparr>em_connectSet := sorted_list_of_set (insert p (set (em_connectSet em)))\<rparr>)"

definition DelRedisConn :: "nat \<Rightarrow> event_mgr \<Rightarrow> bool \<times> event_mgr" where
  "DelRedisConn p em = (p \<in> set (em_connectSet em), em\<lparr>em_connectSet := sorted_list_of_set (set (em_connectSet em) - {p})\<rparr>)"

text \<open>Constructing and destroying a connection at an address.\<close>

definition construct_RedisConn :: "nat \<Rightarrow> event_mgr \<Rightarrow> redis_conn \<times> event_mgr" where
  "construct_RedisConn p em = (new_RedisConn, snd (AddRedisConn p em))"

definition destroy_RedisConn :: "'d aenv \<Rightarrow> nat \<Rightarrow> redis_conn \<Rightarrow> event_mgr \<Rightarrow> aworld \<Rightarrow> (event_mgr \<times> aworld) option" where
  "destroy_RedisConn ae p conn em w = map_option (\<lambda>(conn, w). (snd (DelRedisConn p em), w)) (delete_RedisConn ae conn w)"

definition SetTimer :: "ae_env \<Rightarrow> aeEventLoop \<Rightarrow> ae_log \<Rightarrow> (bool \<times> aeEventLoop \<times> ae_log) option" where
  "SetTimer e el l =
     map_option (\<lambda>(tid, el, l). (\<not> tid < 0, el, l))
       (aeCreateTimeEvent e TIMER_MILLISECONDS TimerCb_fn 0 (Some TimerFinCb_fn) el l)"

definition mgr_Init :: "ae_env \<Rightarrow> event_mgr \<Rightarrow> ae_log \<Rightarrow> (bool \<times> event_mgr \<times> ae_log) option" where
  "mgr_Init e em l =
     (if em_loop em \<noteq> None then Some (False, em, l)
      else
        case aeCreateEventLoop e MAX_REDIS_EVENT_SIZE l of
          None \<Rightarrow> None
        | Some (None, l) \<Rightarrow> Some (False, em, l)
        | Some (Some el, l) \<Rightarrow>
            map_option (\<lambda>(ok, el, l). (True, em\<lparr>em_loop := Some el\<rparr>, l)) (SetTimer e (el\<lparr>el_stop := False\<rparr>) l))"

definition Proc :: "ae_env \<Rightarrow> event_mgr \<Rightarrow> ae_log \<Rightarrow> (event_mgr \<times> ae_log) option" where
  "Proc e em l =
     (case em_loop em of
        None \<Rightarrow> None
      | Some el \<Rightarrow>
          if \<not> el_stop el then
            map_option (\<lambda>(n, el, l). (em\<lparr>em_loop := Some el\<rparr>, l)) (aeProcessEvents e (AE_DONT_WAIT OR AE_ALL_EVENTS) el l)
          else Some (em, l))"

definition delete_HiredisEventMgr :: "ae_env \<Rightarrow> event_mgr \<Rightarrow> ae_log \<Rightarrow> event_mgr \<times> ae_log" where
  "delete_HiredisEventMgr e em l =
     (case em_loop em of None \<Rightarrow> (em, l) | Some el \<Rightarrow> (em\<lparr>em_loop := None\<rparr>, aeDeleteEventLoop e el l))"

text \<open>The timer callback: every connection of the set tries to reconnect, in order.\<close>

fun reconnect_all :: "'d aenv \<Rightarrow> nat list \<Rightarrow> (nat \<Rightarrow> redis_conn) \<Rightarrow> aworld \<Rightarrow> ((nat \<Rightarrow> redis_conn) \<times> aworld) option" where
  "reconnect_all ae [] conns w = Some (conns, w)"
| "reconnect_all ae (p # ps) conns w =
     (case TryReconnectTimer ae True (conns p) w of
        None \<Rightarrow> None
      | Some (conn, w) \<Rightarrow> reconnect_all ae ps (conns(p := conn)) w)"

definition TimerCb :: "'d aenv \<Rightarrow> event_mgr \<Rightarrow> (nat \<Rightarrow> redis_conn) \<Rightarrow> aworld \<Rightarrow> (int \<times> (nat \<Rightarrow> redis_conn) \<times> aworld) option" where
  "TimerCb ae em conns w =
     map_option (\<lambda>(conns, w). (TIMER_MILLISECONDS, conns, w)) (reconnect_all ae (em_connectSet em) conns w)"


section \<open>What happens to the objects of a program\<close>

lemma conn_events_calls: "conn_events evs conn = conn_events (filter is_call evs) conn"
proof (induction evs arbitrary: conn)
  case (Cons x evs)
  then show ?case by (cases x) (auto intro: arg_cong2 [where f = Option.bind])
qed simp

lemma conn_events_replies:
  "distinct opts \<Longrightarrow> set opts \<subseteq> rn_live conn \<Longrightarrow>
    conn_events (map (\<lambda>opt. Replied StaticCmdCallback_fn opt None) opts @ rest) conn
      = conn_events rest (conn\<lparr>rn_live := rn_live conn - set opts\<rparr>)"
proof (induction opts arbitrary: conn)
  case (Cons opt opts)
  let ?c = "conn\<lparr>rn_live := rn_live conn - {opt}\<rparr>"
  have "set opts \<subseteq> rn_live ?c" using Cons.prems by auto
  from Cons.IH [OF _ this] Cons.prems show ?case by (simp add: StaticCmdCallback_def Diff_insert2 [symmetric] insert_commute)
qed simp

text \<open>The objects a context still has to call.\<close>

definition opts_of :: "async_context \<Rightarrow> int list" where
  "opts_of ac = map cb_privdata (ac_replies ac @ ac_invalid ac)"

definition commands_only :: "async_context \<Rightarrow> bool" where
  "commands_only ac \<longleftrightarrow> (\<forall>cb \<in> set (ac_replies ac @ ac_invalid ac). cb_fn cb = Some StaticCmdCallback_fn)
     \<and> subs_ok (ac_channels ac) \<and> subs_ok (ac_patterns ac) \<and> entries (ac_channels ac) = [] \<and> entries (ac_patterns ac) = []"

lemma ends_of_commands:
  "\<forall>cb \<in> set cbs. cb_fn cb = Some StaticCmdCallback_fn \<Longrightarrow>
    concat (map ends cbs) = map (\<lambda>opt. Replied StaticCmdCallback_fn opt None) (map cb_privdata cbs)"
  by (induction cbs) (auto simp: ends_def)

text \<open>C6. A broken connection is cleaned up and can be opened again. The connection is up and has no
  subscription: what its context waits for are the commands of \<^verbatim>\<open>RedisAsyncCmd\<close>, each with an object of its
  own that still exists. When it loses its server, each of these objects is called exactly once, in order and with a
  null reply, and deleted; the context is freed, which closes the socket, and the connection is back in its initial
  state, so that the next tick of the timer connects again. The callbacks may ask the context for commands, a
  disconnect or a release while this happens (\<open>client_ok\<close>: memory lasts and a command has less than 2^31
  bytes; \<open>keeps_off\<close>: the disconnect callback of the class does not close the context once more); these
  commands are refused, and an object made for one of them stays allocated. A subscription whose object gets a second
  message is another matter: the object is gone by then.\<close>

theorem broken_connection_is_cleaned_up:
  assumes cl: "client_ok ae" "keeps_off ae"
    and conn: "rn_context conn = Context ac" "commands_only ac" "distinct (opts_of ac)" "set (opts_of ac) \<subseteq> rn_live conn"
    and ac: "\<not> has_flag REDIS_IN_CALLBACK ac" "has_flag REDIS_CONNECTED ac" "ac_onDisconnect ac = Some DisconnectCallback_fn"
    and broken: "redisBufferRead (a_env ae) (ac_c ac) (aw_os w) = Some (REDIS_ERR, c', os')"
  shows "\<exists>conn' w' evs st. on_context (redisAsyncHandleRead ae) conn w = Some (conn', w') \<and> aw_log w' = rev evs @ aw_log w
    \<and> filter is_call evs = map (\<lambda>opt. Replied StaticCmdCallback_fn opt None) (opts_of ac) @ [OnDisconnect DisconnectCallback_fn st]
    \<and> rn_live conn' = rn_live conn - set (opts_of ac) \<and> rn_state conn' = S_INIT \<and> rn_context conn' = NULL
    \<and> aw_os w' = redisFree (a_env ae) c' os' \<and> TryReconnectTimer ae True conn' w' = map_option snd (Connect ae True conn' w')"
proof -
  have d: "subs_ok (ac_channels ac)" "subs_ok (ac_patterns ac)" "subscribers (ac_channels ac) = []" "subscribers (ac_patterns ac) = []"
    using conn(2) by (simp_all add: commands_only_def subscribers_def)
  obtain w' evs st where r: "redisAsyncHandleRead ae ac w = Some (None, w')" "aw_log w' = rev evs @ aw_log w"
    "filter is_call evs = concat (map ends (ac_replies ac @ ac_invalid ac @ subscribers (ac_channels ac) @ subscribers (ac_patterns ac)))
       @ farewell ac st" "aw_os w' = redisFree (a_env ae) c' os'"
    using broken_step [OF cl ac(1,2) d(1,2) broken] by blast
  have "farewell ac st = [OnDisconnect DisconnectCallback_fn st]" using ac(2,3) by (simp add: farewell_def)
  moreover have "concat (map ends (ac_replies ac @ ac_invalid ac)) = map (\<lambda>opt. Replied StaticCmdCallback_fn opt None) (opts_of ac)"
    unfolding opts_of_def by (rule ends_of_commands) (use conn(2) in \<open>simp add: commands_only_def\<close>)
  ultimately have calls: "filter is_call evs
      = map (\<lambda>opt. Replied StaticCmdCallback_fn opt None) (opts_of ac) @ [OnDisconnect DisconnectCallback_fn st]"
    using r(3) d(3,4) by simp
  let ?conn = "conn\<lparr>rn_live := rn_live conn - set (opts_of ac), rn_state := S_INIT, rn_context := NULL\<rparr>"
  have "conn_events evs conn = Some ?conn"
    unfolding conn_events_calls [of evs] calls conn_events_replies [OF conn(3,4)] by (simp add: DisconnectCallback_def)
  moreover have "rev (take (length (aw_log w') - length (aw_log w)) (aw_log w')) = evs" using r(2) by simp
  ultimately have "on_context (redisAsyncHandleRead ae) conn w = Some (?conn, w')"
    using conn(1) r(1) by (simp add: on_context_def)
  then show ?thesis using r(2,4) calls
    by (intro exI [of _ ?conn] exI [of _ w'] exI [of _ evs] exI [of _ st]) (simp add: TryReconnectTimer_def)
qed

definition busy_conn :: redis_conn where
  "busy_conn = new_RedisConn\<lparr>rn_port := 6379, rn_state := S_PROC, rn_live := {10, 20, 30}, rn_context := Context (waiting_context
     \<lparr>ac_onDisconnect := Some DisconnectCallback_fn, ac_replies := [\<lparr>cb_fn = Some StaticCmdCallback_fn, cb_privdata = 10\<rparr>,
        \<lparr>cb_fn = Some StaticCmdCallback_fn, cb_privdata = 20\<rparr>]\<rparr>)\<rparr>"

theorem broken_connection_is_cleaned_up_witness:
  "\<exists>conn' w' evs st. on_context (redisAsyncHandleRead (pushy_env [])) busy_conn
        \<lparr>aw_os = \<lparr>w_trace = [], w_errno = 0\<rparr>, aw_log = []\<rparr> = Some (conn', w')
     \<and> aw_log w' = rev evs \<and> filter is_call evs = [Replied StaticCmdCallback_fn 10 None, Replied StaticCmdCallback_fn 20 None,
         OnDisconnect DisconnectCallback_fn st]
     \<and> rn_live conn' = {30} \<and> rn_state conn' = S_INIT \<and> rn_context conn' = NULL"
proof -
  let ?ae = "pushy_env []" and ?w = "\<lparr>aw_os = \<lparr>w_trace = [], w_errno = 0\<rparr>, aw_log = []\<rparr>"
  obtain ac where ac: "rn_context busy_conn = Context ac" "rc_fd (ac_c ac) = 5" "rc_err (ac_c ac) = 0" "opts_of ac = [10, 20]"
    "ac_onDisconnect ac = Some DisconnectCallback_fn" "\<not> has_flag REDIS_IN_CALLBACK ac" "has_flag REDIS_CONNECTED ac" "commands_only ac"
    using waiting_context_ok
    by (auto simp: busy_conn_def opts_of_def waiting_context_def has_flag_def commands_only_def REDIS_IN_CALLBACK_def REDIS_CONNECTED_def
        entries_def dict_init_def)
  obtain c' os' where r: "redisBufferRead (a_env ?ae) (ac_c ac) (aw_os ?w) = Some (REDIS_ERR, c', os')"
    using ac(2,3) by (simp add: pushy_env_def redisBufferRead_def syscall_def scripted_env_def scripted_os_def Let_def)
  have live: "rn_live busy_conn = {10, 20, 30}" by (simp add: busy_conn_def)
  have "distinct (opts_of ac)" "set (opts_of ac) \<subseteq> rn_live busy_conn" using ac(4) live by simp_all
  from broken_connection_is_cleaned_up [OF pushy_env_ok ac(1,8) this ac(6,7,5) r] ac(4) live
  show ?thesis by auto
qed


text \<open>C17. A command that is refused leaks its object: on a context that is closing (as it is while the
  callbacks of a broken connection run, the moment to try a command again), \<^verbatim>\<open>RedisAsyncCmdArgv\<close>
  returns \<^verbatim>\<open>REDIS_ERR\<close>, and the object it was given, which the connection has forgotten by then, is
  neither deleted nor queued for a call: it stays allocated whatever the connection does next,
  \<^verbatim>\<open>CreateOpt\<close> included.\<close>

theorem refused_command_leaks_object:
  assumes "rn_context conn = Context ac" "closing ac" "rn_new_opt conn = Some opt" "opt \<in> rn_live conn" "opt < rn_next_opt conn"
    "opt \<notin> set (opts_of ac)" "length (encode_command argv) < 2 ^ 31" "\<forall>n. e_mem (a_env ae) n"
  shows "\<exists>conn'. RedisAsyncCmdArgv ae (Some opt) argv (Some (map length argv)) conn w = Some (REDIS_ERR, conn', w)
    \<and> (\<exists>ac'. rn_context conn' = Context ac' \<and> opt \<notin> set (opts_of ac')) \<and> opt \<in> rn_live conn' \<and> rn_new_opt conn' = None
    \<and> opt \<in> rn_live (snd (CreateOpt conn')) \<and> fst (CreateOpt conn') \<noteq> opt"
proof -
  let ?conn = "conn\<lparr>rn_new_opt := None, rn_context := Context ac\<rparr>"
  have "RedisAsyncCmdArgv ae (Some opt) argv (Some (map length argv)) conn w = Some (REDIS_ERR, ?conn, w)"
    using assms(1,3) command_refused [OF assms(2,7,8)] by (simp add: RedisAsyncCmdArgv_def with_opt_def)
  then show ?thesis using assms(4-6) by (intro exI [of _ ?conn]) (simp add: CreateOpt_def Let_def)
qed

theorem refused_command_leaks_object_witness:
  "\<exists>conn' opt ac. CreateOpt busy_conn = (opt, conn') \<and> rn_context busy_conn = Context ac
     \<and> (let closing_conn = conn'\<lparr>rn_context := Context (set_flag REDIS_DISCONNECTING ac), rn_next_opt := 40\<rparr> in
        \<exists>c. RedisAsyncCmdArgv \<lparr>a_env = scripted_env [], a_client = \<lambda>l. []\<rparr> (Some opt) [''PING''] (Some (map length [''PING'']))
              closing_conn \<lparr>aw_os = \<lparr>w_trace = [], w_errno = 0\<rparr>, aw_log = []\<rparr> = Some (REDIS_ERR, c, \<lparr>aw_os = \<lparr>w_trace = [], w_errno = 0\<rparr>, aw_log = []\<rparr>)
          \<and> opt \<in> rn_live c \<and> rn_new_opt c = None)"
proof -
  obtain ac where ac: "rn_context busy_conn = Context ac" "opts_of ac = [10, 20]"
    by (auto simp: busy_conn_def opts_of_def waiting_context_def)
  let ?ac = "set_flag REDIS_DISCONNECTING ac"
  obtain opt conn' where c: "CreateOpt busy_conn = (opt, conn')" by (cases "CreateOpt busy_conn")
  then have o: "opt = 1" "rn_new_opt conn' = Some 1" "1 \<in> rn_live conn'"
    by (auto simp: CreateOpt_def busy_conn_def new_RedisConn_def)
  let ?conn = "conn'\<lparr>rn_context := Context ?ac, rn_next_opt := 40\<rparr>"
  have "closing ?ac" unfolding closing_def flag_bits has_flag_bit set_flag_bit by simp
  moreover have "1 \<notin> set (opts_of ?ac)" using ac(2) by (simp add: opts_of_def set_flag_def)
  moreover have "length (encode_command [''PING'']) < 2 ^ 31" by (simp add: encode_command_def bulk_def dec_of_nat.simps)
  ultimately have "\<exists>c. RedisAsyncCmdArgv \<lparr>a_env = scripted_env [], a_client = \<lambda>l. []\<rparr> (Some 1) [''PING''] (Some (map length [''PING'']))
      ?conn \<lparr>aw_os = \<lparr>w_trace = [], w_errno = 0\<rparr>, aw_log = []\<rparr> = Some (REDIS_ERR, c, \<lparr>aw_os = \<lparr>w_trace = [], w_errno = 0\<rparr>, aw_log = []\<rparr>)
      \<and> 1 \<in> rn_live c \<and> rn_new_opt c = None"
    using refused_command_leaks_object [of ?conn ?ac 1 "[''PING'']" "\<lparr>a_env = scripted_env [], a_client = \<lambda>l. []\<rparr>"
        "\<lparr>aw_os = \<lparr>w_trace = [], w_errno = 0\<rparr>, aw_log = []\<rparr>"] o
    by (fastforce simp: scripted_env_def)
  then show ?thesis using c ac(1) o(1) by (auto simp: Let_def)
qed

end
