(* ===== verification/Listener.thy ===== *)
theory Listener
  imports Connector StdMap StepRun "HOL-Library.Monad_Syntax"
begin

text \<open>
  \<^verbatim>\<open>ClientSimulate/lib_prj/listener.{h,cc}\<close>: the accepted connections (\<^verbatim>\<open>ListenerConnector\<close>, a
  \<^verbatim>\<open>BaseConnect\<close>), the manager that owns them (\<^verbatim>\<open>BaseConnectorMgr\<close>) and the \<^verbatim>\<open>Listener\<close> that
  creates them.

  The manager deletes its objects while their member functions run, so the objects live in an
  explicit heap and an operation is partial: \<open>None\<close> is the use of an object that has been
  deleted, or of a null pointer. What a derived class does in a callback is a list of calls of
  the library's public functions (\<open>user_act\<close>). A map from ids to pointers is the ordered map of
  theory StdMap. libevent, \<^verbatim>\<open>inet_addr\<close> and the bytes of fresh memory are parameters.
\<close>

section \<open>Data\<close>

type_synonym obj_ptr = nat

record ListenerConnector =
  conn_base :: BaseConnect
  m_cn_mgr :: "unit option"
  m_id :: "64 word"
  m_svr_addr :: sockaddr_in
  m_ignore_free :: bool

text \<open>
  The heap of connection objects, the next address \<^verbatim>\<open>new\<close> gives, the static \<^verbatim>\<open>id_seed\<close>, the map of
  the manager, and the addresses deleted so far, in order.
\<close>

record cn_world =
  objs :: "obj_ptr \<Rightarrow> ListenerConnector option"
  fresh_ptr :: obj_ptr
  id_seed :: "64 word"
  m_all_connector :: "(64 word, obj_ptr) smap"
  deleted :: "obj_ptr list"

definition cn_start :: cn_world where
  "cn_start = \<lparr>objs = Map.empty, fresh_ptr = 0, id_seed = 0, m_all_connector = [], deleted = []\<rparr>"

definition put_obj :: "obj_ptr \<Rightarrow> ListenerConnector \<Rightarrow> cn_world \<Rightarrow> cn_world" where
  "put_obj p c w = w\<lparr>objs := (objs w)(p \<mapsto> c)\<rparr>"

text \<open>The member assignments through \<^verbatim>\<open>this\<close>: the object has to exist.\<close>

definition set_ignore :: "bool \<Rightarrow> obj_ptr \<Rightarrow> cn_world \<Rightarrow> cn_world option" where
  "set_ignore b p w = do { c \<leftarrow> objs w p; Some (put_obj p (c\<lparr>m_ignore_free := b\<rparr>) w) }"

definition SetCnMgr :: "obj_ptr \<Rightarrow> cn_world \<Rightarrow> cn_world option" where
  "SetCnMgr p w = do { c \<leftarrow> objs w p; Some (put_obj p (c\<lparr>m_cn_mgr := Some ()\<rparr>) w) }"

definition set_base :: "BaseConnect \<Rightarrow> obj_ptr \<Rightarrow> cn_world \<Rightarrow> cn_world option" where
  "set_base b p w = do { c \<leftarrow> objs w p; Some (put_obj p (c\<lparr>conn_base := b\<rparr>) w) }"

section \<open>The manager\<close>

text \<open>\<^verbatim>\<open>new Connect\<close>: the constructor draws the id.\<close>

definition new_ListenerConnector :: "MsgPack \<Rightarrow> cn_world \<Rightarrow> obj_ptr \<times> cn_world" where
  "new_ListenerConnector garbage w =
     (let i = id_seed w + 1; p = fresh_ptr w in
       (p, put_obj p \<lparr>conn_base = BaseConnect_new garbage, m_cn_mgr = None, m_id = i,
             m_svr_addr = zero_addr, m_ignore_free = False\<rparr>
           (w\<lparr>fresh_ptr := p + 1, id_seed := i\<rparr>)))"

text \<open>\<^verbatim>\<open>delete p\<close> with its destructors.\<close>

definition delete_obj :: "obj_ptr \<Rightarrow> cn_world \<Rightarrow> cn_world option" where
  "delete_obj p w =
     do { c \<leftarrow> objs w p; Some (w\<lparr>objs := (objs w)(p := None), deleted := deleted w @ [p]\<rparr>) }"

definition FindConnect :: "64 word \<Rightarrow> cn_world \<Rightarrow> obj_ptr option" where
  "FindConnect i w = smap_find (m_all_connector w) i"

definition CloseConnect :: "64 word \<Rightarrow> cn_world \<Rightarrow> (bool \<times> cn_world) option" where
  "CloseConnect i w =
     (case smap_find (m_all_connector w) i of
        None \<Rightarrow> Some (False, w)
      | Some p \<Rightarrow>
          do { w1 \<leftarrow> delete_obj p (w\<lparr>m_all_connector := smap_erase i (m_all_connector w)\<rparr>);
               Some (True, w1) })"

text \<open>
  \<^verbatim>\<open>CreateConnectForListener\<close>: \<open>made\<close> is whether the virtual \<^verbatim>\<open>NewConnect\<close> gave an object (that of
  \<^verbatim>\<open>ConnectorMgr\<close> always does).
\<close>

definition CreateConnectForListener :: "bool \<Rightarrow> MsgPack \<Rightarrow> cn_world \<Rightarrow> obj_ptr option \<times> cn_world" where
  "CreateConnectForListener made garbage w =
     (if \<not> made then (None, w)
      else let (p, w1) = new_ListenerConnector garbage w in
        case objs w1 p of
          None \<Rightarrow> (None, w1)
        | Some c \<Rightarrow> (Some p, w1\<lparr>m_all_connector := smap_set (m_id c) p (m_all_connector w1)\<rparr>))"

text \<open>\<^verbatim>\<open>ForeachConnector\<close>: the pointers the callback is given, in the order of the ids.\<close>

definition ForeachConnector :: "cn_world \<Rightarrow> obj_ptr list" where
  "ForeachConnector w = map snd (m_all_connector w)"

text \<open>\<^verbatim>\<open>~BaseConnectorMgr\<close>\<close>

fun delete_all :: "obj_ptr list \<Rightarrow> cn_world \<Rightarrow> cn_world option" where
  "delete_all [] w = Some w"
| "delete_all (p # ps) w = do { w1 \<leftarrow> delete_obj p w; delete_all ps w1 }"

definition delete_BaseConnectorMgr :: "cn_world \<Rightarrow> cn_world option" where
  "delete_BaseConnectorMgr w =
     do { w1 \<leftarrow> delete_all (map snd (m_all_connector w)) w; Some (w1\<lparr>m_all_connector := []\<rparr>) }"

section \<open>The connections\<close>

definition FreeSelf :: "obj_ptr \<Rightarrow> cn_world \<Rightarrow> (bool \<times> cn_world) option" where
  "FreeSelf p w =
     do { c \<leftarrow> objs w p;
          if m_ignore_free c then Some (False, w)
          else do { u \<leftarrow> m_cn_mgr c; CloseConnect (m_id c) w } }"

text \<open>
  \<^verbatim>\<open>ListenerConnector::on_disconnected\<close>, the override of \<^verbatim>\<open>BaseConnect\<close>'s virtual function;
  \<open>user\<close> is the \<^verbatim>\<open>onDisconnected\<close> of the derived class.
\<close>

definition ListenerConnector_on_disconnected ::
    "(cn_world \<Rightarrow> cn_world option) \<Rightarrow> obj_ptr \<Rightarrow> cn_world \<Rightarrow> cn_world option" where
  "ListenerConnector_on_disconnected user p w =
     do { w1 \<leftarrow> set_ignore True p w;
          w2 \<leftarrow> user w1;
          w3 \<leftarrow> set_ignore False p w2;
          (r, w4) \<leftarrow> FreeSelf p w3;
          Some w4 }"

text \<open>\<^verbatim>\<open>BaseConnect::DisConnect\<close> with the override in place.\<close>

definition ListenerConnector_DisConnect ::
    "(cn_world \<Rightarrow> cn_world option) \<Rightarrow> obj_ptr \<Rightarrow> cn_world \<Rightarrow> cn_world option" where
  "ListenerConnector_DisConnect user p w =
     do { c \<leftarrow> objs w p;
          w1 \<leftarrow> set_base (DisConnect (conn_base c)) p w;
          ListenerConnector_on_disconnected user p w1 }"

text \<open>
  What the code of a derived class may do in a callback of the object \<open>self\<close>: free itself, close
  a connection through the manager, look one up and free or disconnect it. A disconnected
  object's own \<^verbatim>\<open>onDisconnected\<close> runs inside the call, so its acts come along.
\<close>

datatype user_act =
    U_FreeSelf
  | U_CloseConnect "64 word"
  | U_FreeOther "64 word"
  | U_DisConnect "64 word" "user_act list"

fun run_act :: "obj_ptr \<Rightarrow> user_act \<Rightarrow> cn_world \<Rightarrow> cn_world option"
  and run_acts :: "obj_ptr \<Rightarrow> user_act list \<Rightarrow> cn_world \<Rightarrow> cn_world option" where
  "run_act self U_FreeSelf w = map_option snd (FreeSelf self w)"
| "run_act self (U_CloseConnect i) w = map_option snd (CloseConnect i w)"
| "run_act self (U_FreeOther i) w =
     (case FindConnect i w of None \<Rightarrow> Some w | Some p \<Rightarrow> map_option snd (FreeSelf p w))"
| "run_act self (U_DisConnect i as) w =
     (case FindConnect i w of
        None \<Rightarrow> Some w
      | Some p \<Rightarrow> ListenerConnector_DisConnect (run_acts p as) p w)"
| "run_acts self [] w = Some w"
| "run_acts self (a # as) w = do { w1 \<leftarrow> run_act self a w; run_acts self as w1 }"

section \<open>Accepting and the events of a connection\<close>

text \<open>
  \<^verbatim>\<open>AcceptInit\<close>; \<open>oc\<close> is the \<^verbatim>\<open>OnConnected\<close> of the derived class, which \<^verbatim>\<open>BaseAcceptInit\<close> calls
  last when it succeeds.
\<close>

definition AcceptInit :: "net_answers \<Rightarrow> (cn_world \<Rightarrow> cn_world option) \<Rightarrow> int \<Rightarrow> sockaddr_in
    \<Rightarrow> sockaddr_in \<Rightarrow> obj_ptr \<Rightarrow> cn_world \<Rightarrow> (bool \<times> cn_world) option" where
  "AcceptInit na oc fd sa svr_addr p w =
     do { c \<leftarrow> objs w p;
          let c1 = c\<lparr>m_svr_addr := svr_addr\<rparr>;
          let (ok, b) = BaseAcceptInit na fd sa (conn_base c1);
          let w1 = put_obj p (c1\<lparr>conn_base := b\<rparr>) w;
          if ok then do { w2 \<leftarrow> oc w1; Some (True, w2) } else Some (False, w1) }"

text \<open>\<^verbatim>\<open>Listener::listener_cb\<close>: \<open>oc p\<close> is \<^verbatim>\<open>OnConnected\<close> of the object at \<open>p\<close>.\<close>

definition listener_cb :: "bool \<Rightarrow> MsgPack \<Rightarrow> net_answers \<Rightarrow> (obj_ptr \<Rightarrow> cn_world \<Rightarrow> cn_world option)
    \<Rightarrow> sockaddr_in \<Rightarrow> int \<Rightarrow> sockaddr_in \<Rightarrow> cn_world \<Rightarrow> cn_world option" where
  "listener_cb made garbage na oc svr_addr fd sa w =
     (case CreateConnectForListener made garbage w of
        (None, w1) \<Rightarrow> Some w1
      | (Some p, w1) \<Rightarrow>
          do { w2 \<leftarrow> SetCnMgr p w1;
               (ok, w3) \<leftarrow> AcceptInit na (oc p) fd sa svr_addr p w2;
               Some w3 })"

text \<open>
  \<^verbatim>\<open>conn_event_callback\<close> on an accepted connection: \<open>oc\<close>, \<open>oe\<close> and \<open>od\<close> are the derived class's
  \<^verbatim>\<open>OnConnected\<close>, \<^verbatim>\<open>OnError\<close> and \<^verbatim>\<open>onDisconnected\<close>.
\<close>

definition ListenerConnector_event :: "nat \<Rightarrow> (cn_world \<Rightarrow> cn_world option) \<Rightarrow> (cn_world \<Rightarrow> cn_world option)
    \<Rightarrow> (cn_world \<Rightarrow> cn_world option) \<Rightarrow> obj_ptr \<Rightarrow> cn_world \<Rightarrow> cn_world option" where
  "ListenerConnector_event events oc oe od p w =
     do { c \<leftarrow> objs w p;
          if events AND BEV_EVENT_CONNECTED \<noteq> 0
          then do { w1 \<leftarrow> set_base (call OnConnected ((conn_base c)\<lparr>m_is_connect := True\<rparr>)) p w; oc w1 }
          else do { w1 \<leftarrow> set_base (call (OnError events) (conn_base c)) p w;
                    w2 \<leftarrow> oe w1;
                    ListenerConnector_DisConnect od p w2 } }"

text \<open>
  The end of a pass of \<^verbatim>\<open>conn_read_callback\<close> that completed a message: \<open>OnRecv\<close> of the derived class
  and the two stores into the object that follow it.
\<close>

definition deliver_msg :: "(cn_world \<Rightarrow> cn_world option) \<Rightarrow> obj_ptr \<Rightarrow> cn_world \<Rightarrow> cn_world option" where
  "deliver_msg orv p w =
     do { c \<leftarrow> objs w p;
          w1 \<leftarrow> set_base (call (OnRecv (m_msg (conn_base c))) (conn_base c)) p w;
          w2 \<leftarrow> orv w1;
          c2 \<leftarrow> objs w2 p;
          set_base ((conn_base c2)\<lparr>m_msg := clear_len (m_msg (conn_base c2)), m_msg_write_len := 0\<rparr>) p w2 }"

text \<open>
  \<^verbatim>\<open>send_data\<close> of a callback: when too much output waits it disconnects, with the override.
\<close>

definition ListenerConnector_send :: "writer \<Rightarrow> byte list \<Rightarrow> MsgPack \<Rightarrow> (cn_world \<Rightarrow> cn_world option)
    \<Rightarrow> obj_ptr \<Rightarrow> cn_world \<Rightarrow> (bool \<times> cn_world) option" where
  "ListenerConnector_send wr beyond msg od p w =
     do { c \<leftarrow> objs w p;
          let (ok, b) = send_data wr beyond msg (conn_base c);
          w1 \<leftarrow> set_base b p w;
          if length (calls (conn_base c)) < length (calls b)
          then do { w2 \<leftarrow> ListenerConnector_on_disconnected od p w1; Some (ok, w2) }
          else Some (ok, w1) }"

section \<open>The listener\<close>

text \<open>
  \<^verbatim>\<open>class Listener\<close>: its libevent listener, a handle or null, and its address. The listeners that
  libevent holds open are the list \<open>opened\<close>; \<open>mk\<close> is \<^verbatim>\<open>evconnlistener_new_bind\<close>.
\<close>

record listener_obj =
  m_listener :: "nat option"
  l_addr :: sockaddr_in

definition new_Listener :: listener_obj where
  "new_Listener = \<lparr>m_listener = None, l_addr = zero_addr\<rparr>"

definition Listener_Init :: "(sockaddr_in \<Rightarrow> nat list \<Rightarrow> nat option) \<Rightarrow> sockaddr_in
    \<Rightarrow> listener_obj \<times> nat list \<Rightarrow> bool \<times> listener_obj \<times> nat list" where
  "Listener_Init mk addr = (\<lambda>(l, opened).
     (let l1 = l\<lparr>l_addr := addr\<rparr>; h = mk addr opened; l2 = l1\<lparr>m_listener := h\<rparr> in
       case h of
         None \<Rightarrow> (False, l2, opened)
       | Some n \<Rightarrow> (True, l2, n # opened)))"

definition Listener_Init_port :: "(string \<Rightarrow> 32 word) \<Rightarrow> (sockaddr_in \<Rightarrow> nat list \<Rightarrow> nat option)
    \<Rightarrow> 16 word \<Rightarrow> string option \<Rightarrow> listener_obj \<times> nat list \<Rightarrow> bool \<times> listener_obj \<times> nat list" where
  "Listener_Init_port inet_addr mk listen_port listen_ip s =
     (let a1 = zero_addr\<lparr>sin_family := AF_INET, sin_port := htons listen_port\<rparr>;
          a2 = (case listen_ip of None \<Rightarrow> a1 | Some ip \<Rightarrow> a1\<lparr>sin_addr := inet_addr ip\<rparr>)
      in Listener_Init mk a2 s)"

definition delete_Listener :: "listener_obj \<times> nat list \<Rightarrow> nat list" where
  "delete_Listener = (\<lambda>(l, opened).
     case m_listener l of None \<Rightarrow> opened | Some n \<Rightarrow> removeAll n opened)"

section \<open>The objects of the manager\<close>

text \<open>
  The manager's map and the heap agree: an id is in the map with a pointer exactly when a live
  object with that id is there. Every address \<^verbatim>\<open>new\<close> has given is either live or was deleted,
  once.
\<close>

definition cn_inv :: "cn_world \<Rightarrow> bool" where
  "cn_inv w \<longleftrightarrow>
     smap_inv (m_all_connector w)
   \<and> (\<forall>i p. smap_find (m_all_connector w) i = Some p \<longleftrightarrow> (\<exists>c. objs w p = Some c \<and> m_id c = i))
   \<and> (\<forall>p c. objs w p = Some c \<longrightarrow> m_cn_mgr c = Some () \<and> m_id c \<le> id_seed w)
   \<and> distinct (deleted w)
   \<and> (\<forall>p. objs w p \<noteq> None \<longleftrightarrow> p < fresh_ptr w \<and> p \<notin> set (deleted w))
   \<and> (\<forall>p \<in> set (deleted w). p < fresh_ptr w)"

lemma cn_inv_start: "cn_inv cn_start"
  by (simp add: cn_inv_def cn_start_def smap_find_def)

lemma cn_invD:
  assumes "cn_inv w"
  shows "smap_inv (m_all_connector w)"
    and "smap_find (m_all_connector w) i = Some p \<longleftrightarrow> (\<exists>c. objs w p = Some c \<and> m_id c = i)"
    and "objs w p = Some c \<Longrightarrow> m_cn_mgr c = Some ()"
    and "objs w p = Some c \<Longrightarrow> m_id c \<le> id_seed w"
    and "distinct (deleted w)"
    and "objs w p \<noteq> None \<longleftrightarrow> p < fresh_ptr w \<and> p \<notin> set (deleted w)"
    and "p \<in> set (deleted w) \<Longrightarrow> p < fresh_ptr w"
  using assms by (auto simp: cn_inv_def)

lemma cn_inv_find: "cn_inv w \<Longrightarrow> objs w p = Some c \<Longrightarrow> smap_find (m_all_connector w) (m_id c) = Some p"
  by (simp add: cn_invD(2))

text \<open>Replacing a live object by one with the same id and manager.\<close>

lemma cn_inv_put:
  assumes inv: "cn_inv w" and c: "objs w p = Some c" and eq: "m_id c' = m_id c" "m_cn_mgr c' = m_cn_mgr c"
  shows "cn_inv (put_obj p c' w)"
proof -
  have find: "smap_find (m_all_connector w) i = Some q
      \<longleftrightarrow> (\<exists>d. ((objs w)(p \<mapsto> c')) q = Some d \<and> m_id d = i)" for i q
    using cn_invD(2) [OF inv, of i q] c eq by auto
  have live: "p < fresh_ptr w" "p \<notin> set (deleted w)" using cn_invD(6) [OF inv, of p] c by auto
  show ?thesis
    unfolding cn_inv_def put_obj_def
    using find live cn_invD [OF inv] c eq by (auto split: if_splits)
qed

text \<open>Closing the connection of an id removes its entry and its object, nothing else.\<close>

definition closed :: "64 word \<Rightarrow> obj_ptr \<Rightarrow> cn_world \<Rightarrow> cn_world" where
  "closed i p w = w\<lparr>m_all_connector := smap_erase i (m_all_connector w),
     objs := (objs w)(p := None), deleted := deleted w @ [p]\<rparr>"

lemma CloseConnect_found:
  assumes "cn_inv w" and "smap_find (m_all_connector w) i = Some p"
  shows "CloseConnect i w = Some (True, closed i p w)"
  using assms cn_invD(2) [OF assms(1), of i p]
  by (auto simp: CloseConnect_def delete_obj_def closed_def)

lemma CloseConnect_absent:
  "smap_find (m_all_connector w) i = None \<Longrightarrow> CloseConnect i w = Some (False, w)"
  by (simp add: CloseConnect_def)

lemma find_closed:
  "cn_inv w \<Longrightarrow> smap_find (m_all_connector (closed i p w)) j
     = (if j = i then None else smap_find (m_all_connector w) j)"
  by (simp add: closed_def smap.look_del cn_invD(1))

lemma objs_closed [simp]: "objs (closed i p w) = (objs w)(p := None)"
  by (simp add: closed_def)

lemma cn_inv_closed:
  assumes inv: "cn_inv w" and p: "smap_find (m_all_connector w) i = Some p"
  shows "cn_inv (closed i p w)"
proof -
  obtain c where c: "objs w p = Some c" "m_id c = i" using p cn_invD(2) [OF inv] by blast
  have live: "p < fresh_ptr w" "p \<notin> set (deleted w)" using cn_invD(6) [OF inv, of p] c by auto
  have find: "smap_find (m_all_connector (closed i p w)) j = Some q
      \<longleftrightarrow> (\<exists>d. ((objs w)(p := None)) q = Some d \<and> m_id d = j)" for j q
    using find_closed [OF inv, of i p j] cn_invD(2) [OF inv, of j q] p c by auto
  have "smap_inv (m_all_connector (closed i p w))"
    using cn_invD(1) [OF inv] by (simp add: closed_def smap_inv_erase)
  moreover have "(\<forall>q. ((objs w)(p := None)) q \<noteq> None
      \<longleftrightarrow> q < fresh_ptr w \<and> q \<notin> set (deleted w @ [p]))"
    using cn_invD(6) [OF inv] live by auto
  ultimately show ?thesis
    unfolding cn_inv_def
    using find cn_invD(3,4,5,7) [OF inv] live by (auto simp: closed_def split: if_splits)
qed

section \<open>What a callback may do\<close>

text \<open>
  The rules for the code of a callback. While an object's \<^verbatim>\<open>onDisconnected\<close> runs it may be freed
  through \<^verbatim>\<open>FreeSelf\<close>, which the flag turns into nothing, but not closed through the manager and not
  disconnected again: \<open>S\<close> is the list of the ids of these objects. In \<^verbatim>\<open>OnRecv\<close> and \<^verbatim>\<open>OnError\<close> an
  object must not be freed at all, since the caller goes on using it: \<open>T\<close> lists the ids that have
  to survive. \<open>inside\<close> is whether the acts belong to an \<^verbatim>\<open>onDisconnected\<close>.
\<close>

fun act_safe :: "64 word list \<Rightarrow> 64 word list \<Rightarrow> bool \<Rightarrow> user_act \<Rightarrow> bool" where
  "act_safe S T inside U_FreeSelf = inside"
| "act_safe S T inside (U_CloseConnect i) = (i \<notin> set T)"
| "act_safe S T inside (U_FreeOther i) = (i \<in> set S \<or> i \<notin> set T)"
| "act_safe S T inside (U_DisConnect i as) =
     (i \<notin> set T \<and> list_all (act_safe (i # S) (i # T) True) as)"

text \<open>The objects whose \<^verbatim>\<open>onDisconnected\<close> runs: in the map, with the flag set.\<close>

definition guarded :: "64 word list \<Rightarrow> cn_world \<Rightarrow> bool" where
  "guarded S w \<longleftrightarrow> (\<forall>i \<in> set S. \<exists>p c. smap_find (m_all_connector w) i = Some p
     \<and> objs w p = Some c \<and> m_ignore_free c)"

text \<open>What a callback leaves: the objects that have to survive as they are, no new object.\<close>

definition frame_ok :: "64 word list \<Rightarrow> cn_world \<Rightarrow> cn_world \<Rightarrow> bool" where
  "frame_ok S w w' \<longleftrightarrow> id_seed w' = id_seed w \<and> fresh_ptr w' = fresh_ptr w
     \<and> (\<forall>p. objs w p = None \<longrightarrow> objs w' p = None)
     \<and> (\<forall>i \<in> set S. \<forall>p. smap_find (m_all_connector w) i = Some p \<longrightarrow>
           smap_find (m_all_connector w') i = Some p \<and> objs w' p = objs w p)"

lemma frame_ok_refl [simp]: "frame_ok S w w"
  by (simp add: frame_ok_def)

lemma frame_ok_trans: "frame_ok S w w' \<Longrightarrow> frame_ok S w' w'' \<Longrightarrow> frame_ok S w w''"
  by (simp add: frame_ok_def)

lemma guarded_frame: "guarded S w \<Longrightarrow> frame_ok T w w' \<Longrightarrow> set S \<subseteq> set T \<Longrightarrow> guarded S w'"
proof -
  assume S: "guarded S w" and fr: "frame_ok T w w'" and sub: "set S \<subseteq> set T"
  have "\<exists>p c. smap_find (m_all_connector w') i = Some p \<and> objs w' p = Some c \<and> m_ignore_free c"
    if i: "i \<in> set S" for i
  proof -
    obtain p c where "smap_find (m_all_connector w) i = Some p" "objs w p = Some c" "m_ignore_free c"
      using S i by (auto simp: guarded_def)
    then show ?thesis using fr sub i by (auto simp: frame_ok_def)
  qed
  then show "guarded S w'" by (simp add: guarded_def)
qed

text \<open>Closing an id outside \<open>S\<close>.\<close>

lemma frame_ok_closed:
  assumes inv: "cn_inv w" and p: "smap_find (m_all_connector w) i = Some p" and i: "i \<notin> set S"
  shows "frame_ok S w (closed i p w)"
proof -
  have "p \<noteq> q" if "j \<in> set S" "smap_find (m_all_connector w) j = Some q" for j q
    using that i p cn_invD(2) [OF inv] by fastforce
  then show ?thesis
    using i find_closed [OF inv, of i p] by (auto simp: frame_ok_def closed_def)
qed

lemma CloseConnect_safe:
  assumes inv: "cn_inv w" and i: "i \<notin> set S"
  shows "\<exists>r w'. CloseConnect i w = Some (r, w') \<and> cn_inv w' \<and> frame_ok S w w'"
proof (cases "smap_find (m_all_connector w) i")
  case None
  then show ?thesis using inv by (auto simp: CloseConnect_absent)
next
  case (Some p)
  then show ?thesis
    using CloseConnect_found [OF inv Some] cn_inv_closed [OF inv Some] frame_ok_closed [OF inv Some i]
    by blast
qed

lemma FreeSelf_live:
  assumes inv: "cn_inv w" and c: "objs w p = Some c"
  shows "FreeSelf p w = (if m_ignore_free c then Some (False, w) else Some (True, closed (m_id c) p w))"
  using c cn_invD(3) [OF inv c] CloseConnect_found [OF inv cn_inv_find [OF inv c]]
  by (simp add: FreeSelf_def)

lemma FreeSelf_safe:
  assumes inv: "cn_inv w" and c: "objs w p = Some c" and S: "guarded S w"
    and i: "m_id c \<in> set S \<or> m_id c \<notin> set T"
  shows "\<exists>r w'. FreeSelf p w = Some (r, w') \<and> cn_inv w' \<and> frame_ok T w w'"
proof (cases "m_ignore_free c")
  case True
  then show ?thesis using inv by (auto simp: FreeSelf_live [OF inv c])
next
  case False
  have "m_id c \<notin> set S"
  proof
    assume "m_id c \<in> set S"
    then have "m_ignore_free c"
      using S cn_inv_find [OF inv c] c by (auto simp: guarded_def)
    then show False using False by simp
  qed
  then show ?thesis
    using False i cn_inv_closed [OF inv cn_inv_find [OF inv c]]
      frame_ok_closed [OF inv cn_inv_find [OF inv c]]
    by (auto simp: FreeSelf_live [OF inv c])
qed

section \<open>A disconnected connection is deleted once\<close>

lemma frame_ok_put:
  assumes inv: "cn_inv w" and c: "objs w p = Some c" and i: "m_id c \<notin> set S"
  shows "frame_ok S w (put_obj p c' w)"
proof -
  have "p \<noteq> q" if "j \<in> set S" "smap_find (m_all_connector w) j = Some q" for j q
    using that i c cn_invD(2) [OF inv] by fastforce
  then show ?thesis using c by (auto simp: frame_ok_def put_obj_def)
qed

lemma put_obj_sel [simp]:
  "m_all_connector (put_obj p c w) = m_all_connector w" "objs (put_obj p c w) = (objs w)(p \<mapsto> c)"
  "deleted (put_obj p c w) = deleted w" "fresh_ptr (put_obj p c w) = fresh_ptr w"
  "id_seed (put_obj p c w) = id_seed w"
  by (simp_all add: put_obj_def)

lemma frame_ok_Cons: "frame_ok (i # S) w w' \<Longrightarrow> frame_ok S w w'"
  by (simp add: frame_ok_def)

lemma on_disconnected_lemma:
  assumes inv: "cn_inv w" and c: "objs w p = Some c" and S: "guarded S w" and i: "m_id c \<notin> set T" and sub: "set S \<subseteq> set T"
    and user: "\<And>w1. cn_inv w1 \<Longrightarrow> guarded (m_id c # S) w1 \<Longrightarrow> objs w1 p = Some (c\<lparr>m_ignore_free := True\<rparr>)
      \<Longrightarrow> \<exists>w2. user w1 = Some w2 \<and> cn_inv w2 \<and> frame_ok (m_id c # T) w1 w2"
  shows "\<exists>w'. ListenerConnector_on_disconnected user p w = Some w' \<and> cn_inv w' \<and> frame_ok T w w'
    \<and> p \<in> set (deleted w') \<and> smap_find (m_all_connector w') (m_id c) = None"
proof -
  let ?c1 = "c\<lparr>m_ignore_free := True\<rparr>" and ?c3 = "c\<lparr>m_ignore_free := False\<rparr>"
  let ?w1 = "put_obj p ?c1 w"
  have inv1: "cn_inv ?w1" using cn_inv_put [OF inv c] by simp
  have f1: "frame_ok T w ?w1" using frame_ok_put [OF inv c i] .
  have g1: "guarded (m_id c # S) ?w1"
    using guarded_frame [OF S f1 sub] cn_inv_find [OF inv c] by (simp add: guarded_def)
  obtain w2 where w2: "user ?w1 = Some w2" "cn_inv w2" "frame_ok (m_id c # T) ?w1 w2"
    using user [OF inv1 g1] by auto
  have o2: "objs w2 p = Some ?c1"
    using w2(3) cn_inv_find [OF inv c] by (simp add: frame_ok_def)
  let ?w3 = "put_obj p ?c3 w2"
  have inv3: "cn_inv ?w3" using cn_inv_put [OF w2(2) o2] by simp
  have f3: "frame_ok T w2 ?w3" using frame_ok_put [OF w2(2) o2] i by simp
  have o3: "objs ?w3 p = Some ?c3" by simp
  note find3 = cn_inv_find [OF inv3 o3]
  have free: "FreeSelf p ?w3 = Some (True, closed (m_id c) p ?w3)"
    using FreeSelf_live [OF inv3 o3] by simp
  have f4: "frame_ok T ?w3 (closed (m_id c) p ?w3)"
    using frame_ok_closed [OF inv3 find3] i by simp
  have "ListenerConnector_on_disconnected user p w = Some (closed (m_id c) p ?w3)"
    using w2(1) o2 c free by (simp add: ListenerConnector_on_disconnected_def set_ignore_def)
  moreover have "cn_inv (closed (m_id c) p ?w3)" using cn_inv_closed [OF inv3 find3] by simp
  moreover have "frame_ok T w (closed (m_id c) p ?w3)"
    using f1 frame_ok_Cons [OF w2(3)] f3 f4 by (blast intro: frame_ok_trans)
  moreover have "p \<in> set (deleted (closed (m_id c) p ?w3))" by (simp add: closed_def)
  moreover have "smap_find (m_all_connector (closed (m_id c) p ?w3)) (m_id c) = None"
    using find_closed [OF inv3] by simp
  ultimately show ?thesis by blast
qed

lemma DisConnect_lemma:
  assumes inv: "cn_inv w" and c: "objs w p = Some c" and S: "guarded S w" and i: "m_id c \<notin> set T" and sub: "set S \<subseteq> set T"
    and user: "\<And>w1 c1. cn_inv w1 \<Longrightarrow> guarded (m_id c # S) w1 \<Longrightarrow> objs w1 p = Some c1 \<Longrightarrow> m_id c1 = m_id c
      \<Longrightarrow> \<exists>w2. user w1 = Some w2 \<and> cn_inv w2 \<and> frame_ok (m_id c # T) w1 w2"
  shows "\<exists>w'. ListenerConnector_DisConnect user p w = Some w' \<and> cn_inv w' \<and> frame_ok T w w'
    \<and> p \<in> set (deleted w') \<and> smap_find (m_all_connector w') (m_id c) = None"
proof -
  let ?c1 = "c\<lparr>conn_base := DisConnect (conn_base c)\<rparr>"
  let ?w1 = "put_obj p ?c1 w"
  have inv1: "cn_inv ?w1" using cn_inv_put [OF inv c] by simp
  have f1: "frame_ok T w ?w1" using frame_ok_put [OF inv c i] .
  have o1: "objs ?w1 p = Some ?c1" by simp
  have eq: "ListenerConnector_DisConnect user p w = ListenerConnector_on_disconnected user p ?w1"
    using c by (simp add: ListenerConnector_DisConnect_def set_base_def)
  have "\<exists>w'. ListenerConnector_on_disconnected user p ?w1 = Some w' \<and> cn_inv w' \<and> frame_ok T ?w1 w'
      \<and> p \<in> set (deleted w') \<and> smap_find (m_all_connector w') (m_id ?c1) = None"
    using on_disconnected_lemma [OF inv1 o1 guarded_frame [OF S f1 sub]] i sub user by simp
  then show ?thesis
    unfolding eq using frame_ok_trans [OF f1] by auto
qed

section \<open>Safe callbacks stay safe\<close>

lemma run_acts_safe:
  shows "cn_inv w \<Longrightarrow> guarded S w \<Longrightarrow> set S \<subseteq> set T \<Longrightarrow> act_safe S T inside a
      \<Longrightarrow> (inside \<Longrightarrow> \<exists>c. objs w self = Some c \<and> m_id c \<in> set S)
      \<Longrightarrow> \<exists>w'. run_act self a w = Some w' \<and> cn_inv w' \<and> frame_ok T w w'"
    and "cn_inv w \<Longrightarrow> guarded S w \<Longrightarrow> set S \<subseteq> set T \<Longrightarrow> list_all (act_safe S T inside) as
      \<Longrightarrow> (inside \<Longrightarrow> \<exists>c. objs w self = Some c \<and> m_id c \<in> set S)
      \<Longrightarrow> \<exists>w'. run_acts self as w = Some w' \<and> cn_inv w' \<and> frame_ok T w w'"
proof (induction self a w and self as w arbitrary: S T inside and S T inside rule: run_act_run_acts.induct)
  case (1 self w)
  then have inside by simp
  then obtain c where "objs w self = Some c" "m_id c \<in> set S" using 1(5) by blast
  then show ?case using FreeSelf_safe [OF 1(1) _ 1(2), of self c T] by fastforce
next
  case (2 self i w)
  then show ?case using CloseConnect_safe [OF 2(1), of i T] by fastforce
next
  case (3 self i w)
  show ?case
  proof (cases "FindConnect i w")
    case None
    then show ?thesis using 3 by simp
  next
    case (Some p)
    then obtain c where c: "objs w p = Some c" "m_id c = i"
      using cn_invD(2) [OF 3(1)] by (auto simp: FindConnect_def)
    have "m_id c \<in> set S \<or> m_id c \<notin> set T" using c(2) 3(4) by simp
    from FreeSelf_safe [OF 3(1) c(1) 3(2) this] show ?thesis using Some by fastforce
  qed
next
  case (4 self i as w)
  show ?case
  proof (cases "FindConnect i w")
    case None
    then show ?thesis using 4 by simp
  next
    case (Some p)
    then obtain c where c: "objs w p = Some c" "m_id c = i"
      using cn_invD(2) [OF 4(2)] by (auto simp: FindConnect_def)
    have safe: "i \<notin> set T" "list_all (act_safe (i # S) (i # T) True) as" using 4(5) by simp_all
    have sub: "set (i # S) \<subseteq> set (i # T)" using 4(4) by auto
    have "\<exists>w2. run_acts p as w1 = Some w2 \<and> cn_inv w2 \<and> frame_ok (i # T) w1 w2"
      if "cn_inv w1" "guarded (i # S) w1" "objs w1 p = Some c1" "m_id c1 = i" for w1 c1
      using 4(1) [OF Some that(1,2) sub safe(2)] that(3,4) by simp
    then show ?thesis
      using DisConnect_lemma [OF 4(2) c(1) 4(3) _ 4(4), of "run_acts p as"] c(2) safe(1) Some by fastforce
  qed
next
  case (5 self w)
  then show ?case by simp
next
  case (6 self a as w)
  have safe: "act_safe S T inside a" "list_all (act_safe S T inside) as" using 6(6) by simp_all
  obtain w1 where w1: "run_act self a w = Some w1" "cn_inv w1" "frame_ok T w w1"
    using 6(1) [OF 6(3,4,5) safe(1) 6(7)] by blast
  have self1: "\<exists>c. objs w1 self = Some c \<and> m_id c \<in> set S" if ins: inside
  proof -
    obtain c where c: "objs w self = Some c" "m_id c \<in> set S" using 6(7) [OF ins] by blast
    then show ?thesis using w1(3) cn_inv_find [OF 6(3) c(1)] 6(5) by (auto simp: frame_ok_def)
  qed
  obtain w2 where "run_acts self as w1 = Some w2" "cn_inv w2" "frame_ok T w1 w2"
    using 6(2) [OF w1(1) w1(2) guarded_frame [OF 6(4) w1(3) 6(5)] 6(5) safe(2) self1] by blast
  then show ?case using w1 frame_ok_trans [OF w1(3)] by auto
qed

section \<open>A program's run\<close>

text \<open>
  What happens to a manager: libevent accepts a connection, reports an event or completes a
  message on a connection that has a bufferevent, or the program closes or disconnects a
  connection from outside any callback. Every entry carries the acts of the callbacks it leads to.
\<close>

datatype lev_event =
    Ev_accept net_answers int sockaddr_in "user_act list"
  | Ev_event "64 word" nat "user_act list" "user_act list" "user_act list"
  | Ev_message "64 word" "user_act list"
  | Ev_close "64 word"
  | Ev_disconnect "64 word" "user_act list"

definition has_bev :: "obj_ptr \<Rightarrow> cn_world \<Rightarrow> bool" where
  "has_bev p w = (case objs w p of None \<Rightarrow> False | Some c \<Rightarrow> m_buf_e (conn_base c) \<noteq> None)"

definition on_conn :: "64 word \<Rightarrow> (obj_ptr \<Rightarrow> cn_world \<Rightarrow> cn_world option) \<Rightarrow> cn_world \<Rightarrow> cn_world option" where
  "on_conn i f w =
     (case FindConnect i w of None \<Rightarrow> Some w | Some p \<Rightarrow> if has_bev p w then f p w else Some w)"

fun run_event :: "MsgPack \<Rightarrow> sockaddr_in \<Rightarrow> lev_event \<Rightarrow> cn_world \<Rightarrow> cn_world option" where
  "run_event g svr (Ev_accept na fd sa oc) w = listener_cb True g na (\<lambda>p. run_acts p oc) svr fd sa w"
| "run_event g svr (Ev_event i events oc oe od) w =
     on_conn i (\<lambda>p. ListenerConnector_event events (run_acts p oc) (run_acts p oe) (run_acts p od) p) w"
| "run_event g svr (Ev_message i orv) w = on_conn i (\<lambda>p. deliver_msg (run_acts p orv) p) w"
| "run_event g svr (Ev_close i) w = map_option snd (CloseConnect i w)"
| "run_event g svr (Ev_disconnect i od) w =
     (case FindConnect i w of
        None \<Rightarrow> Some w
      | Some p \<Rightarrow> ListenerConnector_DisConnect (run_acts p od) p w)"

abbreviation run_events :: "MsgPack \<Rightarrow> sockaddr_in \<Rightarrow> lev_event list \<Rightarrow> cn_world \<Rightarrow> cn_world option" where
  "run_events g svr \<equiv> run_steps (run_event g svr)"

text \<open>\<^verbatim>\<open>OnConnected\<close> may end the connection, as its only act on itself.\<close>

definition oc_safe :: "user_act list \<Rightarrow> bool" where
  "oc_safe oc \<longleftrightarrow> oc = [U_FreeSelf] \<or> list_all (act_safe [] [] False) oc"

fun event_safe :: "lev_event \<Rightarrow> bool" where
  "event_safe (Ev_accept na fd sa oc) = oc_safe oc"
| "event_safe (Ev_event i events oc oe od) =
     (oc_safe oc \<and> list_all (act_safe [] [i] False) oe \<and> list_all (act_safe [i] [i] True) od)"
| "event_safe (Ev_message i orv) = list_all (act_safe [] [i] False) orv"
| "event_safe (Ev_close i) = True"
| "event_safe (Ev_disconnect i od) = list_all (act_safe [i] [i] True) od"

fun is_accept :: "lev_event \<Rightarrow> bool" where
  "is_accept (Ev_accept na fd sa oc) = True"
| "is_accept e = False"

definition accepts :: "lev_event list \<Rightarrow> nat" where
  "accepts es = length (filter is_accept es)"

lemma guarded_Nil [simp]: "guarded [] w"
  by (simp add: guarded_def)

lemma oc_safe_run:
  assumes inv: "cn_inv w" and c: "objs w p = Some c" and oc: "oc_safe oc"
  shows "\<exists>w'. run_acts p oc w = Some w' \<and> cn_inv w' \<and> frame_ok [] w w'"
proof (cases "oc = [U_FreeSelf]")
  case True
  then show ?thesis
    using FreeSelf_safe [OF inv c, of "[]" "[]"] by fastforce
next
  case False
  then show ?thesis
    using oc run_acts_safe(2) [OF inv, of "[]" "[]" False oc p] by (simp add: oc_safe_def)
qed

lemma survive_run:
  assumes inv: "cn_inv w" and c: "objs w p = Some c" and acts: "list_all (act_safe [] [m_id c] False) as"
  shows "\<exists>w'. run_acts p as w = Some w' \<and> cn_inv w' \<and> frame_ok [] w w' \<and> objs w' p = Some c"
proof -
  obtain w' where "run_acts p as w = Some w'" "cn_inv w'" "frame_ok [m_id c] w w'"
    using run_acts_safe(2) [OF inv, of "[]" "[m_id c]" False as p] acts by auto
  then show ?thesis using c cn_inv_find [OF inv c] by (auto simp: frame_ok_def)
qed

lemma DisConnect_run:
  assumes inv: "cn_inv w" and c: "objs w p = Some c" and od: "list_all (act_safe [m_id c] [m_id c] True) od"
  shows "\<exists>w'. ListenerConnector_DisConnect (run_acts p od) p w = Some w' \<and> cn_inv w'
    \<and> frame_ok [] w w' \<and> p \<in> set (deleted w') \<and> smap_find (m_all_connector w') (m_id c) = None"
proof -
  have "\<exists>w2. run_acts p od w1 = Some w2 \<and> cn_inv w2 \<and> frame_ok [m_id c] w1 w2"
    if "cn_inv w1" "guarded [m_id c] w1" "objs w1 p = Some c1" "m_id c1 = m_id c" for w1 c1
    using run_acts_safe(2) [OF that(1,2), of "[m_id c]" True od p] od that(3,4) by auto
  then show ?thesis
    using DisConnect_lemma [OF inv c, of "[]" "[]" "run_acts p od"] by simp
qed

text \<open>A new object, registered under the next id.\<close>

definition registered :: "ListenerConnector \<Rightarrow> cn_world \<Rightarrow> cn_world" where
  "registered c w = w\<lparr>objs := (objs w)(fresh_ptr w \<mapsto> c), fresh_ptr := fresh_ptr w + 1,
     id_seed := id_seed w + 1,
     m_all_connector := smap_set (id_seed w + 1) (fresh_ptr w) (m_all_connector w)\<rparr>"

lemma word_less_inc: "s \<noteq> - 1 \<Longrightarrow> (s::'a::len word) < s + 1"
proof -
  assume "s \<noteq> - 1"
  then have "1 + s \<noteq> 0" using eq_neg_iff_add_eq_0 [of s 1] by (auto simp: add.commute)
  then show ?thesis using unatSuc [of s] by (simp add: word_less_nat_alt add.commute)
qed

lemma cn_inv_registered:
  assumes inv: "cn_inv w" and room: "id_seed w \<noteq> - 1"
    and c: "m_id c = id_seed w + 1" "m_cn_mgr c = Some ()"
  shows "cn_inv (registered c w)"
proof -
  have less: "id_seed w < id_seed w + 1" using word_less_inc [OF room] .
  have old: "m_id d < id_seed w + 1" "p \<noteq> fresh_ptr w" if "objs w p = Some d" for p d
    using that cn_invD(4) [OF inv that] cn_invD(6) [OF inv, of p] less by auto
  have inv': "smap_inv (m_all_connector (registered c w))"
    using cn_invD(1) [OF inv] by (simp add: registered_def smap_inv_set)
  have "smap_find (m_all_connector (registered c w)) i = Some p
      \<longleftrightarrow> (\<exists>d. objs (registered c w) p = Some d \<and> m_id d = i)" for i p
  proof (cases "i = id_seed w + 1")
    case True
    then show ?thesis
      using old c
      by (auto simp: registered_def smap.look_upd [OF cn_invD(1) [OF inv]] dest: old(1))
  next
    case False
    have "objs w (fresh_ptr w) = None" using cn_invD(6) [OF inv, of "fresh_ptr w"] by auto
    then show ?thesis
      using False old c cn_invD(2) [OF inv, of i p]
      by (auto simp: registered_def smap.look_upd [OF cn_invD(1) [OF inv]])
  qed
  moreover have "m_cn_mgr d = Some () \<and> m_id d \<le> id_seed (registered c w)"
    if "objs (registered c w) p = Some d" for p d
    using that c old cn_invD(3) [OF inv] by (auto simp: registered_def split: if_splits intro: less_imp_le)
  moreover have "objs (registered c w) p \<noteq> None
      \<longleftrightarrow> p < fresh_ptr (registered c w) \<and> p \<notin> set (deleted (registered c w))" for p
    using cn_invD(6) [OF inv, of p] cn_invD(7) [OF inv, of p] by (auto simp: registered_def less_Suc_eq)
  moreover have "\<forall>p \<in> set (deleted (registered c w)). p < fresh_ptr (registered c w)"
    using cn_invD(7) [OF inv] by (auto simp: registered_def intro: less_SucI)
  ultimately show ?thesis
    using inv' cn_invD(5) [OF inv] by (simp add: cn_inv_def registered_def)
qed

text \<open>\<^verbatim>\<open>listener_cb\<close> registers the object; \<^verbatim>\<open>BaseAcceptInit\<close> of a fresh one fails without a bufferevent.\<close>

definition accepted :: "MsgPack \<Rightarrow> net_answers \<Rightarrow> sockaddr_in \<Rightarrow> int \<Rightarrow> sockaddr_in \<Rightarrow> cn_world
    \<Rightarrow> ListenerConnector" where
  "accepted g na svr fd sa w =
     \<lparr>conn_base = snd (BaseAcceptInit na fd sa (BaseConnect_new g)), m_cn_mgr = Some (),
      m_id = id_seed w + 1, m_svr_addr = svr, m_ignore_free = False\<rparr>"

lemma fst_BaseAcceptInit: "fst (BaseAcceptInit na fd sa (BaseConnect_new g)) = na_bev_new na"
  by (simp add: BaseAcceptInit_def BaseConnect_new_def Let_def)

lemma listener_cb_eq:
  "listener_cb True g na oc svr fd sa w =
     (let w1 = registered (accepted g na svr fd sa w) w in
       if na_bev_new na then oc (fresh_ptr w) w1 else Some w1)"
  using fst_BaseAcceptInit [of na fd sa g]
  by (cases w; cases "BaseAcceptInit na fd sa (BaseConnect_new g)")
     (auto simp: listener_cb_def CreateConnectForListener_def new_ListenerConnector_def Let_def
       AcceptInit_def SetCnMgr_def registered_def accepted_def put_obj_def)

lemma run_event_accept:
  assumes inv: "cn_inv w" and room: "id_seed w \<noteq> - 1" and oc: "oc_safe oc"
  shows "\<exists>w'. run_event g svr (Ev_accept na fd sa oc) w = Some w' \<and> cn_inv w'
    \<and> id_seed w' = id_seed w + 1"
proof -
  let ?c = "accepted g na svr fd sa w"
  have inv1: "cn_inv (registered ?c w)"
    using cn_inv_registered [OF inv room, of ?c] by (simp add: accepted_def)
  have o1: "objs (registered ?c w) (fresh_ptr w) = Some ?c" by (simp add: registered_def)
  have seed: "id_seed (registered ?c w) = id_seed w + 1" by (simp add: registered_def)
  show ?thesis
    using oc_safe_run [OF inv1 o1 oc] inv1 seed
    by (auto simp: listener_cb_eq Let_def frame_ok_def)
qed

lemma on_conn_run:
  assumes inv: "cn_inv w"
    and f: "\<And>p c. objs w p = Some c \<Longrightarrow> m_id c = i \<Longrightarrow> \<exists>w'. f p w = Some w' \<and> cn_inv w' \<and> id_seed w' = id_seed w"
  shows "\<exists>w'. on_conn i f w = Some w' \<and> cn_inv w' \<and> id_seed w' = id_seed w"
proof (cases "FindConnect i w")
  case None
  then show ?thesis using inv by (simp add: on_conn_def)
next
  case (Some p)
  then obtain c where "objs w p = Some c" "m_id c = i"
    using cn_invD(2) [OF inv] by (auto simp: FindConnect_def)
  then show ?thesis using f inv Some by (simp add: on_conn_def)
qed

lemma ListenerConnector_event_run:
  assumes inv: "cn_inv w" and c: "objs w p = Some c" and safe: "event_safe (Ev_event (m_id c) events oc oe od)"
  shows "\<exists>w'. ListenerConnector_event events (run_acts p oc) (run_acts p oe) (run_acts p od) p w = Some w'
    \<and> cn_inv w' \<and> id_seed w' = id_seed w"
proof (cases "events AND BEV_EVENT_CONNECTED \<noteq> 0")
  case True
  let ?c1 = "c\<lparr>conn_base := call OnConnected ((conn_base c)\<lparr>m_is_connect := True\<rparr>)\<rparr>"
  have "cn_inv (put_obj p ?c1 w)" using cn_inv_put [OF inv c] by simp
  from oc_safe_run [OF this, of p ?c1 oc] safe show ?thesis
    using c True by (auto simp: ListenerConnector_event_def set_base_def frame_ok_def)
next
  case False
  let ?c1 = "c\<lparr>conn_base := call (OnError events) (conn_base c)\<rparr>"
  have inv1: "cn_inv (put_obj p ?c1 w)" using cn_inv_put [OF inv c] by simp
  obtain w2 where w2: "run_acts p oe (put_obj p ?c1 w) = Some w2" "cn_inv w2"
      "frame_ok [] (put_obj p ?c1 w) w2" "objs w2 p = Some ?c1"
    using survive_run [OF inv1, of p ?c1 oe] safe by auto
  from DisConnect_run [OF w2(2,4), of od] safe w2 show ?thesis
    using c False by (auto simp: ListenerConnector_event_def set_base_def frame_ok_def)
qed

lemma deliver_msg_run:
  assumes inv: "cn_inv w" and c: "objs w p = Some c" and safe: "list_all (act_safe [] [m_id c] False) orv"
  shows "\<exists>w'. deliver_msg (run_acts p orv) p w = Some w' \<and> cn_inv w' \<and> id_seed w' = id_seed w"
proof -
  let ?c1 = "c\<lparr>conn_base := call (OnRecv (m_msg (conn_base c))) (conn_base c)\<rparr>"
  have inv1: "cn_inv (put_obj p ?c1 w)" using cn_inv_put [OF inv c] by simp
  obtain w2 where w2: "run_acts p orv (put_obj p ?c1 w) = Some w2" "cn_inv w2"
      "frame_ok [] (put_obj p ?c1 w) w2" "objs w2 p = Some ?c1"
    using survive_run [OF inv1, of p ?c1 orv] safe by auto
  then show ?thesis
    using c cn_inv_put [OF w2(2,4)] by (auto simp: deliver_msg_def set_base_def frame_ok_def)
qed

lemma run_event_other:
  assumes inv: "cn_inv w" and safe: "event_safe e" and na: "\<And>na fd sa oc. e \<noteq> Ev_accept na fd sa oc"
  shows "\<exists>w'. run_event g svr e w = Some w' \<and> cn_inv w' \<and> id_seed w' = id_seed w"
proof (cases e)
  case (Ev_accept na fd sa oc)
  then show ?thesis using na by blast
next
  case (Ev_event i events oc oe od)
  then show ?thesis
    using on_conn_run [OF inv] ListenerConnector_event_run [OF inv] safe by fastforce
next
  case (Ev_message i orv)
  then show ?thesis using on_conn_run [OF inv] deliver_msg_run [OF inv] safe by fastforce
next
  case (Ev_close i)
  then show ?thesis
    using CloseConnect_safe [OF inv, of i "[]"] by (auto simp: frame_ok_def)
next
  case (Ev_disconnect i od)
  show ?thesis
  proof (cases "FindConnect i w")
    case None
    then show ?thesis using inv Ev_disconnect by simp
  next
    case (Some p)
    then obtain c where "objs w p = Some c" "m_id c = i"
      using cn_invD(2) [OF inv] by (auto simp: FindConnect_def)
    then show ?thesis
      using DisConnect_run [OF inv, of p c od] safe Some Ev_disconnect by (auto simp: frame_ok_def)
  qed
qed

section \<open>Properties\<close>

lemma count_list_distinct: "distinct xs \<Longrightarrow> x \<in> set xs \<Longrightarrow> count_list xs x = 1"
proof (induction xs)
  case Nil
  then show ?case by simp
next
  case (Cons a xs)
  then show ?case by (cases "a = x") auto
qed

lemma unat_inc: "(s::'a::len word) \<noteq> - 1 \<Longrightarrow> unat (s + 1) = Suc (unat s)"
proof -
  assume "s \<noteq> - 1"
  then have "1 + s \<noteq> 0" using eq_neg_iff_add_eq_0 [of s 1] by (auto simp: add.commute)
  then show ?thesis using unatSuc [of s] by (simp add: add.commute)
qed

text \<open>An event is allowed when its callbacks keep to the rules and there is an id for a new connection.\<close>

definition event_allowed :: "lev_event \<Rightarrow> cn_world \<Rightarrow> bool" where
  "event_allowed e w \<longleftrightarrow> event_safe e \<and> (is_accept e \<longrightarrow> id_seed w \<noteq> - 1)"

lemma run_event_step:
  assumes "cn_inv w" and "event_allowed e w"
  shows "\<exists>w'. run_event g svr e w = Some w' \<and> cn_inv w'
    \<and> id_seed w' = (if is_accept e then id_seed w + 1 else id_seed w)"
proof (cases "is_accept e")
  case True
  then obtain na fd sa oc where e: "e = Ev_accept na fd sa oc" by (cases e) auto
  then show ?thesis
    using run_event_accept [OF assms(1), of oc g svr na fd sa] assms(2) by (simp add: event_allowed_def)
next
  case False
  then have "\<And>na fd sa oc. e \<noteq> Ev_accept na fd sa oc" by auto
  then show ?thesis
    using run_event_other [OF assms(1), of e g svr] assms(2) False by (simp add: event_allowed_def)
qed

interpretation conns: safe_steps "run_event g svr" event_allowed cn_inv for g svr
  by unfold_locales (use run_event_step in blast)

lemma accepts_sum: "sum_list (map (\<lambda>e. if is_accept e then 1 else 0) es) = accepts es"
  by (induction es) (simp_all add: accepts_def)

lemma run_events_safe:
  assumes "cn_inv w" and "list_all event_safe es" and "unat (id_seed w) + accepts es < 2 ^ 64"
  shows "\<exists>w'. run_events g svr es w = Some w' \<and> cn_inv w'"
proof (rule conns.run_within [where used = "\<lambda>w. unat (id_seed w)" and limit = "2 ^ 64 - 1"
      and cost = "\<lambda>e. if is_accept e then 1 else 0" and good = event_safe])
  fix e and w :: cn_world
  assume "event_safe e" "unat (id_seed w) + (if is_accept e then 1 else 0) \<le> 2 ^ 64 - 1"
  moreover have "unat (- 1 :: 64 word) = 2 ^ 64 - 1"
    by (simp add: unsigned_minus_1_eq_mask mask_eq_exp_minus_1)
  ultimately show "event_allowed e w" by (auto simp: event_allowed_def)
next
  fix e and w w' :: cn_world
  assume e: "cn_inv w" "event_allowed e w" "run_event g svr e w = Some w'"
  then have "id_seed w' = (if is_accept e then id_seed w + 1 else id_seed w)"
    using run_event_step [OF e(1,2), of g svr] by simp
  then show "unat (id_seed w') \<le> unat (id_seed w) + (if is_accept e then 1 else 0)"
    using e(2) unat_inc [of "id_seed w"] by (simp add: event_allowed_def)
next
  show "unat (id_seed w) + sum_list (map (\<lambda>e. if is_accept e then 1 else 0) es) \<le> 2 ^ 64 - 1"
    using assms(3) by (simp add: accepts_sum)
qed (use assms in simp_all)

text \<open>
  C7. A program whose callbacks keep to three rules (\<open>event_safe\<close>) never touches a deleted connection, whatever
  libevent reports and in whatever order. The rules: the acts of \<^verbatim>\<open>OnConnected\<close> are a single \<^verbatim>\<open>FreeSelf\<close>, or
  they free, close and disconnect other connections only; those of \<^verbatim>\<open>OnRecv\<close> and \<^verbatim>\<open>OnError\<close> never end the
  connection they are called for; those of \<^verbatim>\<open>onDisconnected\<close> may call \<^verbatim>\<open>FreeSelf\<close> but neither
  \<^verbatim>\<open>CloseConnect\<close> nor \<^verbatim>\<open>DisConnect\<close> with the id of a connection being disconnected. Then every run is defined,
  an id is in the manager's map exactly while its object is alive, no two live connections share an id, and every
  object ever made is alive or was deleted exactly once. (Fewer than \<open>2 ^ 64\<close> connections: then the seed of
  the ids does not wrap.) The rules are needed: see lemma \<open>close_in_onDisconnected_uses_deleted\<close>
  below, and the property on sending from \<^verbatim>\<open>OnRecv\<close>.
\<close>

theorem connections_never_dangle:
  assumes "list_all event_safe es" and "accepts es < 2 ^ 64"
  shows "\<exists>w. run_events g svr es cn_start = Some w
    \<and> (\<forall>i p. FindConnect i w = Some p \<longleftrightarrow> (\<exists>c. objs w p = Some c \<and> m_id c = i))
    \<and> distinct (deleted w)
    \<and> (\<forall>p < fresh_ptr w. (objs w p = None) = (p \<in> set (deleted w)))"
proof -
  have "unat (id_seed cn_start) + accepts es < 2 ^ 64"
    using assms(2) by (simp add: cn_start_def)
  from run_events_safe [OF cn_inv_start assms(1) this, of g svr]
  obtain w where w: "run_events g svr es cn_start = Some w" "cn_inv w" by blast
  have live: "(objs w p = None) = (p \<in> set (deleted w))" if "p < fresh_ptr w" for p
    using cn_invD(6) [OF w(2), of p] that by blast
  have find: "FindConnect i w = Some p \<longleftrightarrow> (\<exists>c. objs w p = Some c \<and> m_id c = i)" for i p
    using cn_invD(2) [OF w(2)] by (simp add: FindConnect_def)
  show ?thesis
    using w(1) find cn_invD(5) [OF w(2)] live by blast
qed

definition ok_answers :: net_answers where
  "ok_answers = \<lparr>na_socket = 5, na_bev_new = True, na_connect = True\<rparr>"

definition sample_events :: "lev_event list" where
  "sample_events = [Ev_accept ok_answers 7 zero_addr [], Ev_accept ok_answers 8 zero_addr [U_FreeSelf],
     Ev_event 1 0x11 [] [] [U_FreeSelf, U_CloseConnect 2], Ev_close 1]"

lemma connections_never_dangle_witness:
  "list_all event_safe sample_events \<and> accepts sample_events < 2 ^ 64
   \<and> (\<exists>w. run_events [] zero_addr sample_events cn_start = Some w \<and> distinct (deleted w))"
proof -
  have safe: "list_all event_safe sample_events" "accepts sample_events < 2 ^ 64"
    by (simp_all add: sample_events_def oc_safe_def accepts_def)
  show ?thesis
    using safe connections_never_dangle [OF safe, of "[]" zero_addr] by blast
qed

text \<open>
  C19. When an accepted connection breaks, its object is deleted exactly once and its id leaves the
  manager, also when its \<^verbatim>\<open>onDisconnected\<close> calls \<^verbatim>\<open>FreeSelf\<close> itself, any number of times, or closes and
  disconnects other connections.
\<close>

theorem broken_connection_deleted_once:
  assumes "cn_inv w" and "objs w p = Some c" and "events AND BEV_EVENT_CONNECTED = 0"
    and "list_all (act_safe [] [m_id c] False) oe" and "list_all (act_safe [m_id c] [m_id c] True) od"
  shows "\<exists>w'. ListenerConnector_event events (run_acts p oc) (run_acts p oe) (run_acts p od) p w = Some w'
    \<and> objs w' p = None \<and> count_list (deleted w') p = 1 \<and> FindConnect (m_id c) w' = None"
proof -
  let ?c1 = "c\<lparr>conn_base := call (OnError events) (conn_base c)\<rparr>"
  have inv1: "cn_inv (put_obj p ?c1 w)" using cn_inv_put [OF assms(1,2)] by simp
  obtain w2 where w2: "run_acts p oe (put_obj p ?c1 w) = Some w2" "cn_inv w2" "objs w2 p = Some ?c1"
    using survive_run [OF inv1, of p ?c1 oe] assms(4) by auto
  obtain w3 where w3: "ListenerConnector_DisConnect (run_acts p od) p w2 = Some w3" "cn_inv w3"
      "p \<in> set (deleted w3)" "smap_find (m_all_connector w3) (m_id c) = None"
    using DisConnect_run [OF w2(2,3), of od] assms(5) by auto
  have "count_list (deleted w3) p = 1"
    using count_list_distinct [OF cn_invD(5) [OF w3(2)] w3(3)] .
  moreover have "objs w3 p = None" using cn_invD(6) [OF w3(2), of p] w3(3) by auto
  ultimately show ?thesis
    using w2(1) w3(1,4) assms(2,3)
    by (simp add: ListenerConnector_event_def set_base_def FindConnect_def)
qed

text \<open>A world with one accepted connection, as a concrete input.\<close>

definition one_conn :: "BaseConnect \<Rightarrow> cn_world" where
  "one_conn b = registered \<lparr>conn_base = b, m_cn_mgr = Some (), m_id = 1, m_svr_addr = zero_addr,
     m_ignore_free = False\<rparr> cn_start"

lemma cn_inv_one_conn: "cn_inv (one_conn b)"
  unfolding one_conn_def by (rule cn_inv_registered [OF cn_inv_start]) (simp_all add: cn_start_def)

lemma objs_one_conn:
  "objs (one_conn b) 0 = Some \<lparr>conn_base = b, m_cn_mgr = Some (), m_id = 1, m_svr_addr = zero_addr,
     m_ignore_free = False\<rparr>"
  by (simp add: one_conn_def registered_def cn_start_def)

lemma broken_connection_deleted_once_witness:
  "\<exists>w'. ListenerConnector_event 0x11 (run_acts 0 []) (run_acts 0 []) (run_acts 0 [U_FreeSelf, U_FreeSelf])
      0 (one_conn (BaseConnect_new [])) = Some w'
    \<and> objs w' 0 = None \<and> count_list (deleted w') 0 = 1 \<and> FindConnect 1 w' = None"
  using broken_connection_deleted_once [OF cn_inv_one_conn objs_one_conn,
      where events = "0x11" and oe = "[]" and od = "[U_FreeSelf, U_FreeSelf]" and oc = "[]"]
  by (simp add: BEV_EVENT_CONNECTED_def)

text \<open>
  C20. An \<^verbatim>\<open>OnRecv\<close> that answers a slow peer uses a deleted object: when more output waits than
  \<^verbatim>\<open>SetMaxSendBufSize\<close> allows, \<^verbatim>\<open>send_data\<close> disconnects, \<^verbatim>\<open>on_disconnected\<close> deletes the connection,
  and \<^verbatim>\<open>conn_read_callback\<close> then stores into it.
\<close>

theorem send_in_OnRecv_uses_deleted:
  assumes inv: "cn_inv w" and c: "objs w p = Some c"
    and up: "m_is_connect (conn_base c)" "m_fd (conn_base c) \<noteq> 0" "m_buf_e (conn_base c) = Some bev"
    and full: "m_msbs (conn_base c) \<noteq> 0" "m_msbs (conn_base c) < length (bev_output bev)"
    and od: "list_all (act_safe [m_id c] [m_id c] True) od"
  shows "deliver_msg (\<lambda>w1. map_option snd (ListenerConnector_send wr beyond msg (run_acts p od) p w1)) p w
    = None"
proof -
  let ?b1 = "call (OnRecv (m_msg (conn_base c))) (conn_base c)"
  let ?c1 = "c\<lparr>conn_base := ?b1\<rparr>"
  let ?w1 = "put_obj p ?c1 w"
  let ?c2 = "c\<lparr>conn_base := DisConnect ?b1\<rparr>"
  let ?w2 = "put_obj p ?c2 ?w1"
  have inv1: "cn_inv ?w1" using cn_inv_put [OF inv c] by simp
  have o1: "objs ?w1 p = Some ?c1" by simp
  have inv2: "cn_inv ?w2" using cn_inv_put [OF inv1 o1] by simp
  have o2: "objs ?w2 p = Some ?c2" by simp
  have send: "send_data wr beyond msg ?b1 = (False, DisConnect ?b1)"
    using up full by (simp add: send_data_def Let_def call_def)
  have user: "\<exists>w2. run_acts p od w1 = Some w2 \<and> cn_inv w2 \<and> frame_ok [m_id ?c2] w1 w2"
    if "cn_inv w1" "guarded [m_id ?c2] w1" "objs w1 p = Some (?c2\<lparr>m_ignore_free := True\<rparr>)" for w1
    using run_acts_safe(2) [OF that(1,2), of "[m_id c]" True od p] od that(3) by simp
  obtain w3 where w3: "ListenerConnector_on_disconnected (run_acts p od) p ?w2 = Some w3"
      "cn_inv w3" "p \<in> set (deleted w3)"
    using on_disconnected_lemma [OF inv2 o2, of "[]" "[]" "run_acts p od"] user by auto
  have dead: "objs w3 p = None" using cn_invD(6) [OF w3(2), of p] w3(3) by auto
  have grown: "length (calls ?b1) < length (calls (DisConnect ?b1))"
    by (simp add: DisConnect_def call_def free_def)
  have "ListenerConnector_send wr beyond msg (run_acts p od) p ?w1 = Some (False, w3)"
    using send w3(1) grown by (simp add: ListenerConnector_send_def set_base_def)
  then show ?thesis
    using c dead by (simp add: deliver_msg_def set_base_def)
qed

definition slow_conn :: BaseConnect where
  "slow_conn = (BaseConnect_new [])\<lparr>m_is_connect := True, m_fd := 7, m_msbs := 1,
     m_buf_e := Some \<lparr>bev_input = [], bev_output = ''ab''\<rparr>\<rparr>"

lemma send_in_OnRecv_uses_deleted_witness:
  "deliver_msg (\<lambda>w1. map_option snd (ListenerConnector_send (\<lambda>q bs. (True, q @ bs)) [] (replicate 4 NUL)
     (run_acts 0 []) 0 w1)) 0 (one_conn slow_conn) = None"
  by (rule send_in_OnRecv_uses_deleted [OF cn_inv_one_conn objs_one_conn,
        where bev = "\<lparr>bev_input = [], bev_output = ''ab''\<rparr>"])
     (simp_all add: slow_conn_def)

text \<open>
  The two ways to break the rules for \<^verbatim>\<open>onDisconnected\<close>: \<^verbatim>\<open>m_ignore_free\<close> guards \<^verbatim>\<open>FreeSelf\<close> only, so
  closing the connection through the manager, as the header tells users to, or disconnecting it
  again leaves \<^verbatim>\<open>on_disconnected\<close> with a deleted object.
\<close>

lemma close_in_onDisconnected_uses_deleted:
  "ListenerConnector_DisConnect (run_acts 0 [U_CloseConnect 1]) 0 (one_conn (BaseConnect_new [])) = None"
  "ListenerConnector_DisConnect (run_acts 0 [U_DisConnect 1 []]) 0 (one_conn (BaseConnect_new [])) = None"
  by (simp_all add: ListenerConnector_DisConnect_def ListenerConnector_on_disconnected_def set_base_def
      set_ignore_def objs_one_conn CloseConnect_def FindConnect_def delete_obj_def FreeSelf_def
      one_conn_def registered_def cn_start_def put_obj_def smap_find_def)

text \<open>
  A connection whose \<^verbatim>\<open>AcceptInit\<close> failed stays in the manager without a bufferevent: no event
  will ever end it, and its descriptor is not closed.
\<close>

lemma failed_accept_stays:
  assumes inv: "cn_inv w" and room: "id_seed w \<noteq> - 1" and fail: "\<not> na_bev_new na"
  shows "\<exists>w'. run_event g svr (Ev_accept na fd sa oc) w = Some w'
    \<and> FindConnect (id_seed w + 1) w' = Some (fresh_ptr w)
    \<and> \<not> has_bev (fresh_ptr w) w' \<and> map_option (\<lambda>c. m_fd (conn_base c)) (objs w' (fresh_ptr w)) = Some fd"
  using fail cn_invD(1) [OF inv]
  by (simp add: listener_cb_eq Let_def registered_def FindConnect_def smap.look_upd has_bev_def
      accepted_def BaseAcceptInit_def BaseConnect_new_def)

text \<open>
  A second \<^verbatim>\<open>Init\<close> replaces \<^verbatim>\<open>m_listener\<close> without freeing it: the first libevent listener stays open
  after the destructor.
\<close>

lemma second_Init_leaks_listener:
  assumes "mk a [] = Some n" and "mk b [n] = Some n'" and "n' \<noteq> n"
  shows "delete_Listener (snd (Listener_Init mk b (snd (Listener_Init mk a (new_Listener, []))))) = [n]"
  using assms by (simp add: Listener_Init_def new_Listener_def delete_Listener_def Let_def)

text \<open>
  \<^verbatim>\<open>~BaseConnectorMgr\<close> deletes every connection, each once, and nothing is left in the map.
\<close>

lemma delete_all_distinct:
  "distinct ps \<Longrightarrow> \<forall>p \<in> set ps. objs w p \<noteq> None \<Longrightarrow>
   delete_all ps w = Some (w\<lparr>objs := objs w |` (- set ps), deleted := deleted w @ ps\<rparr>)"
proof (induction ps arbitrary: w)
  case Nil
  then show ?case by simp
next
  case (Cons p ps)
  obtain c where c: "objs w p = Some c" using Cons.prems(2) by auto
  let ?w1 = "w\<lparr>objs := (objs w)(p := None), deleted := deleted w @ [p]\<rparr>"
  have "\<forall>q \<in> set ps. objs ?w1 q \<noteq> None" using Cons.prems by auto
  then have "delete_all ps ?w1
      = Some (?w1\<lparr>objs := objs ?w1 |` (- set ps), deleted := deleted ?w1 @ ps\<rparr>)"
    using Cons.prems(1) by (intro Cons.IH) simp_all
  moreover have "objs ?w1 |` (- set ps) = objs w |` (- set (p # ps))"
    by (auto simp: restrict_map_def)
  ultimately show ?case using c by (simp add: delete_obj_def)
qed

lemma mgr_pointers:
  assumes inv: "cn_inv w"
  shows "set (map snd (m_all_connector w)) = {p. objs w p \<noteq> None}"
    and "distinct (map snd (m_all_connector w))"
proof -
  note smap = cn_invD(1) [OF inv]
  have mem: "(i, p) \<in> set (m_all_connector w) \<longleftrightarrow> (\<exists>c. objs w p = Some c \<and> m_id c = i)" for i p
    using smap_find_set_eq [OF smap] cn_invD(2) [OF inv] by blast
  show "set (map snd (m_all_connector w)) = {p. objs w p \<noteq> None}"
    using mem by force
  have "inj_on snd (set (m_all_connector w))"
  proof (rule inj_onI)
    fix x y assume xy: "x \<in> set (m_all_connector w)" "y \<in> set (m_all_connector w)" "snd x = snd y"
    have "\<exists>c. objs w (snd z) = Some c \<and> m_id c = fst z" if "z \<in> set (m_all_connector w)" for z
      using mem [of "fst z" "snd z"] that by simp
    from this [OF xy(1)] this [OF xy(2)] show "x = y" using xy(3) by (auto simp: prod_eq_iff)
  qed
  moreover have "distinct (m_all_connector w)"
    using smap unfolding smap_inv_def strict_sorted_iff distinct_map by blast
  ultimately show "distinct (map snd (m_all_connector w))" by (simp add: distinct_map)
qed

lemma delete_BaseConnectorMgr_frees_all:
  assumes inv: "cn_inv w"
  shows "\<exists>w'. delete_BaseConnectorMgr w = Some w' \<and> objs w' = Map.empty
    \<and> distinct (deleted w') \<and> m_all_connector w' = []"
proof -
  let ?ps = "map snd (m_all_connector w)"
  note ps = mgr_pointers [OF inv]
  have live: "\<forall>p \<in> set ?ps. objs w p \<noteq> None" using ps(1) by blast
  have "objs w |` (- set ?ps) = Map.empty" unfolding ps(1) by (auto simp: restrict_map_def)
  moreover have "distinct (deleted w @ ?ps)"
    using cn_invD(5) [OF inv] ps cn_invD(6) [OF inv] by auto
  ultimately show ?thesis
    unfolding delete_BaseConnectorMgr_def delete_all_distinct [OF ps(2) live] by simp
qed

end
