(* ===== verification/ListenerRead.thy ===== *)
theory ListenerRead
  imports Listener
begin

text \<open>
  Receiving on an accepted connection: \<^verbatim>\<open>BaseConnect::conn_read_callback\<close> of theory Connector run on an
  object of the manager (theory Listener), with the code of the derived class in place. \<^verbatim>\<open>OnRecv\<close>
  runs in the middle of the loop, which then goes on with the object; \<^verbatim>\<open>DisConnect\<close> runs the override
  that deletes the object, and the loop returns. The main lemma relates the two: as long as the
  callbacks keep to the rules, the loop does to the object what it does to a lone connection.
\<close>

section \<open>The read callback on the heap\<close>

text \<open>
  The object while \<^verbatim>\<open>OnRecv\<close> runs: the message is still there, the two stores that drop it come
  after the call.
\<close>

definition before_stores :: "BaseConnect \<Rightarrow> BaseConnect" where
  "before_stores b =
     (case last (calls b) of
        OnRecv m \<Rightarrow> b\<lparr>m_msg := m, m_msg_write_len := nat (msg_len m) + HEAD_LEN\<rparr>
      | _ \<Rightarrow> b)"

definition ListenerConnector_read_step :: "(byte list \<Rightarrow> nat \<Rightarrow> byte list \<times> byte list)
    \<Rightarrow> (MsgPack \<Rightarrow> cn_world \<Rightarrow> cn_world option) \<Rightarrow> (cn_world \<Rightarrow> cn_world option)
    \<Rightarrow> obj_ptr \<Rightarrow> nat \<Rightarrow> cn_world \<Rightarrow> (nat option \<times> cn_world) option" where
  "ListenerConnector_read_step rd orv od p input_len w =
     do { c \<leftarrow> objs w p;
          let (r, b) = read_step rd input_len (conn_base c);
          case r of
            None \<Rightarrow>
              do { w1 \<leftarrow> set_base b p w;
                   w2 \<leftarrow> ListenerConnector_on_disconnected od p w1;
                   Some (None, w2) }
          | Some n \<Rightarrow>
              if calls b = calls (conn_base c)
              then do { w1 \<leftarrow> set_base b p w; Some (Some n, w1) }
              else let b1 = before_stores b in
                do { w1 \<leftarrow> set_base b1 p w;
                     w2 \<leftarrow> orv (m_msg b1) w1;
                     c2 \<leftarrow> objs w2 p;
                     w3 \<leftarrow> set_base ((conn_base c2)\<lparr>m_msg := clear_len (m_msg (conn_base c2)),
                              m_msg_write_len := 0\<rparr>) p w2;
                     Some (Some n, w3) } }"

definition at_head :: "obj_ptr \<Rightarrow> cn_world \<Rightarrow> bool" where
  "at_head p w = (case objs w p of None \<Rightarrow> False | Some c \<Rightarrow> m_msg_write_len (conn_base c) < HEAD_LEN)"

lemma read_step_no_call:
  "read_step rd n b = (Some n', b') \<Longrightarrow> calls b' = calls b
    \<or> (\<exists>m. calls b' = calls b @ [OnRecv m] \<and> m_msg b' = clear_len m \<and> m_msg_write_len b' = 0
         \<and> before_stores b' = b'\<lparr>m_msg := m, m_msg_write_len := nat (msg_len m) + HEAD_LEN\<rparr>)"
  by (auto simp: read_step_def Let_def conn_defs before_stores_def split: if_splits prod.splits)

lemma read_step_drops:
  "read_step rd n b = (None, b') \<Longrightarrow> calls b' = calls b @ [on_disconnected]"
  by (auto simp: read_step_def Let_def conn_defs split: if_splits prod.splits)

lemma ListenerConnector_read_step_measure:
  assumes "ListenerConnector_read_step rd orv od p n w = Some (Some n', w')" and "0 < n"
  shows "n' < n \<or> (n' = n \<and> \<not> at_head p w \<and> at_head p w')"
proof -
  obtain c where c: "objs w p = Some c"
    using assms(1) by (auto simp: ListenerConnector_read_step_def bind_eq_Some_conv)
  obtain r b where rb: "read_step rd n (conn_base c) = (r, b)" by fastforce
  have r: "r = Some n'"
    using assms(1) c rb
    by (auto simp: ListenerConnector_read_step_def bind_eq_Some_conv Let_def
        split: option.splits if_splits)
  note less = read_step_measure [OF rb [unfolded r] assms(2)]
  have "at_head p w'" if "m_msg_write_len b < HEAD_LEN"
    using assms(1) c rb r that
    by (auto simp: ListenerConnector_read_step_def bind_eq_Some_conv Let_def set_base_def at_head_def
        HEAD_LEN_def put_obj_def split: if_splits)
  then show ?thesis using less c by (auto simp: at_head_def)
qed

function ListenerConnector_read_loop :: "(byte list \<Rightarrow> nat \<Rightarrow> byte list \<times> byte list)
    \<Rightarrow> (MsgPack \<Rightarrow> cn_world \<Rightarrow> cn_world option) \<Rightarrow> (cn_world \<Rightarrow> cn_world option)
    \<Rightarrow> obj_ptr \<Rightarrow> nat \<Rightarrow> cn_world \<Rightarrow> cn_world option" where
  "ListenerConnector_read_loop rd orv od p input_len w =
     (if input_len = 0 then Some w
      else case ListenerConnector_read_step rd orv od p input_len w of
        None \<Rightarrow> None
      | Some (None, w') \<Rightarrow> Some w'
      | Some (Some n, w') \<Rightarrow> ListenerConnector_read_loop rd orv od p n w')"
  by pat_completeness auto
termination
  by (relation "measures [\<lambda>(rd, orv, od, p, n, w). n, \<lambda>(rd, orv, od, p, n, w). if at_head p w then 0 else 1]")
     (auto dest!: ListenerConnector_read_step_measure)

declare ListenerConnector_read_loop.simps [simp del]

definition ListenerConnector_read :: "(byte list \<Rightarrow> nat \<Rightarrow> byte list \<times> byte list)
    \<Rightarrow> (MsgPack \<Rightarrow> cn_world \<Rightarrow> cn_world option) \<Rightarrow> (cn_world \<Rightarrow> cn_world option)
    \<Rightarrow> obj_ptr \<Rightarrow> cn_world \<Rightarrow> cn_world option" where
  "ListenerConnector_read rd orv od p w =
     do { c \<leftarrow> objs w p;
          ListenerConnector_read_loop rd orv od p (length (input_of (conn_base c))) w }"

section \<open>The loop on the heap and the loop on a lone connection\<close>

text \<open>Whether the connection \<open>b\<close> was disconnected on the way to \<open>b'\<close>.\<close>

definition dropped :: "BaseConnect \<Rightarrow> BaseConnect \<Rightarrow> bool" where
  "dropped b b' \<longleftrightarrow> on_disconnected \<in> set (drop (length (calls b)) (calls b'))"

text \<open>The callbacks of a reader that keep to the rules, for the object with the id \<open>i\<close>.\<close>

definition recv_safe :: "64 word \<Rightarrow> (MsgPack \<Rightarrow> user_act list) \<Rightarrow> user_act list \<Rightarrow> bool" where
  "recv_safe i orv od \<longleftrightarrow> (\<forall>m. list_all (act_safe [] [i] False) (orv m)) \<and> list_all (act_safe [i] [i] True) od"

text \<open>What is left of the object \<open>c\<close> at \<open>p\<close> when a lone connection ends as \<open>b\<close>.\<close>

definition read_outcome :: "obj_ptr \<Rightarrow> ListenerConnector \<Rightarrow> BaseConnect \<Rightarrow> cn_world \<Rightarrow> bool" where
  "read_outcome p c b w' \<longleftrightarrow> cn_inv w' \<and>
     (if dropped (conn_base c) b
      then objs w' p = None \<and> count_list (deleted w') p = 1 \<and> FindConnect (m_id c) w' = None
      else objs w' p = Some (c\<lparr>conn_base := b\<rparr>) \<and> FindConnect (m_id c) w' = Some p)"

lemma read_step_survives:
  assumes inv: "cn_inv w" and c: "objs w p = Some c" and safe: "recv_safe (m_id c) orv od"
    and step: "read_step rd n (conn_base c) = (Some n', b)"
  shows "\<exists>w'. ListenerConnector_read_step rd (\<lambda>m. run_acts p (orv m)) (run_acts p od) p n w = Some (Some n', w')
    \<and> cn_inv w' \<and> objs w' p = Some (c\<lparr>conn_base := b\<rparr>)"
proof (cases "calls b = calls (conn_base c)")
  case True
  then show ?thesis
    using c step cn_inv_put [OF inv c, of "c\<lparr>conn_base := b\<rparr>"]
    by (simp add: ListenerConnector_read_step_def set_base_def)
next
  case False
  then obtain m where m: "m_msg b = clear_len m" "m_msg_write_len b = 0"
      "before_stores b = b\<lparr>m_msg := m, m_msg_write_len := nat (msg_len m) + HEAD_LEN\<rparr>"
    using read_step_no_call [OF step] by blast
  let ?b1 = "b\<lparr>m_msg := m, m_msg_write_len := nat (msg_len m) + HEAD_LEN\<rparr>"
  let ?c1 = "c\<lparr>conn_base := ?b1\<rparr>"
  have inv1: "cn_inv (put_obj p ?c1 w)" using cn_inv_put [OF inv c] by simp
  obtain w2 where w2: "run_acts p (orv m) (put_obj p ?c1 w) = Some w2" "cn_inv w2" "objs w2 p = Some ?c1"
    using survive_run [OF inv1, of p ?c1 "orv m"] safe by (auto simp: recv_safe_def)
  have again: "?b1\<lparr>m_msg := clear_len m, m_msg_write_len := 0\<rparr> = b"
    using m by (cases b) simp
  show ?thesis
    using c step False m(3) w2 again cn_inv_put [OF w2(2,3), of "c\<lparr>conn_base := b\<rparr>"]
    by (simp add: ListenerConnector_read_step_def set_base_def Let_def)
qed

lemma read_step_deletes:
  assumes inv: "cn_inv w" and c: "objs w p = Some c" and safe: "recv_safe (m_id c) orv od"
    and step: "read_step rd n (conn_base c) = (None, b)"
  shows "\<exists>w'. ListenerConnector_read_step rd (\<lambda>m. run_acts p (orv m)) (run_acts p od) p n w = Some (None, w')
    \<and> read_outcome p c b w'"
proof -
  let ?c1 = "c\<lparr>conn_base := b\<rparr>"
  have inv1: "cn_inv (put_obj p ?c1 w)" using cn_inv_put [OF inv c] by simp
  have user: "\<exists>w2. run_acts p od w1 = Some w2 \<and> cn_inv w2 \<and> frame_ok [m_id c] w1 w2"
    if "cn_inv w1" "guarded [m_id c] w1" "objs w1 p = Some (?c1\<lparr>m_ignore_free := True\<rparr>)" for w1
    using run_acts_safe(2) [OF that(1,2), of "[m_id c]" True od p] safe that(3) by (simp add: recv_safe_def)
  obtain w' where w': "ListenerConnector_on_disconnected (run_acts p od) p (put_obj p ?c1 w) = Some w'"
      "cn_inv w'" "p \<in> set (deleted w')" "smap_find (m_all_connector w') (m_id c) = None"
    using on_disconnected_lemma [OF inv1, of p ?c1 "[]" "[]" "run_acts p od"] user by auto
  have "dropped (conn_base c) b" using read_step_drops [OF step] by (simp add: dropped_def)
  then have "read_outcome p c b w'"
    using w' cn_invD(6) [OF w'(2), of p] count_list_distinct [OF cn_invD(5) [OF w'(2)] w'(3)]
    by (auto simp: read_outcome_def FindConnect_def)
  then show ?thesis
    using c step w'(1) by (simp add: ListenerConnector_read_step_def set_base_def)
qed

lemma read_step_calls: "read_step rd n b = (r, b') \<Longrightarrow> \<exists>es. calls b' = calls b @ es"
  using read_step_no_call read_step_drops by (cases r) fastforce+

lemma read_step_goes_on:
  "read_step rd n b = (Some n', b') \<Longrightarrow> on_disconnected \<notin> set (drop (length (calls b)) (calls b'))"
  using read_step_no_call by fastforce

lemma read_loop_calls: "\<exists>es. calls (read_loop rd n b) = calls b @ es"
proof (induction rd n b rule: read_loop.induct)
  case (1 rd n b)
  show ?case
  proof (cases "n = 0")
    case False
    obtain r b' where step: "read_step rd n b = (r, b')" by fastforce
    show ?thesis
      using 1 [OF False step [symmetric]] read_step_calls [OF step] False step
      by (cases r) (auto simp: read_loop_step)
  qed simp
qed

lemma dropped_step:
  assumes "read_step rd n b = (Some n', b')"
  shows "dropped b' (read_loop rd n' b') = dropped b (read_loop rd n' b')"
proof -
  obtain es where es: "calls b' = calls b @ es" using read_step_calls [OF assms] by blast
  obtain es' where es': "calls (read_loop rd n' b') = calls b' @ es'" using read_loop_calls by blast
  have "on_disconnected \<notin> set es" using read_step_goes_on [OF assms] es by simp
  then show ?thesis by (simp add: dropped_def es es')
qed

lemma read_loop_on_heap:
  "cn_inv w \<Longrightarrow> objs w p = Some c \<Longrightarrow> conn_base c = b \<Longrightarrow> recv_safe (m_id c) orv od \<Longrightarrow>
   \<exists>w'. ListenerConnector_read_loop rd (\<lambda>m. run_acts p (orv m)) (run_acts p od) p n w = Some w'
     \<and> read_outcome p c (read_loop rd n b) w'"
proof (induction rd n b arbitrary: w c rule: read_loop.induct)
  case (1 rd n b)
  note inv = "1.prems"(1) and c = "1.prems"(2) and b = "1.prems"(3) and safe = "1.prems"(4)
  show ?case
  proof (cases "n = 0")
    case True
    then show ?thesis
      using inv c b cn_inv_find [OF inv c]
      by (auto simp: ListenerConnector_read_loop.simps [of _ _ _ _ 0] read_outcome_def dropped_def FindConnect_def)
  next
    case False
    obtain r b' where step: "read_step rd n b = (r, b')" by fastforce
    show ?thesis
    proof (cases r)
      case None
      then show ?thesis
        using read_step_deletes [OF inv c safe, of rd n b'] step b False
        by (auto simp: ListenerConnector_read_loop.simps [of _ _ _ _ n] read_loop_step)
    next
      case (Some n')
      let ?c' = "c\<lparr>conn_base := b'\<rparr>"
      obtain w1 where w1: "ListenerConnector_read_step rd (\<lambda>m. run_acts p (orv m)) (run_acts p od) p n w
          = Some (Some n', w1)" "cn_inv w1" "objs w1 p = Some ?c'"
        using read_step_survives [OF inv c safe, of rd n n' b'] step Some b by auto
      obtain w' where w': "ListenerConnector_read_loop rd (\<lambda>m. run_acts p (orv m)) (run_acts p od) p n' w1
          = Some w'" "read_outcome p ?c' (read_loop rd n' b') w'"
        using 1(1) [OF False step [symmetric] Some w1(2,3)] safe by auto
      have "read_outcome p c (read_loop rd n' b') w'"
        using w'(2) dropped_step [OF step [unfolded Some]] b by (simp add: read_outcome_def split: if_splits)
      then show ?thesis
        using w1(1) w'(1) False step Some
        by (simp add: ListenerConnector_read_loop.simps [of _ _ _ _ n] read_loop_step)
    qed
  qed
qed

text \<open>
  Receiving on an accepted connection does what it does on a lone one: the object is left as
  \<^verbatim>\<open>conn_read_callback\<close> leaves a lone connection, still in the manager, unless that one disconnected;
  then the object was deleted, once, and its id is gone.
\<close>

lemma reading_on_the_heap:
  assumes "cn_inv w" and "objs w p = Some c" and "recv_safe (m_id c) orv od"
  shows "\<exists>w'. ListenerConnector_read rd (\<lambda>m. run_acts p (orv m)) (run_acts p od) p w = Some w'
    \<and> read_outcome p c (conn_read_callback rd (conn_base c)) w'"
  using read_loop_on_heap [OF assms(1,2) refl assms(3)] assms(2)
  by (auto simp: ListenerConnector_read_def conn_read_callback_def)

lemma dropped_not_connected:
  "dropped b (read_loop rd n b) \<Longrightarrow> \<not> m_is_connect (read_loop rd n b)"
proof (induction rd n b rule: read_loop.induct)
  case (1 rd n b)
  have n: "n \<noteq> 0" using "1.prems" by (cases "n = 0") (auto simp: dropped_def)
  obtain r b' where step: "read_step rd n b = (r, b')" by fastforce
  show ?case
  proof (cases r)
    case None
    then have "\<not> m_is_connect b'"
      using step by (auto simp: read_step_def Let_def conn_defs split: if_splits prod.splits)
    then show ?thesis using n step None by (simp add: read_loop_step)
  next
    case (Some n')
    then have "read_loop rd n b = read_loop rd n' b'" using n step by (simp add: read_loop_step)
    then show ?thesis
      using 1(1) [OF n step [symmetric] Some] "1.prems" dropped_step [of rd n b n' b'] step Some by simp
  qed
qed

section \<open>Bytes from the network\<close>

text \<open>
  The network puts bytes into the input queue of the connection at \<open>p\<close>, and libevent calls the read
  callback; this happens for one piece of the stream after the other.
\<close>

definition arrives :: "byte list \<Rightarrow> obj_ptr \<Rightarrow> cn_world \<Rightarrow> cn_world option" where
  "arrives bs p w =
     (case objs w p of
        None \<Rightarrow> None
      | Some c \<Rightarrow> set_base (set_input (input_of (conn_base c) @ bs) (conn_base c)) p w)"

fun server_reads :: "(byte list \<Rightarrow> nat \<Rightarrow> byte list \<times> byte list) \<Rightarrow> (MsgPack \<Rightarrow> user_act list) \<Rightarrow> user_act list
    \<Rightarrow> obj_ptr \<Rightarrow> byte list list \<Rightarrow> cn_world \<Rightarrow> cn_world option" where
  "server_reads rd orv od p [] w = Some w"
| "server_reads rd orv od p (x # xs) w =
     do { w1 \<leftarrow> arrives x p w;
          w2 \<leftarrow> ListenerConnector_read rd (\<lambda>m. run_acts p (orv m)) (run_acts p od) p w1;
          server_reads rd orv od p xs w2 }"

lemma arrival_on_heap:
  assumes inv: "cn_inv w" and c: "objs w p = Some c" and safe: "recv_safe (m_id c) orv od"
    and conn: "m_is_connect (deliver rd x (conn_base c))"
  shows "\<exists>w1 w2. arrives x p w = Some w1
    \<and> ListenerConnector_read rd (\<lambda>m. run_acts p (orv m)) (run_acts p od) p w1 = Some w2
    \<and> cn_inv w2 \<and> objs w2 p = Some (c\<lparr>conn_base := deliver rd x (conn_base c)\<rparr>)"
proof -
  let ?b = "set_input (input_of (conn_base c) @ x) (conn_base c)"
  let ?c = "c\<lparr>conn_base := ?b\<rparr>"
  let ?w = "put_obj p ?c w"
  have arr: "arrives x p w = Some ?w" using c by (simp add: arrives_def set_base_def)
  have inv1: "cn_inv ?w" using cn_inv_put [OF inv c] by simp
  have o1: "objs ?w p = Some ?c" by simp
  have "recv_safe (m_id ?c) orv od" using safe by simp
  from reading_on_the_heap [OF inv1 o1 this, of rd] obtain w2 where
    w2: "ListenerConnector_read rd (\<lambda>m. run_acts p (orv m)) (run_acts p od) p ?w = Some w2"
      "read_outcome p ?c (deliver rd x (conn_base c)) w2" by (auto simp: deliver_def)
  have "\<not> dropped (conn_base ?c) (deliver rd x (conn_base c))"
    using conn dropped_not_connected [of ?b rd] by (auto simp: deliver_def conn_read_callback_def)
  then show ?thesis using arr w2 by (simp add: read_outcome_def)
qed

text \<open>Frames that arrive in pieces with clean cuts only: all of them are received, in order.\<close>

lemma server_reads_clean:
  assumes rd: "reads_prefix rd"
  shows "\<lbrakk> cn_inv w; objs w p = Some c; recv_safe (m_id c) orv od; awaits bodies k [] (conn_base c); sendable bodies;
           concat xs = drop k (concat (map frame bodies));
           \<forall>n \<le> length xs. clean_cut bodies (k + length (concat (take n xs))) \<rbrakk> \<Longrightarrow>
    \<exists>w' c'. server_reads rd orv od p xs w = Some w' \<and> cn_inv w' \<and> objs w' p = Some c' \<and> m_id c' = m_id c
      \<and> received (conn_base c') = received (conn_base c) @ bodies \<and> idle_conn (conn_base c')"
proof (induction xs arbitrary: bodies k w c)
  case Nil
  show ?case
  proof (cases bodies)
    case Nil
    then show ?thesis using Nil.prems awaits_none by auto
  next
    case (Cons b bs)
    have "at_header (be4 (int (length b))) k [] (conn_base c)" using Nil.prems(4) Cons by (simp add: awaits_def)
    then have "k \<le> 4" by (simp add: at_header_def)
    then have "length (concat (map frame bodies)) \<noteq> k" "k \<le> length (concat (map frame bodies))"
      using Nil.prems(5) Cons by (auto simp: HEAD_LEN_def)
    then show ?thesis using Nil.prems(6) by simp
  qed
next
  case (Cons x xs)
  have split: "x @ concat xs = drop k (concat (map frame bodies))" using Cons.prems(6) by simp
  have cut: "clean_cut bodies (k + length x)"
    using Cons.prems(7) [rule_format, of 1] by simp
  obtain "done" bodies' k' where r: "bodies = done @ bodies'" "k + length x = length (concat (map frame done)) + k'"
    "awaits bodies' k' [] (deliver rd x (conn_base c))" "concat xs = drop k' (concat (map frame bodies'))"
    "received (deliver rd x (conn_base c)) = received (conn_base c) @ done"
    using deliver_clean [OF rd Cons.prems(4,5) split cut] by blast
  have "m_is_connect (deliver rd x (conn_base c))" using r(3) by (simp add: awaits_def)
  from arrival_on_heap [OF Cons.prems(1,2,3) this] obtain w1 w2 where
    w: "arrives x p w = Some w1" "ListenerConnector_read rd (\<lambda>m. run_acts p (orv m)) (run_acts p od) p w1 = Some w2"
      "cn_inv w2" "objs w2 p = Some (c\<lparr>conn_base := deliver rd x (conn_base c)\<rparr>)" by blast
  let ?c = "c\<lparr>conn_base := deliver rd x (conn_base c)\<rparr>"
  have cuts: "\<forall>n \<le> length xs. clean_cut bodies' (k' + length (concat (take n xs)))"
  proof (intro allI impI)
    fix n assume "n \<le> length xs"
    then have "clean_cut bodies (k + length (concat (take (Suc n) (x # xs))))"
      using Cons.prems(7) by (metis Suc_le_mono length_Cons)
    then have "clean_cut (done @ bodies') (length (concat (map frame done)) + (k' + length (concat (take n xs))))"
      using r(1,2) by (simp add: add.assoc [symmetric])
    then show "clean_cut bodies' (k' + length (concat (take n xs)))"
      using clean_cut_shift Cons.prems(5) r(1) by simp
  qed
  have "recv_safe (m_id ?c) orv od" "awaits bodies' k' [] (conn_base ?c)" "sendable bodies'"
    using Cons.prems(3,5) r(1,3) by simp_all
  from Cons.IH [OF w(3,4) this r(4) cuts] obtain w' c' where
    "server_reads rd orv od p xs w2 = Some w'" "cn_inv w'" "objs w' p = Some c'" "m_id c' = m_id ?c"
    "received (conn_base c') = received (conn_base ?c) @ bodies'" "idle_conn (conn_base c')" by blast
  then show ?case using w(1,2) r(1,5) by (intro exI [of _ w'] exI [of _ c']) simp
qed

end
