(* ===== verification/Zmalloc.thy ===== *)
theory Zmalloc
  imports StdMap
begin

text \<open>
  \<^verbatim>\<open>redisClient/dep/hiredis/zmalloc.{h,c}\<close>, in the build of the repository: the Makefile defines
  \<^verbatim>\<open>USE_JEMALLOC\<close>, so \<^verbatim>\<open>HAVE_MALLOC_SIZE\<close> is set, there is no prefix before a block,
  \<^verbatim>\<open>zmalloc_size\<close> is \<^verbatim>\<open>je_malloc_usable_size\<close>, and \<^verbatim>\<open>used_memory\<close> counts the padded usable
  sizes of the live blocks. (The other branch, which stores the size in front of every block, is not compiled.)

  jemalloc is not part of the repository: what \<^verbatim>\<open>je_malloc\<close> and \<^verbatim>\<open>je_realloc\<close> answer is a parameter, an
  address and all the bytes that can be used there. The live blocks are an ordered map from addresses to their bytes.
  Arithmetic on \<^verbatim>\<open>size_t\<close> is that of 64-bit words. \<open>ZAbort\<close> is the end of the program in the out-of-memory
  handler, \<open>ZUndef\<close> undefined behaviour: a store beyond a block, the use of an address that is not a live block, or
  going on with a null pointer. The ratio \<^verbatim>\<open>zmalloc_get_fragmentation_ratio\<close>, a \<^verbatim>\<open>float\<close>, is left out.
\<close>

section \<open>Data\<close>

definition PREFIX_SIZE :: "64 word" where "PREFIX_SIZE = 0"

datatype oom_handler = Oom_abort | Oom_returns

record zmalloc_state =
  used_memory :: "64 word"
  zmalloc_thread_safe :: bool
  zmalloc_oom_handler :: oom_handler
  zblocks :: "(nat, byte list) smap"

definition zm_start :: zmalloc_state where
  "zm_start = \<lparr>used_memory = 0, zmalloc_thread_safe = False, zmalloc_oom_handler = Oom_abort, zblocks = []\<rparr>"

datatype 'a zres = ZOk 'a | ZAbort | ZUndef

text \<open>What the allocator gives: an address and the bytes that are there, its usable size of them.\<close>

record raw_answer =
  ra_ptr :: nat
  ra_bytes :: "byte list"

section \<open>Accounting\<close>

text \<open>The macros: \<^verbatim>\<open>if (_n&(sizeof(long)-1)) _n += sizeof(long)-(_n&(sizeof(long)-1))\<close>.\<close>

definition pad_long :: "64 word \<Rightarrow> 64 word" where
  "pad_long n = (if n AND 7 \<noteq> 0 then n + (8 - (n AND 7)) else n)"

definition update_zmalloc_stat_alloc :: "64 word \<Rightarrow> zmalloc_state \<Rightarrow> zmalloc_state" where
  "update_zmalloc_stat_alloc n z = z\<lparr>used_memory := used_memory z + pad_long n\<rparr>"

definition update_zmalloc_stat_free :: "64 word \<Rightarrow> zmalloc_state \<Rightarrow> zmalloc_state" where
  "update_zmalloc_stat_free n z = z\<lparr>used_memory := used_memory z - pad_long n\<rparr>"

text \<open>
  The call of the handler: the default one aborts, and after one that returns the code goes on to
  ask for the usable size of the null pointer, for which jemalloc promises nothing.
\<close>

definition oom :: "zmalloc_state \<Rightarrow> 'a zres" where
  "oom z = (case zmalloc_oom_handler z of Oom_abort \<Rightarrow> ZAbort | Oom_returns \<Rightarrow> ZUndef)"

section \<open>Operations\<close>

text \<open>\<^verbatim>\<open>zmalloc_size(p)\<close> is \<^verbatim>\<open>je_malloc_usable_size(p)\<close>.\<close>

definition zmalloc_size :: "nat \<Rightarrow> zmalloc_state \<Rightarrow> 64 word zres" where
  "zmalloc_size p z =
     (case smap_find (zblocks z) p of None \<Rightarrow> ZUndef | Some bs \<Rightarrow> ZOk (of_nat (length bs)))"

definition zmalloc :: "(64 word \<Rightarrow> raw_answer option) \<Rightarrow> 64 word \<Rightarrow> zmalloc_state
    \<Rightarrow> (nat \<times> zmalloc_state) zres" where
  "zmalloc malloc sz z =
     (case malloc (sz + PREFIX_SIZE) of
        None \<Rightarrow> oom z
      | Some a \<Rightarrow>
          (let ptr = ra_ptr a; z1 = z\<lparr>zblocks := smap_set ptr (ra_bytes a) (zblocks z)\<rparr> in
           case zmalloc_size ptr z1 of
             ZOk n \<Rightarrow> ZOk (ptr, update_zmalloc_stat_alloc n z1)
           | ZAbort \<Rightarrow> ZAbort
           | ZUndef \<Rightarrow> ZUndef))"

text \<open>\<^verbatim>\<open>realloc\<close> keeps the bytes up to the smaller size and frees the old address.\<close>

definition zrealloc :: "(64 word \<Rightarrow> raw_answer option) \<Rightarrow> (nat \<Rightarrow> 64 word \<Rightarrow> raw_answer option)
    \<Rightarrow> nat option \<Rightarrow> 64 word \<Rightarrow> zmalloc_state \<Rightarrow> (nat \<times> zmalloc_state) zres" where
  "zrealloc malloc rea ptr sz z =
     (case ptr of
        None \<Rightarrow> zmalloc malloc sz z
      | Some p \<Rightarrow>
          (case smap_find (zblocks z) p of
             None \<Rightarrow> ZUndef
           | Some old \<Rightarrow>
               (let oldsize = of_nat (length old) :: 64 word in
                case rea p sz of
                  None \<Rightarrow> oom z
                | Some a \<Rightarrow>
                    let new = ra_bytes a; kept = take (length new) old @ drop (length old) new;
                        z1 = z\<lparr>zblocks := smap_set (ra_ptr a) kept (smap_erase p (zblocks z))\<rparr>;
                        z2 = update_zmalloc_stat_free oldsize z1
                    in case zmalloc_size (ra_ptr a) z2 of
                         ZOk n \<Rightarrow> ZOk (ra_ptr a, update_zmalloc_stat_alloc n z2)
                       | ZAbort \<Rightarrow> ZAbort
                       | ZUndef \<Rightarrow> ZUndef)))"

definition zfree :: "nat option \<Rightarrow> zmalloc_state \<Rightarrow> zmalloc_state zres" where
  "zfree ptr z =
     (case ptr of
        None \<Rightarrow> ZOk z
      | Some p \<Rightarrow>
          (case zmalloc_size p z of
             ZOk n \<Rightarrow>
               let z1 = update_zmalloc_stat_free n z
               in ZOk (z1\<lparr>zblocks := smap_erase p (zblocks z1)\<rparr>)
           | ZAbort \<Rightarrow> ZAbort
           | ZUndef \<Rightarrow> ZUndef))"

definition zstrdup :: "(64 word \<Rightarrow> raw_answer option) \<Rightarrow> byte list \<Rightarrow> zmalloc_state
    \<Rightarrow> (nat \<times> zmalloc_state) zres" where
  "zstrdup malloc s z =
     (let l = strlen s + 1 in
      case zmalloc malloc (of_nat l) z of
        ZOk (p, z1) \<Rightarrow>
          (case smap_find (zblocks z1) p of
             None \<Rightarrow> ZUndef
           | Some bs \<Rightarrow>
               if length bs < l then ZUndef
               else ZOk (p, z1\<lparr>zblocks := smap_set p (blit bs 0 (cstr s @ [NUL])) (zblocks z1)\<rparr>))
      | ZAbort \<Rightarrow> ZAbort
      | ZUndef \<Rightarrow> ZUndef)"

definition zmalloc_used_memory :: "zmalloc_state \<Rightarrow> 64 word" where
  "zmalloc_used_memory z = (if zmalloc_thread_safe z then used_memory z + 0 else used_memory z)"

definition zmalloc_enable_thread_safeness :: "zmalloc_state \<Rightarrow> zmalloc_state" where
  "zmalloc_enable_thread_safeness z = z\<lparr>zmalloc_thread_safe := True\<rparr>"

definition zmalloc_set_oom_handler :: "oom_handler \<Rightarrow> zmalloc_state \<Rightarrow> zmalloc_state" where
  "zmalloc_set_oom_handler h z = z\<lparr>zmalloc_oom_handler := h\<rparr>"

section \<open>The counter is the sum of the live blocks\<close>

definition counted :: "nat \<times> byte list \<Rightarrow> 64 word" where
  "counted e = pad_long (of_nat (length (snd e)))"

definition zm_inv :: "zmalloc_state \<Rightarrow> bool" where
  "zm_inv z \<longleftrightarrow> smap_inv (zblocks z) \<and> used_memory z = sum_list (map counted (zblocks z))"

text \<open>
  The allocator's contract for one answer: the block has at least the size asked for, its usable size is a
  \<^verbatim>\<open>size_t\<close>, and its address is not that of a live block.
\<close>

definition answer_ok :: "64 word \<Rightarrow> raw_answer \<Rightarrow> (nat, byte list) smap \<Rightarrow> bool" where
  "answer_ok sz a m \<longleftrightarrow> unat sz \<le> length (ra_bytes a) \<and> length (ra_bytes a) < 2 ^ 64 \<and> smap_find m (ra_ptr a) = None"

lemma zm_inv_add:
  assumes inv: "zm_inv z" and new: "smap_find (zblocks z) p = None"
  shows "zm_inv (update_zmalloc_stat_alloc (of_nat (length bs)) (z\<lparr>zblocks := smap_set p bs (zblocks z)\<rparr>))"
  using inv smap_sum_set [OF new, of counted bs]
  by (simp add: zm_inv_def update_zmalloc_stat_alloc_def smap_inv_set counted_def)

lemma zm_inv_remove:
  assumes inv: "zm_inv z" and p: "smap_find (zblocks z) p = Some bs"
  shows "zm_inv (update_zmalloc_stat_free (of_nat (length bs)) (z\<lparr>zblocks := smap_erase p (zblocks z)\<rparr>))"
  using inv smap_sum_erase [OF p, of counted]
  by (simp add: zm_inv_def update_zmalloc_stat_free_def smap_inv_erase counted_def)

lemma zmalloc_ok:
  assumes inv: "zm_inv z" and ans: "malloc sz = Some a" "answer_ok sz a (zblocks z)"
  shows "\<exists>z'. zmalloc malloc sz z = ZOk (ra_ptr a, z') \<and> zm_inv z'
    \<and> zblocks z' = smap_set (ra_ptr a) (ra_bytes a) (zblocks z)"
proof -
  have smap: "smap_inv (zblocks z)" using inv by (simp add: zm_inv_def)
  have "smap_find (zblocks z) (ra_ptr a) = None" using ans(2) by (simp add: answer_ok_def)
  from zm_inv_add [OF inv this, of "ra_bytes a"] show ?thesis
    using ans(1) by (simp add: zmalloc_def zmalloc_size_def PREFIX_SIZE_def Let_def smap.look_upd [OF smap]
        update_zmalloc_stat_alloc_def)
qed

lemma zfree_ok:
  assumes inv: "zm_inv z" and p: "smap_find (zblocks z) p = Some bs"
  shows "\<exists>z'. zfree (Some p) z = ZOk z' \<and> zm_inv z' \<and> zblocks z' = smap_erase p (zblocks z)"
  using zm_inv_remove [OF inv p] p
  by (cases z) (simp add: zfree_def zmalloc_size_def update_zmalloc_stat_free_def Let_def)

lemma zrealloc_ok:
  assumes inv: "zm_inv z" and p: "smap_find (zblocks z) p = Some old"
    and ans: "rea p sz = Some a" "answer_ok sz a (smap_erase p (zblocks z))"
  shows "\<exists>z' kept. zrealloc malloc rea (Some p) sz z = ZOk (ra_ptr a, z') \<and> zm_inv z'
    \<and> zblocks z' = smap_set (ra_ptr a) kept (smap_erase p (zblocks z)) \<and> unat sz \<le> length kept
    \<and> take (min (unat sz) (length old)) kept = take (min (unat sz) (length old)) old"
proof -
  let ?new = "ra_bytes a"
  let ?kept = "take (length ?new) old @ drop (length old) ?new"
  let ?z1 = "update_zmalloc_stat_free (of_nat (length old)) (z\<lparr>zblocks := smap_erase p (zblocks z)\<rparr>)"
  have smap: "smap_inv (smap_erase p (zblocks z))" using inv by (simp add: zm_inv_def smap_inv_erase)
  have len: "unat sz \<le> length ?new" "length ?kept = length ?new" using ans(2) by (auto simp: answer_ok_def)
  have swap: "z\<lparr>zblocks := m, used_memory := u\<rparr> = z\<lparr>used_memory := u, zblocks := m\<rparr>" for m u
    by (cases z) simp
  have e: "(of_nat (length ?kept) :: 64 word) = of_nat (length ?new)" by (simp only: len(2))
  have new: "smap_find (zblocks ?z1) (ra_ptr a) = None"
    using ans(2) by (simp add: answer_ok_def update_zmalloc_stat_free_def)
  from zm_inv_add [OF zm_inv_remove [OF inv p] new, of ?kept]
  have "zm_inv (update_zmalloc_stat_alloc (of_nat (length ?kept)) (?z1\<lparr>zblocks := smap_set (ra_ptr a) ?kept (zblocks ?z1)\<rparr>))" .
  moreover have "zrealloc malloc rea (Some p) sz z = ZOk (ra_ptr a,
      update_zmalloc_stat_alloc (of_nat (length ?kept)) (?z1\<lparr>zblocks := smap_set (ra_ptr a) ?kept (zblocks ?z1)\<rparr>))"
    using p ans(1) e smap.look_upd [OF smap, of "ra_ptr a" ?kept]
    by (simp add: zrealloc_def zmalloc_size_def Let_def update_zmalloc_stat_free_def swap)
  moreover have "take (min (unat sz) (length old)) ?kept = take (min (unat sz) (length old)) old"
    using len(1) by (simp add: min_def)
  ultimately show ?thesis
    using len by (auto simp: update_zmalloc_stat_alloc_def update_zmalloc_stat_free_def)
qed

lemma zm_inv_overwrite:
  assumes inv: "zm_inv z" and p: "smap_find (zblocks z) p = Some bs" and len: "length bs' = length bs"
  shows "zm_inv (z\<lparr>zblocks := smap_set p bs' (zblocks z)\<rparr>)"
proof -
  have smap: "smap_inv (zblocks z)" using inv by (simp add: zm_inv_def)
  have "smap_set p bs' (zblocks z) = smap_set p bs' (smap_erase p (zblocks z))"
    by (rule smap_ext) (simp_all add: smap smap_inv_set smap_inv_erase smap.look_upd smap.look_del)
  moreover have "smap_find (smap_erase p (zblocks z)) p = None" by (simp add: smap.look_del [OF smap])
  ultimately have "sum_list (map counted (smap_set p bs' (zblocks z)))
      = counted (p, bs') + sum_list (map counted (smap_erase p (zblocks z)))"
    using smap_sum_set [of "smap_erase p (zblocks z)" p counted bs'] by simp
  then show ?thesis
    using inv len smap_sum_erase [OF p, of counted] by (simp add: zm_inv_def smap_inv_set counted_def)
qed

lemma zstrdup_ok:
  assumes inv: "zm_inv z" and l: "strlen s + 1 < 2 ^ 64"
    and ans: "malloc (of_nat (strlen s + 1)) = Some a" "answer_ok (of_nat (strlen s + 1)) a (zblocks z)"
  shows "\<exists>z' bs. zstrdup malloc s z = ZOk (ra_ptr a, z') \<and> zm_inv z'
    \<and> smap_find (zblocks z') (ra_ptr a) = Some bs \<and> take (strlen s + 1) bs = cstr s @ [NUL]"
proof -
  let ?sz = "of_nat (strlen s + 1) :: 64 word" and ?dup = "cstr s @ [NUL]"
  have "unat ?sz = (strlen s + 1) mod 2 ^ LENGTH(64)" by (rule unat_of_nat)
  then have sz: "unat ?sz = strlen s + 1" using l by simp
  have smap: "smap_inv (zblocks z)" using inv by (simp add: zm_inv_def)
  obtain z1 where z1: "zmalloc malloc ?sz z = ZOk (ra_ptr a, z1)" "zm_inv z1"
      "zblocks z1 = smap_set (ra_ptr a) (ra_bytes a) (zblocks z)"
    using zmalloc_ok [where malloc = malloc, OF inv ans] by blast
  have find: "smap_find (zblocks z1) (ra_ptr a) = Some (ra_bytes a)" by (simp add: z1(3) smap.look_upd [OF smap])
  have len: "strlen s + 1 \<le> length (ra_bytes a)" "length ?dup = strlen s + 1"
    using ans(2) sz by (simp_all add: answer_ok_def strlen_def)
  let ?bs = "blit (ra_bytes a) 0 ?dup"
  have "length ?bs = length (ra_bytes a)" "take (strlen s + 1) ?bs = ?dup" using len by (simp_all add: blit_def)
  moreover have "smap_inv (zblocks z1)" using z1(2) by (simp add: zm_inv_def)
  ultimately show ?thesis
    using z1(1) find len zm_inv_overwrite [OF z1(2) find, of ?bs]
    by (simp add: zstrdup_def Let_def smap.look_upd)
qed

section \<open>Any sequence of calls\<close>

text \<open>The states a program reaches, the allocator keeping to its contract.\<close>

inductive zm_reach :: "zmalloc_state \<Rightarrow> bool" where
  zr_start: "zm_reach zm_start"
| zr_malloc: "zm_reach z \<Longrightarrow> answer_ok sz a (zblocks z)
    \<Longrightarrow> zmalloc (\<lambda>_. Some a) sz z = ZOk (p, z') \<Longrightarrow> zm_reach z'"
| zr_realloc: "zm_reach z \<Longrightarrow> answer_ok sz a (smap_erase p (zblocks z))
    \<Longrightarrow> zrealloc m (\<lambda>_ _. Some a) (Some p) sz z = ZOk (p', z') \<Longrightarrow> zm_reach z'"
| zr_free: "zm_reach z \<Longrightarrow> zfree ptr z = ZOk z' \<Longrightarrow> zm_reach z'"
| zr_strdup: "zm_reach z \<Longrightarrow> strlen s + 1 < 2 ^ 64 \<Longrightarrow> answer_ok (of_nat (strlen s + 1)) a (zblocks z)
    \<Longrightarrow> zstrdup (\<lambda>_. Some a) s z = ZOk (p, z') \<Longrightarrow> zm_reach z'"
| zr_threads: "zm_reach z \<Longrightarrow> zm_reach (zmalloc_enable_thread_safeness z)"
| zr_handler: "zm_reach z \<Longrightarrow> zm_reach (zmalloc_set_oom_handler h z)"

lemma zm_reach_inv: "zm_reach z \<Longrightarrow> zm_inv z"
proof (induction rule: zm_reach.induct)
  case zr_start
  then show ?case by (simp add: zm_inv_def zm_start_def)
next
  case (zr_malloc z sz a p z')
  then show ?case using zmalloc_ok [OF zr_malloc(4), of "\<lambda>_. Some a" sz a] by simp
next
  case (zr_realloc z sz a p m p' z')
  show ?case
  proof (cases "smap_find (zblocks z) p")
    case None
    then show ?thesis using zr_realloc(3) by (simp add: zrealloc_def)
  next
    case (Some b)
    from zrealloc_ok [OF zr_realloc(4) Some, of "\<lambda>_ _. Some a" sz a m] zr_realloc(2,3)
    show ?thesis by auto
  qed
next
  case (zr_free z ptr z')
  show ?case
  proof (cases ptr)
    case None
    then show ?thesis using zr_free by (simp add: zfree_def)
  next
    case (Some p)
    show ?thesis
    proof (cases "smap_find (zblocks z) p")
      case None
      then show ?thesis using zr_free(2) Some by (simp add: zfree_def zmalloc_size_def)
    next
      case (Some b)
      from zfree_ok [OF zr_free(3) Some] zr_free(2) \<open>ptr = Some p\<close> show ?thesis by simp
    qed
  qed
next
  case (zr_strdup z s a p z')
  then show ?case using zstrdup_ok [OF zr_strdup(5,2), of "\<lambda>_. Some a" a] by auto
next
  case (zr_threads z)
  then show ?case by (simp add: zm_inv_def zmalloc_enable_thread_safeness_def)
next
  case (zr_handler z h)
  then show ?case by (simp add: zm_inv_def zmalloc_set_oom_handler_def)
qed

text \<open>
  C29. After any sequence of allocations, reallocations, duplications and frees, with an allocator that keeps to
  its contract, the memory \<^verbatim>\<open>zmalloc_used_memory\<close> reports is the sum of what \<^verbatim>\<open>zmalloc_size\<close> reports for
  the live blocks, each rounded up to a multiple of eight, and so zero again once all are freed (modulo
  \<open>2 ^ 64\<close>, which the blocks of a process cannot exceed).
\<close>

theorem used_memory_is_live_memory:
  assumes "zm_reach z"
  shows "zmalloc_used_memory z = (\<Sum>(p, bs)\<leftarrow>zblocks z. pad_long (of_nat (length bs)))
    \<and> (\<forall>(p, bs) \<in> set (zblocks z). zmalloc_size p z = ZOk (of_nat (length bs)))
    \<and> (zblocks z = [] \<longrightarrow> zmalloc_used_memory z = 0)"
proof -
  have inv: "zm_inv z" using zm_reach_inv [OF assms] .
  then have smap: "smap_inv (zblocks z)" by (simp add: zm_inv_def)
  have "zmalloc_size p z = ZOk (of_nat (length bs))" if "(p, bs) \<in> set (zblocks z)" for p bs
    using that smap_find_set_eq [OF smap, of p bs] by (simp add: zmalloc_size_def)
  moreover have "counted = (\<lambda>(p, bs). pad_long (of_nat (length bs)))" by (auto simp: counted_def fun_eq_iff)
  ultimately show ?thesis
    using inv by (auto simp: zm_inv_def zmalloc_used_memory_def)
qed

definition block_of :: "nat \<Rightarrow> nat \<Rightarrow> raw_answer" where
  "block_of p n = \<lparr>ra_ptr = p, ra_bytes = replicate n NUL\<rparr>"

text \<open>An allocation of 10 bytes for which the allocator has a block of 14, enlarged to 30.\<close>

lemma used_memory_is_live_memory_witness:
  "\<exists>z1 z2. zmalloc (\<lambda>_. Some (block_of 100 14)) 10 zm_start = ZOk (100, z1) \<and> zmalloc_used_memory z1 = 16
     \<and> zrealloc (\<lambda>_. None) (\<lambda>_ _. Some (block_of 200 32)) (Some 100) 30 z1 = ZOk (200, z2) \<and> zm_reach z2
     \<and> zmalloc_used_memory z2 = 32"
proof -
  let ?z1 = "zm_start\<lparr>used_memory := 16, zblocks := [(100, replicate 14 NUL)]\<rparr>"
  let ?z2 = "zm_start\<lparr>used_memory := 32, zblocks := [(200, replicate 32 NUL)]\<rparr>"
  have 1: "zmalloc (\<lambda>_. Some (block_of 100 14)) 10 zm_start = ZOk (100, ?z1)"
    by (simp add: zmalloc_def zmalloc_size_def block_of_def zm_start_def update_zmalloc_stat_alloc_def Let_def
        PREFIX_SIZE_def pad_long_def smap_find_def)
  have r1: "zm_reach ?z1"
    by (rule zr_malloc [OF zr_start _ 1]) (simp add: answer_ok_def block_of_def zm_start_def smap_find_def)
  have "take 32 (replicate 14 NUL) @ drop 14 (replicate 32 NUL) = replicate 32 NUL"
    by (simp flip: replicate_add)
  then have 2: "zrealloc (\<lambda>_. None) (\<lambda>_ _. Some (block_of 200 32)) (Some 100) 30 ?z1 = ZOk (200, ?z2)"
    by (simp add: zrealloc_def zmalloc_size_def block_of_def zm_start_def update_zmalloc_stat_alloc_def
        update_zmalloc_stat_free_def Let_def pad_long_def smap_find_def)
  have r2: "zm_reach ?z2"
    by (rule zr_realloc [OF r1 _ 2]) (simp add: answer_ok_def block_of_def zm_start_def smap_find_def)
  have "zmalloc_used_memory ?z1 = 16" "zmalloc_used_memory ?z2 = 32"
    using used_memory_is_live_memory [OF r1] used_memory_is_live_memory [OF r2] by (simp_all add: pad_long_def)
  then show ?thesis using 1 2 r2 by blast
qed

section \<open>The resident size of the process\<close>

text \<open>
  \<^verbatim>\<open>strchr\<close> in a buffer that need not be terminated: \<open>None\<close> when the search runs past its end, the
  inner \<open>None\<close> when the string ends first, else the rest from the byte found.
\<close>

fun mem_strchr :: "byte \<Rightarrow> byte list \<Rightarrow> byte list option option" where
  "mem_strchr c [] = None"
| "mem_strchr c (x # xs) =
     (if x = c then Some (Some (x # xs)) else if x = NUL then Some None else mem_strchr c xs)"

text \<open>\<^verbatim>\<open>while(p && count--) { p = strchr(p,' '); if (p) p++; }\<close>\<close>

fun skip_fields :: "nat \<Rightarrow> byte list \<Rightarrow> byte list option option" where
  "skip_fields 0 p = Some (Some p)"
| "skip_fields (Suc count) p =
     (case mem_strchr (CHR '' '') p of
        None \<Rightarrow> None
      | Some None \<Rightarrow> Some None
      | Some (Some q) \<Rightarrow> skip_fields count (tl q))"

text \<open>
  \<^verbatim>\<open>zmalloc_get_rss\<close>: \<open>buf\<close> is the array after the read, \<open>None\<close> when opening or reading failed;
  \<open>page\<close> is \<^verbatim>\<open>sysconf(_SC_PAGESIZE)\<close>. The result \<open>None\<close> is a read beyond the array.
\<close>

definition zmalloc_get_rss :: "byte list option \<Rightarrow> int \<Rightarrow> 64 word option" where
  "zmalloc_get_rss buf page =
     (case buf of
        None \<Rightarrow> Some 0
      | Some b \<Rightarrow>
          (case skip_fields 23 b of
             None \<Rightarrow> None
           | Some None \<Rightarrow> Some 0
           | Some (Some p) \<Rightarrow>
               (case mem_strchr (CHR '' '') p of
                  None \<Rightarrow> None
                | Some None \<Rightarrow> Some 0
                | Some (Some x) \<Rightarrow>
                    Some (of_int (strtol64 (take (length p - length x) p)) * of_int page))))"

lemma mem_strchr_found:
  "c \<notin> set f \<Longrightarrow> NUL \<notin> set f \<Longrightarrow> mem_strchr c (f @ c # rst) = Some (Some (c # rst))"
  by (induction f) auto

lemma skip_fields_words:
  "list_all (\<lambda>f. CHR '' '' \<notin> set f \<and> NUL \<notin> set f) fs \<Longrightarrow>
   skip_fields (length fs) (concat (map (\<lambda>f. f @ '' '') fs) @ rst) = Some (Some rst)"
  by (induction fs) (auto simp: mem_strchr_found)

text \<open>
  The field after 23 blanks is converted; when no earlier field contains a blank, that is the
  24th field of \<^verbatim>\<open>/proc/<pid>/stat\<close>.
\<close>

lemma zmalloc_get_rss_field:
  assumes "list_all (\<lambda>f. CHR '' '' \<notin> set f \<and> NUL \<notin> set f) fs" and "length fs = 23"
    and "n < 2 ^ 63"
  shows "zmalloc_get_rss (Some (concat (map (\<lambda>f. f @ '' '') fs) @ dec_of_nat n @ CHR '' '' # rst)) page
    = Some (of_nat n * of_int page)"
proof -
  have digs: "CHR '' '' \<notin> set (dec_of_nat n)" "NUL \<notin> set (dec_of_nat n)"
    using dec_of_nat_digits digit_not_special by blast+
  have skip: "skip_fields 23 (concat (map (\<lambda>f. f @ '' '') fs) @ dec_of_nat n @ CHR '' '' # rst)
      = Some (Some (dec_of_nat n @ CHR '' '' # rst))"
    using skip_fields_words [OF assms(1)] assms(2) by simp
  show ?thesis
    by (simp add: zmalloc_get_rss_def skip mem_strchr_found [OF digs] strtol64_dec [OF assms(3)])
qed

section \<open>Sums over \<^verbatim>\<open>/proc/self/smaps\<close>\<close>

text \<open>
  \<^verbatim>\<open>zmalloc_get_smap_bytes_by_field\<close>: the lines as \<^verbatim>\<open>fgets\<close> gives them (\<open>None\<close> when the file cannot be
  opened). \<^verbatim>\<open>strtol\<close> reads from the end of the field name to the first \<^verbatim>\<open>k\<close> of the line.
\<close>

definition smap_line_bytes :: "byte list \<Rightarrow> byte list \<Rightarrow> 64 word" where
  "smap_line_bytes field line =
     (if take (length field) line \<noteq> field then 0
      else let k = length (takeWhile (\<lambda>c. c \<noteq> CHR ''k'') line) in
        if k = length line then 0
        else of_int (strtol64 (drop (length field) (line[k := NUL]))) * 1024)"

definition zmalloc_get_smap_bytes_by_field :: "byte list list option \<Rightarrow> byte list \<Rightarrow> 64 word" where
  "zmalloc_get_smap_bytes_by_field smaps field =
     (case smaps of
        None \<Rightarrow> 0
      | Some ls \<Rightarrow> foldl (\<lambda>bytes line. bytes + smap_line_bytes field line) 0 ls)"

definition zmalloc_get_private_dirty :: "byte list list option \<Rightarrow> 64 word" where
  "zmalloc_get_private_dirty smaps = zmalloc_get_smap_bytes_by_field smaps ''Private_Dirty:''"

lemma zmalloc_get_smap_bytes_sum:
  "zmalloc_get_smap_bytes_by_field (Some ls) field = sum_list (map (smap_line_bytes field) ls)"
proof -
  have "foldl (\<lambda>bytes line. bytes + smap_line_bytes field line) a ls
      = a + sum_list (map (smap_line_bytes field) ls)" for a
    by (induction ls arbitrary: a) (simp_all add: ac_simps)
  then show ?thesis by (simp add: zmalloc_get_smap_bytes_by_field_def)
qed

lemma smap_line_bytes_kb:
  assumes "CHR ''k'' \<notin> set field" and "list_all (\<lambda>c. isspace c \<and> c \<noteq> CHR ''k'') bs" and "n < 2 ^ 63"
  shows "smap_line_bytes field (field @ bs @ dec_of_nat n @ '' kB'' @ rst) = of_nat n * 1024"
proof -
  let ?line = "field @ bs @ dec_of_nat n @ '' kB'' @ rst"
  let ?pre = "field @ bs @ dec_of_nat n @ '' ''"
  have k: "CHR ''k'' \<notin> set ?pre"
    using assms(1,2) dec_of_nat_digits [of "CHR ''k''" n]
    by (auto simp: list_all_iff isdigit_def uchar_def)
  have line: "?line = ?pre @ CHR ''k'' # (CHR ''B'' # rst)" by simp
  have tw: "takeWhile (\<lambda>c. c \<noteq> CHR ''k'') ?line = ?pre"
    unfolding line using k by (subst takeWhile_append2) auto
  have upd: "?line[length ?pre := NUL] = ?pre @ NUL # CHR ''B'' # rst"
    unfolding line by (rule list_update_length)
  have "\<not> isdigit (CHR '' '')" by (simp add: isdigit_def uchar_def)
  from strtol64_digits [OF assms(3) this, of "NUL # CHR ''B'' # rst"]
  have "strtol64 (bs @ dec_of_nat n @ '' '' @ NUL # CHR ''B'' # rst) = int n"
    using assms(2) by (simp add: strtol64_blanks list_all_iff)
  then show ?thesis
    unfolding smap_line_bytes_def Let_def tw upd by simp
qed

end
