(* ===== verification/Http.thy ===== *)
theory Http
  imports CPrelude "HOL-Library.Monad_Syntax"
begin

text \<open>
  \<^verbatim>\<open>ClientSimulate/lib_prj/http.{h,cc}\<close> and \<^verbatim>\<open>etcd_client.h\<close>: the HTTP server base class, the HTTP
  client whose objects delete themselves, and the etcd client on top of it.

  \<^verbatim>\<open>evhttp\<close> and \<^verbatim>\<open>evdns\<close> belong to libevent: what their functions answer is a parameter
  (\<open>svr_answers\<close>, \<open>http_answers\<close>), and the answers and resources they are handed are recorded.
  What a derived class does in \<^verbatim>\<open>RevRequest\<close> is a list of calls. A client object lives in a heap;
  \<open>None\<close> as the result of an operation is the use of a deleted object, a null pointer or memory
  outside an array.
\<close>

section \<open>The server\<close>

text \<open>What is handed to libevent for a request: a reply with its body, or an error page.\<close>

datatype http_answer = Sent_reply int string string | Sent_error int string

record http_svr =
  m_evhttp :: "nat option"
  m_tmp_req :: "nat option"
  svr_sent :: "(nat \<times> http_answer) list"

definition new_BaseHttpSvr :: http_svr where
  "new_BaseHttpSvr = \<lparr>m_evhttp = None, m_tmp_req = None, svr_sent = []\<rparr>"

text \<open>\<^verbatim>\<open>evhttp_new\<close> and \<^verbatim>\<open>evhttp_bind_socket\<close>, which is told the address and the port.\<close>

record svr_answers =
  sa_new :: "nat option"
  sa_bind :: "string \<Rightarrow> 16 word \<Rightarrow> int"

definition BaseHttpSvr_Init :: "svr_answers \<Rightarrow> 16 word \<Rightarrow> string option \<Rightarrow> http_svr \<Rightarrow> bool \<times> http_svr" where
  "BaseHttpSvr_Init sa port ip s =
     (if m_evhttp s \<noteq> None then (False, s)
      else let s1 = s\<lparr>m_evhttp := sa_new sa\<rparr> in
        if m_evhttp s1 = None then (False, s1)
        else let addr = (case ip of None \<Rightarrow> ''0.0.0.0'' | Some a \<Rightarrow> a) in
          if sa_bind sa addr port \<noteq> 0 then (False, s1) else (True, s1))"

text \<open>The body is printed with \<^verbatim>\<open>%s\<close>, so it ends at a NUL byte.\<close>

definition BaseHttpSvr_Reply :: "int \<Rightarrow> string \<Rightarrow> string \<Rightarrow> http_svr \<Rightarrow> http_svr" where
  "BaseHttpSvr_Reply code reason str s =
     (case m_tmp_req s of
        None \<Rightarrow> s
      | Some req \<Rightarrow> s\<lparr>svr_sent := svr_sent s @ [(req, Sent_reply code reason (cstr str))], m_tmp_req := None\<rparr>)"

definition BaseHttpSvr_ReplyError :: "int \<Rightarrow> string \<Rightarrow> http_svr \<Rightarrow> http_svr" where
  "BaseHttpSvr_ReplyError code reason s =
     (case m_tmp_req s of
        None \<Rightarrow> s
      | Some req \<Rightarrow> s\<lparr>svr_sent := svr_sent s @ [(req, Sent_error code reason)], m_tmp_req := None\<rparr>)"

text \<open>\<open>uri_of\<close> is \<^verbatim>\<open>evhttp_request_get_uri\<close>.\<close>

definition GetUri :: "(nat \<Rightarrow> string) \<Rightarrow> http_svr \<Rightarrow> string option" where
  "GetUri uri_of s = map_option uri_of (m_tmp_req s)"

text \<open>What a derived class does in \<^verbatim>\<open>RevRequest\<close>.\<close>

datatype svr_act = A_Reply int string string | A_ReplyError int string | A_GetUri

fun svr_act_step :: "svr_act \<Rightarrow> http_svr \<Rightarrow> http_svr" where
  "svr_act_step (A_Reply code reason str) s = BaseHttpSvr_Reply code reason str s"
| "svr_act_step (A_ReplyError code reason) s = BaseHttpSvr_ReplyError code reason s"
| "svr_act_step A_GetUri s = s"

definition HTTP_SERVUNAVAIL :: int where "HTTP_SERVUNAVAIL = 503"

definition RevRequestCB :: "nat \<Rightarrow> svr_act list \<Rightarrow> http_svr \<Rightarrow> http_svr" where
  "RevRequestCB req acts s =
     (let s1 = s\<lparr>m_tmp_req := Some req\<rparr>;
          s2 = fold svr_act_step acts s1
      in case m_tmp_req s2 of
           None \<Rightarrow> s2
         | Some r \<Rightarrow> s2\<lparr>svr_sent := svr_sent s2 @ [(r, Sent_error HTTP_SERVUNAVAIL ''svr have error code'')],
                       m_tmp_req := None\<rparr>)"

text \<open>What a request should be answered: the first answer given in \<^verbatim>\<open>RevRequest\<close>, or the fallback.\<close>

fun first_answer :: "svr_act list \<Rightarrow> http_answer" where
  "first_answer [] = Sent_error HTTP_SERVUNAVAIL ''svr have error code''"
| "first_answer (A_Reply code reason str # as) = Sent_reply code reason (cstr str)"
| "first_answer (A_ReplyError code reason # as) = Sent_error code reason"
| "first_answer (A_GetUri # as) = first_answer as"

lemma svr_acts_answered: "m_tmp_req s = None \<Longrightarrow> fold svr_act_step as s = s"
proof (induction as)
  case Nil
  then show ?case by simp
next
  case (Cons a as)
  then have "svr_act_step a s = s"
    by (cases a) (simp_all add: BaseHttpSvr_Reply_def BaseHttpSvr_ReplyError_def)
  then show ?case using Cons by simp
qed

lemma RevRequestCB_eq:
  "RevRequestCB req as s = s\<lparr>m_tmp_req := None, svr_sent := svr_sent s @ [(req, first_answer as)]\<rparr>"
proof (induction as rule: first_answer.induct)
  case 1
  then show ?case by (simp add: RevRequestCB_def)
next
  case (2 code reason str as)
  then show ?case
    by (simp add: RevRequestCB_def BaseHttpSvr_Reply_def svr_acts_answered)
next
  case (3 code reason as)
  then show ?case
    by (simp add: RevRequestCB_def BaseHttpSvr_ReplyError_def svr_acts_answered)
next
  case (4 as)
  then show ?case by (simp add: RevRequestCB_def)
qed

definition serve :: "(nat \<times> svr_act list) list \<Rightarrow> http_svr \<Rightarrow> http_svr" where
  "serve rs s = fold (\<lambda>(req, acts). RevRequestCB req acts) rs s"

text \<open>
  C27. The server answers every request exactly once, in the order of arrival, with the first answer
  its \<^verbatim>\<open>RevRequest\<close> gives or, if it gives none, with the error 503; further answers are dropped, and
  no answer can go to the wrong request or to one that is gone.
\<close>

theorem requests_answered_once:
  "svr_sent (serve rs s) = svr_sent s @ map (\<lambda>(req, acts). (req, first_answer acts)) rs
   \<and> (\<forall>req acts. m_tmp_req (RevRequestCB req acts s) = None)"
proof -
  have "svr_sent (serve rs s) = svr_sent s @ map (\<lambda>(req, acts). (req, first_answer acts)) rs"
    by (induction rs arbitrary: s) (auto simp: serve_def RevRequestCB_eq)
  then show ?thesis by (simp add: RevRequestCB_eq)
qed

text \<open>
  An \<^verbatim>\<open>Init\<close> whose bind failed keeps the \<^verbatim>\<open>evhttp\<close> object, so no later \<^verbatim>\<open>Init\<close> on another port can
  succeed.
\<close>

lemma failed_bind_is_final:
  assumes "m_evhttp s = None" and "sa_new sa = Some h" and "sa_bind sa (case ip of None \<Rightarrow> ''0.0.0.0'' | Some a \<Rightarrow> a) port \<noteq> 0"
  shows "\<not> fst (BaseHttpSvr_Init sa port ip s)
    \<and> \<not> fst (BaseHttpSvr_Init sa' port' ip' (snd (BaseHttpSvr_Init sa port ip s)))"
  using assms by (simp add: BaseHttpSvr_Init_def Let_def)

section \<open>The client\<close>

record http_client =
  m_dnsbase :: "nat option"
  m_connection :: "nat option"
  m_is_request :: bool

text \<open>The calls of the virtual functions of a derived class.\<close>

datatype client_note = N_Reply string | N_ReplyError int string | N_ConnectFail

text \<open>A request handed to \<^verbatim>\<open>evhttp_make_request\<close>.\<close>

record http_request =
  rq_conn :: nat
  rq_obj :: nat
  rq_cmd :: nat
  rq_host :: string
  rq_port :: int
  rq_uri :: string
  rq_body :: string
  rq_timeout :: nat

text \<open>
  The client objects, the DNS bases and connections that have not been freed, the requests under
  way, and the calls of the virtual functions, each with its object.
\<close>

record http_world =
  clients :: "nat \<Rightarrow> http_client option"
  live_dns :: "nat list"
  live_conns :: "nat list"
  under_way :: "http_request list"
  client_notes :: "(nat \<times> client_note) list"

definition http_start :: http_world where
  "http_start = \<lparr>clients = Map.empty, live_dns = [], live_conns = [], under_way = [], client_notes = []\<rparr>"

definition new_BaseHttpClient :: http_client where
  "new_BaseHttpClient = \<lparr>m_dnsbase = None, m_connection = None, m_is_request = False\<rparr>"

text \<open>\<^verbatim>\<open>Create\<close>: \<open>p\<close> is the address \<^verbatim>\<open>new\<close> gives.\<close>

definition Create :: "nat \<Rightarrow> http_world \<Rightarrow> http_world" where
  "Create p w = w\<lparr>clients := (clients w)(p \<mapsto> new_BaseHttpClient)\<rparr>"

definition notify :: "nat \<Rightarrow> client_note \<Rightarrow> http_world \<Rightarrow> http_world" where
  "notify p n w = w\<lparr>client_notes := client_notes w @ [(p, n)]\<rparr>"

text \<open>
  \<^verbatim>\<open>delete\<close> with the destructor: it frees the DNS base and the connection. A connection that is
  freed drops its requests without calling back.
\<close>

definition drop_ptr :: "nat option \<Rightarrow> nat list \<Rightarrow> nat list" where
  "drop_ptr h hs = (case h of None \<Rightarrow> hs | Some x \<Rightarrow> removeAll x hs)"

definition delete_BaseHttpClient :: "nat \<Rightarrow> http_world \<Rightarrow> http_world option" where
  "delete_BaseHttpClient p w =
     do { c \<leftarrow> clients w p;
          Some (w\<lparr>clients := (clients w)(p := None),
            live_dns := drop_ptr (m_dnsbase c) (live_dns w),
            live_conns := drop_ptr (m_connection c) (live_conns w),
            under_way := filter (\<lambda>r. m_connection c \<noteq> Some (rq_conn r)) (under_way w)\<rparr>) }"

text \<open>
  What libevent answers: the parsed url (host, port, path), a DNS base, a connection, a request
  object, and whether \<^verbatim>\<open>evhttp_make_request\<close> took the request; one it refuses it frees without
  calling back.
\<close>

record parsed_uri =
  pu_host :: "string option"
  pu_port :: int
  pu_path :: "string option"

record http_answers =
  ha_parse :: "string \<Rightarrow> parsed_uri option"
  ha_dns :: "nat option"
  ha_conn :: "nat option"
  ha_request :: bool
  ha_make :: bool

text \<open>\<^verbatim>\<open>ReplyError(500, s); delete this; return false;\<close>\<close>

definition give_up :: "string \<Rightarrow> nat \<Rightarrow> http_world \<Rightarrow> (bool \<times> http_world) option" where
  "give_up msg p w =
     do { w1 \<leftarrow> delete_BaseHttpClient p (notify p (N_ReplyError 500 msg) w); Some (False, w1) }"

text \<open>The end of \<^verbatim>\<open>Request\<close>, with the connection made.\<close>

definition send_request :: "http_answers \<Rightarrow> nat \<Rightarrow> nat \<Rightarrow> nat \<Rightarrow> string \<Rightarrow> int \<Rightarrow> string \<Rightarrow> string option
    \<Rightarrow> nat \<Rightarrow> http_world \<Rightarrow> (bool \<times> http_world) option" where
  "send_request ha conn p cmd_type host port uri post_data ot_sec w =
     (if \<not> ha_request ha then None
      else let body = (case post_data of None \<Rightarrow> [] | Some d \<Rightarrow> cstr d);
               r = \<lparr>rq_conn = conn, rq_obj = p, rq_cmd = cmd_type, rq_host = host, rq_port = port,
                    rq_uri = uri, rq_body = body, rq_timeout = ot_sec\<rparr>
           in Some (True, if ha_make ha then w\<lparr>under_way := under_way w @ [r]\<rparr> else w))"

definition Request :: "http_answers \<Rightarrow> nat \<Rightarrow> string option \<Rightarrow> nat \<Rightarrow> nat \<Rightarrow> string option \<Rightarrow> http_world
    \<Rightarrow> (bool \<times> http_world) option" where
  "Request ha p url cmd_type ot_sec post_data w =
     do { c \<leftarrow> clients w p;
          if m_is_request c then give_up ''repeated Request'' p w
          else case url of
            None \<Rightarrow> give_up ''nullptr == url'' p w
          | Some u \<Rightarrow>
              (case ha_parse ha u of
                 None \<Rightarrow> give_up ''Parse url failed! '' p w
               | Some pu \<Rightarrow>
                   (case pu_host pu of
                      None \<Rightarrow> give_up ''Parse host failed! '' p w
                    | Some host \<Rightarrow>
                        let port = (if pu_port pu < 0 then 80 else pu_port pu);
                            uri = (case pu_path pu of None \<Rightarrow> ''/'' | Some path \<Rightarrow> if path = [] then ''/'' else u)
                        in case ha_dns ha of
                          None \<Rightarrow> give_up ''Create dns base failed!'' p (w\<lparr>clients := (clients w)(p \<mapsto> c\<lparr>m_dnsbase := None\<rparr>)\<rparr>)
                        | Some dns \<Rightarrow>
                            let c1 = c\<lparr>m_dnsbase := Some dns\<rparr>;
                                w1 = w\<lparr>clients := (clients w)(p \<mapsto> c1), live_dns := dns # live_dns w\<rparr>
                            in case ha_conn ha of
                              None \<Rightarrow> give_up ''Create evhttp connection failed!'' p
                                (w1\<lparr>clients := (clients w1)(p \<mapsto> c1\<lparr>m_connection := None\<rparr>)\<rparr>)
                            | Some conn \<Rightarrow>
                                let w2 = w1\<lparr>clients := (clients w1)(p \<mapsto> c1\<lparr>m_connection := Some conn\<rparr>),
                                           live_conns := conn # live_conns w1\<rparr>
                                in send_request ha conn p cmd_type host port uri post_data ot_sec w2)) }"

definition MAX_LEN :: nat where "MAX_LEN = 1024 * 100"

text \<open>
  The text that reaches \<^verbatim>\<open>Reply\<close>: the body is copied into an array of \<open>MAX_LEN\<close> bytes that is not
  initialised (\<open>stack\<close>) and passed on as a C string.
\<close>

definition reply_text :: "byte list \<Rightarrow> byte list \<Rightarrow> string option" where
  "reply_text stack body =
     (let write_addr = blit stack 0 (take MAX_LEN body)
      in if NUL \<in> set write_addr then Some (cstr write_addr) else None)"

text \<open>A response: its code, the text of the code, the body; \<open>None\<close> is the null pointer.\<close>

type_synonym http_response = "int \<times> string \<times> byte list"

definition remote_read_callback :: "byte list \<Rightarrow> http_response option \<Rightarrow> nat \<Rightarrow> http_world
    \<Rightarrow> http_world option" where
  "remote_read_callback stack remote_rsp p w =
     do { c \<leftarrow> clients w p;
          w1 \<leftarrow> (case remote_rsp of
             None \<Rightarrow> Some (notify p N_ConnectFail w)
           | Some (response_code, response_code_line, body) \<Rightarrow>
               let start_num = response_code div 100 in
               if start_num \<noteq> 4 \<and> start_num \<noteq> 5
               then do { str \<leftarrow> reply_text stack body; Some (notify p (N_Reply str) w) }
               else Some (notify p (N_ReplyError response_code response_code_line) w));
          delete_BaseHttpClient p w1 }"

definition connection_close_callback :: "nat \<Rightarrow> http_world \<Rightarrow> http_world option" where
  "connection_close_callback p w =
     do { c \<leftarrow> clients w p; Some (w\<lparr>clients := (clients w)(p \<mapsto> c\<lparr>m_connection := None\<rparr>)\<rparr>) }"

text \<open>libevent ends a request: it leaves the requests under way and its callback is called.\<close>

definition finish_request :: "byte list \<Rightarrow> http_response option \<Rightarrow> http_request \<Rightarrow> http_world
    \<Rightarrow> http_world option" where
  "finish_request stack rsp r w =
     remote_read_callback stack rsp (rq_obj r) (w\<lparr>under_way := remove1 r (under_way w)\<rparr>)"

section \<open>Every client object ends once\<close>

lemma clients_notify [simp]: "clients (notify p n w) = clients w" "live_dns (notify p n w) = live_dns w"
  "live_conns (notify p n w) = live_conns w" "under_way (notify p n w) = under_way w"
  "client_notes (notify p n w) = client_notes w @ [(p, n)]"
  by (simp_all add: notify_def)

text \<open>
  The end of an object: it is deleted, it was told exactly one thing, and the libevent objects and
  requests are those there were before it was used, and the connections \<open>ks\<close>.
\<close>

definition ended_leaving :: "nat list \<Rightarrow> nat \<Rightarrow> http_world \<Rightarrow> http_world \<Rightarrow> bool" where
  "ended_leaving ks p w w' \<longleftrightarrow> clients w' p = None \<and> (\<exists>n. client_notes w' = client_notes w @ [(p, n)])
     \<and> live_dns w' = live_dns w \<and> live_conns w' = ks @ live_conns w \<and> under_way w' = under_way w"

abbreviation ended :: "nat \<Rightarrow> http_world \<Rightarrow> http_world \<Rightarrow> bool" where
  "ended \<equiv> ended_leaving []"

text \<open>libevent's new objects are not among the live ones.\<close>

definition fresh_answers :: "http_answers \<Rightarrow> http_world \<Rightarrow> bool" where
  "fresh_answers ha w \<longleftrightarrow>
     (case ha_dns ha of None \<Rightarrow> True | Some d \<Rightarrow> d \<notin> set (live_dns w))
   \<and> (case ha_conn ha of None \<Rightarrow> True
      | Some k \<Rightarrow> k \<notin> set (live_conns w) \<and> (\<forall>r \<in> set (under_way w). rq_conn r \<noteq> k))"

definition request_of :: "http_answers \<Rightarrow> nat \<Rightarrow> nat \<Rightarrow> string \<Rightarrow> nat \<Rightarrow> nat \<Rightarrow> string option \<Rightarrow> parsed_uri
    \<Rightarrow> string \<Rightarrow> http_request" where
  "request_of ha conn p u cmd_type ot_sec post_data pu host =
     \<lparr>rq_conn = conn, rq_obj = p, rq_cmd = cmd_type, rq_host = host,
      rq_port = (if pu_port pu < 0 then 80 else pu_port pu),
      rq_uri = (case pu_path pu of None \<Rightarrow> ''/'' | Some path \<Rightarrow> if path = [] then ''/'' else u),
      rq_body = (case post_data of None \<Rightarrow> [] | Some d \<Rightarrow> cstr d), rq_timeout = ot_sec\<rparr>"

lemma give_up_ended:
  assumes "clients w1 p = Some c" and "client_notes w1 = client_notes w"
    and "drop_ptr (m_dnsbase c) (live_dns w1) = live_dns w"
    and "drop_ptr (m_connection c) (live_conns w1) = live_conns w"
    and "filter (\<lambda>r. m_connection c \<noteq> Some (rq_conn r)) (under_way w1) = under_way w"
  shows "\<exists>w'. give_up msg p w1 = Some (False, w') \<and> ended p w w'"
  using assms by (simp add: give_up_def delete_BaseHttpClient_def ended_leaving_def)

text \<open>The outcome of \<^verbatim>\<open>Request\<close> on an object that was not used before.\<close>

lemma Request_cases:
  assumes c: "clients w p = Some new_BaseHttpClient" and fresh: "fresh_answers ha w" and rq: "ha_request ha"
  shows "(\<exists>w'. Request ha p url cmd_type ot_sec post_data w = Some (False, w') \<and> ended p w w')
    \<or> (\<exists>u pu host dns conn. url = Some u \<and> ha_dns ha = Some dns \<and> ha_conn ha = Some conn
        \<and> Request ha p url cmd_type ot_sec post_data w = Some (True,
            w\<lparr>clients := (clients w)(p \<mapsto> new_BaseHttpClient\<lparr>m_dnsbase := Some dns, m_connection := Some conn\<rparr>),
              live_dns := dns # live_dns w, live_conns := conn # live_conns w,
              under_way := under_way w @ (if ha_make ha
                then [request_of ha conn p u cmd_type ot_sec post_data pu host] else [])\<rparr>))"
proof -
  have nr: "\<not> m_is_request new_BaseHttpClient" by (simp add: new_BaseHttpClient_def)
  have early: "\<exists>w'. give_up msg p w = Some (False, w') \<and> ended p w w'" for msg
    by (rule give_up_ended [OF c]) (simp_all add: new_BaseHttpClient_def drop_ptr_def)
  show ?thesis
  proof (cases url)
    case None
    then show ?thesis using early c nr by (simp add: Request_def)
  next
    case url: (Some u)
    show ?thesis
    proof (cases "ha_parse ha u")
      case None
      then show ?thesis using early c nr url by (simp add: Request_def)
    next
      case pu: (Some pu)
      show ?thesis
      proof (cases "pu_host pu")
        case None
        then show ?thesis using early c nr url pu by (simp add: Request_def)
      next
        case host: (Some host)
        note eqs = url pu host
        show ?thesis
        proof (cases "ha_dns ha")
          case None
          have "\<exists>w'. give_up ''Create dns base failed!'' p
              (w\<lparr>clients := (clients w)(p \<mapsto> new_BaseHttpClient\<lparr>m_dnsbase := None\<rparr>)\<rparr>) = Some (False, w')
            \<and> ended p w w'"
            by (rule give_up_ended [where c = "new_BaseHttpClient\<lparr>m_dnsbase := None\<rparr>"])
              (simp_all add: new_BaseHttpClient_def drop_ptr_def)
          then show ?thesis using None c nr eqs by (simp add: Request_def Let_def)
        next
          case dns: (Some dns)
          have new_dns: "removeAll dns (live_dns w) = live_dns w"
            using fresh dns by (simp add: fresh_answers_def)
          show ?thesis
          proof (cases "ha_conn ha")
            case None
            let ?c1 = "new_BaseHttpClient\<lparr>m_dnsbase := Some dns\<rparr>"
            let ?w1 = "w\<lparr>clients := (clients w)(p \<mapsto> ?c1), live_dns := dns # live_dns w\<rparr>"
            have "\<exists>w'. give_up ''Create evhttp connection failed!'' p
                (?w1\<lparr>clients := (clients ?w1)(p \<mapsto> ?c1\<lparr>m_connection := None\<rparr>)\<rparr>) = Some (False, w')
              \<and> ended p w w'"
              by (rule give_up_ended [where c = "?c1\<lparr>m_connection := None\<rparr>"])
                (simp_all add: new_BaseHttpClient_def drop_ptr_def new_dns)
            then show ?thesis using None c nr eqs dns by (simp add: Request_def Let_def)
          next
            case conn: (Some conn)
            have "Request ha p url cmd_type ot_sec post_data w = Some (True,
              w\<lparr>clients := (clients w)(p \<mapsto> new_BaseHttpClient\<lparr>m_dnsbase := Some dns, m_connection := Some conn\<rparr>),
                live_dns := dns # live_dns w, live_conns := conn # live_conns w,
                under_way := under_way w @ (if ha_make ha
                  then [request_of ha conn p u cmd_type ot_sec post_data pu host] else [])\<rparr>)"
              using c nr eqs dns conn rq
              by (cases w) (simp add: Request_def Let_def send_request_def request_of_def)
            then show ?thesis using url dns conn by blast
          qed
        qed
      qed
    qed
  qed
qed





definition sample_answers :: http_answers where
  "sample_answers = \<lparr>ha_parse = (\<lambda>u. Some \<lparr>pu_host = Some ''h'', pu_port = - 1, pu_path = None\<rparr>),
     ha_dns = Some 1, ha_conn = Some 2, ha_request = True, ha_make = True\<rparr>"


section \<open>What goes wrong\<close>

text \<open>
  The text given to \<^verbatim>\<open>Reply\<close> runs on into the bytes that were on the stack, up to the first NUL
  byte there; a body that fills the array is read beyond its end.
\<close>

lemma reply_text_eq:
  assumes "length stack = MAX_LEN" and "length body \<le> MAX_LEN" and "NUL \<notin> set body"
  shows "reply_text stack body =
    (if NUL \<in> set (drop (length body) stack) then Some (body @ cstr (drop (length body) stack)) else None)"
proof -
  have "blit stack 0 (take MAX_LEN body) = body @ drop (length body) stack"
    using assms(2) by (simp add: blit_def)
  moreover have "cstr (body @ drop (length body) stack) = body @ cstr (drop (length body) stack)"
    using assms(3) by (simp add: cstr_def takeWhile_append)
  ultimately show ?thesis
    using assms(3) by (simp add: reply_text_def Let_def)
qed

text \<open>
  \<^verbatim>\<open>Reply\<close> is not given the body of the response: the array is not terminated, so bytes that were
  on the stack follow the body (unless a NUL byte happens to be there), and a body of 102400 bytes
  or more makes the string run beyond the array.
\<close>

theorem reply_text_not_terminated:
  assumes "length stack = MAX_LEN" and "NUL \<notin> set body"
  shows "length body < MAX_LEN \<Longrightarrow> stack ! length body \<noteq> NUL \<Longrightarrow> reply_text stack body \<noteq> Some body"
    and "MAX_LEN \<le> length body \<Longrightarrow> reply_text stack body = None"
proof -
  assume l: "length body < MAX_LEN" and x: "stack ! length body \<noteq> NUL"
  have "drop (length body) stack = stack ! length body # drop (Suc (length body)) stack"
    using l assms(1) by (simp add: Cons_nth_drop_Suc)
  then have "cstr (drop (length body) stack) \<noteq> []" using x by (simp add: cstr_def)
  then show "reply_text stack body \<noteq> Some body"
    using reply_text_eq [OF assms(1) _ assms(2)] l by simp
next
  assume l: "MAX_LEN \<le> length body"
  then have "blit stack 0 (take MAX_LEN body) = take MAX_LEN body"
    using assms(1) by (simp add: blit_def)
  moreover have "NUL \<notin> set (take MAX_LEN body)" using assms(2) by (auto dest: in_set_takeD)
  ultimately show "reply_text stack body = None" by (simp add: reply_text_def Let_def)
qed

lemma reply_text_not_terminated_witness:
  "reply_text (replicate MAX_LEN (CHR ''x'')) ''ok'' \<noteq> Some ''ok''"
  by (rule reply_text_not_terminated(1)) (simp_all add: MAX_LEN_def)

text \<open>
  \<^verbatim>\<open>m_is_request\<close> is never set. A second \<^verbatim>\<open>Request\<close> on the same object goes out as well, and its
  response deletes the object while the first request is still under way.
\<close>

lemma finish_request_deletes:
  assumes "finish_request stack rsp r w = Some w'"
  shows "clients w' (rq_obj r) = None"
    and "\<exists>c. clients w (rq_obj r) = Some c
      \<and> under_way w' = filter (\<lambda>q. m_connection c \<noteq> Some (rq_conn q)) (remove1 r (under_way w))"
  using assms
  by (auto simp: finish_request_def remote_read_callback_def delete_BaseHttpClient_def Let_def
      bind_eq_Some_conv split: option.splits if_splits)

lemma Request_sent:
  assumes "Request ha p url cmd_type ot_sec post_data w = Some (True, w1)" and "ha_make ha"
  shows "\<exists>r conn c. under_way w1 = under_way w @ [r] \<and> rq_obj r = p \<and> ha_conn ha = Some conn
    \<and> rq_conn r = conn \<and> clients w1 p = Some c \<and> m_connection c = Some conn"
proof -
  have ng: "give_up msg q v \<noteq> Some (True, w1)" for msg q v
    by (auto simp: give_up_def bind_eq_Some_conv)
  obtain c where c: "clients w p = Some c" using assms(1) by (cases "clients w p") (auto simp: Request_def)
  have nr: "\<not> m_is_request c" using assms(1) c ng by (auto simp: Request_def)
  obtain u where u: "url = Some u" using assms(1) c nr ng by (cases url) (auto simp: Request_def)
  obtain pu where pu: "ha_parse ha u = Some pu"
    using assms(1) c nr u ng by (cases "ha_parse ha u") (auto simp: Request_def)
  obtain host where host: "pu_host pu = Some host"
    using assms(1) c nr u pu ng by (cases "pu_host pu") (auto simp: Request_def)
  obtain dns where dns: "ha_dns ha = Some dns"
    using assms(1) c nr u pu host ng by (cases "ha_dns ha") (auto simp: Request_def Let_def)
  obtain conn where conn: "ha_conn ha = Some conn"
    using assms(1) c nr u pu host dns ng by (cases "ha_conn ha") (auto simp: Request_def Let_def)
  have rq: "ha_request ha"
    using assms(1) c nr u pu host dns conn
    by (cases "ha_request ha") (auto simp: Request_def Let_def send_request_def)
  show ?thesis
    using assms(1) c nr u pu host dns conn rq assms(2)
    by (simp add: Request_def Let_def send_request_def) force
qed

text \<open>
  The guard against a repeated \<^verbatim>\<open>Request\<close> does nothing, because \<^verbatim>\<open>m_is_request\<close> is never set: two
  requests go out on one object, and when the second is answered first the object is deleted with
  the first still under way, so that its answer uses a deleted object.
\<close>

theorem repeated_request_uses_deleted:
  assumes "Request ha p url cmd_type ot_sec post_data w = Some (True, w1)"
    and "Request ha' p url' cmd_type' ot_sec' post_data' w1 = Some (True, w2)"
    and "ha_make ha" and "ha_make ha'" and "ha_conn ha \<noteq> ha_conn ha'"
  shows "\<exists>r1 r2. under_way w2 = under_way w @ [r1, r2]
    \<and> (\<forall>stack rsp w3. finish_request stack rsp r2 w2 = Some w3 \<longrightarrow>
          r1 \<in> set (under_way w3) \<and> finish_request stack' rsp' r1 w3 = None)"
proof -
  obtain r1 conn1 where r1: "under_way w1 = under_way w @ [r1]" "rq_obj r1 = p" "ha_conn ha = Some conn1"
      "rq_conn r1 = conn1"
    using Request_sent [OF assms(1,3)] by blast
  obtain r2 conn2 c2 where r2: "under_way w2 = under_way w1 @ [r2]" "rq_obj r2 = p" "ha_conn ha' = Some conn2"
      "rq_conn r2 = conn2" "clients w2 p = Some c2" "m_connection c2 = Some conn2"
    using Request_sent [OF assms(2,4)] by blast
  have ne: "conn1 \<noteq> conn2" "r1 \<noteq> r2" using assms(5) r1 r2 by auto
  have "r1 \<in> set (under_way w3) \<and> finish_request stack' rsp' r1 w3 = None"
    if f: "finish_request stack rsp r2 w2 = Some w3" for stack rsp w3
  proof -
    note del = finish_request_deletes [OF f]
    have "under_way w3 = filter (\<lambda>q. Some conn2 \<noteq> Some (rq_conn q)) (remove1 r2 (under_way w2))"
      using del(2) r2 by auto
    moreover have "r1 \<in> set (remove1 r2 (under_way w2))"
      using ne(2) r1(1) r2(1) by (simp add: in_set_remove1)
    ultimately have "r1 \<in> set (under_way w3)" using ne(1) r1(4) by auto
    moreover have "finish_request stack' rsp' r1 w3 = None"
    proof (rule ccontr)
      assume "finish_request stack' rsp' r1 w3 \<noteq> None"
      then obtain w4 where "finish_request stack' rsp' r1 w3 = Some w4" by blast
      from finish_request_deletes(2) [OF this] show False using del(1) r1(2) r2(2) by auto
    qed
    ultimately show ?thesis by blast
  qed
  then show ?thesis using r1(1) r2(1) by auto
qed

lemma repeated_request_uses_deleted_witness:
  "\<exists>w1 w2 r1 r2. Request sample_answers 7 (Some ''http://h'') 1 30 None (Create 7 http_start) = Some (True, w1)
     \<and> Request (sample_answers\<lparr>ha_dns := Some 3, ha_conn := Some 4\<rparr>) 7 (Some ''http://h'') 1 30 None w1
         = Some (True, w2)
     \<and> under_way w2 = [r1, r2]"
proof -
  let ?R1 = "Request sample_answers 7 (Some ''http://h'') 1 30 None (Create 7 http_start)"
  obtain w1 where w1: "?R1 = Some (True, w1)" and c: "clients w1 7 = Some (new_BaseHttpClient\<lparr>m_dnsbase := Some 1, m_connection := Some 2\<rparr>)"
    by (simp add: Request_def Create_def sample_answers_def new_BaseHttpClient_def Let_def send_request_def)
  let ?R2 = "Request (sample_answers\<lparr>ha_dns := Some 3, ha_conn := Some 4\<rparr>) 7 (Some ''http://h'') 1 30 None w1"
  obtain w2 where w2: "?R2 = Some (True, w2)"
    using c by (simp add: Request_def sample_answers_def new_BaseHttpClient_def Let_def send_request_def)
  have u: "under_way (Create 7 http_start) = []" by (simp add: Create_def http_start_def)
  have "ha_make sample_answers" "ha_make (sample_answers\<lparr>ha_dns := Some 3, ha_conn := Some 4\<rparr>)"
    "ha_conn sample_answers \<noteq> ha_conn (sample_answers\<lparr>ha_dns := Some 3, ha_conn := Some 4\<rparr>)"
    by (simp_all add: sample_answers_def)
  from repeated_request_uses_deleted [OF w1 w2 this, of "[]" None]
  have "\<exists>r1 r2. under_way w2 = [r1, r2]" unfolding u by auto
  then show ?thesis using w1 w2 by blast
qed

text \<open>
  When libevent closes the connection before it ends the request, as it does on a timeout, the
  object forgets the connection and never frees it.
\<close>

lemma closed_connection_leaks:
  assumes "clients w p = Some c" and "m_connection c = Some conn" and "conn \<in> set (live_conns w)"
    and "connection_close_callback p w = Some w1" and "remote_read_callback stack rsp p w1 = Some w2"
  shows "conn \<in> set (live_conns w2) \<and> clients w2 p = None"
  using assms
  by (auto simp: connection_close_callback_def remote_read_callback_def delete_BaseHttpClient_def
      drop_ptr_def Let_def bind_eq_Some_conv split: option.splits if_splits)

section \<open>The etcd client\<close>

record BaseEtcdClient =
  m_pre_url :: string

definition new_BaseEtcdClient :: BaseEtcdClient where
  "new_BaseEtcdClient = \<lparr>m_pre_url = ''http://127.0.0.1:2379/v2/keys/''\<rparr>"

definition etcd_Init :: "string \<Rightarrow> BaseEtcdClient \<Rightarrow> BaseEtcdClient" where
  "etcd_Init dns_name e = e\<lparr>m_pre_url := ''http://'' @ dns_name @ ''/v2/keys/''\<rparr>"

text \<open>The values of \<^verbatim>\<open>evhttp_cmd_type\<close>.\<close>

definition EVHTTP_REQ_GET :: nat where "EVHTTP_REQ_GET = 1"
definition EVHTTP_REQ_POST :: nat where "EVHTTP_REQ_POST = 2"
definition EVHTTP_REQ_PUT :: nat where "EVHTTP_REQ_PUT = 8"
definition EVHTTP_REQ_DELETE :: nat where "EVHTTP_REQ_DELETE = 16"

text \<open>
  Every operation creates an \<^verbatim>\<open>HttpClient\<close> (at the address \<open>p\<close>) and sends one request with the
  default timeout; its result is dropped.
\<close>

type_synonym etcd_op = "http_answers \<Rightarrow> nat \<Rightarrow> http_world \<Rightarrow> http_world option"

definition etcd_send :: "nat \<Rightarrow> string \<Rightarrow> etcd_op" where
  "etcd_send cmd s ha p w = map_option snd (Request ha p (Some (cstr s)) cmd 30 None (Create p w))"

definition etcd_Set :: "string \<Rightarrow> string \<Rightarrow> BaseEtcdClient \<Rightarrow> etcd_op" where
  "etcd_Set key val e = etcd_send EVHTTP_REQ_PUT (m_pre_url e @ key @ ''?value='' @ val)"

definition etcd_Get :: "string \<Rightarrow> BaseEtcdClient \<Rightarrow> etcd_op" where
  "etcd_Get key e = etcd_send EVHTTP_REQ_GET (m_pre_url e @ key)"

definition etcd_Del :: "string \<Rightarrow> BaseEtcdClient \<Rightarrow> etcd_op" where
  "etcd_Del key e = etcd_send EVHTTP_REQ_DELETE (m_pre_url e @ key)"

definition etcd_CreateQueue :: "string \<Rightarrow> string \<Rightarrow> BaseEtcdClient \<Rightarrow> etcd_op" where
  "etcd_CreateQueue dir_key val e = etcd_send EVHTTP_REQ_POST (m_pre_url e @ dir_key @ ''?value='' @ val)"

definition etcd_Watch :: "string \<Rightarrow> BaseEtcdClient \<Rightarrow> etcd_op" where
  "etcd_Watch key e = etcd_send EVHTTP_REQ_GET (m_pre_url e @ key @ ''?wait=true&recursive=true'')"

definition etcd_ConditionSet :: "string \<Rightarrow> string \<Rightarrow> string \<Rightarrow> BaseEtcdClient \<Rightarrow> etcd_op" where
  "etcd_ConditionSet key prevValue val e =
     etcd_send EVHTTP_REQ_PUT (m_pre_url e @ key @ ''?prevValue='' @ prevValue @ ''&value='' @ val)"

text \<open>
  What an \<^verbatim>\<open>HttpClient\<close> passes on to its owner: \<open>ConnectFail\<close> is not overridden, so a failed
  connection is not reported.
\<close>

fun owner_hears :: "client_note \<Rightarrow> client_note option" where
  "owner_hears (N_Reply str) = Some (N_Reply str)"
| "owner_hears (N_ReplyError err_code err_str) = Some (N_ReplyError err_code err_str)"
| "owner_hears N_ConnectFail = None"

text \<open>An operation puts exactly one request for its url under way, or the owner hears an error.\<close>

lemma etcd_send_once:
  assumes "fresh_answers ha w" and "ha_request ha" and "ha_make ha"
  shows "(\<exists>w' msg. etcd_send cmd s ha p w = Some w' \<and> client_notes w' = client_notes w @ [(p, msg)]
        \<and> under_way w' = under_way w)
    \<or> (\<exists>w' r. etcd_send cmd s ha p w = Some w' \<and> under_way w' = under_way w @ [r] \<and> rq_obj r = p
        \<and> rq_cmd r = cmd \<and> (rq_uri r = cstr s \<or> rq_uri r = ''/''))"
proof -
  have c: "clients (Create p w) p = Some new_BaseHttpClient" by (simp add: Create_def)
  have f: "fresh_answers ha (Create p w)"
    using assms(1) by (simp add: fresh_answers_def Create_def cong: option.case_cong)
  have w: "client_notes (Create p w) = client_notes w" "under_way (Create p w) = under_way w"
    by (simp_all add: Create_def)
  show ?thesis
    using Request_cases [OF c f assms(2), of "Some (cstr s)" cmd 30 None]
  proof (elim disjE exE conjE)
    fix w' assume "Request ha p (Some (cstr s)) cmd 30 None (Create p w) = Some (False, w')"
      and "ended p (Create p w) w'"
    then show ?thesis using w by (intro disjI1) (auto simp: etcd_send_def ended_leaving_def)
  next
    fix u pu host dns conn
    assume u: "Some (cstr s) = Some u"
    let ?r = "request_of ha conn p u cmd 30 None pu host"
    assume R: "Request ha p (Some (cstr s)) cmd 30 None (Create p w) = Some (True,
            (Create p w)\<lparr>clients := (clients (Create p w))(p \<mapsto> new_BaseHttpClient\<lparr>m_dnsbase := Some dns, m_connection := Some conn\<rparr>),
              live_dns := dns # live_dns (Create p w), live_conns := conn # live_conns (Create p w),
              under_way := under_way (Create p w) @ (if ha_make ha then [?r] else [])\<rparr>)"
    have "rq_obj ?r = p \<and> rq_cmd ?r = cmd \<and> (rq_uri ?r = cstr s \<or> rq_uri ?r = ''/'')"
      using u by (simp add: request_of_def split: option.splits)
    then show ?thesis
      using R w assms(3) by (intro disjI2) (auto simp: etcd_send_def)
  qed
qed

text \<open>
  Keys and values are put into the url as they are. A value that contains \<^verbatim>\<open>&value=\<close> makes two
  different conditional writes the same request.
\<close>

lemma etcd_urls_ambiguous:
  "etcd_ConditionSet key (a @ ''&value='' @ b) v e = etcd_ConditionSet key a (b @ ''&value='' @ v) e"
  by (simp add: etcd_ConditionSet_def)

end
