(* ===== verification/MemPool.thy ===== *)
theory MemPool
  imports StdMap StepRun "HOL-Library.Multiset"
begin

text \<open>
  \<^verbatim>\<open>ClientSimulate/lib_prj/utility/mem_pool.h\<close> and \<^verbatim>\<open>stlBoost.h\<close>: a pool of equally sized blocks, and
  helpers on vectors and maps.

  A block of the pool is its address. \<^verbatim>\<open>::malloc\<close> is the parameter \<open>mal\<close>, which gives the n-th block;
  the messages that are printed are left out. \<open>None\<close> is a failed assertion in \<^verbatim>\<open>Free\<close>, or
  undefined behaviour in the vector helpers.
\<close>

section \<open>The pool\<close>

record mem_pool =
  m_vec_all_obj :: "nat list"
  m_vec_free_obj :: "nat list"

definition new_MemPool :: mem_pool where
  "new_MemPool = \<lparr>m_vec_all_obj = [], m_vec_free_obj = []\<rparr>"

text \<open>\<open>blocks\<close> are the addresses the calls of \<^verbatim>\<open>malloc\<close> give, in order.\<close>

definition SetBufferSize :: "nat list \<Rightarrow> mem_pool \<Rightarrow> bool \<times> mem_pool" where
  "SetBufferSize blocks m =
     (if m_vec_all_obj m \<noteq> [] then (False, m)
      else (True, m\<lparr>m_vec_all_obj := blocks, m_vec_free_obj := blocks\<rparr>))"

definition GROW_NUM :: nat where "GROW_NUM = 1000"

text \<open>The loop that grows an empty pool, then the last free block.\<close>

fun grow :: "nat list \<Rightarrow> mem_pool \<Rightarrow> mem_pool" where
  "grow [] m = m"
| "grow (p # ps) m = grow ps (m\<lparr>m_vec_all_obj := m_vec_all_obj m @ [p], m_vec_free_obj := m_vec_free_obj m @ [p]\<rparr>)"

definition Allocate :: "nat list \<Rightarrow> mem_pool \<Rightarrow> (nat \<times> mem_pool) option" where
  "Allocate blocks m =
     (let m1 = (if m_vec_free_obj m = [] then grow (take GROW_NUM blocks) m else m)
      in if m_vec_free_obj m1 = [] then None
         else Some (last (m_vec_free_obj m1), m1\<lparr>m_vec_free_obj := butlast (m_vec_free_obj m1)\<rparr>))"

definition Free :: "nat \<Rightarrow> mem_pool \<Rightarrow> mem_pool option" where
  "Free p m =
     (if p \<notin> set (m_vec_all_obj m) then None
      else if p \<in> set (m_vec_free_obj m) then None
      else Some (m\<lparr>m_vec_free_obj := m_vec_free_obj m @ [p]\<rparr>))"

text \<open>\<^verbatim>\<open>Clear\<close> gives the addresses that are freed, in order.\<close>

definition Clear :: "mem_pool \<Rightarrow> nat list \<times> mem_pool" where
  "Clear m = (m_vec_all_obj m, m\<lparr>m_vec_all_obj := [], m_vec_free_obj := []\<rparr>)"

definition GetAllocateNum :: "mem_pool \<Rightarrow> 32 word" where
  "GetAllocateNum m =
     (if length (m_vec_all_obj m) < length (m_vec_free_obj m) then - 1
      else of_nat (length (m_vec_all_obj m) - length (m_vec_free_obj m)))"

section \<open>The pool hands every block to one owner\<close>

text \<open>The blocks in use are those of the pool that are not free.\<close>

definition in_use :: "mem_pool \<Rightarrow> nat set" where
  "in_use m = set (m_vec_all_obj m) - set (m_vec_free_obj m)"

definition pool_inv :: "mem_pool \<Rightarrow> bool" where
  "pool_inv m \<longleftrightarrow> distinct (m_vec_all_obj m) \<and> distinct (m_vec_free_obj m)
     \<and> set (m_vec_free_obj m) \<subseteq> set (m_vec_all_obj m)"

lemma grow_eq: "grow ps m = m\<lparr>m_vec_all_obj := m_vec_all_obj m @ ps, m_vec_free_obj := m_vec_free_obj m @ ps\<rparr>"
  by (induction ps m rule: grow.induct) simp_all

text \<open>What \<^verbatim>\<open>malloc\<close> promises: new addresses, all different.\<close>

definition new_blocks :: "nat list \<Rightarrow> mem_pool \<Rightarrow> bool" where
  "new_blocks ps m \<longleftrightarrow> distinct ps \<and> set ps \<inter> set (m_vec_all_obj m) = {}"

lemma pool_inv_grow:
  "pool_inv m \<Longrightarrow> new_blocks ps m \<Longrightarrow> pool_inv (grow ps m) \<and> in_use (grow ps m) = in_use m"
  by (auto simp: grow_eq pool_inv_def new_blocks_def in_use_def)

lemma take_last_free:
  assumes inv: "pool_inv m" and ne: "m_vec_free_obj m \<noteq> []"
  shows "last (m_vec_free_obj m) \<notin> in_use m
    \<and> pool_inv (m\<lparr>m_vec_free_obj := butlast (m_vec_free_obj m)\<rparr>)
    \<and> in_use (m\<lparr>m_vec_free_obj := butlast (m_vec_free_obj m)\<rparr>) = insert (last (m_vec_free_obj m)) (in_use m)"
proof -
  obtain xs x where f: "m_vec_free_obj m = xs @ [x]" using ne by (cases "m_vec_free_obj m" rule: rev_cases) auto
  show ?thesis using inv by (auto simp: f pool_inv_def in_use_def)
qed

lemma Allocate_ok:
  assumes inv: "pool_inv m" and new: "new_blocks (take GROW_NUM ps) m" and some: "ps \<noteq> []"
  shows "\<exists>p m'. Allocate ps m = Some (p, m') \<and> p \<notin> in_use m \<and> pool_inv m' \<and> in_use m' = insert p (in_use m)"
proof -
  let ?m1 = "if m_vec_free_obj m = [] then grow (take GROW_NUM ps) m else m"
  have inv1: "pool_inv ?m1" "in_use ?m1 = in_use m" using pool_inv_grow [OF inv new] inv by simp_all
  have ne: "m_vec_free_obj ?m1 \<noteq> []" using some by (simp add: grow_eq GROW_NUM_def)
  show ?thesis
    using take_last_free [OF inv1(1) ne] ne unfolding Allocate_def Let_def inv1(2) by simp
qed

lemma Free_in_use:
  assumes inv: "pool_inv m"
  shows "Free p m = (if p \<in> in_use m then Some (m\<lparr>m_vec_free_obj := m_vec_free_obj m @ [p]\<rparr>) else None)"
    and "p \<in> in_use m \<Longrightarrow> pool_inv (m\<lparr>m_vec_free_obj := m_vec_free_obj m @ [p]\<rparr>)
      \<and> in_use (m\<lparr>m_vec_free_obj := m_vec_free_obj m @ [p]\<rparr>) = in_use m - {p}"
  using inv by (auto simp: Free_def in_use_def pool_inv_def)

lemma GetAllocateNum_eq: "pool_inv m \<Longrightarrow> GetAllocateNum m = of_nat (card (in_use m))"
proof -
  assume inv: "pool_inv m"
  have "length (m_vec_free_obj m) \<le> length (m_vec_all_obj m)"
    using inv card_mono [of "set (m_vec_all_obj m)" "set (m_vec_free_obj m)"]
    by (simp add: pool_inv_def distinct_card)
  moreover have "card (in_use m) = length (m_vec_all_obj m) - length (m_vec_free_obj m)"
    using inv by (simp add: in_use_def pool_inv_def card_Diff_subset distinct_card)
  ultimately show ?thesis by (simp add: GetAllocateNum_def)
qed

text \<open>
  The abstract pool: the set of blocks in use. An allocation adds a block that was not in use, and
  only a block in use can be given back.
\<close>

datatype pool_op = P_Allocate "nat list" | P_Free nat

fun pool_step :: "pool_op \<Rightarrow> mem_pool \<Rightarrow> mem_pool option" where
  "pool_step (P_Allocate ps) m = map_option snd (Allocate ps m)"
| "pool_step (P_Free p) m = Free p m"

text \<open>\<^verbatim>\<open>malloc\<close> gives new blocks, and the program frees only what it holds.\<close>

fun pool_allowed :: "pool_op \<Rightarrow> mem_pool \<Rightarrow> bool" where
  "pool_allowed (P_Allocate ps) m = (ps \<noteq> [] \<and> new_blocks (take GROW_NUM ps) m)"
| "pool_allowed (P_Free p) m = (p \<in> in_use m)"

lemma pool_step_safe:
  "pool_inv m \<Longrightarrow> pool_allowed e m \<Longrightarrow> \<exists>m'. pool_step e m = Some m' \<and> pool_inv m'"
proof (induction e m rule: pool_allowed.induct)
  case (1 ps m)
  then show ?case using Allocate_ok [OF 1(1), of ps] by auto
next
  case (2 p m)
  then show ?case using Free_in_use [OF 2(1), of p] by simp
qed

interpretation pool: safe_steps pool_step pool_allowed pool_inv
  by unfold_locales (rule pool_step_safe)

text \<open>
  C30. The pool never hands out a block twice: after any sequence of allocations and frees from a
  program that frees only what it holds, an allocation succeeds with a block that is not in use
  (growing the pool when it is empty), and a free is accepted for the blocks in use and for no
  others; the reported number is that of the blocks in use.
\<close>

theorem pool_blocks_exclusive:
  assumes "pool_inv m" and "steps_ok pool_allowed pool_step es m"
  shows "\<exists>m'. run_steps pool_step es m = Some m'
    \<and> GetAllocateNum m' = of_nat (card (in_use m'))
    \<and> (\<forall>p. (Free p m' = None) = (p \<notin> in_use m'))
    \<and> (\<forall>ps. ps \<noteq> [] \<and> new_blocks (take GROW_NUM ps) m' \<longrightarrow>
          (\<exists>p m''. Allocate ps m' = Some (p, m'') \<and> p \<notin> in_use m' \<and> in_use m'' = insert p (in_use m')))"
proof -
  obtain m' where m': "run_steps pool_step es m = Some m'" "pool_inv m'" using pool.run_safe [OF assms] by blast
  have "(Free p m' = None) = (p \<notin> in_use m')" for p by (simp add: Free_in_use(1) [OF m'(2)])
  moreover have "\<exists>p m''. Allocate ps m' = Some (p, m'') \<and> p \<notin> in_use m' \<and> in_use m'' = insert p (in_use m')"
    if "ps \<noteq> []" "new_blocks (take GROW_NUM ps) m'" for ps
    using Allocate_ok [OF m'(2) that(2,1)] by blast
  ultimately show ?thesis using m'(1) GetAllocateNum_eq [OF m'(2)] by blast
qed

lemma pool_blocks_exclusive_witness:
  "\<exists>m. run_steps pool_step [P_Allocate [7], P_Free 2, P_Allocate [7]] (snd (SetBufferSize [1, 2] new_MemPool)) = Some m
    \<and> GetAllocateNum m = 1"
proof -
  let ?m = "snd (SetBufferSize [1, 2] new_MemPool)"
  let ?es = "[P_Allocate [7], P_Free 2, P_Allocate [7]]"
  have inv: "pool_inv ?m" by (simp add: pool_inv_def SetBufferSize_def new_MemPool_def)
  have ok: "steps_ok pool_allowed pool_step ?es ?m"
    by (simp add: SetBufferSize_def new_MemPool_def new_blocks_def Allocate_def Free_def in_use_def GROW_NUM_def Let_def)
  obtain m where m: "run_steps pool_step ?es ?m = Some m" "GetAllocateNum m = of_nat (card (in_use m))"
    using pool_blocks_exclusive [OF inv ok] by blast
  have "in_use m = {2}"
    using m(1) by (auto simp: SetBufferSize_def new_MemPool_def Allocate_def Free_def in_use_def Let_def)
  then show ?thesis using m by simp
qed

section \<open>Vectors\<close>

definition VecFind :: "'a list \<Rightarrow> 'a \<Rightarrow> bool" where
  "VecFind vec val = (val \<in> set vec)"

text \<open>\<^verbatim>\<open>*it = vec.back(); vec.erase(vec.end()-1)\<close> at a position; outside of the vector it is undefined.\<close>

definition VecRemoveByIndex :: "'a list \<Rightarrow> nat \<Rightarrow> 'a list option" where
  "VecRemoveByIndex vec index =
     (if index < length vec then Some (butlast (vec[index := last vec])) else None)"

text \<open>\<^verbatim>\<open>VecRemove\<close>: the loop looks for the first element that is equal.\<close>

fun find_from :: "nat \<Rightarrow> 'a \<Rightarrow> 'a list \<Rightarrow> nat option" where
  "find_from i val [] = None"
| "find_from i val (x # xs) = (if x = val then Some i else find_from (i + 1) val xs)"

definition VecRemove :: "'a list \<Rightarrow> 'a \<Rightarrow> bool \<times> 'a list" where
  "VecRemove vec val =
     (case find_from 0 val vec of
        None \<Rightarrow> (False, vec)
      | Some i \<Rightarrow> (True, butlast (vec[i := last vec])))"

text \<open>\<^verbatim>\<open>std::sort\<close>, \<^verbatim>\<open>std::unique\<close> and the erasure of the rest.\<close>

definition VecUnique :: "'a::linorder list \<Rightarrow> 'a list" where
  "VecUnique words = remdups_adj (sort words)"

definition VecAppend :: "'a list \<Rightarrow> 'a list \<Rightarrow> 'a list" where
  "VecAppend vec add = vec @ add"

lemma find_from_None: "find_from i val xs = None \<longleftrightarrow> val \<notin> set xs"
  by (induction i val xs rule: find_from.induct) auto

lemma find_from_Some:
  "find_from i val xs = Some j \<Longrightarrow> i \<le> j \<and> j < i + length xs \<and> xs ! (j - i) = val"
proof (induction i val xs rule: find_from.induct)
  case (1 i val)
  then show ?case by simp
next
  case (2 i val x xs)
  then show ?case by (cases "x = val") (auto simp: nth_Cons')
qed

lemma mset_replace_last:
  assumes "i < length vec"
  shows "mset (butlast (vec[i := last vec])) = mset vec - {# vec ! i #}"
proof -
  have ne: "vec \<noteq> []" using assms by auto
  then obtain xs x where vec: "vec = xs @ [x]" by (cases vec rule: rev_cases) auto
  show ?thesis
  proof (cases "i = length xs")
    case True
    then show ?thesis by (simp add: vec)
  next
    case False
    then have i: "i < length xs" using assms vec by simp
    then have "butlast (vec[i := last vec]) = xs[i := x]" by (simp add: vec list_update_append1)
    moreover have "xs ! i \<in># mset xs" using i by simp
    ultimately show ?thesis using i by (simp add: vec mset_update nth_append add_mset_diff_bothsides)
  qed
qed

text \<open>
  Removing a value from a vector without keeping the order takes away exactly one occurrence of
  it and nothing else, and says so; a value that is not there leaves the vector as it is.
\<close>

theorem VecRemove_removes_one:
  "fst (VecRemove vec val) = VecFind vec val
   \<and> mset (snd (VecRemove vec val)) = mset vec - {# val #}
   \<and> (\<not> VecFind vec val \<longrightarrow> snd (VecRemove vec val) = vec)"
proof (cases "find_from 0 val vec")
  case None
  then have "val \<notin> set vec" by (simp add: find_from_None)
  then show ?thesis using None by (simp add: VecRemove_def VecFind_def diff_single_trivial)
next
  case (Some i)
  then have i: "i < length vec" "vec ! i = val" using find_from_Some [OF Some] by simp_all
  then have "val \<in> set vec" by auto
  then show ?thesis
    using Some mset_replace_last [OF i(1)] i(2) by (simp add: VecRemove_def VecFind_def)
qed

lemma VecRemove_removes_one_witness:
  "snd (VecRemove [1, 2, 3, 2 :: nat] 2) = [1, 2, 3]
   \<and> mset (snd (VecRemove [1, 2, 3, 2 :: nat] 2)) = mset [1, 2, 3, 2] - {# 2 #}"
  using VecRemove_removes_one [of "[1, 2, 3, 2 :: nat]" 2] by (simp add: VecRemove_def)

lemma sorted_distinct_adj: "sorted xs \<Longrightarrow> distinct_adj xs \<Longrightarrow> distinct xs"
proof (induction xs rule: induct_list012)
  case (3 x y zs)
  then have "x < y" "\<forall>z \<in> set zs. y \<le> z" by (auto simp: distinct_adj_Cons)
  then show ?case using 3 by (auto simp: distinct_adj_Cons)
qed simp_all

lemma VecUnique_correct:
  "sorted (VecUnique xs) \<and> distinct (VecUnique xs) \<and> set (VecUnique xs) = set xs"
  by (simp add: VecUnique_def sorted_distinct_adj)

section \<open>Maps\<close>

text \<open>\<^verbatim>\<open>MapFind\<close> and \<^verbatim>\<open>ConstMapFind\<close>: a pointer to the value, here the value; null is \<open>None\<close>.\<close>

definition MapFind :: "('k::linorder, 'v) smap \<Rightarrow> 'k \<Rightarrow> 'v option" where
  "MapFind m key = smap_find m key"

text \<open>\<^verbatim>\<open>EasyMap\<close>: \<^verbatim>\<open>insert\<close> gives null and stores nothing when the key is there.\<close>

definition EasyMap_insert :: "'k::linorder \<Rightarrow> 'v \<Rightarrow> ('k, 'v) smap \<Rightarrow> 'v option \<times> ('k, 'v) smap" where
  "EasyMap_insert i data m =
     (case smap_insert i data m of (m1, second) \<Rightarrow> if \<not> second then (None, m1) else (Some data, m1))"

definition EasyMap_find :: "('k::linorder, 'v) smap \<Rightarrow> 'k \<Rightarrow> 'v option" where
  "EasyMap_find m i = smap_find m i"

definition EasyMap_erase :: "'k::linorder \<Rightarrow> ('k, 'v) smap \<Rightarrow> ('k, 'v) smap" where
  "EasyMap_erase i m = (case smap_find m i of None \<Rightarrow> m | Some v \<Rightarrow> smap_erase i m)"

lemma EasyMap_insert_find:
  "smap_inv m \<Longrightarrow> EasyMap_find (snd (EasyMap_insert i v m)) j
     = (if j = i then (case EasyMap_find m i of None \<Rightarrow> Some v | Some u \<Rightarrow> Some u) else EasyMap_find m j)"
  by (auto simp: EasyMap_insert_def EasyMap_find_def smap_insert_def smap.look_upd split: option.splits)

lemma EasyMap_erase_find:
  "smap_inv m \<Longrightarrow> EasyMap_find (EasyMap_erase i m) j = (if j = i then None else EasyMap_find m j)"
  by (auto simp: EasyMap_erase_def EasyMap_find_def smap.look_del split: option.splits)

lemma EasyMap_inv: "smap_inv m \<Longrightarrow> smap_inv (snd (EasyMap_insert i v m)) \<and> smap_inv (EasyMap_erase i m)"
  by (auto simp: EasyMap_insert_def EasyMap_erase_def smap_insert_def split: option.splits)

text \<open>An erase undoes an insertion of a new key: the container is the one before.\<close>

lemma EasyMap_erase_insert:
  "smap_inv m \<Longrightarrow> EasyMap_find m i = None \<Longrightarrow> EasyMap_erase i (snd (EasyMap_insert i v m)) = m"
proof (rule smap_ext)
  assume m: "smap_inv m" "EasyMap_find m i = None"
  show "smap_inv (EasyMap_erase i (snd (EasyMap_insert i v m)))" "smap_inv m"
    using EasyMap_inv [OF EasyMap_inv [OF m(1), THEN conjunct1]] m(1) by blast+
  fix k
  have inv: "smap_inv (snd (EasyMap_insert i v m))" using EasyMap_inv [OF m(1)] by blast
  show "smap_find (EasyMap_erase i (snd (EasyMap_insert i v m))) k = smap_find m k"
    using EasyMap_erase_find [OF inv, of i k] EasyMap_insert_find [OF m(1), of i v k] m(2)
    by (simp add: EasyMap_find_def split: if_splits)
qed

end
