(* ===== verification/SingleProgress.thy ===== *)
theory SingleProgress
  imports Main
begin

text \<open>
  \<^verbatim>\<open>ClientSimulate/lib_prj/utility/single_progress.{hpp,cpp}\<close>: a lock file that lets one process of a
  program run, and a signal that asks it to stop.

  Several processes run this code at once, so it is a transition system: a process is at a point of
  \<^verbatim>\<open>CheckSingle\<close>, and every system call is one step, interleaved with those of the others. The
  record locks of the kernel are the map from file names to the process that holds the lock; whether
  a system call fails is left open (a parameter of the step). The state is that of POSIX: \<^verbatim>\<open>lockf\<close>
  ignores the caller's own locks, \<^verbatim>\<open>F_LOCK\<close> blocks while another process has the lock, the end of a
  process releases its locks, and \<^verbatim>\<open>SIGUSR1\<close> ends a process that has no handler for it.
\<close>

section \<open>Data\<close>

type_synonym pid = nat

datatype progress =
    P_start string
  | P_opened string
  | P_tested string
  | P_locked string
  | P_running string
  | P_refused
  | P_dead

record sp_world =
  lk_owner :: "string \<Rightarrow> pid option"
  pc :: "pid \<Rightarrow> progress"
  m_is_exit :: "pid \<Rightarrow> bool"

definition lock_file :: "string \<Rightarrow> string" where
  "lock_file file_name = ''./'' @ file_name @ ''.lock''"

definition goto_pc :: "pid \<Rightarrow> progress \<Rightarrow> sp_world \<Rightarrow> sp_world" where
  "goto_pc p k w = w\<lparr>pc := (pc w)(p := k)\<rparr>"

section \<open>Taking the lock\<close>

text \<open>\<^verbatim>\<open>lockf(fd, F_TEST, 0)\<close>: no other process holds the lock.\<close>

definition lock_free_for :: "pid \<Rightarrow> string \<Rightarrow> sp_world \<Rightarrow> bool" where
  "lock_free_for p f w = (case lk_owner w f of None \<Rightarrow> True | Some q \<Rightarrow> q = p)"

text \<open>
  The three system calls of \<^verbatim>\<open>file_lock::lock\<close>. A failure makes \<^verbatim>\<open>CheckSingle\<close> end the process. The
  last one gives no step (\<open>None\<close>) while it blocks.
\<close>

definition lock_open :: "bool \<Rightarrow> pid \<Rightarrow> string \<Rightarrow> sp_world \<Rightarrow> sp_world" where
  "lock_open ok p name w = (if \<not> ok then goto_pc p P_refused w else goto_pc p (P_opened name) w)"

definition lock_test :: "pid \<Rightarrow> string \<Rightarrow> sp_world \<Rightarrow> sp_world" where
  "lock_test p name w =
     (if lock_free_for p (lock_file name) w then goto_pc p (P_tested name) w else goto_pc p P_refused w)"

definition lock_lock :: "bool \<Rightarrow> pid \<Rightarrow> string \<Rightarrow> sp_world \<Rightarrow> sp_world option" where
  "lock_lock ok p name w =
     (if \<not> ok then Some (goto_pc p P_refused w)
      else if lock_free_for p (lock_file name) w
      then Some (goto_pc p (P_locked name) (w\<lparr>lk_owner := (lk_owner w)(lock_file name \<mapsto> p)\<rparr>))
      else None)"

text \<open>\<^verbatim>\<open>signal(SIGUSR1, catch_signal)\<close>, the end of \<^verbatim>\<open>CheckSingle\<close>.\<close>

definition install_handler :: "pid \<Rightarrow> string \<Rightarrow> sp_world \<Rightarrow> sp_world" where
  "install_handler p name w = goto_pc p (P_running name) w"

text \<open>The end of a process: its locks are gone.\<close>

definition release_locks :: "pid \<Rightarrow> sp_world \<Rightarrow> sp_world" where
  "release_locks p w = w\<lparr>lk_owner := (\<lambda>f. if lk_owner w f = Some p then None else lk_owner w f)\<rparr>"

text \<open>
  \<^verbatim>\<open>file_lock::unlock\<close>, which the destructor calls when the process ends: nothing is done when the
  file was never opened.
\<close>

definition file_lock_unlock :: "bool \<Rightarrow> pid \<Rightarrow> string \<Rightarrow> sp_world \<Rightarrow> sp_world" where
  "file_lock_unlock opened p name w =
     (if \<not> opened then w
      else if lk_owner w (lock_file name) = Some p
      then w\<lparr>lk_owner := (lk_owner w)(lock_file name := None)\<rparr> else w)"

definition end_process :: "pid \<Rightarrow> sp_world \<Rightarrow> sp_world" where
  "end_process p w = goto_pc p P_dead (release_locks p w)"

section \<open>Stopping\<close>

text \<open>\<^verbatim>\<open>catch_signal\<close>, or the default action where it is not installed.\<close>

definition deliver_signal :: "pid \<Rightarrow> sp_world \<Rightarrow> sp_world" where
  "deliver_signal p w =
     (case pc w p of
        P_running n \<Rightarrow> w\<lparr>m_is_exit := (m_is_exit w)(p := True)\<rparr>
      | P_dead \<Rightarrow> w
      | _ \<Rightarrow> end_process p w)"

text \<open>
  \<^verbatim>\<open>file_lock::kill\<close> called by the process \<open>p\<close>: \<open>opened\<close>, \<open>got\<close> and \<open>sent\<close> are the success of
  \<^verbatim>\<open>open\<close>, \<^verbatim>\<open>fcntl(F_GETLK)\<close>, which names another process that holds the lock, and \<^verbatim>\<open>::kill\<close>.
\<close>

definition file_lock_kill :: "bool \<Rightarrow> bool \<Rightarrow> bool \<Rightarrow> pid \<Rightarrow> string \<Rightarrow> sp_world \<Rightarrow> int \<times> sp_world" where
  "file_lock_kill opened got sent p name w =
     (if \<not> opened then (- 1, w)
      else if \<not> got then (- 1, w)
      else case lk_owner w (lock_file name) of
        None \<Rightarrow> (0, w)
      | Some q \<Rightarrow>
          if q = p then (0, w)
          else if \<not> sent then (- 1, w)
          else (1, deliver_signal q w))"

text \<open>\<^verbatim>\<open>StopSingle\<close>; the flag is whether it logs that nothing was found.\<close>

definition StopSingle :: "bool \<Rightarrow> bool \<Rightarrow> bool \<Rightarrow> pid \<Rightarrow> string \<Rightarrow> sp_world \<Rightarrow> bool \<times> sp_world" where
  "StopSingle opened got sent p name w =
     (case file_lock_kill opened got sent p name w of (r, w1) \<Rightarrow> (r = 0, w1))"

definition IsExit :: "pid \<Rightarrow> sp_world \<Rightarrow> bool" where
  "IsExit p w = m_is_exit w p"

section \<open>Many processes\<close>

inductive sp_step :: "sp_world \<Rightarrow> sp_world \<Rightarrow> bool" where
  s_open: "pc w p = P_start name \<Longrightarrow> sp_step w (lock_open ok p name w)"
| s_test: "pc w p = P_opened name \<Longrightarrow> sp_step w (lock_test p name w)"
| s_lock: "pc w p = P_tested name \<Longrightarrow> lock_lock ok p name w = Some w' \<Longrightarrow> sp_step w w'"
| s_signal: "pc w p = P_locked name \<Longrightarrow> sp_step w (install_handler p name w)"
| s_end: "sp_step w (end_process p w)"
| s_exit: "pc w p = P_running name \<Longrightarrow> sp_step w (end_process p (file_lock_unlock True p name w))"
| s_stop: "sp_step w (snd (StopSingle opened got sent p name w))"

definition sp_init :: "sp_world \<Rightarrow> bool" where
  "sp_init w \<longleftrightarrow> lk_owner w = Map.empty \<and> (\<forall>p. \<exists>name. pc w p = P_start name) \<and> (\<forall>p. \<not> m_is_exit w p)"

inductive sp_reach :: "sp_world \<Rightarrow> bool" where
  sp_start: "sp_init w \<Longrightarrow> sp_reach w"
| sp_next: "sp_reach w \<Longrightarrow> sp_step w w' \<Longrightarrow> sp_reach w'"

inductive_cases sp_stepE: "sp_step w w'"

text \<open>A process that is past the lock holds it.\<close>

definition past_lock :: "progress \<Rightarrow> string option" where
  "past_lock k = (case k of P_locked n \<Rightarrow> Some n | P_running n \<Rightarrow> Some n | _ \<Rightarrow> None)"

definition sp_inv :: "sp_world \<Rightarrow> bool" where
  "sp_inv w \<longleftrightarrow> (\<forall>p n. past_lock (pc w p) = Some n \<longrightarrow> lk_owner w (lock_file n) = Some p)"

lemma past_lock_simps [simp]:
  "past_lock (P_start n) = None" "past_lock (P_opened n) = None" "past_lock (P_tested n) = None"
  "past_lock (P_locked n) = Some n" "past_lock (P_running n) = Some n" "past_lock P_refused = None"
  "past_lock P_dead = None"
  by (simp_all add: past_lock_def)

lemma sp_invD: "sp_inv w \<Longrightarrow> past_lock (pc w p) = Some n \<Longrightarrow> lk_owner w (lock_file n) = Some p"
  by (simp add: sp_inv_def)

lemma sp_inv_goto: "sp_inv w \<Longrightarrow> past_lock k = None \<or> past_lock k = past_lock (pc w p) \<Longrightarrow> sp_inv (goto_pc p k w)"
  by (auto simp: sp_inv_def goto_pc_def)

lemma sp_inv_end: "sp_inv w \<Longrightarrow> sp_inv (end_process p w)"
  by (auto simp: sp_inv_def end_process_def release_locks_def goto_pc_def)

lemma sp_inv_exit:
  assumes "sp_inv w"
  shows "sp_inv (end_process p (file_lock_unlock True p name w))"
proof -
  let ?w = "end_process p (file_lock_unlock True p name w)"
  have "lk_owner ?w (lock_file n) = Some q" if past: "past_lock (pc ?w q) = Some n" for q n
  proof -
    have q: "q \<noteq> p" "past_lock (pc w q) = Some n"
      using past by (auto simp: end_process_def release_locks_def goto_pc_def file_lock_unlock_def split: if_splits)
    have "lk_owner w (lock_file n) = Some q" using sp_invD [OF assms q(2)] .
    then show ?thesis
      using q(1) by (auto simp: end_process_def release_locks_def goto_pc_def file_lock_unlock_def)
  qed
  then show ?thesis by (simp add: sp_inv_def)
qed

lemma sp_inv_flag [simp]: "sp_inv (w\<lparr>m_is_exit := x\<rparr>) = sp_inv w"
  by (simp add: sp_inv_def)

lemma sp_inv_signal: "sp_inv w \<Longrightarrow> sp_inv (deliver_signal p w)"
  by (cases "pc w p") (simp_all add: deliver_signal_def sp_inv_end)

lemma sp_inv_stop: "sp_inv w \<Longrightarrow> sp_inv (snd (StopSingle opened got sent p name w))"
  by (auto simp: StopSingle_def file_lock_kill_def sp_inv_signal split: option.splits)

lemma sp_inv_take:
  assumes inv: "sp_inv w" and free: "lock_free_for p (lock_file name) w"
  shows "sp_inv (goto_pc p (P_locked name) (w\<lparr>lk_owner := (lk_owner w)(lock_file name \<mapsto> p)\<rparr>))"
proof -
  have "lk_owner w (lock_file n) = Some q \<and> lock_file n \<noteq> lock_file name"
    if "q \<noteq> p" "past_lock (pc w q) = Some n" for q n
    using sp_invD [OF inv that(2)] free that(1) by (auto simp: lock_free_for_def)
  then show ?thesis by (auto simp: sp_inv_def goto_pc_def)
qed

lemma sp_step_inv: "sp_step w w' \<Longrightarrow> sp_inv w \<Longrightarrow> sp_inv w'"
proof (induction rule: sp_step.induct)
  case (s_open w p name ok)
  then show ?case by (auto simp: lock_open_def intro: sp_inv_goto)
next
  case (s_test w p name)
  then show ?case by (auto simp: lock_test_def intro: sp_inv_goto)
next
  case (s_lock w p name ok w')
  then show ?case by (auto simp: lock_lock_def intro: sp_inv_goto sp_inv_take split: if_splits)
next
  case (s_signal w p name)
  then show ?case by (auto simp: install_handler_def intro: sp_inv_goto)
next
  case (s_end w p)
  then show ?case by (simp add: sp_inv_end)
next
  case (s_exit w p name)
  then show ?case by (simp add: sp_inv_exit)
next
  case (s_stop w opened got sent p name)
  then show ?case by (simp add: sp_inv_stop)
qed

lemma sp_reach_inv: "sp_reach w \<Longrightarrow> sp_inv w"
proof (induction rule: sp_reach.induct)
  case (sp_start w)
  have "past_lock (pc w p) = None" for p
  proof -
    obtain name where "pc w p = P_start name" using sp_start by (auto simp: sp_init_def)
    then show ?thesis by simp
  qed
  then show ?case by (simp add: sp_inv_def)
next
  case (sp_next w w')
  then show ?case using sp_step_inv by blast
qed

text \<open>
  C28. Two processes never run the program under the same name at the same time, however their
  system calls are interleaved and whichever of them fail; and a stop request that succeeds reaches
  the one that runs.
\<close>

theorem one_process_per_name:
  assumes "sp_reach w" and "pc w p = P_running name"
  shows "(pc w q = P_running name \<longrightarrow> q = p)
    \<and> (q \<noteq> p \<longrightarrow> (let (logs, w') = StopSingle True True True q name w in \<not> logs \<and> IsExit p w'))"
proof -
  have inv: "sp_inv w" using sp_reach_inv [OF assms(1)] .
  have own: "lk_owner w (lock_file name) = Some p" using sp_invD [OF inv] assms(2) by simp
  have "pc w q = P_running name \<longrightarrow> q = p" using sp_invD [OF inv, of q name] own by auto
  then show ?thesis
    using own assms(2) by (simp add: StopSingle_def file_lock_kill_def deliver_signal_def IsExit_def)
qed

definition two_starters :: sp_world where
  "two_starters = \<lparr>lk_owner = Map.empty, pc = (\<lambda>p. P_start ''a''), m_is_exit = (\<lambda>p. False)\<rparr>"

text \<open>The first two steps of a process, where the lock is free.\<close>

lemma reach_tested:
  assumes "sp_reach w" and "pc w p = P_start name" and "lk_owner w (lock_file name) = None"
  shows "\<exists>v. sp_reach v \<and> pc v = (pc w)(p := P_tested name) \<and> lk_owner v = lk_owner w"
proof -
  let ?w1 = "lock_open True p name w"
  have 1: "sp_reach ?w1" "pc ?w1 p = P_opened name"
    using sp_next [OF assms(1) s_open [OF assms(2)], of True] by (simp_all add: lock_open_def goto_pc_def)
  have "sp_reach (lock_test p name ?w1)" using sp_next [OF 1(1) s_test [OF 1(2)]] .
  moreover have "pc (lock_test p name ?w1) = (pc w)(p := P_tested name)"
    "lk_owner (lock_test p name ?w1) = lk_owner w"
    using assms(3) by (simp_all add: lock_test_def lock_open_def lock_free_for_def goto_pc_def)
  ultimately show ?thesis by blast
qed

text \<open>The steps of a process that starts alone.\<close>

lemma start_alone:
  assumes "sp_reach w" and "pc w p = P_start name" and "lk_owner w (lock_file name) = None"
  shows "\<exists>w'. sp_reach w' \<and> pc w' p = P_running name"
proof -
  obtain w2 where 2: "sp_reach w2" "pc w2 = (pc w)(p := P_tested name)" "lk_owner w2 = lk_owner w"
    using reach_tested [OF assms] by blast
  have pc2: "pc w2 p = P_tested name" using 2(2) by simp
  obtain w3 where w3: "lock_lock True p name w2 = Some w3" "pc w3 p = P_locked name"
    using 2(3) assms(3) by (simp add: lock_lock_def lock_free_for_def goto_pc_def)
  have 3: "sp_reach w3" using sp_next [OF 2(1) s_lock [OF pc2 w3(1)]] .
  have "sp_reach (install_handler p name w3)" using sp_next [OF 3 s_signal [OF w3(2)]] .
  then show ?thesis by (intro exI [of _ "install_handler p name w3"]) (simp add: install_handler_def goto_pc_def)
qed

lemma one_process_per_name_witness:
  "\<exists>w. sp_reach w \<and> pc w 1 = P_running ''a'' \<and> (pc w 2 = P_running ''a'' \<longrightarrow> (2::nat) = 1)"
proof -
  have "sp_reach two_starters" by (rule sp_start) (simp add: sp_init_def two_starters_def)
  from start_alone [OF this, of 1 "''a''"] obtain w where w: "sp_reach w" "pc w 1 = P_running ''a''"
    by (auto simp: two_starters_def)
  then show ?thesis using one_process_per_name [OF w, of 2] by blast
qed

text \<open>
  Testing and taking the lock are two calls. A second process that tests before the first takes
  the lock is not refused, as \<^verbatim>\<open>CheckSingle\<close> intends: it blocks in \<^verbatim>\<open>F_LOCK\<close>, and when the first one
  ends it runs.
\<close>

theorem late_starter_blocks_then_runs:
  assumes "sp_reach w" and "pc w p = P_start name" and "pc w q = P_start name" and "p \<noteq> q"
    and "lk_owner w (lock_file name) = None"
  shows "\<exists>w1 w2. sp_reach w1 \<and> pc w1 p = P_running name \<and> pc w1 q = P_tested name
    \<and> lock_lock True q name w1 = None
    \<and> sp_reach w2 \<and> pc w2 p = P_dead \<and> pc w2 q = P_locked name"
proof -
  obtain a where a: "sp_reach a" "pc a = (pc w)(q := P_tested name)" "lk_owner a = lk_owner w"
    using reach_tested [OF assms(1,3,5)] by blast
  have "pc a p = P_start name" "lk_owner a (lock_file name) = None" using a(2,3) assms(2,4,5) by simp_all
  from reach_tested [OF a(1) this] obtain b where b0: "sp_reach b"
      "pc b = (pc a)(p := P_tested name)" "lk_owner b = lk_owner a" by blast
  have b: "sp_reach b" "pc b p = P_tested name" "pc b q = P_tested name" "lk_owner b (lock_file name) = None"
    using b0 a(2,3) assms(4,5) by simp_all
  let ?c = "goto_pc p (P_locked name) (b\<lparr>lk_owner := (lk_owner b)(lock_file name \<mapsto> p)\<rparr>)"
  have lock: "lock_lock True p name b = Some ?c"
    using b(4) by (simp add: lock_lock_def lock_free_for_def)
  have c: "sp_reach ?c" using sp_next [OF b(1) s_lock [OF b(2) lock]] .
  let ?w1 = "install_handler p name ?c"
  have pcc: "pc ?c p = P_locked name" by (simp add: goto_pc_def)
  have w1: "sp_reach ?w1" "pc ?w1 p = P_running name" "pc ?w1 q = P_tested name" "lk_owner ?w1 (lock_file name) = Some p"
    using sp_next [OF c s_signal [OF pcc]] b(3) assms(4) by (simp_all add: install_handler_def goto_pc_def)
  have block: "lock_lock True q name ?w1 = None"
    using w1(4) assms(4) by (simp add: lock_lock_def lock_free_for_def)
  let ?e = "end_process p ?w1"
  have e: "sp_reach ?e" "pc ?e q = P_tested name" "pc ?e p = P_dead" "lk_owner ?e (lock_file name) = None"
    using sp_next [OF w1(1) s_end, of p] w1(3,4) assms(4)
    by (simp_all add: end_process_def goto_pc_def release_locks_def)
  obtain w2 where w2: "lock_lock True q name ?e = Some w2" "pc w2 q = P_locked name" "pc w2 p = P_dead"
    using e(3,4) assms(4) by (auto simp: lock_lock_def lock_free_for_def goto_pc_def)
  have "sp_reach w2" using sp_next [OF e(1) s_lock [OF e(2) w2(1)]] .
  then show ?thesis using w1(1-3) block w2(2,3) by blast
qed

lemma late_starter_blocks_then_runs_witness:
  "\<exists>w1. sp_reach w1 \<and> pc w1 1 = P_running ''a'' \<and> lock_lock True 2 ''a'' w1 = None"
proof -
  have r: "sp_reach two_starters" by (rule sp_start) (simp add: sp_init_def two_starters_def)
  have "pc two_starters 1 = P_start ''a''" "pc two_starters 2 = P_start ''a''" "(1::nat) \<noteq> 2"
    "lk_owner two_starters (lock_file ''a'') = None"
    by (simp_all add: two_starters_def)
  from late_starter_blocks_then_runs [OF r this] show ?thesis by blast
qed

end
