(* ===== verification/DebugLog.thy ===== *)
theory DebugLog
  imports CPrelude
begin

text \<open>
  \<^verbatim>\<open>utility/logFile.{h,cpp}\<close> (the projects of the repository each have a copy): class \<^verbatim>\<open>DebugLog\<close>, the
  logger behind the \<^verbatim>\<open>LOG_\<close> macros.

  A logger writes to a file and to standard output; both are the bytes written so far. Formatting
  with arguments, \<^verbatim>\<open>vsnprintf\<close> and \<^verbatim>\<open>vfprintf\<close>, and the local time are parameters; formatting a
  string without arguments is modelled, since the code does it to text that was already formatted:
  a conversion in it reads an argument that does not exist, which is \<open>None\<close>, as is writing to a file
  that could not be opened.
\<close>

section \<open>Data\<close>

datatype DebugLogLv =
  LOG_LV_FATAL | LOG_LV_ERROR | LOG_LV_WARN | LOG_LV_DEBUG | LOG_LV_INFO | LOG_LV_ANY

fun lv_num :: "DebugLogLv \<Rightarrow> nat" where
  "lv_num LOG_LV_FATAL = 0"
| "lv_num LOG_LV_ERROR = 1"
| "lv_num LOG_LV_WARN = 2"
| "lv_num LOG_LV_DEBUG = 3"
| "lv_num LOG_LV_INFO = 4"
| "lv_num LOG_LV_ANY = 5"

text \<open>The constants of the enumeration are compared by their number.\<close>

instantiation DebugLogLv :: linorder
begin

definition less_eq_DebugLogLv :: "DebugLogLv \<Rightarrow> DebugLogLv \<Rightarrow> bool" where
  "less_eq_DebugLogLv a b \<longleftrightarrow> lv_num a \<le> lv_num b"

definition less_DebugLogLv :: "DebugLogLv \<Rightarrow> DebugLogLv \<Rightarrow> bool" where
  "less_DebugLogLv a b \<longleftrightarrow> lv_num a < lv_num b"

instance
proof
  fix x y z :: DebugLogLv
  show "(x < y) = (x \<le> y \<and> \<not> y \<le> x)" by (auto simp: less_eq_DebugLogLv_def less_DebugLogLv_def)
  show "x \<le> x" by (simp add: less_eq_DebugLogLv_def)
  show "x \<le> y \<Longrightarrow> y \<le> z \<Longrightarrow> x \<le> z" by (simp add: less_eq_DebugLogLv_def)
  show "x \<le> y \<Longrightarrow> y \<le> x \<Longrightarrow> x = y" by (cases x; cases y) (simp_all add: less_eq_DebugLogLv_def)
  show "x \<le> y \<or> y \<le> x" by (auto simp: less_eq_DebugLogLv_def)
qed

end

record debug_log =
  m_log_lv :: DebugLogLv
  m_file :: "string option"
  m_is_std_out :: bool
  m_prefix_name :: string
  std_out :: string

text \<open>The constructor; \<open>opened\<close> is whether \<^verbatim>\<open>fopen\<close> gave a file.\<close>

definition new_DebugLog :: "bool \<Rightarrow> string \<Rightarrow> debug_log" where
  "new_DebugLog opened prefix_name =
     \<lparr>m_log_lv = LOG_LV_ANY, m_file = (if opened then Some [] else None), m_is_std_out = True,
      m_prefix_name = prefix_name, std_out = []\<rparr>"

definition setShowLv :: "DebugLogLv \<Rightarrow> debug_log \<Rightarrow> debug_log" where
  "setShowLv lv l = l\<lparr>m_log_lv := lv\<rparr>"

definition setStdOut :: "bool \<Rightarrow> debug_log \<Rightarrow> debug_log" where
  "setStdOut is_std_out l = l\<lparr>m_is_std_out := is_std_out\<rparr>"

fun GetLogLevelStr :: "DebugLogLv \<Rightarrow> string" where
  "GetLogLevelStr LOG_LV_FATAL = ''<fatal> ''"
| "GetLogLevelStr LOG_LV_ERROR = ''<error> ''"
| "GetLogLevelStr LOG_LV_WARN = ''<warn>  ''"
| "GetLogLevelStr LOG_LV_DEBUG = ''<debug> ''"
| "GetLogLevelStr LOG_LV_INFO = ''<info>  ''"
| "GetLogLevelStr LOG_LV_ANY = ''<any>   ''"

section \<open>Writing a line\<close>

text \<open>\<^verbatim>\<open>printf(s)\<close> without arguments: \<^verbatim>\<open>%%\<close> is a percent sign, any other conversion is undefined.\<close>

fun format0 :: "string \<Rightarrow> string option" where
  "format0 [] = Some []"
| "format0 (c # s) =
     (if c \<noteq> CHR ''%'' then map_option (\<lambda>t. c # t) (format0 s)
      else case s of
        [] \<Rightarrow> None
      | d # r \<Rightarrow> if d = CHR ''%'' then map_option (\<lambda>t. CHR ''%'' # t) (format0 r) else None)"

definition put_file :: "string \<Rightarrow> debug_log \<Rightarrow> debug_log option" where
  "put_file t l = (case m_file l of None \<Rightarrow> None | Some old \<Rightarrow> Some (l\<lparr>m_file := Some (old @ t)\<rparr>))"

text \<open>The format that is put together around the caller's pattern.\<close>

definition log_pattern :: "string \<Rightarrow> DebugLogLv \<Rightarrow> string \<Rightarrow> nat \<Rightarrow> string \<Rightarrow> string \<Rightarrow> debug_log \<Rightarrow> string" where
  "log_pattern time_str lv file line pFun pattern l =
     (let line_str = take 9 (dec_of_nat line);
          s1 = time_str @ m_prefix_name l @ '' '' @ GetLogLevelStr lv @ pattern;
          s2 = (if lv \<le> LOG_LV_DEBUG then s1 @ ''  --'' @ file @ '':'' @ line_str @ '' '' @ pFun else s1)
      in s2 @ [LF])"

text \<open>
  \<^verbatim>\<open>DebugLog::printf\<close>: \<open>vfmt s\<close> is the text of the format \<open>s\<close> with the arguments of the call.
\<close>

definition OUT_STR_SIZE :: nat where "OUT_STR_SIZE = 1000"

definition DebugLog_printf :: "(string \<Rightarrow> string) \<Rightarrow> string \<Rightarrow> DebugLogLv \<Rightarrow> string \<Rightarrow> nat \<Rightarrow> string \<Rightarrow> string
    \<Rightarrow> debug_log \<Rightarrow> debug_log option" where
  "DebugLog_printf vfmt time_str lv file line pFun pattern l =
     (if m_log_lv l < lv then Some l
      else let s = log_pattern time_str lv file line pFun pattern l in
        if m_is_std_out l
        then let out_str = take (OUT_STR_SIZE - 1) (vfmt s) in
          case format0 out_str of
            None \<Rightarrow> None
          | Some t \<Rightarrow>
              (case put_file t l of
                 None \<Rightarrow> None
               | Some l1 \<Rightarrow> Some (l1\<lparr>std_out := std_out l1 @ t\<rparr>))
        else put_file (vfmt s) l)"

section \<open>What is written\<close>

lemma format0_plain: "CHR ''%'' \<notin> set s \<Longrightarrow> format0 s = Some s"
  by (induction s) auto

lemma format0_conversion:
  "CHR ''%'' \<notin> set pre \<Longrightarrow> d \<noteq> CHR ''%'' \<Longrightarrow> format0 (pre @ CHR ''%'' # d # r) = None"
  by (induction pre) auto

text \<open>Doubling the percent signs is what makes a text safe, and it comes out as it was.\<close>

fun escape_percent :: "string \<Rightarrow> string" where
  "escape_percent [] = []"
| "escape_percent (c # s) = (if c = CHR ''%'' then CHR ''%'' # CHR ''%'' # escape_percent s else c # escape_percent s)"

lemma format0_escape: "format0 (escape_percent s) = Some s"
  by (induction s) auto

text \<open>
  A line below the logger's level is dropped, and one at or above it, whose text has no percent
  sign and at most 999 characters, is written once to the file and once to standard output, whole and
  in the order of the calls, behind the time, the prefix and the level.
\<close>

theorem log_line_written:
  assumes "m_file l = Some old" and "m_is_std_out l"
    and "CHR ''%'' \<notin> set (vfmt (log_pattern time_str lv file line pFun pattern l))"
    and "length (vfmt (log_pattern time_str lv file line pFun pattern l)) < OUT_STR_SIZE"
  shows "DebugLog_printf vfmt time_str lv file line pFun pattern l =
    (if m_log_lv l < lv then Some l
     else Some (l\<lparr>m_file := Some (old @ vfmt (log_pattern time_str lv file line pFun pattern l)),
                  std_out := std_out l @ vfmt (log_pattern time_str lv file line pFun pattern l)\<rparr>))"
  using assms by (simp add: DebugLog_printf_def Let_def format0_plain put_file_def OUT_STR_SIZE_def)

lemma log_line_written_witness:
  "DebugLog_printf (\<lambda>s. s) ''T '' LOG_LV_INFO ''f'' 3 ''g'' ''x'' (new_DebugLog True ''p'')
    = Some ((new_DebugLog True ''p'')\<lparr>m_file := Some (''T p <info>  x'' @ [LF]), std_out := ''T p <info>  x'' @ [LF]\<rparr>)"
proof -
  have t: "log_pattern ''T '' LOG_LV_INFO ''f'' 3 ''g'' ''x'' (new_DebugLog True ''p'') = ''T p <info>  x'' @ [LF]"
    by (simp add: log_pattern_def new_DebugLog_def Let_def less_eq_DebugLogLv_def)
  show ?thesis
    by (subst log_line_written [where old = "[]"])
      (simp_all add: t, simp_all add: new_DebugLog_def OUT_STR_SIZE_def less_DebugLogLv_def)
qed

text \<open>
  The formatted line is used as a format again: when the text that is logged contains a percent
  sign that does not happen to be doubled, as an argument printed with \<^verbatim>\<open>%s\<close> may, the call reads
  arguments that do not exist.
\<close>

theorem logged_percent_is_undefined:
  assumes "\<not> m_log_lv l < lv" and "m_is_std_out l"
    and "vfmt (log_pattern time_str lv file line pFun pattern l) = pre @ CHR ''%'' # d # r"
    and "CHR ''%'' \<notin> set pre" and "d \<noteq> CHR ''%''" and "length pre + 2 < OUT_STR_SIZE"
  shows "DebugLog_printf vfmt time_str lv file line pFun pattern l = None"
proof -
  have "take (OUT_STR_SIZE - 1) (pre @ CHR ''%'' # d # r)
      = pre @ CHR ''%'' # d # take (OUT_STR_SIZE - 1 - length pre - 2) r"
  proof -
    have "OUT_STR_SIZE - 1 - length pre = Suc (Suc (OUT_STR_SIZE - 1 - length pre - 2))"
      using assms(6) by (simp add: OUT_STR_SIZE_def)
    moreover have "length pre < OUT_STR_SIZE - 1" using assms(6) by simp
    ultimately show ?thesis by (simp add: take_append)
  qed
  then show ?thesis
    using assms by (simp add: DebugLog_printf_def Let_def format0_conversion)
qed

lemma logged_percent_is_undefined_witness:
  "DebugLog_printf (\<lambda>s. ''100%s'' @ [LF]) ''T '' LOG_LV_INFO ''f'' 3 ''g'' ''%s'' (new_DebugLog True '''') = None"
  by (rule logged_percent_is_undefined [where pre = "''100''" and d = "CHR ''s''" and r = "[LF]"])
    (simp_all add: new_DebugLog_def OUT_STR_SIZE_def less_DebugLogLv_def)

end
