(* ===== verification/ConvertUTF.thy ===== *)
theory ConvertUTF
  imports Main "HOL-Library.Word"
begin

unbundle bit_operations_syntax

text \<open>
  \<^verbatim>\<open>gflags_SimpleIni/dep/SimpleIni/ConvertUTF.{h,c}\<close>: the conversions between UTF-8, UTF-16 and UTF-32
  that SimpleIni is built on.

  A source pointer with its end is the list of the units that are left. A target pointer with its
  end is the list of the units written so far and the room there is for units in all. A conversion
  gives the result code, what is left of the source, and what was written. The units are words of
  their C types; intermediate values have the 32 bits of \<^verbatim>\<open>UTF32\<close>. The switches that fall through are
  written as recursions over their cases.
\<close>

section \<open>Types and tables\<close>

type_synonym UTF32 = "32 word"
type_synonym UTF16 = "16 word"
type_synonym UTF8 = "8 word"

datatype ConversionResult = conversionOK | sourceExhausted | targetExhausted | sourceIllegal

datatype ConversionFlags = strictConversion | lenientConversion

definition UNI_REPLACEMENT_CHAR :: UTF32 where "UNI_REPLACEMENT_CHAR = 0xFFFD"
definition UNI_MAX_BMP :: UTF32 where "UNI_MAX_BMP = 0xFFFF"
definition UNI_MAX_UTF16 :: UTF32 where "UNI_MAX_UTF16 = 0x10FFFF"
definition UNI_MAX_LEGAL_UTF32 :: UTF32 where "UNI_MAX_LEGAL_UTF32 = 0x10FFFF"

definition halfShift :: nat where "halfShift = 10"
definition halfBase :: UTF32 where "halfBase = 0x10000"
definition halfMask :: UTF32 where "halfMask = 0x3FF"

definition UNI_SUR_HIGH_START :: UTF32 where "UNI_SUR_HIGH_START = 0xD800"
definition UNI_SUR_HIGH_END :: UTF32 where "UNI_SUR_HIGH_END = 0xDBFF"
definition UNI_SUR_LOW_START :: UTF32 where "UNI_SUR_LOW_START = 0xDC00"
definition UNI_SUR_LOW_END :: UTF32 where "UNI_SUR_LOW_END = 0xDFFF"

definition trailingBytesForUTF8 :: "nat list" where
  "trailingBytesForUTF8 = replicate 192 0 @ replicate 32 1 @ replicate 16 2 @ replicate 8 3
     @ replicate 4 4 @ replicate 4 5"

definition offsetsFromUTF8 :: "UTF32 list" where
  "offsetsFromUTF8 = [0x00000000, 0x00003080, 0x000E2080, 0x03C82080, 0xFA082080, 0x82082080]"

definition firstByteMark :: "UTF8 list" where
  "firstByteMark = [0x00, 0x00, 0xC0, 0xE0, 0xF0, 0xF8, 0xFC]"

section \<open>Reading one character\<close>

text \<open>
  The start of the loops of \<^verbatim>\<open>ConvertUTF16toUTF32\<close> and \<^verbatim>\<open>ConvertUTF16toUTF8\<close>: the character and the rest
  of the source, or the result code with which the loop stops at the first unit.
\<close>

fun read_utf16 :: "ConversionFlags \<Rightarrow> UTF16 list \<Rightarrow> ConversionResult + UTF32 \<times> UTF16 list" where
  "read_utf16 flags [] = Inl conversionOK"
| "read_utf16 flags (u # source) =
     (let ch = ucast u :: UTF32 in
      if UNI_SUR_HIGH_START \<le> ch \<and> ch \<le> UNI_SUR_HIGH_END then
        (case source of
           [] \<Rightarrow> Inl sourceExhausted
         | u2 # source2 \<Rightarrow>
             let ch2 = ucast u2 :: UTF32 in
             if UNI_SUR_LOW_START \<le> ch2 \<and> ch2 \<le> UNI_SUR_LOW_END
             then Inr (push_bit halfShift (ch - UNI_SUR_HIGH_START) + (ch2 - UNI_SUR_LOW_START) + halfBase, source2)
             else if flags = strictConversion then Inl sourceIllegal
             else Inr (ch, source))
      else if flags = strictConversion \<and> UNI_SUR_LOW_START \<le> ch \<and> ch \<le> UNI_SUR_LOW_END
      then Inl sourceIllegal
      else Inr (ch, source))"

text \<open>\<^verbatim>\<open>isLegalUTF8\<close>: its callers have checked that the source has \<open>len\<close> bytes.\<close>

definition legal_second :: "UTF8 \<Rightarrow> UTF8 \<Rightarrow> bool" where
  "legal_second b a \<longleftrightarrow> \<not> 0xBF < a
     \<and> (if b = 0xE0 then \<not> a < 0xA0
        else if b = 0xED then \<not> 0x9F < a
        else if b = 0xF0 then \<not> a < 0x90
        else if b = 0xF4 then \<not> 0x8F < a
        else \<not> a < 0x80)"

definition isLegalUTF8 :: "UTF8 list \<Rightarrow> nat \<Rightarrow> bool" where
  "isLegalUTF8 source len \<longleftrightarrow>
     0 < len \<and> len \<le> 4
   \<and> (4 \<le> len \<longrightarrow> \<not> (source ! 3 < 0x80 \<or> 0xBF < source ! 3))
   \<and> (3 \<le> len \<longrightarrow> \<not> (source ! 2 < 0x80 \<or> 0xBF < source ! 2))
   \<and> (2 \<le> len \<longrightarrow> legal_second (source ! 0) (source ! 1))
   \<and> \<not> (0x80 \<le> source ! 0 \<and> source ! 0 < 0xC2)
   \<and> \<not> 0xF4 < source ! 0"

text \<open>\<^verbatim>\<open>isLegalUTF8Sequence\<close> reads its first byte without a check: \<open>None\<close> for an empty source.\<close>

definition isLegalUTF8Sequence :: "UTF8 list \<Rightarrow> bool option" where
  "isLegalUTF8Sequence source =
     (case source of
        [] \<Rightarrow> None
      | b # _ \<Rightarrow>
          let len = trailingBytesForUTF8 ! unat b + 1 in
          if length source < len then Some False else Some (isLegalUTF8 source len))"

fun read_switch :: "nat \<Rightarrow> UTF32 \<Rightarrow> UTF8 list \<Rightarrow> UTF32 \<times> UTF8 list" where
  "read_switch extra ch [] = (ch, [])"
| "read_switch 0 ch (b # source) = (ch + ucast b, source)"
| "read_switch (Suc extra) ch (b # source) = read_switch extra (push_bit 6 (ch + ucast b)) source"

text \<open>The start of the loops of \<^verbatim>\<open>ConvertUTF8toUTF16\<close> and \<^verbatim>\<open>ConvertUTF8toUTF32\<close>.\<close>

definition read_utf8 :: "UTF8 list \<Rightarrow> ConversionResult + UTF32 \<times> UTF8 list" where
  "read_utf8 source =
     (let extraBytesToRead = trailingBytesForUTF8 ! unat (hd source) in
      if length source \<le> extraBytesToRead then Inl sourceExhausted
      else if \<not> isLegalUTF8 source (extraBytesToRead + 1) then Inl sourceIllegal
      else let (ch, source2) = read_switch extraBytesToRead 0 source
           in Inr (ch - offsetsFromUTF8 ! extraBytesToRead, source2))"

lemma read_utf16_less: "read_utf16 flags source = Inr (ch, source2) \<Longrightarrow> length source2 < length source"
  by (cases source) (auto simp: Let_def split: if_splits list.splits)

lemma read_switch_less: "source \<noteq> [] \<Longrightarrow> length (snd (read_switch extra ch source)) < length source"
proof (induction extra ch source rule: read_switch.induct)
  case (3 extra ch b source)
  then show ?case by (cases "source = []") auto
qed auto

lemma read_utf8_less:
  "source \<noteq> [] \<Longrightarrow> read_utf8 source = Inr (ch, source2) \<Longrightarrow> length source2 < length source"
  using read_switch_less [of source "trailingBytesForUTF8 ! unat (hd source)" 0]
  by (auto simp: read_utf8_def Let_def split: if_splits prod.splits)

section \<open>Writing one character\<close>

text \<open>
  \<^verbatim>\<open>bytesToWrite\<close>, and the switch that writes the bytes from the last to the first: \<open>n\<close> is the case,
  \<open>acc\<close> the bytes already behind the target pointer.
\<close>

definition bytesToWrite :: "UTF32 \<Rightarrow> nat" where
  "bytesToWrite ch =
     (if ch < 0x80 then 1 else if ch < 0x800 then 2 else if ch < 0x10000 then 3 else 4)"

fun write_switch :: "nat \<Rightarrow> nat \<Rightarrow> UTF32 \<Rightarrow> UTF8 list \<Rightarrow> UTF8 list" where
  "write_switch bytes 0 ch acc = acc"
| "write_switch bytes (Suc 0) ch acc = ucast (ch OR ucast (firstByteMark ! bytes)) # acc"
| "write_switch bytes (Suc (Suc n)) ch acc =
     write_switch bytes (Suc n) (drop_bit 6 ch) (ucast ((ch OR 0x80) AND 0xBF) # acc)"

text \<open>The two units of a character beyond the basic plane.\<close>

definition surrogates :: "UTF32 \<Rightarrow> UTF16 list" where
  "surrogates c =
     (let ch = c - halfBase in
       [ucast (drop_bit halfShift ch + UNI_SUR_HIGH_START), ucast ((ch AND halfMask) + UNI_SUR_LOW_START)])"

section \<open>The conversions\<close>

text \<open>
  The loops: \<open>result\<close> is the result code so far, for the loops that set it without stopping.
\<close>

fun utf32_utf16_loop :: "ConversionFlags \<Rightarrow> nat \<Rightarrow> ConversionResult \<Rightarrow> UTF32 list \<Rightarrow> UTF16 list
    \<Rightarrow> ConversionResult \<times> UTF32 list \<times> UTF16 list" where
  "utf32_utf16_loop flags room result [] target = (result, [], target)"
| "utf32_utf16_loop flags room result (ch # source) target =
     (if room \<le> length target then (targetExhausted, ch # source, target)
      else if ch \<le> UNI_MAX_BMP then
        if UNI_SUR_HIGH_START \<le> ch \<and> ch \<le> UNI_SUR_LOW_END then
          if flags = strictConversion then (sourceIllegal, ch # source, target)
          else utf32_utf16_loop flags room result source (target @ [ucast UNI_REPLACEMENT_CHAR])
        else utf32_utf16_loop flags room result source (target @ [ucast ch])
      else if UNI_MAX_LEGAL_UTF32 < ch then
        if flags = strictConversion then utf32_utf16_loop flags room sourceIllegal source target
        else utf32_utf16_loop flags room result source (target @ [ucast UNI_REPLACEMENT_CHAR])
      else if room \<le> length target + 1 then (targetExhausted, ch # source, target)
      else utf32_utf16_loop flags room result source (target @ surrogates ch))"

definition ConvertUTF32toUTF16 :: "ConversionFlags \<Rightarrow> nat \<Rightarrow> UTF32 list
    \<Rightarrow> ConversionResult \<times> UTF32 list \<times> UTF16 list" where
  "ConvertUTF32toUTF16 flags room source = utf32_utf16_loop flags room conversionOK source []"

function utf16_utf32_loop :: "ConversionFlags \<Rightarrow> nat \<Rightarrow> UTF16 list \<Rightarrow> UTF32 list
    \<Rightarrow> ConversionResult \<times> UTF16 list \<times> UTF32 list" where
  "utf16_utf32_loop flags room source target =
     (if source = [] then (conversionOK, [], target)
      else case read_utf16 flags source of
        Inl r \<Rightarrow> (r, source, target)
      | Inr (ch, source2) \<Rightarrow>
          if room \<le> length target then (targetExhausted, source, target)
          else utf16_utf32_loop flags room source2 (target @ [ch]))"
  by pat_completeness auto
termination
  by (relation "measure (\<lambda>(flags, room, source, target). length source)") (auto dest: read_utf16_less)

definition ConvertUTF16toUTF32 :: "ConversionFlags \<Rightarrow> nat \<Rightarrow> UTF16 list
    \<Rightarrow> ConversionResult \<times> UTF16 list \<times> UTF32 list" where
  "ConvertUTF16toUTF32 flags room source = utf16_utf32_loop flags room source []"

text \<open>
  \<^verbatim>\<open>ConvertUTF16toUTF8\<close>: its last branch, a character of \<open>0x110000\<close> or more, cannot be reached by a
  pair of units, but is kept.
\<close>

function utf16_utf8_loop :: "ConversionFlags \<Rightarrow> nat \<Rightarrow> UTF16 list \<Rightarrow> UTF8 list
    \<Rightarrow> ConversionResult \<times> UTF16 list \<times> UTF8 list" where
  "utf16_utf8_loop flags room source target =
     (if source = [] then (conversionOK, [], target)
      else case read_utf16 flags source of
        Inl r \<Rightarrow> (r, source, target)
      | Inr (c, source2) \<Rightarrow>
          let (bytes, ch) = (if c < 0x110000 then (bytesToWrite c, c) else (3, UNI_REPLACEMENT_CHAR)) in
          if room < length target + bytes then (targetExhausted, source, target)
          else utf16_utf8_loop flags room source2 (target @ write_switch bytes bytes ch []))"
  by pat_completeness auto
termination
  by (relation "measure (\<lambda>(flags, room, source, target). length source)") (auto dest: read_utf16_less)

definition ConvertUTF16toUTF8 :: "ConversionFlags \<Rightarrow> nat \<Rightarrow> UTF16 list
    \<Rightarrow> ConversionResult \<times> UTF16 list \<times> UTF8 list" where
  "ConvertUTF16toUTF8 flags room source = utf16_utf8_loop flags room source []"

function utf8_utf16_loop :: "ConversionFlags \<Rightarrow> nat \<Rightarrow> UTF8 list \<Rightarrow> UTF16 list
    \<Rightarrow> ConversionResult \<times> UTF8 list \<times> UTF16 list" where
  "utf8_utf16_loop flags room source target =
     (if source = [] then (conversionOK, [], target)
      else case read_utf8 source of
        Inl r \<Rightarrow> (r, source, target)
      | Inr (ch, source2) \<Rightarrow>
          if room \<le> length target then (targetExhausted, source, target)
          else if ch \<le> UNI_MAX_BMP then
            if UNI_SUR_HIGH_START \<le> ch \<and> ch \<le> UNI_SUR_LOW_END then
              if flags = strictConversion then (sourceIllegal, source, target)
              else utf8_utf16_loop flags room source2 (target @ [ucast UNI_REPLACEMENT_CHAR])
            else utf8_utf16_loop flags room source2 (target @ [ucast ch])
          else if UNI_MAX_UTF16 < ch then
            if flags = strictConversion then (sourceIllegal, source, target)
            else utf8_utf16_loop flags room source2 (target @ [ucast UNI_REPLACEMENT_CHAR])
          else if room \<le> length target + 1 then (targetExhausted, source, target)
          else utf8_utf16_loop flags room source2 (target @ surrogates ch))"
  by pat_completeness auto
termination
  by (relation "measure (\<lambda>(flags, room, source, target). length source)") (auto dest: read_utf8_less)

definition ConvertUTF8toUTF16 :: "ConversionFlags \<Rightarrow> nat \<Rightarrow> UTF8 list
    \<Rightarrow> ConversionResult \<times> UTF8 list \<times> UTF16 list" where
  "ConvertUTF8toUTF16 flags room source = utf8_utf16_loop flags room source []"

fun utf32_utf8_loop :: "ConversionFlags \<Rightarrow> nat \<Rightarrow> ConversionResult \<Rightarrow> UTF32 list \<Rightarrow> UTF8 list
    \<Rightarrow> ConversionResult \<times> UTF32 list \<times> UTF8 list" where
  "utf32_utf8_loop flags room result [] target = (result, [], target)"
| "utf32_utf8_loop flags room result (c # source) target =
     (if flags = strictConversion \<and> UNI_SUR_HIGH_START \<le> c \<and> c \<le> UNI_SUR_LOW_END
      then (sourceIllegal, c # source, target)
      else let (bytes, ch, result2) =
             (if c \<le> UNI_MAX_LEGAL_UTF32 then (bytesToWrite c, c, result)
              else (3, UNI_REPLACEMENT_CHAR, sourceIllegal)) in
        if room < length target + bytes then (targetExhausted, c # source, target)
        else utf32_utf8_loop flags room result2 source (target @ write_switch bytes bytes ch []))"

definition ConvertUTF32toUTF8 :: "ConversionFlags \<Rightarrow> nat \<Rightarrow> UTF32 list
    \<Rightarrow> ConversionResult \<times> UTF32 list \<times> UTF8 list" where
  "ConvertUTF32toUTF8 flags room source = utf32_utf8_loop flags room conversionOK source []"

function utf8_utf32_loop :: "ConversionFlags \<Rightarrow> nat \<Rightarrow> ConversionResult \<Rightarrow> UTF8 list \<Rightarrow> UTF32 list
    \<Rightarrow> ConversionResult \<times> UTF8 list \<times> UTF32 list" where
  "utf8_utf32_loop flags room result source target =
     (if source = [] then (result, [], target)
      else case read_utf8 source of
        Inl r \<Rightarrow> (r, source, target)
      | Inr (ch, source2) \<Rightarrow>
          if room \<le> length target then (targetExhausted, source, target)
          else if ch \<le> UNI_MAX_LEGAL_UTF32 then
            if UNI_SUR_HIGH_START \<le> ch \<and> ch \<le> UNI_SUR_LOW_END then
              if flags = strictConversion then (sourceIllegal, source, target)
              else utf8_utf32_loop flags room result source2 (target @ [UNI_REPLACEMENT_CHAR])
            else utf8_utf32_loop flags room result source2 (target @ [ch])
          else utf8_utf32_loop flags room sourceIllegal source2 (target @ [UNI_REPLACEMENT_CHAR]))"
  by pat_completeness auto
termination
  by (relation "measure (\<lambda>(flags, room, result, source, target). length source)") (auto dest: read_utf8_less)

definition ConvertUTF8toUTF32 :: "ConversionFlags \<Rightarrow> nat \<Rightarrow> UTF8 list
    \<Rightarrow> ConversionResult \<times> UTF8 list \<times> UTF32 list" where
  "ConvertUTF8toUTF32 flags room source = utf8_utf32_loop flags room conversionOK source []"

declare utf16_utf32_loop.simps [simp del] utf16_utf8_loop.simps [simp del] utf8_utf16_loop.simps [simp del]
  utf8_utf32_loop.simps [simp del]

section \<open>The encodings\<close>

text \<open>
  The encoding forms of the Unicode standard on scalar values, as arithmetic on natural numbers.
\<close>

definition scalar :: "nat \<Rightarrow> bool" where
  "scalar cp \<longleftrightarrow> cp < 0xD800 \<or> (0xDFFF < cp \<and> cp \<le> 0x10FFFF)"

definition utf8_enc :: "nat \<Rightarrow> UTF8 list" where
  "utf8_enc cp = map word_of_nat
     (if cp < 0x80 then [cp]
      else if cp < 0x800 then [0xC0 + cp div 64, 0x80 + cp mod 64]
      else if cp < 0x10000 then [0xE0 + cp div 4096, 0x80 + cp div 64 mod 64, 0x80 + cp mod 64]
      else [0xF0 + cp div 262144, 0x80 + cp div 4096 mod 64, 0x80 + cp div 64 mod 64, 0x80 + cp mod 64])"

definition utf16_enc :: "nat \<Rightarrow> UTF16 list" where
  "utf16_enc cp = map word_of_nat
     (if cp < 0x10000 then [cp]
      else [0xD800 + (cp - 0x10000) div 1024, 0xDC00 + (cp - 0x10000) mod 1024])"

definition utf32_enc :: "nat \<Rightarrow> UTF32" where
  "utf32_enc cp = word_of_nat cp"

lemma scalar_less: "scalar cp \<Longrightarrow> cp < 0x110000"
  by (auto simp: scalar_def)

lemma unat_utf32_enc: "scalar cp \<Longrightarrow> unat (utf32_enc cp) = cp"
  using scalar_less [of cp] by (simp add: utf32_enc_def unat_of_nat)

lemmas utf_consts = UNI_REPLACEMENT_CHAR_def UNI_MAX_BMP_def UNI_MAX_UTF16_def UNI_MAX_LEGAL_UTF32_def
  halfShift_def halfBase_def halfMask_def UNI_SUR_HIGH_START_def UNI_SUR_HIGH_END_def
  UNI_SUR_LOW_START_def UNI_SUR_LOW_END_def

lemmas word_nat = word_le_nat_alt word_less_nat_alt word_unat_eq_iff

text \<open>Comparisons of a scalar value with the constants of the code are those of numbers.\<close>

lemma enc_cmp:
  assumes "scalar cp"
  shows "utf32_enc cp \<le> UNI_MAX_LEGAL_UTF32" "utf32_enc cp \<le> UNI_MAX_UTF16"
    "utf32_enc cp \<le> UNI_MAX_BMP \<longleftrightarrow> cp < 0x10000"
    "\<not> (UNI_SUR_HIGH_START \<le> utf32_enc cp \<and> utf32_enc cp \<le> UNI_SUR_LOW_END)"
    "\<not> (UNI_SUR_HIGH_START \<le> utf32_enc cp \<and> utf32_enc cp \<le> UNI_SUR_HIGH_END)"
    "\<not> (UNI_SUR_LOW_START \<le> utf32_enc cp \<and> utf32_enc cp \<le> UNI_SUR_LOW_END)"
    "utf32_enc cp < 0x110000"
    "bytesToWrite (utf32_enc cp) = length (utf8_enc cp)"
  using assms unat_utf32_enc [OF assms]
  by (auto simp: word_nat utf_consts scalar_def bytesToWrite_def utf8_enc_def)

lemma enc_not_above:
  assumes "scalar cp"
  shows "\<not> UNI_MAX_LEGAL_UTF32 < utf32_enc cp" "\<not> UNI_MAX_UTF16 < utf32_enc cp"
  using enc_cmp(1,2) [OF assms] by (simp_all add: not_less)

section \<open>Writing is encoding\<close>

lemma or_disjoint: "x AND y = 0 \<Longrightarrow> x OR y = x + (y :: 'a::len word)"
  using word_plus_and_or [of x y] by simp

lemma unat_and_3F: "unat ((w :: UTF8) AND 0x3F) = unat w mod 64"
proof -
  have "w AND mask 6 = take_bit 6 w" by (simp add: take_bit_eq_mask)
  then show ?thesis by (simp add: mask_eq_exp_minus_1 unsigned_take_bit_eq take_bit_eq_mod unat_mod)
qed

lemma byte_eqI: "(\<And>n. n \<in> {0, 1, 2, 3, 4, 5, 6, 7} \<Longrightarrow> bit x n = bit y n) \<Longrightarrow> x = (y :: UTF8)"
proof (rule bit_word_eqI)
  fix n
  assume eq: "\<And>n. n \<in> {0, 1, 2, 3, 4, 5, 6, 7} \<Longrightarrow> bit x n = bit y n" and n: "n < LENGTH(8)"
  have "n \<in> {0, 1, 2, 3, 4, 5, 6, 7}" using n by simp linarith
  then show "bit x n = bit y n" by (rule eq)
qed

lemma cont_byte: "ucast (((ch :: UTF32) OR 0x80) AND 0xBF) = (word_of_nat (0x80 + unat ch mod 64) :: UTF8)"
proof -
  have "ucast ((ch OR 0x80) AND 0xBF) = (0x80 OR (ucast ch AND 0x3F) :: UTF8)"
    by (rule byte_eqI) (auto simp: bit_simps)
  also have "\<dots> = 0x80 + (ucast ch AND 0x3F)"
    by (rule or_disjoint) (rule byte_eqI, auto simp: bit_simps)
  finally show ?thesis
    by (simp add: word_unat_eq_iff unat_word_ariths unat_and_3F unsigned_ucast_eq take_bit_eq_mod unat_of_nat
        mod_mod_cancel)
qed

text \<open>The first byte: the mark and the bits that are left.\<close>

lemma or_shifted:
  fixes ch :: "'a::len word"
  assumes "unat ch < 2 ^ k"
  shows "ch OR push_bit k m = ch + push_bit k m"
proof (rule or_disjoint)
  have "take_bit k ch = ch"
    using assms by (simp add: word_unat_eq_iff unsigned_take_bit_eq take_bit_nat_eq_self)
  then have "\<not> (bit ch n \<and> k \<le> n)" for n using bit_take_bit_iff [of k ch n] by auto
  then show "ch AND push_bit k m = 0"
    by (auto intro!: bit_eqI simp: bit_and_iff bit_push_bit_iff)
qed

lemma mark_byte:
  "unat ch < 0x80 \<Longrightarrow> ucast ((ch :: UTF32) OR ucast (firstByteMark ! 1)) = (word_of_nat (unat ch) :: UTF8)"
  "unat ch < 0x20 \<Longrightarrow> ucast (ch OR ucast (firstByteMark ! 2)) = (word_of_nat (0xC0 + unat ch) :: UTF8)"
  "unat ch < 0x10 \<Longrightarrow> ucast (ch OR ucast (firstByteMark ! 3)) = (word_of_nat (0xE0 + unat ch) :: UTF8)"
  "unat ch < 0x8 \<Longrightarrow> ucast (ch OR ucast (firstByteMark ! 4)) = (word_of_nat (0xF0 + unat ch) :: UTF8)"
  using or_shifted [of ch 5 6] or_shifted [of ch 4 14] or_shifted [of ch 3 30]
  by (simp_all add: firstByteMark_def push_bit_eq_mult word_unat_eq_iff unsigned_ucast_eq unat_word_ariths
      unat_of_nat take_bit_eq_mod)

lemma unat_shift: "unat (drop_bit n (ch :: UTF32)) = unat ch div 2 ^ n"
  using unsigned_less [of ch, where 'a = nat]
  by (simp only: unsigned_drop_bit_eq) (simp add: take_bit_eq_mod drop_bit_eq_div)

lemma ucast_enc: "scalar cp \<Longrightarrow> ucast (utf32_enc cp) = (word_of_nat cp :: 'a::len word)"
  by (metis of_nat_unat unat_utf32_enc)

lemma write_switch_unrolled:
  "write_switch bytes 2 ch acc = write_switch bytes 1 (drop_bit 6 ch) (ucast ((ch OR 0x80) AND 0xBF) # acc)"
  "write_switch bytes 3 ch acc = write_switch bytes 2 (drop_bit 6 ch) (ucast ((ch OR 0x80) AND 0xBF) # acc)"
  "write_switch bytes 4 ch acc = write_switch bytes 3 (drop_bit 6 ch) (ucast ((ch OR 0x80) AND 0xBF) # acc)"
  by (simp_all add: numeral_eq_Suc)

lemma write_is_encoding:
  assumes "scalar cp"
  shows "write_switch (length (utf8_enc cp)) (length (utf8_enc cp)) (utf32_enc cp) [] = utf8_enc cp"
proof -
  note v = unat_utf32_enc [OF assms]
  have less: "cp < 0x110000" using scalar_less [OF assms] .
  consider "cp < 0x80" | "0x80 \<le> cp" "cp < 0x800" | "0x800 \<le> cp" "cp < 0x10000" | "0x10000 \<le> cp"
    by linarith
  then show ?thesis
  proof cases
    case 1
    then show ?thesis using v mark_byte(1) [of "utf32_enc cp"] ucast_enc [OF assms] by (simp add: utf8_enc_def)
  next
    case 2
    then have len: "length (utf8_enc cp) = 2" by (simp add: utf8_enc_def)
    show ?thesis
      unfolding len using 2 v mark_byte(2) [of "drop_bit 6 (utf32_enc cp)"]
      by (simp add: utf8_enc_def write_switch_unrolled cont_byte unat_shift)
  next
    case 3
    then have len: "length (utf8_enc cp) = 3" by (simp add: utf8_enc_def)
    show ?thesis
      unfolding len using 3 v mark_byte(3) [of "drop_bit 6 (drop_bit 6 (utf32_enc cp))"]
      by (simp add: utf8_enc_def write_switch_unrolled cont_byte unat_shift)
  next
    case 4
    then have len: "length (utf8_enc cp) = 4" by (simp add: utf8_enc_def)
    show ?thesis
      unfolding len using 4 v mark_byte(4) [of "drop_bit 6 (drop_bit 6 (drop_bit 6 (utf32_enc cp)))"] less
      by (simp add: utf8_enc_def write_switch_unrolled cont_byte unat_shift)
  qed
qed

section \<open>Reading is decoding\<close>

lemma ucast_byte: "n < 256 \<Longrightarrow> ucast (word_of_nat n :: UTF8) = (word_of_nat n :: UTF32)"
  by (simp add: word_unat_eq_iff unsigned_ucast_eq unat_of_nat take_bit_eq_mod)

lemma unat_byte: "n < 256 \<Longrightarrow> unat (word_of_nat n :: UTF8) = n"
  by (simp add: unat_of_nat)

lemma trailing_bytes:
  "n < 192 \<Longrightarrow> trailingBytesForUTF8 ! n = 0"
  "192 \<le> n \<Longrightarrow> n < 224 \<Longrightarrow> trailingBytesForUTF8 ! n = 1"
  "224 \<le> n \<Longrightarrow> n < 240 \<Longrightarrow> trailingBytesForUTF8 ! n = 2"
  "240 \<le> n \<Longrightarrow> n < 248 \<Longrightarrow> trailingBytesForUTF8 ! n = 3"
  "248 \<le> n \<Longrightarrow> n < 256 \<Longrightarrow> 4 \<le> trailingBytesForUTF8 ! n"
  by (simp_all add: trailingBytesForUTF8_def nth_append) linarith+

text \<open>
  The byte sequences that \<^verbatim>\<open>isLegalUTF8\<close> takes, by their length, and the values the code computes from
  them. After a first byte \<open>0xED\<close> or \<open>0xF4\<close> only the upper bound of the second byte is checked.
\<close>

fun legal_bytes :: "nat list \<Rightarrow> bool" where
  "legal_bytes [a] = (a < 0x80)"
| "legal_bytes [a, b] = (0xC2 \<le> a \<and> a < 0xE0 \<and> 0x80 \<le> b \<and> b < 0xC0)"
| "legal_bytes [a, b, c] =
     (0xE0 \<le> a \<and> a < 0xF0
      \<and> (if a = 0xE0 then 0xA0 \<le> b \<and> b < 0xC0 else if a = 0xED then b < 0xA0 else 0x80 \<le> b \<and> b < 0xC0)
      \<and> 0x80 \<le> c \<and> c < 0xC0)"
| "legal_bytes [a, b, c, d] =
     (0xF0 \<le> a \<and> a < 0xF5
      \<and> (if a = 0xF0 then 0x90 \<le> b \<and> b < 0xC0 else if a = 0xF4 then b < 0x90 else 0x80 \<le> b \<and> b < 0xC0)
      \<and> 0x80 \<le> c \<and> c < 0xC0 \<and> 0x80 \<le> d \<and> d < 0xC0)"
| "legal_bytes _ = False"

fun value_of :: "nat list \<Rightarrow> nat" where
  "value_of [a] = a"
| "value_of [a, b] = a * 64 + b - 0x3080"
| "value_of [a, b, c] = a * 4096 + b * 64 + c - 0xE2080"
| "value_of [a, b, c, d] = a * 262144 + b * 4096 + c * 64 + d - 0x3C82080"
| "value_of _ = 0"

lemma byte_cmp:
  "n < 256 \<Longrightarrow> (word_of_nat n :: UTF8) < 0x80 \<longleftrightarrow> n < 0x80"
  "n < 256 \<Longrightarrow> 0x80 \<le> (word_of_nat n :: UTF8) \<longleftrightarrow> 0x80 \<le> n"
  "n < 256 \<Longrightarrow> 0xBF < (word_of_nat n :: UTF8) \<longleftrightarrow> 0xBF < n"
  "n < 256 \<Longrightarrow> (word_of_nat n :: UTF8) < 0xC2 \<longleftrightarrow> n < 0xC2"
  "n < 256 \<Longrightarrow> 0xF4 < (word_of_nat n :: UTF8) \<longleftrightarrow> 0xF4 < n"
  "n < 256 \<Longrightarrow> (word_of_nat n :: UTF8) < 0xA0 \<longleftrightarrow> n < 0xA0"
  "n < 256 \<Longrightarrow> 0x9F < (word_of_nat n :: UTF8) \<longleftrightarrow> 0x9F < n"
  "n < 256 \<Longrightarrow> (word_of_nat n :: UTF8) < 0x90 \<longleftrightarrow> n < 0x90"
  "n < 256 \<Longrightarrow> 0x8F < (word_of_nat n :: UTF8) \<longleftrightarrow> 0x8F < n"
  "n < 256 \<Longrightarrow> (word_of_nat n :: UTF8) = 0xE0 \<longleftrightarrow> n = 0xE0"
  "n < 256 \<Longrightarrow> (word_of_nat n :: UTF8) = 0xED \<longleftrightarrow> n = 0xED"
  "n < 256 \<Longrightarrow> (word_of_nat n :: UTF8) = 0xF0 \<longleftrightarrow> n = 0xF0"
  "n < 256 \<Longrightarrow> (word_of_nat n :: UTF8) = 0xF4 \<longleftrightarrow> n = 0xF4"
  by (simp_all add: word_nat unat_of_nat)

lemma legal_second_nat:
  "a < 256 \<Longrightarrow> b < 256 \<Longrightarrow> legal_second (word_of_nat a) (word_of_nat b)
     \<longleftrightarrow> b < 0xC0 \<and> (if a = 0xE0 then 0xA0 \<le> b else if a = 0xED then b < 0xA0
           else if a = 0xF0 then 0x90 \<le> b else if a = 0xF4 then b < 0x90 else 0x80 \<le> b)"
  by (auto simp: legal_second_def byte_cmp)

text \<open>\<^verbatim>\<open>isLegalUTF8\<close> on the bytes that the table announces.\<close>

lemma isLegalUTF8_nat:
  "a < 192 \<Longrightarrow> isLegalUTF8 (word_of_nat a # r) 1 = legal_bytes [a]"
  "192 \<le> a \<Longrightarrow> a < 224 \<Longrightarrow> b < 256 \<Longrightarrow>
     isLegalUTF8 (word_of_nat a # word_of_nat b # r) 2 = legal_bytes [a, b]"
  "224 \<le> a \<Longrightarrow> a < 240 \<Longrightarrow> b < 256 \<Longrightarrow> c < 256 \<Longrightarrow>
     isLegalUTF8 (word_of_nat a # word_of_nat b # word_of_nat c # r) 3 = legal_bytes [a, b, c]"
  "240 \<le> a \<Longrightarrow> a < 248 \<Longrightarrow> b < 256 \<Longrightarrow> c < 256 \<Longrightarrow> d < 256 \<Longrightarrow>
     isLegalUTF8 (word_of_nat a # word_of_nat b # word_of_nat c # word_of_nat d # r) 4 = legal_bytes [a, b, c, d]"
  by (auto simp: isLegalUTF8_def byte_cmp legal_second_nat)

lemma push6_nat: "push_bit 6 (word_of_nat n :: UTF32) = word_of_nat (n * 64)"
  by (simp add: push_bit_eq_mult)

lemma read_switch_value:
  "a < 256 \<Longrightarrow> read_switch 0 0 (word_of_nat a # r) = (word_of_nat a, r)"
  "a < 256 \<Longrightarrow> b < 256 \<Longrightarrow> read_switch 1 0 (word_of_nat a # word_of_nat b # r) = (word_of_nat (a * 64 + b), r)"
  "a < 256 \<Longrightarrow> b < 256 \<Longrightarrow> c < 256 \<Longrightarrow>
     read_switch 2 0 (word_of_nat a # word_of_nat b # word_of_nat c # r)
       = (word_of_nat (a * 4096 + b * 64 + c), r)"
  "a < 256 \<Longrightarrow> b < 256 \<Longrightarrow> c < 256 \<Longrightarrow> d < 256 \<Longrightarrow>
     read_switch 3 0 (word_of_nat a # word_of_nat b # word_of_nat c # word_of_nat d # r)
       = (word_of_nat (a * 262144 + b * 4096 + c * 64 + d), r)"
  by (simp_all add: numeral_2_eq_2 numeral_3_eq_3 ucast_byte push_bit_eq_mult algebra_simps)

lemma minus_nat: "k \<le> n \<Longrightarrow> word_of_nat n - word_of_nat k = (word_of_nat (n - k) :: UTF32)"
  by (simp add: of_nat_diff)

lemma read_utf8_legal:
  assumes "legal_bytes ns"
  shows "read_utf8 (map word_of_nat ns @ r) = Inr (utf32_enc (value_of ns), r)"
proof -
  consider a where "ns = [a]" | a b where "ns = [a, b]" | a b c where "ns = [a, b, c]"
    | a b c d where "ns = [a, b, c, d]"
    using assms by (cases ns rule: legal_bytes.cases) auto
  then show ?thesis
  proof cases
    case 1
    then have "a < 0x80" using assms by simp
    then show ?thesis
      using 1 isLegalUTF8_nat(1) [of a r]
      by (simp add: read_utf8_def unat_byte trailing_bytes ucast_byte offsetsFromUTF8_def utf32_enc_def)
  next
    case 2
    then have "192 \<le> a" "a < 224" "b < 256" "0x3080 \<le> a * 64 + b" using assms by auto
    then show ?thesis
      using 2 assms isLegalUTF8_nat(2) [of a b r] read_switch_value(2) [of a b r] minus_nat [of "0x3080" "a * 64 + b"]
      by (simp add: read_utf8_def unat_byte trailing_bytes offsetsFromUTF8_def utf32_enc_def numeral_2_eq_2)
  next
    case 3
    then have "224 \<le> a" "a < 240" "b < 256" "c < 256" "0xE2080 \<le> a * 4096 + b * 64 + c"
      using assms by (auto split: if_splits)
    then show ?thesis
      using 3 assms isLegalUTF8_nat(3) [of a b c r] read_switch_value(3) [of a b c r]
        minus_nat [of "0xE2080" "a * 4096 + b * 64 + c"]
      by (simp add: read_utf8_def unat_byte trailing_bytes offsetsFromUTF8_def utf32_enc_def numeral_3_eq_3 numeral_2_eq_2)
  next
    case 4
    then have "240 \<le> a" "a < 248" "b < 256" "c < 256" "d < 256" "0x3C82080 \<le> a * 262144 + b * 4096 + c * 64 + d"
      using assms by (auto split: if_splits)
    then show ?thesis
      using 4 assms isLegalUTF8_nat(4) [of a b c d r] read_switch_value(4) [of a b c d r]
        minus_nat [of "0x3C82080" "a * 262144 + b * 4096 + c * 64 + d"]
      by (simp add: read_utf8_def unat_byte trailing_bytes offsetsFromUTF8_def utf32_enc_def)
  qed
qed

text \<open>Every list of units is one of numbers.\<close>

lemma byte_nat: "\<exists>n < 256. (x :: UTF8) = word_of_nat n"
proof (intro exI conjI)
  show "unat x < 256" using unsigned_less [of x, where 'a = nat] by simp
  show "x = word_of_nat (unat x)" by simp
qed

lemma isLegalUTF8_len: "isLegalUTF8 source n \<Longrightarrow> n \<le> 4"
  by (simp add: isLegalUTF8_def)

lemma read_utf8_is_legal:
  assumes ne: "source \<noteq> []" and read: "read_utf8 source = Inr (ch, r)"
  shows "\<exists>ns. legal_bytes ns \<and> source = map word_of_nat ns @ r \<and> ch = utf32_enc (value_of ns)"
proof -
  obtain x xs where x: "source = x # xs" using ne by (cases source) auto
  obtain a where a: "a < 256" "x = word_of_nat a" using byte_nat by blast
  let ?e = "trailingBytesForUTF8 ! a"
  have len: "?e \<le> length xs" and legal: "isLegalUTF8 source (?e + 1)"
    using read x a by (auto simp: read_utf8_def unat_byte Let_def split: if_splits)
  have e: "?e < 4" using isLegalUTF8_len [OF legal] by simp
  have "\<exists>ns r2. legal_bytes ns \<and> source = map word_of_nat ns @ r2"
  proof -
    consider "a < 192" | "192 \<le> a" "a < 224" | "224 \<le> a" "a < 240" | "240 \<le> a" "a < 248" | "248 \<le> a"
      by linarith
    then show ?thesis
    proof cases
      case 1
      then have "legal_bytes [a]"
        using legal isLegalUTF8_nat(1) [of a xs] x a trailing_bytes(1) [of a] by simp
      then show ?thesis using x a by (intro exI [of _ "[a]"]) simp
    next
      case 2
      then obtain y r2 where y: "xs = y # r2" using len trailing_bytes(2) by (cases xs) auto
      obtain b where b: "b < 256" "y = word_of_nat b" using byte_nat by blast
      have "legal_bytes [a, b]"
        using legal isLegalUTF8_nat(2) [OF 2 b(1), of r2] x a y b trailing_bytes(2) [OF 2]
        by (simp add: numeral_2_eq_2)
      then show ?thesis using x a y b by (intro exI [of _ "[a, b]"]) simp
    next
      case 3
      then obtain y z r2 where y: "xs = y # z # r2"
        using len trailing_bytes(3) by (cases xs; cases "tl xs") auto
      obtain b c where b: "b < 256" "y = word_of_nat b" "c < 256" "z = word_of_nat c" using byte_nat by meson
      have "legal_bytes [a, b, c]"
        using legal isLegalUTF8_nat(3) [OF 3 b(1,3), of r2] x a y b trailing_bytes(3) [OF 3]
        by (simp add: numeral_3_eq_3 numeral_2_eq_2)
      then show ?thesis using x a y b by (intro exI [of _ "[a, b, c]"]) simp
    next
      case 4
      then have e3: "?e = 3" by (rule trailing_bytes(4))
      then obtain y z u r2 where y: "xs = y # z # u # r2"
        using len by (cases xs; cases "tl xs"; cases "tl (tl xs)") auto
      obtain b c d where b: "b < 256" "y = word_of_nat b" "c < 256" "z = word_of_nat c" "d < 256" "u = word_of_nat d"
        using byte_nat by meson
      have "legal_bytes [a, b, c, d]"
        using legal isLegalUTF8_nat(4) [OF 4 b(1,3,5), of r2] x a y b e3 by simp
      then show ?thesis using x a y b by (intro exI [of _ "[a, b, c, d]"]) simp
    next
      case 5
      then show ?thesis using e trailing_bytes(5) [of a] a by simp
    qed
  qed
  then obtain ns r2 where ns: "legal_bytes ns" "source = map word_of_nat ns @ r2" by blast
  then show ?thesis using read_utf8_legal [OF ns(1), of r2] read by auto
qed

section \<open>Legal sequences and the standard\<close>

text \<open>
  The sequences beyond the standard: a first byte \<open>0xED\<close> or \<open>0xF4\<close> and a second byte below \<open>0x80\<close>.
\<close>

fun ill_formed :: "nat list \<Rightarrow> bool" where
  "ill_formed [a, b, c] = (a = 0xED \<and> b < 0x80 \<and> 0x80 \<le> c \<and> c < 0xC0)"
| "ill_formed [a, b, c, d] = (a = 0xF4 \<and> b < 0x80 \<and> 0x80 \<le> c \<and> c < 0xC0 \<and> 0x80 \<le> d \<and> d < 0xC0)"
| "ill_formed _ = False"

lemma ill_formed_legal: "ill_formed ns \<Longrightarrow> legal_bytes ns \<and> scalar (value_of ns)"
  by (cases ns rule: ill_formed.cases) (auto simp: scalar_def)

lemma div_mod_split: "r < k \<Longrightarrow> (q * k + r) div k = (q :: nat)" "r < k \<Longrightarrow> (q * k + r) mod k = r"
  by simp_all

text \<open>Two and more bytes by their payloads.\<close>

lemma utf8_enc_parts:
  "2 \<le> p \<Longrightarrow> p < 32 \<Longrightarrow> q < 64 \<Longrightarrow> utf8_enc (p * 64 + q) = map word_of_nat [0xC0 + p, 0x80 + q]"
  "p < 16 \<Longrightarrow> q < 64 \<Longrightarrow> t < 64 \<Longrightarrow> 0x800 \<le> p * 4096 + q * 64 + t
     \<Longrightarrow> utf8_enc (p * 4096 + q * 64 + t) = map word_of_nat [0xE0 + p, 0x80 + q, 0x80 + t]"
  "p < 8 \<Longrightarrow> q < 64 \<Longrightarrow> t < 64 \<Longrightarrow> u < 64 \<Longrightarrow> 0x10000 \<le> p * 262144 + q * 4096 + t * 64 + u
     \<Longrightarrow> utf8_enc (p * 262144 + q * 4096 + t * 64 + u)
       = map word_of_nat [0xF0 + p, 0x80 + q, 0x80 + t, 0x80 + u]"
proof -
  assume p: "2 \<le> p" "p < 32" "q < 64"
  then have "\<not> p * 64 + q < 0x80" "p * 64 + q < 0x800" by linarith+
  then show "utf8_enc (p * 64 + q) = map word_of_nat [0xC0 + p, 0x80 + q]"
    using p div_mod_split [of q 64 p] unfolding utf8_enc_def by simp
next
  assume p: "p < 16" "q < 64" "t < 64" "0x800 \<le> p * 4096 + q * 64 + t"
  let ?v = "p * 4096 + q * 64 + t"
  have v: "?v = (p * 64 + q) * 64 + t" by simp
  have "?v div 64 = p * 64 + q" "?v mod 64 = t"
    unfolding v using p div_mod_split [of t 64 "p * 64 + q"] by blast+
  moreover from this have "?v div 4096 = p" "?v div 64 mod 64 = q"
    using p div_mod_split [of q 64 p] div_mult2_eq [of ?v 64 64] by simp_all
  moreover have "?v < 0x10000" using p by linarith
  ultimately show "utf8_enc ?v = map word_of_nat [0xE0 + p, 0x80 + q, 0x80 + t]"
    using p(4) unfolding utf8_enc_def by simp
next
  assume p: "p < 8" "q < 64" "t < 64" "u < 64" "0x10000 \<le> p * 262144 + q * 4096 + t * 64 + u"
  let ?v = "p * 262144 + q * 4096 + t * 64 + u"
  have v: "?v = ((p * 64 + q) * 64 + t) * 64 + u" by simp
  have 1: "?v div 64 = (p * 64 + q) * 64 + t" "?v mod 64 = u"
    unfolding v using p div_mod_split [of u 64 "(p * 64 + q) * 64 + t"] by blast+
  have 2: "?v div 4096 = p * 64 + q" "?v div 64 mod 64 = t"
    using 1 p div_mod_split [of t 64 "p * 64 + q"] div_mult2_eq [of ?v 64 64] by simp_all
  have "?v div 262144 = p" "?v div 4096 mod 64 = q"
    using 2 p div_mod_split [of q 64 p] div_mult2_eq [of ?v 4096 64] by simp_all
  with 1 2 show "utf8_enc ?v = map word_of_nat [0xF0 + p, 0x80 + q, 0x80 + t, 0x80 + u]"
    using p(5) unfolding utf8_enc_def by simp
qed

lemma legal_is_enc:
  assumes "legal_bytes ns" "\<not> ill_formed ns"
  shows "scalar (value_of ns) \<and> map word_of_nat ns = utf8_enc (value_of ns)"
proof -
  consider a where "ns = [a]" | a b where "ns = [a, b]" | a b c where "ns = [a, b, c]"
    | a b c d where "ns = [a, b, c, d]"
    using assms(1) by (cases ns rule: legal_bytes.cases) auto
  then show ?thesis
  proof cases
    case 1
    then show ?thesis using assms by (simp add: scalar_def utf8_enc_def)
  next
    case 2
    define p q where "p = a - 0xC0" and "q = b - 0x80"
    have ab: "a = 0xC0 + p" "b = 0x80 + q" "2 \<le> p" "p < 32" "q < 64"
      using assms 2 by (auto simp: p_def q_def)
    have v: "value_of ns = p * 64 + q" using ab 2 by simp
    show ?thesis
      unfolding v using utf8_enc_parts(1) [OF ab(3-5)] ab 2 by (simp add: scalar_def)
  next
    case 3
    define p q t where "p = a - 0xE0" and "q = b - 0x80" and "t = c - 0x80"
    have ab: "a = 0xE0 + p" "b = 0x80 + q" "c = 0x80 + t" "p < 16" "q < 64" "t < 64"
        "0x800 \<le> p * 4096 + q * 64 + t" "p = 13 \<Longrightarrow> q < 32"
      using assms 3 by (auto simp: p_def q_def t_def split: if_splits)
    have v: "value_of ns = p * 4096 + q * 64 + t" using ab 3 by simp
    have "scalar (p * 4096 + q * 64 + t)"
    proof (cases "p \<le> 12")
      case True
      then show ?thesis using ab by (simp add: scalar_def)
    next
      case False
      then show ?thesis using ab by (cases "p = 13") (auto simp: scalar_def)
    qed
    then show ?thesis
      unfolding v using utf8_enc_parts(2) [OF ab(4-7)] ab 3 by simp
  next
    case 4
    define p q t u where "p = a - 0xF0" and "q = b - 0x80" and "t = c - 0x80" and "u = d - 0x80"
    have ab: "a = 0xF0 + p" "b = 0x80 + q" "c = 0x80 + t" "d = 0x80 + u" "p < 8" "q < 64" "t < 64" "u < 64"
        "0x10000 \<le> p * 262144 + q * 4096 + t * 64 + u" "p \<le> 4" "p = 4 \<Longrightarrow> q < 16"
      using assms 4 by (auto simp: p_def q_def t_def u_def split: if_splits)
    have v: "value_of ns = p * 262144 + q * 4096 + t * 64 + u" using ab 4 by simp
    have "p * 262144 + q * 4096 + t * 64 + u \<le> 0x10FFFF"
    proof (cases "p = 4")
      case True
      then show ?thesis using ab(6-8,11) by simp
    next
      case False
      then show ?thesis using ab(6-8,10) by simp
    qed
    then show ?thesis
      unfolding v using utf8_enc_parts(3) [OF ab(5-9)] ab 4 by (simp add: scalar_def)
  qed
qed

lemma legal_scalar: "legal_bytes ns \<Longrightarrow> scalar (value_of ns)"
  using legal_is_enc ill_formed_legal by blast

lemma enc_is_legal:
  assumes "scalar cp"
  shows "\<exists>ns. legal_bytes ns \<and> \<not> ill_formed ns \<and> value_of ns = cp \<and> utf8_enc cp = map word_of_nat ns"
proof -
  have less: "cp < 0x110000" using scalar_less [OF assms] .
  consider "cp < 0x80" | "0x80 \<le> cp" "cp < 0x800" | "0x800 \<le> cp" "cp < 0x10000" | "0x10000 \<le> cp"
    by linarith
  then show ?thesis
  proof cases
    case 1
    then show ?thesis by (intro exI [of _ "[cp]"]) (simp add: utf8_enc_def)
  next
    case 2
    let ?p = "cp div 64" and ?q = "cp mod 64"
    have "2 \<le> ?p" "?p < 32" using 2 by linarith+
    moreover have "?p * 64 + ?q = cp" by (rule div_mult_mod_eq)
    ultimately show ?thesis
      using 2 by (intro exI [of _ "[0xC0 + ?p, 0x80 + ?q]"]) (simp add: utf8_enc_def)
  next
    case 3
    let ?p = "cp div 4096" and ?q = "cp div 64 mod 64" and ?t = "cp mod 64"
    have d: "cp div 4096 = cp div 64 div 64" by (simp add: div_mult2_eq [symmetric])
    have v: "?p * 4096 + ?q * 64 + ?t = cp"
      unfolding d using div_mult_mod_eq [of "cp div 64" 64] div_mult_mod_eq [of cp 64] by linarith
    have p: "?p < 16" and small: "?p = 0 \<Longrightarrow> cp div 64 < 64" using 3 by linarith+
    have "?q < 64" "?t < 64" by simp_all
    then have "?p = 0 \<Longrightarrow> 32 \<le> ?q" "?p = 13 \<Longrightarrow> ?q < 32"
      using v 3 assms unfolding scalar_def by linarith+
    then show ?thesis
      using v p 3 small by (intro exI [of _ "[0xE0 + ?p, 0x80 + ?q, 0x80 + ?t]"]) (simp add: utf8_enc_def)
  next
    case 4
    let ?p = "cp div 262144" and ?q = "cp div 4096 mod 64" and ?t = "cp div 64 mod 64" and ?u = "cp mod 64"
    have d: "cp div 262144 = cp div 4096 div 64" "cp div 4096 = cp div 64 div 64"
      by (simp_all add: div_mult2_eq [symmetric])
    have v: "?p * 262144 + ?q * 4096 + ?t * 64 + ?u = cp"
      unfolding d(1) using div_mult_mod_eq [of "cp div 4096" 64] div_mult_mod_eq [of "cp div 64" 64, folded d(2)]
        div_mult_mod_eq [of cp 64] by linarith
    have p: "?p \<le> 4" and small: "?p = 0 \<Longrightarrow> cp div 4096 < 64" using less by linarith+
    have "?q < 64" "?t < 64" "?u < 64" by simp_all
    then have "?p = 0 \<Longrightarrow> 16 \<le> ?q" "?p = 4 \<Longrightarrow> ?q < 16"
      using v 4 less by linarith+
    then show ?thesis
      using v p 4 small by (intro exI [of _ "[0xF0 + ?p, 0x80 + ?q, 0x80 + ?t, 0x80 + ?u]"]) (simp add: utf8_enc_def)
  qed
qed

lemma read_utf8_enc: "scalar cp \<Longrightarrow> read_utf8 (utf8_enc cp @ r) = Inr (utf32_enc cp, r)"
  using enc_is_legal read_utf8_legal by fastforce

lemma utf8_enc_nonempty [simp]: "utf8_enc cp \<noteq> []"
  by (simp add: utf8_enc_def)

section \<open>UTF-16\<close>

lemma unat_and_3FF: "unat ((w :: UTF32) AND halfMask) = unat w mod 1024"
proof -
  have "w AND mask 10 = take_bit 10 w" by (simp add: take_bit_eq_mask)
  then show ?thesis by (simp add: halfMask_def mask_eq_exp_minus_1 take_bit_eq_mod unat_mod)
qed

lemma ucast_unit: "n < 0x10000 \<Longrightarrow> ucast (word_of_nat n :: UTF16) = (word_of_nat n :: UTF32)"
  by (simp add: word_unat_eq_iff unsigned_ucast_eq unat_of_nat take_bit_eq_mod)

lemma surrogates_enc:
  assumes "scalar cp" "0x10000 \<le> cp"
  shows "surrogates (utf32_enc cp) = utf16_enc cp"
proof -
  define x where "x = cp - 0x10000"
  have x: "x < 0x100000" "cp = 0x10000 + x" using assms(2) scalar_less [OF assms(1)] by (simp_all add: x_def)
  have ch: "utf32_enc cp - halfBase = word_of_nat x" by (simp add: utf32_enc_def halfBase_def x(2))
  have u: "unat (word_of_nat x :: UTF32) = x" using x(1) by (simp add: unat_of_nat)
  have less: "x div 1024 < 1024" using x(1) by linarith
  have "unat (drop_bit 10 (word_of_nat x :: UTF32) + 0xD800) = 0xD800 + x div 1024"
    using less unfolding unat_word_ariths unat_shift u by simp
  then have "ucast (drop_bit 10 (word_of_nat x :: UTF32) + 0xD800) = (word_of_nat (0xD800 + x div 1024) :: UTF16)"
    by (metis of_nat_unat)
  moreover have "unat ((word_of_nat x AND halfMask) + 0xDC00) = 0xDC00 + x mod 1024"
    unfolding unat_word_ariths unat_and_3FF u by simp
  then have "ucast ((word_of_nat x AND halfMask) + 0xDC00) = (word_of_nat (0xDC00 + x mod 1024) :: UTF16)"
    by (metis of_nat_unat)
  ultimately show ?thesis
    using assms(2) by (simp add: surrogates_def utf16_enc_def ch Let_def halfShift_def UNI_SUR_HIGH_START_def
        UNI_SUR_LOW_START_def x_def)
qed

lemma length_utf16_enc: "length (utf16_enc cp) = (if cp < 0x10000 then 1 else 2)"
  by (simp add: utf16_enc_def)

lemma read_utf16_enc:
  assumes "scalar cp"
  shows "read_utf16 flags (utf16_enc cp @ r) = Inr (utf32_enc cp, r)"
proof (cases "cp < 0x10000")
  case True
  have "ucast (word_of_nat cp :: UTF16) = utf32_enc cp"
    using ucast_unit [OF True] by (simp add: utf32_enc_def)
  then show ?thesis
    using True by (simp add: utf16_enc_def Let_def enc_cmp(5,6) [OF assms])
next
  case False
  define x where "x = cp - 0x10000"
  have x: "x < 0x100000" "cp = 0x10000 + x" using False scalar_less [OF assms] by (simp_all add: x_def)
  let ?h = "0xD800 + x div 1024" and ?l = "0xDC00 + x mod 1024"
  have small: "?h < 0xDC00" "?l < 0xE000" using x(1) by linarith+
  then have val: "unat (word_of_nat ?h :: UTF32) = ?h" "unat (word_of_nat ?l :: UTF32) = ?l"
    by (simp_all only: unat_of_nat) simp_all
  have wide: "ucast (word_of_nat ?h :: UTF16) = (word_of_nat ?h :: UTF32)"
      "ucast (word_of_nat ?l :: UTF16) = (word_of_nat ?l :: UTF32)"
    using small by (intro ucast_unit; linarith)+
  have bounds: "UNI_SUR_HIGH_START \<le> word_of_nat ?h" "word_of_nat ?h \<le> UNI_SUR_HIGH_END"
      "UNI_SUR_LOW_START \<le> word_of_nat ?l" "word_of_nat ?l \<le> UNI_SUR_LOW_END"
    using small unfolding word_le_nat_alt val by (simp_all add: utf_consts)
  have "(word_of_nat (x div 1024 * 1024 + x mod 1024) :: UTF32)
      = word_of_nat (x div 1024) * 1024 + word_of_nat (x mod 1024)"
    unfolding of_nat_add of_nat_mult by simp
  then have "word_of_nat (x div 1024) * 1024 + word_of_nat (x mod 1024) = (word_of_nat x :: UTF32)"
    unfolding div_mult_mod_eq by (rule sym)
  then have whole: "push_bit halfShift (word_of_nat ?h - UNI_SUR_HIGH_START)
      + (word_of_nat ?l - UNI_SUR_LOW_START) + halfBase = utf32_enc cp"
    using x(2) by (simp add: utf_consts push_bit_eq_mult utf32_enc_def)
  have enc: "utf16_enc cp = [word_of_nat ?h, word_of_nat ?l]"
    using False by (simp add: utf16_enc_def x_def)
  show ?thesis
    unfolding enc by (simp only: append_Cons append_Nil read_utf16.simps Let_def list.case wide bounds whole simp_thms if_True)
qed

section \<open>The conversions on well-formed text\<close>

abbreviation utf8_text :: "nat list \<Rightarrow> UTF8 list" where
  "utf8_text cps \<equiv> concat (map utf8_enc cps)"

abbreviation utf16_text :: "nat list \<Rightarrow> UTF16 list" where
  "utf16_text cps \<equiv> concat (map utf16_enc cps)"

abbreviation utf32_text :: "nat list \<Rightarrow> UTF32 list" where
  "utf32_text cps \<equiv> map utf32_enc cps"

lemma utf16_enc_nonempty [simp]: "utf16_enc cp \<noteq> []"
  by (simp add: utf16_enc_def)

lemma utf16_enc_small: "scalar cp \<Longrightarrow> cp < 0x10000 \<Longrightarrow> utf16_enc cp = [ucast (utf32_enc cp)]"
  by (simp add: utf16_enc_def ucast_enc)

lemma utf16_enc_large: "scalar cp \<Longrightarrow> \<not> cp < 0x10000 \<Longrightarrow> utf16_enc cp = surrogates (utf32_enc cp)"
  by (simp add: surrogates_enc)

lemma length_surrogates [simp]: "length (surrogates c) = 2"
  by (simp add: surrogates_def Let_def)

lemma utf32_utf8_text:
  "list_all scalar cps \<Longrightarrow> length (target @ utf8_text cps) \<le> room \<Longrightarrow>
   utf32_utf8_loop flags room result (utf32_text cps) target = (result, [], target @ utf8_text cps)"
  by (induction cps arbitrary: target) (simp_all add: enc_cmp write_is_encoding)

lemma utf8_utf32_text:
  "list_all scalar cps \<Longrightarrow> length target + length cps \<le> room \<Longrightarrow>
   utf8_utf32_loop flags room result (utf8_text cps) target = (result, [], target @ utf32_text cps)"
  by (induction cps arbitrary: target)
    (simp_all add: utf8_utf32_loop.simps read_utf8_enc enc_cmp(1,4))

lemma utf32_utf16_text:
  "list_all scalar cps \<Longrightarrow> length (target @ utf16_text cps) \<le> room \<Longrightarrow>
   utf32_utf16_loop flags room result (utf32_text cps) target = (result, [], target @ utf16_text cps)"
proof (induction cps arbitrary: target)
  case Nil
  then show ?case by simp
next
  case (Cons cp cps)
  then show ?case
    by (cases "cp < 0x10000") (simp_all add: enc_cmp(3,4) enc_not_above not_less utf16_enc_small utf16_enc_large)
qed

lemma utf16_utf32_text:
  "list_all scalar cps \<Longrightarrow> length target + length cps \<le> room \<Longrightarrow>
   utf16_utf32_loop flags room (utf16_text cps) target = (conversionOK, [], target @ utf32_text cps)"
  by (induction cps arbitrary: target) (simp_all add: utf16_utf32_loop.simps read_utf16_enc)

lemma utf16_utf8_text:
  "list_all scalar cps \<Longrightarrow> length (target @ utf8_text cps) \<le> room \<Longrightarrow>
   utf16_utf8_loop flags room (utf16_text cps) target = (conversionOK, [], target @ utf8_text cps)"
  by (induction cps arbitrary: target)
    (simp_all add: utf16_utf8_loop.simps read_utf16_enc enc_cmp(7,8) write_is_encoding)

lemma utf8_utf16_text:
  "list_all scalar cps \<Longrightarrow> length (target @ utf16_text cps) \<le> room \<Longrightarrow>
   utf8_utf16_loop flags room (utf8_text cps) target = (conversionOK, [], target @ utf16_text cps)"
proof (induction cps arbitrary: target)
  case Nil
  then show ?case by (simp add: utf8_utf16_loop.simps)
next
  case (Cons cp cps)
  then show ?case
    by (cases "cp < 0x10000")
      (simp_all add: utf8_utf16_loop.simps [of _ _ "utf8_enc cp @ _"] read_utf8_enc enc_cmp(3,4) enc_not_above not_less utf16_enc_small utf16_enc_large)
qed

section \<open>Properties\<close>

text \<open>
  C9. On well-formed text all six conversions agree: with room for the result, strict or lenient,
  each turns the encoding of any scalar values in its source form into the encoding of the same
  values in its target form, and consumes the whole source.
\<close>

theorem conversions_agree_on_text:
  assumes "list_all scalar cps"
  shows "(length (utf8_text cps) \<le> room \<longrightarrow>
      ConvertUTF32toUTF8 flags room (utf32_text cps) = (conversionOK, [], utf8_text cps)
      \<and> ConvertUTF16toUTF8 flags room (utf16_text cps) = (conversionOK, [], utf8_text cps))
    \<and> (length (utf16_text cps) \<le> room \<longrightarrow>
      ConvertUTF32toUTF16 flags room (utf32_text cps) = (conversionOK, [], utf16_text cps)
      \<and> ConvertUTF8toUTF16 flags room (utf8_text cps) = (conversionOK, [], utf16_text cps))
    \<and> (length cps \<le> room \<longrightarrow>
      ConvertUTF8toUTF32 flags room (utf8_text cps) = (conversionOK, [], utf32_text cps)
      \<and> ConvertUTF16toUTF32 flags room (utf16_text cps) = (conversionOK, [], utf32_text cps))"
  using utf32_utf8_text [OF assms, of "[]"] utf16_utf8_text [OF assms, of "[]"]
    utf32_utf16_text [OF assms, of "[]"] utf8_utf16_text [OF assms, of "[]"]
    utf8_utf32_text [OF assms, of "[]"] utf16_utf32_text [OF assms, of "[]"]
  by (simp add: ConvertUTF32toUTF8_def ConvertUTF16toUTF8_def ConvertUTF32toUTF16_def
      ConvertUTF8toUTF16_def ConvertUTF8toUTF32_def ConvertUTF16toUTF32_def)

theorem conversions_agree_on_text_witness:
  "list_all scalar [0x41, 0x20AC, 0x1F600]
   \<and> ConvertUTF32toUTF8 strictConversion 8 [0x41, 0x20AC, 0x1F600]
       = (conversionOK, [], [0x41, 0xE2, 0x82, 0xAC, 0xF0, 0x9F, 0x98, 0x80])
   \<and> ConvertUTF8toUTF16 strictConversion 4 [0x41, 0xE2, 0x82, 0xAC, 0xF0, 0x9F, 0x98, 0x80]
       = (conversionOK, [], [0x41, 0x20AC, 0xD83D, 0xDE00])"
proof -
  have cps: "list_all scalar [0x41, 0x20AC, 0x1F600]" by (simp add: scalar_def)
  show ?thesis
    using cps conversions_agree_on_text [OF cps, of 8 strictConversion]
      conversions_agree_on_text [OF cps, of 4 strictConversion]
    by (simp add: utf8_enc_def utf16_enc_def utf32_enc_def)
qed

text \<open>
  The byte sequences that the decoder takes for the value \<open>cp\<close>: its encoding, or one of the
  ill-formed sequences that \<^verbatim>\<open>isLegalUTF8\<close> lets pass.
\<close>

definition taken_for :: "UTF8 list \<Rightarrow> nat \<Rightarrow> bool" where
  "taken_for bs cp \<longleftrightarrow> (scalar cp \<and> bs = utf8_enc cp)
     \<or> (\<exists>ns. ill_formed ns \<and> bs = map word_of_nat ns \<and> cp = value_of ns)"

lemma taken_legal: "taken_for bs cp \<longleftrightarrow> (\<exists>ns. legal_bytes ns \<and> bs = map word_of_nat ns \<and> cp = value_of ns)"
proof
  assume "taken_for bs cp"
  then show "\<exists>ns. legal_bytes ns \<and> bs = map word_of_nat ns \<and> cp = value_of ns"
    unfolding taken_for_def using enc_is_legal ill_formed_legal by metis
next
  assume "\<exists>ns. legal_bytes ns \<and> bs = map word_of_nat ns \<and> cp = value_of ns"
  then obtain ns where "legal_bytes ns" "bs = map word_of_nat ns" "cp = value_of ns" by blast
  then show "taken_for bs cp" unfolding taken_for_def using legal_is_enc by blast
qed

lemma taken_scalar: "taken_for bs cp \<Longrightarrow> scalar cp"
  unfolding taken_for_def using ill_formed_legal by blast

lemma read_taken: "taken_for bs cp \<Longrightarrow> read_utf8 (bs @ r) = Inr (utf32_enc cp, r)"
  unfolding taken_legal using read_utf8_legal by blast

lemma read_is_taken:
  "source \<noteq> [] \<Longrightarrow> read_utf8 source = Inr (ch, r) \<Longrightarrow> \<exists>bs cp. taken_for bs cp \<and> source = bs @ r \<and> ch = utf32_enc cp"
  unfolding taken_legal using read_utf8_is_legal by blast

lemma read_utf8_codes: "read_utf8 source = Inl r \<Longrightarrow> r = sourceExhausted \<or> r = sourceIllegal"
  by (auto simp: read_utf8_def Let_def split: if_splits prod.splits)

text \<open>How far a decoder came: \<open>ps\<close> are the sequences it consumed with their values.\<close>

definition decoded :: "nat \<Rightarrow> UTF8 list \<Rightarrow> ConversionResult \<Rightarrow> UTF8 list \<Rightarrow> UTF32 list \<Rightarrow> UTF32 list
    \<Rightarrow> (UTF8 list \<times> nat) list \<Rightarrow> bool" where
  "decoded room source r rest target out ps \<longleftrightarrow>
     (\<forall>(bs, cp) \<in> set ps. taken_for bs cp)
   \<and> source = concat (map fst ps) @ rest \<and> out = target @ map (\<lambda>(bs, cp). utf32_enc cp) ps
   \<and> length out \<le> room
   \<and> (r = conversionOK \<longleftrightarrow> rest = []) \<and> (r = targetExhausted \<longrightarrow> length out = room)
   \<and> (r = sourceIllegal \<or> r = sourceExhausted \<longrightarrow> (\<forall>bs cp s. taken_for bs cp \<longrightarrow> rest \<noteq> bs @ s))"

lemma decoded_Cons:
  "taken_for bs cp \<Longrightarrow> decoded room source r rest (target @ [utf32_enc cp]) out ps
   \<Longrightarrow> decoded room (bs @ source) r rest target out ((bs, cp) # ps)"
  by (auto simp: decoded_def)

lemma utf8_utf32_loop_decodes:
  "utf8_utf32_loop flags room result source target = (r, rest, out) \<Longrightarrow> result = conversionOK
   \<Longrightarrow> length target \<le> room \<Longrightarrow> \<exists>ps. decoded room source r rest target out ps"
proof (induction flags room result source target arbitrary: r rest out rule: utf8_utf32_loop.induct)
  case (1 flags room result source target)
  note eq = "1.prems"(1) [unfolded utf8_utf32_loop.simps [of _ _ _ source]]
  show ?case
  proof (cases "source = []")
    case True
    then have "decoded room source r rest target out []"
      using eq "1.prems"(2,3) by (simp add: decoded_def)
    then show ?thesis by blast
  next
    case False
    show ?thesis
    proof (cases "read_utf8 source")
      case (Inl q)
      then have "taken_for bs cp \<longrightarrow> source \<noteq> bs @ s" for bs cp s using read_taken by fastforce
      then have "decoded room source r rest target out []"
        using eq Inl False "1.prems"(3) read_utf8_codes [OF Inl] by (auto simp: decoded_def)
      then show ?thesis by blast
    next
      case (Inr v)
      then obtain ch source2 where v: "read_utf8 source = Inr (ch, source2)" by (cases v) auto
      obtain bs cp where cp: "taken_for bs cp" "source = bs @ source2" "ch = utf32_enc cp"
        using read_is_taken [OF False v] by blast
      note cmp = enc_cmp(1,4) [OF taken_scalar [OF cp(1)]]
      show ?thesis
      proof (cases "room \<le> length target")
        case True
        then have "decoded room source r rest target out []"
          using eq v False "1.prems"(3) by (auto simp: decoded_def)
        then show ?thesis by blast
      next
        case room: False
        then have "utf8_utf32_loop flags room result source2 (target @ [utf32_enc cp]) = (r, rest, out)"
          using eq v False cmp cp(3) by simp
        then have "\<exists>ps. decoded room source2 r rest (target @ [utf32_enc cp]) out ps"
          using "1.IH"(2) [OF False v refl room] cmp cp(3) room "1.prems"(2) by simp
        then show ?thesis unfolding cp(2) using decoded_Cons [OF cp(1)] by blast
      qed
    qed
  qed
qed

text \<open>
  C10. What \<^verbatim>\<open>ConvertUTF8toUTF32\<close> does with any bytes, strict or lenient. It consumes sequences it
  accepts one after the other and writes their values, never beyond the target; it reports success
  exactly when nothing is left; when it reports a full target the target is full; and when it
  reports an illegal or incomplete source, no acceptable sequence begins where it stopped. It
  accepts the encodings of scalar values and, against the standard, the sequences of \<open>ill_formed\<close>.
\<close>

theorem utf8_decoder_contract:
  assumes "ConvertUTF8toUTF32 flags room source = (r, rest, out)"
  shows "\<exists>ps. (\<forall>(bs, cp) \<in> set ps. taken_for bs cp)
    \<and> source = concat (map fst ps) @ rest \<and> out = map (\<lambda>(bs, cp). utf32_enc cp) ps
    \<and> length out \<le> room
    \<and> (r = conversionOK \<longleftrightarrow> rest = []) \<and> (r = targetExhausted \<longrightarrow> length out = room)
    \<and> (r = sourceIllegal \<or> r = sourceExhausted \<longrightarrow> (\<forall>bs cp s. taken_for bs cp \<longrightarrow> rest \<noteq> bs @ s))"
  using utf8_utf32_loop_decodes [of flags room conversionOK source "[]" r rest out] assms
  by (auto simp: ConvertUTF8toUTF32_def decoded_def)

text \<open>The strict decoder takes \<open>ED 41 80\<close>, which is no UTF-8, for the character \<open>U+C040\<close>.\<close>

lemma strict_decoder_takes_ill_formed:
  "ConvertUTF8toUTF32 strictConversion 1 [0xED, 0x41, 0x80] = (conversionOK, [], [0xC040])"
proof -
  have "read_utf8 ([0xED, 0x41, 0x80] @ []) = Inr (0xC040, [])"
    using read_utf8_legal [of "[0xED, 0x41, 0x80]" "[]"] by (simp add: utf32_enc_def)
  then show ?thesis
    by (simp add: ConvertUTF8toUTF32_def utf8_utf32_loop.simps utf_consts)
qed

theorem utf8_decoder_contract_witness:
  "\<exists>ps. (\<forall>(bs, cp) \<in> set ps. taken_for bs cp) \<and> [0xED, 0x41, 0x80] = concat (map fst ps)
     \<and> [0xC040] = map (\<lambda>(bs, cp). utf32_enc cp) ps"
  using utf8_decoder_contract [OF strict_decoder_takes_ill_formed] by auto

text \<open>
  \<^verbatim>\<open>ConvertUTF32toUTF16\<close> alone goes on after a value above \<open>0x10FFFF\<close> in strict mode: it drops the value
  without a trace in the target and leaves no pointer to it, and a later exhausted target hides the
  error.
\<close>

lemma strict_utf32_utf16_skips:
  "ConvertUTF32toUTF16 strictConversion 2 [0x41, 0x110000, 0x42] = (sourceIllegal, [], [0x41, 0x42])"
  "ConvertUTF32toUTF16 strictConversion 1 [0x41, 0x110000, 0x42] = (targetExhausted, [0x110000, 0x42], [0x41])"
  "ConvertUTF32toUTF16 strictConversion 1 [0x110000, 0x41, 0x42] = (targetExhausted, [0x42], [0x41])"
  by (simp_all add: ConvertUTF32toUTF16_def utf_consts)

text \<open>
  \<^verbatim>\<open>ConvertUTF32toUTF8\<close> replaces such a value in strict mode as in lenient mode, and reports it in both.
\<close>

lemma utf32_utf8_replaces:
  "ConvertUTF32toUTF8 flags 4 [0x110000, 0x41] = (sourceIllegal, [], [0xEF, 0xBF, 0xBD, 0x41])"
  by (simp add: ConvertUTF32toUTF8_def utf_consts numeral_3_eq_3 firstByteMark_def bytesToWrite_def word_unat_eq_iff)

section \<open>The target is never overrun\<close>

lemma length_write_switch: "length (write_switch bytes n ch acc) = n + length acc"
  by (induction bytes n ch acc rule: write_switch.induct) auto

lemma utf32_utf8_room:
  "length target \<le> room \<Longrightarrow> length (snd (snd (utf32_utf8_loop flags room result source target))) \<le> room"
  by (induction source arbitrary: result target) (auto simp: Let_def length_write_switch)

lemma utf32_utf16_room:
  "length target \<le> room \<Longrightarrow> length (snd (snd (utf32_utf16_loop flags room result source target))) \<le> room"
  by (induction source arbitrary: result target) auto

lemma utf16_utf32_room:
  "length target \<le> room \<Longrightarrow> length (snd (snd (utf16_utf32_loop flags room source target))) \<le> room"
proof (induction flags room source target rule: utf16_utf32_loop.induct)
  case (1 flags room source target)
  then show ?case
    by (subst utf16_utf32_loop.simps) (auto simp: Let_def length_write_switch split: sum.splits if_splits)
qed

lemma utf16_utf8_room:
  "length target \<le> room \<Longrightarrow> length (snd (snd (utf16_utf8_loop flags room source target))) \<le> room"
proof (induction flags room source target rule: utf16_utf8_loop.induct)
  case (1 flags room source target)
  then show ?case
    by (subst utf16_utf8_loop.simps) (auto simp: Let_def length_write_switch split: sum.splits if_splits)
qed

lemma utf8_utf16_room:
  "length target \<le> room \<Longrightarrow> length (snd (snd (utf8_utf16_loop flags room source target))) \<le> room"
proof (induction flags room source target rule: utf8_utf16_loop.induct)
  case (1 flags room source target)
  then show ?case
    by (subst utf8_utf16_loop.simps) (auto split: sum.splits if_splits; blast)
qed

lemma utf8_utf32_room:
  "length target \<le> room \<Longrightarrow> length (snd (snd (utf8_utf32_loop flags room result source target))) \<le> room"
proof (induction flags room result source target rule: utf8_utf32_loop.induct)
  case (1 flags room result source target)
  then show ?case
    by (subst utf8_utf32_loop.simps) (auto simp: Let_def length_write_switch split: sum.splits if_splits)
qed

text \<open>Whatever the source, no conversion writes more units than the target has room for.\<close>

lemma conversions_stay_in_the_target:
  "length (snd (snd (ConvertUTF32toUTF8 flags room s32))) \<le> room"
  "length (snd (snd (ConvertUTF32toUTF16 flags room s32))) \<le> room"
  "length (snd (snd (ConvertUTF16toUTF8 flags room s16))) \<le> room"
  "length (snd (snd (ConvertUTF16toUTF32 flags room s16))) \<le> room"
  "length (snd (snd (ConvertUTF8toUTF16 flags room s8))) \<le> room"
  "length (snd (snd (ConvertUTF8toUTF32 flags room s8))) \<le> room"
  by (simp_all add: ConvertUTF32toUTF8_def ConvertUTF16toUTF8_def ConvertUTF32toUTF16_def
      ConvertUTF8toUTF16_def ConvertUTF8toUTF32_def ConvertUTF16toUTF32_def utf32_utf8_room utf32_utf16_room
      utf16_utf32_room utf16_utf8_room utf8_utf16_room utf8_utf32_room)

text \<open>\<^verbatim>\<open>isLegalUTF8Sequence\<close> answers for the first sequence of its source as the decoder does.\<close>

lemma isLegalUTF8Sequence_accepts:
  assumes "taken_for bs cp"
  shows "isLegalUTF8Sequence (bs @ s) = Some True"
proof -
  have "bs \<noteq> []" using assms unfolding taken_legal by (auto dest: legal_bytes.elims)
  then obtain b bs' where bs: "bs = b # bs'" by (cases bs) auto
  have "read_utf8 (bs @ s) = Inr (utf32_enc cp, s)" using read_taken [OF assms] .
  then show ?thesis
    by (auto simp: read_utf8_def isLegalUTF8Sequence_def bs Let_def split: if_splits)
qed

lemma isLegalUTF8Sequence_empty: "isLegalUTF8Sequence [] = None"
  by (simp add: isLegalUTF8Sequence_def)

end
