(* ===== verification/Spec2Isabelle.thy ===== *)
theory Spec2Isabelle
  imports RedeemTool ClientMain SdsEdit SdsQuote RedisConn ListenerRead Zmalloc Http MemPool SingleProgress DebugLog ConvertUTF
begin

text \<open>
  ServerCom is a set of small server components. \<^verbatim>\<open>RedeemCode\<close> generates and checks promotion codes.
  \<^verbatim>\<open>ClientSimulate/lib_prj\<close> is a network library on libevent: connections, a listener with the
  connections it accepts, timers, HTTP, an etcd client, and utilities. \<^verbatim>\<open>ClientSimulate/main_prj\<close> is a
  client program that uses it. \<^verbatim>\<open>redisClient\<close> is a redis client on the hiredis sources it builds,
  with the event loop of redis. \<^verbatim>\<open>gflags_SimpleIni\<close> holds the Unicode conversions of its ini reader.

  \<^bold>\<open>The theories and the code they model.\<close>
  \<^item> \<open>CPrelude\<close>: bytes, C strings, character classes, decimal numbers and \<^verbatim>\<open>strtol\<close>, wrap-around of
    fixed-width integers, the allocator interface. \<open>StdMap\<close>: \<^verbatim>\<open>std::map\<close>. \<open>StepRun\<close>: runs of
    operations that may be undefined.
  \<^item> \<open>RedeemCode\<close>, \<open>RedeemTool\<close>: \<^verbatim>\<open>RedeemCode/src/serialcode_parser.{h,cc}\<close>, the code algorithm at
    its word widths (\<^verbatim>\<open>RedeemCodeMgr\<close>) and the generator with its history file (\<^verbatim>\<open>RedeemCodeTool\<close>).
  \<^item> \<open>Connector\<close>: \<^verbatim>\<open>lib_prj/connector.{h,cc}\<close>, class \<^verbatim>\<open>BaseConnect\<close>: connecting, the read callback that
    cuts the stream into messages, sending. \<open>Listener\<close>, \<open>ListenerRead\<close>: \<^verbatim>\<open>lib_prj/listener.{h,cc}\<close>,
    the manager that owns the accepted connections and deletes them while their callbacks run, and
    the read callback of \<^verbatim>\<open>connector.cc\<close> on such an object.
  \<^item> \<open>LevTimer\<close>: \<^verbatim>\<open>lib_prj/lev_mgr.{h,cc}\<close> and \<^verbatim>\<open>timer_mgr.{h,cc}\<close>. \<open>ClientMain\<close>: \<^verbatim>\<open>main_prj\<close>. \<open>Http\<close>:
    \<^verbatim>\<open>lib_prj/http.{h,cc}\<close> and \<^verbatim>\<open>etcd_client.h\<close>. \<open>MemPool\<close>: \<^verbatim>\<open>utility/mem_pool.h\<close> and \<^verbatim>\<open>stlBoost.h\<close>.
    \<open>SingleProgress\<close>: \<^verbatim>\<open>utility/single_progress.{hpp,cpp}\<close>. \<open>DebugLog\<close>: \<^verbatim>\<open>utility/logFile.{h,cpp}\<close>.
  \<^item> \<open>Sds\<close>, \<open>SdsFormat\<close>, \<open>SdsEdit\<close>, \<open>SdsSplit\<close>, \<open>SdsQuote\<close>: \<^verbatim>\<open>hiredis/sds.{h,c}\<close>, the dynamic strings.
  \<^item> \<open>RespReader\<close>, \<open>RespStream\<close>, \<open>RespSession\<close>, \<open>RespDecode\<close>: the reply reader of \<^verbatim>\<open>hiredis.c\<close>, its
    independence of how the bytes are cut, and what it decodes. \<open>RespFormat\<close>: the command formatting
    of \<^verbatim>\<open>hiredis.c\<close>. \<open>RedisNet\<close>: \<^verbatim>\<open>net.{h,c}\<close>. \<open>RedisContext\<close>: the contexts of \<^verbatim>\<open>hiredis.c\<close>.
  \<^item> \<open>Async\<close>, \<open>AsyncRelease\<close>, \<open>AsyncCommands\<close>, \<open>AsyncReplies\<close>: \<^verbatim>\<open>async.{h,c}\<close>. \<open>Dict\<close>: \<^verbatim>\<open>dict.{h,c}\<close>.
    \<open>Zmalloc\<close>: \<^verbatim>\<open>zmalloc.{h,c}\<close>. \<open>AeLoop\<close>, \<open>AeRegistry\<close>, \<open>AeTimers\<close>: \<^verbatim>\<open>ae.{h,c}\<close> and \<^verbatim>\<open>ae_epoll.c\<close>.
    \<open>AeAdapter\<close>: \<^verbatim>\<open>adapters/libae.h\<close>. \<open>RedisConn\<close>: \<^verbatim>\<open>redisClient/src/RedisConn.{h,cpp}\<close> and
    \<^verbatim>\<open>HiredisEventMgr.{h,cpp}\<close>.
  \<^item> \<open>ConvertUTF\<close>: \<^verbatim>\<open>gflags_SimpleIni/dep/SimpleIni/ConvertUTF.{h,c}\<close>.

  \<^bold>\<open>How state and operations are represented.\<close> A struct or class is a record with the names of its
  members, an operation a function that returns the new record with its result; a function of the
  code keeps its name where that is free. \<open>None\<close> as the result of an operation is a run the code
  leaves undefined or aborts: a null pointer that is followed, a deleted object, an index out of
  range, a failed \<^verbatim>\<open>assert\<close>. Objects that are deleted while their own functions run (accepted
  connections, HTTP clients, callback objects) live in an explicit heap; each theory says what its
  \<open>None\<close> stands for. Integers are words, or integers with the conversion written out, where their
  width matters. libevent, the operating system, the allocator below \<^verbatim>\<open>zmalloc\<close>, \<^verbatim>\<open>printf\<close> conversions
  and the code of derived classes and callbacks are arguments of the definitions. What the proofs
  need of them is a named hypothesis (\<open>reads_prefix\<close>, \<open>appends\<close>, \<open>recv_safe\<close> and the like), shown to
  be satisfiable by the witness next to the theorem.

  \<^bold>\<open>The interfaces\<close> are locales, each interpreted on the model in the theory that provides it:
  \<open>bounded_map_adt\<close> and \<open>finite_map_adt\<close> (StdMap; the hash table of Dict meets the bounded one, the
  sorted list of StdMap the other, which extends it, for Listener and Zmalloc), \<open>byte_buffer\<close> and
  \<open>growing_buffer\<close> (Sds; joining strings in SdsQuote is a run of appends), \<open>event_registry\<close> (AeRegistry; the
  client is AeAdapter), \<open>safe_steps\<close> (StepRun; the pool of blocks and the manager of connections are runs
  of it).

  \<^bold>\<open>What the lemmas show\<close>, component by component:
  \<^item> Codes: the generated codes are exactly those that pass the check, each yields its function id, and
    no sequence of runs with function ids other than 0 hands one out twice as long as the history file is rewritten
    after the codes are out; a run that fails to do so repeats its codes later.
  \<^item> Connections: the read callback stores inside its buffer, except when a body of 128 bytes is cut; framed
    messages arrive complete and in order when the bytes are not cut inside of a body; a manager holds exactly the
    live connections and deletes each once, for every order of events and every callback that keeps to the stated
    rules. The property of this theory joins client, listener, manager and connection, for any number
    of pieces. The behaviours that break these promises are properties of their own: a body cut in
    two, which drops the connection, or overruns the buffer when it has 128 bytes, the four bytes that \<^verbatim>\<open>send_data\<close> adds,
    an answer from \<^verbatim>\<open>OnRecv\<close> that deletes the connection.
  \<^item> HTTP and timers: an HTTP client object is told one thing and deleted once, unless its connection closes before the request
    ends or the request is refused, where the object remains; the server answers a request once; the state of a timer follows its event, except
    for a one-shot timer that has fired and for a start that libevent refuses.
  \<^item> Utilities: the steps of any number of processes leave one running under a name; the pool is
    exclusive; \<^verbatim>\<open>used_memory\<close> is the size of the live blocks (in the build with jemalloc, as the Makefile has it).
  \<^item> Strings: every operation keeps the header well-formed and has its stated contents; formatting
    means what its format denotes; splitting joins back; quoting is undone by splitting.
  \<^item> Replies: any stream of encoded replies is decoded to these replies, and the bytes may be cut
    anywhere. Commands are encoded as the protocol asks, also from a format.
  \<^item> Contexts: bytes leave in order and once; a command gets its reply; replies go to the callbacks of
    their commands in order; a released or broken context calls every waiting callback once.
  \<^item> Event loop: table, kernel and highest descriptor stay in step; due timers run once per round if no
    handler deletes a timer, the clock does not go back and no period passes within the round; the
    loop watches a context only for what its hooks last asked for, until the hooks are cleaned up; a broken
    connection of \<^verbatim>\<open>RedisConn\<close> with ordinary commands calls every waiting callback once and is cleaned up.
  \<^item> Hash table: it refines a finite map through rehashing, and iterating visits every entry once.
  \<^item> Unicode: on well-formed text the six conversions agree; on any bytes the UTF-8 decoder consumes
    and rejects exactly what is stated, which is more than the standard allows; no conversion
    overruns its target.

  \<^bold>\<open>Bounds and fuel.\<close> The header of a string counts in \<^verbatim>\<open>unsigned int\<close>: appends are bounded by \<open>2 ^ 32\<close>
  with the spare space the code adds (\<open>sds_fits\<close>); operations that assign a length to \<^verbatim>\<open>int\<close>, such as \<^verbatim>\<open>sdscatfmt\<close>, streams of
  replies and commands by \<open>2 ^ 31\<close>; beyond that the header wraps, which the model keeps. Fewer than
  \<open>2 ^ 64\<close> connections are accepted, so the 64-bit id does not wrap. A message body has at most
  \<open>MAX_MSG_DATA_LEN\<close> bytes. The stack of the reply reader has nine entries, so arrays nest at most
  eight deep. Loops are recursions with a measure. The loops that need not end are partial functions
  into an option: the loops of \<^verbatim>\<open>redisGetReply\<close>, the queues of callbacks that may grow while they are
  worked off, a round of timers, \<^verbatim>\<open>aeMain\<close>; the theorems about them give a result. \<open>dispatch\<close>, the
  loop of the client program, and \<open>visit\<close>, a program that walks a hash table, take fuel: four passes
  suffice for the three ticks of the timer, and one call more than there are entries for the walk.

  \<^bold>\<open>Not modelled.\<close> Log output; the release of memory where nothing depends on it; the headers of
  libevent, jemalloc and gflags, which belong to other projects; \<^verbatim>\<open>SimpleIni.h\<close>, a third-party
  template library that only an example uses; \<^verbatim>\<open>BacktraceInfo\<close>, which prints the stack of a crash
  through the shell, and the macros of \<^verbatim>\<open>misc.h\<close>; the test and example programs; the branches of the
  code for other systems than Linux. The logger is the copy of ClientSimulate and RedeemCode; the
  other two copies write their output in a different way. Callbacks of derived classes are taken to
  make the calls that their model lists, in particular no recursive run of an event loop. Several
  threads do not occur in this code; several processes are the subject of \<open>SingleProgress\<close>.
\<close>

section \<open>From a client to the server\<close>

text \<open>
  A client program frames its messages and queues them with \<^verbatim>\<open>send_data_no_head\<close>; it stops at the
  first call that fails.
\<close>

fun send_frames :: "writer \<Rightarrow> byte list list \<Rightarrow> BaseConnect \<Rightarrow> bool \<times> BaseConnect" where
  "send_frames wr [] s = (True, s)"
| "send_frames wr (b # bs) s =
     (case send_data_no_head wr (Some (frame b)) (length (frame b)) s of
        (False, s') \<Rightarrow> (False, s')
      | (True, s') \<Rightarrow> send_frames wr bs s')"

lemma send_frame_queues:
  assumes "appends wr" "can_send s out"
  shows "\<exists>s'. send_data_no_head wr (Some (frame b)) (length (frame b)) s = (True, s')
    \<and> output_of s' = out @ frame b \<and> m_is_connect s' \<and> m_fd s' \<noteq> 0 \<and> m_buf_e s' \<noteq> None \<and> m_msbs s' = m_msbs s"
  using assms by (auto simp: send_data_no_head_def can_send_def appends_def set_output_def output_of_def Let_def)

text \<open>The queue may grow to the given length before \<^verbatim>\<open>send_data_no_head\<close> gives up.\<close>

definition room_for :: "byte list \<Rightarrow> BaseConnect \<Rightarrow> bool" where
  "room_for bs s \<longleftrightarrow> m_msbs s = 0 \<or> length bs \<le> m_msbs s"

lemma send_frames_queues:
  "appends wr \<Longrightarrow> can_send s out \<Longrightarrow> room_for (out @ concat (map frame bodies)) s
   \<Longrightarrow> \<exists>s'. send_frames wr bodies s = (True, s') \<and> output_of s' = out @ concat (map frame bodies)"
proof (induction bodies arbitrary: out s)
  case Nil
  then show ?case by (auto simp: can_send_def output_of_def)
next
  case (Cons b bs)
  obtain s1 where s1: "send_data_no_head wr (Some (frame b)) (length (frame b)) s = (True, s1)"
      "output_of s1 = out @ frame b" "m_is_connect s1" "m_fd s1 \<noteq> 0" "m_buf_e s1 \<noteq> None" "m_msbs s1 = m_msbs s"
    using send_frame_queues [OF Cons.prems(1,2), of b] by blast
  have "can_send s1 (out @ frame b)" "room_for ((out @ frame b) @ concat (map frame bs)) s1"
    using s1 Cons.prems(3) by (auto simp: can_send_def room_for_def output_of_def)
  from Cons.IH [OF Cons.prems(1) this] s1(1) show ?case by simp
qed

lemma accepted_idle:
  "na_bev_new na \<Longrightarrow> length g = HEAD_LEN + MAX_MSG_DATA_LEN \<Longrightarrow> idle_conn (conn_base (accepted g na svr fd sa w))"
  by (simp add: accepted_def BaseAcceptInit_def BaseConnect_new_def idle_conn_def at_header_def call_def new_bev_def Let_def)

lemma accepted_received: "na_bev_new na \<Longrightarrow> received (conn_base (accepted g na svr fd sa w)) = []"
  by (simp add: accepted_def BaseAcceptInit_def BaseConnect_new_def call_def received_def Let_def)

text \<open>
  C8. Messages travel from a client program to the callback of the server. A client queues any
  messages of admissible size; the listener accepts its connection, and its bytes arrive in any number of
  read callbacks, cut between two frames or anywhere in a header, but never inside of a body (\<open>clean_cut\<close>; the code
  does not survive a cut body, which is a property of theory Connector). Then the
  connection is in the manager under the next id, alive, and its \<^verbatim>\<open>OnRecv\<close> was called with exactly
  these messages in order, whatever the callbacks do to other connections meanwhile (\<open>recv_safe\<close>: \<^verbatim>\<open>OnRecv\<close> does not end
  its own connection).
\<close>

theorem client_messages_reach_the_server:
  assumes lev: "appends wr" "reads_prefix rd" "na_bev_new na"
    and client: "can_send s []" "room_for (concat (map frame bodies)) s"
    and sizes: "\<forall>b \<in> set bodies. 0 < length b \<and> length b \<le> MAX_MSG_DATA_LEN"
    and server: "cn_inv w" "id_seed w \<noteq> - 1" "length g = HEAD_LEN + MAX_MSG_DATA_LEN"
    and safe: "recv_safe (id_seed w + 1) orv od"
    and pieces: "concat xs = concat (map frame bodies)" "\<forall>n \<le> length xs. clean_cut bodies (length (concat (take n xs)))"
  defines "p \<equiv> fresh_ptr w"
  shows "\<exists>s' w1 w2 c. send_frames wr bodies s = (True, s') \<and> output_of s' = concat xs
    \<and> run_event g svr (Ev_accept na fd sa []) w = Some w1
    \<and> server_reads rd orv od p xs w1 = Some w2
    \<and> cn_inv w2 \<and> FindConnect (id_seed w + 1) w2 = Some p \<and> objs w2 p = Some c
    \<and> received (conn_base c) = bodies \<and> idle_conn (conn_base c)"
proof -
  let ?c = "accepted g na svr fd sa w"
  let ?w1 = "registered ?c w"
  obtain s' where s': "send_frames wr bodies s = (True, s')" "output_of s' = concat xs"
    using send_frames_queues [OF lev(1) client(1), of bodies] client(2) pieces(1) by auto
  have o1: "objs ?w1 p = Some ?c" and i: "m_id ?c = id_seed w + 1"
    by (simp_all add: registered_def p_def accepted_def)
  have inv1: "cn_inv ?w1" by (rule cn_inv_registered [OF server(1,2)]) (simp_all add: accepted_def)
  have accept: "run_event g svr (Ev_accept na fd sa []) w = Some ?w1"
    using lev(3) by (simp add: listener_cb_eq)
  have rs: "recv_safe (m_id ?c) orv od" using safe i by simp
  have aw: "awaits bodies 0 [] (conn_base ?c)"
    by (rule awaits_idle [OF accepted_idle [OF lev(3) server(3)]])
  have xs: "concat xs = drop 0 (concat (map frame bodies))"
    "\<forall>n \<le> length xs. clean_cut bodies (0 + length (concat (take n xs)))" using pieces by simp_all
  obtain w2 c where w2: "server_reads rd orv od p xs ?w1 = Some w2" "cn_inv w2" "objs w2 p = Some c"
    "m_id c = m_id ?c" "received (conn_base c) = received (conn_base ?c) @ bodies" "idle_conn (conn_base c)"
    using server_reads_clean [OF lev(2) inv1 o1 rs aw sizes xs] by blast
  then have got: "received (conn_base c) = bodies" using accepted_received [OF lev(3)] by simp
  then have "FindConnect (id_seed w + 1) w2 = Some p"
    using cn_inv_find [OF w2(2,3)] w2(4) i by (simp add: FindConnect_def)
  then show ?thesis using s' accept w2(1,2,3,6) got by blast
qed

text \<open>Two messages in four pieces: the cuts are in a header, behind a header and between the frames.\<close>

theorem client_messages_reach_the_server_witness:
  "\<exists>s' w1 w2 c. let f = frame ''hello''; xs = [take 2 f, drop 2 (take 4 f), drop 4 f, frame ''a''] in
     send_frames (\<lambda>q bs. (True, q @ bs)) [''hello'', ''a''] sample_conn = (True, s') \<and> output_of s' = concat xs
    \<and> run_event (replicate 4100 NUL) zero_addr (Ev_accept ok_answers 7 zero_addr []) cn_start = Some w1
    \<and> server_reads take_reader (\<lambda>m. [U_CloseConnect 5]) [U_FreeSelf] 0 xs w1 = Some w2
    \<and> objs w2 0 = Some c \<and> received (conn_base c) = [''hello'', ''a'']"
proof -
  let ?f = "frame ''hello''"
  let ?xs = "[take 2 ?f, drop 2 (take 4 ?f), drop 4 ?f, frame ''a'']"
  have p: "fresh_ptr cn_start = 0" "id_seed cn_start = 0" by (simp_all add: cn_start_def)
  have lev: "appends (\<lambda>q bs. (True, q @ bs))" "na_bev_new ok_answers"
    by (simp_all add: appends_def ok_answers_def)
  have room: "room_for (concat (map frame [''hello'', ''a''])) sample_conn"
    by (simp add: room_for_def sample_conn_def BaseConnect_new_def frame_def)
  have "drop 2 (take 4 ?f) @ drop 4 ?f = drop 2 ?f" by (simp add: frame_def)
  then have all: "concat ?xs = concat (map frame [''hello'', ''a''])" by simp
  have "\<forall>n \<in> {0, 1, 2, 3, 4}. clean_cut [''hello'', ''a''] (length (concat (take n ?xs)))"
    by (simp add: HEAD_LEN_def)
  moreover have "n \<in> {0, 1, 2, 3, 4}" if "n \<le> length ?xs" for n using that by auto
  ultimately have cuts: "\<forall>n \<le> length ?xs. clean_cut [''hello'', ''a''] (length (concat (take n ?xs)))" by blast
  have sizes: "\<forall>b \<in> set [''hello'', ''a'']. 0 < length b \<and> length b \<le> MAX_MSG_DATA_LEN"
    by (simp add: MAX_MSG_DATA_LEN_def)
  have server: "cn_inv cn_start" "id_seed cn_start \<noteq> - 1" "length (replicate 4100 NUL) = HEAD_LEN + MAX_MSG_DATA_LEN"
    "recv_safe (id_seed cn_start + 1) (\<lambda>m. [U_CloseConnect 5]) [U_FreeSelf]"
    using cn_inv_start by (simp_all add: p MAX_MSG_DATA_LEN_def HEAD_LEN_def recv_safe_def)
  from client_messages_reach_the_server [OF lev(1) take_reader_ok lev(2) sample_conn_can_send room sizes server all cuts,
      of zero_addr 7 zero_addr]
  show ?thesis unfolding p Let_def by blast
qed

end
